(* ===== verification/EAF_Prelude.thy ===== *)
theory EAF_Prelude
  imports "HOL-Library.Word" "HOL-Library.Signed_Division"
begin

text \<open>
  Shared vocabulary of the development: the C integer types, the C arithmetic that HOL does
  not have under the same name (truncating division, narrowing casts to a signed type,
  saturation), block copies between arrays, and the generic facts about them that the
  component theories use.

  Conventions.
  \<^item> Unsigned machine integers of C are words of their width (\<open>u8\<close>, \<open>u16\<close>, \<open>u32\<close>, \<open>u64\<close>),
    so that \<open>+\<close>, \<open>-\<close> and \<open>*\<close> wrap around as in C.
  \<^item> Signed integers are \<open>int\<close>; every narrowing cast is written out (\<open>i16\<close>, \<open>i32\<close>, \<open>i64\<close>).
    Overflow of signed arithmetic is undefined in C, so the component theories prove that
    intermediate results stay in range (\<open>is_i32\<close>, \<open>is_i64\<close>).
  \<^item> \<open>size_t\<close> values (lengths, indices into an array) are \<open>nat\<close>.
  \<^item> Arrays are lists; \<open>memcpy\<close> into an array is \<open>blit\<close>.
  \<^item> A pointer to the object an operation works on is the object itself, so the test
    that rejects a NULL object has no counterpart; any other pointer the code compares with
    NULL is an \<open>option\<close>.
\<close>

unbundle bit_operations_syntax

type_synonym u8 = "8 word"
type_synonym u16 = "16 word"
type_synonym u32 = "32 word"
type_synonym u64 = "64 word"

named_theorems eaf_range \<open>ranges of signed results\<close>
named_theorems eaf_list \<open>array and block-copy facts\<close>

section \<open>Signed integers\<close>

definition is_i16 :: "int \<Rightarrow> bool" where
  "is_i16 x \<longleftrightarrow> - (2 ^ 15) \<le> x \<and> x < 2 ^ 15"

definition is_i32 :: "int \<Rightarrow> bool" where
  "is_i32 x \<longleftrightarrow> - (2 ^ 31) \<le> x \<and> x < 2 ^ 31"

definition is_i64 :: "int \<Rightarrow> bool" where
  "is_i64 x \<longleftrightarrow> - (2 ^ 63) \<le> x \<and> x < 2 ^ 63"

abbreviation (input) INT32_MAX :: int where "INT32_MAX \<equiv> 2147483647"
abbreviation (input) INT32_MIN :: int where "INT32_MIN \<equiv> - 2147483648"
abbreviation (input) UINT32_MAX :: nat where "UINT32_MAX \<equiv> 4294967295"

text \<open>Conversions to a signed type keep the value modulo the width (GCC and Clang).\<close>

definition i16 :: "int \<Rightarrow> int" where
  "i16 x = (x + 2 ^ 15) mod 2 ^ 16 - 2 ^ 15"

definition i32 :: "int \<Rightarrow> int" where
  "i32 x = (x + 2 ^ 31) mod 2 ^ 32 - 2 ^ 31"

definition i64 :: "int \<Rightarrow> int" where
  "i64 x = (x + 2 ^ 63) mod 2 ^ 64 - 2 ^ 63"

lemma is_i32_i32 [eaf_range, simp]: "is_i32 (i32 x)"
  by (simp add: is_i32_def i32_def)

lemma is_i64_i64 [eaf_range, simp]: "is_i64 (i64 x)"
  by (simp add: is_i64_def i64_def)

lemma is_i16_i16 [eaf_range, simp]: "is_i16 (i16 x)"
  by (simp add: is_i16_def i16_def)

lemma i32_id [simp]: "is_i32 x \<Longrightarrow> i32 x = x"
  by (simp add: is_i32_def i32_def)

lemma i64_id [simp]: "is_i64 x \<Longrightarrow> i64 x = x"
  by (simp add: is_i64_def i64_def)

lemma i16_id [simp]: "is_i16 x \<Longrightarrow> i16 x = x"
  by (simp add: is_i16_def i16_def)

lemma is_i32_0 [simp]: "is_i32 0"
  by (simp add: is_i32_def)


text \<open>
  C division truncates towards zero: \<open>(sdiv)\<close> of the library on \<open>int\<close>.
\<close>

lemma abs_sdiv_bound:
  assumes "0 < (b::int)" and "\<bar>a\<bar> \<le> b * c"
  shows "\<bar>a sdiv b\<bar> \<le> c"
proof -
  have "\<bar>a\<bar> div b \<le> (b * c) div b"
    using assms by (intro zdiv_mono1) simp_all
  then have le: "\<bar>a\<bar> div b \<le> c" using assms by simp
  have "0 \<le> \<bar>a\<bar> div b" using assms by (simp add: pos_imp_zdiv_nonneg_iff)
  with le assms show ?thesis
    by (cases "a = 0") (auto simp: signed_divide_int_def abs_mult sgn_if)
qed

lemma sdiv_sign:
  assumes "0 < (b::int)"
  shows "0 \<le> a \<Longrightarrow> 0 \<le> a sdiv b" and "a \<le> 0 \<Longrightarrow> a sdiv b \<le> 0"
  using assms by (auto simp: signed_divide_int_def sgn_if pos_imp_zdiv_nonneg_iff)

section \<open>Unsigned integers\<close>

lemma unat_diff_le: "b \<le> a \<Longrightarrow> unat ((a::'a::len word) - b) = unat a - unat b"
  by (rule unat_sub)

lemma unat_lt_32 [simp]: "unat (x::u32) < 4294967296"
  using unsigned_less [of x, where ?'a = nat] by simp

lemma unat_le_32 [simp]: "unat (x::u32) \<le> 4294967295"
  using unat_lt_32 [of x] by linarith

lemma unat_lt_8 [simp]: "unat (x::u8) < 256"
  using unsigned_less [of x, where ?'a = nat] by simp

lemma unat_lt_16 [simp]: "unat (x::u16) < 65536"
  using unsigned_less [of x, where ?'a = nat] by simp

text \<open>Zero extension keeps the value.\<close>

lemma unat_ucast_up:
  assumes "LENGTH('a::len) \<le> LENGTH('b::len)"
  shows "unat (ucast (x::'a word) :: 'b word) = unat x"
proof -
  have "unat x < 2 ^ LENGTH('b)"
    using unsigned_less [of x, where ?'a = nat] assms
    by (meson less_le_trans one_le_numeral power_increasing)
  then show ?thesis by (simp add: unsigned_ucast_eq take_bit_nat_eq_self)
qed

lemma unat_ucast_8_16 [simp]: "unat (ucast (x::u8) :: u16) = unat x"
  and unat_ucast_8_32 [simp]: "unat (ucast (x::u8) :: u32) = unat x"
  and unat_ucast_8_64 [simp]: "unat (ucast (x::u8) :: u64) = unat x"
  and unat_ucast_16_32 [simp]: "unat (ucast (y::u16) :: u32) = unat y"
  and unat_ucast_32_64 [simp]: "unat (ucast (z::u32) :: u64) = unat z"
  by (simp_all add: unat_ucast_up)

lemma unat_mod_pow2:
  assumes "k \<le> LENGTH('a::len)"
  shows "unat ((x::'a word) + y) mod 2 ^ k = (unat x + unat y) mod 2 ^ k"
  using assms by (simp add: unat_word_ariths mod_mod_cancel le_imp_power_dvd)

text \<open>Two free-running cursors whose distance is \<open>write - read\<close>, whatever wrapped.\<close>

lemma cursor_advance:
  assumes "unat n + unat (w - r) < 2 ^ LENGTH('a::len)"
  shows "unat ((w::'a word) + n - r) = unat (w - r) + unat n"
proof -
  have "w + n - r = (w - r) + n" by (simp add: algebra_simps)
  then show ?thesis using assms by (simp only: unat_word_ariths) (simp add: add.commute)
qed

lemma cursor_retreat:
  assumes "n \<le> (w::'a::len word) - r"
  shows "unat (w - (r + n)) = unat (w - r) - unat n"
proof -
  have "w - (r + n) = (w - r) - n" by (simp add: algebra_simps)
  then show ?thesis using assms by (simp only: unat_sub)
qed

lemma cursor_slot:
  assumes "k \<le> LENGTH('a::len)"
  shows "unat ((r::'a word) + d) mod 2 ^ k = (unat r mod 2 ^ k + unat d) mod 2 ^ k"
  using unat_mod_pow2 [OF assms, of r d] by (simp add: mod_add_left_eq)

text \<open>The power-of-two test \<open>c & (c - 1)\<close> and the masks it licenses.\<close>

lemma nat_and_pred_zero:
  "0 < n \<Longrightarrow> (n::nat) AND (n - 1) = 0 \<Longrightarrow> \<exists>k. n = 2 ^ k"
proof (induction n rule: less_induct)
  case (less n)
  show ?case
  proof (cases "even n")
    case True
    then obtain m where n: "n = 2 * m" by blast
    with less.prems have m: "0 < m" "m < n" by auto
    have "(n - 1) div 2 = m - 1" using n m by simp
    moreover have "n div 2 = m" using n by simp
    ultimately have "n AND (n - 1) = 2 * (m AND (m - 1))"
      using True by (subst and_rec) simp
    with less.prems have "m AND (m - 1) = 0" by simp
    with less.IH [OF m(2) m(1)] obtain k where "m = 2 ^ k" by blast
    with n have "n = 2 ^ Suc k" by simp
    then show ?thesis by blast
  next
    case False
    then obtain m where n: "n = 2 * m + 1" by (elim oddE)
    have "n AND (n - 1) = 2 * (m AND m)"
      using n by (subst and_rec) simp
    with less.prems n have "n = 2 ^ 0" by simp
    then show ?thesis by blast
  qed
qed

lemma power_of_two_test:
  assumes "(c::'a::len word) \<noteq> 0" and "c AND (c - 1) = 0"
  shows "\<exists>k. k < LENGTH('a) \<and> unat c = 2 ^ k"
proof -
  have pos: "0 < unat c" using assms(1) by (simp add: unat_gt_0)
  have "unat (c - 1) = unat c - 1" using assms(1) by (rule unat_minus_one)
  then have "unat c AND (unat c - 1) = 0"
    using assms(2) by (metis unsigned_0 unsigned_and_eq)
  with pos obtain k where k: "unat c = 2 ^ k" using nat_and_pred_zero by blast
  have "unat c < 2 ^ LENGTH('a)" using unsigned_less [of c, where ?'a = nat] by simp
  with k have "k < LENGTH('a)" by (simp add: power_strict_increasing_iff)
  with k show ?thesis by blast
qed

lemma unat_and_mask:
  assumes "unat (c::'a::len word) = 2 ^ k" and "k < LENGTH('a)"
  shows "unat (x AND (c - 1)) = unat x mod unat c"
proof -
  have "c = of_nat (unat c)" by simp
  then have "c = 2 ^ k" by (simp add: assms(1))
  then have "c - 1 = mask k" by (simp add: mask_eq_exp_minus_1)
  then have "x AND (c - 1) = take_bit k x" by (simp add: take_bit_eq_mask)
  then have "unat (x AND (c - 1)) = take_bit k (unat x)" by (simp add: unsigned_take_bit_eq)
  then show ?thesis using assms by (simp add: take_bit_eq_mod)
qed

section \<open>Interleaved arrays\<close>

text \<open>Sample \<open>ch\<close> of frame \<open>i\<close> lies inside an array of \<open>n\<close> frames.\<close>

lemma slot_less: "i < n \<Longrightarrow> ch < C \<Longrightarrow> i * C + ch < n * (C::nat)"
  by (metis add.commute mult_Suc nat_add_left_cancel_less Suc_leI less_le_trans mult_le_mono1)

section \<open>Block copies\<close>

definition blit :: "'a list \<Rightarrow> nat \<Rightarrow> 'a list \<Rightarrow> 'a list" where
  "blit dst off src = take off dst @ src @ drop (off + length src) dst"

lemma length_blit [eaf_list, simp]:
  "off + length src \<le> length dst \<Longrightarrow> length (blit dst off src) = length dst"
  by (simp add: blit_def)

lemma nth_blit [eaf_list]:
  assumes "off + length src \<le> length dst" and "j < length dst"
  shows "blit dst off src ! j =
    (if off \<le> j \<and> j < off + length src then src ! (j - off) else dst ! j)"
  using assms by (auto simp: blit_def nth_append min_def)

lemma blit_Nil [simp]: "blit dst off [] = dst"
  by (simp add: blit_def)

lemma take_blit [eaf_list]:
  "off + length src \<le> length dst \<Longrightarrow> n \<le> off \<Longrightarrow> take n (blit dst off src) = take n dst"
  by (simp add: blit_def min_def)

lemma take_blit_all [eaf_list]:
  "off + length src \<le> length dst \<Longrightarrow>
   take (off + length src) (blit dst off src) = take off dst @ src"
  by (simp add: blit_def)

text \<open>A loop that stores one element after the other is one block copy.\<close>

lemma blit_snoc:
  assumes "off + length xs < length dst"
  shows "(blit dst off xs)[off + length xs := y] = blit dst off (xs @ [y])"
  using assms by (simp add: blit_def list_update_append Cons_nth_drop_Suc [symmetric])

lemma fold_update_blit:
  "off + n \<le> length dst \<Longrightarrow>
   fold (\<lambda>i d. d[off + i := f i]) [0..<n] dst = blit dst off (map f [0..<n])"
proof (induction n)
  case (Suc n)
  then show ?case using blit_snoc [of off "map f [0..<n]" dst "f n"] by simp
qed simp

text \<open>A loop of in-place updates keeps the length of its array.\<close>

lemma length_fold: "(\<And>x ys. length (f x ys) = length ys) \<Longrightarrow> length (fold f xs ys) = length ys"
  by (induction xs arbitrary: ys) simp_all

end
