(* ===== verification/Ring_Memory.thy ===== *)
theory Ring_Memory
  imports EAF_Prelude
begin

text \<open>
  Arrays used as rings. The reservoir (\<open>core/eaf_reservoir.c\<close>) and the decoder input
  (\<open>core/eaf_dec_input.c\<close>) move data in and out of a fixed array with at most two block
  copies, one up to the end of the array and one from its start. This theory gives that
  pair of copies a meaning that does not mention the seam: reading \<open>n\<close> elements from
  position \<open>s\<close> of the ring, and writing a block at position \<open>s\<close>, with the frame laws the
  queue proofs need.
\<close>

section \<open>Reading and writing through the seam\<close>

definition ring_read :: "'a list \<Rightarrow> nat \<Rightarrow> nat \<Rightarrow> 'a list" where
  "ring_read st s n = map (\<lambda>i. st ! ((s + i) mod length st)) [0..<n]"

text \<open>The two copies of \<open>storage_load\<close> and of one chunk pair of \<open>eaf_dec_input_read\<close>.\<close>

definition two_part_load :: "'a list \<Rightarrow> nat \<Rightarrow> nat \<Rightarrow> 'a list" where
  "two_part_load st s n =
     (let first = min n (length st - s)
      in take first (drop s st) @ (if first < n then take (n - first) st else []))"

text \<open>The two copies of \<open>storage_store\<close> and \<open>eaf_dec_input_push\<close>.\<close>

definition two_part_store :: "'a list \<Rightarrow> nat \<Rightarrow> 'a list \<Rightarrow> 'a list" where
  "two_part_store st s xs =
     (let first = min (length xs) (length st - s);
          st1 = blit st s (take first xs)
      in if first < length xs then blit st1 0 (drop first xs) else st1)"

lemma length_ring_read [eaf_list, simp]: "length (ring_read st s n) = n"
  by (simp add: ring_read_def)

lemma nth_ring_read [eaf_list]: "i < n \<Longrightarrow> ring_read st s n ! i = st ! ((s + i) mod length st)"
  by (simp add: ring_read_def)

lemma ring_read_0 [simp]: "ring_read st s 0 = []"
  by (simp add: ring_read_def)

lemma ring_read_mod [simp]: "ring_read st (s mod length st) n = ring_read st s n"
  by (simp add: ring_read_def mod_add_left_eq)

lemma ring_read_add: "ring_read st s (m + n) = ring_read st s m @ ring_read st (s + m) n"
  by (rule nth_equalityI) (auto simp: nth_append nth_ring_read add.assoc)

lemma take_ring_read: "m \<le> n \<Longrightarrow> take m (ring_read st s n) = ring_read st s m"
  using ring_read_add [of st s m "n - m"] by simp

lemma drop_ring_read: "m \<le> n \<Longrightarrow> drop m (ring_read st s n) = ring_read st (s + m) (n - m)"
  using ring_read_add [of st s m "n - m"] by simp

lemma two_part_load_eq:
  assumes "s < length st" and "n \<le> length st"
  shows "two_part_load st s n = ring_read st s n"
proof (rule nth_equalityI)
  show "length (two_part_load st s n) = length (ring_read st s n)"
    using assms by (auto simp: two_part_load_def Let_def)
next
  fix i assume "i < length (two_part_load st s n)"
  then have i: "i < n" using assms by (auto simp: two_part_load_def Let_def split: if_splits)
  show "two_part_load st s n ! i = ring_read st s n ! i"
  proof (cases "s + i < length st")
    case True
    with i assms show ?thesis
      by (auto simp: two_part_load_def Let_def nth_append nth_ring_read min_def)
  next
    case False
    with i assms have "(s + i) mod length st = s + i - length st"
      by (simp add: le_mod_geq)
    with False i assms show ?thesis
      by (auto simp: two_part_load_def Let_def nth_append nth_ring_read min_def
          intro!: arg_cong [where f = "(!) st"])
  qed
qed

lemma length_two_part_store [eaf_list, simp]:
  assumes "s < length st" and "length xs \<le> length st"
  shows "length (two_part_store st s xs) = length st"
  using assms by (auto simp: two_part_store_def Let_def)

text \<open>
  Element \<open>j\<close> after the store: the distance of \<open>j\<close> from the start of the block, counted
  round the ring, decides whether it was overwritten.
\<close>

definition ring_dist :: "nat \<Rightarrow> nat \<Rightarrow> nat \<Rightarrow> nat" where
  "ring_dist N s j = (if s \<le> j then j - s else j + N - s)"

lemma nth_two_part_store:
  assumes "s < length st" and "length xs \<le> length st" and "j < length st"
  shows "two_part_store st s xs ! j =
    (if ring_dist (length st) s j < length xs then xs ! ring_dist (length st) s j else st ! j)"
  using assms
  by (auto simp: two_part_store_def Let_def nth_blit ring_dist_def min_def
      intro!: arg_cong [where f = "(!) xs"])

lemma ring_dist_offset:
  assumes "s < N" and "k < N"
  shows "ring_dist N s ((s + k) mod N) = k"
proof (cases "s + k < N")
  case True
  then show ?thesis by (simp add: ring_dist_def)
next
  case False
  with assms have "(s + k) mod N = s + k - N"
    by (simp add: le_mod_geq)
  with assms False show ?thesis by (simp add: ring_dist_def)
qed

lemma ring_read_store_same:
  assumes "s < length st" and "length xs \<le> length st"
  shows "ring_read (two_part_store st s xs) s (length xs) = xs"
proof (rule nth_equalityI)
  fix i assume "i < length (ring_read (two_part_store st s xs) s (length xs))"
  then have "i < length xs" by simp
  moreover from this assms have "i < length st" and "0 < length st" by auto
  ultimately show "ring_read (two_part_store st s xs) s (length xs) ! i = xs ! i"
    using assms by (simp add: nth_ring_read nth_two_part_store ring_dist_offset)
qed simp

lemma ring_read_store_before:
  assumes "s < length st" and "k + length xs \<le> length st"
  shows "ring_read (two_part_store st ((s + k) mod length st) xs) s k = ring_read st s k"
proof (rule nth_equalityI)
  let ?N = "length st" and ?t = "(s + k) mod length st"
  fix i assume "i < length (ring_read (two_part_store st ?t xs) s k)"
  then have i: "i < k" by simp
  from assms have N: "0 < ?N" by auto
  then have t: "?t < ?N" by simp
  let ?j = "(s + i) mod ?N"
  have "(?t + (?N - k + i)) mod ?N = ?j"
  proof -
    have "(?t + (?N - k + i)) mod ?N = (s + k + (?N - k + i)) mod ?N"
      by (simp add: mod_add_left_eq)
    also have "s + k + (?N - k + i) = s + i + ?N" using assms i by simp
    finally show ?thesis by simp
  qed
  moreover have "?N - k + i < ?N" using i assms by linarith
  ultimately have "ring_dist ?N ?t ?j = ?N - k + i"
    using ring_dist_offset [OF t, of "?N - k + i"] by simp
  moreover have "\<not> ?N - k + i < length xs" using assms by linarith
  moreover have "?j < ?N" using N by simp
  ultimately show "ring_read (two_part_store st ?t xs) s k ! i = ring_read st s k ! i"
    using i t assms by (simp add: nth_ring_read nth_two_part_store)
qed simp

text \<open>Appending a block after \<open>k\<close> queued elements appends it to what a reader sees.\<close>

lemma ring_read_store_append:
  assumes "s < length st" and "k + length xs \<le> length st"
  shows "ring_read (two_part_store st ((s + k) mod length st) xs) s (k + length xs)
         = ring_read st s k @ xs"
proof -
  let ?t = "(s + k) mod length st"
  have t: "?t < length st" using assms by (metis length_greater_0_conv less_zeroE list.size(3) mod_less_divisor)
  have len: "length (two_part_store st ?t xs) = length st" using assms t by simp
  have "ring_read (two_part_store st ?t xs) (s + k) (length xs) = xs"
    using ring_read_store_same [of ?t st xs] assms t len
    by (metis add_leD2 ring_read_mod)
  then show ?thesis
    using ring_read_store_before [OF assms] by (simp add: ring_read_add)
qed

text \<open>A ring of slots addressed one at a time.\<close>

lemma two_part_store_single:
  "s < length st \<Longrightarrow> two_part_store st s [x] = st[s := x]"
  by (simp add: two_part_store_def Let_def blit_def upd_conv_take_nth_drop)

lemma ring_read_update_append:
  assumes "s < length st" and "k < length st"
  shows "ring_read (st[(s + k) mod length st := x]) s (Suc k) = ring_read st s k @ [x]"
proof -
  have "(s + k) mod length st < length st" using assms by (intro mod_less_divisor) linarith
  then show ?thesis
    using ring_read_store_append [of s st k "[x]"] assms
    by (simp add: two_part_store_single)
qed

lemma ring_read_Suc: "ring_read st s (Suc n) = st ! (s mod length st) # ring_read st (s + 1) n"
  using ring_read_add [of st s 1 n] by (simp add: ring_read_def)

text \<open>
  A ring of a power-of-two size addressed by free-running cursors: storing at the write cursor
  appends to the elements between the cursors, advancing the read cursor removes the oldest.
\<close>

lemma ring_write_slot:
  fixes w r :: "'b::len word"
  assumes "length st = 2 ^ k" and "k \<le> LENGTH('b)" and "unat (w - r) < length st"
  shows "ring_read (st[unat w mod length st := c]) (unat r) (Suc (unat (w - r))) = ring_read st (unat r) (unat (w - r)) @ [c]"
proof -
  let ?i = "unat w mod length st"
  have idx: "?i = (unat r mod length st + unat (w - r)) mod length st"
    using cursor_slot [OF assms(2), of r "w - r"] assms(1) by simp
  have "ring_read (st[?i := c]) (unat r) (Suc (unat (w - r))) = ring_read (st[?i := c]) (unat r mod length st) (Suc (unat (w - r)))"
    using ring_read_mod [of "st[?i := c]" "unat r"] by simp
  also have "\<dots> = ring_read st (unat r mod length st) (unat (w - r)) @ [c]"
    unfolding idx by (rule ring_read_update_append) (use assms in simp_all)
  finally show ?thesis by simp
qed

lemma ring_read_slot:
  fixes w r :: "'b::len word"
  assumes "length st = 2 ^ k" and "k \<le> LENGTH('b)" and "w \<noteq> r"
  shows "ring_read st (unat r) (unat (w - r)) =
    st ! (unat r mod length st) # ring_read st (unat (r + 1)) (unat (w - (r + 1)))"
proof -
  have pos: "0 < unat (w - r)" using assms(3) by (simp add: unat_gt_0)
  then have one: "1 \<le> w - r" by (simp add: word_le_nat_alt)
  have "unat (w - (r + 1)) = unat (w - r) - 1" using cursor_retreat [OF one] by simp
  with pos have lv: "unat (w - r) = Suc (unat (w - (r + 1)))" by simp
  have "unat (r + 1) mod length st = (unat r + 1) mod length st"
    using cursor_slot [OF assms(2), of r 1] assms(1) by (simp add: mod_Suc_eq)
  then have "ring_read st (unat (r + 1)) n = ring_read st (unat r + 1) n" for n
    by (metis ring_read_mod)
  then show ?thesis by (simp add: lv ring_read_Suc)
qed

end
