(* ===== verification/FIFO_Spec.thy ===== *)
theory FIFO_Spec
  imports Main
begin

text \<open>
  The interface the single-producer single-consumer queues of the framework offer to their
  two owners: a bounded first-in first-out buffer. \<open>put\<close> is the producer's call, with
  \<open>item\<close> the element it queues for an argument, \<open>get\<close> the consumer's. The control queue
  (\<open>core/eaf_control.c\<close>) and the Bluetooth packet queue (\<open>apps/bt/bt_ingress.c\<close>) are
  instances; the client lemmas are proved here once.
\<close>

text \<open>
  A run of calls: \<open>Some i\<close> is \<open>put i\<close>, \<open>None\<close> is \<open>get\<close>. The result lists what was
  accepted and what was delivered, in order.
\<close>

fun fifo_run ::
  "('i \<Rightarrow> 'q \<Rightarrow> bool \<times> 'q) \<Rightarrow> ('q \<Rightarrow> 'a option \<times> 'q) \<Rightarrow> ('i \<Rightarrow> 'q \<Rightarrow> 'a) \<Rightarrow>
   'i option list \<Rightarrow> 'q \<Rightarrow> 'a list \<times> 'a list \<times> 'q" where
  "fifo_run put get item [] q = ([], [], q)"
| "fifo_run put get item (Some i # ops) q =
     (let (ok, q1) = put i q; (acc, del, q2) = fifo_run put get item ops q1
      in (if ok then item i q # acc else acc, del, q2))"
| "fifo_run put get item (None # ops) q =
     (let (r, q1) = get q; (acc, del, q2) = fifo_run put get item ops q1
      in (acc, (case r of None \<Rightarrow> del | Some x \<Rightarrow> x # del), q2))"

locale bounded_fifo =
  fixes put :: "'i \<Rightarrow> 'q \<Rightarrow> bool \<times> 'q"
    and get :: "'q \<Rightarrow> 'a option \<times> 'q"
    and item :: "'i \<Rightarrow> 'q \<Rightarrow> 'a"
    and content :: "'q \<Rightarrow> 'a list"
    and invar :: "'q \<Rightarrow> bool"
    and cap :: nat
  assumes put_ok: "invar q \<Longrightarrow> put i q = (True, q') \<Longrightarrow> invar q' \<and> content q' = content q @ [item i q]"
    and put_refused: "invar q \<Longrightarrow> put i q = (False, q') \<Longrightarrow> invar q' \<and> content q' = content q"
    and get_item: "invar q \<Longrightarrow> get q = (Some x, q') \<Longrightarrow> invar q' \<and> content q = x # content q'"
    and get_empty: "invar q \<Longrightarrow> get q = (None, q') \<Longrightarrow> invar q' \<and> content q' = [] \<and> content q = []"
    and bounded: "invar q \<Longrightarrow> length (content q) \<le> cap"
begin

lemma run_conserves:
  assumes "invar q" and "fifo_run put get item ops q = (acc, del, q')"
  shows "invar q' \<and> content q @ acc = del @ content q'"
  using assms
proof (induction ops arbitrary: q acc del)
  case Nil
  then show ?case by simp
next
  case (Cons c ops)
  show ?case
  proof (cases c)
    case (Some i)
    obtain ok q1 acc1 del1 where p: "put i q = (ok, q1)"
      and r: "fifo_run put get item ops q1 = (acc1, del1, q')"
      and eq: "acc = (if ok then item i q # acc1 else acc1)" "del = del1"
      using Cons.prems(2) Some by (auto simp: Let_def split: prod.splits)
    have s: "invar q1 \<and> content q1 = content q @ (if ok then [item i q] else [])"
      using p put_ok [OF Cons.prems(1), of i q1] put_refused [OF Cons.prems(1), of i q1]
      by (cases ok) simp_all
    with Cons.IH [of q1 acc1 del1] r show ?thesis
      by (cases ok) (auto simp: eq)
  next
    case None
    obtain x q1 acc1 del1 where g: "get q = (x, q1)"
      and r: "fifo_run put get item ops q1 = (acc1, del1, q')"
      and eq: "acc = acc1" "del = (case x of None \<Rightarrow> del1 | Some y \<Rightarrow> y # del1)"
      using Cons.prems(2) None by (auto simp: Let_def split: prod.splits)
    show ?thesis
    proof (cases x)
      case None
      with g get_empty [OF Cons.prems(1)] have "invar q1" "content q1 = []" "content q = []"
        by auto
      with Cons.IH [of q1 acc1 del1] r show ?thesis by (simp add: eq None)
    next
      case (Some y)
      with g get_item [OF Cons.prems(1)] have "invar q1" "content q = y # content q1"
        by auto
      with Cons.IH [of q1 acc1 del1] r show ?thesis by (simp add: eq Some)
    qed
  qed
qed

lemma run_bounded:
  assumes "invar q" and "fifo_run put get item ops q = (acc, del, q')"
  shows "length (content q') \<le> cap"
  using run_conserves [OF assms] bounded by blast

end

end
