(* ===== verification/EAF_Float.thy ===== *)
theory EAF_Float
  imports Complex_Main
begin

text \<open>
  The \<open>double\<close> arithmetic of the control and configuration code. A value is a finite real,
  an infinity (\<open>True\<close> is the positive one) or not a number. Each operation computes the
  exact real result and rounds it with \<open>rnd\<close>, the rounding of the target, which is a
  parameter: it returns an infinity when the result overflows. The two zeros are
  not distinguished; a division by zero takes the divisor as the positive zero, which is
  what the sums and products of non-negative values the modelled code divides by are.
\<close>

datatype double = Fin real | Inf bool | NaN

type_synonym rounding = "real \<Rightarrow> double"

definition isfinite :: "double \<Rightarrow> bool" where
  "isfinite x = (case x of Fin _ \<Rightarrow> True | _ \<Rightarrow> False)"

fun fneg :: "double \<Rightarrow> double" where
  "fneg (Fin x) = Fin (- x)"
| "fneg (Inf s) = Inf (\<not> s)"
| "fneg NaN = NaN"

fun fadd :: "rounding \<Rightarrow> double \<Rightarrow> double \<Rightarrow> double" where
  "fadd rnd (Fin x) (Fin y) = rnd (x + y)"
| "fadd rnd (Inf s) (Fin y) = Inf s"
| "fadd rnd (Fin x) (Inf t) = Inf t"
| "fadd rnd (Inf s) (Inf t) = (if s = t then Inf s else NaN)"
| "fadd rnd NaN y = NaN"
| "fadd rnd x NaN = NaN"

definition fsub :: "rounding \<Rightarrow> double \<Rightarrow> double \<Rightarrow> double" where
  "fsub rnd x y = fadd rnd x (fneg y)"

fun fmul :: "rounding \<Rightarrow> double \<Rightarrow> double \<Rightarrow> double" where
  "fmul rnd (Fin x) (Fin y) = rnd (x * y)"
| "fmul rnd (Inf s) (Fin y) = (if y = 0 then NaN else Inf (s = (y > 0)))"
| "fmul rnd (Fin x) (Inf t) = (if x = 0 then NaN else Inf (t = (x > 0)))"
| "fmul rnd (Inf s) (Inf t) = Inf (s = t)"
| "fmul rnd NaN y = NaN"
| "fmul rnd x NaN = NaN"

fun fdiv :: "rounding \<Rightarrow> double \<Rightarrow> double \<Rightarrow> double" where
  "fdiv rnd (Fin x) (Fin y) = (if y = 0 then if x = 0 then NaN else Inf (x > 0) else rnd (x / y))"
| "fdiv rnd (Inf s) (Fin y) = (if y = 0 then Inf s else Inf (s = (y > 0)))"
| "fdiv rnd (Fin x) (Inf t) = Fin 0"
| "fdiv rnd (Inf s) (Inf t) = NaN"
| "fdiv rnd NaN y = NaN"
| "fdiv rnd x NaN = NaN"

text \<open>Comparisons with \<open>NaN\<close> are false.\<close>

fun flt :: "double \<Rightarrow> double \<Rightarrow> bool" where
  "flt (Fin x) (Fin y) = (x < y)"
| "flt (Inf s) (Fin y) = (\<not> s)"
| "flt (Fin x) (Inf t) = t"
| "flt (Inf s) (Inf t) = (\<not> s \<and> t)"
| "flt NaN y = False"
| "flt x NaN = False"

fun fle :: "double \<Rightarrow> double \<Rightarrow> bool" where
  "fle (Fin x) (Fin y) = (x \<le> y)"
| "fle (Inf s) (Fin y) = (\<not> s)"
| "fle (Fin x) (Inf t) = t"
| "fle (Inf s) (Inf t) = (s \<longrightarrow> t)"
| "fle NaN y = False"
| "fle x NaN = False"

text \<open>Clamping into \<open>[- l, l]\<close> the way the code writes it, with two comparisons.\<close>

definition fclamp :: "double \<Rightarrow> double \<Rightarrow> double" where
  "fclamp l x = (if flt l x then l else if flt x (fneg l) then fneg l else x)"

lemma fclamp_bounds:
  assumes "0 \<le> l" and "x \<noteq> NaN"
  shows "\<exists>v. fclamp (Fin l) x = Fin v \<and> - l \<le> v \<and> v \<le> l"
  using assms by (cases x) (auto simp: fclamp_def)

lemma fclamp_inside: "- l \<le> v \<Longrightarrow> v \<le> l \<Longrightarrow> fclamp (Fin l) (Fin v) = Fin v"
  by (simp add: fclamp_def)

lemma fadd_Fin_not_NaN: "(\<And>r. rnd r \<noteq> NaN) \<Longrightarrow> x \<noteq> NaN \<Longrightarrow> fadd rnd x (Fin y) \<noteq> NaN"
  by (cases x) auto

lemma fmul_Fin: "fmul rnd (Fin x) (Fin y) = rnd (x * y)"
  by simp

end
