(* ===== verification/EAF_Types.thy ===== *)
theory EAF_Types
  imports EAF_Prelude
begin

text \<open>
  \<open>include/eaf/eaf_types.h\<close> and \<open>core/eaf_types.c\<close>: result codes, the stream format, the
  audio buffer handed between sink, reservoir and DSP nodes, and the conversions of PCM
  samples to interleaved Q1.31.
\<close>

named_theorems eaf_format \<open>consequences of format validity\<close>

section \<open>Result codes\<close>

text \<open>
  \<open>eaf_result_t\<close>. Callbacks return a plain C \<open>int\<close>; a non-zero value outside the
  enumeration is \<open>EAF_OTHER\<close>. A call fails when its result is not \<open>EAF_OK\<close>.
  \<open>EAF_AGAIN\<close> of \<open>eaf_net.h\<close> has the value of \<open>EAF_TIMEOUT\<close>.
\<close>

datatype eaf_result_t =
    EAF_EOF | EAF_OK | EAF_INVALID | EAF_STATE | EAF_IO | EAF_UNSUPPORTED | EAF_TIMEOUT
  | EAF_OTHER int

abbreviation EAF_AGAIN :: eaf_result_t where "EAF_AGAIN \<equiv> EAF_TIMEOUT"

abbreviation (input) EAF_MAX_CHANNELS :: nat where "EAF_MAX_CHANNELS \<equiv> 4"
abbreviation (input) EAF_FRAME_SILENCE :: u32 where "EAF_FRAME_SILENCE \<equiv> 1"
abbreviation (input) EAF_FRAME_UNDERRUN :: u32 where "EAF_FRAME_UNDERRUN \<equiv> 2"
abbreviation (input) EAF_FRAME_EOS :: u32 where "EAF_FRAME_EOS \<equiv> 4"

section \<open>Formats\<close>

record eaf_format_t =
  sample_rate :: u32
  num_channels :: u8
  channel_mask :: u32

definition mk_format :: "u32 \<Rightarrow> u8 \<Rightarrow> u32 \<Rightarrow> eaf_format_t" where
  "mk_format rate ch m = \<lparr>sample_rate = rate, num_channels = ch, channel_mask = m\<rparr>"

abbreviation zero_format :: eaf_format_t where "zero_format \<equiv> mk_format 0 0 0"

text \<open>The loop of \<open>eaf_format_valid\<close> that counts the bits of the mask.\<close>

function count_mask :: "u32 \<Rightarrow> u32 \<Rightarrow> u32" where
  "count_mask m count =
     (if m = 0 then count else count_mask (drop_bit 1 m) (count + (m AND 1)))"
  by pat_completeness auto
termination
proof (relation "measure (\<lambda>(m, count). unat m)", goal_cases)
  case (2 m count)
  then have "0 < unat m" by (simp add: unat_gt_0)
  then show ?case by (simp add: drop_bit_eq_div unat_div)
qed simp

declare count_mask.simps [simp del]

definition eaf_format_valid :: "eaf_format_t \<Rightarrow> bool" where
  "eaf_format_valid fmt =
     (if sample_rate fmt = 0 \<or> num_channels fmt = 0 \<or> num_channels fmt > 4
         \<or> channel_mask fmt AND NOT 15 \<noteq> 0 then False
      else count_mask (channel_mask fmt) 0 = ucast (num_channels fmt))"

definition eaf_format_equal :: "eaf_format_t \<Rightarrow> eaf_format_t \<Rightarrow> bool" where
  "eaf_format_equal a b \<longleftrightarrow>
     sample_rate a = sample_rate b \<and> num_channels a = num_channels b \<and>
     channel_mask a = channel_mask b"

lemma eaf_format_equal_iff [simp]: "eaf_format_equal a b \<longleftrightarrow> a = b"
  by (cases a; cases b) (simp add: eaf_format_equal_def)

abbreviation channels :: "eaf_format_t \<Rightarrow> nat" where
  "channels fmt \<equiv> unat (num_channels fmt)"

lemma format_valid_channels [eaf_format]:
  assumes "eaf_format_valid fmt"
  shows "0 < channels fmt" and "channels fmt \<le> 4" and "sample_rate fmt \<noteq> 0"
proof -
  from assms have "num_channels fmt \<noteq> 0" and le: "num_channels fmt \<le> 4" and "sample_rate fmt \<noteq> 0"
    by (auto simp: eaf_format_valid_def split: if_splits)
  moreover from le have "unat (num_channels fmt) \<le> unat (4::u8)"
    by (simp add: word_le_nat_alt)
  ultimately show "0 < channels fmt" and "channels fmt \<le> 4" and "sample_rate fmt \<noteq> 0"
    by (simp_all add: unat_gt_0)
qed

text \<open>A mask accepted by the code is one of the four-bit masks.\<close>

lemma mask_and_not_15: "(m::u32) AND NOT 15 = 0 \<longleftrightarrow> m < 16"
proof -
  have 15: "(15::u32) = mask 4" by (simp add: mask_eq_exp_minus_1)
  have split: "m = take_bit 4 m OR (m AND NOT (mask 4))"
    by (rule bit_word_eqI) (auto simp: bit_simps)
  have low: "take_bit 4 m AND NOT (mask 4) = 0"
    by (rule bit_word_eqI) (auto simp: bit_simps)
  have "m AND NOT (mask 4) = 0 \<longleftrightarrow> take_bit 4 m = m"
    using split low by (metis or.right_neutral)
  also have "\<dots> \<longleftrightarrow> unat m mod 16 = unat m"
  proof -
    have "unat (take_bit 4 m) = unat m mod 16"
      by (simp add: unsigned_take_bit_eq) (simp add: take_bit_eq_mod)
    then show ?thesis by (metis word_unat_eq_iff)
  qed
  also have "\<dots> \<longleftrightarrow> m < 16"
    by (simp add: word_less_nat_alt mod_eq_self_iff_div_eq_0 div_eq_0_iff)
  finally show ?thesis by (simp only: 15)
qed

text \<open>The counting loop is the number of set bits.\<close>

definition mask_bits :: "u32 \<Rightarrow> nat set" where
  "mask_bits m = {i. bit m i}"

lemma finite_mask_bits [simp]: "finite (mask_bits m)"
proof -
  have "mask_bits m \<subseteq> {..<32}" by (auto simp: mask_bits_def dest: bit_imp_le_length)
  then show ?thesis by (rule finite_subset) simp
qed

lemma card_mask_bits_step:
  "card (mask_bits m) = unat (m AND 1) + card (mask_bits (drop_bit 1 m))"
proof -
  let ?tail = "Suc ` mask_bits (drop_bit 1 m)"
  have eq: "mask_bits m = (if bit m 0 then insert 0 ?tail else ?tail)"
    by (auto simp: mask_bits_def bit_simps image_iff gr0_conv_Suc intro: gr0I)
       (metis Suc_pred bot_nat_0.not_eq_extremum)+
  have "card ?tail = card (mask_bits (drop_bit 1 m))"
    by (rule card_image) simp
  moreover have "0 \<notin> ?tail" and "finite ?tail" by auto
  moreover have "m AND 1 = (if bit m 0 then 1 else 0)"
    by (simp add: and_one_eq mod_2_eq_odd bit_0)
  ultimately show ?thesis by (simp add: eq)
qed

lemma count_mask_card: "count_mask m c = c + of_nat (card (mask_bits m))"
proof (induction m c rule: count_mask.induct)
  case (1 m c)
  show ?case
  proof (cases "m = 0")
    case True
    then show ?thesis by (simp add: count_mask.simps mask_bits_def)
  next
    case False
    with "1.IH" show ?thesis
      by (subst count_mask.simps) (simp add: card_mask_bits_step [of m])
  qed
qed

section \<open>Buffers\<close>

text \<open>
  \<open>eaf_buffer_t\<close>. \<open>samples\<close> is the pointer (0 is NULL); the array it designates is carried
  along as \<open>mem\<close>, so that a node that redirects the pointer is visible.
\<close>

record eaf_buffer_t =
  samples :: nat
  mem :: "int list"
  frame_count :: u32
  capacity_frames :: u32
  capacity_samples :: nat
  format :: eaf_format_t
  flags :: u32

section \<open>PCM conversion\<close>

definition eaf_pcm16_to_q31 :: "int \<Rightarrow> int" where
  "eaf_pcm16_to_q31 x = x * 65536"

definition eaf_pcm24_to_q31 :: "int \<Rightarrow> int" where
  "eaf_pcm24_to_q31 x =
     (if x > 8388607 then INT32_MAX else if x < - 8388608 then INT32_MIN else x * 256)"

definition eaf_pcm32_to_q31 :: "int \<Rightarrow> int" where
  "eaf_pcm32_to_q31 x = x"

lemma pcm16_in_range [eaf_range]: "is_i16 x \<Longrightarrow> is_i32 (eaf_pcm16_to_q31 x)"
  by (simp add: is_i16_def is_i32_def eaf_pcm16_to_q31_def)

lemma pcm24_in_range [eaf_range]: "is_i32 (eaf_pcm24_to_q31 x)"
  by (simp add: is_i32_def eaf_pcm24_to_q31_def)

text \<open>One frame of the widening loops: mono is duplicated into a stereo destination.\<close>

definition put_frame :: "nat \<Rightarrow> nat \<Rightarrow> int \<Rightarrow> int \<Rightarrow> int list \<Rightarrow> int list" where
  "put_frame dst_channels i left right dst =
     (if dst_channels = 2 then dst[i * 2 := left, i * 2 + 1 := right] else dst[i := left])"

definition eaf_q31_interleaved :: "int list \<Rightarrow> nat \<Rightarrow> nat \<Rightarrow> int list \<Rightarrow> nat \<Rightarrow> int list" where
  "eaf_q31_interleaved src frames src_channels dst dst_channels =
     fold (\<lambda>i dst.
         let left = src ! (i * src_channels);
             right = (if src_channels = 2 then src ! (i * src_channels + 1) else left)
         in put_frame dst_channels i left right dst)
       [0..<frames] dst"

definition eaf_s16_to_q31_interleaved :: "int list \<Rightarrow> nat \<Rightarrow> nat \<Rightarrow> int list \<Rightarrow> nat \<Rightarrow> int list" where
  "eaf_s16_to_q31_interleaved src frames src_channels dst dst_channels =
     fold (\<lambda>i dst.
         let left = eaf_pcm16_to_q31 (src ! (i * src_channels));
             right = (if src_channels = 2 then eaf_pcm16_to_q31 (src ! (i * src_channels + 1))
                      else left)
         in put_frame dst_channels i left right dst)
       [0..<frames] dst"

text \<open>What both loops compute, without the destination they write into.\<close>

definition frame_of :: "int list \<Rightarrow> nat \<Rightarrow> nat \<Rightarrow> nat \<Rightarrow> int list" where
  "frame_of src src_channels dst_channels i =
     (let left = src ! (i * src_channels);
          right = (if src_channels = 2 then src ! (i * src_channels + 1) else left)
      in if dst_channels = 2 then [left, right] else [left])"

definition upmix :: "int list \<Rightarrow> nat \<Rightarrow> nat \<Rightarrow> nat \<Rightarrow> int list" where
  "upmix src frames src_channels dst_channels =
     concat (map (frame_of src src_channels dst_channels) [0..<frames])"

lemma length_frame_of [simp]: "length (frame_of src sc dc i) = (if dc = 2 then 2 else 1)"
  by (simp add: frame_of_def Let_def)

lemma length_upmix [simp]:
  "length (upmix src frames sc dc) = frames * (if dc = 2 then 2 else 1)"
  by (induction frames) (auto simp: upmix_def)

lemma upmix_Suc: "upmix src (Suc n) sc dc = upmix src n sc dc @ frame_of src sc dc n"
  by (simp add: upmix_def)

lemma put_frame_append:
  assumes "length xs = i * (if dc = 2 then 2 else 1)" and "length ys \<ge> (if dc = 2 then 2 else 1)"
  shows "put_frame dc i left right (xs @ ys) =
    xs @ (if dc = 2 then [left, right] else [left]) @ drop (if dc = 2 then 2 else 1) ys"
proof (cases "dc = 2")
  case True
  with assms(2) obtain a b zs where "ys = a # b # zs"
    by (auto simp: Suc_le_length_iff numeral_2_eq_2)
  with True assms show ?thesis by (simp add: put_frame_def list_update_append)
next
  case False
  with assms(2) obtain a zs where "ys = a # zs"
    by (auto simp: Suc_le_length_iff)
  with False assms show ?thesis by (simp add: put_frame_def list_update_append)
qed

lemma q31_interleaved_blit:
  assumes "frames * (if dc = 2 then 2 else 1) \<le> length dst"
  shows "eaf_q31_interleaved src frames sc dst dc = blit dst 0 (upmix src frames sc dc)"
  using assms
proof (induction frames)
  case 0
  show ?case by (simp add: eaf_q31_interleaved_def upmix_def)
next
  case (Suc n)
  let ?w = "if dc = 2 then 2 else (1::nat)"
  have "eaf_q31_interleaved src (Suc n) sc dst dc =
      put_frame dc n (src ! (n * sc)) (if sc = 2 then src ! (n * sc + 1) else src ! (n * sc))
        (eaf_q31_interleaved src n sc dst dc)"
    by (simp add: eaf_q31_interleaved_def Let_def)
  also have "eaf_q31_interleaved src n sc dst dc = upmix src n sc dc @ drop (n * ?w) dst"
    using Suc by (simp add: blit_def split: if_splits)
  finally show ?case
    using Suc.prems
    by (simp add: put_frame_append blit_def upmix_Suc frame_of_def Let_def add.commute)
qed

lemma s16_as_q31:
  assumes len: "\<And>i. i < frames \<Longrightarrow> i * sc + (if sc = 2 then 1 else 0) < length src"
  shows "eaf_s16_to_q31_interleaved src frames sc dst dc =
    eaf_q31_interleaved (map eaf_pcm16_to_q31 src) frames sc dst dc"
proof -
  have "i * sc < length src" if "i < frames" for i
    using len [OF that] by (cases "sc = 2") simp_all
  then show ?thesis
    unfolding eaf_s16_to_q31_interleaved_def eaf_q31_interleaved_def
    using len by (intro fold_cong) (auto simp: Let_def fun_eq_iff split: if_splits)
qed

section \<open>Properties\<close>

text \<open>
  A format is valid exactly when its sample rate is not zero, its channel mask is a
  non-empty set of the four speaker bits and the number of channels is the number of
  bits set in the mask.
\<close>

theorem format_valid_iff:
  "eaf_format_valid fmt \<longleftrightarrow>
     sample_rate fmt \<noteq> 0 \<and> 0 < channel_mask fmt \<and> channel_mask fmt < 16 \<and>
     channels fmt = card (mask_bits (channel_mask fmt))"
proof -
  let ?c = "card (mask_bits (channel_mask fmt))"
  have pos: "channel_mask fmt \<noteq> 0 \<longleftrightarrow> 0 < ?c"
    by (auto simp: card_gt_0_iff mask_bits_def intro: bit_word_eqI)
  have small: "?c \<le> 4" if "channel_mask fmt < 16"
  proof -
    have "take_bit 4 (channel_mask fmt) = channel_mask fmt"
      using that by (simp add: take_bit_eq_mod word_mod_less_divisor unat_mod word_unat_eq_iff word_less_nat_alt)
    then have "mask_bits (channel_mask fmt) \<subseteq> {..<4}"
      by (auto simp: mask_bits_def) (metis bit_take_bit_iff)
    then show ?thesis using card_mono [of "{..<4::nat}"] by fastforce
  qed
  have eq: "(of_nat ?c = (ucast (num_channels fmt) :: u32)) \<longleftrightarrow> ?c = channels fmt" if "?c \<le> 4"
  proof -
    have "unat (of_nat ?c :: u32) = ?c"
      using that by (simp add: unat_of_nat)
    moreover have "unat (ucast (num_channels fmt) :: u32) = channels fmt" by simp
    ultimately show ?thesis by (simp only: word_unat_eq_iff)
  qed
  show ?thesis
    unfolding eaf_format_valid_def mask_and_not_15 count_mask_card
    using pos small eq
    by (auto simp: word_gt_0 word_less_nat_alt unat_gt_0 unat_eq_zero)
qed

text \<open>
  Widening of 16-bit PCM. The destination receives, frame by frame, each source sample
  shifted to Q1.31 (mono duplicated into a stereo destination); nothing beyond the frames
  written changes, and every stored sample is a 32-bit value.
\<close>

theorem s16_widening:
  assumes "sc = 1 \<or> sc = 2" and "frames * sc \<le> length src" and "list_all is_i16 src"
    and "frames * (if dc = 2 then 2 else 1) \<le> length dst"
  shows "eaf_s16_to_q31_interleaved src frames sc dst dc =
      blit dst 0 (upmix (map eaf_pcm16_to_q31 src) frames sc dc) \<and>
    list_all is_i32 (upmix (map eaf_pcm16_to_q31 src) frames sc dc)"
proof
  have len: "i * sc + (if sc = 2 then 1 else 0) < length src" if "i < frames" for i
    using that assms(1,2) by auto
  show "eaf_s16_to_q31_interleaved src frames sc dst dc =
      blit dst 0 (upmix (map eaf_pcm16_to_q31 src) frames sc dc)"
    using s16_as_q31 [OF len] q31_interleaved_blit [OF assms(4)] by simp
  have "is_i32 (map eaf_pcm16_to_q31 src ! j)" if "j < length src" for j
    using that assms(3) by (auto simp: list_all_length intro: pcm16_in_range)
  moreover have "i * sc < length src" if "i < frames" for i
    using len [OF that] by (simp split: if_splits)
  ultimately show "list_all is_i32 (upmix (map eaf_pcm16_to_q31 src) frames sc dc)"
    using len by (fastforce simp: upmix_def frame_of_def Let_def list_all_iff)
qed

theorem s16_widening_witness:
  "eaf_s16_to_q31_interleaved [1, -2] 2 1 [0, 0, 0, 0, 7] 2 = [65536, 65536, -131072, -131072, 7]"
  using s16_widening [of 1 2 "[1, -2]" 2 "[0, 0, 0, 0, 7]"]
  by (simp add: is_i16_def upmix_def frame_of_def eaf_pcm16_to_q31_def blit_def numeral_2_eq_2)

end
