(* ===== verification/EAF_Bytes.thy ===== *)
theory EAF_Bytes
  imports EAF_Prelude
begin

text \<open>
  \<open>include/eaf/eaf_bytes.h\<close>: big-endian reads and writes on byte arrays and the decimal
  printer, used by the LMS and Sendspin wire formats. The lemmas are the round trips: a
  value written is the value read back, and decimal digits denote the printed number.
\<close>

section \<open>Big-endian integers\<close>

definition eaf_bytes_read_u16 :: "u8 list \<Rightarrow> u16" where
  "eaf_bytes_read_u16 p = push_bit 8 (ucast (p ! 0)) OR ucast (p ! 1)"

definition eaf_bytes_read_u32 :: "u8 list \<Rightarrow> u32" where
  "eaf_bytes_read_u32 p =
     push_bit 24 (ucast (p ! 0)) OR push_bit 16 (ucast (p ! 1)) OR push_bit 8 (ucast (p ! 2))
       OR ucast (p ! 3)"

definition eaf_bytes_read_u64 :: "u8 list \<Rightarrow> u64" where
  "eaf_bytes_read_u64 p = fold (\<lambda>i v. push_bit 8 v OR ucast (p ! i)) [0..<8] 0"

definition eaf_bytes_write_u16 :: "u8 list \<Rightarrow> u16 \<Rightarrow> u8 list" where
  "eaf_bytes_write_u16 p v = p[0 := ucast (drop_bit 8 v), 1 := ucast v]"

definition eaf_bytes_write_u32 :: "u8 list \<Rightarrow> u32 \<Rightarrow> u8 list" where
  "eaf_bytes_write_u32 p v = fold (\<lambda>i p. p[i := ucast (drop_bit ((3 - i) * 8) v)]) [0..<4] p"

definition eaf_bytes_write_u64 :: "u8 list \<Rightarrow> u64 \<Rightarrow> u8 list" where
  "eaf_bytes_write_u64 p v = fold (\<lambda>i p. p[i := ucast (drop_bit (56 - 8 * i) v)]) [0..<8] p"

lemma upt_4: "[0..<4] = [0, 1, 2, 3::nat]" and upt_8: "[0..<8] = [0, 1, 2, 3, 4, 5, 6, 7::nat]"
  by (simp_all add: upt_rec)

lemma length_write_u16 [simp]: "length (eaf_bytes_write_u16 p v) = length p"
  by (simp add: eaf_bytes_write_u16_def)

lemma length_write_u32 [simp]: "length (eaf_bytes_write_u32 p v) = length p"
  by (simp add: eaf_bytes_write_u32_def upt_4)

lemma length_write_u64 [simp]: "length (eaf_bytes_write_u64 p v) = length p"
  by (simp add: eaf_bytes_write_u64_def upt_8)

text \<open>Appending the byte at bit \<open>k\<close> to what lies above it gives all bits from \<open>k\<close> on.\<close>

lemma byte_merge:
  "push_bit 8 (drop_bit (k + 8) v) OR ucast (ucast (drop_bit k v) :: u8) = drop_bit k (v :: 'a::len word)"
proof (rule bit_word_eqI)
  fix n assume n: "n < LENGTH('a)"
  show "bit (push_bit 8 (drop_bit (k + 8) v) OR ucast (ucast (drop_bit k v) :: u8)) n =
        bit (drop_bit k v) n"
  proof (cases "n < 8")
    case True
    with n show ?thesis by (auto simp: bit_simps)
  next
    case False
    then have "k + 8 + (n - 8) = k + n" by simp
    with False n show ?thesis by (auto simp: bit_simps)
  qed
qed

lemma byte_top:
  assumes "LENGTH('a::len) \<le> k + 8"
  shows "ucast (ucast (drop_bit k v) :: u8) = drop_bit k (v :: 'a word)"
  using assms by (intro bit_word_eqI) (auto simp: bit_simps dest: bit_imp_le_length)

lemma read_write_u16:
  assumes "2 \<le> length p"
  shows "eaf_bytes_read_u16 (eaf_bytes_write_u16 p v) = v"
proof -
  have ne: "p \<noteq> []" using assms by auto
  have "eaf_bytes_read_u16 (eaf_bytes_write_u16 p v) =
      push_bit 8 (ucast (ucast (drop_bit 8 v) :: u8)) OR ucast (ucast (drop_bit 0 v) :: u8)"
    using assms ne by (simp add: eaf_bytes_read_u16_def eaf_bytes_write_u16_def)
  also have "\<dots> = v"
    using byte_merge [of 0 v] byte_top [of 8 v] by simp
  finally show ?thesis .
qed

lemma read_write_u32:
  assumes "4 \<le> length p"
  shows "eaf_bytes_read_u32 (eaf_bytes_write_u32 p v) = v"
proof -
  have ne: "p \<noteq> []" using assms by auto
  let ?b = "\<lambda>k. ucast (ucast (drop_bit k v) :: u8) :: u32"
  have "eaf_bytes_read_u32 (eaf_bytes_write_u32 p v) =
      push_bit 8 (push_bit 8 (push_bit 8 (?b 24) OR ?b 16) OR ?b 8) OR ?b 0"
    using assms ne
    by (simp add: eaf_bytes_read_u32_def eaf_bytes_write_u32_def upt_4 push_bit_or or.assoc)
  also have "\<dots> = v"
    using byte_merge [of 16 v] byte_merge [of 8 v] byte_merge [of 0 v] byte_top [of 24 v] by simp
  finally show ?thesis .
qed

lemma read_write_u64:
  assumes "8 \<le> length p"
  shows "eaf_bytes_read_u64 (eaf_bytes_write_u64 p v) = v"
proof -
  have ne: "p \<noteq> []" using assms by auto
  let ?b = "\<lambda>k. ucast (ucast (drop_bit k v) :: u8) :: u64"
  let ?m = "\<lambda>a k. push_bit 8 a OR ?b k"
  have "eaf_bytes_read_u64 (eaf_bytes_write_u64 p v) =
      ?m (?m (?m (?m (?m (?m (?m (?b 56) 48) 40) 32) 24) 16) 8) 0"
    using assms ne
    by (simp add: eaf_bytes_read_u64_def eaf_bytes_write_u64_def upt_8)
  also have "\<dots> = v"
    using byte_merge [of 48 v] byte_merge [of 40 v] byte_merge [of 32 v] byte_merge [of 24 v]
      byte_merge [of 16 v] byte_merge [of 8 v] byte_merge [of 0 v] byte_top [of 56 v]
    by (simp del: push_bit_or)
  finally show ?thesis .
qed

section \<open>Decimal digits\<close>

text \<open>The \<open>do\<close> loop: least significant digit first, at least one digit.\<close>

function dec_digits :: "u64 \<Rightarrow> string" where
  "dec_digits v =
     char_of (48 + unat (v mod 10)) # (if v div 10 = 0 then [] else dec_digits (v div 10))"
  by pat_completeness auto
termination
proof (relation "measure unat", goal_cases)
  case (2 v)
  then have "v \<noteq> 0" by auto
  then have "0 < unat v" by (simp add: unat_gt_0)
  then show ?case by (simp add: unat_div)
qed simp

declare dec_digits.simps [simp del]

definition eaf_bytes_write_u64_dec :: "string \<Rightarrow> nat \<Rightarrow> u64 \<Rightarrow> nat \<times> string" where
  "eaf_bytes_write_u64_dec dst capacity v =
     (let digits = dec_digits v; n = length digits
      in if n > capacity then (0, dst)
         else (n, fold (\<lambda>i dst. dst[i := digits ! (n - 1 - i)]) [0..<n] dst))"

text \<open>The number a string of digits denotes, most significant digit first.\<close>

definition dec_value :: "string \<Rightarrow> nat" where
  "dec_value s = foldl (\<lambda>a c. a * 10 + (of_char c - 48)) 0 s"

definition is_digit :: "char \<Rightarrow> bool" where
  "is_digit c \<longleftrightarrow> 48 \<le> (of_char c :: nat) \<and> (of_char c :: nat) \<le> 57"

lemma dec_value_snoc: "dec_value (s @ [c]) = dec_value s * 10 + (of_char c - 48)"
  by (simp add: dec_value_def)

lemma unat_mod_10: "unat (v mod 10 :: u64) = unat v mod 10"
  by (simp add: unat_mod)

lemma of_char_digit: "of_char (char_of (48 + unat (v mod 10 :: u64))) = 48 + unat v mod 10"
proof -
  have "48 + unat v mod 10 < 256" using mod_less_divisor [of 10 "unat v"] by linarith
  then show ?thesis by (simp add: unat_mod_10)
qed

lemma is_digit_digit: "is_digit (char_of (48 + unat (v mod 10 :: u64)))"
  using mod_less_divisor [of 10 "unat v"] unfolding is_digit_def of_char_digit by linarith

lemma dec_digits_value: "dec_value (rev (dec_digits v)) = unat v"
proof (induction v rule: dec_digits.induct)
  case (1 v)
  show ?case
  proof (cases "v div 10 = 0")
    case True
    then have "unat (v div 10) = 0" by simp
    then have "unat v div 10 = 0" by (simp add: unat_div)
    then have "unat v mod 10 = unat v" by (metis add_0 mult_0_right mult_div_mod_eq)
    then show ?thesis
      using dec_value_snoc [of "[]" "char_of (48 + unat (v mod 10))"] of_char_digit [of v]
      by (subst dec_digits.simps) (simp add: True dec_value_def)
  next
    case False
    with "1.IH" show ?thesis
      by (subst dec_digits.simps)
         (simp only: if_False rev.simps dec_value_snoc of_char_digit unat_div, simp)
  qed
qed

lemma dec_digits_digits: "c \<in> set (dec_digits v) \<Longrightarrow> is_digit c"
proof (induction v rule: dec_digits.induct)
  case (1 v)
  from "1.prems" show ?case
    by (subst (asm) dec_digits.simps) (auto simp: is_digit_digit split: if_splits intro: "1.IH")
qed

lemma dec_digits_length_le: "unat v < 10 ^ Suc n \<Longrightarrow> length (dec_digits v) \<le> Suc n"
proof (induction n arbitrary: v)
  case 0
  then have "unat v div 10 = 0" by simp
  then have "v div 10 = 0" by (simp add: word_unat_eq_iff unat_div)
  then show ?case by (subst dec_digits.simps) simp
next
  case (Suc n)
  then have "unat v div 10 < 10 ^ Suc n" by (simp add: div_less_iff_less_mult mult.commute)
  then have "unat (v div 10) < 10 ^ Suc n" by (simp add: unat_div)
  from Suc.IH [OF this] show ?case by (subst dec_digits.simps) simp
qed

text \<open>The 20-character scratch array of the printer is large enough for every value.\<close>

lemma dec_digits_length: "length (dec_digits v) \<le> 20"
proof -
  have "unat v < 2 ^ 64" using unsigned_less [of v, where ?'a = nat] by simp
  then have "unat v < 10 ^ Suc 19" by simp
  from dec_digits_length_le [OF this] show ?thesis by simp
qed

lemma dec_digits_pos: "0 < length (dec_digits v)"
  by (subst dec_digits.simps) simp

lemma write_u64_dec_eq:
  assumes "capacity \<le> length dst"
  shows "eaf_bytes_write_u64_dec dst capacity v =
    (if length (dec_digits v) > capacity then (0, dst)
     else (length (dec_digits v), blit dst 0 (rev (dec_digits v))))"
proof -
  let ?d = "dec_digits v" let ?n = "length ?d"
  have "map (\<lambda>i. ?d ! (?n - 1 - i)) [0..<?n] = rev ?d"
    by (rule nth_equalityI) (simp_all add: rev_nth)
  then show ?thesis
    using assms fold_update_blit [of 0 ?n dst "\<lambda>i. ?d ! (?n - 1 - i)"]
    by (simp add: eaf_bytes_write_u64_dec_def Let_def)
qed

section \<open>Properties\<close>

text \<open>
  Big-endian round trip: a 16-, 32- or 64-bit value written to a byte array is the value
  read back from it, and the write changes no byte beyond its width.
\<close>

theorem bytes_round_trip:
  assumes "8 \<le> length p"
  shows "eaf_bytes_read_u16 (eaf_bytes_write_u16 p v16) = v16 \<and>
    eaf_bytes_read_u32 (eaf_bytes_write_u32 p v32) = v32 \<and>
    eaf_bytes_read_u64 (eaf_bytes_write_u64 p v64) = v64 \<and>
    drop 2 (eaf_bytes_write_u16 p v16) = drop 2 p \<and>
    drop 4 (eaf_bytes_write_u32 p v32) = drop 4 p \<and>
    drop 8 (eaf_bytes_write_u64 p v64) = drop 8 p"
  using assms read_write_u16 [of p v16] read_write_u32 [of p v32] read_write_u64 [of p v64]
  by (simp add: eaf_bytes_write_u16_def eaf_bytes_write_u32_def eaf_bytes_write_u64_def upt_4 upt_8)

theorem bytes_round_trip_witness:
  "eaf_bytes_read_u32 (eaf_bytes_write_u32 (replicate 8 255) 305419896) = 305419896"
  using bytes_round_trip [of "replicate 8 255"] by simp

text \<open>
  The decimal printer. If the destination has room for them it receives exactly the
  decimal digits of the value, most significant first and without a leading zero beyond
  the number zero itself, and their number is returned; otherwise nothing is written and
  0 is returned. Twenty characters are enough for every value.
\<close>

theorem decimal_printer:
  assumes "capacity \<le> length dst" and "eaf_bytes_write_u64_dec dst capacity v = (n, dst')"
  shows "(n = 0 \<and> dst' = dst \<and> capacity < 20 \<or>
          0 < n \<and> n \<le> capacity \<and> list_all is_digit (take n dst') \<and>
          dec_value (take n dst') = unat v \<and> drop n dst' = drop n dst) \<and>
         (20 \<le> capacity \<longrightarrow> 0 < n)"
  using assms(2) dec_digits_length [of v] dec_digits_pos [of v]
  by (auto simp: write_u64_dec_eq [OF assms(1)] blit_def list_all_iff dec_digits_digits dec_digits_value
      split: if_splits)

theorem decimal_printer_witness:
  "\<exists>n dst'. eaf_bytes_write_u64_dec (replicate 20 CHR ''x'') 20 307 = (n, dst') \<and>
     dec_value (take n dst') = 307"
proof -
  obtain n dst' where p: "eaf_bytes_write_u64_dec (replicate 20 CHR ''x'') 20 307 = (n, dst')" by fastforce
  from decimal_printer [OF _ p] p show ?thesis by auto
qed

end
