(* ===== verification/Control_Queue.thy ===== *)
theory Control_Queue
  imports Ring_Memory FIFO_Spec
begin

text \<open>
  \<open>core/eaf_control.c\<close>: the bounded queue that carries stop, seek and gain commands from
  one control producer to the audio owner. First the two operations as the code composes
  them; then the same operations split at their atomic accesses, as a step relation in
  which producer and consumer interleave freely.
\<close>

section \<open>State and operations\<close>

datatype eaf_command_type_t =
    EAF_COMMAND_STOP | EAF_COMMAND_SEEK | EAF_COMMAND_GAIN
  | EAF_COMMAND_UNKNOWN int \<comment> \<open>any other value of the C enumeration type\<close>

record eaf_command_t =
  command_type :: eaf_command_type_t
  command_frame :: u64
  command_gain :: int

abbreviation (input) EAF_CONTROL_CAPACITY :: u32 where "EAF_CONTROL_CAPACITY \<equiv> 16"

record eaf_control_queue_t =
  slots :: "eaf_command_t list"
  read_cursor :: u32
  write_cursor :: u32

definition eaf_control_init :: "eaf_control_queue_t \<Rightarrow> eaf_control_queue_t" where
  "eaf_control_init q = q\<lparr>read_cursor := 0, write_cursor := 0\<rparr>"

definition eaf_control_push ::
  "eaf_control_queue_t \<Rightarrow> eaf_command_t option \<Rightarrow> bool \<times> eaf_control_queue_t" where
  "eaf_control_push q command =
     (case command of None \<Rightarrow> (False, q)
      | Some c \<Rightarrow>
        let write = write_cursor q
        in if write - read_cursor q = EAF_CONTROL_CAPACITY then (False, q)
           else (True, q\<lparr>slots := (slots q)[unat (write mod EAF_CONTROL_CAPACITY) := c],
                         write_cursor := write + 1\<rparr>))"

definition eaf_control_pop ::
  "eaf_control_queue_t \<Rightarrow> eaf_command_t option \<times> eaf_control_queue_t" where
  "eaf_control_pop q =
     (let read = read_cursor q
      in if read = write_cursor q then (None, q)
         else (Some (slots q ! unat (read mod EAF_CONTROL_CAPACITY)),
               q\<lparr>read_cursor := read + 1\<rparr>))"

section \<open>Well-formedness and abstraction\<close>

definition control_level :: "eaf_control_queue_t \<Rightarrow> nat" where
  "control_level q = unat (write_cursor q - read_cursor q)"

definition control_inv :: "eaf_control_queue_t \<Rightarrow> bool" where
  "control_inv q \<longleftrightarrow> length (slots q) = 16 \<and> control_level q \<le> 16"

definition control_content :: "eaf_control_queue_t \<Rightarrow> eaf_command_t list" where
  "control_content q = ring_read (slots q) (unat (read_cursor q)) (control_level q)"

lemma unat_mod_16: "unat (c mod 16 :: u32) = unat c mod 16"
  by (simp add: unat_mod)

lemma slot_index:
  assumes "length st = 16"
  shows "unat (w mod 16 :: u32) = (unat r mod 16 + unat (w - r)) mod length st"
proof -
  have "unat (r + (w - r)) mod 2 ^ 4 = (unat r mod 2 ^ 4 + unat (w - r)) mod 2 ^ 4"
    by (rule cursor_slot) simp
  then show ?thesis using assms by (simp add: unat_mod_16)
qed

lemma control_write_slot:
  assumes "length st = 16" and "unat (w - r) < 16"
  shows "ring_read (st[unat (w mod 16 :: u32) := c]) (unat (r::u32)) (Suc (unat (w - r))) =
    ring_read st (unat r) (unat (w - r)) @ [c]"
  using ring_write_slot [of st 4 w r c] assms by (simp add: unat_mod_16)

lemma control_read_slot:
  assumes "length st = 16" and "(w::u32) \<noteq> r"
  shows "ring_read st (unat r) (unat (w - r)) =
    st ! unat (r mod 16) # ring_read st (unat (r + 1)) (unat (w - (r + 1)))"
  using ring_read_slot [of st 4 w r] assms by (simp add: unat_mod_16)

lemma control_push_spec:
  assumes inv: "control_inv q" and push: "eaf_control_push q (Some c) = (ok, q')"
  shows "control_inv q'" and "ok \<longleftrightarrow> control_level q < 16"
    and "control_content q' = control_content q @ (if ok then [c] else [])"
proof -
  let ?w = "write_cursor q" and ?r = "read_cursor q"
  have len: "length (slots q) = 16" and lv: "unat (?w - ?r) \<le> 16"
    using inv by (auto simp: control_inv_def control_level_def)
  have full: "?w - ?r = 16 \<longleftrightarrow> unat (?w - ?r) = 16"
    by (simp add: word_unat_eq_iff)
  show ok: "ok \<longleftrightarrow> control_level q < 16"
    using push full lv by (auto simp: eaf_control_push_def Let_def control_level_def split: if_splits)
  have adv: "unat (?w + 1 - ?r) = Suc (unat (?w - ?r))" if "unat (?w - ?r) < 16"
    using cursor_advance [of 1 ?w ?r] that by simp
  show "control_inv q'"
    using push full len lv adv
    by (auto simp: eaf_control_push_def Let_def control_inv_def control_level_def split: if_splits)
  show "control_content q' = control_content q @ (if ok then [c] else [])"
  proof (cases ok)
    case True
    then have lt: "unat (?w - ?r) < 16" using ok by (simp add: control_level_def)
    have "q' = q\<lparr>slots := (slots q)[unat (?w mod 16) := c], write_cursor := ?w + 1\<rparr>"
      using push True by (auto simp: eaf_control_push_def Let_def split: if_splits)
    then show ?thesis
      using control_write_slot [OF len lt, of c] True
      by (simp add: control_content_def control_level_def adv [OF lt])
  next
    case False
    then have "q' = q" using push by (auto simp: eaf_control_push_def Let_def split: if_splits)
    then show ?thesis using False by simp
  qed
qed

lemma control_pop_spec:
  assumes inv: "control_inv q" and pop: "eaf_control_pop q = (r, q')"
  shows "control_inv q'"
    and "control_content q = (case r of None \<Rightarrow> [] | Some c \<Rightarrow> [c]) @ control_content q'"
    and "r = None \<longleftrightarrow> control_content q = []"
proof -
  let ?w = "write_cursor q" and ?r = "read_cursor q"
  have len: "length (slots q) = 16" and lv: "unat (?w - ?r) \<le> 16"
    using inv by (auto simp: control_inv_def control_level_def)
  have "control_inv q' \<and>
    control_content q = (case r of None \<Rightarrow> [] | Some c \<Rightarrow> [c]) @ control_content q' \<and>
    (r = None \<longleftrightarrow> control_content q = [])"
  proof (cases "?w = ?r")
    case True
    then show ?thesis using pop inv
      by (auto simp: eaf_control_pop_def Let_def control_content_def control_level_def)
  next
    case False
    then have one: "1 \<le> ?w - ?r"
      by (simp add: word_le_nat_alt Suc_le_eq unat_gt_0)
    have q': "r = Some (slots q ! unat (?r mod 16))" "q' = q\<lparr>read_cursor := ?r + 1\<rparr>"
      using pop False by (auto simp: eaf_control_pop_def Let_def)
    have "unat (?w - (?r + 1)) \<le> 16" using cursor_retreat [OF one] lv by simp
    then show ?thesis using q' len control_read_slot [OF len False]
      by (simp add: control_inv_def control_content_def control_level_def)
  qed
  then show "control_inv q'"
    and "control_content q = (case r of None \<Rightarrow> [] | Some c \<Rightarrow> [c]) @ control_content q'"
    and "r = None \<longleftrightarrow> control_content q = []"
    by blast+
qed

interpretation control: bounded_fifo "\<lambda>c q. eaf_control_push q (Some c)" eaf_control_pop
  "\<lambda>c q. c" control_content control_inv 16
proof (unfold_locales, goal_cases)
  case (1 q i q')
  then show ?case using control_push_spec [of q i True q'] by simp
next
  case (2 q i q')
  then show ?case using control_push_spec [of q i False q'] by simp
next
  case (3 q x q')
  then show ?case using control_pop_spec [of q "Some x" q'] by simp
next
  case (4 q q')
  then show ?case using control_pop_spec [of q None q'] by simp
next
  case (5 q)
  then show ?case by (simp add: control_content_def control_inv_def)
qed

section \<open>Producer and consumer interleaved\<close>

text \<open>
  One call is a sequence of atomic accesses: load the own cursor, load the peer's cursor
  and decide, copy the slot, publish the own cursor. The phases below are the points between
  these accesses; a call in progress remembers what it has loaded. \<open>sent\<close> and \<open>received\<close>
  record what the two owners have completed.
\<close>

datatype producer_phase =
    P_Idle
  | P_Loaded eaf_command_t u32   \<comment> \<open>write cursor loaded\<close>
  | P_HasRoom eaf_command_t u32  \<comment> \<open>read cursor loaded, queue not full\<close>
  | P_Stored eaf_command_t u32   \<comment> \<open>slot written, cursor not yet published\<close>

datatype consumer_phase =
    C_Idle
  | C_Loaded u32                 \<comment> \<open>read cursor loaded\<close>
  | C_HasItem u32                \<comment> \<open>write cursor loaded, queue not empty\<close>
  | C_Copied u32 eaf_command_t   \<comment> \<open>slot copied, cursor not yet published\<close>

record control_system =
  queue :: eaf_control_queue_t
  producer :: producer_phase
  consumer :: consumer_phase
  sent :: "eaf_command_t list"
  received :: "eaf_command_t list"

inductive control_step :: "control_system \<Rightarrow> control_system \<Rightarrow> bool" where
  push_load: "producer s = P_Idle \<Longrightarrow>
     control_step s (s\<lparr>producer := P_Loaded c (write_cursor (queue s))\<rparr>)"
| push_full: "producer s = P_Loaded c w \<Longrightarrow> w - read_cursor (queue s) = 16 \<Longrightarrow>
     control_step s (s\<lparr>producer := P_Idle\<rparr>)"
| push_room: "producer s = P_Loaded c w \<Longrightarrow> w - read_cursor (queue s) \<noteq> 16 \<Longrightarrow>
     control_step s (s\<lparr>producer := P_HasRoom c w\<rparr>)"
| push_slot: "producer s = P_HasRoom c w \<Longrightarrow>
     control_step s (s\<lparr>queue := (queue s)\<lparr>slots := (slots (queue s))[unat (w mod 16) := c]\<rparr>,
                       producer := P_Stored c w\<rparr>)"
| push_publish: "producer s = P_Stored c w \<Longrightarrow>
     control_step s (s\<lparr>queue := (queue s)\<lparr>write_cursor := w + 1\<rparr>, producer := P_Idle,
                       sent := sent s @ [c]\<rparr>)"
| pop_load: "consumer s = C_Idle \<Longrightarrow>
     control_step s (s\<lparr>consumer := C_Loaded (read_cursor (queue s))\<rparr>)"
| pop_empty: "consumer s = C_Loaded r \<Longrightarrow> r = write_cursor (queue s) \<Longrightarrow>
     control_step s (s\<lparr>consumer := C_Idle\<rparr>)"
| pop_item: "consumer s = C_Loaded r \<Longrightarrow> r \<noteq> write_cursor (queue s) \<Longrightarrow>
     control_step s (s\<lparr>consumer := C_HasItem r\<rparr>)"
| pop_slot: "consumer s = C_HasItem r \<Longrightarrow>
     control_step s (s\<lparr>consumer := C_Copied r (slots (queue s) ! unat (r mod 16))\<rparr>)"
| pop_publish: "consumer s = C_Copied r x \<Longrightarrow>
     control_step s (s\<lparr>queue := (queue s)\<lparr>read_cursor := r + 1\<rparr>, consumer := C_Idle,
                       received := received s @ [x]\<rparr>)"

definition control_start :: "eaf_control_queue_t \<Rightarrow> control_system" where
  "control_start q = \<lparr>queue = q, producer = P_Idle, consumer = C_Idle, sent = [], received = []\<rparr>"

inductive control_reachable :: "eaf_control_queue_t \<Rightarrow> control_system \<Rightarrow> bool" for q where
  start: "control_reachable q (control_start q)"
| step: "control_reachable q s \<Longrightarrow> control_step s t \<Longrightarrow> control_reachable q t"

text \<open>
  What holds between any two accesses. A producer that has seen room still has it, because
  only it adds elements; a consumer that has seen an item still has it.
\<close>

definition producer_ok :: "eaf_control_queue_t \<Rightarrow> producer_phase \<Rightarrow> bool" where
  "producer_ok q p = (case p of
       P_Idle \<Rightarrow> True
     | P_Loaded c w \<Rightarrow> w = write_cursor q
     | P_HasRoom c w \<Rightarrow> w = write_cursor q \<and> control_level q < 16
     | P_Stored c w \<Rightarrow> w = write_cursor q \<and> control_level q < 16 \<and> slots q ! unat (w mod 16) = c)"

definition consumer_ok :: "eaf_control_queue_t \<Rightarrow> consumer_phase \<Rightarrow> bool" where
  "consumer_ok q p = (case p of
       C_Idle \<Rightarrow> True
     | C_Loaded r \<Rightarrow> r = read_cursor q
     | C_HasItem r \<Rightarrow> r = read_cursor q \<and> 0 < control_level q
     | C_Copied r x \<Rightarrow> r = read_cursor q \<and> 0 < control_level q \<and> x = slots q ! unat (r mod 16))"

definition control_sys_inv :: "eaf_control_queue_t \<Rightarrow> control_system \<Rightarrow> bool" where
  "control_sys_inv q0 s \<longleftrightarrow>
     control_inv (queue s) \<and> producer_ok (queue s) (producer s) \<and>
     consumer_ok (queue s) (consumer s) \<and>
     control_content q0 @ sent s = received s @ control_content (queue s)"

text \<open>The slot under the producer's pen is never a slot the consumer can read.\<close>

lemma ring_read_other_slot:
  assumes "length st = 16" and "unat (w - r) < 16"
  shows "ring_read (st[unat (w mod 16 :: u32) := c]) (unat (r::u32)) (unat (w - r)) =
    ring_read st (unat r) (unat (w - r))"
proof -
  let ?st = "st[unat (w mod 16) := c]"
  have "take (unat (w - r)) (ring_read ?st (unat r) (Suc (unat (w - r)))) =
        ring_read ?st (unat r) (unat (w - r))"
    by (rule take_ring_read) simp
  then show ?thesis using control_write_slot [OF assms, of c] by simp
qed

lemma slots_distinct:
  assumes "0 < unat (w - r)" and "unat (w - r) < 16"
  shows "unat (w mod 16 :: u32) \<noteq> unat (r mod 16 :: u32)"
proof -
  have "unat (w mod 16) = (unat r mod 16 + unat (w - r)) mod 16"
    using slot_index [of "replicate 16 ()" w r] by simp
  also have "\<dots> \<noteq> unat r mod 16"
  proof -
    have "(a + d) mod 16 \<noteq> a" if "a < 16" "0 < d" "d < 16" for a d :: nat
      using that by (cases "a + d < 16") (simp_all add: le_mod_geq)
    then show ?thesis using assms by simp
  qed
  finally show ?thesis by (simp add: unat_mod_16)
qed

lemma control_start_inv:
  "control_inv q \<Longrightarrow> control_sys_inv q (control_start q)"
  by (simp add: control_sys_inv_def control_start_def producer_ok_def consumer_ok_def)

text \<open>The producer's two writes to shared memory.\<close>

lemma push_slot_inv:
  assumes inv: "control_sys_inv q0 s" and p: "producer s = P_HasRoom c w"
  shows "control_sys_inv q0 (s\<lparr>queue := (queue s)\<lparr>slots := (slots (queue s))[unat (w mod 16) := c]\<rparr>,
                               producer := P_Stored c w\<rparr>)"
proof -
  let ?q = "queue s"
  have w: "w = write_cursor ?q" and lv: "unat (write_cursor ?q - read_cursor ?q) < 16"
    and len: "length (slots ?q) = 16"
    using inv p by (auto simp: control_sys_inv_def producer_ok_def control_level_def control_inv_def)
  have idx: "unat (w mod 16) < 16" by (simp add: unat_mod_16)
  have content: "control_content (?q\<lparr>slots := (slots ?q)[unat (w mod 16) := c]\<rparr>) = control_content ?q"
    using ring_read_other_slot [OF len lv, of c] by (simp add: control_content_def control_level_def w)
  have cons: "consumer_ok (?q\<lparr>slots := (slots ?q)[unat (w mod 16) := c]\<rparr>) (consumer s)"
    using inv lv slots_distinct [of "write_cursor ?q" "read_cursor ?q"]
    by (auto simp: control_sys_inv_def consumer_ok_def control_level_def w split: consumer_phase.splits)
  show ?thesis
    using inv p len idx content cons w lv
    by (auto simp: control_sys_inv_def producer_ok_def control_inv_def control_level_def)
qed

lemma push_publish_inv:
  assumes inv: "control_sys_inv q0 s" and p: "producer s = P_Stored c w"
  shows "control_sys_inv q0 (s\<lparr>queue := (queue s)\<lparr>write_cursor := w + 1\<rparr>, producer := P_Idle,
                               sent := sent s @ [c]\<rparr>)"
proof -
  let ?q = "queue s"
  have w: "w = write_cursor ?q" and lv: "unat (write_cursor ?q - read_cursor ?q) < 16"
    and len: "length (slots ?q) = 16" and c: "slots ?q ! unat (w mod 16) = c"
    using inv p by (auto simp: control_sys_inv_def producer_ok_def control_level_def control_inv_def)
  have adv: "unat (write_cursor ?q + 1 - read_cursor ?q) = Suc (unat (write_cursor ?q - read_cursor ?q))"
    using cursor_advance [of 1 "write_cursor ?q" "read_cursor ?q"] lv by simp
  have "(slots ?q)[unat (w mod 16) := c] = slots ?q" using c by (metis list_update_id)
  then have content: "control_content (?q\<lparr>write_cursor := w + 1\<rparr>) = control_content ?q @ [c]"
    using control_write_slot [OF len lv, of c] by (simp add: control_content_def control_level_def w adv)
  have cons: "consumer_ok (?q\<lparr>write_cursor := w + 1\<rparr>) (consumer s)"
    using inv adv
    by (auto simp: control_sys_inv_def consumer_ok_def control_level_def w split: consumer_phase.splits)
  show ?thesis
    using inv len content cons lv adv
    by (simp add: control_sys_inv_def producer_ok_def control_inv_def control_level_def w)
qed

text \<open>The consumer's write to shared memory.\<close>

lemma pop_publish_inv:
  assumes inv: "control_sys_inv q0 s" and p: "consumer s = C_Copied r x"
  shows "control_sys_inv q0 (s\<lparr>queue := (queue s)\<lparr>read_cursor := r + 1\<rparr>, consumer := C_Idle,
                               received := received s @ [x]\<rparr>)"
proof -
  let ?q = "queue s"
  have r: "r = read_cursor ?q" and lv: "0 < unat (write_cursor ?q - read_cursor ?q)"
    and len: "length (slots ?q) = 16" and x: "x = slots ?q ! unat (r mod 16)"
    using inv p by (auto simp: control_sys_inv_def consumer_ok_def control_level_def control_inv_def)
  have ne: "write_cursor ?q \<noteq> read_cursor ?q" and one: "1 \<le> write_cursor ?q - read_cursor ?q"
    using lv by (auto simp: word_le_nat_alt)
  have ret: "unat (write_cursor ?q - (read_cursor ?q + 1)) = unat (write_cursor ?q - read_cursor ?q) - 1"
    using cursor_retreat [OF one] by simp
  have content: "control_content ?q = x # control_content (?q\<lparr>read_cursor := r + 1\<rparr>)"
    using control_read_slot [OF len ne] by (simp add: control_content_def control_level_def x r)
  have prod: "producer_ok (?q\<lparr>read_cursor := r + 1\<rparr>) (producer s)"
    using inv ret
    by (auto simp: control_sys_inv_def producer_ok_def control_level_def r split: producer_phase.splits)
  show ?thesis
    using inv len content prod ret lv
    by (auto simp: control_sys_inv_def consumer_ok_def control_inv_def control_level_def r)
qed

lemma control_step_inv:
  assumes "control_step s t" and "control_sys_inv q0 s"
  shows "control_sys_inv q0 t"
  using assms
proof (induction rule: control_step.induct)
  case (push_slot s c w)
  then show ?case by (simp add: push_slot_inv)
next
  case (push_publish s c w)
  then show ?case by (simp add: push_publish_inv)
next
  case (pop_publish s r x)
  then show ?case by (simp add: pop_publish_inv)
next
  case (push_room s c w)
  then have "unat (w - read_cursor (queue s)) \<noteq> 16" by (simp add: word_unat_eq_iff)
  with push_room show ?case
    by (auto simp: control_sys_inv_def producer_ok_def control_inv_def control_level_def)
next
  case (pop_item s r)
  then show ?case
    by (auto simp: control_sys_inv_def consumer_ok_def control_level_def unat_gt_0)
qed (auto simp: control_sys_inv_def producer_ok_def consumer_ok_def)

lemma control_reachable_inv:
  assumes "control_reachable q s" and "control_inv q"
  shows "control_sys_inv q s"
  using assms by (induction rule: control_reachable.induct) (auto intro: control_start_inv control_step_inv)

text \<open>
  A call that runs without interference is the operation of the sequential model, so the
  step relation splits the code at its accesses and adds nothing to it.
\<close>

lemma push_steps_sequential:
  assumes "producer s = P_Idle" and "eaf_control_push (queue s) (Some c) = (ok, q')"
  shows "\<exists>t. control_step\<^sup>*\<^sup>* s t \<and> queue t = q' \<and> producer t = P_Idle \<and>
             consumer t = consumer s \<and> sent t = sent s @ (if ok then [c] else [])"
proof -
  let ?q = "queue s"
  let ?s1 = "s\<lparr>producer := P_Loaded c (write_cursor ?q)\<rparr>"
  have s1: "control_step s ?s1" using assms(1) by (rule control_step.push_load)
  show ?thesis
  proof (cases "write_cursor ?q - read_cursor ?q = 16")
    case True
    have "control_step ?s1 (?s1\<lparr>producer := P_Idle\<rparr>)"
      by (rule control_step.push_full [of _ c "write_cursor ?q"]) (simp_all add: True)
    with s1 have "control_step\<^sup>*\<^sup>* s (?s1\<lparr>producer := P_Idle\<rparr>)" by (meson converse_rtranclp_into_rtranclp r_into_rtranclp)
    moreover have "q' = ?q" "\<not> ok" using assms(2) True by (auto simp: eaf_control_push_def)
    ultimately show ?thesis using assms(1) by (intro exI [of _ "?s1\<lparr>producer := P_Idle\<rparr>"]) simp
  next
    case False
    let ?s2 = "?s1\<lparr>producer := P_HasRoom c (write_cursor ?q)\<rparr>"
    let ?s3 = "?s2\<lparr>queue := ?q\<lparr>slots := (slots ?q)[unat (write_cursor ?q mod 16) := c]\<rparr>,
                   producer := P_Stored c (write_cursor ?q)\<rparr>"
    let ?s4 = "?s3\<lparr>queue := (queue ?s3)\<lparr>write_cursor := write_cursor ?q + 1\<rparr>, producer := P_Idle,
                   sent := sent ?s3 @ [c]\<rparr>"
    have s2: "control_step ?s1 ?s2"
      by (rule control_step.push_room [of _ c "write_cursor ?q"]) (simp_all add: False)
    have s3: "control_step ?s2 ?s3"
      using control_step.push_slot [of ?s2 c "write_cursor ?q"] by simp
    have s4: "control_step ?s3 ?s4"
      by (rule control_step.push_publish) simp
    from s1 s2 s3 s4 have "control_step\<^sup>*\<^sup>* s ?s4"
      by (meson converse_rtranclp_into_rtranclp r_into_rtranclp)
    moreover have "ok" "q' = ?q\<lparr>slots := (slots ?q)[unat (write_cursor ?q mod 16) := c],
                                write_cursor := write_cursor ?q + 1\<rparr>"
      using assms(2) False by (auto simp: eaf_control_push_def Let_def)
    ultimately show ?thesis by (intro exI [of _ ?s4]) simp
  qed
qed

section \<open>Properties\<close>

definition example_command :: "int \<Rightarrow> eaf_command_t" where
  "example_command g = \<lparr>command_type = EAF_COMMAND_GAIN, command_frame = 0, command_gain = g\<rparr>"

definition example_queue :: eaf_control_queue_t where
  "example_queue = eaf_control_init
     \<lparr>slots = replicate 16 (example_command 0), read_cursor = 7, write_cursor = 9\<rparr>"

lemma control_init_empty:
  assumes "length (slots q) = 16"
  shows "control_inv (eaf_control_init q)" and "control_content (eaf_control_init q) = []"
  using assms by (simp_all add: control_inv_def eaf_control_init_def control_level_def control_content_def)

text \<open>
  The control queue is a bounded first-in first-out queue. After initialisation, for
  every sequence of push and pop calls, the accepted commands are exactly the commands
  popped, in order, followed by those still queued; at most sixteen are ever queued.
\<close>

theorem control_fifo:
  assumes "length (slots q) = 16"
    and "fifo_run (\<lambda>c q. eaf_control_push q (Some c)) eaf_control_pop (\<lambda>c q. c) ops (eaf_control_init q)
           = (accepted, popped, q')"
  shows "accepted = popped @ control_content q' \<and> length (control_content q') \<le> 16"
  using control.run_conserves [OF control_init_empty(1) assms(2)]
    control.run_bounded [OF control_init_empty(1) assms(2)] assms(1)
  by (simp add: control_init_empty(2))

theorem control_fifo_witness:
  "\<exists>q'. fifo_run (\<lambda>c q. eaf_control_push q (Some c)) eaf_control_pop (\<lambda>c q. c)
      [None, Some (example_command 1), Some (example_command 2), None] example_queue
     = ([example_command 1, example_command 2], [example_command 1], q') \<and>
     control_content q' = [example_command 2]"
proof -
  let ?q = "\<lparr>slots = replicate 16 (example_command 0), read_cursor = 7, write_cursor = 9\<rparr>"
  obtain q' where run: "fifo_run (\<lambda>c q. eaf_control_push q (Some c)) eaf_control_pop (\<lambda>c q. c)
      [None, Some (example_command 1), Some (example_command 2), None] (eaf_control_init ?q)
     = ([example_command 1, example_command 2], [example_command 1], q')"
    by (simp add: eaf_control_init_def eaf_control_push_def eaf_control_pop_def Let_def)
  have "[example_command 1, example_command 2] = [example_command 1] @ control_content q'"
    using control_fifo [OF _ run] by simp
  with run show ?thesis by (simp add: example_queue_def)
qed

text \<open>
  C2: the control queue under concurrency. However the atomic accesses of one producer and
  one consumer interleave, the commands sent so far are exactly those received, in order,
  followed by the queue's content; the queue stays within its capacity, and the slot the
  producer is about to write is never the slot the consumer is reading.
\<close>

theorem control_concurrent_fifo:
  assumes "control_reachable (eaf_control_init q) s" and "length (slots q) = 16"
  shows "sent s = received s @ control_content (queue s) \<and> control_inv (queue s) \<and>
    (\<forall>c w r. producer s = P_HasRoom c w \<longrightarrow> consumer s = C_HasItem r \<longrightarrow>
             unat (w mod 16) \<noteq> unat (r mod 16))"
proof -
  have inv: "control_sys_inv (eaf_control_init q) s"
    using control_reachable_inv [OF assms(1)] control_init_empty(1) [OF assms(2)] by blast
  then have "unat (w mod 16) \<noteq> unat (r mod 16)"
    if "producer s = P_HasRoom c w" "consumer s = C_HasItem r" for c w r
    using that slots_distinct [of "write_cursor (queue s)" "read_cursor (queue s)"]
    by (auto simp: control_sys_inv_def producer_ok_def consumer_ok_def control_level_def)
  with inv show ?thesis
    using control_init_empty(2) [OF assms(2)] by (auto simp: control_sys_inv_def)
qed

theorem control_concurrent_fifo_witness:
  "\<exists>s. control_reachable example_queue s \<and> sent s = [example_command 1] \<and>
       sent s = received s @ control_content (queue s)"
proof -
  let ?q = "\<lparr>slots = replicate 16 (example_command 0), read_cursor = 7, write_cursor = 9\<rparr>"
  obtain q' where push: "eaf_control_push (eaf_control_init ?q) (Some (example_command 1)) = (True, q')"
    by (simp add: eaf_control_init_def eaf_control_push_def Let_def)
  obtain s where steps: "control_step\<^sup>*\<^sup>* (control_start (eaf_control_init ?q)) s"
    and sent: "sent s = [example_command 1]"
    using push_steps_sequential [of "control_start (eaf_control_init ?q)" "example_command 1" True q'] push
    by (auto simp: control_start_def)
  from steps have "control_reachable (eaf_control_init ?q) s"
    by (induction rule: rtranclp_induct) (auto intro: control_reachable.intros)
  with control_concurrent_fifo [OF this] sent show ?thesis
    by (auto simp: example_queue_def)
qed

end
