(* ===== verification/Reservoir.thy ===== *)
theory Reservoir
  imports EAF_Types Ring_Memory
begin

text \<open>
  \<open>core/eaf_reservoir.c\<close>: the bounded sample ring between the decoding producer and the
  audio consumer. The state holds two free-running 32-bit frame cursors over an array of
  \<open>capacity * num_channels\<close> samples; \<open>pull\<close> runs the prebuffering / streaming / underrun /
  drained state machine and pads what is missing. The theory shows that the reservoir is a
  queue of samples: writes append, pulls take from the front, and nothing is lost, repeated
  or reordered, whatever the cursors have wrapped past.
\<close>

section \<open>State\<close>

datatype eaf_reservoir_state_t =
    EAF_RESERVOIR_PREBUFFERING | EAF_RESERVOIR_STREAMING
  | EAF_RESERVOIR_UNDERRUN | EAF_RESERVOIR_DRAINED

text \<open>
  \<open>storage\<close> is the caller's array (the empty list for a NULL pointer) and \<open>wake_producer\<close>
  whether a wake callback is installed; \<open>pull\<close> reports whether it called it.
\<close>

record eaf_reservoir_t =
  storage :: "int list"
  capacity :: u32
  high_watermark :: u32
  backpressure_low :: u32
  backpressure_high :: u32
  res_format :: eaf_format_t
  res_read :: u32
  res_write :: u32
  finished :: u32
  res_state :: eaf_reservoir_state_t
  underruns :: u32
  frames_read :: u64
  last_frame :: "int list"
  wake_producer :: bool

section \<open>Operations\<close>

definition storage_store :: "int list \<Rightarrow> u32 \<Rightarrow> u32 \<Rightarrow> int list \<Rightarrow> u32 \<Rightarrow> nat \<Rightarrow> int list" where
  "storage_store st cap start src frames ch =
     (let slot = start AND (cap - 1);
          first = cap - slot;
          first = (if first > frames then frames else first);
          st1 = blit st (unat slot * ch) (take (unat first * ch) src)
      in if first < frames
         then blit st1 0 (take (unat (frames - first) * ch) (drop (unat first * ch) src))
         else st1)"

definition storage_load :: "int list \<Rightarrow> int list \<Rightarrow> u32 \<Rightarrow> u32 \<Rightarrow> u32 \<Rightarrow> nat \<Rightarrow> int list" where
  "storage_load dst st cap start frames ch =
     (let slot = start AND (cap - 1);
          first = cap - slot;
          first = (if first > frames then frames else first);
          dst1 = blit dst 0 (take (unat first * ch) (drop (unat slot * ch) st))
      in if first < frames
         then blit dst1 (unat first * ch) (take (unat (frames - first) * ch) st)
         else dst1)"

definition eaf_reservoir_reset :: "eaf_reservoir_t \<Rightarrow> eaf_reservoir_t" where
  "eaf_reservoir_reset r =
     r\<lparr>res_read := 0, res_write := 0, finished := 0,
       res_state := EAF_RESERVOIR_PREBUFFERING, underruns := 0, frames_read := 0,
       last_frame := replicate 4 0\<rparr>"

text \<open>\<open>size_max\<close> is the platform's \<open>SIZE_MAX\<close>.\<close>

definition eaf_reservoir_init ::
  "nat \<Rightarrow> eaf_reservoir_t \<Rightarrow> int list \<Rightarrow> u32 \<Rightarrow> eaf_format_t \<Rightarrow> u32 \<Rightarrow> eaf_result_t \<times> eaf_reservoir_t" where
  "eaf_reservoir_init size_max r st cap fmt high =
     (if st = [] \<or> \<not> eaf_format_valid fmt \<or> cap < 2 \<or> cap > 4294967295 div 2 \<or>
         cap AND (cap - 1) \<noteq> 0 \<or> high = 0 \<or> high > cap \<or>
         unat cap > size_max div 4 div channels fmt
      then (EAF_INVALID, r)
      else (EAF_OK, eaf_reservoir_reset
             \<lparr>storage = st, capacity = cap, high_watermark = high,
              backpressure_low = cap div 2, backpressure_high = cap - cap div 10,
              res_format = fmt, res_read = 0, res_write = 0, finished = 0,
              res_state = EAF_RESERVOIR_PREBUFFERING, underruns = 0, frames_read = 0,
              last_frame = replicate 4 0, wake_producer = False\<rparr>))"

definition eaf_reservoir_level :: "eaf_reservoir_t \<Rightarrow> u32" where
  "eaf_reservoir_level r =
     (let level = res_write r - res_read r in if level > capacity r then capacity r else level)"

definition eaf_reservoir_backpressure :: "eaf_reservoir_t \<Rightarrow> bool" where
  "eaf_reservoir_backpressure r \<longleftrightarrow> eaf_reservoir_level r \<ge> backpressure_high r"

definition eaf_reservoir_write ::
  "eaf_reservoir_t \<Rightarrow> int list option \<Rightarrow> u32 \<Rightarrow> u32 \<times> eaf_reservoir_t" where
  "eaf_reservoir_write r src frames =
     (case src of None \<Rightarrow> (0, r)
      | Some src \<Rightarrow>
        if finished r \<noteq> 0 then (0, r)
        else let write = res_write r;
                 available = capacity r - (write - res_read r);
                 frames = (if frames > available then available else frames);
                 ch = channels (res_format r)
             in (frames, r\<lparr>storage := storage_store (storage r) (capacity r) write src frames ch,
                           res_write := write + frames\<rparr>))"

definition eaf_reservoir_finish :: "eaf_reservoir_t \<Rightarrow> eaf_reservoir_t" where
  "eaf_reservoir_finish r = r\<lparr>finished := 1\<rparr>"

text \<open>\<open>take = available < n ? available : n\<close>, in both playing branches of \<open>pull\<close>.\<close>

definition frames_to_take :: "u32 \<Rightarrow> u32 \<Rightarrow> u32" where
  "frames_to_take available n = (if available < n then available else n)"

text \<open>The branch of \<open>pull\<close> taken once the producer has published the end of the stream.\<close>

definition pull_finished ::
  "eaf_reservoir_t \<Rightarrow> eaf_buffer_t \<Rightarrow> eaf_reservoir_t \<times> eaf_buffer_t" where
  "pull_finished r buf =
     (let read = res_read r; available = res_write r - read; n = frame_count buf;
          ch = channels (res_format r);
          k = frames_to_take available n;
          m1 = storage_load (mem buf) (storage r) (capacity r) read k ch;
          m2 = blit m1 (unat k * ch) (replicate (unat (n - k) * ch) 0);
          state = (if available \<le> n then EAF_RESERVOIR_DRAINED else EAF_RESERVOIR_STREAMING);
          f1 = (if k = 0 then flags buf OR EAF_FRAME_SILENCE else flags buf);
          f2 = (if state = EAF_RESERVOIR_DRAINED then f1 OR EAF_FRAME_EOS else f1)
      in (r\<lparr>res_read := read + k, frames_read := frames_read r + ucast k, res_state := state\<rparr>,
          buf\<lparr>mem := m2, flags := f2\<rparr>))"

text \<open>
  The ramp from the last real frame \<open>from\<close> to zero, at most 16 frames long, over the
  zeroed shortfall that starts at frame \<open>k\<close>.
\<close>

definition fade_sample :: "int \<Rightarrow> nat \<Rightarrow> nat \<Rightarrow> int" where
  "fade_sample x fade i = i32 ((x * int (fade - i - 1)) sdiv int fade)"

definition fade_pad :: "int list \<Rightarrow> int list \<Rightarrow> nat \<Rightarrow> nat \<Rightarrow> nat \<Rightarrow> int list" where
  "fade_pad m from k fade ch =
     fold (\<lambda>i m. fold (\<lambda>c m. m[(k + i) * ch + c := fade_sample (from ! c) fade i]) [0..<ch] m)
       [0..<fade] m"

definition pull_streaming ::
  "eaf_reservoir_t \<Rightarrow> eaf_buffer_t \<Rightarrow> u32 \<times> eaf_reservoir_t \<times> eaf_buffer_t" where
  "pull_streaming r buf =
     (let read = res_read r; available = res_write r - read; n = frame_count buf;
          ch = channels (res_format r);
          k = frames_to_take available n;
          m1 = storage_load (mem buf) (storage r) (capacity r) read k ch;
          adv = (\<lambda>r. r\<lparr>res_read := read + k, frames_read := frames_read r + ucast k\<rparr>)
      in if k < n
         then let from = (if k \<noteq> 0 then take ch (drop (unat (k - 1) * ch) m1)
                          else take ch (last_frame r));
                  m2 = blit m1 (unat k * ch) (replicate (unat (n - k) * ch) 0);
                  fade = (if n - k < 16 then unat (n - k) else 16)
              in (available - k,
                  adv (r\<lparr>last_frame := replicate 4 0, res_state := EAF_RESERVOIR_UNDERRUN,
                         underruns := underruns r + 1\<rparr>),
                  buf\<lparr>mem := fade_pad m2 from (unat k) fade ch, flags := EAF_FRAME_UNDERRUN\<rparr>)
         else (available - k,
               adv (r\<lparr>last_frame := blit (last_frame r) 0 (take ch (drop (unat (n - 1) * ch) m1))\<rparr>),
               buf\<lparr>mem := m1\<rparr>))"

definition eaf_reservoir_pull ::
  "eaf_reservoir_t \<Rightarrow> eaf_buffer_t \<Rightarrow> eaf_result_t \<times> bool \<times> eaf_reservoir_t \<times> eaf_buffer_t" where
  "eaf_reservoir_pull r buf =
     (if samples buf = 0 \<or> frame_count buf = 0 \<or> frame_count buf > capacity_frames buf \<or>
         frame_count buf > capacity r \<or>
         capacity_samples buf div channels (res_format r) < unat (frame_count buf)
      then (EAF_INVALID, False, r, buf)
      else
        let n = frame_count buf; ch = channels (res_format r);
            available = res_write r - res_read r;
            buf = buf\<lparr>format := res_format r, flags := 0\<rparr>
        in if finished r \<noteq> 0
           then let (r, buf) = pull_finished r buf in (EAF_OK, False, r, buf)
           else
             let r = (if res_state r = EAF_RESERVOIR_UNDERRUN
                      then r\<lparr>res_state := EAF_RESERVOIR_STREAMING\<rparr> else r);
                 r = (if res_state r = EAF_RESERVOIR_PREBUFFERING \<and>
                         available \<ge> high_watermark r \<and> available \<ge> n
                      then r\<lparr>res_state := EAF_RESERVOIR_STREAMING\<rparr> else r);
                 (available, r, buf) =
                   (if res_state r = EAF_RESERVOIR_STREAMING then pull_streaming r buf
                    else (available, r,
                          buf\<lparr>mem := blit (mem buf) 0 (replicate (unat n * ch) 0),
                              flags := EAF_FRAME_SILENCE\<rparr>))
             in (EAF_OK, available < backpressure_low r \<and> wake_producer r, r, buf))"

section \<open>The two copies as ring accesses\<close>

definition pow2 :: "u32 \<Rightarrow> bool" where
  "pow2 c \<longleftrightarrow> (\<exists>k<32. unat c = 2 ^ k)"

lemma pow2_mask: "pow2 c \<Longrightarrow> unat (x AND (c - 1)) = unat x mod unat c"
  unfolding pow2_def using unat_and_mask [of c _ x] by auto

lemma pow2_pos: "pow2 c \<Longrightarrow> 0 < unat c"
  by (auto simp: pow2_def)

lemma pow2_cursor: "pow2 c \<Longrightarrow> unat (x + y :: u32) mod unat c = (unat x + unat y) mod unat c"
  unfolding pow2_def using unat_mod_pow2 [of _ x y] by fastforce

lemma unat_first:
  assumes "unat slot < unat cap"
  shows "unat (if cap - slot > frames then frames else cap - slot :: u32) =
    min (unat frames) (unat cap - unat slot)"
proof -
  have "slot \<le> cap" using assms by (simp add: word_le_nat_alt)
  then have "unat (cap - slot) = unat cap - unat slot" by (rule unat_diff_le)
  then show ?thesis by (auto simp: word_less_nat_alt)
qed

lemma scaled_min: "min a b * (c::nat) = min (a * c) (b * c)"
  by (simp add: min_def)

lemma storage_store_eq:
  assumes "pow2 cap" and "length st = unat cap * ch" and "unat frames \<le> unat cap"
    and "unat frames * ch \<le> length src" and "0 < ch"
  shows "storage_store st cap start src frames ch =
    two_part_store st (unat start mod unat cap * ch) (take (unat frames * ch) src)"
proof -
  let ?slot = "start AND (cap - 1)"
  let ?first = "if cap - ?slot > frames then frames else cap - ?slot"
  have slot: "unat ?slot = unat start mod unat cap" and lt: "unat ?slot < unat cap"
    using pow2_mask [OF assms(1)] pow2_pos [OF assms(1)] by auto
  have first: "unat ?first = min (unat frames) (unat cap - unat ?slot)"
    by (rule unat_first [OF lt])
  have scaled: "unat ?first * ch = min (unat frames * ch) (length st - unat start mod unat cap * ch)"
    by (simp only: first scaled_min diff_mult_distrib assms(2) slot)
  have rest: "unat (frames - ?first) = unat frames - unat ?first"
    by (rule unat_diff_le) (auto simp: word_le_nat_alt first)
  have more: "?first < frames \<longleftrightarrow> unat ?first * ch < unat frames * ch"
    using assms(5) by (simp add: word_less_nat_alt)
  show ?thesis
    unfolding storage_store_def Let_def two_part_store_def rest more
    using assms(4) by (simp add: scaled slot diff_mult_distrib drop_take min_absorb2)
qed

lemma blit_blit_append:
  "length xs + length ys \<le> length dst \<Longrightarrow> blit (blit dst 0 xs) (length xs) ys = blit dst 0 (xs @ ys)"
  by (simp add: blit_def add.commute)

lemma storage_load_eq:
  assumes "pow2 cap" and "length st = unat cap * ch" and "unat frames \<le> unat cap"
    and "unat frames * ch \<le> length dst" and "0 < ch"
  shows "storage_load dst st cap start frames ch =
    blit dst 0 (ring_read st (unat start * ch) (unat frames * ch))"
proof -
  let ?slot = "start AND (cap - 1)"
  let ?first = "if cap - ?slot > frames then frames else cap - ?slot"
  let ?s = "unat start mod unat cap * ch"
  have slot: "unat ?slot = unat start mod unat cap" and lt: "unat ?slot < unat cap"
    using pow2_mask [OF assms(1)] pow2_pos [OF assms(1)] by auto
  have first: "unat ?first = min (unat frames) (unat cap - unat ?slot)"
    by (rule unat_first [OF lt])
  have scaled: "unat ?first * ch = min (unat frames * ch) (length st - ?s)"
    by (simp only: first scaled_min diff_mult_distrib assms(2) slot)
  have rest: "unat (frames - ?first) = unat frames - unat ?first"
    by (rule unat_diff_le) (auto simp: word_le_nat_alt first)
  have more: "?first < frames \<longleftrightarrow> unat ?first * ch < unat frames * ch"
    using assms(5) by (simp add: word_less_nat_alt)
  have s: "?s < length st" and n: "unat frames * ch \<le> length st"
    using assms lt slot by simp_all
  have len: "length (take (min (unat frames * ch) (length st - ?s)) (drop ?s st))
      = min (unat frames * ch) (length st - ?s)" by simp
  have "storage_load dst st cap start frames ch = blit dst 0 (two_part_load st ?s (unat frames * ch))"
  proof (cases "min (unat frames * ch) (length st - ?s) < unat frames * ch")
    case True
    then have gt: "length st - ?s < unat frames * ch" by simp
    then have "length st - ?s + min (length st) (unat frames * ch - (length st - ?s)) \<le> length dst"
      using assms(4) by linarith
    with gt show ?thesis
      unfolding storage_load_def Let_def two_part_load_def rest more
      using blit_blit_append [of "take (length st - ?s) (drop ?s st)"
          "take (unat frames * ch - (length st - ?s)) st" dst]
      by (simp add: scaled slot diff_mult_distrib)
  next
    case False
    then show ?thesis
      unfolding storage_load_def Let_def two_part_load_def rest more
      by (simp add: scaled slot)
  qed
  also have "\<dots> = blit dst 0 (ring_read st ?s (unat frames * ch))"
    using two_part_load_eq [OF s n] by simp
  also have "?s = (unat start * ch) mod length st"
    by (simp add: assms(2) mult_mod_left)
  finally show ?thesis by simp
qed

section \<open>Invariant and abstraction\<close>

abbreviation res_channels :: "eaf_reservoir_t \<Rightarrow> nat" where
  "res_channels r \<equiv> channels (res_format r)"

definition res_level :: "eaf_reservoir_t \<Rightarrow> nat" where
  "res_level r = unat (res_write r - res_read r)"

definition reservoir_inv :: "eaf_reservoir_t \<Rightarrow> bool" where
  "reservoir_inv r \<longleftrightarrow>
     eaf_format_valid (res_format r) \<and> pow2 (capacity r) \<and>
     length (storage r) = unat (capacity r) * res_channels r \<and>
     res_level r \<le> unat (capacity r) \<and> length (last_frame r) = 4 \<and>
     0 < unat (high_watermark r) \<and> unat (high_watermark r) \<le> unat (capacity r) \<and>
     list_all is_i32 (storage r) \<and> list_all is_i32 (last_frame r)"

text \<open>The samples queued in the reservoir, oldest first.\<close>

definition res_queue :: "eaf_reservoir_t \<Rightarrow> int list" where
  "res_queue r = ring_read (storage r) (unat (res_read r) * res_channels r)
                   (res_level r * res_channels r)"

lemma length_res_queue [simp]: "length (res_queue r) = res_level r * res_channels r"
  by (simp add: res_queue_def)

lemma reservoir_invD:
  assumes "reservoir_inv r"
  shows "0 < res_channels r" "res_channels r \<le> 4" "pow2 (capacity r)"
    "length (storage r) = unat (capacity r) * res_channels r"
    "res_level r \<le> unat (capacity r)" "length (last_frame r) = 4"
    "list_all is_i32 (storage r)" "list_all is_i32 (last_frame r)"
  using assms format_valid_channels by (auto simp: reservoir_inv_def)

lemma level_eq:
  "reservoir_inv r \<Longrightarrow> unat (eaf_reservoir_level r) = res_level r"
  by (auto simp: eaf_reservoir_level_def Let_def res_level_def reservoir_inv_def word_less_nat_alt)

lemma list_all_ring_read:
  assumes "list_all P st" and "st \<noteq> []"
  shows "list_all P (ring_read st s n)"
  using assms by (auto simp: list_all_iff ring_read_def)

lemma storage_nonempty: "reservoir_inv r \<Longrightarrow> storage r \<noteq> []"
  using reservoir_invD(1,3,4) [of r] pow2_pos [of "capacity r"] by auto

lemma res_queue_i32: "reservoir_inv r \<Longrightarrow> list_all is_i32 (res_queue r)"
  unfolding res_queue_def by (intro list_all_ring_read storage_nonempty reservoir_invD(7))

section \<open>Initialisation and reset\<close>

lemma silence_i32 [simp]: "list_all is_i32 (replicate n 0)"
  by (simp add: list_all_iff)

lemma reset_inv: "reservoir_inv r \<Longrightarrow> reservoir_inv (eaf_reservoir_reset r)"
  by (simp add: reservoir_inv_def eaf_reservoir_reset_def res_level_def)

lemma reset_queue: "res_queue (eaf_reservoir_reset r) = []"
  by (simp add: res_queue_def eaf_reservoir_reset_def res_level_def)

lemma init_accepts:
  assumes "eaf_reservoir_init size_max r st cap fmt high = (EAF_OK, r')"
    and "length st = unat cap * channels fmt" and "list_all is_i32 st"
  shows "reservoir_inv r'" and "res_queue r' = []" and "capacity r' = cap" and "res_format r' = fmt"
    and "res_state r' = EAF_RESERVOIR_PREBUFFERING" and "finished r' = 0"
proof -
  have g: "eaf_format_valid fmt" "cap \<noteq> 0" "cap AND (cap - 1) = 0" "high \<noteq> 0" "high \<le> cap"
    using assms(1) by (auto simp: eaf_reservoir_init_def split: if_splits)
  have "pow2 cap" using power_of_two_test [OF g(2,3)] by (simp add: pow2_def)
  moreover have "0 < unat high" "unat high \<le> unat cap"
    using g by (simp_all add: unat_gt_0 word_le_nat_alt)
  ultimately show "reservoir_inv r'" and "res_queue r' = []" and "capacity r' = cap"
    and "res_format r' = fmt" and "res_state r' = EAF_RESERVOIR_PREBUFFERING" and "finished r' = 0"
    using assms g
    by (auto simp: eaf_reservoir_init_def eaf_reservoir_reset_def reservoir_inv_def res_level_def
        res_queue_def split: if_splits)
qed

section \<open>Write\<close>

definition write_taken :: "eaf_reservoir_t \<Rightarrow> u32 \<Rightarrow> nat" where
  "write_taken r frames =
     (if finished r \<noteq> 0 then 0 else min (unat frames) (unat (capacity r) - res_level r))"

lemma write_room:
  assumes "reservoir_inv r"
  shows "unat (if frames > capacity r - (res_write r - res_read r)
               then capacity r - (res_write r - res_read r) else frames) =
    min (unat frames) (unat (capacity r) - res_level r)"
proof -
  have "res_write r - res_read r \<le> capacity r"
    using assms by (simp add: reservoir_inv_def res_level_def word_le_nat_alt)
  then have "unat (capacity r - (res_write r - res_read r)) = unat (capacity r) - res_level r"
    by (simp add: unat_diff_le res_level_def)
  then show ?thesis by (auto simp: word_less_nat_alt)
qed

lemma list_all_blit:
  "list_all P dst \<Longrightarrow> list_all P src \<Longrightarrow> list_all P (blit dst off src)"
  by (auto simp: blit_def list_all_iff dest: in_set_takeD in_set_dropD)

lemma list_all_two_part_store:
  assumes "list_all P st" and "list_all P xs"
  shows "list_all P (two_part_store st s xs)"
proof -
  have "list_all P (take n xs)" "list_all P (drop n xs)" for n
    using assms(2) by (auto simp: list_all_iff dest: in_set_takeD in_set_dropD)
  with assms show ?thesis by (simp add: two_part_store_def Let_def list_all_blit)
qed

lemma write_slot:
  assumes "reservoir_inv r"
  shows "unat (res_write r) mod unat (capacity r) * res_channels r =
    (unat (res_read r) mod unat (capacity r) * res_channels r + res_level r * res_channels r)
      mod length (storage r)"
proof -
  have "unat (res_read r + (res_write r - res_read r)) mod unat (capacity r)
      = (unat (res_read r) + res_level r) mod unat (capacity r)"
    unfolding res_level_def by (rule pow2_cursor [OF reservoir_invD(3) [OF assms]])
  then have "unat (res_write r) mod unat (capacity r)
      = (unat (res_read r) mod unat (capacity r) + res_level r) mod unat (capacity r)"
    by (simp add: mod_add_left_eq)
  then show ?thesis
    by (simp add: reservoir_invD(4) [OF assms] mult_mod_left add_mult_distrib)
qed

lemma ring_slot:
  assumes "reservoir_inv r" and "length st = length (storage r)"
  shows "ring_read st (unat (res_read r) mod unat (capacity r) * res_channels r) n =
    ring_read st (unat (res_read r) * res_channels r) n"
  using ring_read_mod [of st "unat (res_read r) * res_channels r"] assms
  by (simp add: reservoir_invD(4) mult_mod_left)

lemma write_spec:
  assumes inv: "reservoir_inv r" and w: "eaf_reservoir_write r (Some src) frames = (k, r')"
    and src: "unat frames * res_channels r \<le> length src" "list_all is_i32 src"
  shows "unat k = write_taken r frames" and "reservoir_inv r'"
    and "res_queue r' = res_queue r @ take (unat k * res_channels r) src"
    and "res_format r' = res_format r" and "finished r' = finished r"
    and "capacity r' = capacity r" and "res_state r' = res_state r"
proof -
  let ?ch = "res_channels r" and ?st = "storage r"
  note I = reservoir_invD [OF inv]
  have "unat k = write_taken r frames \<and> reservoir_inv r' \<and>
    res_queue r' = res_queue r @ take (unat k * ?ch) src \<and> res_format r' = res_format r \<and>
    finished r' = finished r \<and> capacity r' = capacity r \<and> res_state r' = res_state r"
  proof (cases "finished r = 0")
    case False
    then show ?thesis using w inv by (auto simp: eaf_reservoir_write_def write_taken_def)
  next
    case True
    have k: "unat k = min (unat frames) (unat (capacity r) - res_level r)"
      and r': "r' = r\<lparr>storage := storage_store ?st (capacity r) (res_write r) src k ?ch,
                      res_write := res_write r + k\<rparr>"
      using w True write_room [OF inv, of frames]
      by (auto simp: eaf_reservoir_write_def Let_def split: if_splits)
    have fits: "unat k \<le> unat (capacity r)" "res_level r + unat k \<le> unat (capacity r)"
      "unat k * ?ch \<le> length src"
      using k I(5) order_trans [OF mult_le_mono1 src(1), of "unat k"] by auto
    let ?xs = "take (unat k * ?ch) src" and ?s = "unat (res_read r) mod unat (capacity r) * ?ch"
    have st: "storage_store ?st (capacity r) (res_write r) src k ?ch =
        two_part_store ?st ((?s + res_level r * ?ch) mod length ?st) ?xs"
      using storage_store_eq [OF I(3,4) fits(1,3) I(1)] write_slot [OF inv] by simp
    have s: "?s < length ?st" using I(1,4) pow2_pos [OF I(3)] by simp
    have room: "res_level r * ?ch + length ?xs \<le> length ?st"
      using fits(2,3) I(4) by (simp add: add_mult_distrib [symmetric])
    have lv: "res_level r' = res_level r + unat k"
    proof -
      have "unat k + unat (res_write r - res_read r) < 2 ^ 32"
        using le_less_trans [OF fits(2) unat_lt_32] by (simp add: res_level_def add.commute)
      then show ?thesis using cursor_advance [of k "res_write r" "res_read r"]
        by (simp add: r' res_level_def)
    qed
    have len: "length (two_part_store ?st ((?s + res_level r * ?ch) mod length ?st) ?xs) = length ?st"
      using room s by (intro length_two_part_store mod_less_divisor) auto
    have "res_queue r' = ring_read (two_part_store ?st ((?s + res_level r * ?ch) mod length ?st) ?xs)
        ?s (res_level r * ?ch + length ?xs)"
      using ring_slot [OF inv len] fits(3) lv
      by (simp add: res_queue_def r' st add_mult_distrib min_absorb2)
    also have "\<dots> = res_queue r @ ?xs"
      using ring_read_store_append [OF s room] ring_slot [OF inv refl] by (simp add: res_queue_def)
    finally have q: "res_queue r' = res_queue r @ ?xs" .
    have "list_all is_i32 ?xs" using src(2) by (auto simp: list_all_iff dest: in_set_takeD)
    then have "reservoir_inv r'"
      using inv len lv fits(2) list_all_two_part_store [OF I(7)]
      by (simp add: reservoir_inv_def r' st)
    with k q True show ?thesis by (simp add: r' write_taken_def)
  qed
  then show "unat k = write_taken r frames" and "reservoir_inv r'"
    and "res_queue r' = res_queue r @ take (unat k * res_channels r) src"
    and "res_format r' = res_format r" and "finished r' = finished r"
    and "capacity r' = capacity r" and "res_state r' = res_state r"
    by blast+
qed

section \<open>Pull\<close>

lemma queue_advance:
  assumes inv: "reservoir_inv r" and k: "unat k \<le> res_level r"
    and r': "storage r' = storage r" "res_read r' = res_read r + k" "res_write r' = res_write r"
      "res_format r' = res_format r"
  shows "res_level r' = res_level r - unat k"
    and "res_queue r' = drop (unat k * res_channels r) (res_queue r)"
proof -
  let ?ch = "res_channels r"
  have "k \<le> res_write r - res_read r" using k by (simp add: res_level_def word_le_nat_alt)
  then show lv: "res_level r' = res_level r - unat k"
    by (simp add: res_level_def r' cursor_retreat)
  have "unat (res_read r + k) mod unat (capacity r) = (unat (res_read r) + unat k) mod unat (capacity r)"
    by (rule pow2_cursor [OF reservoir_invD(3) [OF inv]])
  then have "(unat (res_read r + k) * ?ch) mod length (storage r)
      = (unat (res_read r) * ?ch + unat k * ?ch) mod length (storage r)"
    by (simp add: reservoir_invD(4) [OF inv] mult_mod_left flip: add_mult_distrib)
  then have "ring_read (storage r) (unat (res_read r + k) * ?ch) n
      = ring_read (storage r) (unat (res_read r) * ?ch + unat k * ?ch) n" for n
    by (metis ring_read_mod)
  then show "res_queue r' = drop (unat k * ?ch) (res_queue r)"
    using k by (simp add: res_queue_def r' lv drop_ring_read diff_mult_distrib)
qed

lemma unat_take_frames:
  "unat (frames_to_take (res_write r - res_read r) n) = min (res_level r) (unat n)"
  by (auto simp: frames_to_take_def res_level_def word_less_nat_alt)

text \<open>The ramp of one underrun, as a list of frames.\<close>

definition fade_frames :: "int list \<Rightarrow> nat \<Rightarrow> nat \<Rightarrow> int list" where
  "fade_frames from fade ch =
     concat (map (\<lambda>i. map (\<lambda>c. fade_sample (from ! c) fade i) [0..<ch]) [0..<fade])"

lemma length_concat_frames: "length (concat (map (\<lambda>i. map (f i) [0..<ch]) [0..<n])) = n * ch"
  by (induction n) simp_all

lemma length_fade_frames [simp]: "length (fade_frames from fade ch) = fade * ch"
  by (simp add: fade_frames_def length_concat_frames)

lemma blit_append:
  "off + length xs + length ys \<le> length dst \<Longrightarrow>
   blit (blit dst off xs) (off + length xs) ys = blit dst off (xs @ ys)"
  by (simp add: blit_def add.commute add.left_commute)

lemma fade_pad_blit:
  assumes "(k + fade) * ch \<le> length m"
  shows "fade_pad m from k fade ch = blit m (k * ch) (fade_frames from fade ch)"
proof -
  have "fold (\<lambda>i m. fold (\<lambda>c m. m[(k + i) * ch + c := fade_sample (from ! c) fade i]) [0..<ch] m)
       [0..<f] m
      = blit m (k * ch) (concat (map (\<lambda>i. map (\<lambda>c. fade_sample (from ! c) fade i) [0..<ch]) [0..<f]))"
    if "(k + f) * ch \<le> length m" for f
    using that
  proof (induction f)
    case (Suc f)
    let ?g = "\<lambda>i. map (\<lambda>c. fade_sample (from ! c) fade i) [0..<ch]"
    let ?xs = "concat (map ?g [0..<f])"
    have len: "length ?xs = f * ch" by (rule length_concat_frames)
    have fits: "k * ch + f * ch + ch \<le> length m" using Suc.prems by (simp add: algebra_simps)
    have "fold (\<lambda>c m. m[(k + f) * ch + c := fade_sample (from ! c) fade f]) [0..<ch] (blit m (k * ch) ?xs)
        = blit (blit m (k * ch) ?xs) ((k + f) * ch) (?g f)"
      using fits len by (intro fold_update_blit) (simp add: algebra_simps)
    also have "\<dots> = blit m (k * ch) (?xs @ ?g f)"
      using fits len blit_append [of "k * ch" ?xs "?g f" m] by (simp add: add_mult_distrib)
    finally show ?case using Suc fits by (simp add: algebra_simps)
  qed simp
  with assms show ?thesis by (simp add: fade_frames_def fade_pad_def)
qed

text \<open>
  Each sample of the ramp lies between zero and the sample it starts from, and the last
  frame of the ramp is zero.
\<close>

lemma fade_sample_bounds:
  assumes "is_i32 x" and "i < fade" and "fade \<le> 16"
  shows "is_i32 (fade_sample x fade i)" and "\<bar>fade_sample x fade i\<bar> \<le> \<bar>x\<bar>"
    and "0 \<le> x \<Longrightarrow> 0 \<le> fade_sample x fade i" and "x \<le> 0 \<Longrightarrow> fade_sample x fade i \<le> 0"
proof -
  let ?m = "int (fade - i - 1)" and ?f = "int fade"
  have f: "0 < ?f" "0 \<le> ?m" "?m \<le> ?f" using assms by auto
  have "\<bar>x * ?m\<bar> \<le> ?f * \<bar>x\<bar>"
    using f mult_left_mono [OF f(3), of "\<bar>x\<bar>"] by (simp add: abs_mult mult.commute)
  then have b: "\<bar>(x * ?m) sdiv ?f\<bar> \<le> \<bar>x\<bar>" by (rule abs_sdiv_bound [OF f(1)])
  have s: "0 \<le> x \<Longrightarrow> 0 \<le> (x * ?m) sdiv ?f" "x \<le> 0 \<Longrightarrow> (x * ?m) sdiv ?f \<le> 0"
    using f by (auto intro!: sdiv_sign mult_nonneg_nonneg mult_nonpos_nonneg)
  have "is_i32 ((x * ?m) sdiv ?f)"
  proof (cases "0 \<le> x")
    case True
    with b s(1) assms(1) show ?thesis by (simp add: is_i32_def)
  next
    case False
    with b s(2) assms(1) show ?thesis by (simp add: is_i32_def)
  qed
  then have "fade_sample x fade i = (x * ?m) sdiv ?f" by (simp add: fade_sample_def)
  with b s show "\<bar>fade_sample x fade i\<bar> \<le> \<bar>x\<bar>"
    and "0 \<le> x \<Longrightarrow> 0 \<le> fade_sample x fade i" and "x \<le> 0 \<Longrightarrow> fade_sample x fade i \<le> 0"
    by simp_all
qed (simp add: fade_sample_def)

lemma fade_sample_last: "0 < fade \<Longrightarrow> fade_sample x fade (fade - 1) = 0"
  by (simp add: fade_sample_def)

text \<open>What a pull does: how many frames it takes, and what it appends to them.\<close>

definition pull_accepts :: "eaf_reservoir_t \<Rightarrow> eaf_buffer_t \<Rightarrow> bool" where
  "pull_accepts r buf \<longleftrightarrow>
     samples buf \<noteq> 0 \<and> frame_count buf \<noteq> 0 \<and> frame_count buf \<le> capacity_frames buf \<and>
     frame_count buf \<le> capacity r \<and> unat (frame_count buf) * res_channels r \<le> capacity_samples buf \<and>
     length (mem buf) = capacity_samples buf"

definition pull_plays :: "eaf_reservoir_t \<Rightarrow> nat \<Rightarrow> bool" where
  "pull_plays r n \<longleftrightarrow>
     finished r \<noteq> 0 \<or> res_state r = EAF_RESERVOIR_STREAMING \<or> res_state r = EAF_RESERVOIR_UNDERRUN \<or>
     res_state r = EAF_RESERVOIR_PREBUFFERING \<and> unat (high_watermark r) \<le> res_level r \<and> n \<le> res_level r"

definition pull_taken :: "eaf_reservoir_t \<Rightarrow> nat \<Rightarrow> nat" where
  "pull_taken r n = (if pull_plays r n then min (res_level r) n else 0)"

definition pull_from :: "eaf_reservoir_t \<Rightarrow> nat \<Rightarrow> int list" where
  "pull_from r k =
     (let ch = res_channels r
      in if k \<noteq> 0 then take ch (drop ((k - 1) * ch) (res_queue r)) else take ch (last_frame r))"

definition pull_padding :: "eaf_reservoir_t \<Rightarrow> nat \<Rightarrow> int list" where
  "pull_padding r n =
     (let ch = res_channels r; k = pull_taken r n; gap = n - k
      in if finished r = 0 \<and> pull_plays r n
         then fade_frames (pull_from r k) (min gap 16) ch @ replicate ((gap - min gap 16) * ch) 0
         else replicate (gap * ch) 0)"

lemma length_pull_padding [simp]:
  "length (pull_padding r n) = (n - pull_taken r n) * res_channels r"
  by (auto simp: pull_padding_def Let_def add_mult_distrib [symmetric])

lemma pull_guard:
  assumes "reservoir_inv r" and "length (mem buf) = capacity_samples buf"
  shows "pull_accepts r buf \<longleftrightarrow>
    \<not> (samples buf = 0 \<or> frame_count buf = 0 \<or> frame_count buf > capacity_frames buf \<or>
       frame_count buf > capacity r \<or>
       capacity_samples buf div res_channels r < unat (frame_count buf))"
  using assms reservoir_invD(1) [OF assms(1)]
  by (auto simp: pull_accepts_def not_less less_eq_div_iff_mult_less_eq)

text \<open>
  The frames both playing branches copy: \<open>kw\<close> is the code's \<open>take\<close>, \<open>k\<close> its value.
\<close>

lemma pull_load:
  assumes inv: "reservoir_inv r" and acc: "pull_accepts r buf"
    and plays: "pull_plays r (unat (frame_count buf))"
    and kw: "kw = frames_to_take (res_write r - res_read r) (frame_count buf)"
  defines "n \<equiv> unat (frame_count buf)" and "k \<equiv> pull_taken r (unat (frame_count buf))"
  shows "unat kw = k" and "k \<le> n" and "k \<le> res_level r" and "unat (frame_count buf - kw) = n - k"
    and "storage_load (mem buf) (storage r) (capacity r) (res_read r) kw (res_channels r) =
      blit (mem buf) 0 (take (k * res_channels r) (res_queue r))"
    and "length (take (k * res_channels r) (res_queue r)) = k * res_channels r"
    and "n * res_channels r \<le> length (mem buf)" and "k * res_channels r \<le> n * res_channels r"
    and "kw < frame_count buf \<longleftrightarrow> k < n" and "kw = 0 \<longleftrightarrow> k = 0" and "0 < k \<Longrightarrow> unat (kw - 1) = k - 1"
    and "ucast kw = (of_nat k :: u64)"
proof -
  let ?ch = "res_channels r" and ?n = "frame_count buf"
  note I = reservoir_invD [OF inv]
  show k: "unat kw = k" "k \<le> n" "k \<le> res_level r"
    using unat_take_frames [of r ?n] plays by (simp_all add: k_def n_def pull_taken_def kw)
  show fits: "n * ?ch \<le> length (mem buf)" and kn: "k * ?ch \<le> n * ?ch"
    using acc k by (simp_all add: pull_accepts_def n_def)
  show "storage_load (mem buf) (storage r) (capacity r) (res_read r) kw ?ch =
      blit (mem buf) 0 (take (k * ?ch) (res_queue r))"
    using storage_load_eq [OF I(3,4) _ _ I(1), of kw "mem buf" "res_read r"] fits kn k I(5)
    by (simp add: res_queue_def take_ring_read)
  show "unat (?n - kw) = n - k"
    using unat_diff_le [of kw ?n] k by (simp add: word_le_nat_alt n_def)
  show "length (take (k * ?ch) (res_queue r)) = k * ?ch"
    using mult_le_mono1 [OF k(3), of ?ch] by (simp add: min_absorb2)
  show "kw < ?n \<longleftrightarrow> k < n" by (simp add: word_less_nat_alt n_def flip: k(1))
  show kz: "kw = 0 \<longleftrightarrow> k = 0" using k(1) by (metis unat_eq_zero)
  show "unat (kw - 1) = k - 1" if "0 < k"
    using that kz k(1) unat_minus_one [of kw] by auto
  show "ucast kw = (of_nat k :: u64)" by (simp flip: k(1))
qed

lemma pull_finished_spec:
  assumes inv: "reservoir_inv r" and acc: "pull_accepts r buf" and fin: "finished r \<noteq> 0"
    and p: "pull_finished r buf = (r', buf')"
  defines "n \<equiv> unat (frame_count buf)" and "k \<equiv> pull_taken r (unat (frame_count buf))"
  shows "reservoir_inv r'" and "res_queue r' = drop (k * res_channels r) (res_queue r)"
    and "mem buf' = blit (mem buf) 0 (take (k * res_channels r) (res_queue r) @ pull_padding r n)"
    and "res_state r' = (if res_level r \<le> n then EAF_RESERVOIR_DRAINED else EAF_RESERVOIR_STREAMING)"
    and "res_level r' = res_level r - k" and "frames_read r' = frames_read r + of_nat k"
    and "res_format r' = res_format r" and "finished r' = finished r" and "capacity r' = capacity r"
proof -
  let ?ch = "res_channels r" and ?n = "frame_count buf"
  let ?kw = "frames_to_take (res_write r - res_read r) ?n"
  have "pull_plays r n" using fin by (simp add: pull_plays_def)
  note L = pull_load [OF inv acc this [unfolded n_def] refl, folded k_def n_def]
  have pad: "pull_padding r n = replicate ((n - k) * ?ch) 0"
    using fin by (simp add: pull_padding_def Let_def k_def n_def)
  show "mem buf' = blit (mem buf) 0 (take (k * ?ch) (res_queue r) @ pull_padding r n)"
    using p blit_append [of 0 "take (k * ?ch) (res_queue r)" "pull_padding r n" "mem buf"] L(6-8)
    by (auto simp: pull_finished_def Let_def L(1,4,5) pad diff_mult_distrib)
  have r': "r' = r\<lparr>res_read := res_read r + ?kw, frames_read := frames_read r + of_nat k,
      res_state := if res_level r \<le> n then EAF_RESERVOIR_DRAINED else EAF_RESERVOIR_STREAMING\<rparr>"
    using p L(12) by (auto simp: pull_finished_def Let_def word_le_nat_alt res_level_def n_def)
  have adv: "res_level r' = res_level r - k" "res_queue r' = drop (k * ?ch) (res_queue r)"
    using queue_advance [OF inv, of ?kw r'] L(1,3) by (simp_all add: r')
  show "reservoir_inv r'" using inv adv(1) by (auto simp: reservoir_inv_def r')
  show "res_queue r' = drop (k * ?ch) (res_queue r)" "res_level r' = res_level r - k" by (fact adv)+
  show "res_state r' = (if res_level r \<le> n then EAF_RESERVOIR_DRAINED else EAF_RESERVOIR_STREAMING)"
    and "frames_read r' = frames_read r + of_nat k"
    and "res_format r' = res_format r" and "finished r' = finished r" and "capacity r' = capacity r"
    by (simp_all add: r')
qed

lemma list_all_take: "list_all P xs \<Longrightarrow> list_all P (take n xs)"
  by (auto simp: list_all_iff dest: in_set_takeD)

lemma list_all_drop: "list_all P xs \<Longrightarrow> list_all P (drop n xs)"
  by (auto simp: list_all_iff dest: in_set_dropD)

lemma pull_streaming_state:
  assumes inv: "reservoir_inv r" and acc: "pull_accepts r buf"
    and st: "res_state r = EAF_RESERVOIR_STREAMING"
    and p: "pull_streaming r buf = (av, r', buf')"
  defines "n \<equiv> unat (frame_count buf)" and "k \<equiv> pull_taken r (unat (frame_count buf))"
  shows "res_queue r' = drop (k * res_channels r) (res_queue r)"
    and "res_state r' = (if k < n then EAF_RESERVOIR_UNDERRUN else EAF_RESERVOIR_STREAMING)"
    and "res_level r' = res_level r - k" and "unat av = res_level r'"
    and "flags buf' = (if k < n then EAF_FRAME_UNDERRUN else flags buf)"
    and "underruns r' = (if k < n then underruns r + 1 else underruns r)"
    and "frames_read r' = frames_read r + of_nat k"
    and "res_format r' = res_format r" and "finished r' = finished r" and "capacity r' = capacity r"
proof -
  let ?ch = "res_channels r" and ?n = "frame_count buf"
  let ?kw = "frames_to_take (res_write r - res_read r) ?n"
  have "pull_plays r n" using st by (simp add: pull_plays_def)
  note L = pull_load [OF inv acc this [unfolded n_def] refl, folded k_def n_def]
  have av: "av = (res_write r - res_read r) - ?kw"
    and rr: "res_read r' = res_read r + ?kw" "storage r' = storage r" "res_write r' = res_write r"
    "res_format r' = res_format r"
    using p by (auto simp: pull_streaming_def Let_def split: if_splits)
  show lv: "res_level r' = res_level r - k" and "res_queue r' = drop (k * ?ch) (res_queue r)"
    using queue_advance [OF inv, of ?kw r'] L(1,3) rr by simp_all
  have "?kw \<le> res_write r - res_read r" by (simp add: word_le_nat_alt L(1,3) flip: res_level_def)
  then show "unat av = res_level r'"
    using lv unat_diff_le [of ?kw "res_write r - res_read r"] L(1) by (simp add: av res_level_def)
  show "res_state r' = (if k < n then EAF_RESERVOIR_UNDERRUN else EAF_RESERVOIR_STREAMING)"
    and "flags buf' = (if k < n then EAF_FRAME_UNDERRUN else flags buf)"
    and "underruns r' = (if k < n then underruns r + 1 else underruns r)"
    and "frames_read r' = frames_read r + of_nat k"
    and "res_format r' = res_format r" and "finished r' = finished r" and "capacity r' = capacity r"
    using p L(9,12) st by (auto simp: pull_streaming_def Let_def split: if_splits)
qed

lemma blit_overwrite:
  assumes "off + length xs + length zs \<le> length dst" and "length ys \<le> length zs"
  shows "blit (blit dst off (xs @ zs)) (off + length xs) ys = blit dst off (xs @ ys @ drop (length ys) zs)"
  using assms by (simp add: blit_def)

lemma loaded_frame:
  assumes "n * ch \<le> length m" and "k \<le> n" and "length q = k * ch" and "0 < j" and "j \<le> k"
    and "q = take (k * ch) queue"
  shows "take ch (drop ((j - 1) * ch) (blit m 0 q)) = take ch (drop ((j - 1) * ch) queue)"
proof -
  have fits: "k * ch \<le> length m" using assms(1) mult_le_mono1 [OF assms(2), of ch] by linarith
  have j: "(j - 1) * ch + ch \<le> k * ch"
    using assms(4) mult_le_mono1 [OF assms(5), of ch] by (cases j) simp_all
  have "take ch (drop ((j - 1) * ch) (blit m 0 q)) = take ch (drop ((j - 1) * ch) q)"
    using j assms(3) by (simp add: blit_def)
  also have "\<dots> = take ch (drop ((j - 1) * ch) queue)"
    using j by (simp add: assms(6) take_drop min_absorb1 add.commute)
  finally show ?thesis .
qed

lemma pull_streaming_mem:
  assumes inv: "reservoir_inv r" and acc: "pull_accepts r buf" and fin: "finished r = 0"
    and st: "res_state r = EAF_RESERVOIR_STREAMING"
    and p: "pull_streaming r buf = (av, r', buf')"
  defines "n \<equiv> unat (frame_count buf)" and "k \<equiv> pull_taken r (unat (frame_count buf))"
  shows "mem buf' = blit (mem buf) 0 (take (k * res_channels r) (res_queue r) @ pull_padding r n)"
    and "last_frame r' = (if k < n then replicate 4 0 else blit (last_frame r) 0 (pull_from r k))"
proof -
  let ?ch = "res_channels r" and ?n = "frame_count buf" and ?q = "take (k * res_channels r) (res_queue r)"
  let ?kw = "frames_to_take (res_write r - res_read r) ?n"
  have plays: "pull_plays r n" using st by (simp add: pull_plays_def)
  note L = pull_load [OF inv acc plays [unfolded n_def] refl, folded k_def n_def]
  have start: "(if ?kw \<noteq> 0 then take ?ch (drop (unat (?kw - 1) * ?ch) (blit (mem buf) 0 ?q))
               else take ?ch (last_frame r)) = pull_from r k"
    using loaded_frame [OF L(7,2,6) _ _ refl, of k] L(11)
    by (cases "k = 0") (simp_all only: L(10) pull_from_def Let_def, simp_all)
  define gap where "gap = n - k"
  define f where "f = min gap 16"
  have fade: "(if ?n - ?kw < 16 then n - k else 16) = f"
    by (simp add: word_less_nat_alt L(4) gap_def f_def)
  have sum: "k * ?ch + gap * ?ch = n * ?ch" using L(2) by (simp add: gap_def flip: add_mult_distrib)
  have fl: "f * ?ch \<le> gap * ?ch" by (simp add: f_def)
  have fits: "(k + f) * ?ch \<le> length (mem buf)"
    using fl sum L(7) unfolding add_mult_distrib by linarith
  have m2: "blit (blit (mem buf) 0 ?q) (k * ?ch) (replicate (gap * ?ch) 0) =
      blit (mem buf) 0 (?q @ replicate (gap * ?ch) 0)"
    using blit_append [of 0 ?q "replicate (gap * ?ch) 0" "mem buf"] L(6,7) sum by simp
  have "fade_pad (blit (mem buf) 0 (?q @ replicate (gap * ?ch) 0)) (pull_from r k) k f ?ch =
      blit (blit (mem buf) 0 (?q @ replicate (gap * ?ch) 0)) (k * ?ch)
        (fade_frames (pull_from r k) f ?ch)"
    using L(6,7) sum fits by (intro fade_pad_blit) simp
  also have "\<dots> = blit (mem buf) 0 (?q @ pull_padding r n)"
    using blit_overwrite [of 0 ?q "replicate (gap * ?ch) 0" "mem buf"
        "fade_frames (pull_from r k) f ?ch"] L(6,7) sum
      fl plays fin
    by (simp add: pull_padding_def Let_def gap_def f_def k_def n_def diff_mult_distrib)
  finally have pad: "fade_pad (blit (mem buf) 0 (?q @ replicate (gap * ?ch) 0)) (pull_from r k) k
      f ?ch = blit (mem buf) 0 (?q @ pull_padding r n)" .
  have none: "pull_padding r n = []" if "\<not> k < n"
    using that length_pull_padding [of r n] by (simp add: k_def n_def del: length_pull_padding)
  show "mem buf' = blit (mem buf) 0 (?q @ pull_padding r n)"
  proof (cases "k < n")
    case True
    have "mem buf' = fade_pad (blit (blit (mem buf) 0 ?q) (k * ?ch) (replicate (gap * ?ch) 0))
        (pull_from r k) k f ?ch"
      using p unfolding pull_streaming_def Let_def L(1,4,5,9) start fade
      by (auto simp: True gap_def)
    then show ?thesis by (simp only: m2 pad)
  next
    case False
    then have "mem buf' = blit (mem buf) 0 ?q"
      using p unfolding pull_streaming_def Let_def L(1,4,5,9) by auto
    with none [OF False] show ?thesis by simp
  qed
  have pos: "0 < n" using acc by (simp add: pull_accepts_def n_def unat_gt_0)
  have pred: "unat (?n - 1) = n - 1"
    using acc by (simp add: pull_accepts_def n_def unat_minus_one)
  have final: "take ?ch (drop ((n - 1) * ?ch) (blit (mem buf) 0 ?q)) = pull_from r k" if "\<not> k < n"
    using loaded_frame [OF L(7,2,6) _ _ refl, of n] that L(2) pos by (simp add: pull_from_def Let_def)
  show "last_frame r' = (if k < n then replicate 4 0 else blit (last_frame r) 0 (pull_from r k))"
    using p final by (auto simp: pull_streaming_def Let_def L(1,4,5,9) pred split: if_splits)
qed

lemma pull_from_i32:
  assumes "reservoir_inv r"
  shows "list_all is_i32 (pull_from r k)" and "length (pull_from r k) \<le> 4"
  using reservoir_invD [OF assms] res_queue_i32 [OF assms]
  by (auto simp: pull_from_def Let_def intro!: list_all_take list_all_drop)

lemma pull_streaming_inv:
  assumes inv: "reservoir_inv r" and acc: "pull_accepts r buf" and fin: "finished r = 0"
    and st: "res_state r = EAF_RESERVOIR_STREAMING"
    and p: "pull_streaming r buf = (av, r', buf')"
  shows "reservoir_inv r'"
proof -
  have lf: "length (last_frame r') = 4" "list_all is_i32 (last_frame r')"
    using pull_streaming_mem(2) [OF assms] reservoir_invD [OF inv] pull_from_i32 [OF inv]
    by (auto intro: list_all_blit)
  have "res_level r' \<le> unat (capacity r)"
    using pull_streaming_state(3) [OF inv acc st p] reservoir_invD(5) [OF inv] by simp
  moreover have "storage r' = storage r" "high_watermark r' = high_watermark r"
    using p by (auto simp: pull_streaming_def Let_def split: if_splits)
  ultimately show ?thesis
    using inv lf pull_streaming_state(8-10) [OF inv acc st p] by (simp add: reservoir_inv_def)
qed

text \<open>The state a pull leaves behind, and the flags of the frames it delivers.\<close>

definition pull_state :: "eaf_reservoir_t \<Rightarrow> nat \<Rightarrow> eaf_reservoir_state_t" where
  "pull_state r n =
     (if finished r \<noteq> 0
      then (if res_level r \<le> n then EAF_RESERVOIR_DRAINED else EAF_RESERVOIR_STREAMING)
      else if pull_plays r n
      then (if res_level r < n then EAF_RESERVOIR_UNDERRUN else EAF_RESERVOIR_STREAMING)
      else res_state r)"

definition pull_flags :: "eaf_reservoir_t \<Rightarrow> nat \<Rightarrow> u32" where
  "pull_flags r n =
     (if finished r \<noteq> 0
      then (if res_level r = 0 then EAF_FRAME_SILENCE else 0) OR
           (if res_level r \<le> n then EAF_FRAME_EOS else 0)
      else if pull_plays r n then (if res_level r < n then EAF_FRAME_UNDERRUN else 0)
      else EAF_FRAME_SILENCE)"

lemma pull_finished_flags:
  assumes "pull_finished r (buf\<lparr>format := fmt, flags := 0\<rparr>) = (r', buf')"
    and "frame_count buf \<noteq> 0" and "finished r \<noteq> 0"
  shows "flags buf' = pull_flags r (unat (frame_count buf))"
proof -
  let ?kw = "frames_to_take (res_write r - res_read r) (frame_count buf)"
  have "?kw = 0 \<longleftrightarrow> unat ?kw = 0" by (simp add: unat_eq_zero)
  also have "\<dots> \<longleftrightarrow> res_level r = 0"
    using unat_take_frames [of r "frame_count buf"] assms(2) by (simp add: min_def unat_eq_zero)
  finally have z: "?kw = 0 \<longleftrightarrow> res_level r = 0" .
  have d: "res_write r - res_read r \<le> frame_count buf \<longleftrightarrow> res_level r \<le> unat (frame_count buf)"
    by (simp add: word_le_nat_alt res_level_def)
  show ?thesis
    using assms(1,3) z d by (auto simp: pull_finished_def Let_def pull_flags_def)
qed

lemma pull_cong:
  assumes "res_level r1 = res_level r" "res_queue r1 = res_queue r" "res_format r1 = res_format r"
    "finished r1 = finished r" "last_frame r1 = last_frame r" "pull_plays r1 n = pull_plays r n"
  shows "pull_taken r1 n = pull_taken r n" and "pull_padding r1 n = pull_padding r n"
proof -
  have "pull_from r1 k = pull_from r k" for k using assms by (simp add: pull_from_def Let_def)
  then show "pull_taken r1 n = pull_taken r n" and "pull_padding r1 n = pull_padding r n"
    using assms by (simp_all add: pull_taken_def pull_padding_def Let_def)
qed

lemma pull_guardD:
  assumes "reservoir_inv r" and "pull_accepts r buf"
  shows "\<not> (samples buf = 0 \<or> frame_count buf = 0 \<or> frame_count buf > capacity_frames buf \<or>
     frame_count buf > capacity r \<or> capacity_samples buf div res_channels r < unat (frame_count buf))"
  using assms(2) pull_guard [OF assms(1), of buf] pull_accepts_def [of r buf] by blast

lemma pull_branches:
  assumes inv: "reservoir_inv r" and acc: "pull_accepts r buf" and fin: "finished r = 0"
  defines "b \<equiv> buf\<lparr>format := res_format r, flags := 0\<rparr>" and "n \<equiv> unat (frame_count buf)"
  shows "pull_plays r n \<Longrightarrow> eaf_reservoir_pull r buf =
      (let (av, r1, b1) = pull_streaming (r\<lparr>res_state := EAF_RESERVOIR_STREAMING\<rparr>) b
       in (EAF_OK, av < backpressure_low r1 \<and> wake_producer r1, r1, b1))"
    and "\<not> pull_plays r n \<Longrightarrow> eaf_reservoir_pull r buf =
      (EAF_OK, res_write r - res_read r < backpressure_low r \<and> wake_producer r, r,
       b\<lparr>mem := blit (mem buf) 0 (replicate (n * res_channels r) 0), flags := EAF_FRAME_SILENCE\<rparr>)"
proof -
  note g = pull_guardD [OF inv acc]
  have lv: "high_watermark r \<le> res_write r - res_read r \<longleftrightarrow> unat (high_watermark r) \<le> res_level r"
    "frame_count buf \<le> res_write r - res_read r \<longleftrightarrow> n \<le> res_level r"
    by (simp_all add: word_le_nat_alt res_level_def n_def)
  have same: "res_state r = EAF_RESERVOIR_STREAMING \<Longrightarrow> r\<lparr>res_state := EAF_RESERVOIR_STREAMING\<rparr> = r"
    by simp
  show "pull_plays r n \<Longrightarrow> eaf_reservoir_pull r buf =
      (let (av, r1, b1) = pull_streaming (r\<lparr>res_state := EAF_RESERVOIR_STREAMING\<rparr>) b
       in (EAF_OK, av < backpressure_low r1 \<and> wake_producer r1, r1, b1))"
    using g fin unfolding eaf_reservoir_pull_def pull_plays_def
    by (cases "res_state r") (simp_all add: Let_def lv b_def same)
  show "\<not> pull_plays r n \<Longrightarrow> eaf_reservoir_pull r buf =
      (EAF_OK, res_write r - res_read r < backpressure_low r \<and> wake_producer r, r,
       b\<lparr>mem := blit (mem buf) 0 (replicate (n * res_channels r) 0), flags := EAF_FRAME_SILENCE\<rparr>)"
    using g fin unfolding eaf_reservoir_pull_def pull_plays_def
    by (cases "res_state r") (auto simp: Let_def lv b_def n_def)
qed

text \<open>
  Every successful pull, in one statement: \<open>pulled r buf r' buf'\<close> says that the delivered
  frames are the oldest queued ones followed by the padding, that exactly these leave the
  queue, and what the new state and the flags are.
\<close>

definition pulled :: "eaf_reservoir_t \<Rightarrow> eaf_buffer_t \<Rightarrow> eaf_reservoir_t \<Rightarrow> eaf_buffer_t \<Rightarrow> bool" where
  "pulled r buf r' buf' \<longleftrightarrow>
     (let n = unat (frame_count buf); k = pull_taken r n; ch = res_channels r
      in res_queue r' = drop (k * ch) (res_queue r) \<and>
         mem buf' = blit (mem buf) 0 (take (k * ch) (res_queue r) @ pull_padding r n) \<and>
         res_state r' = pull_state r n \<and> flags buf' = pull_flags r n \<and>
         format buf' = res_format r \<and> frame_count buf' = frame_count buf \<and>
         res_format r' = res_format r \<and> finished r' = finished r \<and> capacity r' = capacity r \<and>
         frames_read r' = frames_read r + of_nat k)"

lemma pull_plays_spec:
  assumes inv: "reservoir_inv r" and acc: "pull_accepts r buf" and fin: "finished r = 0"
    and play: "pull_plays r (unat (frame_count buf))"
    and p: "eaf_reservoir_pull r buf = (rc, woke, r', buf')"
  shows "rc = EAF_OK" and "reservoir_inv r'" and "pulled r buf r' buf'"
proof -
  let ?b = "buf\<lparr>format := res_format r, flags := 0\<rparr>" and ?n = "unat (frame_count buf)"
  let ?r = "r\<lparr>res_state := EAF_RESERVOIR_STREAMING\<rparr>"
  obtain av where s: "pull_streaming ?r ?b = (av, r', buf')" and rc: "rc = EAF_OK"
    using p pull_branches(1) [OF inv acc fin play] by (auto split: prod.splits)
  have inv': "reservoir_inv ?r" and acc': "pull_accepts ?r ?b"
    using inv acc by (simp_all add: reservoir_inv_def res_level_def pull_accepts_def)
  have lv: "res_level ?r = res_level r" "res_queue ?r = res_queue r"
    by (simp_all add: res_level_def res_queue_def)
  have c: "pull_taken ?r ?n = pull_taken r ?n" "pull_padding ?r ?n = pull_padding r ?n"
    using play by (auto intro!: pull_cong simp: lv) (simp_all add: pull_plays_def)
  have keep: "format buf' = res_format r" "frame_count buf' = frame_count buf"
    using s by (auto simp: pull_streaming_def Let_def split: if_splits)
  have less: "pull_taken r ?n < ?n \<longleftrightarrow> res_level r < ?n"
    using play by (auto simp: pull_taken_def)
  show "rc = EAF_OK" by (fact rc)
  show "reservoir_inv r'" using pull_streaming_inv [OF inv' acc' _ _ s] fin by simp
  show "pulled r buf r' buf'"
    using pull_streaming_state [OF inv' acc' _ s] pull_streaming_mem(1) [OF inv' acc' _ _ s]
      fin keep play
    by (simp add: pulled_def Let_def c lv less pull_state_def pull_flags_def)
qed

lemma pull_spec:
  assumes inv: "reservoir_inv r" and acc: "pull_accepts r buf"
    and p: "eaf_reservoir_pull r buf = (rc, woke, r', buf')"
  shows "rc = EAF_OK" and "reservoir_inv r'" and "pulled r buf r' buf'"
proof -
  let ?b = "buf\<lparr>format := res_format r, flags := 0\<rparr>" and ?n = "unat (frame_count buf)"
  consider (fin) "finished r \<noteq> 0" | (play) "finished r = 0" "pull_plays r ?n"
    | (wait) "finished r = 0" "\<not> pull_plays r ?n" by blast
  then have "rc = EAF_OK \<and> reservoir_inv r' \<and> pulled r buf r' buf'"
  proof cases
    case fin
    note g = pull_guardD [OF inv acc]
    have acc': "pull_accepts r ?b" using acc by (simp add: pull_accepts_def)
    have f: "pull_finished r ?b = (r', buf')" and rc: "rc = EAF_OK"
      using p g fin by (auto simp: eaf_reservoir_pull_def Let_def split: prod.splits)
    have keep: "format buf' = res_format r" "frame_count buf' = frame_count buf"
      using f by (auto simp: pull_finished_def Let_def)
    show ?thesis
      using pull_finished_spec [OF inv acc' fin f] pull_finished_flags [OF f _ fin] g rc keep fin
      by (simp add: pulled_def Let_def pull_state_def)
  next
    case play
    then show ?thesis using pull_plays_spec [OF inv acc _ _ p] by blast
  next
    case wait
    then have eq: "rc = EAF_OK" "r' = r"
      "buf' = ?b\<lparr>mem := blit (mem buf) 0 (replicate (?n * res_channels r) 0), flags := EAF_FRAME_SILENCE\<rparr>"
      using p pull_branches(2) [OF inv acc] by auto
    then show ?thesis using inv wait
      by (simp add: pulled_def Let_def pull_taken_def pull_padding_def pull_state_def pull_flags_def)
  qed
  then show "rc = EAF_OK" and "reservoir_inv r'" and "pulled r buf r' buf'" by blast+
qed

section \<open>Sequences of operations\<close>

lemma pull_rejects:
  assumes "reservoir_inv r" and "length (mem buf) = capacity_samples buf" and "\<not> pull_accepts r buf"
  shows "eaf_reservoir_pull r buf = (EAF_INVALID, False, r, buf)"
proof -
  have "samples buf = 0 \<or> frame_count buf = 0 \<or> frame_count buf > capacity_frames buf \<or>
       frame_count buf > capacity r \<or> capacity_samples buf div res_channels r < unat (frame_count buf)"
    using assms pull_guard [OF assms(1,2)] by blast
  then show ?thesis unfolding eaf_reservoir_pull_def by (simp only: if_True)
qed

lemma pull_taken_le: "pull_taken r n \<le> n" "pull_taken r n \<le> res_level r"
  by (simp_all add: pull_taken_def)

text \<open>
  What the two owners and the end-of-stream call do, in any order. A run collects the
  samples \<open>write\<close> reports as accepted and those \<open>pull\<close> accounts for in \<open>frames_read\<close>.
\<close>

datatype reservoir_op = Op_Write "int list" u32 | Op_Pull eaf_buffer_t | Op_Finish

definition op_ok :: "nat \<Rightarrow> reservoir_op \<Rightarrow> bool" where
  "op_ok ch op = (case op of
       Op_Write src frames \<Rightarrow> unat frames * ch \<le> length src \<and> list_all is_i32 src
     | Op_Pull buf \<Rightarrow> length (mem buf) = capacity_samples buf
     | Op_Finish \<Rightarrow> True)"

fun reservoir_run :: "reservoir_op list \<Rightarrow> eaf_reservoir_t \<Rightarrow> int list \<times> int list \<times> eaf_reservoir_t" where
  "reservoir_run [] r = ([], [], r)"
| "reservoir_run (Op_Write src frames # ops) r =
     (let (k, r1) = eaf_reservoir_write r (Some src) frames; (acc, del, r2) = reservoir_run ops r1
      in (take (unat k * res_channels r) src @ acc, del, r2))"
| "reservoir_run (Op_Pull buf # ops) r =
     (let (rc, woke, r1, buf1) = eaf_reservoir_pull r buf; (acc, del, r2) = reservoir_run ops r1
      in (acc, take (unat (frames_read r1 - frames_read r) * res_channels r) (mem buf1) @ del, r2))"
| "reservoir_run (Op_Finish # ops) r = reservoir_run ops (eaf_reservoir_finish r)"

lemma finish_keeps:
  "reservoir_inv r \<Longrightarrow> reservoir_inv (eaf_reservoir_finish r)"
  "res_queue (eaf_reservoir_finish r) = res_queue r"
  "res_format (eaf_reservoir_finish r) = res_format r"
  by (simp_all add: reservoir_inv_def eaf_reservoir_finish_def res_queue_def res_level_def)

lemma pull_conserves:
  assumes inv: "reservoir_inv r" and len: "length (mem buf) = capacity_samples buf"
    and p: "eaf_reservoir_pull r buf = (rc, woke, r1, buf1)"
  shows "reservoir_inv r1" and "res_format r1 = res_format r"
    and "res_queue r = take (unat (frames_read r1 - frames_read r) * res_channels r) (mem buf1) @ res_queue r1"
proof -
  have "reservoir_inv r1 \<and> res_format r1 = res_format r \<and>
    res_queue r = take (unat (frames_read r1 - frames_read r) * res_channels r) (mem buf1) @ res_queue r1"
  proof (cases "pull_accepts r buf")
    case False
    with p pull_rejects [OF inv len False] have "r1 = r" by simp
    then show ?thesis using inv by simp
  next
    case True
    let ?k = "pull_taken r (unat (frame_count buf))" and ?ch = "res_channels r"
    note P = pull_spec(2,3) [OF inv True p]
    have "?k < 4294967296" by (rule le_less_trans [OF pull_taken_le(1) unat_lt_32])
    then have k: "unat (frames_read r1 - frames_read r) = ?k"
      using P(2) by (simp add: pulled_def Let_def unat_of_nat)
    have len: "length (take (?k * ?ch) (res_queue r)) = ?k * ?ch"
      using mult_le_mono1 [OF pull_taken_le(2), of r "unat (frame_count buf)" ?ch] by (simp add: min_absorb2)
    have "take (?k * ?ch) (mem buf1) = take (?k * ?ch) (res_queue r)"
      using P(2) len by (simp add: pulled_def Let_def blit_def)
    moreover have "res_queue r1 = drop (?k * ?ch) (res_queue r)" "res_format r1 = res_format r"
      using P(2) by (simp_all add: pulled_def Let_def)
    ultimately show ?thesis using P(1) by (simp only: k) simp
  qed
  then show "reservoir_inv r1" and "res_format r1 = res_format r"
    and "res_queue r = take (unat (frames_read r1 - frames_read r) * res_channels r) (mem buf1) @ res_queue r1"
    by blast+
qed

lemma reservoir_run_conserves:
  assumes "reservoir_inv r" and "list_all (op_ok (res_channels r)) ops"
    and "reservoir_run ops r = (acc, del, r')"
  shows "reservoir_inv r' \<and> res_queue r @ acc = del @ res_queue r'"
  using assms
proof (induction ops arbitrary: r acc del)
  case Nil
  then show ?case by simp
next
  case (Cons op ops)
  show ?case
  proof (cases op)
    case (Op_Write src frames)
    obtain k r1 acc1 where w: "eaf_reservoir_write r (Some src) frames = (k, r1)"
      and run: "reservoir_run ops r1 = (acc1, del, r')" and acc: "acc = take (unat k * res_channels r) src @ acc1"
      using Cons.prems(3) Op_Write by (auto simp: Let_def split: prod.splits)
    note W = write_spec [OF Cons.prems(1) w]
    from Cons.prems(2) Op_Write Cons.IH [OF _ _ run] W show ?thesis by (simp add: op_ok_def acc)
  next
    case (Op_Pull buf)
    obtain rc woke r1 buf1 del1 where q: "eaf_reservoir_pull r buf = (rc, woke, r1, buf1)"
      and run: "reservoir_run ops r1 = (acc, del1, r')"
      and del: "del = take (unat (frames_read r1 - frames_read r) * res_channels r) (mem buf1) @ del1"
      using Cons.prems(3) Op_Pull by (auto simp: Let_def split: prod.splits)
    note P = pull_conserves [OF Cons.prems(1) _ q]
    from Cons.prems(2) Op_Pull have ok: "length (mem buf) = capacity_samples buf"
      "list_all (op_ok (res_channels r1)) ops" using P(2) by (simp_all add: op_ok_def [of _ "Op_Pull buf"])
    show ?thesis using Cons.IH [OF P(1) ok(2) run] P(3) ok(1) by (simp add: del)
  next
    case Op_Finish
    then show ?thesis using Cons.IH [of "eaf_reservoir_finish r" acc del] Cons.prems finish_keeps [of r] by simp
  qed
qed

text \<open>Successive pulls into one buffer: the frames delivered, and the flags of the last.\<close>

fun pulls :: "nat \<Rightarrow> eaf_reservoir_t \<Rightarrow> eaf_buffer_t \<Rightarrow> int list \<times> eaf_reservoir_t \<times> eaf_buffer_t" where
  "pulls 0 r buf = ([], r, buf)"
| "pulls (Suc j) r buf =
     (let (rc, woke, r1, buf1) = eaf_reservoir_pull r buf;
          (out, r2, buf2) = pulls j r1 buf1
      in (take (unat (frame_count buf1) * res_channels r) (mem buf1) @ out, r2, buf2))"

lemma take_blit_0: "length xs = n \<Longrightarrow> take n (blit dst 0 xs) = xs"
  by (simp add: blit_def)

text \<open>One pull from a finished reservoir.\<close>

lemma pull_drain_step:
  assumes inv: "reservoir_inv r" and acc: "pull_accepts r buf" and fin: "finished r \<noteq> 0"
    and p: "eaf_reservoir_pull r buf = (rc, woke, r1, buf1)"
  defines "n \<equiv> unat (frame_count buf)" and "ch \<equiv> res_channels r"
  shows "reservoir_inv r1" "pull_accepts r1 buf1" "finished r1 \<noteq> 0" "frame_count buf1 = frame_count buf"
    "res_format r1 = res_format r" "res_level r1 = res_level r - n"
    "res_queue r1 = drop (n * ch) (res_queue r)"
    "take (n * ch) (mem buf1) = take (n * ch) (res_queue r @ replicate (n * ch) 0)"
    "res_state r1 = EAF_RESERVOIR_DRAINED \<longleftrightarrow> res_level r \<le> n"
    "flags buf1 AND EAF_FRAME_EOS \<noteq> 0 \<longleftrightarrow> res_level r \<le> n"
proof -
  let ?k = "pull_taken r n"
  note P = pull_spec [OF inv acc p]
  have D: "res_queue r1 = drop (?k * ch) (res_queue r)"
    "mem buf1 = blit (mem buf) 0 (take (?k * ch) (res_queue r) @ pull_padding r n)"
    "res_state r1 = pull_state r n" "flags buf1 = pull_flags r n" "frame_count buf1 = frame_count buf"
    "res_format r1 = res_format r" "finished r1 = finished r" "capacity r1 = capacity r"
    using P(3) by (simp_all add: pulled_def Let_def n_def ch_def)
  have k: "?k = min (res_level r) n" using fin by (simp add: pull_taken_def pull_plays_def)
  have fits: "n * ch \<le> length (mem buf)" "length (mem buf) = capacity_samples buf"
    using acc by (simp_all add: pull_accepts_def n_def ch_def)
  show "reservoir_inv r1" by (fact P(2))
  show "finished r1 \<noteq> 0" "frame_count buf1 = frame_count buf" "res_format r1 = res_format r"
    using D fin by simp_all
  show q: "res_queue r1 = drop (n * ch) (res_queue r)" by (simp add: D(1) k min_def ch_def)
  then have "length (res_queue r1) = (res_level r - n) * ch" by (simp add: ch_def diff_mult_distrib)
  then show "res_level r1 = res_level r - n"
    using reservoir_invD(1) [OF inv] D(6) by (simp add: ch_def)
  have pad: "pull_padding r n = replicate ((n - ?k) * ch) 0"
    using fin by (simp add: pull_padding_def ch_def Let_def)
  have len: "length (take (?k * ch) (res_queue r) @ pull_padding r n) = n * ch"
    by (simp add: pad k ch_def min_def diff_mult_distrib)
  have "take (n * ch) (mem buf1) = take (?k * ch) (res_queue r) @ pull_padding r n"
    unfolding D(2) by (rule take_blit_0 [OF len])
  also have "\<dots> = take (n * ch) (res_queue r @ replicate (n * ch) 0)"
    by (simp add: pad k ch_def min_def diff_mult_distrib)
  finally show "take (n * ch) (mem buf1) = take (n * ch) (res_queue r @ replicate (n * ch) 0)" .
  have "samples buf1 = samples buf" "capacity_frames buf1 = capacity_frames buf"
    "capacity_samples buf1 = capacity_samples buf"
    using p fin pull_guardD [OF inv acc]
    by (auto simp: eaf_reservoir_pull_def Let_def pull_finished_def)
  then show "pull_accepts r1 buf1"
    using acc D fits len by (simp add: pull_accepts_def D(5,6,8))
  show "res_state r1 = EAF_RESERVOIR_DRAINED \<longleftrightarrow> res_level r \<le> n"
    using fin by (simp add: D(3) pull_state_def)
  show "flags buf1 AND EAF_FRAME_EOS \<noteq> 0 \<longleftrightarrow> res_level r \<le> n"
    using fin by (simp add: D(4) pull_flags_def)
qed

lemma take_padded_split:
  "take m (xs @ replicate m 0) @ take l (drop m xs @ replicate l 0) = take (m + l) (xs @ replicate (m + l) (0::int))"
proof (cases "m \<le> length xs")
  case True
  then show ?thesis by (simp add: take_add diff_diff_left)
next
  case False
  then have "m - length xs + l = m + l - length xs" by simp
  with False show ?thesis by (simp flip: replicate_add)
qed

lemma pulls_drain:
  assumes "reservoir_inv r" and "pull_accepts r buf" and "finished r \<noteq> 0"
    and "pulls (Suc j) r buf = (out, r', buf')"
  defines "n \<equiv> unat (frame_count buf)" and "ch \<equiv> res_channels r"
  shows "out = take (Suc j * n * ch) (res_queue r @ replicate (Suc j * n * ch) 0)"
    and "res_state r' = EAF_RESERVOIR_DRAINED \<longleftrightarrow> res_level r \<le> Suc j * n"
    and "flags buf' AND EAF_FRAME_EOS \<noteq> 0 \<longleftrightarrow> res_level r \<le> Suc j * n"
proof -
  have "out = take (Suc j * n * ch) (res_queue r @ replicate (Suc j * n * ch) 0) \<and>
    (res_state r' = EAF_RESERVOIR_DRAINED \<longleftrightarrow> res_level r \<le> Suc j * n) \<and>
    (flags buf' AND EAF_FRAME_EOS \<noteq> 0 \<longleftrightarrow> res_level r \<le> Suc j * n)"
    using assms(1-4) unfolding n_def ch_def
  proof (induction j arbitrary: r buf out)
    case 0
    obtain rc woke r1 buf1 where p: "eaf_reservoir_pull r buf = (rc, woke, r1, buf1)" by (metis prod_cases4)
    with 0 have "r' = r1" "buf' = buf1"
      "out = take (unat (frame_count buf1) * res_channels r) (mem buf1)" by auto
    with pull_drain_step [OF 0(1-3) p] show ?case by simp
  next
    case (Suc j)
    obtain rc woke r1 buf1 where p: "eaf_reservoir_pull r buf = (rc, woke, r1, buf1)" by (metis prod_cases4)
    note D = pull_drain_step [OF Suc.prems(1-3) p]
    obtain out1 where rest: "pulls (Suc j) r1 buf1 = (out1, r', buf')"
      and out: "out = take (unat (frame_count buf) * res_channels r) (mem buf1) @ out1"
      using Suc.prems(4) p D(4) by (auto simp: Let_def split: prod.splits)
    note IH = Suc.IH [OF D(1-3) rest]
    let ?m = "unat (frame_count buf) * res_channels r"
    have "out = take ?m (res_queue r @ replicate ?m 0) @
        take (Suc j * ?m) (drop ?m (res_queue r) @ replicate (Suc j * ?m) 0)"
      unfolding out D(8) using IH D(4,5,7) by (simp only: mult.assoc)
    also have "\<dots> = take (?m + Suc j * ?m) (res_queue r @ replicate (?m + Suc j * ?m) 0)"
      by (rule take_padded_split)
    finally have "out = take (Suc (Suc j) * ?m) (res_queue r @ replicate (Suc (Suc j) * ?m) 0)" by simp
    moreover have "res_level r1 \<le> Suc j * unat (frame_count buf1) \<longleftrightarrow>
        res_level r \<le> Suc (Suc j) * unat (frame_count buf)" using D(4,6) by auto
    ultimately show ?case using IH by (simp only: mult.assoc)
  qed
  then show "out = take (Suc j * n * ch) (res_queue r @ replicate (Suc j * n * ch) 0)"
    and "res_state r' = EAF_RESERVOIR_DRAINED \<longleftrightarrow> res_level r \<le> Suc j * n"
    and "flags buf' AND EAF_FRAME_EOS \<noteq> 0 \<longleftrightarrow> res_level r \<le> Suc j * n"
    by blast+
qed

section \<open>Properties\<close>

text \<open>The two sample buffers of the witnesses: one frame and two frames of mono.\<close>

definition mono :: eaf_format_t where
  "mono = mk_format 48000 1 1"

definition example_buffer :: "u32 \<Rightarrow> eaf_buffer_t" where
  "example_buffer n = \<lparr>samples = 4096, mem = [9, 9, 9, 9], frame_count = n, capacity_frames = 4,
     capacity_samples = 4, format = mono, flags = 0\<rparr>"

definition zero_reservoir :: eaf_reservoir_t where
  "zero_reservoir = \<lparr>storage = [], capacity = 0, high_watermark = 0, backpressure_low = 0,
     backpressure_high = 0, res_format = zero_format, res_read = 0, res_write = 0, finished = 0,
     res_state = EAF_RESERVOIR_PREBUFFERING, underruns = 0, frames_read = 0, last_frame = [],
     wake_producer = False\<rparr>"

definition example_reservoir :: eaf_reservoir_t where
  "example_reservoir = snd (eaf_reservoir_init 1000 zero_reservoir [0, 0, 0, 0] 4 mono 2)"

lemma example_init:
  "eaf_reservoir_init 1000 zero_reservoir [0, 0, 0, 0] 4 mono 2 = (EAF_OK, example_reservoir)"
  by code_simp

lemma example_inv: "reservoir_inv example_reservoir"
  by (rule init_accepts [OF example_init]) (code_simp, simp)

text \<open>
  C1: the reservoir is a bounded first-in first-out queue. After a successful
  initialisation, and whatever sequence of writes, pulls and end-of-stream calls follows,
  the samples accepted by the writes are exactly the samples delivered by the pulls
  followed by the samples still queued, and the queue never exceeds the capacity.
\<close>

theorem reservoir_fifo:
  assumes "eaf_reservoir_init size_max r0 st cap fmt high = (EAF_OK, r)"
    and "length st = unat cap * channels fmt" and "list_all is_i32 st"
    and "list_all (op_ok (channels fmt)) ops" and "reservoir_run ops r = (acc, del, r')"
  shows "acc = del @ res_queue r' \<and> length (res_queue r') \<le> unat (capacity r') * channels (res_format r')"
proof -
  note I = init_accepts [OF assms(1-3)]
  have "reservoir_inv r' \<and> res_queue r @ acc = del @ res_queue r'"
    using assms(4) I(4) by (intro reservoir_run_conserves [OF I(1) _ assms(5)]) simp
  then show ?thesis using I(2) reservoir_invD(5) [of r'] by simp
qed

definition example_ops :: "reservoir_op list" where
  "example_ops = [Op_Write [5, 6, 7] 3, Op_Pull (example_buffer 2), Op_Write [8, 9, 10] 3, Op_Finish,
     Op_Pull (example_buffer 3)]"

text \<open>A run that wraps the ring: five samples accepted, all delivered in order.\<close>

lemma example_run:
  "case reservoir_run example_ops example_reservoir of (acc, del, r') \<Rightarrow>
     acc = [5, 6, 7, 8, 9, 10] \<and> del = [5, 6, 7, 8, 9]"
  by code_simp

theorem reservoir_fifo_witness:
  "\<exists>r'. reservoir_run example_ops example_reservoir = ([5, 6, 7, 8, 9, 10], [5, 6, 7, 8, 9], r') \<and>
        res_queue r' = [10]"
proof -
  obtain r' where run: "reservoir_run example_ops example_reservoir = ([5, 6, 7, 8, 9, 10], [5, 6, 7, 8, 9], r')"
    using example_run by (auto split: prod.splits)
  have "[5, 6, 7, 8, 9, 10] = [5, 6, 7, 8, 9] @ res_queue r'"
    using reservoir_fifo [OF example_init _ _ _ run]
    by (simp add: example_ops_def op_ok_def mono_def mk_format_def example_buffer_def is_i32_def)
  with run show ?thesis by simp
qed

text \<open>
  C9: every pull the reservoir accepts succeeds, keeps the invariant, and delivers the oldest
  queued frames (as many as there are, at most the requested number, none while
  prebuffering) followed by the padding; exactly the delivered frames leave the queue, the
  rest of the caller's array is untouched, and the successor state and the frame flags are
  those of the prebuffering / streaming / underrun / drained machine.
\<close>

theorem reservoir_pull_correct:
  assumes "reservoir_inv r" and "pull_accepts r buf"
    and "eaf_reservoir_pull r buf = (rc, woke, r', buf')"
  shows "rc = EAF_OK \<and> reservoir_inv r' \<and> pulled r buf r' buf'"
  using pull_spec [OF assms] by blast

theorem reservoir_pull_correct_witness:
  "\<exists>rc woke r' buf'. eaf_reservoir_pull example_reservoir (example_buffer 2) = (rc, woke, r', buf') \<and>
     rc = EAF_OK \<and> pulled example_reservoir (example_buffer 2) r' buf'"
proof -
  obtain rc woke r' buf' where p: "eaf_reservoir_pull example_reservoir (example_buffer 2) = (rc, woke, r', buf')"
    by (metis prod_cases4)
  have "pull_accepts example_reservoir (example_buffer 2)" by code_simp
  from reservoir_pull_correct [OF example_inv this p] p show ?thesis by blast
qed

text \<open>
  C12: draining. Once the stream is finished, repeated pulls deliver all queued samples in
  order and then silence; the reservoir is drained, and the end-of-stream flag is raised,
  exactly when the number of frames asked for reaches the number that was queued, so
  the end of the stream is signalled after finitely many pulls and never early.
\<close>

theorem reservoir_drains:
  assumes "reservoir_inv r" and "pull_accepts r buf" and "finished r \<noteq> 0"
    and "pulls (Suc j) r buf = (out, r', buf')"
  defines "asked \<equiv> Suc j * unat (frame_count buf)" and "ch \<equiv> res_channels r"
  shows "out = take (asked * ch) (res_queue r @ replicate (asked * ch) 0) \<and>
    (res_state r' = EAF_RESERVOIR_DRAINED \<longleftrightarrow> res_level r \<le> asked) \<and>
    (flags buf' AND EAF_FRAME_EOS \<noteq> 0 \<longleftrightarrow> res_level r \<le> asked)"
  using pulls_drain [OF assms(1-4)] by (simp add: asked_def ch_def)

definition example_finished :: eaf_reservoir_t where
  "example_finished = eaf_reservoir_finish (snd (eaf_reservoir_write example_reservoir (Some [5, 6, 7]) 3))"

theorem reservoir_drains_witness:
  "\<exists>r' buf'. pulls 2 example_finished (example_buffer 2) = ([5, 6, 7, 0], r', buf') \<and>
     res_state r' = EAF_RESERVOIR_DRAINED"
proof -
  have w: "eaf_reservoir_write example_reservoir (Some [5, 6, 7]) 3 =
      (fst (eaf_reservoir_write example_reservoir (Some [5, 6, 7]) 3),
       snd (eaf_reservoir_write example_reservoir (Some [5, 6, 7]) 3))" by simp
  have ch: "res_channels example_reservoir = 1" by code_simp
  have inv: "reservoir_inv example_finished" unfolding example_finished_def
    by (rule finish_keeps(1) [OF write_spec(2) [OF example_inv w]]) (simp_all add: ch is_i32_def)
  have acc: "pull_accepts example_finished (example_buffer 2)" and fin: "finished example_finished \<noteq> 0"
    and lv: "res_level example_finished = 3" and q: "res_queue example_finished = [5, 6, 7]"
    and fc: "unat (frame_count (example_buffer 2)) = 2" and ch': "res_channels example_finished = 1"
    by code_simp+
  obtain out r' buf' where p: "pulls (Suc 1) example_finished (example_buffer 2) = (out, r', buf')"
    by (metis prod_cases3)
  from reservoir_drains [OF inv acc fin p] p show ?thesis
    by (simp only: lv q fc ch') (simp add: numeral_2_eq_2)
qed

text \<open>
  The ramp of an underrun. Each padded sample stays in 32 bits, has the sign of the
  sample the ramp starts from, does not exceed it in magnitude, and the ramp ends in zero.
\<close>

theorem underrun_ramp:
  assumes "is_i32 x" and "0 < fade" and "fade \<le> 16"
  shows "(\<forall>i<fade. is_i32 (fade_sample x fade i) \<and> \<bar>fade_sample x fade i\<bar> \<le> \<bar>x\<bar> \<and>
           0 \<le> x * fade_sample x fade i) \<and> fade_sample x fade (fade - 1) = 0"
  using fade_sample_bounds [OF assms(1) _ assms(3)] fade_sample_last [OF assms(2)]
  by (auto simp: zero_le_mult_iff) (meson linear)

theorem underrun_ramp_witness: "fade_sample (-1000) 16 15 = 0 \<and> \<bar>fade_sample (-1000) 16 3\<bar> \<le> 1000"
  using underrun_ramp [of "-1000" 16] by (auto simp: is_i32_def dest: spec [of _ 3])

end
