(* ===== verification/Dec_Input.thy ===== *)
theory Dec_Input
  imports EAF_Types Ring_Memory
begin

text \<open>
  \<open>core/eaf_dec_input.c\<close>: the bounded ring of compressed bytes between the network side
  (push) and a callback-style decoder (read). A read that finds the ring empty waits; what
  the other side does during the waits is a parameter of the model, a list of outcomes, one
  per wait. The theory shows that the ring is a byte queue and that a read always ends, with
  a short count only at the end of the input or after an aborted wait.
\<close>

section \<open>State and operations\<close>

text \<open>\<open>ring = []\<close> is the NULL ring; \<open>can_await\<close> says whether an await callback is set.\<close>

record eaf_dec_input_t =
  ring :: "u8 list"
  in_capacity :: nat
  tail :: nat
  in_count :: nat
  in_eof :: bool
  can_await :: bool

definition eaf_dec_input_init :: "u8 list \<Rightarrow> nat \<Rightarrow> bool \<Rightarrow> eaf_dec_input_t" where
  "eaf_dec_input_init rng cap await =
     \<lparr>ring = rng, in_capacity = cap, tail = 0, in_count = 0, in_eof = False, can_await = await\<rparr>"

definition eaf_dec_input_reset :: "eaf_dec_input_t \<Rightarrow> eaf_dec_input_t" where
  "eaf_dec_input_reset i = i\<lparr>tail := 0, in_count := 0, in_eof := False\<rparr>"

definition eaf_dec_input_finish :: "eaf_dec_input_t \<Rightarrow> eaf_dec_input_t" where
  "eaf_dec_input_finish i = i\<lparr>in_eof := True\<rparr>"

definition eaf_dec_input_set_await :: "eaf_dec_input_t \<Rightarrow> bool \<Rightarrow> eaf_dec_input_t" where
  "eaf_dec_input_set_await i await = i\<lparr>can_await := await\<rparr>"

definition eaf_dec_input_push :: "eaf_dec_input_t \<Rightarrow> u8 list \<Rightarrow> nat \<times> eaf_dec_input_t" where
  "eaf_dec_input_push i data =
     (if ring i = [] \<or> in_eof i \<or> length data = 0 then (0, i)
      else let space = in_capacity i - in_count i;
               n = (if length data < space then length data else space);
               write = (tail i + in_count i) mod in_capacity i;
               first = in_capacity i - write;
               first = (if first > n then n else first);
               r1 = blit (ring i) write (take first data);
               r2 = (if n > first then blit r1 0 (take (n - first) (drop first data)) else r1)
           in (n, i\<lparr>ring := r2, in_count := in_count i + n\<rparr>))"

definition eaf_dec_input_push_adapter ::
  "eaf_dec_input_t \<Rightarrow> u8 list \<Rightarrow> eaf_result_t \<times> nat \<times> eaf_dec_input_t" where
  "eaf_dec_input_push_adapter i data =
     (let (consumed, i) = eaf_dec_input_push i data in (EAF_OK, consumed, i))"

text \<open>
  One wait: the value the callback returns, the bytes pushed meanwhile and whether the input
  was finished meanwhile. When the list is used up, the reader is still blocked in its wait.
\<close>

record wait_outcome =
  wait_rc :: int
  arrived :: "u8 list"
  ended :: bool

definition after_wait :: "wait_outcome \<Rightarrow> eaf_dec_input_t \<Rightarrow> eaf_dec_input_t" where
  "after_wait w i =
     (let i = snd (eaf_dec_input_push i (arrived w))
      in if ended w then eaf_dec_input_finish i else i)"

record dec_read_state =
  rd_input :: eaf_dec_input_t
  rd_dst :: "u8 list"
  rd_got :: nat
  rd_waits :: "wait_outcome list"
  rd_blocked :: bool

definition read_chunk :: "nat \<Rightarrow> dec_read_state \<Rightarrow> dec_read_state" where
  "read_chunk n s =
     (let i = rd_input s;
          chunk = in_capacity i - tail i;
          chunk = (if chunk > in_count i then in_count i else chunk);
          chunk = (if chunk > n - rd_got s then n - rd_got s else chunk)
      in s\<lparr>rd_dst := blit (rd_dst s) (rd_got s) (take chunk (drop (tail i) (ring i))),
           rd_input := i\<lparr>tail := (tail i + chunk) mod in_capacity i, in_count := in_count i - chunk\<rparr>,
           rd_got := rd_got s + chunk\<rparr>)"

partial_function (option) read_loop :: "nat \<Rightarrow> dec_read_state \<Rightarrow> dec_read_state option" where
  "read_loop n s =
     (if rd_got s < n then
        if in_count (rd_input s) = 0 then
          if in_eof (rd_input s) \<or> \<not> can_await (rd_input s) then Some s
          else case rd_waits s of
                 [] \<Rightarrow> Some (s\<lparr>rd_blocked := True\<rparr>)
               | w # ws \<Rightarrow>
                   let s1 = s\<lparr>rd_input := after_wait w (rd_input s), rd_waits := ws\<rparr>
                   in if wait_rc w \<noteq> 0 then Some s1 else read_loop n s1
        else read_loop n (read_chunk n s)
      else Some s)"

declare read_loop.simps [code]

definition eaf_dec_input_read ::
  "eaf_dec_input_t \<Rightarrow> u8 list \<Rightarrow> nat \<Rightarrow> wait_outcome list \<Rightarrow> dec_read_state option" where
  "eaf_dec_input_read i out n waits =
     read_loop n \<lparr>rd_input = i, rd_dst = out, rd_got = 0, rd_waits = waits, rd_blocked = False\<rparr>"

section \<open>Invariant and abstraction\<close>

definition dec_input_inv :: "eaf_dec_input_t \<Rightarrow> bool" where
  "dec_input_inv i \<longleftrightarrow> 0 < in_capacity i \<and> length (ring i) = in_capacity i \<and>
     tail i < in_capacity i \<and> in_count i \<le> in_capacity i"

definition input_bytes :: "eaf_dec_input_t \<Rightarrow> u8 list" where
  "input_bytes i = ring_read (ring i) (tail i) (in_count i)"

lemma length_input_bytes [simp]: "length (input_bytes i) = in_count i"
  by (simp add: input_bytes_def)

lemma dec_input_init_inv:
  "rng \<noteq> [] \<Longrightarrow> dec_input_inv (eaf_dec_input_init rng (length rng) await)"
  by (simp add: dec_input_inv_def eaf_dec_input_init_def)

lemma init_bytes: "input_bytes (eaf_dec_input_init rng cap await) = []"
  by (simp add: input_bytes_def eaf_dec_input_init_def)

lemma finish_input [simp]:
  "dec_input_inv (eaf_dec_input_finish i) = dec_input_inv i"
  "input_bytes (eaf_dec_input_finish i) = input_bytes i"
  "in_eof (eaf_dec_input_finish i)"
  by (simp_all add: dec_input_inv_def eaf_dec_input_finish_def input_bytes_def)

text \<open>The bytes a push accepts.\<close>

definition push_accepts :: "eaf_dec_input_t \<Rightarrow> u8 list \<Rightarrow> nat" where
  "push_accepts i data = (if in_eof i then 0 else min (length data) (in_capacity i - in_count i))"

lemma push_two_part:
  assumes "ring i \<noteq> []" and "\<not> in_eof i" and "data \<noteq> []" and "length (ring i) = in_capacity i"
  defines "n \<equiv> min (length data) (in_capacity i - in_count i)"
  shows "eaf_dec_input_push i data =
    (n, i\<lparr>ring := two_part_store (ring i) ((tail i + in_count i) mod length (ring i)) (take n data),
           in_count := in_count i + n\<rparr>)"
proof -
  define w where "w = (tail i + in_count i) mod in_capacity i"
  have m: "(if a > b then b else a) = min b a" "(if b < a then b else a) = min b a" for a b :: nat by auto
  have s: "min n (in_capacity i - w) < n \<Longrightarrow>
      take (n - min n (in_capacity i - w)) (drop (min n (in_capacity i - w)) data)
      = drop (min n (in_capacity i - w)) (take n data)"
    by (simp add: drop_take)
  have t: "take (min n (in_capacity i - w)) data = take (min n (in_capacity i - w)) (take n data)"
    by simp
  have l: "length (take n data) = n" by (simp add: n_def)
  show ?thesis
    unfolding eaf_dec_input_push_def Let_def two_part_store_def l assms(4)
    unfolding m n_def [symmetric] w_def [symmetric]
    using assms(1-3) s t by simp
qed

lemma push_input_spec:
  assumes inv: "dec_input_inv i" and p: "eaf_dec_input_push i data = (n, i')"
  shows "n = push_accepts i data" and "dec_input_inv i'"
    and "input_bytes i' = input_bytes i @ take n data"
    and "in_eof i' = in_eof i" and "can_await i' = can_await i" and "in_capacity i' = in_capacity i"
proof -
  have I: "0 < in_capacity i" "length (ring i) = in_capacity i" "tail i < in_capacity i"
    "in_count i \<le> in_capacity i" using inv by (simp_all add: dec_input_inv_def)
  have "n = push_accepts i data \<and> dec_input_inv i' \<and> input_bytes i' = input_bytes i @ take n data \<and>
    in_eof i' = in_eof i \<and> can_await i' = can_await i \<and> in_capacity i' = in_capacity i"
  proof (cases "in_eof i \<or> data = []")
    case True
    then show ?thesis using p inv by (auto simp: eaf_dec_input_push_def push_accepts_def)
  next
    case False
    let ?n = "min (length data) (in_capacity i - in_count i)"
    let ?w = "(tail i + in_count i) mod length (ring i)"
    have ne: "ring i \<noteq> []" using I by auto
    have w: "?w < length (ring i)" using I by simp
    have n: "n = ?n" and i': "i' = i\<lparr>ring := two_part_store (ring i) ?w (take ?n data), in_count := in_count i + ?n\<rparr>"
      using p False ne push_two_part [of i data] I(2) by simp_all
    have len: "length (take ?n data) = ?n" by simp
    have fit: "in_count i + length (take ?n data) \<le> length (ring i)" using I by simp
    have "input_bytes i' = input_bytes i @ take ?n data"
      using ring_read_store_append [of "tail i" "ring i" "in_count i" "take ?n data"] I fit len
      by (simp add: input_bytes_def i')
    moreover have "dec_input_inv i'"
      using I w fit by (simp add: dec_input_inv_def i')
    ultimately show ?thesis using False n by (simp add: push_accepts_def i')
  qed
  then show "n = push_accepts i data" and "dec_input_inv i'"
    and "input_bytes i' = input_bytes i @ take n data"
    and "in_eof i' = in_eof i" and "can_await i' = can_await i" and "in_capacity i' = in_capacity i"
    by blast+
qed

section \<open>Reading\<close>

definition read_inv :: "nat \<Rightarrow> dec_read_state \<Rightarrow> bool" where
  "read_inv n s \<longleftrightarrow> dec_input_inv (rd_input s) \<and> rd_got s \<le> n \<and> n \<le> length (rd_dst s) \<and> \<not> rd_blocked s"

definition read_stream :: "dec_read_state \<Rightarrow> u8 list" where
  "read_stream s = take (rd_got s) (rd_dst s) @ input_bytes (rd_input s)"

lemma read_chunk_spec:
  assumes inv: "read_inv n s" and got: "rd_got s < n" and ne: "in_count (rd_input s) \<noteq> 0"
  shows "read_inv n (read_chunk n s)" and "read_stream (read_chunk n s) = read_stream s"
    and "rd_got s < rd_got (read_chunk n s)"
    and "rd_waits (read_chunk n s) = rd_waits s"
    and "in_capacity (rd_input (read_chunk n s)) = in_capacity (rd_input s)"
    and "drop n (rd_dst (read_chunk n s)) = drop n (rd_dst s)"
    and "length (rd_dst (read_chunk n s)) = length (rd_dst s)"
proof -
  let ?i = "rd_input s"
  define c where "c = min (min (in_capacity ?i - tail ?i) (in_count ?i)) (n - rd_got s)"
  have I: "0 < in_capacity ?i" "length (ring ?i) = in_capacity ?i" "tail ?i < in_capacity ?i"
    "in_count ?i \<le> in_capacity ?i" and N: "rd_got s \<le> n" "n \<le> length (rd_dst s)"
    using inv by (simp_all add: read_inv_def dec_input_inv_def)
  let ?xs = "take c (drop (tail ?i) (ring ?i))"
  have m: "(if (b::nat) < a then b else a) = min a b" for a b by auto
  have rc: "read_chunk n s = s\<lparr>rd_dst := blit (rd_dst s) (rd_got s) ?xs,
      rd_input := ?i\<lparr>tail := (tail ?i + c) mod in_capacity ?i, in_count := in_count ?i - c\<rparr>,
      rd_got := rd_got s + c\<rparr>"
    unfolding read_chunk_def Let_def m by (simp add: c_def)
  have c: "0 < c" "c \<le> in_count ?i" "c \<le> in_capacity ?i - tail ?i" "rd_got s + c \<le> n"
    using I ne got by (auto simp: c_def)
  have len: "length ?xs = c" using c(3) I(2) by simp
  have "two_part_load (ring ?i) (tail ?i) c = ?xs"
    using c(3) I(2) by (simp add: two_part_load_def Let_def min_absorb1)
  then have xs: "?xs = ring_read (ring ?i) (tail ?i) c"
    using two_part_load_eq [of "tail ?i" "ring ?i" c] I c by simp
  show "read_inv n (read_chunk n s)"
    using inv I N c len by (auto simp: read_inv_def dec_input_inv_def rc)
  have "take (rd_got s + c) (blit (rd_dst s) (rd_got s) ?xs) = take (rd_got s) (rd_dst s) @ ?xs"
    using take_blit_all [of "rd_got s" ?xs "rd_dst s"] len c(4) N(2) by simp
  moreover have "input_bytes ?i = ?xs @ input_bytes (?i\<lparr>tail := (tail ?i + c) mod in_capacity ?i,
      in_count := in_count ?i - c\<rparr>)"
    using ring_read_add [of "ring ?i" "tail ?i" c "in_count ?i - c"] c(2)
      ring_read_mod [of "ring ?i" "tail ?i + c" "in_count ?i - c"]
    by (simp add: input_bytes_def xs I(2))
  ultimately show "read_stream (read_chunk n s) = read_stream s"
    by (simp add: read_stream_def rc)
  show "rd_got s < rd_got (read_chunk n s)" and "rd_waits (read_chunk n s) = rd_waits s"
    and "in_capacity (rd_input (read_chunk n s)) = in_capacity (rd_input s)"
    using c by (simp_all add: rc)
  show "drop n (rd_dst (read_chunk n s)) = drop n (rd_dst s)"
    and "length (rd_dst (read_chunk n s)) = length (rd_dst s)"
    using len c(4) N(2) by (simp_all add: rc blit_def)
qed

lemma after_wait_spec:
  assumes "dec_input_inv i" and "in_count i = 0" and "\<not> in_eof i"
  shows "dec_input_inv (after_wait w i)"
    and "input_bytes (after_wait w i) = take (in_capacity i) (arrived w)"
    and "in_capacity (after_wait w i) = in_capacity i"
proof -
  obtain n i' where p: "eaf_dec_input_push i (arrived w) = (n, i')" by fastforce
  note P = push_input_spec [OF assms(1) p]
  have "input_bytes i = []" using assms(2) by (simp add: input_bytes_def)
  moreover have "take n (arrived w) = take (in_capacity i) (arrived w)"
    using P(1) assms by (simp add: push_accepts_def min_def)
  ultimately show "dec_input_inv (after_wait w i)"
    and "input_bytes (after_wait w i) = take (in_capacity i) (arrived w)"
    and "in_capacity (after_wait w i) = in_capacity i"
    using P by (simp_all add: after_wait_def p eaf_dec_input_finish_def input_bytes_def dec_input_inv_def)
qed

text \<open>What a finished read has done, given the state it started from.\<close>

definition read_result :: "nat \<Rightarrow> dec_read_state \<Rightarrow> dec_read_state \<Rightarrow> bool" where
  "read_result n s t \<longleftrightarrow>
     dec_input_inv (rd_input t) \<and> rd_got t \<le> n \<and> drop n (rd_dst t) = drop n (rd_dst s) \<and>
     length (rd_dst t) = length (rd_dst s) \<and> in_capacity (rd_input t) = in_capacity (rd_input s) \<and>
     (\<exists>used. rd_waits s = used @ rd_waits t \<and>
        read_stream t = read_stream s @ concat (map (\<lambda>w. take (in_capacity (rd_input s)) (arrived w)) used) \<and>
        (rd_got t < n \<longrightarrow>
           in_count (rd_input t) = 0 \<and> (in_eof (rd_input t) \<or> \<not> can_await (rd_input t)) \<or>
           rd_blocked t \<and> rd_waits t = [] \<or> used \<noteq> [] \<and> wait_rc (last used) \<noteq> 0))"

lemma read_result_refl:
  assumes "read_inv n s" and "rd_got s < n \<longrightarrow>
    in_count (rd_input s) = 0 \<and> (in_eof (rd_input s) \<or> \<not> can_await (rd_input s))"
  shows "read_result n s s"
  unfolding read_result_def using assms by (auto simp: read_inv_def intro: exI [of _ "[]"])

lemma read_result_trans:
  assumes "read_result n s1 t" and "rd_waits s = ws @ rd_waits s1"
    and "read_stream s1 = read_stream s @ concat (map (\<lambda>w. take (in_capacity (rd_input s)) (arrived w)) ws)"
    and "in_capacity (rd_input s1) = in_capacity (rd_input s)" and "drop n (rd_dst s1) = drop n (rd_dst s)"
    and "length (rd_dst s1) = length (rd_dst s)"
  shows "read_result n s t"
proof -
  obtain used where u: "rd_waits s1 = used @ rd_waits t"
    "read_stream t = read_stream s1 @ concat (map (\<lambda>w. take (in_capacity (rd_input s1)) (arrived w)) used)"
    "rd_got t < n \<longrightarrow> in_count (rd_input t) = 0 \<and> (in_eof (rd_input t) \<or> \<not> can_await (rd_input t)) \<or>
       rd_blocked t \<and> rd_waits t = [] \<or> used \<noteq> [] \<and> wait_rc (last used) \<noteq> 0"
    using assms(1) unfolding read_result_def by blast
  show ?thesis unfolding read_result_def
    using assms u by (auto simp: read_result_def intro!: exI [of _ "ws @ used"])
qed

lemma read_loop_total:
  assumes "read_inv n s"
  shows "\<exists>t. read_loop n s = Some t \<and> read_result n s t"
  using assms
proof (induction "(length (rd_waits s), n - rd_got s)" arbitrary: s
    rule: wf_induct_rule [OF wf_lex_prod [OF wf_less_than wf_less_than]])
  case (1 s)
  let ?i = "rd_input s"
  consider (full) "\<not> rd_got s < n"
    | (copy) "rd_got s < n" "in_count ?i \<noteq> 0"
    | (stop) "rd_got s < n" "in_count ?i = 0" "in_eof ?i \<or> \<not> can_await ?i"
    | (wait) "rd_got s < n" "in_count ?i = 0" "\<not> in_eof ?i" "can_await ?i" by blast
  then show ?case
  proof cases
    case full
    then show ?thesis using read_result_refl [OF "1.prems"] by (simp add: read_loop.simps)
  next
    case stop
    then show ?thesis using read_result_refl [OF "1.prems"] by (simp add: read_loop.simps)
  next
    case copy
    note C = read_chunk_spec [OF "1.prems" copy]
    have "n - rd_got (read_chunk n s) < n - rd_got s" using C(3) copy(1) by simp
    then obtain t where t: "read_loop n (read_chunk n s) = Some t" "read_result n (read_chunk n s) t"
      using "1.hyps" [of "read_chunk n s"] C by auto
    have "read_result n s t" by (rule read_result_trans [OF t(2), of s "[]"]) (simp_all add: C)
    with t(1) copy show ?thesis by (simp add: read_loop.simps [of n s])
  next
    case wait
    show ?thesis
    proof (cases "rd_waits s")
      case Nil
      have "read_result n s (s\<lparr>rd_blocked := True\<rparr>)"
        using "1.prems" Nil by (auto simp: read_result_def read_inv_def read_stream_def)
      with Nil wait show ?thesis by (simp add: read_loop.simps)
    next
      case (Cons w ws)
      let ?s = "s\<lparr>rd_input := after_wait w ?i, rd_waits := ws\<rparr>"
      have inv: "dec_input_inv ?i" using "1.prems" by (simp add: read_inv_def)
      note A = after_wait_spec [OF inv wait(2,3), of w]
      have inv': "read_inv n ?s" using "1.prems" A by (simp add: read_inv_def)
      have "input_bytes ?i = []" using wait(2) by (simp add: input_bytes_def)
      then have st: "read_stream ?s = read_stream s @ take (in_capacity ?i) (arrived w)"
        using A by (simp add: read_stream_def)
      show ?thesis
      proof (cases "wait_rc w = 0")
        case True
        obtain t where t: "read_loop n ?s = Some t" "read_result n ?s t"
          using "1.hyps" [of ?s] inv' Cons by auto
        have "read_result n s t"
          by (rule read_result_trans [OF t(2), of s "[w]"]) (simp_all add: st A Cons)
        with t(1) wait Cons True show ?thesis by (simp add: read_loop.simps [of n s])
      next
        case False
        have "read_result n s ?s" unfolding read_result_def
          using inv' st A Cons False by (auto simp: read_inv_def intro!: exI [of _ "[w]"])
        with wait Cons False show ?thesis by (simp add: read_loop.simps [of n s])
      qed
    qed
  qed
qed

text \<open>A request that the queued bytes cover is served from them, without a wait.\<close>

lemma read_available:
  assumes "read_inv n s" and "n \<le> rd_got s + in_count (rd_input s)"
  shows "\<exists>t. read_loop n s = Some t \<and> rd_got t = n \<and> read_stream t = read_stream s \<and> read_inv n t \<and>
    in_capacity (rd_input t) = in_capacity (rd_input s) \<and> can_await (rd_input t) = can_await (rd_input s) \<and>
    in_eof (rd_input t) = in_eof (rd_input s) \<and> length (rd_dst t) = length (rd_dst s)"
  using assms
proof (induction "n - rd_got s" arbitrary: s rule: less_induct)
  case less
  show ?case
  proof (cases "rd_got s < n")
    case False
    then show ?thesis using less.prems by (auto simp: read_loop.simps read_inv_def)
  next
    case True
    let ?s = "read_chunk n s"
    have ne: "in_count (rd_input s) \<noteq> 0" using less.prems(2) True by simp
    note C = read_chunk_spec [OF less.prems(1) True ne]
    have same: "can_await (rd_input ?s) = can_await (rd_input s)" "in_eof (rd_input ?s) = in_eof (rd_input s)"
      by (simp_all add: read_chunk_def Let_def)
    have "length (read_stream ?s) = length (read_stream s)" by (simp only: C(2))
    then have "n \<le> rd_got ?s + in_count (rd_input ?s)"
      using less.prems C(1) by (simp add: read_stream_def read_inv_def)
    moreover have "n - rd_got ?s < n - rd_got s" using C(3) True by simp
    ultimately obtain t where "read_loop n ?s = Some t \<and> rd_got t = n \<and> read_stream t = read_stream ?s \<and> read_inv n t \<and>
        in_capacity (rd_input t) = in_capacity (rd_input ?s) \<and> can_await (rd_input t) = can_await (rd_input ?s) \<and>
        in_eof (rd_input t) = in_eof (rd_input ?s) \<and> length (rd_dst t) = length (rd_dst ?s)"
      using less.hyps C(1) by blast
    with True ne C same show ?thesis by (simp add: read_loop.simps [of n s])
  qed
qed

section \<open>Properties\<close>

text \<open>
  Pushing compressed input appends to the queued bytes exactly the prefix that fits (none
  once the input is finished), reports its length, and keeps the ring well formed.
\<close>

theorem dec_input_push_appends:
  assumes "dec_input_inv i" and "eaf_dec_input_push i data = (n, i')"
  shows "dec_input_inv i' \<and> input_bytes i' = input_bytes i @ take n data \<and>
    n = (if in_eof i then 0 else min (length data) (in_capacity i - length (input_bytes i)))"
  using push_input_spec [OF assms] by (simp add: push_accepts_def)

definition example_input :: eaf_dec_input_t where
  "example_input = (eaf_dec_input_init [0, 0, 7, 8] 4 True)\<lparr>tail := 2, in_count := 2\<rparr>"

lemma example_input_inv: "dec_input_inv example_input"
  by code_simp

theorem dec_input_push_appends_witness:
  "\<exists>i'. eaf_dec_input_push example_input [1, 2, 3] = (2, i') \<and> input_bytes i' = [7, 8, 1, 2]"
proof -
  obtain i' where p: "eaf_dec_input_push example_input [1, 2, 3] = (2, i')"
    by (simp add: eaf_dec_input_push_def example_input_def eaf_dec_input_init_def Let_def)
  moreover have "input_bytes example_input = [7, 8]" by code_simp
  ultimately show ?thesis using dec_input_push_appends [OF example_input_inv p] by simp
qed

text \<open>
  C31: reading compressed input always returns (or is blocked in a wait that has not ended).
  The bytes read followed by the bytes still queued are the bytes queued before followed
  by what arrived during the waits, in order; nothing past the requested length is written,
  and a short read happens only on an empty ring at the end of input or without a
  callback, in an unfinished wait, or after a wait that failed.
\<close>

theorem dec_input_read_total:
  assumes "dec_input_inv i" and "n \<le> length out"
  shows "\<exists>t. eaf_dec_input_read i out n waits = Some t \<and> dec_input_inv (rd_input t) \<and> rd_got t \<le> n \<and>
    length (rd_dst t) = length out \<and> drop n (rd_dst t) = drop n out \<and>
    (\<exists>used. waits = used @ rd_waits t \<and>
       take (rd_got t) (rd_dst t) @ input_bytes (rd_input t) =
         input_bytes i @ concat (map (\<lambda>w. take (in_capacity i) (arrived w)) used) \<and>
       (rd_got t < n \<longrightarrow>
          in_count (rd_input t) = 0 \<and> (in_eof (rd_input t) \<or> \<not> can_await (rd_input t)) \<or>
          rd_blocked t \<and> rd_waits t = [] \<or> used \<noteq> [] \<and> wait_rc (last used) \<noteq> 0))"
proof -
  let ?s = "\<lparr>rd_input = i, rd_dst = out, rd_got = 0, rd_waits = waits, rd_blocked = False\<rparr>"
  have "read_inv n ?s" using assms by (simp add: read_inv_def)
  from read_loop_total [OF this] show ?thesis
    by (auto simp: eaf_dec_input_read_def read_result_def read_stream_def)
qed

theorem dec_input_read_total_witness:
  "\<exists>t. eaf_dec_input_read example_input [9, 9, 9, 9, 9] 4
          [\<lparr>wait_rc = 0, arrived = [1], ended = False\<rparr>, \<lparr>wait_rc = 0, arrived = [], ended = True\<rparr>] = Some t \<and>
        take (rd_got t) (rd_dst t) @ input_bytes (rd_input t) = [7, 8, 1]"
proof -
  let ?ws = "[\<lparr>wait_rc = 0, arrived = [1], ended = False\<rparr>, \<lparr>wait_rc = 0, arrived = [], ended = True\<rparr>]"
  have all: "case eaf_dec_input_read example_input [9, 9, 9, 9, 9] 4 ?ws of
      Some t \<Rightarrow> rd_waits t = [] | None \<Rightarrow> False" by code_simp
  have "input_bytes example_input = [7, 8]" and "in_capacity example_input = 4" by code_simp+
  with all dec_input_read_total [OF example_input_inv, of 4 "[9, 9, 9, 9, 9]" ?ws]
  show ?thesis by auto
qed

end
