(* ===== verification/DSP.thy ===== *)
theory DSP
  imports EAF_Types EAF_Float
begin

text \<open>
  \<open>core/eaf_dsp.c\<close> and \<open>include/eaf/eaf_dsp.h\<close>: saturating fixed-point gain, the biquad
  filter, its design, and the three processing nodes (volume, equaliser, 2.1 crossover).
  The lemmas show that no 64-bit accumulator overflows, that the gain never amplifies, that
  the interleaved loops filter every channel independently and that the in-place
  expansion of the crossover loses no sample.
\<close>

section \<open>Fixed-point arithmetic\<close>

definition sat :: "int \<Rightarrow> int" where
  "sat x = (if x > INT32_MAX then INT32_MAX else if x < INT32_MIN then INT32_MIN else i32 x)"

definition eaf_q31_multiply :: "int \<Rightarrow> int \<Rightarrow> int" where
  "eaf_q31_multiply sample gain =
     (if gain = INT32_MAX then sample else sat ((sample * gain) sdiv 2147483648))"

text \<open>The shift \<open>gain << 15\<close> is a multiplication for the gains the function documents.\<close>

definition eaf_q16_multiply :: "int \<Rightarrow> int \<Rightarrow> int" where
  "eaf_q16_multiply sample gain =
     (if gain \<ge> 65536 then sample else eaf_q31_multiply sample (gain * 32768))"

lemma sat_range [eaf_range, simp]: "is_i32 (sat x)"
  by (simp add: sat_def is_i32_def)

lemma sat_id [simp]: "is_i32 x \<Longrightarrow> sat x = x"
  by (simp add: sat_def is_i32_def)

lemma sat_mono: "x \<le> y \<Longrightarrow> sat x \<le> sat y"
proof -
  have "sat z = max INT32_MIN (min INT32_MAX z)" for z
    by (cases "is_i32 z") (auto simp: sat_def is_i32_def)
  then show "x \<le> y \<Longrightarrow> sat x \<le> sat y" by simp
qed

lemma q31_range [eaf_range]: "is_i32 sample \<Longrightarrow> is_i32 (eaf_q31_multiply sample gain)"
  by (simp add: eaf_q31_multiply_def)

text \<open>The product fits in 64 bits, so the C expression has no overflow.\<close>

lemma i32_product_bound:
  assumes "is_i32 x" and "is_i32 y"
  shows "\<bar>x * y\<bar> \<le> 2 ^ 62"
proof -
  have "\<bar>x\<bar> \<le> 2 ^ 31" "\<bar>y\<bar> \<le> 2 ^ 31" using assms by (auto simp: is_i32_def)
  then have "\<bar>x\<bar> * \<bar>y\<bar> \<le> 2 ^ 31 * 2 ^ 31" by (intro mult_mono) auto
  then show ?thesis by (simp add: abs_mult)
qed

lemma q31_exact:
  assumes "is_i32 sample" and "is_i32 gain" and "0 \<le> gain" and "gain \<noteq> INT32_MAX"
  shows "eaf_q31_multiply sample gain = (sample * gain) sdiv 2147483648"
    and "\<bar>(sample * gain) sdiv 2147483648\<bar> \<le> \<bar>sample\<bar>"
proof -
  have g: "gain \<le> 2147483648" using assms by (simp add: is_i32_def)
  have "\<bar>sample * gain\<bar> \<le> 2147483648 * \<bar>sample\<bar>"
    using assms(3) g mult_left_mono [OF g, of "\<bar>sample\<bar>"] by (simp add: abs_mult mult.commute)
  then show b: "\<bar>(sample * gain) sdiv 2147483648\<bar> \<le> \<bar>sample\<bar>"
    by (rule abs_sdiv_bound [rotated]) simp
  have sgn: "0 \<le> sample \<Longrightarrow> 0 \<le> (sample * gain) sdiv 2147483648"
    "sample \<le> 0 \<Longrightarrow> (sample * gain) sdiv 2147483648 \<le> 0"
    using assms(3) by (auto intro!: sdiv_sign mult_nonpos_nonneg)
  have "is_i32 ((sample * gain) sdiv 2147483648)"
    using b sgn assms(1) by (cases "0 \<le> sample") (auto simp: is_i32_def)
  then show "eaf_q31_multiply sample gain = (sample * gain) sdiv 2147483648"
    using assms(4) by (simp add: eaf_q31_multiply_def)
qed

section \<open>Biquad\<close>

record eaf_biquad_coeff_t =
  b0 :: int
  b1 :: int
  b2 :: int
  a1 :: int
  a2 :: int

record eaf_biquad_state_t =
  x1 :: int
  x2 :: int
  y1 :: int
  y2 :: int

definition biquad_acc :: "eaf_biquad_coeff_t \<Rightarrow> eaf_biquad_state_t \<Rightarrow> int \<Rightarrow> int" where
  "biquad_acc c s x =
     (b0 c * x) sdiv 4 + (b1 c * x1 s) sdiv 4 + (b2 c * x2 s) sdiv 4
       - (a1 c * y1 s) sdiv 4 - (a2 c * y2 s) sdiv 4"

definition eaf_biquad_tick ::
  "eaf_biquad_coeff_t \<Rightarrow> eaf_biquad_state_t \<Rightarrow> int \<Rightarrow> int \<times> eaf_biquad_state_t" where
  "eaf_biquad_tick c s x =
     (let acc = biquad_acc c s x;
          y = sat (acc sdiv 268435456)
      in (y, s\<lparr>x2 := x1 s, x1 := x, y2 := y1 s, y1 := y\<rparr>))"

definition zero_biquad :: eaf_biquad_state_t where
  "zero_biquad = \<lparr>x1 = 0, x2 = 0, y1 = 0, y2 = 0\<rparr>"

definition coeff_ok :: "eaf_biquad_coeff_t \<Rightarrow> bool" where
  "coeff_ok c \<longleftrightarrow> is_i32 (b0 c) \<and> is_i32 (b1 c) \<and> is_i32 (b2 c) \<and> is_i32 (a1 c) \<and> is_i32 (a2 c)"

definition biquad_ok :: "eaf_biquad_state_t \<Rightarrow> bool" where
  "biquad_ok s \<longleftrightarrow> is_i32 (x1 s) \<and> is_i32 (x2 s) \<and> is_i32 (y1 s) \<and> is_i32 (y2 s)"

lemma quarter_product:
  assumes "is_i32 x" and "is_i32 y"
  shows "\<bar>(x * y) sdiv 4\<bar> \<le> 2 ^ 60"
  using i32_product_bound [OF assms] by (intro abs_sdiv_bound) simp_all

text \<open>
  Every prefix of the five-term sum stays within \<open>5 * 2 ^ 60\<close>, so none of the 64-bit
  additions overflows.
\<close>

lemma biquad_acc_prefixes:
  assumes "coeff_ok c" and "biquad_ok s" and "is_i32 x"
  defines "t1 \<equiv> (b0 c * x) sdiv 4" and "t2 \<equiv> (b1 c * x1 s) sdiv 4" and "t3 \<equiv> (b2 c * x2 s) sdiv 4"
    and "t4 \<equiv> (a1 c * y1 s) sdiv 4" and "t5 \<equiv> (a2 c * y2 s) sdiv 4"
  shows "is_i64 (t1 + t2)" "is_i64 (t1 + t2 + t3)" "is_i64 (t1 + t2 + t3 - t4)" "is_i64 (biquad_acc c s x)"
proof -
  have b: "\<bar>t1\<bar> \<le> 2 ^ 60" "\<bar>t2\<bar> \<le> 2 ^ 60" "\<bar>t3\<bar> \<le> 2 ^ 60" "\<bar>t4\<bar> \<le> 2 ^ 60" "\<bar>t5\<bar> \<le> 2 ^ 60"
    using assms(1-3) unfolding assms(4-8) coeff_ok_def biquad_ok_def by (auto intro!: quarter_product [simplified])
  show "is_i64 (t1 + t2)" "is_i64 (t1 + t2 + t3)" "is_i64 (t1 + t2 + t3 - t4)"
    using b by (auto simp: is_i64_def abs_le_iff)
  have "biquad_acc c s x = t1 + t2 + t3 - t4 - t5" by (simp add: biquad_acc_def assms)
  then show "is_i64 (biquad_acc c s x)" using b by (auto simp: is_i64_def abs_le_iff)
qed

lemma biquad_tick_ok:
  assumes "biquad_ok s" and "is_i32 x" and "eaf_biquad_tick c s x = (y, s')"
  shows "is_i32 y" and "biquad_ok s'"
  using assms by (auto simp: eaf_biquad_tick_def Let_def biquad_ok_def)

text \<open>
  The filter design. \<open>cos\<close>, \<open>sin\<close>, \<open>sqrt\<close> and \<open>round\<close> come from the C library; the three
  transcendental ones are parameters, as is the rounding of the arithmetic.
\<close>

record libm =
  m_cos :: "real \<Rightarrow> real"
  m_sin :: "real \<Rightarrow> real"
  m_sqrt :: "real \<Rightarrow> real"

definition c_round :: "real \<Rightarrow> int" where
  "c_round x = (if 0 \<le> x then \<lfloor>x + 1 / 2\<rfloor> else - \<lfloor>- x + 1 / 2\<rfloor>)"

definition design_value :: "double \<Rightarrow> int option" where
  "design_value scaled = (case scaled of
       Fin v \<Rightarrow> (let q = c_round v in if q < INT32_MIN \<or> q > INT32_MAX then None else Some (i32 q))
     | _ \<Rightarrow> None)"

definition design_values :: "rounding \<Rightarrow> libm \<Rightarrow> double \<Rightarrow> double \<Rightarrow> bool \<Rightarrow> double list" where
  "design_values rnd lm rate hz high =
     (let w = fmul rnd (Fin 6.2831853071795864769) (fdiv rnd hz rate);
          app = (\<lambda>f. case w of Fin v \<Rightarrow> Fin (f v) | _ \<Rightarrow> NaN);
          cs = app (m_cos lm);
          alpha = fdiv rnd (app (m_sin lm)) (Fin (m_sqrt lm 2));
          a0 = fadd rnd (Fin 1) alpha;
          b0 = fdiv rnd (if high then fadd rnd (Fin 1) cs else fsub rnd (Fin 1) cs)
                 (fmul rnd (Fin 2) a0)
      in [b0, fmul rnd (Fin (if high then -2 else 2)) b0, b0,
          fdiv rnd (fmul rnd (Fin (-2)) cs) a0, fdiv rnd (fsub rnd (Fin 1) alpha) a0])"

definition design ::
  "rounding \<Rightarrow> libm \<Rightarrow> eaf_biquad_coeff_t \<Rightarrow> double \<Rightarrow> double \<Rightarrow> bool \<Rightarrow> eaf_result_t \<times> eaf_biquad_coeff_t" where
  "design rnd lm c rate hz high =
     (if \<not> isfinite rate \<or> \<not> isfinite hz \<or> fle rate (Fin 0) \<or> fle hz (Fin 0) \<or>
         fle (fdiv rnd rate (Fin 2)) hz then (EAF_INVALID, c)
      else case map (\<lambda>v. design_value (fmul rnd v (Fin 1073741824))) (design_values rnd lm rate hz high) of
             [Some q0, Some q1, Some q2, Some q3, Some q4] \<Rightarrow>
               (EAF_OK, \<lparr>b0 = q0, b1 = q1, b2 = q2, a1 = q3, a2 = q4\<rparr>)
           | _ \<Rightarrow> (EAF_INVALID, c))"

definition eaf_biquad_lowpass where
  "eaf_biquad_lowpass rnd lm c rate hz = design rnd lm c rate hz False"

definition eaf_biquad_highpass where
  "eaf_biquad_highpass rnd lm c rate hz = design rnd lm c rate hz True"

lemma design_value_range: "design_value v = Some q \<Longrightarrow> is_i32 q"
  by (auto simp: design_value_def Let_def split: double.splits if_splits)

lemma design_ok:
  assumes "design rnd lm c rate hz high = (rc, c')"
  shows "rc = EAF_OK \<and> coeff_ok c' \<or> rc = EAF_INVALID \<and> c' = c"
  using assms
  by (auto simp: design_def coeff_ok_def design_values_def Let_def design_value_range
      split: if_splits option.splits)

section \<open>Nodes\<close>

definition valid_buffer :: "eaf_buffer_t \<Rightarrow> bool" where
  "valid_buffer b \<longleftrightarrow> samples b \<noteq> 0 \<and> eaf_format_valid (format b) \<and>
     frame_count b \<le> capacity_frames b \<and>
     unat (frame_count b) \<le> capacity_samples b div channels (format b)"

text \<open>
  The init functions get the node's context (None is a NULL context), the input format and
  the output format as the caller left it; the others get the context itself.
\<close>

definition noop_reset :: "'c \<Rightarrow> eaf_result_t \<times> 'c" where
  "noop_reset ctx = (EAF_OK, ctx)"

definition noop_deinit :: "'c \<Rightarrow> 'c" where
  "noop_deinit ctx = ctx"

record eaf_volume_ctx_t =
  gain :: "int list"

definition volume_init :: "eaf_volume_ctx_t option \<Rightarrow> eaf_format_t \<Rightarrow> eaf_format_t \<Rightarrow> eaf_result_t \<times> eaf_format_t" where
  "volume_init ctx fmt_in fmt_out =
     (case ctx of None \<Rightarrow> (EAF_INVALID, fmt_out)
      | Some v \<Rightarrow>
        if \<not> eaf_format_valid fmt_in then (EAF_INVALID, fmt_out)
        else if \<exists>ch \<in> set [0..<channels fmt_in]. gain v ! ch < 0 then (EAF_INVALID, fmt_out)
        else (EAF_OK, fmt_in))"

definition volume_process :: "eaf_volume_ctx_t \<Rightarrow> eaf_buffer_t \<Rightarrow> eaf_result_t \<times> eaf_buffer_t" where
  "volume_process v b =
     (if \<not> valid_buffer b then (EAF_INVALID, b)
      else let C = channels (format b)
           in (EAF_OK, b\<lparr>mem := fold (\<lambda>i. fold (\<lambda>ch m.
                   let slot = i * C + ch in m[slot := eaf_q31_multiply (m ! slot) (gain v ! ch)])
                 [0..<C]) [0..<unat (frame_count b)] (mem b)\<rparr>))"

abbreviation (input) EAF_EQ_MAX_BANDS :: nat where "EAF_EQ_MAX_BANDS \<equiv> 8"

record eaf_eq_ctx_t =
  bands :: nat
  coeff :: "eaf_biquad_coeff_t list"
  eq_state :: "eaf_biquad_state_t list list"

definition eq_reset :: "eaf_eq_ctx_t \<Rightarrow> eaf_result_t \<times> eaf_eq_ctx_t" where
  "eq_reset e = (EAF_OK, e\<lparr>eq_state := replicate 4 (replicate 8 zero_biquad)\<rparr>)"

definition eq_init ::
  "eaf_eq_ctx_t option \<Rightarrow> eaf_format_t \<Rightarrow> eaf_format_t \<Rightarrow> eaf_result_t \<times> eaf_format_t \<times> eaf_eq_ctx_t option" where
  "eq_init ctx fmt_in fmt_out =
     (case ctx of None \<Rightarrow> (EAF_INVALID, fmt_out, None)
      | Some e \<Rightarrow>
        if bands e > EAF_EQ_MAX_BANDS \<or> \<not> eaf_format_valid fmt_in then (EAF_INVALID, fmt_out, ctx)
        else let (rc, e) = eq_reset e in (rc, fmt_in, Some e))"

definition eq_band ::
  "eaf_biquad_coeff_t list \<Rightarrow> nat \<Rightarrow> nat \<Rightarrow> nat \<Rightarrow>
   int list \<times> eaf_biquad_state_t list list \<Rightarrow> int list \<times> eaf_biquad_state_t list list" where
  "eq_band cs slot ch band = (\<lambda>(m, st).
     let (y, s') = eaf_biquad_tick (cs ! band) (st ! ch ! band) (m ! slot)
     in (m[slot := y], st[ch := (st ! ch)[band := s']]))"

definition eq_loop ::
  "eaf_biquad_coeff_t list \<Rightarrow> nat \<Rightarrow> nat \<Rightarrow> nat \<Rightarrow>
   int list \<times> eaf_biquad_state_t list list \<Rightarrow> int list \<times> eaf_biquad_state_t list list" where
  "eq_loop cs nb C n =
     fold (\<lambda>i. fold (\<lambda>ch. fold (eq_band cs (i * C + ch) ch) [0..<nb]) [0..<C]) [0..<n]"

definition eq_process :: "eaf_eq_ctx_t \<Rightarrow> eaf_buffer_t \<Rightarrow> eaf_result_t \<times> eaf_eq_ctx_t \<times> eaf_buffer_t" where
  "eq_process e b =
     (if \<not> valid_buffer b then (EAF_INVALID, e, b)
      else let (m, st) = eq_loop (coeff e) (bands e) (channels (format b)) (unat (frame_count b))
                           (mem b, eq_state e)
           in (EAF_OK, e\<lparr>eq_state := st\<rparr>, b\<lparr>mem := m, flags := flags b AND NOT EAF_FRAME_SILENCE\<rparr>))"

record eaf_crossover_2_1_ctx_t =
  frequency_hz :: double
  lp :: eaf_biquad_coeff_t
  hp :: eaf_biquad_coeff_t
  low :: "eaf_biquad_state_t list"
  high :: "eaf_biquad_state_t list list"

definition cross_reset :: "eaf_crossover_2_1_ctx_t \<Rightarrow> eaf_result_t \<times> eaf_crossover_2_1_ctx_t" where
  "cross_reset c = (EAF_OK, c\<lparr>low := replicate 2 zero_biquad, high := replicate 2 (replicate 2 zero_biquad)\<rparr>)"

definition cross_init ::
  "rounding \<Rightarrow> libm \<Rightarrow> eaf_crossover_2_1_ctx_t option \<Rightarrow> eaf_format_t \<Rightarrow> eaf_format_t \<Rightarrow>
   eaf_result_t \<times> eaf_format_t \<times> eaf_crossover_2_1_ctx_t option" where
  "cross_init rnd lm ctx fmt_in fmt_out =
     (case ctx of None \<Rightarrow> (EAF_INVALID, fmt_out, None)
      | Some c \<Rightarrow>
        if \<not> eaf_format_valid fmt_in \<or> num_channels fmt_in \<noteq> 2 \<or> channel_mask fmt_in \<noteq> 3
        then (EAF_INVALID, fmt_out, ctx)
        else let rate = Fin (real (unat (sample_rate fmt_in)));
                 (rc, l) = eaf_biquad_lowpass rnd lm (lp c) rate (frequency_hz c);
                 c = c\<lparr>lp := l\<rparr>;
                 (rc, h) = (if rc = EAF_OK then eaf_biquad_highpass rnd lm (hp c) rate (frequency_hz c)
                            else (rc, hp c));
                 c = c\<lparr>hp := h\<rparr>
             in if rc \<noteq> EAF_OK then (rc, fmt_out, Some c)
                else let (rc, c) = cross_reset c
                     in (rc, mk_format (sample_rate fmt_in) 3 7, Some c))"

text \<open>The downward loop that spreads stereo frames to three channels in place.\<close>

definition cross_frame :: "nat \<Rightarrow> int list \<Rightarrow> int list" where
  "cross_frame j m =
     (let l = m ! (j * 2); r = m ! (j * 2 + 1)
      in m[j * 3 := l, j * 3 + 1 := r, j * 3 + 2 := i32 ((l + r) sdiv 2)])"

definition cross_expand :: "nat \<Rightarrow> int list \<Rightarrow> int list" where
  "cross_expand n m = fold cross_frame (rev [0..<n]) m"

definition cross_high :: "eaf_biquad_coeff_t \<Rightarrow> nat \<Rightarrow> nat \<Rightarrow> nat \<Rightarrow>
   int list \<times> eaf_biquad_state_t list \<times> eaf_biquad_state_t list list \<Rightarrow>
   int list \<times> eaf_biquad_state_t list \<times> eaf_biquad_state_t list list" where
  "cross_high c i stage ch = (\<lambda>(m, lo, hi).
     let (y, s') = eaf_biquad_tick c (hi ! ch ! stage) (m ! (i * 3 + ch))
     in (m[i * 3 + ch := y], lo, hi[ch := (hi ! ch)[stage := s']]))"

definition cross_low :: "eaf_biquad_coeff_t \<Rightarrow> nat \<Rightarrow> nat \<Rightarrow>
   int list \<times> eaf_biquad_state_t list \<times> eaf_biquad_state_t list list \<Rightarrow>
   int list \<times> eaf_biquad_state_t list \<times> eaf_biquad_state_t list list" where
  "cross_low c i stage = (\<lambda>(m, lo, hi).
     let (y, s') = eaf_biquad_tick c (lo ! stage) (m ! (i * 3 + 2))
     in (m[i * 3 + 2 := y], lo[stage := s'], hi))"

text \<open>One frame: two filter stages, in each the two mains and then the bass.\<close>

definition cross_step where
  "cross_step l h i = fold (\<lambda>stage. cross_low l i stage \<circ> fold (cross_high h i stage) [0..<2]) [0..<2]"

definition cross_process ::
  "eaf_crossover_2_1_ctx_t \<Rightarrow> eaf_buffer_t \<Rightarrow> eaf_result_t \<times> eaf_crossover_2_1_ctx_t \<times> eaf_buffer_t" where
  "cross_process c b =
     (if \<not> valid_buffer b \<or> num_channels (format b) \<noteq> 2 \<or> channel_mask (format b) \<noteq> 3 \<or>
         capacity_samples b div 3 < unat (frame_count b)
      then (EAF_INVALID, c, b)
      else let n = unat (frame_count b);
               (m, lo, hi) =
                 fold (cross_step (lp c) (hp c)) [0..<n] (cross_expand n (mem b), low c, high c)
           in (EAF_OK, c\<lparr>low := lo, high := hi\<rparr>,
               b\<lparr>mem := m, format := (format b)\<lparr>num_channels := 3, channel_mask := 7\<rparr>,
                 flags := flags b AND NOT EAF_FRAME_SILENCE\<rparr>))"

section \<open>In-place loops\<close>

lemma upt_nested: "[0..<n * C] = concat (map (\<lambda>i. map (\<lambda>c. i * C + c) [0..<C]) [0..<n])"
proof (induction n)
  case (Suc n)
  have "[0..<Suc n * C] = [0..<n * C] @ [n * C..<n * C + C]"
    using upt_add_eq_append [of 0 "n * C" C] by (simp add: add.commute)
  also have "[n * C..<n * C + C] = map (\<lambda>c. n * C + c) [0..<C]"
    using map_add_upt [of "n * C" C] by (simp add: add.commute)
  finally show ?case using Suc by simp
qed simp

lemma fold_concat: "fold f (concat xss) = fold (fold f) xss"
  by (induction xss) (auto simp: fun_eq_iff)

lemma fold_nested:
  "fold (\<lambda>i. fold (\<lambda>c. h (i * C + c)) [0..<C]) [0..<n] m = fold h [0..<n * C] m"
  by (simp add: upt_nested fold_concat fold_map comp_def)

lemma fold_update_map:
  "k \<le> length m \<Longrightarrow> fold (\<lambda>j m. m[j := g j (m ! j)]) [0..<k] m = map (\<lambda>j. g j (m ! j)) [0..<k] @ drop k m"
proof (induction k)
  case (Suc k)
  then have k: "k < length m" by simp
  then have "drop k m = m ! k # drop (Suc k) m" by (simp add: Cons_nth_drop_Suc)
  with Suc k show ?case by (simp add: nth_append list_update_append)
qed simp

lemma mod_channel: "c < C \<Longrightarrow> (i * C + c) mod C = (c::nat)"
  by simp

lemma fold_in_place:
  assumes "n * C \<le> length m"
  shows "fold (\<lambda>i. fold (\<lambda>c m. m[i * C + c := f c (m ! (i * C + c))]) [0..<C]) [0..<n] m =
    map (\<lambda>j. f (j mod C) (m ! j)) [0..<n * C] @ drop (n * C) m"
proof -
  let ?h = "\<lambda>j m. m[j := f (j mod C) (m ! j)]"
  have "fold (\<lambda>c m. m[i * C + c := f c (m ! (i * C + c))]) [0..<C] =
      fold (\<lambda>c. ?h (i * C + c)) [0..<C]" for i
    by (rule ext, rule fold_cong) (auto simp: fun_eq_iff)
  then show ?thesis
    using fold_nested [of ?h C n m] fold_update_map [OF assms, of "\<lambda>j. f (j mod C)"] by simp
qed

lemma valid_buffer_fits:
  assumes "valid_buffer b"
  shows "unat (frame_count b) * channels (format b) \<le> capacity_samples b" "0 < channels (format b)"
    "channels (format b) \<le> 4"
  using assms format_valid_channels [of "format b"]
  by (auto simp: valid_buffer_def less_eq_div_iff_mult_less_eq)

lemma volume_process_map:
  assumes "valid_buffer b" and "length (mem b) = capacity_samples b"
  defines "C \<equiv> channels (format b)" and "n \<equiv> unat (frame_count b)"
  shows "volume_process v b = (EAF_OK, b\<lparr>mem :=
    map (\<lambda>j. eaf_q31_multiply (mem b ! j) (gain v ! (j mod C))) [0..<n * C] @ drop (n * C) (mem b)\<rparr>)"
  using assms(1) fold_in_place [of n C "mem b" "\<lambda>ch x. eaf_q31_multiply x (gain v ! ch)"]
    valid_buffer_fits(1) [OF assms(1)] assms(2)
  by (simp add: volume_process_def Let_def C_def n_def)

section \<open>Filter banks\<close>

text \<open>
  The specification: one channel is a stream of samples through a cascade of biquads.
\<close>

fun cascade :: "eaf_biquad_coeff_t list \<Rightarrow> eaf_biquad_state_t list \<Rightarrow> int \<Rightarrow> int \<times> eaf_biquad_state_t list" where
  "cascade (c # cs) (s # ss) x =
     (let (y, s') = eaf_biquad_tick c s x; (z, ss') = cascade cs ss y in (z, s' # ss'))"
| "cascade cs ss x = (x, ss)"

fun run_cascade ::
  "eaf_biquad_coeff_t list \<Rightarrow> eaf_biquad_state_t list \<Rightarrow> int list \<Rightarrow> int list \<times> eaf_biquad_state_t list" where
  "run_cascade cs ss [] = ([], ss)"
| "run_cascade cs ss (x # xs) =
     (let (y, ss1) = cascade cs ss x; (ys, ss2) = run_cascade cs ss1 xs in (y # ys, ss2))"

definition channel_of :: "nat \<Rightarrow> nat \<Rightarrow> nat \<Rightarrow> int list \<Rightarrow> int list" where
  "channel_of ch C n m = map (\<lambda>i. m ! (i * C + ch)) [0..<n]"

lemma length_channel_of [simp]: "length (channel_of ch C n m) = n"
  by (simp add: channel_of_def)

text \<open>
  One filter step of an interleaved loop, and the same step seen by its channel. A loop over
  frames, channels and bands is a list of steps \<open>(i, ch, band)\<close>.
\<close>

type_synonym bank = "int list \<times> eaf_biquad_state_t list list"

definition bank_op :: "(nat \<Rightarrow> nat \<Rightarrow> eaf_biquad_coeff_t) \<Rightarrow> nat \<Rightarrow> nat \<times> nat \<times> nat \<Rightarrow> bank \<Rightarrow> bank" where
  "bank_op cf C = (\<lambda>(i, ch, band) (m, st).
     let (y, s') = eaf_biquad_tick (cf ch band) (st ! ch ! band) (m ! (i * C + ch))
     in (m[i * C + ch := y], st[ch := (st ! ch)[band := s']]))"

definition chan_op :: "(nat \<Rightarrow> eaf_biquad_coeff_t) \<Rightarrow> nat \<times> nat \<Rightarrow>
    int list \<times> eaf_biquad_state_t list \<Rightarrow> int list \<times> eaf_biquad_state_t list" where
  "chan_op cf = (\<lambda>(i, band) (xs, ss).
     let (y, s') = eaf_biquad_tick (cf band) (ss ! band) (xs ! i) in (xs[i := y], ss[band := s']))"

definition project :: "nat \<Rightarrow> nat \<Rightarrow> nat \<Rightarrow> bank \<Rightarrow> int list \<times> eaf_biquad_state_t list" where
  "project ch C n = (\<lambda>(m, st). (channel_of ch C n m, st ! ch))"

definition bank_ok :: "nat \<Rightarrow> nat \<Rightarrow> bank \<Rightarrow> bool" where
  "bank_ok C n = (\<lambda>(m, st). n * C \<le> length m \<and> C \<le> length st)"

lemma slot_inj: "ch < C \<Longrightarrow> ch' < C \<Longrightarrow> i * C + ch = j * C + ch' \<longleftrightarrow> i = j \<and> ch = (ch'::nat)"
  by (metis add_right_cancel mod_channel mult_cancel2 not_less_zero)

lemma channel_of_update:
  assumes "n * C \<le> length m" and "i < n" and "ch < C" and "ch' < C"
  shows "channel_of ch' C n (m[i * C + ch := y]) =
    (if ch' = ch then (channel_of ch C n m)[i := y] else channel_of ch' C n m)"
proof -
  have b: "j * C + ch' < length m" if "j < n" for j
    using slot_less [OF that assms(4)] assms(1) by linarith
  show ?thesis
  proof (rule nth_equalityI)
    fix j assume "j < length (channel_of ch' C n (m[i * C + ch := y]))"
    then have j: "j < n" by simp
    have "i * C + ch = j * C + ch' \<longleftrightarrow> i = j \<and> ch = ch'" by (rule slot_inj [OF assms(3,4)])
    then show "channel_of ch' C n (m[i * C + ch := y]) ! j =
        (if ch' = ch then (channel_of ch C n m)[i := y] else channel_of ch' C n m) ! j"
      using j b [OF j] by (auto simp: channel_of_def nth_list_update)
  qed simp
qed

lemma bank_op_project:
  assumes "bank_ok C n s" and "i < n" and "ch < C" and "ch' < C"
  shows "bank_ok C n (bank_op cf C (i, ch, band) s)"
    and "project ch' C n (bank_op cf C (i, ch, band) s) =
      (if ch' = ch then chan_op (cf ch) (i, band) (project ch C n s) else project ch' C n s)"
proof -
  obtain m st where s: "s = (m, st)" by fastforce
  obtain y s' where t: "eaf_biquad_tick (cf ch band) (st ! ch ! band) (m ! (i * C + ch)) = (y, s')" by fastforce
  have len: "n * C \<le> length m" "C \<le> length st" using assms(1) by (simp_all add: bank_ok_def s)
  show "bank_ok C n (bank_op cf C (i, ch, band) s)"
    using len by (simp add: bank_ok_def bank_op_def s t)
  have x: "channel_of ch C n m ! i = m ! (i * C + ch)" using assms(2) by (simp add: channel_of_def)
  show "project ch' C n (bank_op cf C (i, ch, band) s) =
      (if ch' = ch then chan_op (cf ch) (i, band) (project ch C n s) else project ch' C n s)"
    using len assms(2-4) channel_of_update [OF len(1) assms(2-4)]
    by (auto simp: project_def bank_op_def chan_op_def s t x)
qed

definition ops_of :: "nat \<Rightarrow> (nat \<times> nat \<times> nat) list \<Rightarrow> (nat \<times> nat) list" where
  "ops_of ch ops = map (\<lambda>(i, c, band). (i, band)) (filter (\<lambda>(i, c, band). c = ch) ops)"

text \<open>Each channel sees its own steps, in the order of the loop, and nothing else.\<close>

lemma fold_bank_project:
  assumes "bank_ok C n s" and "\<forall>(i, ch, band) \<in> set ops. i < n \<and> ch < C" and "ch' < C"
  shows "bank_ok C n (fold (bank_op cf C) ops s) \<and>
    project ch' C n (fold (bank_op cf C) ops s) = fold (chan_op (cf ch')) (ops_of ch' ops) (project ch' C n s)"
  using assms(1,2)
proof (induction ops arbitrary: s)
  case Nil
  then show ?case by (simp add: ops_of_def)
next
  case (Cons p ops)
  obtain i ch band where p: "p = (i, ch, band)" by (metis prod_cases3)
  have b: "i < n" "ch < C" using Cons.prems(2) p by auto
  note B = bank_op_project [OF Cons.prems(1) b assms(3), of cf band]
  show ?case using Cons.IH [OF B(1)] Cons.prems(2) B(2)
    by (auto simp: p ops_of_def)
qed

text \<open>A channel's steps, frame by frame, are its run through the cascade.\<close>

lemma length_cascade [simp]: "length (snd (cascade cs ss x)) = length ss"
  by (induction cs ss x rule: cascade.induct) (auto simp: Let_def split: prod.splits)

lemma cascade_snoc:
  assumes "length cs < length ss"
  shows "cascade (cs @ [c]) ss x =
    (let (y, ss') = cascade cs ss x; (z, s') = eaf_biquad_tick c (ss' ! length cs) y
     in (z, ss'[length cs := s']))"
  using assms
proof (induction cs ss x rule: cascade.induct)
  case (1 c1 cs s ss x)
  then show ?case by (auto simp: Let_def split: prod.splits)
qed (auto simp: Let_def neq_Nil_conv split: prod.splits)

lemma fold_chan_bands:
  assumes "i < length xs" and "k \<le> nb" and "nb \<le> length ss"
  shows "fold (\<lambda>b. chan_op cf (i, b)) [0..<k] (xs, ss) =
    (let (y, ss') = cascade (map cf [0..<k]) ss (xs ! i) in (xs[i := y], ss'))"
  using assms(2)
proof (induction k)
  case (Suc k)
  obtain y ss' where c: "cascade (map cf [0..<k]) ss (xs ! i) = (y, ss')" by fastforce
  have "k < length ss" using Suc.prems assms(3) by simp
  moreover have "length ss' = length ss" using length_cascade [of "map cf [0..<k]" ss "xs ! i"] c by simp
  ultimately show ?case using Suc c assms(1) cascade_snoc [of "map cf [0..<k]" ss "cf k" "xs ! i"]
    by (simp add: chan_op_def Let_def split: prod.splits)
qed simp

lemma run_cascade_snoc:
  "run_cascade cs ss (xs @ [x]) =
    (let (ys, ss1) = run_cascade cs ss xs; (y, ss2) = cascade cs ss1 x in (ys @ [y], ss2))"
  by (induction xs arbitrary: ss) (auto simp: Let_def split: prod.splits)

lemma length_run_cascade:
  "run_cascade cs ss xs = (ys, ss') \<Longrightarrow> length ys = length xs \<and> length ss' = length ss"
proof (induction xs arbitrary: ss ys)
  case (Cons x xs)
  obtain y ss1 where c: "cascade cs ss x = (y, ss1)" by fastforce
  obtain zs where r: "run_cascade cs ss1 xs = (zs, ss')" and ys: "ys = y # zs"
    using Cons.prems c by (auto simp: Let_def split: prod.splits)
  show ?case using Cons.IH [OF r] length_cascade [of cs ss x] by (simp add: c ys)
qed simp

lemma fold_chan_frames:
  assumes "n \<le> length xs" and "nb \<le> length ss"
  shows "fold (\<lambda>i. fold (\<lambda>b. chan_op cf (i, b)) [0..<nb]) [0..<n] (xs, ss) =
    (let (ys, ss') = run_cascade (map cf [0..<nb]) ss (take n xs) in (ys @ drop n xs, ss'))"
  using assms(1)
proof (induction n)
  case (Suc n)
  let ?cs = "map cf [0..<nb]"
  obtain ys ss1 where r: "run_cascade ?cs ss (take n xs) = (ys, ss1)" by fastforce
  have len: "length ys = n" "length ss1 = length ss" using length_run_cascade [OF r] Suc.prems by simp_all
  obtain y ss2 where c: "cascade ?cs ss1 (xs ! n) = (y, ss2)" by fastforce
  have d: "drop n xs = xs ! n # drop (Suc n) xs" using Suc.prems by (simp add: Cons_nth_drop_Suc)
  have "fold (\<lambda>i. fold (\<lambda>b. chan_op cf (i, b)) [0..<nb]) [0..<Suc n] (xs, ss) =
      fold (\<lambda>b. chan_op cf (n, b)) [0..<nb] (ys @ drop n xs, ss1)"
    using Suc r by simp
  also have "\<dots> = (ys @ y # drop (Suc n) xs, ss2)"
    using fold_chan_bands [of n "ys @ drop n xs" nb nb ss1 cf] Suc.prems assms(2) len c
    by (simp add: d nth_append list_update_append)
  finally show ?case using r c Suc.prems by (simp add: take_Suc_conv_app_nth run_cascade_snoc)
qed simp

text \<open>The steps of the equaliser loop and of the crossover loop.\<close>

definition eq_ops :: "nat \<Rightarrow> nat \<Rightarrow> nat \<Rightarrow> (nat \<times> nat \<times> nat) list" where
  "eq_ops nb C n =
     concat (map (\<lambda>i. concat (map (\<lambda>ch. map (\<lambda>band. (i, ch, band)) [0..<nb]) [0..<C])) [0..<n])"

definition cross_ops :: "nat \<Rightarrow> (nat \<times> nat \<times> nat) list" where
  "cross_ops n =
     concat (map (\<lambda>i. [(i, 0, 0), (i, 1, 0), (i, 2, 0), (i, 0, 1), (i, 1, 1), (i, 2, 1)]) [0..<n])"

definition frame_ops :: "nat \<Rightarrow> nat \<Rightarrow> (nat \<times> nat) list" where
  "frame_ops nb n = concat (map (\<lambda>i. map (\<lambda>band. (i, band)) [0..<nb]) [0..<n])"

lemma ops_of_append [simp]: "ops_of ch (xs @ ys) = ops_of ch xs @ ops_of ch ys"
  by (simp add: ops_of_def)

lemma ops_of_channel: "ops_of ch' (map (\<lambda>band. (i, ch, band)) bs) = (if ch' = ch then map (\<lambda>band. (i, band)) bs else [])"
  by (auto simp: ops_of_def filter_map comp_def)

lemma ops_of_frame:
  "ops_of ch' (concat (map (\<lambda>ch. map (\<lambda>band. (i, ch, band)) bs) [0..<C])) =
    (if ch' < C then map (\<lambda>band. (i, band)) bs else [])"
proof (induction C)
  case 0
  then show ?case by (simp add: ops_of_def)
qed (auto simp: ops_of_channel)

lemma ops_of_eq: "ch < C \<Longrightarrow> ops_of ch (eq_ops nb C n) = frame_ops nb n"
  by (induction n) (simp_all add: eq_ops_def frame_ops_def ops_of_frame, simp add: ops_of_def)

lemma ops_of_cross: "ch < 3 \<Longrightarrow> ops_of ch (cross_ops n) = frame_ops 2 n"
proof (induction n)
  case (Suc n)
  then show ?case
    by (simp add: cross_ops_def frame_ops_def) (auto simp: ops_of_def numeral_2_eq_2 less_Suc_eq numeral_3_eq_3)
qed (simp add: cross_ops_def frame_ops_def ops_of_def)

lemma fold_frame_ops:
  "fold (chan_op cf) (frame_ops nb n) = fold (\<lambda>i. fold (\<lambda>b. chan_op cf (i, b)) [0..<nb]) [0..<n]"
  by (simp add: frame_ops_def fold_concat fold_map comp_def)

lemma bank_channels:
  assumes "bank_ok C n s" and "\<forall>(i, ch, band) \<in> set ops. i < n \<and> ch < C" and "ch < C"
    and "ops_of ch ops = frame_ops nb n" and "nb \<le> length (snd s ! ch)"
    and "fold (bank_op cf C) ops s = (m', st')"
  shows "(channel_of ch C n m', st' ! ch) =
    run_cascade (map (cf ch) [0..<nb]) (snd s ! ch) (channel_of ch C n (fst s))"
proof -
  obtain m st where s: "s = (m, st)" by fastforce
  have "project ch C n (m', st') = fold (chan_op (cf ch)) (frame_ops nb n) (project ch C n s)"
    using fold_bank_project [OF assms(1-3), of cf] assms(4,6) by simp
  also have "\<dots> = run_cascade (map (cf ch) [0..<nb]) (st ! ch) (channel_of ch C n m)"
    using fold_chan_frames [of n "channel_of ch C n m" nb "st ! ch" "cf ch"] assms(5)
    by (auto simp: fold_frame_ops project_def s Let_def split: prod.splits)
  finally show ?thesis by (simp add: project_def s)
qed

lemma eq_loop_ops: "eq_loop cs nb C n = fold (bank_op (\<lambda>ch band. cs ! band) C) (eq_ops nb C n)"
proof -
  have "eq_band cs (i * C + ch) ch band = bank_op (\<lambda>ch band. cs ! band) C (i, ch, band)" for i ch band
    by (simp add: eq_band_def bank_op_def fun_eq_iff)
  then have "eq_band cs (i * C + ch) ch = (\<lambda>band. bank_op (\<lambda>ch band. cs ! band) C (i, ch, band))" for i ch
    by (simp add: fun_eq_iff)
  then show ?thesis by (simp add: eq_loop_def eq_ops_def fold_concat fold_map comp_def)
qed

lemma eq_ops_range: "\<forall>(i, ch, band) \<in> set (eq_ops nb C n). i < n \<and> ch < C"
  by (auto simp: eq_ops_def)

lemma eq_process_channels:
  assumes "valid_buffer b" and "length (mem b) = capacity_samples b" and "length (eq_state e) = 4"
    and "bands e \<le> length (coeff e)" and "\<forall>ss \<in> set (eq_state e). bands e \<le> length ss"
    and "eq_process e b = (rc, e', b')" and "ch < channels (format b)"
  defines "C \<equiv> channels (format b)" and "n \<equiv> unat (frame_count b)"
  shows "rc = EAF_OK \<and> (channel_of ch C n (mem b'), eq_state e' ! ch) =
    run_cascade (take (bands e) (coeff e)) (eq_state e ! ch) (channel_of ch C n (mem b))"
proof -
  obtain m' st' where l: "eq_loop (coeff e) (bands e) C n (mem b, eq_state e) = (m', st')" by fastforce
  have r: "rc = EAF_OK" "e' = e\<lparr>eq_state := st'\<rparr>" "mem b' = m'"
    using assms(1,6) l by (auto simp: eq_process_def C_def n_def)
  note V = valid_buffer_fits [OF assms(1)]
  have ok: "bank_ok C n (mem b, eq_state e)"
    using V assms(2,3) by (simp add: bank_ok_def C_def n_def)
  have st: "bands e \<le> length (snd (mem b, eq_state e) ! ch)"
    using assms(3,5,7) V(3) by simp
  have map: "map (\<lambda>b. coeff e ! b) [0..<bands e] = take (bands e) (coeff e)"
    using assms(4) by (simp add: list_eq_iff_nth_eq)
  show ?thesis
    using bank_channels [OF ok eq_ops_range _ ops_of_eq st l [unfolded eq_loop_ops]] assms(7) r
    by (simp add: C_def [symmetric] map)
qed

section \<open>The crossover\<close>

definition stereo_to_2_1 :: "int list \<Rightarrow> nat \<Rightarrow> int list" where
  "stereo_to_2_1 m j = [m ! (j * 2), m ! (j * 2 + 1), i32 ((m ! (j * 2) + m ! (j * 2 + 1)) sdiv 2)]"

text \<open>The bass channel is the mean of two 32-bit samples and fits in 32 bits.\<close>

lemma mean_range:
  assumes "is_i32 l" and "is_i32 r"
  shows "i32 ((l + r) sdiv 2) = (l + r) sdiv 2"
proof -
  have "\<bar>l + r\<bar> \<le> 2 * 2147483648" using assms by (auto simp: is_i32_def)
  then have "\<bar>(l + r) sdiv 2\<bar> \<le> 2147483648" by (rule abs_sdiv_bound [rotated]) simp
  moreover have "(l + r) sdiv 2 \<le> 2147483647"
  proof (cases "0 \<le> l + r")
    case True
    then have "(l + r) sdiv 2 = (l + r) div 2" by (auto simp: signed_divide_int_def sgn_if)
    moreover have "l + r \<le> 4294967294" using assms by (simp add: is_i32_def)
    ultimately show ?thesis by simp
  next
    case False
    then show ?thesis using sdiv_sign(2) [of 2 "l + r"] by simp
  qed
  ultimately show ?thesis by (intro i32_id) (simp add: is_i32_def)
qed

lemma cross_expand_eq:
  assumes "n * 3 \<le> length m"
  shows "cross_expand n m = concat (map (stereo_to_2_1 m) [0..<n]) @ drop (n * 3) m"
  using assms
proof (induction n arbitrary: m)
  case 0
  show ?case by (simp add: cross_expand_def)
next
  case (Suc n)
  let ?m = "cross_frame n m"
  have len: "length ?m = length m" by (simp add: cross_frame_def Let_def)
  have low: "?m ! k = m ! k" if "k < n * 3" for k using that by (simp add: cross_frame_def Let_def)
  have tail: "drop (n * 3) ?m = stereo_to_2_1 m n @ drop (Suc n * 3) m"
  proof -
    have "drop (n * 3) m = m ! (n * 3) # m ! (n * 3 + 1) # m ! (n * 3 + 2) # drop (Suc n * 3) m"
      using Suc.prems by (simp add: Cons_nth_drop_Suc numeral_3_eq_3)
    then show ?thesis
      by (simp add: cross_frame_def Let_def drop_update_swap stereo_to_2_1_def del: drop_drop)
  qed
  have "stereo_to_2_1 ?m j = stereo_to_2_1 m j" if "j < n" for j
    using that low [of "j * 2"] low [of "j * 2 + 1"] by (simp add: stereo_to_2_1_def)
  then have "concat (map (stereo_to_2_1 ?m) [0..<n]) = concat (map (stereo_to_2_1 m) [0..<n])"
    by (intro arg_cong [where f = concat] map_cong) auto
  moreover have "cross_expand (Suc n) m = cross_expand n ?m" by (simp add: cross_expand_def)
  ultimately show ?case using Suc.IH [of ?m] Suc.prems len tail by simp
qed

definition cross_bank :: "int list \<times> eaf_biquad_state_t list \<times> eaf_biquad_state_t list list \<Rightarrow> bank" where
  "cross_bank = (\<lambda>(m, lo, hi). (m, hi @ [lo]))"

definition cross_cf :: "eaf_biquad_coeff_t \<Rightarrow> eaf_biquad_coeff_t \<Rightarrow> nat \<Rightarrow> nat \<Rightarrow> eaf_biquad_coeff_t" where
  "cross_cf l h ch band = (if ch < 2 then h else l)"

abbreviation two_mains where "two_mains s \<equiv> length (snd (snd s)) = 2"

lemma cross_high_bank:
  assumes "two_mains s" and "ch < 2"
  shows "two_mains (cross_high h i stage ch s)"
    and "cross_bank (cross_high h i stage ch s) = bank_op (cross_cf l h) 3 (i, ch, stage) (cross_bank s)"
  using assms
  by (auto simp: cross_high_def cross_bank_def bank_op_def cross_cf_def Let_def nth_append
      list_update_append split: prod.splits)

lemma cross_low_bank:
  assumes "two_mains s"
  shows "two_mains (cross_low l i stage s)"
    and "cross_bank (cross_low l i stage s) = bank_op (cross_cf l h) 3 (i, 2, stage) (cross_bank s)"
  using assms
  by (auto simp: cross_low_def cross_bank_def bank_op_def cross_cf_def Let_def nth_append
      list_update_append split: prod.splits)

lemma cross_step_bank:
  assumes "two_mains s"
  shows "two_mains (cross_step l h i s) \<and> cross_bank (cross_step l h i s) =
    fold (bank_op (cross_cf l h) 3) [(i, 0, 0), (i, 1, 0), (i, 2, 0), (i, 0, 1), (i, 1, 1), (i, 2, 1)] (cross_bank s)"
  using assms by (simp add: cross_step_def numeral_2_eq_2 cross_high_bank(1) cross_low_bank(1)
      cross_high_bank(2) [where l = l] cross_low_bank(2) [where h = h])

lemma cross_frames_bank:
  "two_mains s \<Longrightarrow> two_mains (fold (cross_step l h) is s) \<and> cross_bank (fold (cross_step l h) is s) =
    fold (bank_op (cross_cf l h) 3)
      (concat (map (\<lambda>i. [(i, 0, 0), (i, 1, 0), (i, 2, 0), (i, 0, 1), (i, 1, 1), (i, 2, 1)]) is)) (cross_bank s)"
  by (induction "is" arbitrary: s) (simp_all add: cross_step_bank)

lemma cross_ops_range: "\<forall>(i, ch, band) \<in> set (cross_ops n). i < n \<and> ch < 3"
  by (auto simp: cross_ops_def)

lemma channel_of_concat:
  assumes "\<And>i. i < n \<Longrightarrow> length (f i) = C" and "ch < C"
  shows "channel_of ch C n (concat (map f [0..<n]) @ rest) = map (\<lambda>i. f i ! ch) [0..<n]"
proof -
  have "(concat (map f [0..<k]) @ rest') ! (i * C + ch) = f i ! ch" if "i < k" "k \<le> n" for i k rest'
    using that
  proof (induction k arbitrary: rest')
    case (Suc k)
    have len: "length (concat (map f [0..<k])) = k * C"
      using Suc.prems(2) assms(1) by (simp add: length_concat comp_def sum_list_triv interv_sum_list_conv_sum_set_nat)
    show ?case
    proof (cases "i < k")
      case True
      with Suc.IH [of "f k @ rest'"] Suc.prems show ?thesis by simp
    next
      case False
      with Suc.prems have "i = k" by simp
      with len assms Suc.prems show ?thesis by (simp add: nth_append)
    qed
  qed simp
  then show ?thesis by (simp add: channel_of_def)
qed

lemma cross_process_channels:
  assumes "valid_buffer b" and "num_channels (format b) = 2" and "channel_mask (format b) = 3"
    and "3 * unat (frame_count b) \<le> capacity_samples b" and "length (mem b) = capacity_samples b"
    and "length (low c) = 2" and "length (high c) = 2" and "\<forall>ss \<in> set (high c). length ss = 2"
    and "cross_process c b = (rc, c', b')" and "ch < 3"
  defines "n \<equiv> unat (frame_count b)"
  shows "rc = EAF_OK \<and> (channel_of ch 3 n (mem b'), (high c' @ [low c']) ! ch) =
    run_cascade (map (cross_cf (lp c) (hp c) ch) [0..<2]) ((high c @ [low c]) ! ch)
      (map (\<lambda>i. stereo_to_2_1 (mem b) i ! ch) [0..<n])"
proof -
  let ?m = "cross_expand n (mem b)"
  obtain m' lo' hi' where f: "fold (cross_step (lp c) (hp c)) [0..<n] (?m, low c, high c) = (m', lo', hi')"
    by (metis prod_cases3)
  have "n \<le> capacity_samples b div 3" using assms(4) by (simp add: n_def less_eq_div_iff_mult_less_eq)
  then have r: "rc = EAF_OK" "low c' = lo'" "high c' = hi'" "mem b' = m'"
    using assms(1-3,9) f by (auto simp: cross_process_def n_def Let_def)
  have fit: "n * 3 \<le> length (mem b)" using assms(4,5) by (simp add: n_def)
  note E = cross_expand_eq [OF fit]
  have len: "length ?m = length (mem b)"
  proof -
    have "length (concat (map (stereo_to_2_1 (mem b)) [0..<k])) = k * 3" for k
      by (induction k) (simp_all add: stereo_to_2_1_def)
    then show ?thesis using fit by (simp add: E)
  qed
  have ok: "bank_ok 3 n (?m, high c @ [low c])" using fit len assms(7) by (simp add: bank_ok_def)
  have st: "2 \<le> length (snd (?m, high c @ [low c]) ! ch)"
    using assms(6-8,10) by (simp add: nth_append)
  have "fold (bank_op (cross_cf (lp c) (hp c)) 3) (cross_ops n) (?m, high c @ [low c]) = (m', hi' @ [lo'])"
    using cross_frames_bank [of "(?m, low c, high c)" "lp c" "hp c" "[0..<n]"] assms(7) f
    by (simp add: cross_bank_def cross_ops_def)
  from bank_channels [OF ok cross_ops_range assms(10) ops_of_cross [OF assms(10)] st this]
  have "(channel_of ch 3 n m', (hi' @ [lo']) ! ch) =
    run_cascade (map (cross_cf (lp c) (hp c) ch) [0..<2]) ((high c @ [low c]) ! ch) (channel_of ch 3 n ?m)"
    by simp
  moreover have "channel_of ch 3 n ?m = map (\<lambda>i. stereo_to_2_1 (mem b) i ! ch) [0..<n]"
    unfolding E using assms(10) by (intro channel_of_concat) (simp_all add: stereo_to_2_1_def)
  ultimately show ?thesis using r by simp
qed

section \<open>Properties\<close>

text \<open>
  C32: the biquad never overflows. With 32-bit coefficients, history and input, every partial
  sum of the accumulator fits in 64 bits, the output is a 32-bit sample and the new
  history is again 32-bit, so the argument applies to every later tick.
\<close>

theorem biquad_no_overflow:
  assumes "coeff_ok c" and "biquad_ok s" and "is_i32 x" and "eaf_biquad_tick c s x = (y, s')"
  shows "is_i64 ((b0 c * x) sdiv 4 + (b1 c * x1 s) sdiv 4) \<and>
    is_i64 ((b0 c * x) sdiv 4 + (b1 c * x1 s) sdiv 4 + (b2 c * x2 s) sdiv 4) \<and>
    is_i64 ((b0 c * x) sdiv 4 + (b1 c * x1 s) sdiv 4 + (b2 c * x2 s) sdiv 4 - (a1 c * y1 s) sdiv 4) \<and>
    is_i64 (biquad_acc c s x) \<and> is_i32 y \<and> biquad_ok s' \<and> x1 s' = x \<and> x2 s' = x1 s \<and> y1 s' = y \<and> y2 s' = y1 s"
  using biquad_acc_prefixes [OF assms(1-3)] biquad_tick_ok [OF assms(2-4)] assms(4)
  by (auto simp: eaf_biquad_tick_def Let_def)

theorem biquad_no_overflow_witness:
  "\<exists>y s'. eaf_biquad_tick \<lparr>b0 = -2147483648, b1 = -2147483648, b2 = -2147483648, a1 = 2147483647, a2 = 2147483647\<rparr>
      \<lparr>x1 = -2147483648, x2 = -2147483648, y1 = -2147483648, y2 = -2147483648\<rparr> (-2147483648) = (y, s') \<and>
     is_i32 y \<and> y = 2147483647"
  using biquad_no_overflow [of "\<lparr>b0 = -2147483648, b1 = -2147483648, b2 = -2147483648, a1 = 2147483647, a2 = 2147483647\<rparr>"
      "\<lparr>x1 = -2147483648, x2 = -2147483648, y1 = -2147483648, y2 = -2147483648\<rparr>" "-2147483648"]
  by (simp add: coeff_ok_def biquad_ok_def is_i32_def eaf_biquad_tick_def biquad_acc_def Let_def sat_def
      signed_divide_int_def)

text \<open>
  The volume node succeeds on every valid buffer, scales each sample by the gain of its
  channel, touches nothing beyond the frames, and with non-negative gains never
  increases a magnitude or leaves the 32-bit range; the gain \<open>INT32_MAX\<close> is exact unity.
\<close>

theorem volume_scales:
  assumes "valid_buffer b" and "length (mem b) = capacity_samples b" and "list_all is_i32 (mem b)"
    and "length (gain v) = 4" and "\<forall>g \<in> set (gain v). 0 \<le> g \<and> is_i32 g"
    and "volume_process v b = (rc, b')"
  defines "C \<equiv> channels (format b)" and "n \<equiv> unat (frame_count b)"
  shows "rc = EAF_OK \<and> drop (n * C) (mem b') = drop (n * C) (mem b) \<and>
    (\<forall>j < n * C. let x = mem b ! j; g = gain v ! (j mod C); y = mem b' ! j
       in y = (if g = INT32_MAX then x else (x * g) sdiv 2147483648) \<and> is_i32 y \<and> \<bar>y\<bar> \<le> \<bar>x\<bar>)"
proof -
  note V = valid_buffer_fits [OF assms(1)]
  note M = volume_process_map [OF assms(1,2), of v]
  have fits: "n * C \<le> length (mem b)" using V assms(2) by (simp add: C_def n_def)
  have b': "mem b' = map (\<lambda>j. eaf_q31_multiply (mem b ! j) (gain v ! (j mod C))) [0..<n * C] @ drop (n * C) (mem b)"
    and rc: "rc = EAF_OK"
    using M assms(6) by (auto simp: C_def n_def)
  have "let x = mem b ! j; g = gain v ! (j mod C); y = mem b' ! j
       in y = (if g = INT32_MAX then x else (x * g) sdiv 2147483648) \<and> is_i32 y \<and> \<bar>y\<bar> \<le> \<bar>x\<bar>"
    if j: "j < n * C" for j
  proof -
    have "j mod C < 4" using V(2,3) mod_less_divisor [of C j] unfolding C_def by linarith
    then have g: "0 \<le> gain v ! (j mod C)" "is_i32 (gain v ! (j mod C))" using assms(4,5) by auto
    have x: "is_i32 (mem b ! j)" using assms(3) j fits by (auto simp: list_all_length)
    have y: "mem b' ! j = eaf_q31_multiply (mem b ! j) (gain v ! (j mod C))"
      using j by (simp add: b' nth_append)
    show ?thesis
      using q31_exact [OF x g(2,1)] q31_range [OF x, of "gain v ! (j mod C)"] y
      by (auto simp: Let_def eaf_q31_multiply_def)
  qed
  moreover have "drop (n * C) (mem b') = drop (n * C) (mem b)" by (simp add: b')
  ultimately show ?thesis using rc by blast
qed

definition example_stereo :: eaf_buffer_t where
  "example_stereo = \<lparr>samples = 4096, mem = [1000, 2000, 3000, 4000, 5000, 6000, 7000], frame_count = 2,
     capacity_frames = 2, capacity_samples = 7, format = mk_format 48000 2 3, flags = 0\<rparr>"

lemma example_stereo_valid: "valid_buffer example_stereo"
  by code_simp

theorem volume_scales_witness:
  "\<exists>rc b'. volume_process \<lparr>gain = [1073741824, 2147483647, 0, 0]\<rparr> example_stereo = (rc, b') \<and> rc = EAF_OK \<and>
     mem b' ! 2 = 1500 \<and> mem b' ! 3 = 4000"
proof -
  obtain rc b' where p: "volume_process \<lparr>gain = [1073741824, 2147483647, 0, 0]\<rparr> example_stereo = (rc, b')" by fastforce
  from volume_scales [OF example_stereo_valid _ _ _ _ p]
  have "rc = EAF_OK \<and> (\<forall>j<4. let x = mem example_stereo ! j; g = [1073741824, 2147483647, 0, 0] ! (j mod 2)
       in mem b' ! j = (if g = INT32_MAX then x else (x * g) sdiv 2147483648))"
    by (simp add: example_stereo_def mk_format_def is_i32_def Let_def)
  then show ?thesis using p
    by (auto simp: example_stereo_def Let_def signed_divide_int_def dest!: spec [of _ 2] spec [of _ 3])
qed

text \<open>
  C29: the equaliser filters every channel independently: on a valid buffer the interleaved
  loop leaves in each channel exactly what the cascade of its biquads produces from the
  channel's samples and history, and keeps the history of that run.
\<close>

theorem eq_filters_channels:
  assumes "valid_buffer b" and "length (mem b) = capacity_samples b" and "length (eq_state e) = 4"
    and "bands e \<le> length (coeff e)" and "\<forall>ss \<in> set (eq_state e). bands e \<le> length ss"
    and "eq_process e b = (rc, e', b')" and "ch < channels (format b)"
  shows "rc = EAF_OK \<and> (channel_of ch (channels (format b)) (unat (frame_count b)) (mem b'), eq_state e' ! ch) =
    run_cascade (take (bands e) (coeff e)) (eq_state e ! ch)
      (channel_of ch (channels (format b)) (unat (frame_count b)) (mem b))"
  using eq_process_channels [OF assms] .

definition example_eq :: eaf_eq_ctx_t where
  "example_eq = \<lparr>bands = 1, coeff = replicate 8 \<lparr>b0 = 536870912, b1 = 0, b2 = 0, a1 = 0, a2 = 0\<rparr>,
     eq_state = replicate 4 (replicate 8 zero_biquad)\<rparr>"

theorem eq_filters_channels_witness:
  "\<exists>rc e' b'. eq_process example_eq example_stereo = (rc, e', b') \<and> channel_of 1 2 2 (mem b') = [1000, 2000]"
proof -
  obtain rc e' b' where p: "eq_process example_eq example_stereo = (rc, e', b')" by (metis prod_cases3)
  have ch: "channels (format example_stereo) = 2" "unat (frame_count example_stereo) = 2"
    by (simp_all add: example_stereo_def mk_format_def)
  have "fst (run_cascade (take (bands example_eq) (coeff example_eq)) (eq_state example_eq ! 1)
      (channel_of 1 2 2 (mem example_stereo))) = [1000, 2000]"
    by code_simp
  moreover have "(channel_of 1 2 2 (mem b'), eq_state e' ! 1) =
      run_cascade (take (bands example_eq) (coeff example_eq)) (eq_state example_eq ! 1)
      (channel_of 1 2 2 (mem example_stereo))"
    using eq_filters_channels [OF example_stereo_valid _ _ _ _ p, of 1] ch
    by (simp add: example_stereo_def example_eq_def)
  ultimately have "channel_of 1 2 2 (mem b') = [1000, 2000]" by (metis fst_conv)
  with p show ?thesis by blast
qed

text \<open>
  C20: the 2.1 crossover. On a valid stereo buffer with room for three channels the in-place
  expansion loses no sample: the left and right outputs are the two-stage high-pass runs of
  the left and right inputs, and the third channel is the two-stage low-pass run of their
  mean.
\<close>

theorem crossover_splits:
  assumes "valid_buffer b" and "num_channels (format b) = 2" and "channel_mask (format b) = 3"
    and "3 * unat (frame_count b) \<le> capacity_samples b" and "length (mem b) = capacity_samples b"
    and "length (low c) = 2" and "length (high c) = 2" and "\<forall>ss \<in> set (high c). length ss = 2"
    and "list_all is_i32 (mem b)" and "cross_process c b = (rc, c', b')"
  defines "n \<equiv> unat (frame_count b)"
  shows "rc = EAF_OK \<and>
    (channel_of 0 3 n (mem b'), high c' ! 0) = run_cascade [hp c, hp c] (high c ! 0) (channel_of 0 2 n (mem b)) \<and>
    (channel_of 1 3 n (mem b'), high c' ! 1) = run_cascade [hp c, hp c] (high c ! 1) (channel_of 1 2 n (mem b)) \<and>
    (channel_of 2 3 n (mem b'), low c') = run_cascade [lp c, lp c] (low c)
       (map (\<lambda>i. (mem b ! (i * 2) + mem b ! (i * 2 + 1)) sdiv 2) [0..<n])"
proof -
  note X = cross_process_channels [OF assms(1-8,10)]
  have hl: "length (high c') = 2"
    using assms(10,7) cross_frames_bank [of "(cross_expand n (mem b), low c, high c)" "lp c" "hp c" "[0..<n]"]
    by (auto simp: cross_process_def n_def Let_def split: if_splits prod.splits)
  have upt: "[0..<2] = [0, 1::nat]" by (simp add: upt_rec)
  have i: "i * 2 + 1 < length (mem b)" if "i < n" for i
    using that assms(4,5) by (simp add: n_def)
  have mean: "map (\<lambda>i. stereo_to_2_1 (mem b) i ! 2) [0..<n] =
      map (\<lambda>i. (mem b ! (i * 2) + mem b ! (i * 2 + 1)) sdiv 2) [0..<n]"
    using assms(9) i by (auto simp: stereo_to_2_1_def list_all_length intro!: mean_range) (meson Suc_lessD)
  have main: "map (\<lambda>i. stereo_to_2_1 (mem b) i ! 0) [0..<n] = channel_of 0 2 n (mem b)"
    "map (\<lambda>i. stereo_to_2_1 (mem b) i ! 1) [0..<n] = channel_of 1 2 n (mem b)"
    by (simp_all add: stereo_to_2_1_def channel_of_def)
  show ?thesis
    using X [of 0, folded n_def, unfolded main] X [of 1, folded n_def, unfolded main]
      X [of 2, folded n_def, unfolded mean] hl assms(7)
    by (simp add: cross_cf_def upt nth_append)
qed

definition example_crossover :: eaf_crossover_2_1_ctx_t where
  "example_crossover = (let c = \<lparr>b0 = 1073741824, b1 = 0, b2 = 0, a1 = 0, a2 = 0\<rparr>
     in \<lparr>frequency_hz = Fin 100, lp = c, hp = c, low = replicate 2 zero_biquad,
         high = replicate 2 (replicate 2 zero_biquad)\<rparr>)"

theorem crossover_splits_witness:
  "\<exists>rc c' b'. cross_process example_crossover example_stereo = (rc, c', b') \<and> rc = EAF_OK \<and>
     channel_of 2 3 2 (mem b') = [1500, 3500]"
proof -
  obtain rc c' b' where p: "cross_process example_crossover example_stereo = (rc, c', b')" by (metis prod_cases3)
  have "rc = EAF_OK \<and> (channel_of 2 3 2 (mem b'), low c') =
      run_cascade [lp example_crossover, lp example_crossover] (low example_crossover)
       (map (\<lambda>i. (mem example_stereo ! (i * 2) + mem example_stereo ! (i * 2 + 1)) sdiv 2) [0..<2])"
    using crossover_splits [OF example_stereo_valid _ _ _ _ _ _ _ _ p]
    by (simp add: example_stereo_def example_crossover_def mk_format_def is_i32_def Let_def)
  moreover have "fst (run_cascade [lp example_crossover, lp example_crossover] (low example_crossover)
       (map (\<lambda>i. (mem example_stereo ! (i * 2) + mem example_stereo ! (i * 2 + 1)) sdiv 2) [0..<2])) = [1500, 3500]"
    by (simp add: example_crossover_def example_stereo_def Let_def numeral_2_eq_2 eaf_biquad_tick_def
        biquad_acc_def zero_biquad_def sat_def i32_def signed_divide_int_def)
  ultimately show ?thesis using p by (metis fst_conv)
qed

end
