(* ===== verification/Sync.thy ===== *)
theory Sync
  imports EAF_Types EAF_Float
begin

text \<open>
  \<open>core/eaf_sync.c\<close>: the bounded PI controller that turns a timing error into a clock
  correction, and the linear-interpolation resampler that applies it to a block.
\<close>

section \<open>PI controller\<close>

record eaf_sync_controller_t =
  kp :: double
  ki :: double
  limit_ppm :: double
  integral :: double
  output_ppm :: double

definition eaf_sync_controller_init :: "double \<Rightarrow> double \<Rightarrow> double \<Rightarrow> eaf_sync_controller_t" where
  "eaf_sync_controller_init p i limit =
     \<lparr>kp = p, ki = i, limit_ppm = limit, integral = Fin 0, output_ppm = Fin 0\<rparr>"

definition eaf_sync_controller_reset :: "eaf_sync_controller_t \<Rightarrow> eaf_sync_controller_t" where
  "eaf_sync_controller_reset c = c\<lparr>integral := Fin 0, output_ppm := Fin 0\<rparr>"

definition eaf_sync_controller_update ::
  "rounding \<Rightarrow> eaf_sync_controller_t \<Rightarrow> double \<Rightarrow> double \<Rightarrow> double \<times> eaf_sync_controller_t" where
  "eaf_sync_controller_update rnd c error_ms dt_s =
     (if fle dt_s (Fin 0) then (output_ppm c, c)
      else let sum = fadd rnd (integral c) (fmul rnd (fmul rnd (ki c) error_ms) dt_s);
               integ = fclamp (limit_ppm c) sum;
               ppm = fclamp (limit_ppm c) (fadd rnd (fmul rnd (kp c) error_ms) integ)
           in (ppm, c\<lparr>integral := integ, output_ppm := ppm\<rparr>))"

definition eaf_sync_ppm_to_ratio :: "rounding \<Rightarrow> double \<Rightarrow> double" where
  "eaf_sync_ppm_to_ratio rnd ppm = fadd rnd (Fin 1) (fmul rnd ppm (Fin 0.000001))"

text \<open>A controller with finite gains whose integral and output are inside the limit.\<close>

definition in_limit :: "real \<Rightarrow> double \<Rightarrow> bool" where
  "in_limit l x \<longleftrightarrow> (case x of Fin v \<Rightarrow> - l \<le> v \<and> v \<le> l | _ \<Rightarrow> False)"

definition controller_ok :: "real \<Rightarrow> eaf_sync_controller_t \<Rightarrow> bool" where
  "controller_ok l c \<longleftrightarrow> 0 \<le> l \<and> limit_ppm c = Fin l \<and> isfinite (kp c) \<and> isfinite (ki c) \<and>
     in_limit l (integral c) \<and> in_limit l (output_ppm c)"

lemma in_limit_fclamp: "0 \<le> l \<Longrightarrow> x \<noteq> NaN \<Longrightarrow> in_limit l (fclamp (Fin l) x)"
  using fclamp_bounds [of l x] by (auto simp: in_limit_def)

lemma in_limit_Fin: "in_limit l x \<longleftrightarrow> (\<exists>v. x = Fin v \<and> - l \<le> v \<and> v \<le> l)"
  by (auto simp: in_limit_def split: double.splits)

lemma controller_update_ok:
  assumes ok: "controller_ok l c" and fin: "isfinite error_ms" "isfinite dt_s"
    and rnd: "\<And>r. rnd r \<noteq> NaN" and u: "eaf_sync_controller_update rnd c error_ms dt_s = (ppm, c')"
  shows "controller_ok l c'" and "in_limit l ppm" and "output_ppm c' = ppm"
proof -
  obtain p i v e d where k: "kp c = Fin p" "ki c = Fin i" "integral c = Fin v" "error_ms = Fin e" "dt_s = Fin d"
    using ok fin by (auto simp: controller_ok_def isfinite_def in_limit_Fin split: double.splits)
  have l: "0 \<le> l" "limit_ppm c = Fin l" "in_limit l (output_ppm c)" using ok by (simp_all add: controller_ok_def)
  have "controller_ok l c' \<and> in_limit l ppm \<and> output_ppm c' = ppm"
  proof (cases "d \<le> 0")
    case True
    then show ?thesis using u ok k l by (auto simp: eaf_sync_controller_update_def)
  next
    case False
    have m: "fmul rnd (rnd (i * e)) (Fin d) \<noteq> NaN"
      using rnd False by (cases "rnd (i * e)") auto
    then have s: "fadd rnd (Fin v) (fmul rnd (rnd (i * e)) (Fin d)) \<noteq> NaN"
      using rnd by (cases "fmul rnd (rnd (i * e)) (Fin d)") auto
    let ?integ = "fclamp (Fin l) (fadd rnd (Fin v) (fmul rnd (rnd (i * e)) (Fin d)))"
    have I: "in_limit l ?integ" using in_limit_fclamp [OF l(1) s] .
    then obtain w where w: "?integ = Fin w" by (auto simp: in_limit_Fin)
    have "fadd rnd (rnd (p * e)) (Fin w) \<noteq> NaN" by (intro fadd_Fin_not_NaN rnd)
    then have outp: "in_limit l (fclamp (Fin l) (fadd rnd (rnd (p * e)) (Fin w)))"
      using in_limit_fclamp [OF l(1)] by blast
    show ?thesis
      using u False I outp ok by (auto simp: eaf_sync_controller_update_def k l w Let_def controller_ok_def)
  qed
  then show "controller_ok l c'" and "in_limit l ppm" and "output_ppm c' = ppm" by blast+
qed

section \<open>Resampler\<close>

text \<open>
  The conversion of the step to \<open>int32_t\<close> is \<open>i32\<close>, the reduction modulo \<open>2 ^ 32\<close> that the
  compilers of the targets define. The signed addition to \<open>a\<close> is undefined in C when the sum leaves the
  range of \<open>int32_t\<close>: its value there is the parameter \<open>ub\<close>, of which nothing is known.
\<close>

definition interpolate_step :: "int \<Rightarrow> int \<Rightarrow> u32 \<Rightarrow> int" where
  "interpolate_step a b fraction =
     (let product = (b - a) * int (unat (drop_bit 1 fraction))
      in if product \<ge> 0 then i32 ((product + 1073741824) div 2147483648)
         else - i32 ((- product + 1073741824) div 2147483648))"

definition interpolate :: "int \<Rightarrow> int \<Rightarrow> int \<Rightarrow> u32 \<Rightarrow> int" where
  "interpolate ub a b fraction =
     (let sum = a + interpolate_step a b fraction in if is_i32 sum then sum else ub)"

definition resample_step :: "u32 \<Rightarrow> u32 \<Rightarrow> u64" where
  "resample_step in_frames out_frames = push_bit 32 (ucast in_frames) div ucast out_frames"

definition resample_frame :: "int \<Rightarrow> int list \<Rightarrow> u32 \<Rightarrow> u64 \<Rightarrow> nat \<Rightarrow> nat \<Rightarrow> int list \<Rightarrow> int list" where
  "resample_frame ub src in_frames step ch i out =
     (let position = of_nat i * step;
          index = ucast (drop_bit 32 position) :: u32
      in if index \<ge> in_frames - 1
         then fold (\<lambda>c out. out[i * ch + c := src ! (unat (in_frames - 1) * ch + c)]) [0..<ch] out
         else let fraction = ucast position :: u32
              in fold (\<lambda>c out. out[i * ch + c :=
                   interpolate ub (src ! (unat index * ch + c)) (src ! (unat (index + 1) * ch + c)) fraction])
                 [0..<ch] out)"

definition eaf_sync_resample ::
  "int \<Rightarrow> int list option \<Rightarrow> u32 \<Rightarrow> int list option \<Rightarrow> u32 \<Rightarrow> u8 \<Rightarrow> u32 \<times> int list option" where
  "eaf_sync_resample ub src in_frames out out_frames nch =
     (case (src, out) of
        (Some xs, Some ys) \<Rightarrow>
          if in_frames = 0 \<or> out_frames = 0 \<or> nch \<noteq> 1 \<and> nch \<noteq> 2 then (0, out)
          else let ch = unat nch; n = unat out_frames
               in if in_frames = 1
                  then (out_frames, Some (fold (\<lambda>i. fold (\<lambda>c ys. ys[i * ch + c := xs ! c]) [0..<ch]) [0..<n] ys))
                  else (out_frames,
                        Some (fold (resample_frame ub xs in_frames (resample_step in_frames out_frames) ch) [0..<n] ys))
      | _ \<Rightarrow> (0, out))"

subsection \<open>Interpolation\<close>

text \<open>The value meant: \<open>a\<close> plus the fraction of the difference, rounded half away from zero.\<close>

definition lerp :: "int \<Rightarrow> int \<Rightarrow> int \<Rightarrow> int" where
  "lerp a b f = (let p = (b - a) * f in
     if p \<ge> 0 then a + (p + 1073741824) div 2147483648 else a - (- p + 1073741824) div 2147483648)"

lemma half_fraction: "0 \<le> int (unat (drop_bit 1 (f::u32)))" "int (unat (drop_bit 1 f)) < 2147483648"
proof -
  have "unat (drop_bit 1 f) = unat f div 2" by (simp add: drop_bit_eq_div unat_div)
  then show "int (unat (drop_bit 1 f)) < 2147483648" using unat_lt_32 [of f] by linarith
qed simp

lemma lerp_between:
  assumes "0 \<le> f" and "f < 2147483648"
  shows "min a b \<le> lerp a b f \<and> lerp a b f \<le> max a b"
proof (cases "a \<le> b")
  case True
  then have p: "0 \<le> (b - a) * f" using assms by simp
  have "(b - a) * f \<le> (b - a) * 2147483647" using assms True by (intro mult_left_mono) auto
  then have "((b - a) * f + 1073741824) div 2147483648 \<le> b - a" using True by (cases "a = b") auto
  moreover have "0 \<le> ((b - a) * f + 1073741824) div 2147483648" using p by simp
  ultimately show ?thesis using p True by (simp add: lerp_def Let_def)
next
  case False
  show ?thesis
  proof (cases "f = 0")
    case True
    then show ?thesis by (simp add: lerp_def)
  next
    case f: False
    then have p: "(b - a) * f < 0" using assms False by (simp add: mult_neg_pos)
    have "(a - b) * f \<le> (a - b) * 2147483647" using assms False by (intro mult_left_mono) auto
    then have "((a - b) * f + 1073741824) div 2147483648 \<le> a - b" using False by auto
    moreover have "0 \<le> (a - b) * f" using assms False by simp
    then have "0 \<le> ((a - b) * f + 1073741824) div 2147483648" by simp
    moreover have "- ((b - a) * f) = (a - b) * f" by (simp add: algebra_simps)
    ultimately show ?thesis using p False by (simp add: lerp_def Let_def not_le)
  qed
qed

lemma i32_cong: "(x - y) mod 4294967296 = 0 \<Longrightarrow> i32 x = i32 y"
proof -
  assume "(x - y) mod 4294967296 = 0"
  then have "x mod 4294967296 = y mod 4294967296" by (simp add: mod_eq_dvd_iff dvd_eq_mod_eq_0)
  then have "(x + 2147483648) mod 4294967296 = (y + 2147483648) mod 4294967296" by (metis mod_add_left_eq)
  then show ?thesis by (simp add: i32_def)
qed

text \<open>The magnitude of the step, before its conversion to \<open>int32_t\<close>.\<close>

definition swing :: "int \<Rightarrow> int \<Rightarrow> int \<Rightarrow> int" where
  "swing a b f = (\<bar>b - a\<bar> * f + 1073741824) div 2147483648"

lemma lerp_swing: "0 \<le> f \<Longrightarrow> lerp a b f = (if 0 \<le> (b - a) * f then a + swing a b f else a - swing a b f)"
proof -
  assume f: "0 \<le> f"
  have "\<bar>b - a\<bar> * f = \<bar>(b - a) * f\<bar>" using f by (simp add: abs_mult)
  then show ?thesis by (simp add: lerp_def swing_def Let_def algebra_simps)
qed

lemma step_swing:
  "interpolate_step a b f = (let s = i32 (swing a b (int (unat (drop_bit 1 f)))) in
     if 0 \<le> (b - a) * int (unat (drop_bit 1 f)) then s else - s)"
proof -
  have "\<bar>b - a\<bar> * int (unat (drop_bit 1 f)) = \<bar>(b - a) * int (unat (drop_bit 1 f))\<bar>" by (simp add: abs_mult)
  then show ?thesis by (auto simp: interpolate_step_def swing_def Let_def)
qed

lemma swing_bounds:
  assumes "is_i32 a" and "is_i32 b" and "0 \<le> f" and "f < 2147483648"
  shows "0 \<le> swing a b f" and "swing a b f < 4294967296"
proof -
  have "0 \<le> \<bar>b - a\<bar> * f" using assms(3) by simp
  then show "0 \<le> swing a b f" by (simp add: swing_def pos_imp_zdiv_nonneg_iff)
  have d: "\<bar>b - a\<bar> \<le> 4294967295" using assms(1,2) by (auto simp: is_i32_def)
  then have "\<bar>b - a\<bar> * f \<le> 4294967295 * 2147483647" using assms(3,4) by (intro mult_mono) auto
  then show "swing a b f < 4294967296" by (simp add: swing_def)
qed

text \<open>The addition overflows exactly when the step does not fit, and otherwise gives the value meant.\<close>

lemma interpolate_cases:
  fixes f :: u32
  assumes "is_i32 a" and "is_i32 b"
  defines "h \<equiv> int (unat (drop_bit 1 f))"
  shows "is_i32 (a + interpolate_step a b f) \<longleftrightarrow> swing a b h < 2147483648"
    and "swing a b h < 2147483648 \<Longrightarrow> a + interpolate_step a b f = lerp a b h"
proof -
  have h: "0 \<le> h" "h < 2147483648" using half_fraction [of f] by (simp_all add: h_def)
  note B = swing_bounds [OF assms(1,2) h]
  have r: "is_i32 (lerp a b h)"
    using lerp_between [OF h, of a b] assms(1,2) by (auto simp: is_i32_def min_def max_def split: if_splits)
  have small: "i32 (swing a b h) = swing a b h" if "swing a b h < 2147483648" using that B by (simp add: is_i32_def)
  show e: "a + interpolate_step a b f = lerp a b h" if "swing a b h < 2147483648"
    unfolding step_swing h_def [symmetric] lerp_swing [OF h(1)] using small [OF that] by (simp add: Let_def)
  have big: "\<not> is_i32 (a + interpolate_step a b f)" if g: "\<not> swing a b h < 2147483648"
  proof -
    have "i32 (swing a b h) = i32 (swing a b h - 4294967296)" by (rule i32_cong) simp
    also have "\<dots> = swing a b h - 4294967296" using g B by (intro i32_id) (simp add: is_i32_def)
    finally show ?thesis using r B unfolding step_swing h_def [symmetric] lerp_swing [OF h(1)]
      by (auto simp: is_i32_def Let_def split: if_splits)
  qed
  show "is_i32 (a + interpolate_step a b f) \<longleftrightarrow> swing a b h < 2147483648" using big e r by auto
qed

text \<open>A difference of at most \<open>2 ^ 31\<close> never overflows.\<close>

lemma interpolate_lerp:
  assumes "is_i32 a" and "is_i32 b" and "\<bar>b - a\<bar> \<le> 2147483648"
  shows "interpolate ub a b f = lerp a b (int (unat (drop_bit 1 f)))"
proof -
  let ?h = "int (unat (drop_bit 1 f))"
  have "\<bar>b - a\<bar> * ?h \<le> 2147483648 * 2147483647" using half_fraction [of f] assms(3) by (intro mult_mono) auto
  then have "swing a b ?h < 2147483648" by (simp add: swing_def)
  then show ?thesis using interpolate_cases [OF assms(1,2), of f] by (simp add: interpolate_def Let_def)
qed

subsection \<open>Positions\<close>

text \<open>The 32.32 fixed-point position of output frame \<open>i\<close>, as an unbounded number.\<close>

definition position :: "nat \<Rightarrow> nat \<Rightarrow> nat \<Rightarrow> nat" where
  "position in_frames out_frames i = i * (in_frames * 4294967296 div out_frames)"

lemma position_less:
  assumes "i < out_frames"
  shows "position in_frames out_frames i \<le> in_frames * 4294967296"
    and "0 < in_frames \<Longrightarrow> position in_frames out_frames i < in_frames * 4294967296"
proof -
  let ?x = "in_frames * 4294967296"
  have le: "i * (?x div out_frames) \<le> i * ?x div out_frames"
    using assms mult_le_mono2 [OF div_times_less_eq_dividend [of ?x out_frames], of i]
    by (simp add: less_eq_div_iff_mult_less_eq mult.assoc)
  have "i * ?x \<le> (out_frames - 1) * ?x" using assms by (intro mult_le_mono1) simp
  also have "\<dots> \<le> out_frames * ?x" by simp
  finally have "i * ?x div out_frames \<le> ?x"
    using assms by (metis div_le_mono nonzero_mult_div_cancel_left not_less_zero)
  with le show "position in_frames out_frames i \<le> ?x" unfolding position_def by linarith
  assume "0 < in_frames"
  then have "i * ?x < out_frames * ?x" using assms by simp
  then have "i * ?x div out_frames < ?x" using assms by (simp add: div_less_iff_less_mult mult.commute)
  with le show "position in_frames out_frames i < ?x" unfolding position_def by linarith
qed

lemma unat_resample_step:
  assumes "out_frames \<noteq> 0"
  shows "unat (resample_step in_frames out_frames) = unat in_frames * 4294967296 div unat out_frames"
proof -
  have "unat (push_bit 32 (ucast in_frames :: u64)) = unat in_frames * 4294967296"
  proof -
    have "unat in_frames * 4294967296 < 2 ^ 64" using unat_lt_32 [of in_frames] by simp
    then show ?thesis
      by (simp add: push_bit_eq_mult unat_mult_lem [THEN iffD1] unat_word_ariths)
  qed
  then show ?thesis by (simp add: resample_step_def unat_div)
qed

lemma unat_position:
  assumes "i < unat out_frames"
  shows "unat (of_nat i * resample_step in_frames out_frames) = position (unat in_frames) (unat out_frames) i"
proof -
  have nz: "out_frames \<noteq> 0" using assms by auto
  have i: "i < 2 ^ 64" using less_trans [OF assms unat_lt_32] by simp
  have "position (unat in_frames) (unat out_frames) i \<le> unat in_frames * 4294967296"
    by (rule position_less(1) [OF assms])
  also have "\<dots> < 2 ^ 64" using unat_lt_32 [of in_frames] by simp
  finally have "i * unat (resample_step in_frames out_frames) < 2 ^ 64"
    by (simp add: position_def unat_resample_step [OF nz])
  then show ?thesis
    using i by (simp add: unat_word_ariths unat_of_nat position_def unat_resample_step [OF nz])
qed

lemma unat_index:
  assumes "unat (p::u64) = x"
  shows "unat (ucast (drop_bit 32 p) :: u32) = x div 4294967296"
    and "unat (ucast p :: u32) = x mod 4294967296"
proof -
  have "x < 2 ^ 64" using unsigned_less [of p, where ?'a = nat] assms by simp
  then have "x div 4294967296 < 4294967296" by (simp add: div_less_iff_less_mult)
  then show "unat (ucast (drop_bit 32 p) :: u32) = x div 4294967296"
    using assms by (simp add: unsigned_ucast_eq take_bit_eq_mod drop_bit_eq_div unat_div)
  show "unat (ucast p :: u32) = x mod 4294967296"
    using assms by (simp add: unsigned_ucast_eq take_bit_eq_mod)
qed

subsection \<open>The block\<close>

text \<open>Sample \<open>c\<close> of output frame \<open>i\<close>.\<close>

definition resampled :: "int list \<Rightarrow> nat \<Rightarrow> nat \<Rightarrow> nat \<Rightarrow> nat \<Rightarrow> nat \<Rightarrow> int" where
  "resampled xs in_frames out_frames ch i c =
     (let p = position in_frames out_frames i; k = p div 4294967296
      in if in_frames - 1 \<le> k then xs ! ((in_frames - 1) * ch + c)
         else lerp (xs ! (k * ch + c)) (xs ! ((k + 1) * ch + c)) (int (p mod 4294967296 div 2)))"

text \<open>A block in which no sample differs from the next one of its channel by more than \<open>2 ^ 31\<close>.\<close>

definition steady :: "int list \<Rightarrow> nat \<Rightarrow> nat \<Rightarrow> bool" where
  "steady xs frames ch \<longleftrightarrow> list_all (\<lambda>i. \<bar>xs ! (i + ch) - xs ! i\<bar> \<le> 2147483648) [0..<(frames - 1) * ch]"

lemma steadyD:
  assumes "steady xs frames ch" and "k + 1 < frames" and "c < ch"
  shows "\<bar>xs ! ((k + 1) * ch + c) - xs ! (k * ch + c)\<bar> \<le> 2147483648"
proof -
  have "k * ch + c < (frames - 1) * ch" using assms(2,3) by (intro slot_less) simp_all
  then have "\<bar>xs ! (k * ch + c + ch) - xs ! (k * ch + c)\<bar> \<le> 2147483648" using assms(1) by (simp add: steady_def list_all_iff)
  then show ?thesis by (simp add: algebra_simps)
qed

lemma resample_frame_blit:
  assumes i: "i < unat out_frames" and inf: "in_frames \<noteq> 0" and len: "unat in_frames * ch \<le> length xs"
    and i32: "list_all is_i32 xs" and st: "steady xs (unat in_frames) ch" and fits: "(i + 1) * ch \<le> length ys"
  shows "resample_frame ub xs in_frames (resample_step in_frames out_frames) ch i ys =
    blit ys (i * ch) (map (resampled xs (unat in_frames) (unat out_frames) ch i) [0..<ch])"
proof -
  let ?p = "of_nat i * resample_step in_frames out_frames"
  let ?x = "position (unat in_frames) (unat out_frames) i"
  let ?k = "ucast (drop_bit 32 ?p) :: u32"
  note P = unat_position [OF i, of in_frames]
  have k: "unat ?k = ?x div 4294967296" and f: "unat (ucast ?p :: u32) = ?x mod 4294967296"
    using unat_index [OF P] by simp_all
  have last: "unat (in_frames - 1) = unat in_frames - 1" using inf by (rule unat_minus_one)
  have cond: "?k \<ge> in_frames - 1 \<longleftrightarrow> unat in_frames - 1 \<le> ?x div 4294967296"
    by (simp add: word_le_nat_alt k last)
  have half: "unat (drop_bit 1 (ucast ?p :: u32)) = ?x mod 4294967296 div 2"
    using f by (simp add: drop_bit_eq_div unat_div)
  have fit: "i * ch + ch \<le> length ys" using fits by simp
  show ?thesis
  proof (cases "unat in_frames - 1 \<le> ?x div 4294967296")
    case True
    then have m: "map (resampled xs (unat in_frames) (unat out_frames) ch i) [0..<ch] =
        map (\<lambda>c. xs ! (unat (in_frames - 1) * ch + c)) [0..<ch]"
      by (simp add: resampled_def last)
    show ?thesis unfolding m
      using True fold_update_blit [OF fit, of "\<lambda>c. xs ! (unat (in_frames - 1) * ch + c)"] cond
      by (simp add: resample_frame_def Let_def)
  next
    case False
    then have lt: "?x div 4294967296 + 1 < unat in_frames" by simp
    have "?x div 4294967296 + 1 < 4294967296" by (rule less_trans [OF lt unat_lt_32])
    then have succ: "unat (?k + 1) = ?x div 4294967296 + 1" by (simp add: unat_word_ariths k)
    have "interpolate ub (xs ! (unat ?k * ch + c)) (xs ! (unat (?k + 1) * ch + c)) (ucast ?p)
        = resampled xs (unat in_frames) (unat out_frames) ch i c" if "c < ch" for c
    proof -
      have "(?x div 4294967296 + 1) * ch + c < unat in_frames * ch"
        by (rule slot_less [OF lt that])
      moreover have "?x div 4294967296 * ch + c < unat in_frames * ch"
        using lt that by (intro slot_less) simp_all
      ultimately have "is_i32 (xs ! (?x div 4294967296 * ch + c))" "is_i32 (xs ! ((?x div 4294967296 + 1) * ch + c))"
        using i32 len by (auto simp: list_all_length)
      from interpolate_lerp [OF this steadyD [OF st lt that], of ub "ucast ?p", unfolded half] show ?thesis
        using False by (simp add: resampled_def Let_def k succ)
    qed
    then have m: "map (\<lambda>c. interpolate ub (xs ! (unat ?k * ch + c)) (xs ! (unat (?k + 1) * ch + c)) (ucast ?p)) [0..<ch]
        = map (resampled xs (unat in_frames) (unat out_frames) ch i) [0..<ch]" by simp
    show ?thesis unfolding m [symmetric]
      using fold_update_blit [OF fit, of "\<lambda>c. interpolate ub (xs ! (unat ?k * ch + c)) (xs ! (unat (?k + 1) * ch + c)) (ucast ?p)"]
        cond False by (simp add: resample_frame_def Let_def)
  qed
qed

lemma fold_frames_blit:
  assumes step: "\<And>i zs. i < n \<Longrightarrow> length zs = length ys \<Longrightarrow> f i zs = blit zs (i * ch) (g i)"
    and len: "\<And>i. i < n \<Longrightarrow> length (g i) = ch" and fits: "n * ch \<le> length ys"
  shows "fold f [0..<n] ys = blit ys 0 (concat (map g [0..<n]))"
proof -
  have "fold f [0..<k] ys = blit ys 0 (concat (map g [0..<k])) \<and> length (concat (map g [0..<k])) = k * ch"
    if "k \<le> n" for k
    using that
  proof (induction k)
    case (Suc k)
    let ?xs = "concat (map g [0..<k])"
    have IH: "fold f [0..<k] ys = blit ys 0 ?xs" and l: "length ?xs = k * ch" using Suc by simp_all
    have fit: "k * ch + ch \<le> length ys"
      using Suc.prems fits mult_le_mono1 [OF Suc.prems, of ch] by simp
    have "blit (blit ys 0 ?xs) (k * ch) (g k) = blit ys 0 (?xs @ g k)"
      using l len [of k] Suc.prems fit by (simp add: blit_def add.commute)
    then show ?case using IH step [of k "blit ys 0 ?xs"] l len [of k] Suc.prems fit by simp
  qed simp
  then show ?thesis by simp
qed

lemma resample_block:
  assumes "in_frames \<noteq> 0" and "out_frames \<noteq> 0" and "nch = 1 \<or> nch = 2"
    and "unat in_frames * unat nch \<le> length xs" and "list_all is_i32 xs" and "steady xs (unat in_frames) (unat nch)"
    and "unat out_frames * unat nch \<le> length ys"
  shows "eaf_sync_resample ub (Some xs) in_frames (Some ys) out_frames nch = (out_frames, Some (blit ys 0
    (concat (map (\<lambda>i. map (resampled xs (unat in_frames) (unat out_frames) (unat nch) i) [0..<unat nch])
       [0..<unat out_frames]))))"
proof -
  let ?ch = "unat nch"
  have fit: "(i + 1) * ?ch \<le> length zs" if i: "i < unat out_frames" and z: "length zs = length ys" for i and zs :: "int list"
  proof -
    have "(i + 1) * ?ch \<le> unat out_frames * ?ch" using i by (intro mult_le_mono1) simp
    then show ?thesis using assms(7) z by linarith
  qed
  let ?frame = "\<lambda>i. if in_frames = 1 then fold (\<lambda>c ys. ys[i * ?ch + c := xs ! c]) [0..<?ch]
      else resample_frame ub xs in_frames (resample_step in_frames out_frames) ?ch i"
  have step: "?frame i zs = blit zs (i * ?ch) (map (resampled xs (unat in_frames) (unat out_frames) ?ch i) [0..<?ch])"
    if i: "i < unat out_frames" and z: "length zs = length ys" for i zs
  proof (cases "in_frames = 1")
    case True
    then have "map (resampled xs (unat in_frames) (unat out_frames) ?ch i) [0..<?ch] = map ((!) xs) [0..<?ch]"
      by (simp add: resampled_def)
    then show ?thesis using fold_update_blit [of "i * ?ch" ?ch zs "(!) xs"] fit [OF i z] True
      by (simp only: if_True) (simp add: add.commute)
  next
    case False
    then show ?thesis using resample_frame_blit [OF i assms(1,4,5,6) fit [OF i z], of ub] by simp
  qed
  from fold_frames_blit [of "unat out_frames" ys ?frame, OF step _ assms(7)] show ?thesis
    using assms(1-3) by (cases "in_frames = 1") (auto simp: eaf_sync_resample_def Let_def)
qed

lemma resampled_between:
  assumes "0 < in_frames"
  shows "\<exists>k<in_frames. \<exists>k'<in_frames.
    min (xs ! (k * ch + c)) (xs ! (k' * ch + c)) \<le> resampled xs in_frames out_frames ch i c \<and>
    resampled xs in_frames out_frames ch i c \<le> max (xs ! (k * ch + c)) (xs ! (k' * ch + c))"
proof (cases "in_frames - 1 \<le> position in_frames out_frames i div 4294967296")
  case True
  then show ?thesis using assms
    by (intro exI [of _ "in_frames - 1"] conjI) (auto simp: resampled_def Let_def intro!: exI [of _ "in_frames - 1"])
next
  case False
  let ?p = "position in_frames out_frames i"
  have "0 \<le> int (?p mod 4294967296 div 2)" "int (?p mod 4294967296 div 2) < 2147483648"
    using mod_less_divisor [of 4294967296 ?p] by linarith+
  note lb = lerp_between [OF this, of "xs ! (?p div 4294967296 * ch + c)" "xs ! ((?p div 4294967296 + 1) * ch + c)"]
  have "?p div 4294967296 < in_frames" "?p div 4294967296 + 1 < in_frames" using False by auto
  moreover have "resampled xs in_frames out_frames ch i c =
      lerp (xs ! (?p div 4294967296 * ch + c)) (xs ! ((?p div 4294967296 + 1) * ch + c)) (int (?p mod 4294967296 div 2))"
    using False by (simp add: resampled_def Let_def)
  ultimately show ?thesis using lb by metis
qed

lemma resampled_same_rate:
  assumes "0 < n" and "i < n"
  shows "resampled xs n n ch i c = xs ! (i * ch + c)"
proof -
  have "position n n i = i * 4294967296" using assms by (simp add: position_def)
  moreover have "n - 1 = i" if "n - 1 \<le> i" using that assms by simp
  ultimately show ?thesis using assms by (auto simp: resampled_def Let_def lerp_def)
qed

section \<open>Properties\<close>

text \<open>
  The controller is bounded. With finite gains and a non-negative limit, and whatever the
  rounding of the arithmetic (as long as rounding a number gives no NaN), every update with
  finite arguments returns a correction within the limit and keeps both the output and
  the integral term within it, so the integral cannot wind up.
\<close>

theorem sync_controller_bounded:
  assumes "controller_ok l c" and "isfinite error_ms" and "isfinite dt_s" and "\<And>r. rnd r \<noteq> NaN"
    and "eaf_sync_controller_update rnd c error_ms dt_s = (ppm, c')"
  shows "in_limit l ppm \<and> in_limit l (integral c') \<and> controller_ok l c' \<and> output_ppm c' = ppm"
  using controller_update_ok [OF assms] by (simp add: controller_ok_def)

theorem sync_controller_bounded_witness:
  "in_limit 500 (fst (eaf_sync_controller_update Fin (eaf_sync_controller_init (Fin 20) (Fin 2) (Fin 500)) (Fin 100) (Fin 1)))"
proof -
  let ?c = "eaf_sync_controller_init (Fin 20) (Fin 2) (Fin 500)"
  obtain ppm c' where u: "eaf_sync_controller_update Fin ?c (Fin 100) (Fin 1) = (ppm, c')" by fastforce
  have "controller_ok 500 ?c"
    by (simp add: controller_ok_def eaf_sync_controller_init_def isfinite_def in_limit_def)
  from sync_controller_bounded [OF this _ _ _ u] u show ?thesis by (simp add: isfinite_def)
qed

text \<open>
  C33: the resampler. For one or more input frames and one or more output frames of one or two channels, in arrays that hold them, of 32-bit
  samples none of which differs from the next of its channel by more than \<open>2 ^ 31\<close> (where the signed addition of the
  code is defined), it fills exactly the requested frames and nothing beyond: every output sample is the rounded linear
  interpolation at its position, lies between two input samples of the same channel (so the resampler never
  overshoots), and with equal input and output lengths the block is copied unchanged.
\<close>

theorem resample_correct:
  assumes "in_frames \<noteq> 0" and "out_frames \<noteq> 0" and "nch = 1 \<or> nch = 2"
    and "unat in_frames * unat nch \<le> length xs" and "list_all is_i32 xs" and "steady xs (unat in_frames) (unat nch)"
    and "unat out_frames * unat nch \<le> length ys"
  defines "n \<equiv> unat out_frames" and "ch \<equiv> unat nch"
  shows "\<exists>block. eaf_sync_resample ub (Some xs) in_frames (Some ys) out_frames nch = (out_frames, Some (blit ys 0 block)) \<and>
    length block = n * ch \<and>
    (\<forall>i<n. \<forall>c<ch. block ! (i * ch + c) = resampled xs (unat in_frames) n ch i c) \<and>
    (\<forall>i<n. \<forall>c<ch. \<exists>k<unat in_frames. \<exists>k'<unat in_frames.
       min (xs ! (k * ch + c)) (xs ! (k' * ch + c)) \<le> block ! (i * ch + c) \<and>
       block ! (i * ch + c) \<le> max (xs ! (k * ch + c)) (xs ! (k' * ch + c))) \<and>
    (in_frames = out_frames \<longrightarrow> (\<forall>i<n. \<forall>c<ch. block ! (i * ch + c) = xs ! (i * ch + c)))"
proof -
  let ?f = "\<lambda>i. map (resampled xs (unat in_frames) n ch i) [0..<ch]"
  let ?b = "concat (map ?f [0..<n])"
  have len: "length ?b = n * ch" by (simp add: length_concat comp_def sum_list_triv)
  have nth: "?b ! (i * ch + c) = resampled xs (unat in_frames) n ch i c" if "i < n" "c < ch" for i c
  proof -
    have "concat (map ?f [0..<k]) ! (i * ch + c) = resampled xs (unat in_frames) n ch i c" if "i < k" for k
      using that
    proof (induction k)
      case (Suc k)
      have l: "length (concat (map ?f [0..<k])) = k * ch" by (simp add: length_concat comp_def sum_list_triv)
      have lt: "i * ch + c < k * ch" if "i < k"
        using that \<open>c < ch\<close> by (rule slot_less)
      show ?case using Suc lt l \<open>c < ch\<close> by (cases "i < k") (simp_all add: nth_append less_Suc_eq)
    qed simp
    with that show ?thesis by simp
  qed
  have "eaf_sync_resample ub (Some xs) in_frames (Some ys) out_frames nch = (out_frames, Some (blit ys 0 ?b))"
    using resample_block [OF assms(1-7)] by (simp add: n_def ch_def)
  moreover have "0 < unat in_frames" using assms(1) by (simp add: unat_gt_0)
  ultimately show ?thesis
    using len nth resampled_between [of "unat in_frames" xs ch _ n] resampled_same_rate [of n _ xs ch]
    by (intro exI [of _ ?b]) (auto simp: n_def)
qed

theorem resample_correct_witness:
  "\<forall>ub. (\<exists>block. eaf_sync_resample ub (Some [0, 100, 200]) 3 (Some [7, 7, 7, 9]) 3 1 = (3, Some (blit [7, 7, 7, 9] 0 block)) \<and>
     block ! 1 = 100) \<and>
   (\<exists>block. eaf_sync_resample ub (Some [5, -6]) 1 (Some [0, 0, 0, 0]) 2 2 = (2, Some (blit [0, 0, 0, 0] 0 block)) \<and> length block = 4)"
proof (intro allI conjI)
  fix ub
  have st: "steady [0, 100, 200] (unat (3::u32)) (unat (1::u8))" "steady [5, -6] (unat (1::u32)) (unat (2::u8))" by (simp_all add: steady_def upt_rec)
  obtain block where b: "eaf_sync_resample ub (Some [0, 100, 200]) 3 (Some [7, 7, 7, 9]) 3 1 = (3, Some (blit [7, 7, 7, 9] 0 block))"
    and eq: "\<forall>i<unat (3::u32). \<forall>c<unat (1::u8). block ! (i * unat (1::u8) + c) = [0, 100, 200] ! (i * unat (1::u8) + c)"
    using resample_correct [OF _ _ _ _ _ st(1), of 3 "[7, 7, 7, 9]" ub] by (auto simp: is_i32_def)
  from eq have "block ! 1 = 100" by (simp add: spec [of _ 1])
  with b show "\<exists>block. eaf_sync_resample ub (Some [0, 100, 200]) 3 (Some [7, 7, 7, 9]) 3 1 = (3, Some (blit [7, 7, 7, 9] 0 block)) \<and> block ! 1 = 100"
    by blast
  show "\<exists>block. eaf_sync_resample ub (Some [5, -6]) 1 (Some [0, 0, 0, 0]) 2 2 = (2, Some (blit [0, 0, 0, 0] 0 block)) \<and> length block = 4"
    using resample_correct [OF _ _ _ _ _ st(2), of 2 "[0, 0, 0, 0]" ub] by (auto simp: is_i32_def)
qed

text \<open>
  C40: the signed addition of the interpolation can overflow. For 32-bit samples \<open>a\<close> and \<open>b\<close> whose rounded step \<open>swing\<close> (their distance times
  half the fraction, in units of \<open>2 ^ 31\<close>) reaches \<open>2 ^ 31\<close>, the C expression \<open>a + (int32_t)(...)\<close> has a value
  outside \<open>int32_t\<close>, undefined behaviour, although the interpolated value itself is in range; whatever that gives (\<open>ub\<close>) is the sample. For every smaller step the
  addition is defined and the result is the rounded linear interpolation.
\<close>

theorem interpolate_overflow:
  fixes fraction :: u32
  assumes "is_i32 a" and "is_i32 b"
  defines "h \<equiv> int (unat (drop_bit 1 fraction))"
  shows "if 2147483648 \<le> swing a b h
    then \<not> is_i32 (a + interpolate_step a b fraction) \<and> interpolate ub a b fraction = ub \<and> is_i32 (lerp a b h)
    else is_i32 (a + interpolate_step a b fraction) \<and> interpolate ub a b fraction = lerp a b h"
proof -
  have "min a b \<le> lerp a b h \<and> lerp a b h \<le> max a b" unfolding h_def by (rule lerp_between [OF half_fraction])
  then have "is_i32 (lerp a b h)" using assms(1,2) by (auto simp: is_i32_def min_def max_def split: if_splits)
  then show ?thesis using interpolate_cases [OF assms(1,2), of fraction] by (auto simp: interpolate_def h_def Let_def)
qed

theorem interpolate_overflow_witness:
  "\<forall>ub. \<not> is_i32 (INT32_MIN + interpolate_step INT32_MIN INT32_MAX 4294967295) \<and> interpolate ub INT32_MIN INT32_MAX 4294967295 = ub"
proof
  fix ub
  have "unat (drop_bit 1 (4294967295::u32)) = 2147483647" by (simp add: drop_bit_eq_div unat_div)
  then have "2147483648 \<le> swing INT32_MIN INT32_MAX (int (unat (drop_bit 1 (4294967295::u32))))" by (simp add: swing_def)
  then show "\<not> is_i32 (INT32_MIN + interpolate_step INT32_MIN INT32_MAX 4294967295) \<and> interpolate ub INT32_MIN INT32_MAX 4294967295 = ub"
    using interpolate_overflow [of INT32_MIN INT32_MAX 4294967295 ub] by (simp add: is_i32_def)
qed

end
