(* ===== verification/Pipeline.thy ===== *)
theory Pipeline
  imports Reservoir
begin

text \<open>
  \<open>core/eaf_graph.c\<close>: the pipeline that pulls blocks from the reservoir, runs them through
  the processing nodes and hands them to the sink, with its lifecycle
  (uninitialised, initialised, configured, running, stopped, recovery). Nodes and sinks are
  tables of callbacks over a context of any type, as in \<open>eaf_core.h\<close> and \<open>eaf_hal.h\<close>; the
  theorems hold for every behaviour of the callbacks.
\<close>

section \<open>Interfaces\<close>

record 'n eaf_node_ops =
  node_init :: "('n \<Rightarrow> eaf_format_t \<Rightarrow> eaf_format_t \<Rightarrow> eaf_result_t \<times> eaf_format_t \<times> 'n) option"
  node_process :: "('n \<Rightarrow> eaf_buffer_t \<Rightarrow> eaf_result_t \<times> 'n \<times> eaf_buffer_t) option"
  node_reset :: "('n \<Rightarrow> eaf_result_t \<times> 'n) option"
  node_deinit :: "('n \<Rightarrow> 'n) option"

text \<open>The stages are numbered in the order of the enumeration; \<open>POST_PROCESS\<close> is 2.\<close>

record 'n eaf_node_t =
  stage :: nat
  node_ops :: "'n eaf_node_ops option"
  node_ctx :: 'n

record 's eaf_sink_ops =
  sink_init :: "('s \<Rightarrow> eaf_format_t \<Rightarrow> nat \<Rightarrow> eaf_result_t \<times> 's) option"
  sink_start :: "('s \<Rightarrow> eaf_result_t \<times> 's) option"
  sink_stop :: "('s \<Rightarrow> eaf_result_t \<times> 's) option"
  sink_acquire :: "('s \<Rightarrow> eaf_result_t \<times> eaf_buffer_t option \<times> 's) option"
  sink_commit :: "('s \<Rightarrow> eaf_buffer_t \<Rightarrow> eaf_result_t \<times> 's) option"
  sink_deinit :: "('s \<Rightarrow> eaf_result_t \<times> 's) option"

record 's eaf_sink_t =
  sink_ops :: "'s eaf_sink_ops option"
  driver_data :: 's

datatype eaf_pipeline_state_t =
    EAF_UNINITIALIZED | EAF_INITIALIZED | EAF_CONFIGURED | EAF_RUNNING | EAF_STOPPED | EAF_RECOVERY

record ('n, 's) eaf_pipeline_config_t =
  cfg_reservoir :: "eaf_reservoir_t option"
  cfg_nodes :: "'n eaf_node_t option list option"
  cfg_node_count :: nat
  cfg_sink :: "'s eaf_sink_t option"

text \<open>
  The pipeline together with the objects its configuration points to.
\<close>

record ('n, 's) eaf_pipeline_t =
  reservoir :: eaf_reservoir_t
  nodes :: "'n eaf_node_t list"
  sink :: "'s eaf_sink_t"
  pl_state :: eaf_pipeline_state_t
  output_format :: eaf_format_t
  block_frames :: u32
  initialized_nodes :: nat
  sink_initialized :: bool
  sink_ready :: bool
  completed :: bool

section \<open>Calls through the tables\<close>

abbreviation n_ops where "n_ops n \<equiv> the (node_ops n)"
abbreviation s_ops where "s_ops s \<equiv> the (sink_ops s)"

definition call_node_deinit :: "'n eaf_node_t \<Rightarrow> 'n eaf_node_t" where
  "call_node_deinit n = n\<lparr>node_ctx := the (node_deinit (n_ops n)) (node_ctx n)\<rparr>"

definition call_node_init ::
  "'n eaf_node_t \<Rightarrow> eaf_format_t \<Rightarrow> eaf_format_t \<Rightarrow> eaf_result_t \<times> eaf_format_t \<times> 'n eaf_node_t" where
  "call_node_init n fmt_in fmt_out =
     (let (rc, out, c) = the (node_init (n_ops n)) (node_ctx n) fmt_in fmt_out in (rc, out, n\<lparr>node_ctx := c\<rparr>))"

definition call_node_process ::
  "'n eaf_node_t \<Rightarrow> eaf_buffer_t \<Rightarrow> eaf_result_t \<times> 'n eaf_node_t \<times> eaf_buffer_t" where
  "call_node_process n b =
     (let (rc, c, b') = the (node_process (n_ops n)) (node_ctx n) b in (rc, n\<lparr>node_ctx := c\<rparr>, b'))"

definition call_node_reset :: "'n eaf_node_t \<Rightarrow> eaf_result_t \<times> 'n eaf_node_t" where
  "call_node_reset n = (let (rc, c) = the (node_reset (n_ops n)) (node_ctx n) in (rc, n\<lparr>node_ctx := c\<rparr>))"

definition call_sink ::
  "('s eaf_sink_ops \<Rightarrow> ('s \<Rightarrow> eaf_result_t \<times> 's) option) \<Rightarrow> 's eaf_sink_t \<Rightarrow> eaf_result_t \<times> 's eaf_sink_t" where
  "call_sink op s = (let (rc, d) = the (op (s_ops s)) (driver_data s) in (rc, s\<lparr>driver_data := d\<rparr>))"

section \<open>Operations\<close>

fun release_nodes :: "nat \<Rightarrow> 'n eaf_node_t list \<Rightarrow> 'n eaf_node_t list" where
  "release_nodes 0 ns = ns"
| "release_nodes (Suc k) ns = release_nodes k (ns[k := call_node_deinit (ns ! k)])"

definition release :: "('n, 's) eaf_pipeline_t \<Rightarrow> eaf_result_t \<times> ('n, 's) eaf_pipeline_t" where
  "release p =
     (let (rc, p) = (if sink_initialized p
            then let p = p\<lparr>sink_ready := False\<rparr>; (rc, s) = call_sink sink_deinit (sink p)
                 in (rc, p\<lparr>sink := s\<rparr>)
            else (EAF_OK, p))
      in if rc \<noteq> EAF_OK then (rc, p\<lparr>pl_state := EAF_RECOVERY\<rparr>)
         else (EAF_OK, p\<lparr>sink_initialized := False, sink_ready := False,
                        nodes := release_nodes (initialized_nodes p) (nodes p), initialized_nodes := 0\<rparr>))"

definition sink_complete :: "'s eaf_sink_ops \<Rightarrow> bool" where
  "sink_complete s \<longleftrightarrow> \<not> Option.is_none (sink_init s) \<and> \<not> Option.is_none (sink_start s) \<and> \<not> Option.is_none (sink_stop s) \<and>
     \<not> Option.is_none (sink_acquire s) \<and> \<not> Option.is_none (sink_commit s) \<and> \<not> Option.is_none (sink_deinit s)"

definition node_acceptable :: "'n eaf_node_t option list \<Rightarrow> nat \<Rightarrow> bool" where
  "node_acceptable ns i \<longleftrightarrow> (case ns ! i of None \<Rightarrow> False
     | Some n \<Rightarrow> (case node_ops n of None \<Rightarrow> False
         | Some ops \<Rightarrow> \<not> Option.is_none (node_init ops) \<and> \<not> Option.is_none (node_process ops) \<and> \<not> Option.is_none (node_reset ops) \<and>
             \<not> Option.is_none (node_deinit ops) \<and> stage n \<le> 2 \<and>
             (i = 0 \<or> stage (the (ns ! (i - 1))) \<le> stage n)))"

definition eaf_pipeline_init ::
  "('n, 's) eaf_pipeline_t \<Rightarrow> ('n, 's) eaf_pipeline_config_t \<Rightarrow> eaf_result_t \<times> ('n, 's) eaf_pipeline_t" where
  "eaf_pipeline_init p cfg =
     (case (cfg_reservoir cfg, cfg_sink cfg) of
        (Some r, Some s) \<Rightarrow>
          if storage r = [] \<or> Option.is_none (sink_ops s) \<or> cfg_node_count cfg \<noteq> 0 \<and> Option.is_none (cfg_nodes cfg)
          then (EAF_INVALID, p)
          else if pl_state p \<noteq> EAF_UNINITIALIZED then (EAF_STATE, p)
          else if \<not> sink_complete (s_ops s) then (EAF_INVALID, p)
          else let ns = (case cfg_nodes cfg of None \<Rightarrow> [] | Some ns \<Rightarrow> take (cfg_node_count cfg) ns)
               in if \<not> list_all (node_acceptable ns) [0..<cfg_node_count cfg] then (EAF_INVALID, p)
                  else (EAF_OK, p\<lparr>reservoir := r, sink := s, nodes := map the ns,
                                  pl_state := EAF_INITIALIZED\<rparr>)
      | _ \<Rightarrow> (EAF_INVALID, p))"

text \<open>The node loop of \<open>configure\<close>: the result is an error code, or the last format.\<close>

fun configure_nodes ::
  "nat list \<Rightarrow> eaf_format_t \<Rightarrow> ('n, 's) eaf_pipeline_t \<Rightarrow> (eaf_result_t + eaf_format_t) \<times> ('n, 's) eaf_pipeline_t" where
  "configure_nodes [] fmt p = (Inr fmt, p)"
| "configure_nodes (i # is) fmt p =
     (let (rc, out, n) = call_node_init (nodes p ! i) fmt fmt
      in if rc \<noteq> EAF_OK
         then let p = p\<lparr>nodes := (nodes p)[i := call_node_deinit n]\<rparr>
              in (Inl rc, snd (release p))
         else let p = p\<lparr>nodes := (nodes p)[i := n], initialized_nodes := initialized_nodes p + 1\<rparr>
              in if \<not> eaf_format_valid out \<or> sample_rate out \<noteq> sample_rate fmt \<or>
                    num_channels out < num_channels fmt
                 then (Inl EAF_INVALID, snd (release p))
                 else configure_nodes is out p)"

definition eaf_pipeline_configure ::
  "('n, 's) eaf_pipeline_t \<Rightarrow> u32 \<Rightarrow> eaf_result_t \<times> ('n, 's) eaf_pipeline_t" where
  "eaf_pipeline_configure p block =
     (if pl_state p \<noteq> EAF_INITIALIZED \<and> pl_state p \<noteq> EAF_STOPPED \<and> pl_state p \<noteq> EAF_CONFIGURED
      then (EAF_STATE, p)
      else if block = 0 \<or> block > capacity (reservoir p) then (EAF_INVALID, p)
      else let (cleanup, p) = release p
           in if cleanup \<noteq> EAF_OK then (cleanup, p)
              else let p = p\<lparr>pl_state := EAF_INITIALIZED\<rparr>;
                       (r, p) = configure_nodes [0..<length (nodes p)] (res_format (reservoir p)) p
                   in case r of Inl rc \<Rightarrow> (rc, p)
                      | Inr fmt \<Rightarrow>
                        let p = p\<lparr>sink_initialized := True\<rparr>;
                            (rc, d) = the (sink_init (s_ops (sink p))) (driver_data (sink p)) fmt (unat block);
                            p = p\<lparr>sink := (sink p)\<lparr>driver_data := d\<rparr>\<rparr>
                        in if rc \<noteq> EAF_OK
                           then let (cleanup, p) = release p
                                in (if cleanup \<noteq> EAF_OK then cleanup else rc, p)
                           else (EAF_OK, p\<lparr>sink_ready := True, output_format := fmt,
                                           block_frames := block, pl_state := EAF_CONFIGURED\<rparr>))"

fun reset_nodes :: "nat list \<Rightarrow> eaf_result_t \<Rightarrow> 'n eaf_node_t list \<Rightarrow> eaf_result_t \<times> 'n eaf_node_t list" where
  "reset_nodes [] rc ns = (rc, ns)"
| "reset_nodes (i # is) rc ns =
     (let (r, n) = call_node_reset (ns ! i)
      in reset_nodes is (if rc = EAF_OK then r else rc) (ns[i := n]))"

definition eaf_pipeline_stop :: "('n, 's) eaf_pipeline_t \<Rightarrow> eaf_result_t \<times> ('n, 's) eaf_pipeline_t" where
  "eaf_pipeline_stop p =
     (if pl_state p \<noteq> EAF_RUNNING \<and> pl_state p \<noteq> EAF_RECOVERY then (EAF_STATE, p)
      else let (rc, s) = call_sink sink_stop (sink p); p = p\<lparr>sink := s\<rparr>
           in if rc \<noteq> EAF_OK then (rc, p)
              else let p = p\<lparr>pl_state := if sink_ready p then EAF_STOPPED else EAF_INITIALIZED\<rparr>;
                       (rc, ns) = reset_nodes [0..<initialized_nodes p] rc (nodes p)
                   in (rc, p\<lparr>nodes := ns\<rparr>))"

definition eaf_pipeline_start :: "('n, 's) eaf_pipeline_t \<Rightarrow> eaf_result_t \<times> ('n, 's) eaf_pipeline_t" where
  "eaf_pipeline_start p =
     (if pl_state p \<noteq> EAF_CONFIGURED \<and> pl_state p \<noteq> EAF_STOPPED then (EAF_STATE, p)
      else let p = p\<lparr>reservoir := eaf_reservoir_reset (reservoir p), completed := False\<rparr>;
               (rc, s) = call_sink sink_start (sink p); p = p\<lparr>sink := s\<rparr>
           in if rc = EAF_OK then (EAF_OK, p\<lparr>pl_state := EAF_RUNNING\<rparr>)
              else let (stopped, p) = eaf_pipeline_stop (p\<lparr>pl_state := EAF_RECOVERY\<rparr>)
                   in (if stopped \<noteq> EAF_OK then stopped else rc, p))"

text \<open>The test applied to the buffer after each node, against the sink's own copy.\<close>

definition corrupted :: "eaf_buffer_t \<Rightarrow> eaf_buffer_t \<Rightarrow> u32 \<Rightarrow> eaf_format_t \<Rightarrow> u8 \<Rightarrow> bool" where
  "corrupted owned buf block out_fmt ch \<longleftrightarrow>
     samples buf \<noteq> samples owned \<or> capacity_samples buf \<noteq> capacity_samples owned \<or>
     capacity_frames buf \<noteq> capacity_frames owned \<or> frame_count buf \<noteq> block \<or>
     \<not> eaf_format_valid (format buf) \<or> sample_rate (format buf) \<noteq> sample_rate out_fmt \<or>
     num_channels (format buf) < ch \<or> num_channels (format buf) > num_channels out_fmt"

fun process_nodes ::
  "nat list \<Rightarrow> eaf_buffer_t \<Rightarrow> u32 \<Rightarrow> eaf_format_t \<Rightarrow> eaf_result_t \<Rightarrow> 'n eaf_node_t list \<Rightarrow> eaf_buffer_t \<Rightarrow>
   eaf_result_t \<times> 'n eaf_node_t list \<times> eaf_buffer_t" where
  "process_nodes [] owned block out_fmt rc ns buf = (rc, ns, buf)"
| "process_nodes (i # is) owned block out_fmt rc ns buf =
     (if rc \<noteq> EAF_OK then (rc, ns, buf)
      else let ch = num_channels (format buf);
               (rc, n, buf) = call_node_process (ns ! i) buf;
               rc = (if corrupted owned buf block out_fmt ch then EAF_INVALID else rc)
           in process_nodes is owned block out_fmt rc (ns[i := n]) buf)"

definition silence_block :: "eaf_buffer_t \<Rightarrow> eaf_buffer_t \<Rightarrow> u32 \<Rightarrow> eaf_format_t \<Rightarrow> eaf_buffer_t" where
  "silence_block owned buf block out_fmt =
     owned\<lparr>format := out_fmt, frame_count := block,
       mem := blit (if samples buf = samples owned then mem buf else mem owned) 0
                (replicate (unat block * channels out_fmt) 0),
       flags := EAF_FRAME_SILENCE\<rparr>"

text \<open>
  The part of \<open>process\<close> between acquiring the buffer \<open>owned\<close> and committing it: the result
  code, whether the source ended, the block to commit, the reservoir and the nodes.
\<close>

definition block_result ::
  "('n, 's) eaf_pipeline_t \<Rightarrow> eaf_buffer_t \<Rightarrow>
   eaf_result_t \<times> bool \<times> eaf_buffer_t \<times> eaf_reservoir_t \<times> 'n eaf_node_t list" where
  "block_result p owned =
     (let (rc, woke, r, buf) = eaf_reservoir_pull (reservoir p) (owned\<lparr>frame_count := block_frames p\<rparr>);
          eos = (rc = EAF_OK \<and> flags buf AND EAF_FRAME_EOS \<noteq> 0);
          (rc, ns, buf) = process_nodes [0..<length (nodes p)] owned (block_frames p) (output_format p) rc (nodes p) buf;
          rc = (if rc = EAF_OK \<and> (\<not> eaf_format_equal (format buf) (output_format p) \<or> frame_count buf \<noteq> block_frames p)
                then EAF_INVALID else rc);
          buf = (if rc \<noteq> EAF_OK then silence_block owned buf (block_frames p) (output_format p) else buf);
          buf = (if rc = EAF_OK \<and> eos then buf\<lparr>flags := flags buf OR EAF_FRAME_EOS\<rparr> else buf)
      in (rc, eos, buf, r, ns))"

text \<open>The result also tells whether a block was committed, and which.\<close>

definition eaf_pipeline_process ::
  "('n, 's) eaf_pipeline_t \<Rightarrow> eaf_result_t \<times> eaf_buffer_t option \<times> ('n, 's) eaf_pipeline_t" where
  "eaf_pipeline_process p =
     (if pl_state p \<noteq> EAF_RUNNING then (EAF_STATE, None, p)
      else if completed p then (EAF_EOF, None, p)
      else let (rc, b, d) = the (sink_acquire (s_ops (sink p))) (driver_data (sink p));
               p = p\<lparr>sink := (sink p)\<lparr>driver_data := d\<rparr>\<rparr>;
               block = block_frames p; out_fmt = output_format p
           in if rc \<noteq> EAF_OK then (rc, None, p)
              else case b of None \<Rightarrow> (EAF_INVALID, None, p)
              | Some owned \<Rightarrow>
                if samples owned = 0 \<or> capacity_frames owned < block \<or>
                   capacity_samples owned div channels out_fmt < unat block
                then (EAF_INVALID, None, p)
                else let (rc, eos, buf, r, ns) = block_result p owned;
                         (commit, d) = the (sink_commit (s_ops (sink p))) (driver_data (sink p)) buf;
                         p = p\<lparr>reservoir := r, nodes := ns, sink := (sink p)\<lparr>driver_data := d\<rparr>\<rparr>
                     in if rc = EAF_OK \<and> commit = EAF_OK \<and> eos then (EAF_EOF, Some buf, p\<lparr>completed := True\<rparr>)
                        else (if rc \<noteq> EAF_OK then rc else commit, Some buf, p))"

definition eaf_pipeline_deinit :: "('n, 's) eaf_pipeline_t \<Rightarrow> eaf_result_t \<times> ('n, 's) eaf_pipeline_t" where
  "eaf_pipeline_deinit p =
     (if pl_state p = EAF_RUNNING then (EAF_STATE, p)
      else let (rc, p) = release p
           in if rc \<noteq> EAF_OK then (rc, p)
              else (EAF_OK, p\<lparr>pl_state := EAF_UNINITIALIZED, output_format := zero_format, block_frames := 0,
                             initialized_nodes := 0, sink_initialized := False, sink_ready := False,
                             completed := False\<rparr>))"

section \<open>Lifecycle invariant\<close>

definition is_set_up :: "eaf_pipeline_state_t \<Rightarrow> bool" where
  "is_set_up st \<longleftrightarrow> st = EAF_CONFIGURED \<or> st = EAF_RUNNING \<or> st = EAF_STOPPED"

text \<open>An output format the nodes may turn the reservoir's format into.\<close>

definition widens :: "eaf_format_t \<Rightarrow> eaf_format_t \<Rightarrow> bool" where
  "widens a b \<longleftrightarrow> eaf_format_valid b \<and> sample_rate b = sample_rate a \<and> num_channels a \<le> num_channels b"

definition pipeline_inv :: "('n, 's) eaf_pipeline_t \<Rightarrow> bool" where
  "pipeline_inv p \<longleftrightarrow>
     initialized_nodes p \<le> length (nodes p) \<and> (sink_ready p \<longrightarrow> sink_initialized p) \<and>
     (pl_state p = EAF_UNINITIALIZED \<longrightarrow> \<not> sink_initialized p \<and> initialized_nodes p = 0) \<and>
     (pl_state p = EAF_INITIALIZED \<longrightarrow> \<not> sink_ready p) \<and>
     (pl_state p = EAF_RECOVERY \<longrightarrow> sink_initialized p) \<and>
     (sink_ready p \<longrightarrow> initialized_nodes p = length (nodes p) \<and>
        widens (res_format (reservoir p)) (output_format p) \<and>
        0 < block_frames p \<and> block_frames p \<le> capacity (reservoir p)) \<and>
     (is_set_up (pl_state p) \<longrightarrow> sink_ready p) \<and>
     (pl_state p \<noteq> EAF_UNINITIALIZED \<longrightarrow> reservoir_inv (reservoir p))"

lemma length_release_nodes [simp]: "length (release_nodes k ns) = length ns"
  by (induction k ns rule: release_nodes.induct) simp_all

lemma length_reset_nodes: "reset_nodes is rc ns = (rc', ns') \<Longrightarrow> length ns' = length ns"
  by (induction "is" rc ns rule: reset_nodes.induct) (auto simp: Let_def split: prod.splits)

lemma release_without_sink:
  "\<not> sink_initialized p \<Longrightarrow> release p = (EAF_OK, p\<lparr>sink_initialized := False, sink_ready := False,
     nodes := release_nodes (initialized_nodes p) (nodes p), initialized_nodes := 0\<rparr>)"
  by (simp add: release_def)

lemma release_cases:
  assumes "release p = (rc, p')"
  obtains (ok) "rc = EAF_OK" "\<not> sink_initialized p'" "\<not> sink_ready p'" "initialized_nodes p' = 0"
      "pl_state p' = pl_state p"
    | (failed) "rc \<noteq> EAF_OK" "sink_initialized p'" "\<not> sink_ready p'" "pl_state p' = EAF_RECOVERY"
      "initialized_nodes p' = initialized_nodes p" "sink_initialized p"
  using assms by (cases "rc = EAF_OK") (auto simp: release_def Let_def split: if_splits prod.splits)

lemma release_keeps:
  assumes "release p = (rc, p')"
  shows "length (nodes p') = length (nodes p)" "reservoir p' = reservoir p" "completed p' = completed p"
    "sink_ops (sink p') = sink_ops (sink p)"
  using assms by (auto simp: release_def Let_def call_sink_def split: if_splits prod.splits)

lemma release_inv:
  assumes "pipeline_inv p" and "pl_state p \<noteq> EAF_UNINITIALIZED" and "release p = (rc, p')" and "rc \<noteq> EAF_OK"
  shows "pipeline_inv p'"
  using assms(3)
proof (cases rule: release_cases)
  case failed
  then show ?thesis using release_keeps [OF assms(3)] assms(1,2) by (simp add: pipeline_inv_def is_set_up_def)
qed (use assms in simp)

lemma init_inv:
  assumes "pipeline_inv p" and "eaf_pipeline_init p cfg = (rc, p')"
    and "\<And>r. cfg_reservoir cfg = Some r \<Longrightarrow> reservoir_inv r"
  shows "pipeline_inv p'"
  using assms by (auto simp: eaf_pipeline_init_def pipeline_inv_def is_set_up_def Let_def split: option.splits if_splits)

lemma widens_trans:
  "widens a b \<Longrightarrow> eaf_format_valid c \<Longrightarrow> sample_rate c = sample_rate b \<Longrightarrow> num_channels b \<le> num_channels c \<Longrightarrow> widens a c"
  by (auto simp: widens_def)

text \<open>What the node loop of \<open>configure\<close> leaves behind.\<close>

lemma configure_nodes_spec:
  assumes "configure_nodes [k..<length (nodes p)] fmt p = (r, p')" and "k \<le> length (nodes p)"
    and "initialized_nodes p = k" and "\<not> sink_initialized p" and "\<not> sink_ready p"
    and "pl_state p = EAF_INITIALIZED" and "widens fmt0 fmt"
  shows "length (nodes p') = length (nodes p) \<and> reservoir p' = reservoir p \<and> pl_state p' = EAF_INITIALIZED \<and>
    \<not> sink_initialized p' \<and> \<not> sink_ready p' \<and> completed p' = completed p \<and>
    (case r of Inl rc \<Rightarrow> rc \<noteq> EAF_OK \<and> initialized_nodes p' = 0
     | Inr fmt' \<Rightarrow> initialized_nodes p' = length (nodes p) \<and> widens fmt0 fmt')"
  using assms
proof (induction "length (nodes p) - k" arbitrary: k fmt p)
  case 0
  then show ?case by auto
next
  case (Suc d)
  then have upt: "[k..<length (nodes p)] = k # [Suc k..<length (nodes p)]" by (simp add: upt_conv_Cons)
  obtain rc out n where i: "call_node_init (nodes p ! k) fmt fmt = (rc, out, n)" by (metis prod_cases3)
  let ?p1 = "p\<lparr>nodes := (nodes p)[k := n], initialized_nodes := initialized_nodes p + 1\<rparr>"
  consider (fail) "rc \<noteq> EAF_OK"
    | (bad) "rc = EAF_OK" "\<not> eaf_format_valid out \<or> sample_rate out \<noteq> sample_rate fmt \<or> num_channels out < num_channels fmt"
    | (good) "rc = EAF_OK" "eaf_format_valid out" "sample_rate out = sample_rate fmt" "num_channels fmt \<le> num_channels out"
    by fastforce
  then show ?case
  proof cases
    case fail
    have "(r, p') = (Inl rc, snd (release (p\<lparr>nodes := (nodes p)[k := call_node_deinit n]\<rparr>)))"
      using Suc.prems(1) i fail by (simp add: upt Let_def)
    then show ?thesis using Suc.prems(4-6) fail by (simp add: release_without_sink)
  next
    case bad
    have "(r, p') = (Inl EAF_INVALID, snd (release ?p1))"
      using Suc.prems(1) i bad by (simp add: upt Let_def)
    then show ?thesis using Suc.prems(4-6) by (simp add: release_without_sink)
  next
    case good
    have w: "widens fmt0 out" by (rule widens_trans [OF Suc.prems(7) good(2-4)])
    have c: "configure_nodes [Suc k..<length (nodes ?p1)] out ?p1 = (r, p')"
      using Suc.prems(1) i good by (simp add: upt Let_def not_less [symmetric])
    have "d = length (nodes ?p1) - Suc k" "Suc k \<le> length (nodes ?p1)" using Suc.hyps(2) by simp_all
    note H = Suc.hyps(1) [OF this(1) c this(2) _ _ _ _ w]
    show ?thesis using H Suc.prems(3-6) by (simp split: sum.splits)
  qed
qed

lemma widens_refl: "eaf_format_valid fmt \<Longrightarrow> widens fmt fmt"
  by (simp add: widens_def)

lemma configure_inv:
  assumes inv: "pipeline_inv p" and c: "eaf_pipeline_configure p block = (rc, p')"
  shows "pipeline_inv p'"
proof (cases "(pl_state p \<noteq> EAF_INITIALIZED \<and> pl_state p \<noteq> EAF_STOPPED \<and> pl_state p \<noteq> EAF_CONFIGURED) \<or>
    block = 0 \<or> block > capacity (reservoir p)")
  case True
  then show ?thesis using c inv by (auto simp: eaf_pipeline_configure_def split: if_splits)
next
  case False
  then have st: "pl_state p \<noteq> EAF_UNINITIALIZED" and block: "0 < block" "block \<le> capacity (reservoir p)"
    by (auto simp: word_gt_0)
  then have res: "reservoir_inv (reservoir p)" using inv by (simp add: pipeline_inv_def)
  obtain cleanup p1 where rel: "release p = (cleanup, p1)" by fastforce
  note K = release_keeps [OF rel]
  show ?thesis
  proof (cases "cleanup = EAF_OK")
    case no: False
    then have "p' = p1" using c False rel by (auto simp: eaf_pipeline_configure_def)
    then show ?thesis using release_inv [OF inv st rel no] by simp
  next
    case ok: True
    let ?p2 = "p1\<lparr>pl_state := EAF_INITIALIZED\<rparr>"
    obtain r p3 where cn: "configure_nodes [0..<length (nodes ?p2)] (res_format (reservoir ?p2)) ?p2 = (r, p3)" by fastforce
    have p1: "\<not> sink_initialized p1" "\<not> sink_ready p1" "initialized_nodes p1 = 0"
      using rel ok by (auto elim!: release_cases)
    have w: "widens (res_format (reservoir p)) (res_format (reservoir p))"
      using res by (simp add: widens_refl reservoir_inv_def)
    note S = configure_nodes_spec [OF cn, of "res_format (reservoir p)"]
    show ?thesis
    proof (cases r)
      case (Inl e)
      then have "p' = p3" using c False rel ok cn by (auto simp: eaf_pipeline_configure_def Let_def)
      then show ?thesis using S p1 w K res Inl by (simp add: pipeline_inv_def is_set_up_def)
    next
      case (Inr fmt)
      have p3: "length (nodes p3) = length (nodes p1)" "reservoir p3 = reservoir p" "initialized_nodes p3 = length (nodes p1)"
        "pl_state p3 = EAF_INITIALIZED" "widens (res_format (reservoir p)) fmt" "\<not> sink_ready p3"
        using S p1 w K Inr by simp_all
      obtain rc2 d where si: "the (sink_init (s_ops (sink p3))) (driver_data (sink p3)) fmt (unat block) = (rc2, d)" by fastforce
      let ?p4 = "p3\<lparr>sink_initialized := True, sink := (sink p3)\<lparr>driver_data := d\<rparr>\<rparr>"
      show ?thesis
      proof (cases "rc2 = EAF_OK")
        case True
        then have "p' = ?p4\<lparr>sink_ready := True, output_format := fmt, block_frames := block, pl_state := EAF_CONFIGURED\<rparr>"
          using c False rel ok cn Inr si by (auto simp: eaf_pipeline_configure_def Let_def)
        then show ?thesis using p3 block res by (simp add: pipeline_inv_def is_set_up_def)
      next
        case no: False
        obtain cl p5 where r5: "release ?p4 = (cl, p5)" by fastforce
        have p': "p' = p5"
          using c False rel ok cn Inr si no r5 by (auto simp: eaf_pipeline_configure_def Let_def)
        have "pipeline_inv ?p4" using p3 res by (simp add: pipeline_inv_def is_set_up_def)
        then have "cl \<noteq> EAF_OK \<Longrightarrow> pipeline_inv p5" using release_inv [OF _ _ r5] p3 by simp
        moreover have "pipeline_inv p5" if "cl = EAF_OK"
          using r5 that release_keeps [OF r5] p3 res
          by (auto elim!: release_cases simp: pipeline_inv_def is_set_up_def)
        ultimately show ?thesis using p' by blast
      qed
    qed
  qed
qed

lemma stop_inv:
  assumes inv: "pipeline_inv p" and c: "eaf_pipeline_stop p = (rc, p')"
  shows "pipeline_inv p'"
proof (cases "pl_state p \<noteq> EAF_RUNNING \<and> pl_state p \<noteq> EAF_RECOVERY")
  case True
  then show ?thesis using c inv by (auto simp: eaf_pipeline_stop_def)
next
  case False
  obtain rc1 s where k: "call_sink sink_stop (sink p) = (rc1, s)" by fastforce
  obtain rc2 ns where r: "reset_nodes [0..<initialized_nodes p] EAF_OK (nodes p) = (rc2, ns)" by fastforce
  show ?thesis
  proof (cases "rc1 = EAF_OK")
    case True
    then have "p' = p\<lparr>sink := s, pl_state := if sink_ready p then EAF_STOPPED else EAF_INITIALIZED, nodes := ns\<rparr>"
      using c False k r by (auto simp: eaf_pipeline_stop_def Let_def)
    then show ?thesis using inv False length_reset_nodes [OF r] by (auto simp: pipeline_inv_def is_set_up_def)
  next
    case no: False
    then have "p' = p\<lparr>sink := s\<rparr>" using c False k by (auto simp: eaf_pipeline_stop_def Let_def)
    then show ?thesis using inv by (simp add: pipeline_inv_def is_set_up_def)
  qed
qed

lemma start_inv:
  assumes inv: "pipeline_inv p" and c: "eaf_pipeline_start p = (rc, p')"
  shows "pipeline_inv p'"
proof (cases "pl_state p \<noteq> EAF_CONFIGURED \<and> pl_state p \<noteq> EAF_STOPPED")
  case True
  then show ?thesis using c inv by (auto simp: eaf_pipeline_start_def)
next
  case False
  let ?p1 = "p\<lparr>reservoir := eaf_reservoir_reset (reservoir p), completed := False\<rparr>"
  obtain rc1 s where k: "call_sink sink_start (sink p) = (rc1, s)" by fastforce
  have su: "is_set_up (pl_state p)" using False by (auto simp: is_set_up_def)
  have cap: "capacity (eaf_reservoir_reset (reservoir p)) = capacity (reservoir p)"
    "res_format (eaf_reservoir_reset (reservoir p)) = res_format (reservoir p)"
    by (simp_all add: eaf_reservoir_reset_def)
  have rv: "reservoir_inv (eaf_reservoir_reset (reservoir p))"
    using inv su by (intro reset_inv) (auto simp: pipeline_inv_def is_set_up_def)
  show ?thesis
  proof (cases "rc1 = EAF_OK")
    case True
    then have "p' = ?p1\<lparr>sink := s, pl_state := EAF_RUNNING\<rparr>"
      using c False k by (auto simp: eaf_pipeline_start_def Let_def)
    then show ?thesis using inv su cap rv by (auto simp: pipeline_inv_def is_set_up_def)
  next
    case no: False
    let ?p2 = "?p1\<lparr>sink := s, pl_state := EAF_RECOVERY\<rparr>"
    obtain rc2 p2 where st: "eaf_pipeline_stop ?p2 = (rc2, p2)" by fastforce
    have "pipeline_inv ?p2" using inv su cap rv by (auto simp: pipeline_inv_def is_set_up_def)
    from stop_inv [OF this st] show ?thesis
      using c False k no st by (auto simp: eaf_pipeline_start_def Let_def split: if_splits)
  qed
qed

lemma deinit_inv:
  assumes inv: "pipeline_inv p" and c: "eaf_pipeline_deinit p = (rc, p')"
  shows "pipeline_inv p'"
proof (cases "pl_state p = EAF_RUNNING")
  case True
  then show ?thesis using c inv by (auto simp: eaf_pipeline_deinit_def)
next
  case False
  obtain rc1 p1 where r: "release p = (rc1, p1)" by fastforce
  show ?thesis
  proof (cases "rc1 = EAF_OK")
    case True
    then show ?thesis using c False r by (auto simp: eaf_pipeline_deinit_def pipeline_inv_def is_set_up_def)
  next
    case no: False
    then have "sink_initialized p" using r by (auto elim: release_cases)
    then have "pl_state p \<noteq> EAF_UNINITIALIZED" using inv by (auto simp: pipeline_inv_def)
    then show ?thesis using release_inv [OF inv _ r no] c False r no by (auto simp: eaf_pipeline_deinit_def)
  qed
qed

section \<open>Processing a block\<close>

text \<open>
  What the pipeline relies on, for a set \<open>I\<close> of states of the driver: every call of the table keeps \<open>I\<close>, a lent array has the size it is
  declared with, and a commit gets an array of that size back. The null sink and the I2S core have it with their own invariants.
\<close>

definition sink_keeps :: "('s \<Rightarrow> bool) \<Rightarrow> 's eaf_sink_ops \<Rightarrow> bool" where
  "sink_keeps I ops \<longleftrightarrow> (\<forall>d. I d \<longrightarrow>
     (\<forall>fmt n. I (snd (the (sink_init ops) d fmt n))) \<and> I (snd (the (sink_start ops) d)) \<and> I (snd (the (sink_stop ops) d)) \<and>
     I (snd (the (sink_deinit ops) d)) \<and>
     (\<forall>rc b d'. the (sink_acquire ops) d = (rc, b, d') \<longrightarrow> I d' \<and>
        (\<forall>own. rc = EAF_OK \<longrightarrow> b = Some own \<longrightarrow> length (mem own) = capacity_samples own \<and>
           (\<forall>buf. capacity_samples buf = capacity_samples own \<longrightarrow> length (mem buf) = capacity_samples own \<longrightarrow>
              I (snd (the (sink_commit ops) d' buf))))))"

definition honest_sink :: "('s \<Rightarrow> bool) \<Rightarrow> 's eaf_sink_t \<Rightarrow> bool" where
  "honest_sink I s \<longleftrightarrow> I (driver_data s) \<and> sink_keeps I (s_ops s)"

text \<open>A node works in the array it is given.\<close>

definition in_place :: "'n eaf_node_t \<Rightarrow> bool" where
  "in_place n \<longleftrightarrow> (\<forall>c b. length (mem b) = capacity_samples b \<longrightarrow> length (mem (snd (snd (the (node_process (n_ops n)) c b)))) = length (mem b))"

definition devices_ok :: "('s \<Rightarrow> bool) \<Rightarrow> ('n, 's) eaf_pipeline_t \<Rightarrow> bool" where
  "devices_ok I p \<longleftrightarrow> honest_sink I (sink p) \<and> list_all in_place (nodes p)"

definition same_storage :: "eaf_buffer_t \<Rightarrow> eaf_buffer_t \<Rightarrow> bool" where
  "same_storage a b \<longleftrightarrow> samples a = samples b \<and> capacity_samples a = capacity_samples b \<and>
     capacity_frames a = capacity_frames b \<and> frame_count a = frame_count b"

lemma pull_finished_storage:
  "pull_finished r buf = (r', buf') \<Longrightarrow>
   same_storage buf' buf \<and> capacity r' = capacity r \<and> res_format r' = res_format r"
  by (auto simp: pull_finished_def Let_def same_storage_def)

lemma pull_streaming_storage:
  "pull_streaming r buf = (av, r', buf') \<Longrightarrow>
   same_storage buf' buf \<and> capacity r' = capacity r \<and> res_format r' = res_format r"
  unfolding pull_streaming_def Let_def
  by (simp only: split: if_splits) (auto simp: same_storage_def)

lemma pull_keeps_storage:
  assumes inv: "reservoir_inv r" and len: "length (mem buf) = capacity_samples buf"
    and p: "eaf_reservoir_pull r buf = (rc, woke, r', buf')"
  shows "same_storage buf' buf \<and> capacity r' = capacity r \<and> res_format r' = res_format r"
proof (cases "pull_accepts r buf")
  case False
  then show ?thesis using pull_rejects [OF inv len] p by (simp add: same_storage_def)
next
  case True
  let ?b = "buf\<lparr>format := res_format r, flags := 0\<rparr>" and ?n = "unat (frame_count buf)"
  have b: "same_storage x ?b = same_storage x buf" for x by (simp add: same_storage_def)
  consider (fin) "finished r \<noteq> 0" | (play) "finished r = 0" "pull_plays r ?n"
    | (wait) "finished r = 0" "\<not> pull_plays r ?n" by blast
  then show ?thesis
  proof cases
    case fin
    then have "pull_finished r ?b = (r', buf')"
      using p pull_guardD [OF inv True] by (auto simp: eaf_reservoir_pull_def Let_def split: prod.splits)
    from pull_finished_storage [OF this] b show ?thesis by simp
  next
    case play
    obtain av where "pull_streaming (r\<lparr>res_state := EAF_RESERVOIR_STREAMING\<rparr>) ?b = (av, r', buf')"
      using p pull_branches(1) [OF inv True play] by (auto split: prod.splits)
    from pull_streaming_storage [OF this] b show ?thesis by simp
  next
    case wait
    then show ?thesis using p pull_branches(2) [OF inv True wait] by (auto simp: same_storage_def)
  qed
qed

text \<open>If every node succeeded, the buffer is still the sink's, in a valid format.\<close>

lemma process_nodes_spec:
  assumes "process_nodes is owned block out_fmt rc ns buf = (rc', ns', buf')"
    and "samples buf = samples owned" and "capacity_samples buf = capacity_samples owned"
    and "capacity_frames buf = capacity_frames owned" and "frame_count buf = block"
  shows "length ns' = length ns" and "rc' = EAF_OK \<Longrightarrow> rc = EAF_OK \<and> samples buf' = samples owned \<and>
    capacity_samples buf' = capacity_samples owned \<and> capacity_frames buf' = capacity_frames owned \<and>
    frame_count buf' = block"
proof -
  have "length ns' = length ns \<and> (rc' = EAF_OK \<longrightarrow> rc = EAF_OK \<and> samples buf' = samples owned \<and>
    capacity_samples buf' = capacity_samples owned \<and> capacity_frames buf' = capacity_frames owned \<and>
    frame_count buf' = block)"
    using assms
  proof (induction "is" owned block out_fmt rc ns buf rule: process_nodes.induct)
    case (1 owned block out_fmt rc ns buf)
    then show ?case by auto
  next
    case (2 i "is" owned block out_fmt rc ns buf)
    show ?case
    proof (cases "rc = EAF_OK")
      case False
      with "2.prems" show ?thesis by auto
    next
      case True
      obtain rc1 n buf1 where c: "call_node_process (ns ! i) buf = (rc1, n, buf1)" by (metis prod_cases3)
      define rc2 where "rc2 = (if corrupted owned buf1 block out_fmt (num_channels (format buf)) then EAF_INVALID else rc1)"
      have rest: "process_nodes is owned block out_fmt rc2 (ns[i := n]) buf1 = (rc', ns', buf')"
        using "2.prems"(1) True c by (simp add: rc2_def)
      show ?thesis
      proof (cases "rc2 = EAF_OK")
        case ok: True
        then have "\<not> corrupted owned buf1 block out_fmt (num_channels (format buf))"
          by (auto simp: rc2_def)
        then have "samples buf1 = samples owned" "capacity_samples buf1 = capacity_samples owned"
          "capacity_frames buf1 = capacity_frames owned" "frame_count buf1 = block"
          by (auto simp: corrupted_def)
        then show ?thesis
          using "2.IH" [OF _ refl c [symmetric] refl refl, of rc2] True rest by (auto simp: rc2_def)
      next
        case no: False
        have "process_nodes is owned block out_fmt rc2 (ns[i := n]) buf1 = (rc2, ns[i := n], buf1)"
          using no by (cases "is") simp_all
        with rest no show ?thesis by auto
      qed
    qed
  qed
  then show "length ns' = length ns" and "rc' = EAF_OK \<Longrightarrow> rc = EAF_OK \<and> samples buf' = samples owned \<and>
    capacity_samples buf' = capacity_samples owned \<and> capacity_frames buf' = capacity_frames owned \<and>
    frame_count buf' = block" by blast+
qed

lemma process_unfold:
  assumes "pl_state p = EAF_RUNNING" and "\<not> completed p"
    and "the (sink_acquire (s_ops (sink p))) (driver_data (sink p)) = (EAF_OK, Some owned, d)"
    and "samples owned \<noteq> 0" and "block_frames p \<le> capacity_frames owned"
    and "unat (block_frames p) \<le> capacity_samples owned div channels (output_format p)"
    and "block_result p owned = (rc, eos, buf, r, ns)"
    and "the (sink_commit (s_ops (sink p))) d buf = (commit, d')"
  shows "eaf_pipeline_process p =
    (let p' = p\<lparr>sink := (sink p)\<lparr>driver_data := d'\<rparr>, reservoir := r, nodes := ns\<rparr>
     in if rc = EAF_OK \<and> commit = EAF_OK \<and> eos then (EAF_EOF, Some buf, p'\<lparr>completed := True\<rparr>)
        else (if rc \<noteq> EAF_OK then rc else commit, Some buf, p'))"
proof -
  have "block_result (p\<lparr>sink := s\<rparr>) owned = block_result p owned" for s
    by (simp add: block_result_def cong: if_cong)
  with assms show ?thesis unfolding eaf_pipeline_process_def by (simp add: Let_def not_less)
qed

lemma or_and_absorb: "(x OR y) AND y = (y::'a::len word)"
  by (rule bit_word_eqI) (auto simp: bit_simps)

text \<open>The block that reaches the sink.\<close>

lemma block_result_spec:
  assumes inv: "reservoir_inv (reservoir p)" and len: "length (mem owned) = capacity_samples owned"
    and b: "block_result p owned = (rc, eos, buf, r, ns)"
  shows "samples buf = samples owned" "format buf = output_format p" "frame_count buf = block_frames p"
    "capacity_samples buf = capacity_samples owned"
    "length ns = length (nodes p)" "reservoir_inv r" "capacity r = capacity (reservoir p)"
    "res_format r = res_format (reservoir p)"
    "rc \<noteq> EAF_OK \<Longrightarrow> flags buf = EAF_FRAME_SILENCE \<and>
       take (unat (block_frames p) * channels (output_format p)) (mem buf)
         = replicate (unat (block_frames p) * channels (output_format p)) 0"
    "eos \<Longrightarrow> res_state r = EAF_RESERVOIR_DRAINED \<and> (rc = EAF_OK \<longrightarrow> flags buf AND EAF_FRAME_EOS \<noteq> 0)"
proof -
  let ?o = "owned\<lparr>frame_count := block_frames p\<rparr>"
  obtain rc1 woke r1 b1 where pull: "eaf_reservoir_pull (reservoir p) ?o = (rc1, woke, r1, b1)" by (metis prod_cases4)
  obtain rc2 ns2 b2 where pn: "process_nodes [0..<length (nodes p)] owned (block_frames p) (output_format p) rc1 (nodes p) b1
      = (rc2, ns2, b2)" by (metis prod_cases3)
  let ?bad = "rc2 = EAF_OK \<and> (\<not> eaf_format_equal (format b2) (output_format p) \<or> frame_count b2 \<noteq> block_frames p)"
  have B: "rc = (if ?bad then EAF_INVALID else rc2)" "eos = (rc1 = EAF_OK \<and> flags b1 AND EAF_FRAME_EOS \<noteq> 0)"
    "r = r1" "ns = ns2"
    "buf = (if rc \<noteq> EAF_OK then silence_block owned b2 (block_frames p) (output_format p)
            else if eos then b2\<lparr>flags := flags b2 OR EAF_FRAME_EOS\<rparr> else b2)"
    using b pull pn by (auto simp: block_result_def Let_def split: if_splits)
  have st: "same_storage b1 ?o" "capacity r1 = capacity (reservoir p)" "res_format r1 = res_format (reservoir p)"
    using pull_keeps_storage [OF inv _ pull] len by simp_all
  note N = process_nodes_spec [OF pn]
  have good: "rc2 = EAF_OK" "\<not> ?bad" if "rc = EAF_OK" using that B(1) by (auto split: if_splits)
  have st2: "samples b1 = samples owned" "capacity_samples b1 = capacity_samples owned"
    "capacity_frames b1 = capacity_frames owned" "frame_count b1 = block_frames p"
    using st(1) by (simp_all add: same_storage_def)
  note N' = N(1) [OF st2] N(2) [OF st2]
  show "samples buf = samples owned" "format buf = output_format p" "frame_count buf = block_frames p"
    "capacity_samples buf = capacity_samples owned"
    using good N'(2) by (cases "rc = EAF_OK"; auto simp: B(5) silence_block_def)+
  show "length ns = length (nodes p)" using N'(1) by (simp add: B)
  have "length (mem ?o) = capacity_samples ?o" using len by simp
  from pull_conserves(1) [OF inv this pull] show "reservoir_inv r" by (simp add: B(3))
  show "capacity r = capacity (reservoir p)" "res_format r = res_format (reservoir p)" using st by (simp_all add: B(3))
  show "rc \<noteq> EAF_OK \<Longrightarrow> flags buf = EAF_FRAME_SILENCE \<and>
       take (unat (block_frames p) * channels (output_format p)) (mem buf)
         = replicate (unat (block_frames p) * channels (output_format p)) 0"
    by (simp add: B(5) silence_block_def blit_def)
  show "res_state r = EAF_RESERVOIR_DRAINED \<and> (rc = EAF_OK \<longrightarrow> flags buf AND EAF_FRAME_EOS \<noteq> 0)" if eos
  proof -
    have e: "rc1 = EAF_OK" "flags b1 AND EAF_FRAME_EOS \<noteq> 0" using that B(2) by simp_all
    have acc: "pull_accepts (reservoir p) ?o"
    proof (rule ccontr)
      assume "\<not> pull_accepts (reservoir p) ?o"
      with pull_rejects [OF inv _ this] pull len e(1) show False by simp
    qed
    note P = pull_spec(3) [OF inv acc pull]
    have "flags b1 = pull_flags (reservoir p) (unat (block_frames p))"
      "res_state r1 = pull_state (reservoir p) (unat (block_frames p))"
      using P by (simp_all add: pulled_def Let_def)
    then have "res_state r1 = EAF_RESERVOIR_DRAINED"
      using e(2) by (auto simp: pull_flags_def pull_state_def split: if_splits)
    moreover have "rc = EAF_OK \<longrightarrow> flags buf AND EAF_FRAME_EOS \<noteq> 0"
      using that by (simp add: B(5) or_and_absorb)
    ultimately show ?thesis using B(3) by simp
  qed
qed

lemma process_cases:
  assumes "eaf_pipeline_process p = (rc, committed, p')" and "pipeline_inv p"
  obtains (idle) d where "committed = None" "p' = p\<lparr>sink := (sink p)\<lparr>driver_data := d\<rparr>\<rparr>"
      "d = driver_data (sink p) \<or> d = snd (snd (the (sink_acquire (s_ops (sink p))) (driver_data (sink p))))"
    | (block) owned d brc eos buf r ns commit d' where
      "pl_state p = EAF_RUNNING" "\<not> completed p"
      "the (sink_acquire (s_ops (sink p))) (driver_data (sink p)) = (EAF_OK, Some owned, d)"
      "unat (block_frames p) * channels (output_format p) \<le> capacity_samples owned"
      "block_result p owned = (brc, eos, buf, r, ns)" "committed = Some buf"
      "rc = (if brc = EAF_OK \<and> commit = EAF_OK \<and> eos then EAF_EOF else if brc \<noteq> EAF_OK then brc else commit)"
      "p' = p\<lparr>sink := (sink p)\<lparr>driver_data := d'\<rparr>, reservoir := r, nodes := ns,
              completed := (brc = EAF_OK \<and> commit = EAF_OK \<and> eos)\<rparr>"
      "the (sink_commit (s_ops (sink p))) d buf = (commit, d')"
proof (cases "pl_state p = EAF_RUNNING \<and> \<not> completed p")
  case False
  then show thesis using assms(1) idle [of "driver_data (sink p)"]
    by (auto simp: eaf_pipeline_process_def split: if_splits)
next
  case True
  obtain rc1 b d where acq: "the (sink_acquire (s_ops (sink p))) (driver_data (sink p)) = (rc1, b, d)" by (metis prod_cases3)
  have valid: "0 < channels (output_format p)"
    using assms(2) True format_valid_channels(1) by (auto simp: pipeline_inv_def is_set_up_def widens_def)
  show thesis
  proof (cases "rc1 = EAF_OK \<and> b \<noteq> None \<and> samples (the b) \<noteq> 0 \<and> block_frames p \<le> capacity_frames (the b) \<and>
      unat (block_frames p) \<le> capacity_samples (the b) div channels (output_format p)")
    case False
    then have "committed = None \<and> p' = p\<lparr>sink := (sink p)\<lparr>driver_data := d\<rparr>\<rparr>"
      using assms(1) True acq
      by (auto simp: eaf_pipeline_process_def Let_def not_less split: if_splits option.splits)
    then show thesis using idle [of d] acq by simp
  next
    case ok: True
    then obtain owned where b: "b = Some owned" "rc1 = EAF_OK" by auto
    obtain brc eos buf r ns where br: "block_result p owned = (brc, eos, buf, r, ns)" by (metis prod_cases5)
    obtain commit d' where c: "the (sink_commit (s_ops (sink p))) d buf = (commit, d')" by fastforce
    have acq': "the (sink_acquire (s_ops (sink p))) (driver_data (sink p)) = (EAF_OK, Some owned, d)"
      using acq b by simp
    have fits: "unat (block_frames p) * channels (output_format p) \<le> capacity_samples owned"
      using ok b valid by (simp add: less_eq_div_iff_mult_less_eq)
    have u: "eaf_pipeline_process p =
      (let p' = p\<lparr>sink := (sink p)\<lparr>driver_data := d'\<rparr>, reservoir := r, nodes := ns\<rparr>
       in if brc = EAF_OK \<and> commit = EAF_OK \<and> eos then (EAF_EOF, Some buf, p'\<lparr>completed := True\<rparr>)
          else (if brc \<noteq> EAF_OK then brc else commit, Some buf, p'))"
      using process_unfold [OF _ _ acq' _ _ _ br c] True ok b by simp
    have same: "q\<lparr>completed := False\<rparr> = q" if "\<not> completed q" for q :: "('n, 's) eaf_pipeline_t" using that by simp
    have "p' = p\<lparr>sink := (sink p)\<lparr>driver_data := d'\<rparr>, reservoir := r, nodes := ns,
              completed := (brc = EAF_OK \<and> commit = EAF_OK \<and> eos)\<rparr>"
      "rc = (if brc = EAF_OK \<and> commit = EAF_OK \<and> eos then EAF_EOF else if brc \<noteq> EAF_OK then brc else commit)"
      "committed = Some buf"
      using u assms(1) True same by (auto simp: Let_def split: if_splits)
    then show thesis using block [OF _ _ acq' fits br _ _ _ c] True by blast
  qed
qed

lemma acquired_size:
  assumes "devices_ok I p" and "the (sink_acquire (s_ops (sink p))) (driver_data (sink p)) = (EAF_OK, Some owned, d)"
  shows "length (mem owned) = capacity_samples owned"
  using assms unfolding devices_ok_def honest_sink_def sink_keeps_def by blast

lemma process_inv:
  assumes inv: "pipeline_inv p" and dev: "devices_ok I p" and c: "eaf_pipeline_process p = (rc, committed, p')"
  shows "pipeline_inv p'"
  using c inv
proof (cases rule: process_cases)
  case (idle d)
  then show ?thesis using inv by (simp add: pipeline_inv_def is_set_up_def)
next
  case (block owned d brc eos buf r ns commit d')
  have su: "reservoir_inv (reservoir p)" using inv block(1) by (simp add: pipeline_inv_def)
  have len: "length (mem owned) = capacity_samples owned" by (rule acquired_size [OF dev block(3)])
  note B = block_result_spec [OF su len block(5)]
  show ?thesis using inv B(5-8) block(1,8) by (simp add: pipeline_inv_def is_set_up_def)
qed

section \<open>Every use of the pipeline\<close>

lemma in_place_ops: "node_ops n' = node_ops n \<Longrightarrow> in_place n' = in_place n"
  by (simp add: in_place_def)

lemma calls_in_place:
  "in_place (call_node_deinit n) = in_place n"
  "call_node_init n a b = (rc, out, n') \<Longrightarrow> in_place n' = in_place n"
  "call_node_process n buf = (rc, n', buf') \<Longrightarrow> in_place n' = in_place n"
  "call_node_reset n = (rc, n') \<Longrightarrow> in_place n' = in_place n"
  by (auto simp: call_node_deinit_def call_node_init_def call_node_process_def call_node_reset_def Let_def intro!: in_place_ops split: prod.splits)

lemma list_all_update: "list_all P xs \<Longrightarrow> (i < length xs \<Longrightarrow> P x) \<Longrightarrow> list_all P (xs[i := x])"
  by (cases "i < length xs") (auto simp: list_all_length nth_list_update)

lemma update_in_place: "list_all in_place ns \<Longrightarrow> (i < length ns \<Longrightarrow> in_place n = in_place (ns ! i)) \<Longrightarrow> list_all in_place (ns[i := n])"
  by (rule list_all_update) (auto simp: list_all_length)

lemma release_nodes_in_place: "list_all in_place ns \<Longrightarrow> list_all in_place (release_nodes k ns)"
  by (induction k ns rule: release_nodes.induct) (simp_all add: update_in_place calls_in_place)

lemma reset_nodes_in_place: "reset_nodes is rc ns = (rc', ns') \<Longrightarrow> list_all in_place ns \<Longrightarrow> list_all in_place ns'"
proof (induction "is" rc ns rule: reset_nodes.induct)
  case (2 i "is" rc ns)
  obtain r n where c: "call_node_reset (ns ! i) = (r, n)" by fastforce
  then have "list_all in_place (ns[i := n])" using "2.prems"(2) calls_in_place(4) by (intro update_in_place) auto
  then show ?case using "2.IH" [OF c [symmetric] refl] "2.prems"(1) c by simp
qed simp

lemma sink_calls_honest:
  assumes "honest_sink I s"
  shows "call_sink sink_start s = (rc, s') \<Longrightarrow> honest_sink I s'" "call_sink sink_stop s = (rc, s') \<Longrightarrow> honest_sink I s'"
    "call_sink sink_deinit s = (rc, s') \<Longrightarrow> honest_sink I s'"
    "the (sink_init (s_ops s)) (driver_data s) fmt n = (rc, d) \<Longrightarrow> honest_sink I (s\<lparr>driver_data := d\<rparr>)"
  using assms unfolding honest_sink_def sink_keeps_def call_sink_def by (auto simp: Let_def split: prod.splits) (metis snd_conv)+

lemma release_devices: "devices_ok I p \<Longrightarrow> release p = (rc, p') \<Longrightarrow> devices_ok I p'"
  using sink_calls_honest(3) [of I "sink p"] by (auto simp: release_def devices_ok_def Let_def release_nodes_in_place split: if_splits prod.splits)

lemma stop_devices: "devices_ok I p \<Longrightarrow> eaf_pipeline_stop p = (rc, p') \<Longrightarrow> devices_ok I p'"
  using sink_calls_honest(2) [of I "sink p"] by (auto simp: eaf_pipeline_stop_def devices_ok_def Let_def dest: reset_nodes_in_place split: if_splits prod.splits)

lemma configure_nodes_devices: "configure_nodes is fmt p = (r, p') \<Longrightarrow> devices_ok I p \<Longrightarrow> devices_ok I p'"
proof (induction "is" fmt p rule: configure_nodes.induct)
  case (2 i "is" fmt p)
  obtain rc out n where i: "call_node_init (nodes p ! i) fmt fmt = (rc, out, n)" by (metis prod_cases3)
  have rel: "devices_ok I (snd (release q))" if "devices_ok I q" for q :: "('a, 'b) eaf_pipeline_t"
    using release_devices [OF that] by (metis prod.collapse)
  have d: "devices_ok I (p\<lparr>nodes := (nodes p)[i := n], initialized_nodes := k\<rparr>)" "devices_ok I (p\<lparr>nodes := (nodes p)[i := call_node_deinit n]\<rparr>)" for k
    using "2.prems"(2) calls_in_place(1) calls_in_place(2) [OF i] by (auto simp: devices_ok_def intro!: update_in_place)
  show ?case
  proof (cases "rc = EAF_OK \<and> eaf_format_valid out \<and> sample_rate out = sample_rate fmt \<and> \<not> num_channels out < num_channels fmt")
    case True
    then show ?thesis using "2.prems" "2.IH" [OF i [symmetric] refl] i d by (simp add: Let_def)
  next
    case False
    then show ?thesis using "2.prems" i rel d by (auto simp: Let_def split: if_splits)
  qed
qed simp

lemma configure_devices:
  assumes dev: "devices_ok I p" and "eaf_pipeline_configure p block = (rc, p')"
  shows "devices_ok I p'"
proof -
  obtain cl p1 where r: "release p = (cl, p1)" by fastforce
  let ?q = "p1\<lparr>pl_state := EAF_INITIALIZED\<rparr>"
  obtain x p2 where c: "configure_nodes [0..<length (nodes ?q)] (res_format (reservoir ?q)) ?q = (x, p2)" by fastforce
  have k1: "devices_ok I p1" by (rule release_devices [OF dev r])
  then have k2: "devices_ok I p2" using configure_nodes_devices [OF c, of I] by (simp add: devices_ok_def)
  show ?thesis
  proof (cases x)
    case (Inl e)
    then have "p' = p \<or> p' = p1 \<or> p' = p2"
      using assms(2) r c by (auto simp: eaf_pipeline_configure_def Let_def split: if_splits)
    then show ?thesis using dev k1 k2 by auto
  next
    case (Inr fmt)
    obtain rc2 d where si: "the (sink_init (s_ops (sink p2))) (driver_data (sink p2)) fmt (unat block) = (rc2, d)" by fastforce
    let ?p3 = "p2\<lparr>sink_initialized := True, sink := (sink p2)\<lparr>driver_data := d\<rparr>\<rparr>"
    have k3: "devices_ok I ?p3" using k2 sink_calls_honest(4) [OF _ si, of I] by (simp add: devices_ok_def)
    obtain rc4 p4 where r4: "release ?p3 = (rc4, p4)" by fastforce
    have "p' = p \<or> p' = p1 \<or> p' = p4 \<or> p' = ?p3\<lparr>sink_ready := True, output_format := fmt, block_frames := block, pl_state := EAF_CONFIGURED\<rparr>"
      using assms(2) r c Inr si r4 by (auto simp: eaf_pipeline_configure_def Let_def split: if_splits)
    then show ?thesis using dev k1 k3 release_devices [OF k3 r4] by (auto simp: devices_ok_def)
  qed
qed

lemma start_devices:
  assumes dev: "devices_ok I p" and "eaf_pipeline_start p = (rc, p')"
  shows "devices_ok I p'"
proof -
  obtain rc1 s where k: "call_sink sink_start (sink p) = (rc1, s)" by fastforce
  then have s: "honest_sink I s" using sink_calls_honest(1) dev by (auto simp: devices_ok_def)
  let ?q = "p\<lparr>reservoir := eaf_reservoir_reset (reservoir p), completed := False, sink := s, pl_state := EAF_RECOVERY\<rparr>"
  obtain rc2 p2 where st: "eaf_pipeline_stop ?q = (rc2, p2)" by fastforce
  have "devices_ok I ?q" using s dev by (simp add: devices_ok_def)
  from stop_devices [OF this st] show ?thesis using assms k st s
    by (auto simp: eaf_pipeline_start_def devices_ok_def Let_def split: if_splits)
qed

lemma deinit_devices: "devices_ok I p \<Longrightarrow> eaf_pipeline_deinit p = (rc, p') \<Longrightarrow> devices_ok I p'"
  using release_devices [of I p] by (auto simp: eaf_pipeline_deinit_def devices_ok_def Let_def split: if_splits prod.splits)

text \<open>The block keeps its size through the nodes, so the sink gets back what it lent.\<close>

lemma pull_size:
  assumes inv: "reservoir_inv r" and len: "length (mem buf) = capacity_samples buf" and p: "eaf_reservoir_pull r buf = (rc, woke, r', buf')"
  shows "length (mem buf') = length (mem buf)"
proof (cases "pull_accepts r buf")
  case False
  then show ?thesis using pull_rejects [OF inv len] p by simp
next
  case True
  let ?n = "unat (frame_count buf)" and ?ch = "res_channels r"
  let ?k = "pull_taken r ?n"
  have m: "mem buf' = blit (mem buf) 0 (take (?k * ?ch) (res_queue r) @ pull_padding r ?n)"
    using pull_spec(3) [OF inv True p] by (simp add: pulled_def Let_def)
  have "length (pull_padding r ?n) = (?n - ?k) * ?ch" by simp
  moreover have "length (take (?k * ?ch) (res_queue r)) \<le> ?k * ?ch" by simp
  moreover have "?k * ?ch + (?n - ?k) * ?ch = ?n * ?ch" using pull_taken_le(1) [of r ?n] by (simp flip: add_mult_distrib)
  moreover have "?n * ?ch \<le> length (mem buf)" using True by (simp add: pull_accepts_def)
  ultimately have "0 + length (take (?k * ?ch) (res_queue r) @ pull_padding r ?n) \<le> length (mem buf)" by simp
  then show ?thesis unfolding m by (rule length_blit)
qed

lemma process_nodes_size:
  assumes "process_nodes is owned block out_fmt rc ns buf = (rc', ns', buf')" and "list_all in_place ns"
    and "\<forall>i \<in> set is. i < length ns" and "capacity_samples buf = capacity_samples owned" and "length (mem buf) = capacity_samples owned"
  shows "list_all in_place ns' \<and> length (mem buf') = capacity_samples owned"
  using assms
proof (induction "is" owned block out_fmt rc ns buf rule: process_nodes.induct)
  case (2 i "is" owned block out_fmt rc ns buf)
  obtain rc1 n buf1 where c: "call_node_process (ns ! i) buf = (rc1, n, buf1)" by (metis prod_cases3)
  let ?rc = "if corrupted owned buf1 block out_fmt (num_channels (format buf)) then EAF_INVALID else rc1"
  have "in_place (ns ! i)" using "2.prems"(2,3) by (simp add: list_all_length)
  then have l: "length (mem buf1) = capacity_samples owned"
    using c "2.prems"(4,5) by (auto simp: call_node_process_def in_place_def Let_def split: prod.splits) (metis snd_conv)
  have ns: "list_all in_place (ns[i := n])" using "2.prems"(2) calls_in_place(3) [OF c] by (intro update_in_place) auto
  show ?case
  proof (cases "rc = EAF_OK")
    case False
    then show ?thesis using "2.prems" by auto
  next
    case ok: True
    have rest: "process_nodes is owned block out_fmt ?rc (ns[i := n]) buf1 = (rc', ns', buf')" using "2.prems"(1) ok c by simp
    show ?thesis
    proof (cases "?rc = EAF_OK")
      case True
      then have "\<not> corrupted owned buf1 block out_fmt (num_channels (format buf))" by (auto split: if_splits)
      then have cap: "capacity_samples buf1 = capacity_samples owned" by (simp add: corrupted_def)
      have ix: "\<forall>j \<in> set is. j < length (ns[i := n])" using "2.prems"(3) by simp
      have "\<not> rc \<noteq> EAF_OK" using ok by simp
      from "2.IH" [OF this refl c [symmetric] refl refl refl rest ns ix cap l] show ?thesis .
    next
      case False
      then have "ns' = ns[i := n]" "buf' = buf1" using rest by (cases "is"; auto)+
      then show ?thesis using ns l by simp
    qed
  qed
qed simp

lemma block_size:
  assumes inv: "reservoir_inv (reservoir p)" and ns: "list_all in_place (nodes p)" and len: "length (mem owned) = capacity_samples owned"
    and fits: "unat (block_frames p) * channels (output_format p) \<le> capacity_samples owned" and b: "block_result p owned = (rc, eos, buf, r, ns')"
  shows "list_all in_place ns'" "length (mem buf) = capacity_samples owned"
proof -
  let ?o = "owned\<lparr>frame_count := block_frames p\<rparr>"
  obtain rc1 woke r1 b1 where pull: "eaf_reservoir_pull (reservoir p) ?o = (rc1, woke, r1, b1)" by (metis prod_cases4)
  obtain rc2 ns2 b2 where pn: "process_nodes [0..<length (nodes p)] owned (block_frames p) (output_format p) rc1 (nodes p) b1 = (rc2, ns2, b2)"
    by (metis prod_cases3)
  have B: "ns' = ns2" "buf = (if rc \<noteq> EAF_OK then silence_block owned b2 (block_frames p) (output_format p)
            else if eos then b2\<lparr>flags := flags b2 OR EAF_FRAME_EOS\<rparr> else b2)"
    using b pull pn by (auto simp: block_result_def Let_def split: if_splits)
  have l1: "length (mem b1) = capacity_samples owned" "capacity_samples b1 = capacity_samples owned"
    using pull_size [OF inv _ pull] pull_keeps_storage [OF inv _ pull] len by (simp_all add: same_storage_def)
  have N: "list_all in_place ns2" "length (mem b2) = capacity_samples owned" using process_nodes_size [OF pn ns _ l1(2,1)] by simp_all
  then show "list_all in_place ns'" by (simp add: B(1))
  have "length (blit m 0 (replicate (unat (block_frames p) * channels (output_format p)) 0)) = capacity_samples owned"
    if "length m = capacity_samples owned" for m :: "int list"
    using length_blit [of 0 "replicate (unat (block_frames p) * channels (output_format p)) 0" m] that fits by simp
  then show "length (mem buf) = capacity_samples owned" using N(2) len by (auto simp: B(2) silence_block_def)
qed

lemma process_devices:
  assumes dev: "devices_ok I p" and inv: "pipeline_inv p" and c: "eaf_pipeline_process p = (rc, committed, p')"
  shows "devices_ok I p'"
proof -
  obtain r0 b0 d0 where acq: "the (sink_acquire (s_ops (sink p))) (driver_data (sink p)) = (r0, b0, d0)" by (metis prod_cases3)
  have d0: "I d0" using dev acq unfolding devices_ok_def honest_sink_def sink_keeps_def by blast
  show ?thesis using c inv
  proof (cases rule: process_cases)
    case (idle d)
    then have "I d" using dev acq d0 by (auto simp: devices_ok_def honest_sink_def)
    then show ?thesis using dev idle(2) by (simp add: devices_ok_def honest_sink_def)
  next
    case (block owned d brc eos buf r ns commit d')
    have su: "reservoir_inv (reservoir p)" using inv block(1) by (simp add: pipeline_inv_def)
    have ns: "list_all in_place (nodes p)" using dev by (simp add: devices_ok_def)
    note S = block_size [OF su ns acquired_size [OF dev block(3)] block(4,5)] and B = block_result_spec(4) [OF su acquired_size [OF dev block(3)] block(5)]
    have "I (snd (the (sink_commit (s_ops (sink p))) d buf))"
      using dev block(3) S(2) B unfolding devices_ok_def honest_sink_def sink_keeps_def by blast
    then have "I d'" using block(9) by simp
    then show ?thesis using dev S(1) block(8) by (simp add: devices_ok_def honest_sink_def)
  qed
qed

text \<open>
  One call by the owner of the pipeline, or a write by the producer to its reservoir (any
  change that keeps the reservoir's invariant, capacity and format).
\<close>

inductive pipeline_step :: "('s \<Rightarrow> bool) \<Rightarrow> ('n, 's) eaf_pipeline_t \<Rightarrow> ('n, 's) eaf_pipeline_t \<Rightarrow> bool" for I where
  step_init: "eaf_pipeline_init p cfg = (rc, p') \<Longrightarrow> (\<And>r. cfg_reservoir cfg = Some r \<Longrightarrow> reservoir_inv r) \<Longrightarrow>
     (\<And>s. cfg_sink cfg = Some s \<Longrightarrow> honest_sink I s) \<Longrightarrow>
     (\<And>ns n. cfg_nodes cfg = Some ns \<Longrightarrow> Some n \<in> set ns \<Longrightarrow> in_place n) \<Longrightarrow> pipeline_step I p p'"
| step_configure: "eaf_pipeline_configure p block = (rc, p') \<Longrightarrow> pipeline_step I p p'"
| step_start: "eaf_pipeline_start p = (rc, p') \<Longrightarrow> pipeline_step I p p'"
| step_process: "eaf_pipeline_process p = (rc, committed, p') \<Longrightarrow> pipeline_step I p p'"
| step_stop: "eaf_pipeline_stop p = (rc, p') \<Longrightarrow> pipeline_step I p p'"
| step_deinit: "eaf_pipeline_deinit p = (rc, p') \<Longrightarrow> pipeline_step I p p'"
| step_producer: "reservoir_inv r \<Longrightarrow> capacity r = capacity (reservoir p) \<Longrightarrow> res_format r = res_format (reservoir p) \<Longrightarrow>
     pipeline_step I p (p\<lparr>reservoir := r\<rparr>)"

definition zeroed :: "('n, 's) eaf_pipeline_t \<Rightarrow> bool" where
  "zeroed p \<longleftrightarrow> pl_state p = EAF_UNINITIALIZED \<and> initialized_nodes p = 0 \<and> \<not> sink_initialized p \<and> \<not> sink_ready p"

definition pipeline_good :: "('s \<Rightarrow> bool) \<Rightarrow> ('n, 's) eaf_pipeline_t \<Rightarrow> bool" where
  "pipeline_good I p \<longleftrightarrow> pipeline_inv p \<and> (pl_state p \<noteq> EAF_UNINITIALIZED \<longrightarrow> devices_ok I p)"

lemma init_devices:
  assumes "eaf_pipeline_init p cfg = (rc, p')" and "pipeline_good I p" and "\<And>s. cfg_sink cfg = Some s \<Longrightarrow> honest_sink I s"
    and "\<And>ns n. cfg_nodes cfg = Some ns \<Longrightarrow> Some n \<in> set ns \<Longrightarrow> in_place n"
  shows "pl_state p' \<noteq> EAF_UNINITIALIZED \<longrightarrow> devices_ok I p'"
proof (cases "p' = p")
  case True
  then show ?thesis using assms(2) by (simp add: pipeline_good_def)
next
  case False
  let ?ns = "case cfg_nodes cfg of None \<Rightarrow> [] | Some ns \<Rightarrow> take (cfg_node_count cfg) ns"
  obtain r s where p': "cfg_sink cfg = Some s" "sink p' = s" "nodes p' = map the ?ns" "list_all (node_acceptable ?ns) [0..<cfg_node_count cfg]"
    using assms(1) False by (auto simp: eaf_pipeline_init_def Let_def split: option.splits if_splits)
  have len: "length ?ns \<le> cfg_node_count cfg" by (auto split: option.splits)
  have "in_place (the (?ns ! i))" if "i < length ?ns" for i
  proof -
    have "node_acceptable ?ns i" using p'(4) that len by (auto simp: list_all_iff)
    then obtain n where n: "?ns ! i = Some n" by (auto simp: node_acceptable_def split: option.splits)
    then have "Some n \<in> set ?ns" using that by (metis nth_mem)
    then show ?thesis using assms(4) n by (auto split: option.splits dest: in_set_takeD)
  qed
  then show ?thesis using p' assms(3) by (auto simp: devices_ok_def list_all_length)
qed

lemma uninitialized_calls:
  assumes "pl_state p = EAF_UNINITIALIZED" and "pipeline_inv p"
  shows "eaf_pipeline_configure p block = (EAF_STATE, p)" and "eaf_pipeline_start p = (EAF_STATE, p)"
    and "eaf_pipeline_process p = (EAF_STATE, None, p)" and "eaf_pipeline_stop p = (EAF_STATE, p)"
    and "pl_state (snd (eaf_pipeline_deinit p)) = EAF_UNINITIALIZED"
  using assms
  by (auto simp: eaf_pipeline_configure_def eaf_pipeline_start_def eaf_pipeline_process_def eaf_pipeline_stop_def
      eaf_pipeline_deinit_def pipeline_inv_def release_without_sink)

lemma pipeline_step_good:
  assumes "pipeline_step I p p'" and "pipeline_good I p"
  shows "pipeline_good I p'"
proof (cases "pl_state p = EAF_UNINITIALIZED")
  case True
  then have inv: "pipeline_inv p" using assms(2) by (simp add: pipeline_good_def)
  from assms(1) show ?thesis
  proof (cases rule: pipeline_step.cases)
    case (step_init cfg rc)
    then show ?thesis using init_inv [of p cfg rc p'] init_devices [OF step_init(1) assms(2)] inv by (simp add: pipeline_good_def)
  next
    case (step_deinit rc)
    then show ?thesis using deinit_inv [OF inv step_deinit] uninitialized_calls(5) [OF True inv] by (simp add: pipeline_good_def)
  next
    case (step_producer r)
    then show ?thesis using True inv by (auto simp: pipeline_good_def pipeline_inv_def is_set_up_def)
  qed (use uninitialized_calls [OF True inv] assms(2) in simp_all)
next
  case False
  then have inv: "pipeline_inv p" and dev: "devices_ok I p" using assms(2) by (simp_all add: pipeline_good_def)
  from assms(1) show ?thesis
  proof (cases rule: pipeline_step.cases)
    case (step_init cfg rc)
    then show ?thesis using init_inv [of p cfg rc p'] init_devices [OF step_init(1) assms(2)] inv by (simp add: pipeline_good_def)
  next
    case (step_configure block rc)
    then show ?thesis using configure_inv [OF inv] configure_devices [OF dev] by (simp add: pipeline_good_def)
  next
    case (step_start rc)
    then show ?thesis using start_inv [OF inv] start_devices [OF dev] by (simp add: pipeline_good_def)
  next
    case (step_process rc committed)
    then show ?thesis using process_inv [OF inv dev] process_devices [OF dev inv] by (simp add: pipeline_good_def)
  next
    case (step_stop rc)
    then show ?thesis using stop_inv [OF inv] stop_devices [OF dev] by (simp add: pipeline_good_def)
  next
    case (step_deinit rc)
    then show ?thesis using deinit_inv [OF inv] deinit_devices [OF dev] by (simp add: pipeline_good_def)
  next
    case (step_producer r)
    then show ?thesis using inv dev by (simp add: pipeline_good_def pipeline_inv_def devices_ok_def)
  qed
qed

lemma pipeline_steps_good: "(pipeline_step I)\<^sup>*\<^sup>* p0 p \<Longrightarrow> zeroed p0 \<Longrightarrow> pipeline_good I p"
proof (induction rule: rtranclp_induct)
  case base
  then show ?case by (simp add: pipeline_good_def pipeline_inv_def zeroed_def is_set_up_def)
qed (auto intro: pipeline_step_good)

section \<open>Properties\<close>

text \<open>
  C10: the lifecycle invariant holds in every state reachable from a zeroed pipeline by any
  sequence of calls, for a sink that keeps a driver invariant \<open>I\<close> and lends arrays of the size it declares (as the null sink and the I2S
  core do, with their invariants), nodes that work in place, and whatever else they answer: a configured, running or stopped
  pipeline has an initialised sink, all its nodes initialised, a valid output format with
  the source's sample rate and at least its channels, and a block that fits in the
  reservoir; a pipeline that is back to uninitialised holds neither the sink nor a node.
\<close>

theorem pipeline_lifecycle:
  assumes "(pipeline_step I)\<^sup>*\<^sup>* p0 p" and "zeroed p0"
  shows "pipeline_inv p \<and>
    (is_set_up (pl_state p) \<longrightarrow> sink_ready p \<and> initialized_nodes p = length (nodes p) \<and>
       widens (res_format (reservoir p)) (output_format p) \<and>
       0 < block_frames p \<and> block_frames p \<le> capacity (reservoir p)) \<and>
    (pl_state p = EAF_UNINITIALIZED \<longrightarrow> \<not> sink_initialized p \<and> initialized_nodes p = 0)"
proof -
  have "pipeline_good I p" by (rule pipeline_steps_good [OF assms])
  then show ?thesis by (auto simp: pipeline_good_def pipeline_inv_def)
qed


end
