(* ===== verification/Decoder.thy ===== *)
theory Decoder
  imports EAF_Types
begin

text \<open>
  \<open>core/eaf_decoder.c\<close> and \<open>include/eaf/eaf_decoder.h\<close>: the decoder adapter contract and
  the worker that bridges one adapter to a PCM sink. Adapter and sink are interfaces, stated
  as locales; the worker's guarantee (no decoded frame is lost or written twice) is
  proved once for every adapter and sink that satisfy them.
\<close>

section \<open>Adapters\<close>

datatype eaf_codec_t =
    EAF_CODEC_NONE | EAF_CODEC_PCM | EAF_CODEC_FLAC | EAF_CODEC_OPUS | EAF_CODEC_MP3 | EAF_CODEC_VORBIS

record eaf_decoder_config_t =
  codec :: eaf_codec_t
  cfg_rate :: u32
  cfg_channels :: u8
  bit_depth :: u8
  extra :: "u8 list"

text \<open>
  The table of operations over a context. Out-parameters are results: \<open>push\<close> returns the
  bytes consumed, \<open>pull\<close> the number of frames, the format and the sample array.
\<close>

record 'd eaf_decoder_ops_t =
  dec_open :: "('d \<Rightarrow> eaf_decoder_config_t \<Rightarrow> eaf_format_t \<Rightarrow> eaf_result_t \<times> 'd) option"
  dec_push :: "('d \<Rightarrow> u8 list \<Rightarrow> eaf_result_t \<times> nat \<times> 'd) option"
  dec_pull :: "('d \<Rightarrow> int list \<Rightarrow> u32 \<Rightarrow> eaf_format_t \<Rightarrow> eaf_result_t \<times> u32 \<times> eaf_format_t \<times> int list \<times> 'd) option"
  dec_reset :: "('d \<Rightarrow> eaf_result_t \<times> 'd) option"
  dec_close :: "('d \<Rightarrow> 'd) option"

record 'd eaf_decoder_t =
  dec_ops :: "'d eaf_decoder_ops_t option"
  dec_ctx :: "'d option"

definition eaf_decoder_validate_open ::
  "eaf_decoder_config_t \<Rightarrow> eaf_format_t \<Rightarrow> eaf_codec_t \<Rightarrow> bool \<Rightarrow> eaf_result_t" where
  "eaf_decoder_validate_open cfg out cdc unknown_channels =
     (let channels_ok =
            (if cfg_channels cfg = 0 then unknown_channels
             else cfg_channels cfg \<le> 2 \<and>
                  (num_channels out = cfg_channels cfg \<or> cfg_channels cfg = 1 \<and> num_channels out = 2))
      in if codec cfg \<noteq> cdc \<or> \<not> channels_ok \<or> cfg_rate cfg \<noteq> sample_rate out then EAF_UNSUPPORTED else EAF_OK)"

definition eaf_decoder_open ::
  "'d eaf_decoder_t \<Rightarrow> eaf_decoder_config_t option \<Rightarrow> eaf_format_t option \<Rightarrow> eaf_result_t \<times> 'd eaf_decoder_t" where
  "eaf_decoder_open dec cfg out =
     (case (dec_ops dec, dec_ctx dec, cfg, out) of
        (Some ops, Some d, Some cfg, Some out) \<Rightarrow>
          (case (dec_open ops, dec_push ops, dec_pull ops, dec_reset ops, dec_close ops) of
             (Some op, Some _, Some _, Some _, Some _) \<Rightarrow>
               if \<not> eaf_format_valid out \<or> cfg_rate cfg = 0 \<or> cfg_channels cfg = 0 \<or> cfg_channels cfg > 4
               then (EAF_INVALID, dec)
               else let (rc, d') = op d cfg out in (rc, dec\<lparr>dec_ctx := Some d'\<rparr>)
           | _ \<Rightarrow> (EAF_INVALID, dec))
      | _ \<Rightarrow> (EAF_INVALID, dec))"

text \<open>\<open>data = None\<close> is the NULL pointer, allowed with length 0.\<close>

definition eaf_decoder_push ::
  "'d eaf_decoder_t \<Rightarrow> u8 list option \<Rightarrow> nat \<Rightarrow> eaf_result_t \<times> nat \<times> 'd eaf_decoder_t" where
  "eaf_decoder_push dec data len =
     (case dec_ops dec of None \<Rightarrow> (EAF_INVALID, 0, dec)
      | Some ops \<Rightarrow> (case dec_push ops of None \<Rightarrow> (EAF_INVALID, 0, dec)
        | Some op \<Rightarrow>
          if len \<noteq> 0 \<and> data = None then (EAF_INVALID, 0, dec)
          else let bytes = (case data of None \<Rightarrow> [] | Some xs \<Rightarrow> take len xs);
                   (rc, n, d') = op (the (dec_ctx dec)) bytes
               in (rc, n, dec\<lparr>dec_ctx := Some d'\<rparr>)))"

definition eaf_decoder_pull ::
  "'d eaf_decoder_t \<Rightarrow> int list option \<Rightarrow> u32 \<Rightarrow> eaf_format_t \<Rightarrow>
   eaf_result_t \<times> u32 \<times> eaf_format_t \<times> int list option \<times> 'd eaf_decoder_t" where
  "eaf_decoder_pull dec pcm max_frames fmt =
     (case (dec_ops dec, pcm) of
        (Some ops, Some xs) \<Rightarrow> (case dec_pull ops of None \<Rightarrow> (EAF_INVALID, 0, fmt, pcm, dec)
          | Some op \<Rightarrow>
            if max_frames = 0 then (EAF_INVALID, 0, fmt, pcm, dec)
            else let (rc, n, fmt', xs', d') = op (the (dec_ctx dec)) xs max_frames fmt
                 in (rc, n, fmt', Some xs', dec\<lparr>dec_ctx := Some d'\<rparr>))
      | _ \<Rightarrow> (EAF_INVALID, 0, fmt, pcm, dec))"

definition eaf_decoder_reset :: "'d eaf_decoder_t \<Rightarrow> eaf_result_t \<times> 'd eaf_decoder_t" where
  "eaf_decoder_reset dec =
     (case dec_ops dec of None \<Rightarrow> (EAF_INVALID, dec)
      | Some ops \<Rightarrow> (case dec_reset ops of None \<Rightarrow> (EAF_INVALID, dec)
        | Some op \<Rightarrow> let (rc, d') = op (the (dec_ctx dec)) in (rc, dec\<lparr>dec_ctx := Some d'\<rparr>)))"

definition eaf_decoder_close :: "'d eaf_decoder_t \<Rightarrow> 'd eaf_decoder_t" where
  "eaf_decoder_close dec =
     (case dec_ops dec of None \<Rightarrow> dec
      | Some ops \<Rightarrow> (case dec_close ops of None \<Rightarrow> dec
        | Some op \<Rightarrow> dec\<lparr>dec_ctx := Some (op (the (dec_ctx dec)))\<rparr>))"

section \<open>The worker\<close>

text \<open>\<open>sink\<close> is given the frames from the first unsent one on and returns how many it took.\<close>

type_synonym 'k eaf_pcm_write_fn = "'k \<Rightarrow> int list \<Rightarrow> u32 \<Rightarrow> u32 \<times> 'k"

record ('d, 'k) eaf_decode_worker_t =
  wk_decoder :: "'d eaf_decoder_t"
  wk_format :: eaf_format_t
  wk_sink :: "'k eaf_pcm_write_fn"
  wk_sink_ctx :: 'k
  scratch :: "int list"
  scratch_frames :: u32
  pending :: u32
  sent :: u32
  frames_written :: u32
  frames_dropped :: u32
  wk_open :: bool

definition eaf_decode_worker_init ::
  "('d, 'k) eaf_decode_worker_t \<Rightarrow> 'd eaf_decoder_t \<Rightarrow> 'k eaf_pcm_write_fn option \<Rightarrow> 'k \<Rightarrow> int list option \<Rightarrow>
   u32 \<Rightarrow> eaf_format_t option \<Rightarrow> eaf_result_t \<times> ('d, 'k) eaf_decode_worker_t" where
  "eaf_decode_worker_init w dec snk ctx buf frames out =
     (case (dec_ops dec, snk, buf, out) of
        (Some _, Some snk, Some buf, Some out) \<Rightarrow>
          if \<not> eaf_format_valid out \<or> frames = 0 then (EAF_INVALID, w)
          else (EAF_OK, \<lparr>wk_decoder = dec, wk_format = out, wk_sink = snk, wk_sink_ctx = ctx,
                         scratch = buf, scratch_frames = frames, pending = 0, sent = 0,
                         frames_written = 0, frames_dropped = 0, wk_open = False\<rparr>)
      | _ \<Rightarrow> (EAF_INVALID, w))"

definition eaf_decode_worker_open ::
  "('d, 'k) eaf_decode_worker_t \<Rightarrow> eaf_decoder_config_t option \<Rightarrow> eaf_result_t \<times> ('d, 'k) eaf_decode_worker_t" where
  "eaf_decode_worker_open w cfg =
     (case cfg of None \<Rightarrow> (EAF_INVALID, w)
      | Some c \<Rightarrow>
        let (rc, dec) = eaf_decoder_open (wk_decoder w) cfg (Some (wk_format w));
            w = w\<lparr>wk_decoder := dec\<rparr>
        in if rc \<noteq> EAF_OK then (rc, w)
           else (EAF_OK, w\<lparr>pending := 0, sent := 0, frames_written := 0, frames_dropped := 0, wk_open := True\<rparr>))"

definition eaf_decode_worker_can_push :: "('d, 'k) eaf_decode_worker_t \<Rightarrow> bool" where
  "eaf_decode_worker_can_push w \<longleftrightarrow> wk_open w \<and> pending w = sent w"

definition eaf_decode_worker_push ::
  "('d, 'k) eaf_decode_worker_t \<Rightarrow> u8 list option \<Rightarrow> nat \<Rightarrow> eaf_result_t \<times> nat \<times> ('d, 'k) eaf_decode_worker_t" where
  "eaf_decode_worker_push w data len =
     (if \<not> wk_open w then (EAF_STATE, 0, w)
      else if pending w > sent w then (EAF_OK, 0, w)
      else let (rc, n, dec) = eaf_decoder_push (wk_decoder w) data len in (rc, n, w\<lparr>wk_decoder := dec\<rparr>))"

definition drain :: "('d, 'k) eaf_decode_worker_t \<Rightarrow> u32 \<times> ('d, 'k) eaf_decode_worker_t" where
  "drain w =
     (let ch = channels (wk_format w);
          (written, k) = wk_sink w (wk_sink_ctx w) (drop (unat (sent w) * ch) (scratch w)) (pending w - sent w)
      in (written, w\<lparr>wk_sink_ctx := k, sent := sent w + written, frames_written := frames_written w + written\<rparr>))"

definition eaf_decode_worker_step ::
  "('d, 'k) eaf_decode_worker_t \<Rightarrow> eaf_result_t \<times> ('d, 'k) eaf_decode_worker_t" where
  "eaf_decode_worker_step w =
     (if \<not> wk_open w then (EAF_STATE, w)
      else if pending w > sent w then (EAF_OK, snd (drain w))
      else let w = w\<lparr>pending := 0, sent := 0\<rparr>;
               (rc, frames, fmt, buf, dec) =
                 eaf_decoder_pull (wk_decoder w) (Some (scratch w)) (scratch_frames w) zero_format;
               w = w\<lparr>wk_decoder := dec, scratch := the buf\<rparr>
           in if rc \<noteq> EAF_OK then (rc, w\<lparr>wk_decoder := snd (eaf_decoder_reset (wk_decoder w))\<rparr>)
              else if frames = 0 then (EAF_OK, w)
              else if \<not> eaf_format_equal fmt (wk_format w)
              then (EAF_INVALID, w\<lparr>wk_decoder := snd (eaf_decoder_reset (wk_decoder w))\<rparr>)
              else (EAF_OK, snd (drain (w\<lparr>pending := frames, sent := 0\<rparr>))))"

definition eaf_decode_worker_reset ::
  "('d, 'k) eaf_decode_worker_t \<Rightarrow> eaf_result_t \<times> ('d, 'k) eaf_decode_worker_t" where
  "eaf_decode_worker_reset w =
     (let w = (if pending w > sent w
               then w\<lparr>frames_dropped := frames_dropped w + (pending w - sent w)\<rparr> else w);
          w = w\<lparr>pending := 0, sent := 0\<rparr>
      in if \<not> wk_open w then (EAF_OK, w)
         else let (rc, dec) = eaf_decoder_reset (wk_decoder w) in (rc, w\<lparr>wk_decoder := dec\<rparr>))"

definition eaf_decode_worker_close :: "('d, 'k) eaf_decode_worker_t \<Rightarrow> ('d, 'k) eaf_decode_worker_t" where
  "eaf_decode_worker_close w =
     (let w = (if wk_open w then w\<lparr>wk_decoder := eaf_decoder_close (wk_decoder w)\<rparr> else w)
      in w\<lparr>wk_open := False, pending := 0, sent := 0\<rparr>)"

section \<open>Interfaces\<close>

text \<open>
  What the worker relies on in an adapter: \<open>push\<close> consumes at most what it is given; a
  successful \<open>pull\<close> delivers at most the frames asked for, inside the array, in the output
  format fixed at open.
\<close>

locale decoder_adapter =
  fixes push :: "'d \<Rightarrow> u8 list \<Rightarrow> eaf_result_t \<times> nat \<times> 'd"
    and pull :: "'d \<Rightarrow> int list \<Rightarrow> u32 \<Rightarrow> eaf_format_t \<Rightarrow> eaf_result_t \<times> u32 \<times> eaf_format_t \<times> int list \<times> 'd"
    and reset :: "'d \<Rightarrow> eaf_result_t \<times> 'd"
    and out_format :: "'d \<Rightarrow> eaf_format_t"
    and invar :: "'d \<Rightarrow> bool"
  assumes push_law: "invar d \<Longrightarrow> push d data = (rc, n, d') \<Longrightarrow>
      invar d' \<and> n \<le> length data \<and> out_format d' = out_format d"
    and pull_law: "invar d \<Longrightarrow> 0 < max_frames \<Longrightarrow> unat max_frames * channels (out_format d) \<le> length pcm \<Longrightarrow>
      pull d pcm max_frames fmt = (rc, k, fmt', pcm', d') \<Longrightarrow>
      invar d' \<and> out_format d' = out_format d \<and> length pcm' = length pcm \<and>
      (rc = EAF_OK \<longrightarrow> k \<le> max_frames \<and> (k \<noteq> 0 \<longrightarrow> fmt' = out_format d))"
    and reset_law: "invar d \<Longrightarrow> reset d = (rc, d') \<Longrightarrow> invar d' \<and> out_format d' = out_format d"

text \<open>A sink takes at most the frames it is offered.\<close>

locale pcm_sink =
  fixes snk :: "'k eaf_pcm_write_fn" and sink_ok :: "'k \<Rightarrow> bool"
  assumes sink_law: "sink_ok k \<Longrightarrow> snk k xs n = (m, k') \<Longrightarrow> m \<le> n \<and> sink_ok k'"

locale decode_bridge = decoder_adapter + pcm_sink

section \<open>Conservation of decoded frames\<close>

text \<open>
  The adapter and the sink with a log: the frames each successful pull delivered, and the
  frames the sink took.
\<close>

definition logged_pull where
  "logged_pull pull = (\<lambda>(d, log) pcm n fmt.
     let (rc, k, fmt', pcm', d') = pull d pcm n fmt
     in (rc, k, fmt', pcm', (d', if rc = EAF_OK then log @ take (unat k * channels fmt') pcm' else log)))"

definition logged_push where
  "logged_push push = (\<lambda>(d, log) data. let (rc, n, d') = push d data in (rc, n, (d', log)))"

definition logged_reset where
  "logged_reset rst = (\<lambda>(d, log). let (rc, d') = rst d in (rc, (d', log)))"

definition logged_sink where
  "logged_sink ch snk = (\<lambda>(k, log) xs n.
     let (m, k') = snk k xs n in (m, (k', log @ take (unat m * ch) xs)))"

definition logged_decoder :: "('d \<Rightarrow> u8 list \<Rightarrow> eaf_result_t \<times> nat \<times> 'd) \<Rightarrow>
   ('d \<Rightarrow> int list \<Rightarrow> u32 \<Rightarrow> eaf_format_t \<Rightarrow> eaf_result_t \<times> u32 \<times> eaf_format_t \<times> int list \<times> 'd) \<Rightarrow>
   ('d \<Rightarrow> eaf_result_t \<times> 'd) \<Rightarrow> 'd \<Rightarrow> int list \<Rightarrow> ('d \<times> int list) eaf_decoder_t" where
  "logged_decoder push pull rst d log =
     \<lparr>dec_ops = Some \<lparr>dec_open = None, dec_push = Some (logged_push push), dec_pull = Some (logged_pull pull),
                      dec_reset = Some (logged_reset rst), dec_close = None\<rparr>,
      dec_ctx = Some (d, log)\<rparr>"

text \<open>The frames decoded but not yet taken by the sink.\<close>

definition retained :: "('d, 'k) eaf_decode_worker_t \<Rightarrow> int list" where
  "retained w = take (unat (pending w - sent w) * channels (wk_format w))
                  (drop (unat (sent w) * channels (wk_format w)) (scratch w))"

datatype worker_op = W_Push "u8 list" | W_Step

fun worker_run :: "worker_op list \<Rightarrow> ('d, 'k) eaf_decode_worker_t \<Rightarrow> ('d, 'k) eaf_decode_worker_t" where
  "worker_run [] w = w"
| "worker_run (W_Push data # ops) w = worker_run ops (snd (snd (eaf_decode_worker_push w (Some data) (length data))))"
| "worker_run (W_Step # ops) w = worker_run ops (snd (eaf_decode_worker_step w))"

lemma take_drop_split: "a \<le> b \<Longrightarrow> take b xs = take a xs @ take (b - a) (drop a xs)"
  by (metis le_add_diff_inverse take_add)

text \<open>Draining moves frames from the retained part to the sink's log.\<close>

lemma drain_moves:
  assumes "wk_sink w = logged_sink (channels (wk_format w)) snk" and "wk_sink_ctx w = (k, klog)"
    and "snk k (drop (unat (sent w) * channels (wk_format w)) (scratch w)) (pending w - sent w) = (m, k')"
    and "m \<le> pending w - sent w" and "sent w \<le> pending w"
  shows "\<exists>klog'. snd (drain w) = w\<lparr>wk_sink_ctx := (k', klog'), sent := sent w + m, frames_written := frames_written w + m\<rparr> \<and>
    klog' @ retained (snd (drain w)) = klog @ retained w \<and> sent w + m \<le> pending w"
proof -
  let ?ch = "channels (wk_format w)" and ?xs = "drop (unat (sent w) * channels (wk_format w)) (scratch w)"
  let ?klog = "klog @ take (unat m * ?ch) ?xs"
  have d: "snd (drain w) = w\<lparr>wk_sink_ctx := (k', ?klog), sent := sent w + m, frames_written := frames_written w + m\<rparr>"
    using assms(1-3) by (simp add: drain_def logged_sink_def Let_def)
  have gap: "unat (pending w - sent w) = unat (pending w) - unat (sent w)" using assms(5) by (rule unat_diff_le)
  have le: "unat m \<le> unat (pending w) - unat (sent w)" using assms(4) gap by (simp add: word_le_nat_alt)
  have lt: "unat (sent w) + unat m < 4294967296"
    using le assms(5) le_less_trans [OF _ unat_lt_32 [of "pending w"]] by (simp add: word_le_nat_alt)
  then have sm: "unat (sent w + m) = unat (sent w) + unat m" by (simp add: unat_word_ariths)
  have le2: "sent w + m \<le> pending w" using le assms(5) sm by (simp add: word_le_nat_alt)
  have rest: "unat (pending w - (sent w + m)) = unat (pending w - sent w) - unat m"
    using unat_diff_le [OF le2] gap sm by simp
  have "take (unat (pending w - sent w) * ?ch) ?xs =
      take (unat m * ?ch) ?xs @ take ((unat (pending w - sent w) - unat m) * ?ch)
        (drop (unat (sent w) * ?ch + unat m * ?ch) (scratch w))"
    using take_drop_split [of "unat m * ?ch" "unat (pending w - sent w) * ?ch" ?xs]
      mult_le_mono1 [OF le [folded gap], of ?ch]
    by (simp only: diff_mult_distrib drop_drop add.commute)
  then have "?klog @ retained (snd (drain w)) = klog @ retained w"
    by (simp add: d retained_def rest sm add_mult_distrib)
  with d le2 show ?thesis by blast
qed

text \<open>A worker whose adapter and sink are the logged ones, with consistent logs.\<close>

definition worker_ok where
  "worker_ok push pull reset out_format invar snk sink_ok w \<longleftrightarrow>
     (\<exists>d dlog k klog. wk_decoder w = logged_decoder push pull reset d dlog \<and> invar d \<and> out_format d = wk_format w \<and>
        wk_sink w = logged_sink (channels (wk_format w)) snk \<and> wk_sink_ctx w = (k, klog) \<and> sink_ok k \<and>
        length (scratch w) = unat (scratch_frames w) * channels (wk_format w) \<and> 0 < scratch_frames w \<and>
        sent w \<le> pending w \<and> pending w \<le> scratch_frames w \<and> dlog = klog @ retained w)"

context decode_bridge
begin

abbreviation ok where "ok \<equiv> worker_ok push pull reset out_format invar snk sink_ok"

lemma drain_ok:
  assumes "wk_decoder w = logged_decoder push pull reset d dlog" and "invar d" and "out_format d = wk_format w"
    and "wk_sink w = logged_sink (channels (wk_format w)) snk" and "wk_sink_ctx w = (k, klog)" and "sink_ok k"
    and "length (scratch w) = unat (scratch_frames w) * channels (wk_format w)" and "0 < scratch_frames w"
    and "sent w \<le> pending w" and "pending w \<le> scratch_frames w" and "dlog = klog @ retained w"
  shows "ok (snd (drain w))"
proof -
  obtain m k' where s: "snk k (drop (unat (sent w) * channels (wk_format w)) (scratch w)) (pending w - sent w) = (m, k')"
    by fastforce
  note L = sink_law [OF assms(6) s]
  obtain klog' where d: "snd (drain w) = w\<lparr>wk_sink_ctx := (k', klog'), sent := sent w + m, frames_written := frames_written w + m\<rparr>"
    "klog' @ retained (snd (drain w)) = klog @ retained w" "sent w + m \<le> pending w"
    using drain_moves [OF assms(4,5) s] L assms(9) by blast
  show ?thesis unfolding worker_ok_def
    by (rule exI [of _ d], rule exI [of _ dlog], rule exI [of _ k'], rule exI [of _ klog'])
       (use assms d L in simp)
qed

lemma reset_logged:
  assumes "invar d"
  shows "\<exists>d'. snd (eaf_decoder_reset (logged_decoder push pull reset d dlog)) = logged_decoder push pull reset d' dlog \<and>
    invar d' \<and> out_format d' = out_format d"
proof -
  obtain rc d' where r: "reset d = (rc, d')" by fastforce
  then show ?thesis using reset_law [OF assms r]
    by (auto simp: eaf_decoder_reset_def logged_decoder_def logged_reset_def)
qed

lemma push_ok:
  assumes "ok w"
  shows "ok (snd (snd (eaf_decode_worker_push w (Some data) (length data))))"
proof (cases "wk_open w \<and> \<not> pending w > sent w")
  case False
  then show ?thesis using assms by (auto simp: eaf_decode_worker_push_def)
next
  case True
  obtain d dlog k klog where w: "wk_decoder w = logged_decoder push pull reset d dlog" "invar d" "out_format d = wk_format w"
    "wk_sink w = logged_sink (channels (wk_format w)) snk" "wk_sink_ctx w = (k, klog)" "sink_ok k"
    "length (scratch w) = unat (scratch_frames w) * channels (wk_format w)" "0 < scratch_frames w"
    "sent w \<le> pending w" "pending w \<le> scratch_frames w" "dlog = klog @ retained w"
    using assms unfolding worker_ok_def by blast
  obtain rc n d' where p: "push d data = (rc, n, d')" by (metis prod_cases3)
  have eq: "snd (snd (eaf_decode_worker_push w (Some data) (length data))) =
      w\<lparr>wk_decoder := logged_decoder push pull reset d' dlog\<rparr>"
    using True p w(1) by (simp add: eaf_decode_worker_push_def eaf_decoder_push_def logged_decoder_def logged_push_def)
  show ?thesis unfolding eq worker_ok_def
    by (rule exI [of _ d'], rule exI [of _ dlog], rule exI [of _ k], rule exI [of _ klog])
       (use w push_law [OF w(2) p] in \<open>simp add: retained_def\<close>)
qed

lemma step_ok:
  assumes "ok w"
  shows "ok (snd (eaf_decode_worker_step w))"
proof -
  obtain d dlog k klog where w: "wk_decoder w = logged_decoder push pull reset d dlog" "invar d" "out_format d = wk_format w"
    "wk_sink w = logged_sink (channels (wk_format w)) snk" "wk_sink_ctx w = (k, klog)" "sink_ok k"
    "length (scratch w) = unat (scratch_frames w) * channels (wk_format w)" "0 < scratch_frames w"
    "sent w \<le> pending w" "pending w \<le> scratch_frames w" "dlog = klog @ retained w"
    using assms unfolding worker_ok_def by blast
  consider (closed) "\<not> wk_open w" | (more) "wk_open w" "pending w > sent w" | (pull) "wk_open w" "pending w = sent w"
    using w(9) by fastforce
  then show ?thesis
  proof cases
    case closed
    then show ?thesis using assms by (simp add: eaf_decode_worker_step_def)
  next
    case more
    then show ?thesis using drain_ok [OF w] by (simp add: eaf_decode_worker_step_def)
  next
    case pull
    let ?ch = "channels (wk_format w)"
    obtain rc n fmt xs d' where q: "pull d (scratch w) (scratch_frames w) zero_format = (rc, n, fmt, xs, d')" by (metis prod_cases5)
    have P: "invar d'" "out_format d' = wk_format w" "length xs = length (scratch w)"
      "rc = EAF_OK \<longrightarrow> n \<le> scratch_frames w \<and> (n \<noteq> 0 \<longrightarrow> fmt = wk_format w)"
      using pull_law [OF w(2,8) _ q] w(3,7) by simp_all
    let ?log = "if rc = EAF_OK then dlog @ take (unat n * channels fmt) xs else dlog"
    let ?w = "w\<lparr>pending := 0, sent := 0, wk_decoder := logged_decoder push pull reset d' ?log, scratch := xs\<rparr>"
    have dl: "dlog = klog" using w(11) pull(2) by (simp add: retained_def)
    have step: "snd (eaf_decode_worker_step w) =
        (if rc \<noteq> EAF_OK then ?w\<lparr>wk_decoder := snd (eaf_decoder_reset (wk_decoder ?w))\<rparr>
         else if n = 0 then ?w
         else if \<not> eaf_format_equal fmt (wk_format w) then ?w\<lparr>wk_decoder := snd (eaf_decoder_reset (wk_decoder ?w))\<rparr>
         else snd (drain (?w\<lparr>pending := n, sent := 0\<rparr>)))"
      using pull q w(1,8)
      by (simp add: eaf_decode_worker_step_def eaf_decoder_pull_def logged_decoder_def logged_pull_def Let_def
          word_gt_0 cong: if_cong)
    show ?thesis
    proof (cases "rc = EAF_OK")
      case False
      obtain d2 where r: "snd (eaf_decoder_reset (wk_decoder ?w)) = logged_decoder push pull reset d2 dlog"
        "invar d2" "out_format d2 = wk_format w"
        using reset_logged [OF P(1), of ?log] False P(2) by auto
      have eq: "snd (eaf_decode_worker_step w) = ?w\<lparr>wk_decoder := logged_decoder push pull reset d2 dlog\<rparr>"
        unfolding step r(1) using False by simp
      show ?thesis unfolding eq worker_ok_def
        by (rule exI [of _ d2], rule exI [of _ dlog], rule exI [of _ k], rule exI [of _ klog])
           (use w P r dl in \<open>simp add: retained_def\<close>)
    next
      case True
      show ?thesis
      proof (cases "n = 0")
        case nz: True
        have eq: "snd (eaf_decode_worker_step w) = ?w\<lparr>wk_decoder := logged_decoder push pull reset d' dlog\<rparr>"
          unfolding step using True nz by simp
        show ?thesis unfolding eq worker_ok_def
          by (rule exI [of _ d'], rule exI [of _ dlog], rule exI [of _ k], rule exI [of _ klog])
             (use w P dl in \<open>simp add: retained_def\<close>)
      next
        case nz: False
        then have fmt: "fmt = wk_format w" using P(4) True by simp
        let ?v = "?w\<lparr>pending := n, sent := 0\<rparr>"
        have eq: "snd (eaf_decode_worker_step w) = snd (drain ?v)" unfolding step using True nz fmt by simp
        show ?thesis unfolding eq
          by (rule drain_ok [of _ d' ?log k klog])
             (use w P True fmt dl in \<open>simp_all add: retained_def\<close>)
      qed
    qed
  qed
qed

lemma run_ok: "ok w \<Longrightarrow> ok (worker_run ops w)"
  by (induction ops w rule: worker_run.induct) (auto intro: push_ok step_ok)

lemma run_conserves:
  assumes "ok w"
  shows "\<exists>d dlog k klog. dec_ctx (wk_decoder (worker_run ops w)) = Some (d, dlog) \<and>
    wk_sink_ctx (worker_run ops w) = (k, klog) \<and> dlog = klog @ retained (worker_run ops w)"
  using run_ok [OF assms, of ops] unfolding worker_ok_def by (auto simp: logged_decoder_def)

end

end
