(* ===== verification/Dec_PCM.thy ===== *)
theory Dec_PCM
  imports Dec_Input Decoder Reservoir
begin

text \<open>
  \<open>apps/decoders/dec_pcm.c\<close>: the PCM adapter. It buffers little-endian bytes in the input
  ring and converts whole frames on pull. The theory shows that a sample's bytes denote its
  two's-complement value shifted to Q1.31, that a pull decodes exactly the oldest whole
  frames, and that the adapter satisfies the adapter interface.
\<close>

section \<open>State and operations\<close>

abbreviation (input) EAF_DECODER_PCM_RING_BYTES :: nat where "EAF_DECODER_PCM_RING_BYTES \<equiv> 4096"

record eaf_decoder_pcm_t =
  pcm_format :: eaf_format_t
  input_channels :: u8
  input_bits :: u8
  output_channels :: u8
  sample_bytes :: nat
  frame_bytes :: nat
  input :: eaf_dec_input_t
  pcm_ring :: "u8 list"

definition pcm_open ::
  "eaf_decoder_pcm_t \<Rightarrow> eaf_decoder_config_t \<Rightarrow> eaf_format_t \<Rightarrow> eaf_result_t \<times> eaf_decoder_pcm_t" where
  "pcm_open st cfg out =
     (let rc = eaf_decoder_validate_open cfg out EAF_CODEC_PCM False
      in if rc \<noteq> EAF_OK then (rc, st)
         else if bit_depth cfg \<noteq> 16 \<and> bit_depth cfg \<noteq> 24 \<and> bit_depth cfg \<noteq> 32 then (EAF_UNSUPPORTED, st)
         else let sb = unat (bit_depth cfg) div 8
              in (EAF_OK, st\<lparr>input_channels := cfg_channels cfg, input_bits := bit_depth cfg,
                    output_channels := num_channels out, sample_bytes := sb,
                    frame_bytes := unat (cfg_channels cfg) * sb, pcm_format := out,
                    input := eaf_dec_input_init (pcm_ring st) EAF_DECODER_PCM_RING_BYTES False\<rparr>))"

definition pcm_push :: "eaf_decoder_pcm_t \<Rightarrow> u8 list \<Rightarrow> eaf_result_t \<times> nat \<times> eaf_decoder_pcm_t" where
  "pcm_push st data =
     (let (n, i) = eaf_dec_input_push (input st) data in (EAF_OK, n, st\<lparr>input := i\<rparr>))"

definition sign_extend24 :: "u32 \<Rightarrow> u32" where
  "sign_extend24 v = (if v AND 8388608 \<noteq> 0 then v OR 4278190080 else v)"

definition pcm_sample :: "nat \<Rightarrow> u8 list \<Rightarrow> nat \<Rightarrow> int" where
  "pcm_sample sb frame offset =
     (let v = fold (\<lambda>i v. v OR push_bit (8 * i) (ucast (frame ! (offset + i)))) [0..<sb] (0::u32)
      in if sb = 2 then eaf_pcm16_to_q31 (i16 (uint v))
         else if sb = 3 then eaf_pcm24_to_q31 (i32 (uint (sign_extend24 v)))
         else eaf_pcm32_to_q31 (i32 (uint v)))"

text \<open>
  The local array \<open>frame[8]\<close> is read from the ring before it is used; without an await
  callback the read always returns.
\<close>

definition pcm_frame :: "eaf_decoder_pcm_t \<Rightarrow> nat \<Rightarrow> int list \<Rightarrow> eaf_decoder_pcm_t \<times> int list" where
  "pcm_frame st f pcm =
     (case eaf_dec_input_read (input st) (replicate 8 0) (frame_bytes st) [] of
        None \<Rightarrow> (st, pcm)
      | Some t \<Rightarrow>
        let frame = rd_dst t;
            c0 = pcm_sample (sample_bytes st) frame 0;
            c1 = (if input_channels st = 2 then pcm_sample (sample_bytes st) frame (sample_bytes st) else 0);
            oc = unat (output_channels st)
        in (st\<lparr>input := rd_input t\<rparr>,
            take (f * oc) pcm @ eaf_q31_interleaved [c0, c1] 1 (unat (input_channels st)) (drop (f * oc) pcm) oc))"

definition pcm_pull ::
  "eaf_decoder_pcm_t \<Rightarrow> int list \<Rightarrow> u32 \<Rightarrow> eaf_format_t \<Rightarrow>
   eaf_result_t \<times> u32 \<times> eaf_format_t \<times> int list \<times> eaf_decoder_pcm_t" where
  "pcm_pull st pcm max_frames fmt =
     (let available = in_count (input st) div frame_bytes st;
          count = (if available < unat max_frames then available else unat max_frames);
          (st', pcm') = fold (\<lambda>f (st, pcm). pcm_frame st f pcm) [0..<count] (st, pcm)
      in (EAF_OK, of_nat count, pcm_format st, pcm', st'))"

definition pcm_reset :: "eaf_decoder_pcm_t \<Rightarrow> eaf_result_t \<times> eaf_decoder_pcm_t" where
  "pcm_reset st = (EAF_OK, st\<lparr>input := eaf_dec_input_reset (input st)\<rparr>)"

definition pcm_close :: "eaf_decoder_pcm_t \<Rightarrow> eaf_decoder_pcm_t" where
  "pcm_close st = st"

definition eaf_decoder_pcm_ops :: "eaf_decoder_pcm_t eaf_decoder_ops_t" where
  "eaf_decoder_pcm_ops = \<lparr>dec_open = Some pcm_open, dec_push = Some pcm_push, dec_pull = Some pcm_pull,
     dec_reset = Some pcm_reset, dec_close = Some pcm_close\<rparr>"

section \<open>Samples\<close>

text \<open>The number little-endian bytes denote, and its two's-complement reading.\<close>

fun le_value :: "u8 list \<Rightarrow> nat" where
  "le_value [] = 0"
| "le_value (b # bs) = unat b + 256 * le_value bs"

definition signed_value :: "nat \<Rightarrow> nat \<Rightarrow> int" where
  "signed_value bits n = (if n < 2 ^ (bits - 1) then int n else int n - 2 ^ bits)"

lemma le_value_less: "le_value bs < 256 ^ length bs"
proof (induction bs)
  case (Cons b bs)
  have "unat b + 256 * le_value bs < 256 + 256 * le_value bs" by simp
  also have "\<dots> \<le> 256 * 256 ^ length bs" using Cons by simp
  finally show ?case by simp
qed simp

lemma le_value_append: "le_value (xs @ ys) = le_value xs + 256 ^ length xs * le_value ys"
  by (induction xs) (simp_all add: algebra_simps)

lemma or_disjoint_add:
  assumes "unat (a::u32) < 2 ^ k" and "k + 8 \<le> 32"
  shows "unat (a OR push_bit k (ucast (b::u8))) = unat a + 2 ^ k * unat b"
proof -
  have "a AND push_bit k (ucast b) = 0"
  proof (rule bit_word_eqI)
    fix n assume n: "n < LENGTH(32)"
    have "\<not> bit a n" if "k \<le> n"
    proof -
      have "take_bit k a = a" using assms(1)
        by (simp add: word_unat_eq_iff unsigned_take_bit_eq take_bit_nat_eq_self)
      then show ?thesis using that by (metis bit_take_bit_iff not_le)
    qed
    then show "bit (a AND push_bit k (ucast b)) n = bit (0::u32) n"
      by (auto simp: bit_simps not_le)
  qed
  then have "a OR push_bit k (ucast b) = a + push_bit k (ucast b)"
    by (simp add: disjunctive_add_eq_or)
  moreover have lim: "2 ^ k * unat b + 2 ^ k \<le> (2::nat) ^ 32"
  proof -
    have "2 ^ k * unat b + 2 ^ k = 2 ^ k * (unat b + 1)" by simp
    also have "\<dots> \<le> 2 ^ k * 2 ^ 8"
    proof (rule mult_le_mono2)
      have "unat b + 1 \<le> 256" using unat_lt_8 [of b] by linarith
      then show "unat b + 1 \<le> 2 ^ 8" by simp
    qed
    also have "\<dots> \<le> 2 ^ 32" unfolding power_add [symmetric] using assms(2) by (intro power_increasing) simp_all
    finally show ?thesis .
  qed
  have p: "unat (push_bit k (ucast b :: u32)) = 2 ^ k * unat b"
  proof -
    have "2 ^ k * unat b < (2::nat) ^ 32"
      using lim zero_less_power [of "2::nat" k] by linarith
    then show ?thesis unfolding unsigned_push_bit_eq
      by (simp add: take_bit_eq_mod push_bit_eq_mult mult.commute)
  qed
  ultimately show ?thesis using assms(1) lim p by (simp add: unat_word_ariths)
qed

lemma fold_sample_bytes:
  assumes "k \<le> 4" and "offset + k \<le> length frame"
  shows "unat (fold (\<lambda>i v. v OR push_bit (8 * i) (ucast (frame ! (offset + i)))) [0..<k] (0::u32))
    = le_value (take k (drop offset frame))"
  using assms
proof (induction k)
  case (Suc k)
  let ?v = "fold (\<lambda>i v. v OR push_bit (8 * i) (ucast (frame ! (offset + i)))) [0..<k] (0::u32)"
  let ?xs = "take k (drop offset frame)"
  have IH: "unat ?v = le_value ?xs" and len: "length ?xs = k" using Suc by simp_all
  have "unat ?v < 2 ^ (8 * k)" using le_value_less [of ?xs] IH len by (simp add: power_mult)
  then have "unat (?v OR push_bit (8 * k) (ucast (frame ! (offset + k)))) =
      unat ?v + 2 ^ (8 * k) * unat (frame ! (offset + k))"
    using Suc.prems(1) by (intro or_disjoint_add) simp_all
  moreover have "take (Suc k) (drop offset frame) = ?xs @ [frame ! (offset + k)]"
    using Suc.prems(2) by (simp add: take_Suc_conv_app_nth)
  ultimately show ?case using IH len by (simp add: le_value_append power_mult)
qed simp

lemma i32_wrap: "2147483648 \<le> x \<Longrightarrow> x < 4294967296 \<Longrightarrow> i32 x = x - 4294967296"
  using minus_mod_self2 [of "x + 2147483648" "4294967296"] by (simp add: i32_def)

lemma i16_wrap: "32768 \<le> x \<Longrightarrow> x < 65536 \<Longrightarrow> i16 x = x - 65536"
  using minus_mod_self2 [of "x + 32768" "65536"] by (simp add: i16_def)

lemma i16_signed: "n < 65536 \<Longrightarrow> i16 (int n) = signed_value 16 n"
  by (auto simp: i16_wrap signed_value_def is_i16_def)

lemma i32_signed: "n < 4294967296 \<Longrightarrow> i32 (int n) = signed_value 32 n"
  by (auto simp: i32_wrap signed_value_def is_i32_def)

lemma bit_23:
  assumes "unat (v::u32) < 16777216"
  shows "v AND 8388608 \<noteq> 0 \<longleftrightarrow> 8388608 \<le> unat v"
proof -
  have "v AND 8388608 \<noteq> 0 \<longleftrightarrow> bit v 23"
    using and_exp_eq_0_iff_not_bit [of v 23] by simp
  also have "\<dots> \<longleftrightarrow> bit (unat v) 23" by (simp add: bit_unsigned_iff)
  also have "\<dots> \<longleftrightarrow> odd (unat v div 8388608)" by (simp add: bit_iff_odd)
  also have "\<dots> \<longleftrightarrow> 8388608 \<le> unat v"
  proof (cases "unat v < 8388608")
    case False
    then have "unat v div 8388608 = 1" using assms by (intro div_nat_eqI) simp_all
    with False show ?thesis by simp
  qed simp
  finally show ?thesis .
qed

lemma sign_extend_24:
  assumes "unat (v::u32) < 16777216"
  shows "i32 (uint (sign_extend24 v)) = signed_value 24 (unat v)"
proof (cases "8388608 \<le> unat v")
  case True
  have "unat (v OR push_bit 24 (ucast (255::u8))) = unat v + 2 ^ 24 * unat (255::u8)"
    using assms by (intro or_disjoint_add) simp_all
  then have "unat (v OR 4278190080) = unat v + 4278190080" by simp
  then have "uint (v OR 4278190080) = int (unat v) + 4278190080"
    unfolding uint_nat by (simp only: of_nat_add of_nat_numeral)
  moreover have "sign_extend24 v = v OR 4278190080" using True bit_23 [OF assms] by (simp add: sign_extend24_def)
  moreover have "int (unat v) = uint v" by simp
  then have "8388608 \<le> uint v" "uint v < 16777216" using True assms by linarith+
  ultimately show ?thesis using True by (simp add: i32_wrap signed_value_def)
next
  case False
  then have ext: "sign_extend24 v = v" using bit_23 [OF assms] by (simp add: sign_extend24_def)
  have "int (unat v) = uint v" by simp
  then have "uint v < 8388608" using False by linarith
  moreover have "- 2147483648 \<le> uint v" using uint_ge_0 [of v] by linarith
  ultimately have "is_i32 (uint v)" unfolding is_i32_def by simp
  with ext show ?thesis using False by (simp add: signed_value_def)
qed

text \<open>A sample is its little-endian two's-complement value, scaled to the top of the word.\<close>

lemma pcm_sample_value:
  assumes "sb = 2 \<or> sb = 3 \<or> sb = 4" and "offset + sb \<le> length frame"
  shows "pcm_sample sb frame offset =
    signed_value (8 * sb) (le_value (take sb (drop offset frame))) * 2 ^ (32 - 8 * sb)"
proof -
  let ?xs = "take sb (drop offset frame)"
  let ?v = "fold (\<lambda>i v. v OR push_bit (8 * i) (ucast (frame ! (offset + i)))) [0..<sb] (0::u32)"
  have v: "unat ?v = le_value ?xs" using assms by (intro fold_sample_bytes) auto
  then have u: "uint ?v = int (le_value ?xs)" by (simp add: uint_nat)
  have lt: "le_value ?xs < 256 ^ sb" using le_value_less [of ?xs] assms(2) by simp
  from assms(1) show ?thesis
  proof (elim disjE)
    assume "sb = 2"
    then show ?thesis using u lt i16_signed [of "le_value ?xs"]
      by (simp add: pcm_sample_def Let_def eaf_pcm16_to_q31_def)
  next
    assume sb: "sb = 3"
    have "unat ?v < 16777216" using v lt sb by simp
    note X = sign_extend_24 [OF this]
    have "- 8388608 \<le> signed_value 24 (le_value ?xs)" "signed_value 24 (le_value ?xs) \<le> 8388607"
      using lt sb by (auto simp: signed_value_def)
    then show ?thesis using X v sb
      by (simp add: pcm_sample_def Let_def eaf_pcm24_to_q31_def)
  next
    assume "sb = 4"
    then show ?thesis using u lt i32_signed [of "le_value ?xs"]
      by (simp add: pcm_sample_def Let_def eaf_pcm32_to_q31_def)
  qed
qed

lemma pcm_sample_range: "sb = 2 \<or> sb = 3 \<or> sb = 4 \<Longrightarrow> is_i32 (pcm_sample sb frame offset)"
  by (auto simp: pcm_sample_def Let_def pcm24_in_range eaf_pcm32_to_q31_def intro: pcm16_in_range)

section \<open>Pulling frames\<close>

text \<open>
  The state between open and close: the ring is well formed and has no await callback, and a
  frame is one or two samples of 16, 24 or 32 bits.
\<close>

definition pcm_inv :: "eaf_decoder_pcm_t \<Rightarrow> bool" where
  "pcm_inv d \<longleftrightarrow> dec_input_inv (input d) \<and> \<not> can_await (input d) \<and>
     (sample_bytes d = 2 \<or> sample_bytes d = 3 \<or> sample_bytes d = 4) \<and>
     (input_channels d = 1 \<or> input_channels d = 2) \<and>
     frame_bytes d = unat (input_channels d) * sample_bytes d \<and>
     (output_channels d = input_channels d \<or> input_channels d = 1 \<and> output_channels d = 2) \<and>
     output_channels d = num_channels (pcm_format d)"

text \<open>Reference semantics: one frame of bytes, and a run of frames.\<close>

definition frame_samples :: "nat \<Rightarrow> nat \<Rightarrow> nat \<Rightarrow> u8 list \<Rightarrow> int list" where
  "frame_samples sb ic oc bs =
     (let v = (\<lambda>c. signed_value (8 * sb) (le_value (take sb (drop (c * sb) bs))) * 2 ^ (32 - 8 * sb))
      in if oc = 2 then [v 0, if ic = 2 then v 1 else v 0] else [v 0])"

definition decode_frames :: "nat \<Rightarrow> nat \<Rightarrow> nat \<Rightarrow> u8 list \<Rightarrow> nat \<Rightarrow> int list" where
  "decode_frames sb ic oc bs n =
     concat (map (\<lambda>i. frame_samples sb ic oc (take (ic * sb) (drop (i * (ic * sb)) bs))) [0..<n])"

lemma length_frame_samples [simp]: "length (frame_samples sb ic oc bs) = (if oc = 2 then 2 else 1)"
  by (simp add: frame_samples_def Let_def)

lemma decode_frames_Suc:
  "decode_frames sb ic oc bs (Suc n) =
     decode_frames sb ic oc bs n @ frame_samples sb ic oc (take (ic * sb) (drop (n * (ic * sb)) bs))"
  by (simp add: decode_frames_def)

lemma length_decode_frames [simp]:
  "length (decode_frames sb ic oc bs n) = n * (if oc = 2 then 2 else 1)"
  by (induction n) (simp_all add: decode_frames_Suc, simp_all add: decode_frames_def)

lemma decode_frames_split:
  "decode_frames sb ic oc bs (m + n) = decode_frames sb ic oc bs m @ decode_frames sb ic oc (drop (m * (ic * sb)) bs) n"
proof (induction n)
  case 0
  show ?case by (simp add: decode_frames_def)
next
  case (Suc n)
  have "(m + n) * (ic * sb) = n * (ic * sb) + m * (ic * sb)" by (simp add: algebra_simps)
  then show ?case using Suc by (simp add: decode_frames_Suc)
qed

text \<open>One frame: read from the ring, converted, stored behind the frames before it.\<close>

lemma pcm_frame_spec:
  assumes inv: "pcm_inv d" and enough: "frame_bytes d \<le> in_count (input d)"
    and room: "(f + 1) * unat (output_channels d) \<le> length pcm"
  shows "\<exists>i. pcm_frame d f pcm = (d\<lparr>input := i\<rparr>,
      blit pcm (f * unat (output_channels d))
        (frame_samples (sample_bytes d) (unat (input_channels d)) (unat (output_channels d))
          (take (frame_bytes d) (input_bytes (input d))))) \<and>
    pcm_inv (d\<lparr>input := i\<rparr>) \<and> input_bytes i = drop (frame_bytes d) (input_bytes (input d))"
proof -
  let ?fb = "frame_bytes d" and ?sb = "sample_bytes d" and ?oc = "unat (output_channels d)"
  let ?s = "\<lparr>rd_input = input d, rd_dst = replicate 8 (0::u8), rd_got = 0, rd_waits = [], rd_blocked = False\<rparr>"
  have I: "dec_input_inv (input d)" "?sb = 2 \<or> ?sb = 3 \<or> ?sb = 4" "input_channels d = 1 \<or> input_channels d = 2"
    "?fb = unat (input_channels d) * ?sb"
    "output_channels d = input_channels d \<or> input_channels d = 1 \<and> output_channels d = 2"
    using inv by (auto simp: pcm_inv_def)
  have fb: "?fb \<le> 8" "?sb \<le> ?fb" "input_channels d = 2 \<longrightarrow> ?sb + ?sb \<le> ?fb" using I(2,3,4) by auto
  have "read_inv ?fb ?s" using I(1) fb by (simp add: read_inv_def)
  then obtain t where t: "read_loop ?fb ?s = Some t" "rd_got t = ?fb" "read_stream t = read_stream ?s" "read_inv ?fb t"
      "in_capacity (rd_input t) = in_capacity (input d)" "can_await (rd_input t) = can_await (input d)"
      "length (rd_dst t) = 8"
    using read_available [of ?fb ?s] enough by auto
  have fr: "take ?fb (rd_dst t) = take ?fb (input_bytes (input d))"
    and rest: "input_bytes (rd_input t) = drop ?fb (input_bytes (input d))"
    using t(2,3) fb enough t(7) by (simp_all add: read_stream_def append_eq_conv_conj)
  have smp: "pcm_sample ?sb (rd_dst t) (c * ?sb) =
      signed_value (8 * ?sb) (le_value (take ?sb (drop (c * ?sb) (take ?fb (input_bytes (input d)))))) * 2 ^ (32 - 8 * ?sb)"
    if "c * ?sb + ?sb \<le> ?fb" for c
  proof -
    have "take ?sb (drop (c * ?sb) (rd_dst t)) = take ?sb (drop (c * ?sb) (take ?fb (rd_dst t)))"
      using that by (simp add: drop_take min_def)
    then show ?thesis using pcm_sample_value [OF I(2), of "c * ?sb" "rd_dst t"] that fb t(7) fr by simp
  qed
  let ?c0 = "pcm_sample ?sb (rd_dst t) 0"
  let ?c1 = "if input_channels d = 2 then pcm_sample ?sb (rd_dst t) ?sb else 0"
  have oc: "?oc = 1 \<or> ?oc = 2" "?oc = (if ?oc = 2 then 2 else 1)" using I(3,5) by auto
  have two: "unat (input_channels d) = 2 \<longleftrightarrow> input_channels d = 2" using I(3) by auto
  have up: "upmix [?c0, ?c1] 1 (unat (input_channels d)) ?oc =
      frame_samples ?sb (unat (input_channels d)) ?oc (take ?fb (input_bytes (input d)))"
    using smp [of 0] smp [of 1] fb I(3) by (auto simp: upmix_def frame_of_def frame_samples_def Let_def)
  have "1 * (if ?oc = 2 then 2 else 1) \<le> length (drop (f * ?oc) pcm)" using room oc by auto
  note q = q31_interleaved_blit [OF this, of "[?c0, ?c1]" "unat (input_channels d)"]
  have fit: "f * ?oc \<le> length pcm" using room by simp
  have "pcm_frame d f pcm = (d\<lparr>input := rd_input t\<rparr>, take (f * ?oc) pcm @ blit (drop (f * ?oc) pcm) 0
      (frame_samples ?sb (unat (input_channels d)) ?oc (take ?fb (input_bytes (input d)))))"
    unfolding pcm_frame_def eaf_dec_input_read_def using t(1) q up by (simp add: Let_def)
  also have "\<dots> = (d\<lparr>input := rd_input t\<rparr>, blit pcm (f * ?oc)
      (frame_samples ?sb (unat (input_channels d)) ?oc (take ?fb (input_bytes (input d)))))"
    by (simp add: blit_def add.commute)
  finally show ?thesis
    using inv t(4,6) rest by (intro exI [of _ "rd_input t"]) (auto simp: pcm_inv_def read_inv_def)
qed

lemma pcm_frames_spec:
  assumes inv: "pcm_inv d" and "n * frame_bytes d \<le> in_count (input d)"
    and "n * unat (output_channels d) \<le> length pcm"
  shows "\<exists>i. fold (\<lambda>f (st, pcm). pcm_frame st f pcm) [0..<n] (d, pcm) = (d\<lparr>input := i\<rparr>,
      blit pcm 0 (decode_frames (sample_bytes d) (unat (input_channels d)) (unat (output_channels d)) (input_bytes (input d)) n)) \<and>
    pcm_inv (d\<lparr>input := i\<rparr>) \<and> input_bytes i = drop (n * frame_bytes d) (input_bytes (input d))"
  using assms(2,3)
proof (induction n)
  case 0
  show ?case using inv by (intro exI [of _ "input d"]) (simp add: decode_frames_def)
next
  case (Suc n)
  let ?dec = "decode_frames (sample_bytes d) (unat (input_channels d)) (unat (output_channels d)) (input_bytes (input d))"
  obtain i where i: "fold (\<lambda>f (st, pcm). pcm_frame st f pcm) [0..<n] (d, pcm) = (d\<lparr>input := i\<rparr>, blit pcm 0 (?dec n))"
    "pcm_inv (d\<lparr>input := i\<rparr>)" "input_bytes i = drop (n * frame_bytes d) (input_bytes (input d))"
    using Suc by auto
  have oc: "unat (output_channels d) = (if unat (output_channels d) = 2 then 2 else 1)"
    using inv by (auto simp: pcm_inv_def)
  then have len: "length (?dec n) = n * unat (output_channels d)" by simp
  have cnt: "in_count i = in_count (input d) - n * frame_bytes d"
    using arg_cong [OF i(3), of length] by simp
  then have more: "frame_bytes d \<le> in_count i" using Suc.prems(1) by simp
  obtain j where j: "pcm_frame (d\<lparr>input := i\<rparr>) n (blit pcm 0 (?dec n)) = (d\<lparr>input := j\<rparr>,
      blit (blit pcm 0 (?dec n)) (n * unat (output_channels d))
        (frame_samples (sample_bytes d) (unat (input_channels d)) (unat (output_channels d))
          (take (frame_bytes d) (input_bytes i))))"
    "pcm_inv (d\<lparr>input := j\<rparr>)" "input_bytes j = drop (frame_bytes d) (input_bytes i)"
    using pcm_frame_spec [OF i(2), of n "blit pcm 0 (?dec n)"] Suc.prems(2) more len by auto
  have fb: "frame_bytes d = unat (input_channels d) * sample_bytes d" using inv by (simp add: pcm_inv_def)
  let ?fr = "frame_samples (sample_bytes d) (unat (input_channels d)) (unat (output_channels d))
    (take (frame_bytes d) (input_bytes i))"
  have flen: "length ?fr = unat (output_channels d)" using oc by simp
  have "blit (blit pcm 0 (?dec n)) (length (?dec n)) ?fr = blit pcm 0 (?dec n @ ?fr)"
    by (rule blit_blit_append)
       (use Suc.prems(2) in \<open>simp only: len flen mult_Suc add.commute [of "unat (output_channels d)"]\<close>)
  then have "blit (blit pcm 0 (?dec n)) (n * unat (output_channels d)) ?fr = blit pcm 0 (?dec (Suc n))"
    by (simp only: len decode_frames_Suc i(3) fb)
  with i(1) j show ?case by (intro exI [of _ j]) (simp add: i(3) algebra_simps)
qed

lemma pcm_pull_spec:
  assumes inv: "pcm_inv d" and room: "unat max_frames * unat (output_channels d) \<le> length pcm"
  defines "n \<equiv> min (length (input_bytes (input d)) div frame_bytes d) (unat max_frames)"
  shows "\<exists>i. pcm_pull d pcm max_frames fmt = (EAF_OK, of_nat n, pcm_format d,
      blit pcm 0 (decode_frames (sample_bytes d) (unat (input_channels d)) (unat (output_channels d))
        (input_bytes (input d)) n), d\<lparr>input := i\<rparr>) \<and>
    pcm_inv (d\<lparr>input := i\<rparr>) \<and> input_bytes i = drop (n * frame_bytes d) (input_bytes (input d))"
proof -
  have n: "(if in_count (input d) div frame_bytes d < unat max_frames
      then in_count (input d) div frame_bytes d else unat max_frames) = n" by (auto simp: n_def)
  have "n * frame_bytes d \<le> in_count (input d) div frame_bytes d * frame_bytes d"
    by (intro mult_le_mono1) (simp add: n_def)
  also have "\<dots> \<le> in_count (input d)" by simp
  finally have a: "n * frame_bytes d \<le> in_count (input d)" .
  have "n * unat (output_channels d) \<le> unat max_frames * unat (output_channels d)"
    by (intro mult_le_mono1) (simp add: n_def)
  with room have b: "n * unat (output_channels d) \<le> length pcm" by linarith
  show ?thesis using pcm_frames_spec [OF inv a b] unfolding pcm_pull_def n Let_def by auto
qed

lemma pcm_push_spec:
  assumes "pcm_inv d" and "pcm_push d data = (rc, n, d')"
  shows "rc = EAF_OK \<and> pcm_inv d' \<and> n \<le> length data \<and> pcm_format d' = pcm_format d \<and>
    input_bytes (input d') = input_bytes (input d) @ take n data"
proof -
  obtain m i where p: "eaf_dec_input_push (input d) data = (m, i)" by fastforce
  then have "rc = EAF_OK" "n = m" "d' = d\<lparr>input := i\<rparr>" using assms(2) by (simp_all add: pcm_push_def)
  with assms(1) push_input_spec [OF _ p] show ?thesis by (auto simp: pcm_inv_def push_accepts_def)
qed

lemma pcm_reset_spec:
  assumes "pcm_inv d" and "pcm_reset d = (rc, d')"
  shows "pcm_inv d' \<and> pcm_format d' = pcm_format d"
  using assms by (auto simp: pcm_inv_def pcm_reset_def eaf_dec_input_reset_def dec_input_inv_def)

lemma pcm_open_inv:
  assumes "pcm_open d cfg out = (EAF_OK, d')" and "length (pcm_ring d) = EAF_DECODER_PCM_RING_BYTES"
  shows "pcm_inv d' \<and> pcm_format d' = out"
proof -
  have v: "eaf_decoder_validate_open cfg out EAF_CODEC_PCM False = EAF_OK"
    and b: "bit_depth cfg = 16 \<or> bit_depth cfg = 24 \<or> bit_depth cfg = 32"
    using assms(1) by (auto simp: pcm_open_def Let_def split: if_splits)
  have ch: "cfg_channels cfg = 1 \<or> cfg_channels cfg = 2"
    "num_channels out = cfg_channels cfg \<or> cfg_channels cfg = 1 \<and> num_channels out = 2"
  proof -
    have "cfg_channels cfg \<noteq> 0" "unat (cfg_channels cfg) \<le> 2"
      and n: "num_channels out = cfg_channels cfg \<or> cfg_channels cfg = 1 \<and> num_channels out = 2"
      using v by (auto simp: eaf_decoder_validate_open_def Let_def word_le_nat_alt split: if_splits)
    then have "unat (cfg_channels cfg) = 1 \<or> unat (cfg_channels cfg) = 2"
      using unat_eq_0 [of "cfg_channels cfg"] by linarith
    then show "cfg_channels cfg = 1 \<or> cfg_channels cfg = 2" by (auto simp: word_unat_eq_iff)
  qed (use v in \<open>auto simp: eaf_decoder_validate_open_def Let_def split: if_splits\<close>)
  have "d' = d\<lparr>input_channels := cfg_channels cfg, input_bits := bit_depth cfg,
      output_channels := num_channels out, sample_bytes := unat (bit_depth cfg) div 8,
      frame_bytes := unat (cfg_channels cfg) * (unat (bit_depth cfg) div 8), pcm_format := out,
      input := eaf_dec_input_init (pcm_ring d) EAF_DECODER_PCM_RING_BYTES False\<rparr>"
    using assms(1) v b by (auto simp: pcm_open_def Let_def)
  with assms(2) b ch show ?thesis
    by (auto simp: pcm_inv_def eaf_dec_input_init_def dec_input_inv_def)
qed

section \<open>The adapter interface\<close>

interpretation pcm: decoder_adapter pcm_push pcm_pull pcm_reset pcm_format pcm_inv
proof (unfold_locales, goal_cases)
  case (1 d data rc n d')
  then show ?case using pcm_push_spec by blast
next
  case (2 d max_frames pcm fmt rc k fmt' pcm' d')
  let ?n = "min (length (input_bytes (input d)) div frame_bytes d) (unat max_frames)"
  have "unat max_frames * unat (output_channels d) \<le> length pcm" using 2 by (simp add: pcm_inv_def)
  note P = pcm_pull_spec [OF 2(1) this, of fmt]
  have "?n < 4294967296" using le_less_trans [OF min.cobounded2 unat_lt_32 [of max_frames]] by simp
  then have "unat (of_nat ?n :: u32) = ?n" by (simp add: unat_of_nat)
  then have "(of_nat ?n :: u32) \<le> max_frames" by (simp add: word_le_nat_alt)
  moreover have "(if unat (output_channels d) = 2 then 2 else 1) = unat (output_channels d)"
    using 2(1) by (auto simp: pcm_inv_def)
  moreover have "?n * unat (output_channels d) \<le> length pcm"
    by (rule le_trans [OF mult_le_mono1 [OF min.cobounded2]]) (use 2(1,3) in \<open>simp add: pcm_inv_def\<close>)
  ultimately show ?case using P 2(4) by auto
next
  case (3 d rc d')
  then show ?case using pcm_reset_spec by blast
qed

text \<open>The worker's sink callback on a reservoir.\<close>

definition reservoir_sink :: "eaf_reservoir_t eaf_pcm_write_fn" where
  "reservoir_sink r xs n = eaf_reservoir_write r (Some xs) n"

interpretation res_sink: pcm_sink reservoir_sink "\<lambda>_. True"
  by unfold_locales (auto simp: reservoir_sink_def eaf_reservoir_write_def Let_def split: if_splits)

interpretation pcm_bridge: decode_bridge pcm_push pcm_pull pcm_reset pcm_format pcm_inv reservoir_sink "\<lambda>_. True"
  by unfold_locales

section \<open>Properties\<close>

text \<open>
  A successful pull of the PCM adapter decodes the oldest whole frames buffered, as many as
  were asked for: each sample is the two's-complement value of its little-endian bytes
  shifted to the top of 32 bits (mono duplicated into a stereo output). The rest of the
  output array and of the buffered bytes is untouched.
\<close>

theorem pcm_pull_decodes:
  assumes "pcm_inv d" and "unat max_frames * unat (output_channels d) \<le> length pcm"
    and "n = min (length (input_bytes (input d)) div frame_bytes d) (unat max_frames)"
  shows "\<exists>d'. pcm_pull d pcm max_frames fmt = (EAF_OK, of_nat n, pcm_format d,
      blit pcm 0 (decode_frames (sample_bytes d) (unat (input_channels d)) (unat (output_channels d))
        (input_bytes (input d)) n), d') \<and>
    pcm_inv d' \<and> input_bytes (input d') = drop (n * frame_bytes d) (input_bytes (input d))"
  using pcm_pull_spec [OF assms(1,2), of fmt] unfolding assms(3) by auto

definition example_pcm :: eaf_decoder_pcm_t where
  "example_pcm =
     \<lparr>pcm_format = mk_format 48000 2 3, input_channels = 1, input_bits = 24, output_channels = 2,
      sample_bytes = 3, frame_bytes = 3,
      input = snd (eaf_dec_input_push (eaf_dec_input_init (replicate 8 0) 8 False) [1, 0, 0, 255, 255, 255, 7]),
      pcm_ring = []\<rparr>"

lemma example_pcm_inv: "pcm_inv example_pcm"
  by code_simp

theorem pcm_pull_decodes_witness:
  "\<exists>d'. pcm_pull example_pcm [9, 9, 9, 9, 9, 9] 3 zero_format =
     (EAF_OK, 2, mk_format 48000 2 3, [256, 256, - 256, - 256, 9, 9], d') \<and> input_bytes (input d') = [7]"
proof -
  have "unat (3::u32) * unat (output_channels example_pcm) \<le> length [9, 9, 9, 9, 9, 9 :: int]" by code_simp
  from pcm_pull_decodes [OF example_pcm_inv this refl, of zero_format]
  have ex: "\<exists>d'. pcm_pull example_pcm [9, 9, 9, 9, 9, 9] 3 zero_format =
      (EAF_OK, of_nat (min (length (input_bytes (input example_pcm)) div frame_bytes example_pcm) (unat (3::u32))),
       pcm_format example_pcm,
       blit [9, 9, 9, 9, 9, 9] 0 (decode_frames (sample_bytes example_pcm) (unat (input_channels example_pcm))
         (unat (output_channels example_pcm)) (input_bytes (input example_pcm))
         (min (length (input_bytes (input example_pcm)) div frame_bytes example_pcm) (unat (3::u32)))), d') \<and>
      input_bytes (input d') = drop (min (length (input_bytes (input example_pcm)) div frame_bytes example_pcm)
        (unat (3::u32)) * frame_bytes example_pcm) (input_bytes (input example_pcm))" by blast
  have b: "input_bytes (input example_pcm) = [1, 0, 0, 255, 255, 255, 7]" by code_simp
  have f: "sample_bytes example_pcm = 3" "frame_bytes example_pcm = 3" "input_channels example_pcm = 1"
    "output_channels example_pcm = 2" "pcm_format example_pcm = mk_format 48000 2 3" by code_simp+
  have "blit [9, 9, 9, 9, 9, 9] 0 (decode_frames 3 1 2 [1, 0, 0, 255, 255, 255, 7] 2) = [256, 256, - 256, - 256, 9, 9]"
    by (simp add: decode_frames_def frame_samples_def signed_value_def blit_def Let_def upt_rec)
  with ex show ?thesis by (simp add: b f)
qed

text \<open>
  C13: a decode worker that bridges the PCM adapter to a reservoir loses and repeats nothing: for
  every sequence of pushes and steps, the frames the adapter decoded are the frames the
  reservoir accepted, in order, followed by the ones the worker still retains.
\<close>

theorem worker_conserves:
  assumes "pcm_inv d" and "pcm_format d = wk_format w" and "wk_decoder w = logged_decoder pcm_push pcm_pull pcm_reset d []"
    and "wk_sink w = logged_sink (channels (wk_format w)) reservoir_sink" and "wk_sink_ctx w = (r, [])"
    and "length (scratch w) = unat (scratch_frames w) * channels (wk_format w)" and "0 < scratch_frames w"
    and "pending w = 0" and "sent w = 0"
  shows "\<exists>d' decoded r' accepted. dec_ctx (wk_decoder (worker_run ops w)) = Some (d', decoded) \<and>
    wk_sink_ctx (worker_run ops w) = (r', accepted) \<and> decoded = accepted @ retained (worker_run ops w)"
proof (rule pcm_bridge.run_conserves)
  show "worker_ok pcm_push pcm_pull pcm_reset pcm_format pcm_inv reservoir_sink (\<lambda>_. True) w"
    unfolding worker_ok_def
    by (rule exI [of _ d], rule exI [of _ "[]"], rule exI [of _ r], rule exI [of _ "[]"])
       (use assms in \<open>simp add: retained_def\<close>)
qed

definition example_worker :: "(eaf_decoder_pcm_t \<times> int list, eaf_reservoir_t \<times> int list) eaf_decode_worker_t" where
  "example_worker = \<lparr>wk_decoder = logged_decoder pcm_push pcm_pull pcm_reset example_pcm [],
     wk_format = mk_format 48000 2 3, wk_sink = logged_sink 2 reservoir_sink, wk_sink_ctx = (example_reservoir, []),
     scratch = [0, 0, 0, 0], scratch_frames = 2, pending = 0, sent = 0, frames_written = 0, frames_dropped = 0,
     wk_open = True\<rparr>"

theorem worker_conserves_witness:
  "\<exists>d' decoded r' accepted. dec_ctx (wk_decoder (worker_run [W_Step, W_Step, W_Push [1, 2], W_Step] example_worker)) = Some (d', decoded) \<and>
    wk_sink_ctx (worker_run [W_Step, W_Step, W_Push [1, 2], W_Step] example_worker) = (r', accepted) \<and>
    decoded = accepted @ retained (worker_run [W_Step, W_Step, W_Push [1, 2], W_Step] example_worker)"
proof (rule worker_conserves [OF example_pcm_inv])
  show "pcm_format example_pcm = wk_format example_worker" by code_simp
qed (simp_all add: example_worker_def mk_format_def)

end
