(* ===== verification/Dec_Opus.thy ===== *)
theory Dec_Opus
  imports Dec_PCM
begin

text \<open>
  \<open>apps/decoders/dec_opus.c\<close>: the Opus adapter. One packet is pushed at a time, decoded on the first pull, and handed out over as
  many pulls as the caller's buffer needs. libopus is the record \<open>opus_lib\<close>; the adapter keeps the contract of \<open>decoder_adapter\<close> for any such library,
  and delivers the samples of every packet for one that behaves as documented.
\<close>

section \<open>State and operations\<close>

text \<open>\<open>opus_decode\<close> gets the decoder (\<open>None\<close> is NULL), the packet and the room in frames; it returns the frame count or an error below zero, and the samples written.\<close>

record 'l opus_lib =
  opus_decoder_create :: "u32 \<Rightarrow> u8 \<Rightarrow> int \<times> 'l option"
  opus_decode :: "'l option \<Rightarrow> u8 list \<Rightarrow> nat \<Rightarrow> int \<times> int list \<times> 'l option"
  opus_reset_state :: "'l \<Rightarrow> 'l"

record 'l eaf_dec_opus_t =
  opus_dec :: "'l option"
  opus_format :: eaf_format_t
  opus_channels :: u8
  opus_output_channels :: u8
  packet_length :: nat
  decoded_frames :: u32
  decoded_pos :: u32
  packet :: "u8 list"
  opus_temp :: "int list"

abbreviation (input) EAF_DEC_OPUS_MAX_PACKET :: nat where "EAF_DEC_OPUS_MAX_PACKET \<equiv> 1500"
abbreviation (input) EAF_DEC_OPUS_MAX_FRAMES :: nat where "EAF_DEC_OPUS_MAX_FRAMES \<equiv> 5760"
abbreviation (input) OPUS_OK :: int where "OPUS_OK \<equiv> 0"

definition opus_open ::
  "'l opus_lib \<Rightarrow> 'l eaf_dec_opus_t \<Rightarrow> eaf_decoder_config_t \<Rightarrow> eaf_format_t \<Rightarrow> eaf_result_t \<times> 'l eaf_dec_opus_t" where
  "opus_open lib st cfg out =
     (let rc = eaf_decoder_validate_open cfg out EAF_CODEC_OPUS False
      in if rc \<noteq> EAF_OK then (rc, st)
         else (case opus_decoder_create lib (cfg_rate cfg) (cfg_channels cfg) of
             (error, Some decoder) \<Rightarrow>
               if error \<noteq> OPUS_OK then (EAF_UNSUPPORTED, st)
               else (EAF_OK, st\<lparr>opus_dec := Some decoder, opus_channels := cfg_channels cfg, opus_output_channels := num_channels out,
                      packet_length := 0, decoded_frames := 0, decoded_pos := 0, opus_format := out\<rparr>)
           | _ \<Rightarrow> (EAF_UNSUPPORTED, st)))"

definition opus_push :: "'l eaf_dec_opus_t \<Rightarrow> u8 list \<Rightarrow> eaf_result_t \<times> nat \<times> 'l eaf_dec_opus_t" where
  "opus_push st data =
     (if packet_length st \<noteq> 0 then (EAF_OK, 0, st)
      else if length data > EAF_DEC_OPUS_MAX_PACKET then (EAF_INVALID, 0, st)
      else (EAF_OK, length data, st\<lparr>packet := blit (packet st) 0 data, packet_length := length data\<rparr>))"

text \<open>The part that decodes the packet: \<open>Inl\<close> returns with no frames.\<close>

definition opus_fill :: "'l opus_lib \<Rightarrow> 'l eaf_dec_opus_t \<Rightarrow> (eaf_result_t \<times> 'l eaf_dec_opus_t) + 'l eaf_dec_opus_t" where
  "opus_fill lib st =
     (if decoded_pos st \<ge> decoded_frames st
      then let st = st\<lparr>decoded_pos := 0, decoded_frames := 0\<rparr>
           in if packet_length st = 0 then Inl (EAF_OK, st)
              else let (n, samples, dec) = opus_decode lib (opus_dec st) (take (packet_length st) (packet st)) EAF_DEC_OPUS_MAX_FRAMES;
                       st = st\<lparr>opus_dec := dec, opus_temp := blit (opus_temp st) 0 samples, packet_length := 0\<rparr>
                   in if n < 0 then Inl (EAF_INVALID, st)
                      else let st = st\<lparr>decoded_frames := of_int n\<rparr>
                           in if decoded_frames st = 0 then Inl (EAF_OK, st) else Inr st
      else Inr st)"

definition opus_pull ::
  "'l opus_lib \<Rightarrow> 'l eaf_dec_opus_t \<Rightarrow> int list \<Rightarrow> u32 \<Rightarrow> eaf_format_t \<Rightarrow> eaf_result_t \<times> u32 \<times> eaf_format_t \<times> int list \<times> 'l eaf_dec_opus_t" where
  "opus_pull lib st pcm max_frames fmt =
     (if max_frames = 0 then (EAF_INVALID, 0, fmt, pcm, st)
      else case opus_fill lib st of Inl (rc, st) \<Rightarrow> (rc, 0, fmt, pcm, st)
        | Inr st \<Rightarrow>
          let available = decoded_frames st - decoded_pos st;
              count = (if available < max_frames then available else max_frames);
              pcm = eaf_s16_to_q31_interleaved (drop (unat (decoded_pos st) * unat (opus_channels st)) (opus_temp st)) (unat count)
                      (unat (opus_channels st)) pcm (unat (opus_output_channels st))
          in (EAF_OK, count, opus_format st, pcm, st\<lparr>decoded_pos := decoded_pos st + count\<rparr>))"

definition opus_reset :: "'l opus_lib \<Rightarrow> 'l eaf_dec_opus_t \<Rightarrow> eaf_result_t \<times> 'l eaf_dec_opus_t" where
  "opus_reset lib st =
     (EAF_OK, st\<lparr>packet_length := 0, decoded_frames := 0, decoded_pos := 0, opus_dec := map_option (opus_reset_state lib) (opus_dec st)\<rparr>)"

definition opus_close :: "'l eaf_dec_opus_t \<Rightarrow> 'l eaf_dec_opus_t" where
  "opus_close st = st\<lparr>opus_dec := None, packet_length := 0, decoded_frames := 0, decoded_pos := 0\<rparr>"

definition eaf_dec_opus_ops :: "'l opus_lib \<Rightarrow> 'l eaf_dec_opus_t eaf_decoder_ops_t" where
  "eaf_dec_opus_ops lib = \<lparr>dec_open = Some (opus_open lib), dec_push = Some opus_push, dec_pull = Some (opus_pull lib),
     dec_reset = Some (opus_reset lib), dec_close = Some opus_close\<rparr>"

section \<open>The adapter interface\<close>

definition opus_inv :: "'l eaf_dec_opus_t \<Rightarrow> bool" where
  "opus_inv d \<longleftrightarrow> (opus_channels d = 1 \<or> opus_channels d = 2) \<and>
     (opus_output_channels d = opus_channels d \<or> opus_channels d = 1 \<and> opus_output_channels d = 2) \<and>
     opus_output_channels d = num_channels (opus_format d) \<and> decoded_pos d \<le> decoded_frames d"

lemma length_put_frame [simp]: "length (put_frame dc i a b dst) = length dst"
  by (simp add: put_frame_def)

lemma length_s16 [simp]: "length (eaf_s16_to_q31_interleaved src n sc dst dc) = length dst"
  unfolding eaf_s16_to_q31_interleaved_def by (induction n) (simp_all add: Let_def)

lemma opus_fill_inv:
  assumes "opus_inv d"
  shows "case opus_fill lib d of Inl (rc, d') \<Rightarrow> opus_inv d' \<and> opus_format d' = opus_format d
    | Inr d' \<Rightarrow> opus_inv d' \<and> opus_format d' = opus_format d"
  using assms by (auto simp: opus_fill_def opus_inv_def Let_def split: prod.split)

interpretation opus: decoder_adapter opus_push "opus_pull lib" "opus_reset lib" opus_format opus_inv
  for lib :: "'l opus_lib"
proof (unfold_locales, goal_cases)
  case (1 d data rc n d')
  then show ?case by (auto simp: opus_push_def opus_inv_def split: if_splits)
next
  case (2 d max_frames pcm fmt rc k fmt' pcm' d')
  show ?case
  proof (cases "opus_fill lib d")
    case (Inl r)
    then have "opus_pull lib d pcm max_frames fmt = (fst r, 0, fmt, pcm, snd r)" using 2(2) by (cases r) (simp add: opus_pull_def word_gt_0)
    then show ?thesis using 2(4) opus_fill_inv [OF 2(1), of lib] Inl by (cases r) auto
  next
    case (Inr e)
    have e: "opus_inv e" "opus_format e = opus_format d" using opus_fill_inv [OF 2(1), of lib] Inr by simp_all
    define count where "count = (if decoded_frames e - decoded_pos e < max_frames then decoded_frames e - decoded_pos e else max_frames)"
    have c: "count \<le> max_frames" "count \<le> decoded_frames e - decoded_pos e" by (auto simp: count_def)
    have "decoded_pos e + count \<le> decoded_frames e"
    proof -
      have p: "decoded_pos e \<le> decoded_frames e" using e(1) by (simp add: opus_inv_def)
      have "unat count \<le> unat (decoded_frames e) - unat (decoded_pos e)" using c(2) unat_sub [OF p] by (simp add: word_le_nat_alt)
      then have s: "unat (decoded_pos e) + unat count \<le> unat (decoded_frames e)" using p by (simp add: word_le_nat_alt)
      then have "unat (decoded_pos e) + unat count < 2 ^ 32" using le_less_trans [OF s unat_lt_32] by simp
      then have "unat (decoded_pos e + count) = unat (decoded_pos e) + unat count" using unat_add_lem [of "decoded_pos e" count] by simp
      then show ?thesis using s by (simp add: word_le_nat_alt)
    qed
    moreover have "opus_pull lib d pcm max_frames fmt = (EAF_OK, count, opus_format e,
        eaf_s16_to_q31_interleaved (drop (unat (decoded_pos e) * unat (opus_channels e)) (opus_temp e)) (unat count)
          (unat (opus_channels e)) pcm (unat (opus_output_channels e)), e\<lparr>decoded_pos := decoded_pos e + count\<rparr>)"
      using 2(2) Inr unfolding opus_pull_def count_def Let_def by (simp add: word_gt_0)
    ultimately show ?thesis using 2(4) e c(1) by (auto simp: opus_inv_def)
  qed
next
  case (3 d rc d')
  then show ?case by (auto simp: opus_reset_def opus_inv_def)
qed

interpretation opus_bridge: decode_bridge opus_push "opus_pull lib" "opus_reset lib" opus_format opus_inv reservoir_sink "\<lambda>_. True"
  for lib :: "'l opus_lib"
  by unfold_locales

section \<open>Delivery of packets\<close>

text \<open>Pulling with buffers of any sizes: the frames handed out, and the state left.\<close>

fun opus_pulls :: "'l opus_lib \<Rightarrow> u32 list \<Rightarrow> 'l eaf_dec_opus_t \<Rightarrow> int list \<times> 'l eaf_dec_opus_t" where
  "opus_pulls lib [] d = ([], d)"
| "opus_pulls lib (cap # caps) d =
     (let (rc, n, fmt, pcm, d') = opus_pull lib d (replicate (2 * unat cap) 0) cap zero_format;
          (rest, d'') = opus_pulls lib caps d'
      in (take (unat n * unat (opus_output_channels d)) pcm @ rest, d''))"

definition staged :: "'l eaf_dec_opus_t \<Rightarrow> bool" where
  "staged d \<longleftrightarrow> opus_inv d \<and> packet_length d = 0 \<and> unat (decoded_frames d) * unat (opus_channels d) \<le> length (opus_temp d)"

definition staged_frame :: "'l eaf_dec_opus_t \<Rightarrow> nat \<Rightarrow> int list" where
  "staged_frame d = frame_of (map eaf_pcm16_to_q31 (opus_temp d)) (unat (opus_channels d)) (unat (opus_output_channels d))"

lemma frame_of_drop:
  assumes "k * sc \<le> length src"
  shows "frame_of (drop (k * sc) src) sc dc i = frame_of src sc dc (k + i)"
  using assms by (auto simp: frame_of_def Let_def algebra_simps)

lemma upmix_drop:
  assumes "k * sc \<le> length src"
  shows "upmix (drop (k * sc) src) n sc dc = concat (map (frame_of src sc dc) [k..<k + n])"
proof -
  have "map (frame_of (drop (k * sc) src) sc dc) [0..<n] = map (frame_of src sc dc) (map (\<lambda>i. k + i) [0..<n])"
    by (simp add: frame_of_drop [OF assms])
  also have "map (\<lambda>i. k + i) [0..<n] = [k..<k + n]" by (simp add: map_add_upt add.commute [of k])
  finally show ?thesis by (simp add: upmix_def)
qed

lemma pull_staged:
  assumes "staged d" and "decoded_pos d < decoded_frames d" and "cap \<noteq> 0"
  defines "p \<equiv> unat (decoded_pos d)" and "n \<equiv> min (unat cap) (unat (decoded_frames d) - unat (decoded_pos d))"
  shows "\<exists>pcm. opus_pull lib d (replicate (2 * unat cap) 0) cap fmt = (EAF_OK, of_nat n, opus_format d, pcm, d\<lparr>decoded_pos := of_nat (p + n)\<rparr>) \<and>
    take (n * unat (opus_output_channels d)) pcm = concat (map (staged_frame d) [p..<p + n])"
proof -
  let ?ch = "unat (opus_channels d)" and ?oc = "unat (opus_output_channels d)" and ?src = "map eaf_pcm16_to_q31 (opus_temp d)"
  let ?c = "if decoded_frames d - decoded_pos d < cap then decoded_frames d - decoded_pos d else cap"
  have pf: "p < unat (decoded_frames d)" using assms(2) by (simp add: p_def word_less_nat_alt)
  have "unat (decoded_frames d - decoded_pos d) = unat (decoded_frames d) - p" using assms(2) unat_sub [of "decoded_pos d" "decoded_frames d"] by (simp add: p_def)
  then have c: "unat ?c = n" by (auto simp: n_def p_def word_less_nat_alt)
  have "of_nat (unat x) = x" for x :: u32 by simp
  from this [of ?c] have cn: "?c = of_nat n" unfolding c by (rule sym)
  have pn: "p + n \<le> unat (decoded_frames d)" using pf by (simp add: n_def p_def)
  have pc: "decoded_pos d + of_nat n = of_nat (p + n)" by (simp add: p_def)
  have ch: "?ch = 1 \<or> ?ch = 2" "?oc = ?ch \<or> ?ch = 1 \<and> ?oc = 2" using assms(1) by (auto simp: staged_def opus_inv_def)
  have len: "unat (decoded_frames d) * ?ch \<le> length (opus_temp d)" using assms(1) by (simp add: staged_def)
  have tl: "(p + n) * ?ch \<le> length (opus_temp d)" using mult_le_mono1 [OF pn, of ?ch] len by linarith
  then have pl: "p * ?ch \<le> length ?src" by (simp add: algebra_simps)
  have room: "n * (if ?oc = 2 then 2 else 1) \<le> length (replicate (2 * unat cap) (0::int))" by (auto simp: n_def min_def)
  have src: "i * ?ch + (if ?ch = 2 then 1 else 0) < length (drop (p * ?ch) (opus_temp d))" if "i < n" for i
  proof -
    have "i * ?ch + (if ?ch = 2 then 1 else 0) < n * ?ch" using that ch(1) by auto
    then show ?thesis using tl by (simp add: algebra_simps)
  qed
  have S: "eaf_s16_to_q31_interleaved (drop (p * ?ch) (opus_temp d)) n ?ch (replicate (2 * unat cap) 0) ?oc =
      blit (replicate (2 * unat cap) 0) 0 (concat (map (staged_frame d) [p..<p + n]))"
  proof -
    have "eaf_s16_to_q31_interleaved (drop (p * ?ch) (opus_temp d)) n ?ch (replicate (2 * unat cap) 0) ?oc =
        eaf_q31_interleaved (map eaf_pcm16_to_q31 (drop (p * ?ch) (opus_temp d))) n ?ch (replicate (2 * unat cap) 0) ?oc"
      by (rule s16_as_q31) (rule src)
    then show ?thesis unfolding q31_interleaved_blit [OF room] drop_map [symmetric] upmix_drop [OF pl] staged_frame_def .
  qed
  have "\<not> decoded_frames d \<le> decoded_pos d" using assms(2) by (simp add: not_le)
  then have "opus_fill lib d = Inr d" by (simp add: opus_fill_def)
  then have "opus_pull lib d (replicate (2 * unat cap) 0) cap fmt = (EAF_OK, ?c, opus_format d,
      eaf_s16_to_q31_interleaved (drop (unat (decoded_pos d) * ?ch) (opus_temp d)) (unat ?c) ?ch (replicate (2 * unat cap) 0) ?oc,
      d\<lparr>decoded_pos := decoded_pos d + ?c\<rparr>)"
    using assms(3) unfolding opus_pull_def Let_def by (simp only: if_False sum.case)
  then have P: "opus_pull lib d (replicate (2 * unat cap) 0) cap fmt =
      (EAF_OK, of_nat n, opus_format d, blit (replicate (2 * unat cap) 0) 0 (concat (map (staged_frame d) [p..<p + n])), d\<lparr>decoded_pos := of_nat (p + n)\<rparr>)"
    unfolding c unfolding cn pc p_def [symmetric] S .
  have "length (concat (map (staged_frame d) [p..<p + n])) = n * ?oc"
    using ch length_upmix [of "drop (p * ?ch) ?src" n ?ch ?oc] unfolding upmix_drop [OF pl] staged_frame_def by auto
  then show ?thesis using P by (simp add: blit_def)
qed

lemma pulls_staged:
  "staged d \<Longrightarrow> 0 \<notin> set caps \<Longrightarrow>
   \<exists>d'. opus_pulls lib caps d = (concat (map (staged_frame d) [unat (decoded_pos d)..<min (unat (decoded_frames d)) (unat (decoded_pos d) + (\<Sum>c\<leftarrow>caps. unat c))]), d') \<and>
     staged d' \<and> opus_dec d' = opus_dec d \<and> opus_format d' = opus_format d \<and> opus_channels d' = opus_channels d \<and> opus_output_channels d' = opus_output_channels d \<and> packet d' = packet d \<and>
     length (opus_temp d') = length (opus_temp d) \<and>
     (unat (decoded_frames d) \<le> unat (decoded_pos d) + (\<Sum>c\<leftarrow>caps. unat c) \<longrightarrow> decoded_pos d' = decoded_frames d')"
proof (induction caps arbitrary: d)
  case Nil
  then have "unat (decoded_pos d) \<le> unat (decoded_frames d)" by (simp add: staged_def opus_inv_def word_le_nat_alt)
  then show ?case using Nil by (auto simp: word_unat_eq_iff)
next
  case (Cons cap caps)
  let ?p = "unat (decoded_pos d)" and ?f = "unat (decoded_frames d)" and ?s = "\<Sum>c\<leftarrow>caps. unat c"
  have cap: "cap \<noteq> 0" "0 \<notin> set caps" using Cons.prems(2) by auto
  have pf: "?p \<le> ?f" using Cons.prems(1) by (simp add: staged_def opus_inv_def word_le_nat_alt)
  show ?case
  proof (cases "?p = ?f")
    case True
    let ?d = "d\<lparr>decoded_pos := 0, decoded_frames := 0\<rparr>"
    have st: "staged ?d" using Cons.prems(1) by (auto simp: staged_def opus_inv_def)
    have "decoded_pos d = decoded_frames d" using True by (simp add: word_unat_eq_iff)
    then have "opus_pull lib d pcm cap fmt = (EAF_OK, 0, fmt, pcm, ?d)" for pcm fmt
      using cap(1) Cons.prems(1) by (simp add: opus_pull_def opus_fill_def staged_def)
    moreover obtain d' where "opus_pulls lib caps ?d = ([], d')" "staged d'" "opus_dec d' = opus_dec d" "opus_format d' = opus_format d" "opus_channels d' = opus_channels d"
        "opus_output_channels d' = opus_output_channels d" "packet d' = packet d" "length (opus_temp d') = length (opus_temp d)" "decoded_pos d' = decoded_frames d'"
      using Cons.IH [OF st cap(2)] by auto
    ultimately show ?thesis using True by simp
  next
    case False
    define n where "n = min (unat cap) (?f - ?p)"
    let ?d = "d\<lparr>decoded_pos := of_nat (?p + n)\<rparr>"
    have lt: "decoded_pos d < decoded_frames d" using pf False by (simp add: word_less_nat_alt)
    obtain pcm where P: "opus_pull lib d (replicate (2 * unat cap) 0) cap zero_format = (EAF_OK, of_nat n, opus_format d, pcm, ?d)"
        "take (n * unat (opus_output_channels d)) pcm = concat (map (staged_frame d) [?p..<?p + n])"
      using pull_staged [OF Cons.prems(1) lt cap(1), of lib zero_format] unfolding n_def by blast
    have "n < 2 ^ 32" "?p + n < 2 ^ 32" using pf unat_lt_32 [of "decoded_frames d"] by (auto simp: n_def simp del: unat_lt_32)
    then have u: "unat (of_nat n :: u32) = n" "unat (of_nat (?p + n) :: u32) = ?p + n" by (simp_all add: unat_of_nat take_bit_nat_eq_self del: of_nat_add)
    have st: "staged ?d" using Cons.prems(1) u(2) pf by (auto simp: staged_def opus_inv_def word_le_nat_alt n_def simp del: of_nat_add)
    have sf: "staged_frame ?d = staged_frame d" by (simp add: staged_frame_def)
    obtain d' where D: "opus_pulls lib caps ?d = (concat (map (staged_frame d) [?p + n..<min ?f (?p + n + ?s)]), d')" "staged d'" "opus_dec d' = opus_dec d" "opus_format d' = opus_format d"
        "opus_channels d' = opus_channels d" "opus_output_channels d' = opus_output_channels d" "packet d' = packet d" "length (opus_temp d') = length (opus_temp d)"
        "?f \<le> ?p + n + ?s \<longrightarrow> decoded_pos d' = decoded_frames d'"
      using Cons.IH [OF st cap(2)] u(2) unfolding sf by auto
    have j: "[?p..<min ?f (?p + (\<Sum>c\<leftarrow>cap # caps. unat c))] = [?p..<?p + n] @ [?p + n..<min ?f (?p + n + ?s)]"
    proof (cases "unat cap \<le> ?f - ?p")
      case True
      then have "n = unat cap" by (simp add: n_def)
      then show ?thesis using upt_add_eq_append [of ?p "?p + n" "min ?f (?p + n + ?s) - (?p + n)"] True pf by (simp add: add.assoc)
    next
      case False
      then have "?p + n = ?f" using pf by (simp add: n_def)
      then show ?thesis using False pf by simp
    qed
    have "?f \<le> ?p + (\<Sum>c\<leftarrow>cap # caps. unat c) \<Longrightarrow> ?f \<le> ?p + n + ?s" using pf by (auto simp: n_def)
    then show ?thesis using P D u(1) unfolding j by simp
  qed
qed

definition drained :: "'l eaf_dec_opus_t \<Rightarrow> bool" where
  "drained d \<longleftrightarrow> opus_inv d \<and> packet_length d = 0 \<and> decoded_pos d = decoded_frames d \<and> length (packet d) = 1500 \<and> length (opus_temp d) = 11520"

lemma opus_packet:
  assumes "drained d" and "length data \<le> 1500" and "data \<noteq> []"
    and "opus_decode lib (opus_dec d) data 5760 = (int n, xs, dec)" and "n \<le> 5760" and "length xs = n * unat (opus_channels d)"
    and "caps \<noteq> []" and "0 \<notin> set caps"
  shows "\<exists>d1 d2. opus_push d data = (EAF_OK, length data, d1) \<and>
    opus_pulls lib caps d1 = (upmix (map eaf_pcm16_to_q31 xs) (min n (\<Sum>c\<leftarrow>caps. unat c)) (unat (opus_channels d)) (unat (opus_output_channels d)), d2) \<and>
    opus_dec d2 = dec \<and> opus_channels d2 = opus_channels d \<and> opus_output_channels d2 = opus_output_channels d \<and> (n \<le> (\<Sum>c\<leftarrow>caps. unat c) \<longrightarrow> drained d2)"
proof -
  let ?d1 = "d\<lparr>packet := blit (packet d) 0 data, packet_length := length data\<rparr>"
  let ?e = "?d1\<lparr>decoded_pos := 0, decoded_frames := of_nat n, opus_dec := dec, opus_temp := blit (opus_temp d) 0 xs, packet_length := 0\<rparr>"
  let ?ch = "unat (opus_channels d)"
  have ch: "?ch = 1 \<or> ?ch = 2" using assms(1) by (auto simp: drained_def opus_inv_def)
  have un: "unat (of_nat n :: u32) = n" using assms(5) by (simp add: unat_of_nat take_bit_nat_eq_self)
  have xl: "length xs \<le> 11520" using assms(5,6) ch by auto
  then have tl: "length (blit (opus_temp d) 0 xs) = 11520" using assms(1) by (simp add: drained_def)
  have st: "staged ?e" using assms(1,5,6) ch un tl xl by (auto simp: staged_def drained_def opus_inv_def word_le_nat_alt)
  have push: "opus_push d data = (EAF_OK, length data, ?d1)" using assms(1,2) by (simp add: opus_push_def drained_def)
  have tk: "take (length data) (blit (packet d) 0 data) = data" using assms(1,2) by (simp add: drained_def blit_def)
  have fill: "opus_fill lib ?d1 = (if n = 0 then Inl (EAF_OK, ?e) else Inr ?e)"
    using assms(1,3,4) tk un unfolding drained_def by (auto simp: opus_fill_def Let_def)
  obtain cap rest where caps: "caps = cap # rest" using assms(7) by (cases caps) auto
  have cz: "cap \<noteq> 0" "0 \<notin> set rest" using assms(8) caps by auto
  have same: "opus_pulls lib caps ?d1 = opus_pulls lib caps ?e"
  proof (cases "n = 0")
    case True
    then have "opus_pull lib ?d1 pcm cap fmt = (EAF_OK, 0, fmt, pcm, ?e)" for pcm fmt using fill cz(1) by (simp add: opus_pull_def)
    moreover have "opus_pull lib ?e pcm cap fmt = (EAF_OK, 0, fmt, pcm, ?e)" for pcm fmt
      using True cz(1) by (simp add: opus_pull_def opus_fill_def)
    ultimately show ?thesis by (simp add: caps)
  next
    case False
    have "(of_nat n :: u32) \<noteq> 0" using un False by force
    then have "opus_fill lib ?e = Inr ?e" by (simp add: opus_fill_def word_le_nat_alt un False)
    then have "opus_pull lib ?d1 pcm cap fmt = opus_pull lib ?e pcm cap fmt" for pcm fmt using fill False cz(1) by (simp add: opus_pull_def)
    then show ?thesis by (simp add: caps)
  qed
  obtain d2 where D: "opus_pulls lib caps ?e = (concat (map (staged_frame ?e) [0..<min n (\<Sum>c\<leftarrow>caps. unat c)]), d2)" "staged d2" "opus_dec d2 = dec"
      "opus_channels d2 = opus_channels d" "opus_output_channels d2 = opus_output_channels d" "packet d2 = blit (packet d) 0 data" "length (opus_temp d2) = 11520"
      "n \<le> (\<Sum>c\<leftarrow>caps. unat c) \<longrightarrow> decoded_pos d2 = decoded_frames d2"
    using pulls_staged [OF st assms(8), of lib] un tl by auto
  have "staged_frame ?e i = frame_of (map eaf_pcm16_to_q31 xs) ?ch (unat (opus_output_channels d)) i" if "i < n" for i
  proof -
    have "i * ?ch < length xs" "?ch = 2 \<longrightarrow> i * ?ch + 1 < length xs" using that ch assms(6) by auto
    then show ?thesis by (simp add: staged_frame_def frame_of_def Let_def blit_def nth_append)
  qed
  then have "concat (map (staged_frame ?e) [0..<min n (\<Sum>c\<leftarrow>caps. unat c)]) =
      upmix (map eaf_pcm16_to_q31 xs) (min n (\<Sum>c\<leftarrow>caps. unat c)) ?ch (unat (opus_output_channels d))"
    unfolding upmix_def by (intro arg_cong [of _ _ concat] map_cong) simp_all
  moreover have "n \<le> (\<Sum>c\<leftarrow>caps. unat c) \<longrightarrow> drained d2" using D assms(1,2) by (simp add: drained_def staged_def length_blit)
  ultimately show ?thesis using push same D by (intro exI [of _ ?d1] exI [of _ d2]) simp
qed

section \<open>Properties\<close>

text \<open>Packets, each with the buffer sizes of the pulls that follow it; and the samples libopus makes of them.\<close>

fun opus_play :: "'l opus_lib \<Rightarrow> (u8 list \<times> u32 list) list \<Rightarrow> 'l eaf_dec_opus_t \<Rightarrow> int list \<times> 'l eaf_dec_opus_t" where
  "opus_play lib [] d = ([], d)"
| "opus_play lib ((data, caps) # ps) d =
     (let (rc, n, d1) = opus_push d data; (out, d2) = opus_pulls lib caps d1; (outs, d3) = opus_play lib ps d2 in (out @ outs, d3))"

fun opus_samples :: "'l opus_lib \<Rightarrow> nat \<Rightarrow> nat \<Rightarrow> 'l option \<Rightarrow> (u8 list \<times> u32 list) list \<Rightarrow> int list" where
  "opus_samples lib ch oc dec [] = []"
| "opus_samples lib ch oc dec ((data, caps) # ps) =
     (case opus_decode lib dec data 5760 of (n, xs, dec) \<Rightarrow> upmix (map eaf_pcm16_to_q31 xs) (nat n) ch oc @ opus_samples lib ch oc dec ps)"

text \<open>libopus decodes every packet, into the room it is given, and the pulls ask for all of its frames.\<close>

fun opus_playable :: "'l opus_lib \<Rightarrow> nat \<Rightarrow> 'l option \<Rightarrow> (u8 list \<times> u32 list) list \<Rightarrow> bool" where
  "opus_playable lib ch dec [] = True"
| "opus_playable lib ch dec ((data, caps) # ps) =
     (data \<noteq> [] \<and> length data \<le> 1500 \<and> caps \<noteq> [] \<and> 0 \<notin> set caps \<and>
      (case opus_decode lib dec data 5760 of (n, xs, dec) \<Rightarrow>
         0 \<le> n \<and> n \<le> 5760 \<and> length xs = nat n * ch \<and> nat n \<le> (\<Sum>c\<leftarrow>caps. unat c) \<and> opus_playable lib ch dec ps))"

text \<open>
  C18: The Opus adapter loses and repeats nothing: for any library that decodes within the room it is given, a sequence of packets, each drained
  by pulls of any sizes, comes out as the samples of the library, widened to Q1.31 and mapped to the output channels, in order.
\<close>

theorem opus_stream_delivered:
  assumes "drained d" and "opus_playable lib (unat (opus_channels d)) (opus_dec d) ps"
  shows "\<exists>d'. opus_play lib ps d = (opus_samples lib (unat (opus_channels d)) (unat (opus_output_channels d)) (opus_dec d) ps, d') \<and> drained d'"
  using assms
proof (induction ps arbitrary: d)
  case Nil
  then show ?case by simp
next
  case (Cons p ps)
  obtain data caps where p: "p = (data, caps)" by fastforce
  obtain n xs dec where o: "opus_decode lib (opus_dec d) data 5760 = (n, xs, dec)" by (metis prod_cases3)
  have h: "data \<noteq> []" "length data \<le> 1500" "caps \<noteq> []" "0 \<notin> set caps" "0 \<le> n" "n \<le> 5760" "length xs = nat n * unat (opus_channels d)"
      "nat n \<le> (\<Sum>c\<leftarrow>caps. unat c)" "opus_playable lib (unat (opus_channels d)) dec ps"
    using Cons.prems(2) p o by auto
  have on: "opus_decode lib (opus_dec d) data 5760 = (int (nat n), xs, dec)" "nat n \<le> 5760" using o h(5,6) by simp_all
  obtain d1 d2 where D: "opus_push d data = (EAF_OK, length data, d1)"
      "opus_pulls lib caps d1 = (upmix (map eaf_pcm16_to_q31 xs) (nat n) (unat (opus_channels d)) (unat (opus_output_channels d)), d2)"
      "opus_dec d2 = dec" "opus_channels d2 = opus_channels d" "opus_output_channels d2 = opus_output_channels d" "drained d2"
    using opus_packet [OF Cons.prems(1) h(2,1) on h(7,3,4)] h(8) by (auto simp: min_absorb1)
  show ?case using Cons.IH [OF D(6)] D h(9) o p by auto
qed

definition example_opus_lib :: "nat opus_lib" where
  "example_opus_lib = \<lparr>opus_decoder_create = (\<lambda>rate ch. (0, Some 0)), opus_decode = (\<lambda>dec data room. (int (length data), map (\<lambda>b. int (the dec) + uint b) data, map_option Suc dec)),
     opus_reset_state = (\<lambda>_. 0)\<rparr>"

definition example_opus :: "nat eaf_dec_opus_t" where
  "example_opus = \<lparr>opus_dec = Some 5, opus_format = mk_format 48000 2 3, opus_channels = 1, opus_output_channels = 2, packet_length = 0,
     decoded_frames = 0, decoded_pos = 0, packet = replicate 1500 0, opus_temp = replicate 11520 0\<rparr>"

theorem opus_stream_delivered_witness:
  "\<exists>d'. opus_play example_opus_lib [([1, 2, 3], [2, 9]), ([7], [1])] example_opus =
    ([6 * 65536, 6 * 65536, 7 * 65536, 7 * 65536, 8 * 65536, 8 * 65536, 13 * 65536, 13 * 65536], d') \<and> drained d'"
proof -
  have "drained example_opus" by (simp add: example_opus_def drained_def opus_inv_def mk_format_def)
  moreover have "opus_playable example_opus_lib (unat (opus_channels example_opus)) (opus_dec example_opus) [([1, 2, 3], [2, 9]), ([7], [1])]"
    by (simp add: example_opus_def example_opus_lib_def)
  ultimately show ?thesis using opus_stream_delivered [of example_opus example_opus_lib "[([1, 2, 3], [2, 9]), ([7], [1])]"]
    by (simp add: example_opus_def example_opus_lib_def upmix_def frame_of_def eaf_pcm16_to_q31_def upt_rec)
qed

end
