(* ===== verification/Dec_Vorbis.thy ===== *)
theory Dec_Vorbis
  imports Dec_PCM EAF_Float
begin

text \<open>
  \<open>apps/decoders/dec_vorbis.c\<close>: the Vorbis adapter over the push interface of stb_vorbis. Pushed bytes collect in a linear buffer; a pull
  opens the stream once its headers are complete and then decodes until a frame comes out or more bytes are needed. The library is a record of functions;
  it says how many bytes of the block it used.
\<close>

section \<open>Samples\<close>

text \<open>The multiplication of the target and \<open>lrintf\<close> are parameters. The literal \<open>2147483647.0f\<close> is the single-precision number \<open>2^31\<close>.\<close>

record float_target =
  ft_round :: rounding
  ft_lrint :: "double \<Rightarrow> int"

definition eaf_float_to_q31 :: "float_target \<Rightarrow> double \<Rightarrow> int" where
  "eaf_float_to_q31 t x =
     (if fle (Fin 1) x then INT32_MAX else if fle x (Fin (- 1)) then INT32_MIN
      else i32 (ft_lrint t (fmul (ft_round t) x (Fin 2147483648))))"

section \<open>State and operations\<close>

datatype vorbis_error = VORBIS_need_more_data | VORBIS_other int

text \<open>Opening returns the bytes used and the decoder, or the error. Decoding returns the bytes used, the channels, the samples per channel and their number.\<close>

record 'l vorbis_lib =
  stb_vorbis_open_pushdata :: "u8 list \<Rightarrow> vorbis_error + nat \<times> 'l"
  stb_vorbis_decode_frame_pushdata :: "'l \<Rightarrow> u8 list \<Rightarrow> nat \<times> int \<times> double list list \<times> int \<times> 'l"

record 'l eaf_dec_vorbis_t =
  vorbis :: "'l option"
  vorbis_buffer :: "u8 list"
  vorbis_length :: nat
  vorbis_format :: eaf_format_t
  vorbis_channels :: u8
  vorbis_output_channels :: u8

abbreviation (input) EAF_DEC_VORBIS_BUFFER_BYTES :: nat where "EAF_DEC_VORBIS_BUFFER_BYTES \<equiv> 32768"

definition vorbis_release :: "'l eaf_dec_vorbis_t \<Rightarrow> 'l eaf_dec_vorbis_t" where
  "vorbis_release st = st\<lparr>vorbis := None\<rparr>"

definition vorbis_open :: "'l eaf_dec_vorbis_t \<Rightarrow> eaf_decoder_config_t \<Rightarrow> eaf_format_t \<Rightarrow> eaf_result_t \<times> 'l eaf_dec_vorbis_t" where
  "vorbis_open st cfg out =
     (let rc = eaf_decoder_validate_open cfg out EAF_CODEC_VORBIS True
      in if rc \<noteq> EAF_OK then (rc, st)
         else (EAF_OK, (vorbis_release st)\<lparr>vorbis_length := 0, vorbis_channels := cfg_channels cfg, vorbis_output_channels := num_channels out, vorbis_format := out\<rparr>))"

definition vorbis_push :: "'l eaf_dec_vorbis_t \<Rightarrow> u8 list \<Rightarrow> eaf_result_t \<times> nat \<times> 'l eaf_dec_vorbis_t" where
  "vorbis_push st data =
     (let space = EAF_DEC_VORBIS_BUFFER_BYTES - vorbis_length st;
          n = (if length data < space then length data else space)
      in (EAF_OK, n, st\<lparr>vorbis_buffer := blit (vorbis_buffer st) (vorbis_length st) (take n data), vorbis_length := vorbis_length st + n\<rparr>))"

text \<open>The \<open>memmove\<close> after the library has used bytes of the buffer.\<close>

definition vorbis_consume :: "nat \<Rightarrow> 'l eaf_dec_vorbis_t \<Rightarrow> 'l eaf_dec_vorbis_t" where
  "vorbis_consume n st =
     st\<lparr>vorbis_buffer := blit (vorbis_buffer st) 0 (take (vorbis_length st - n) (drop n (vorbis_buffer st))), vorbis_length := vorbis_length st - n\<rparr>"

definition vorbis_start :: "'l vorbis_lib \<Rightarrow> 'l eaf_dec_vorbis_t \<Rightarrow> (eaf_result_t \<times> 'l eaf_dec_vorbis_t) + 'l \<times> 'l eaf_dec_vorbis_t" where
  "vorbis_start lib st =
     (case vorbis st of Some v \<Rightarrow> Inr (v, st)
      | None \<Rightarrow>
        if vorbis_length st = 0 then Inl (EAF_OK, st)
        else (case stb_vorbis_open_pushdata lib (take (vorbis_length st) (vorbis_buffer st)) of
            Inl VORBIS_need_more_data \<Rightarrow> Inl (EAF_OK, st)
          | Inl (VORBIS_other _) \<Rightarrow> Inl (EAF_INVALID, st\<lparr>vorbis_length := 0\<rparr>)
          | Inr (consumed, v) \<Rightarrow> Inr (v, vorbis_consume consumed (st\<lparr>vorbis := Some v\<rparr>))))"

text \<open>A decoded frame: the checks, then the samples of both channels interleaved.\<close>

definition vorbis_emit ::
  "float_target \<Rightarrow> 'l eaf_dec_vorbis_t \<Rightarrow> int \<Rightarrow> double list list \<Rightarrow> int \<Rightarrow> int list \<Rightarrow> u32 \<Rightarrow> eaf_format_t \<Rightarrow>
   eaf_result_t \<times> u32 \<times> eaf_format_t \<times> int list \<times> 'l eaf_dec_vorbis_t" where
  "vorbis_emit t st ch outp count pcm max_frames fmt =
     (if ch < 1 \<or> ch > 2 then (EAF_UNSUPPORTED, 0, fmt, pcm, st)
      else let st = (if vorbis_channels st = 0 then st\<lparr>vorbis_channels := of_int ch\<rparr> else st)
           in if vorbis_channels st \<noteq> of_int ch then (EAF_INVALID, 0, fmt, pcm, st)
              else if vorbis_output_channels st \<noteq> of_int ch \<and> \<not> (ch = 1 \<and> vorbis_output_channels st = 2) then (EAF_UNSUPPORTED, 0, fmt, pcm, st)
              else if (of_int count :: u32) > max_frames then (EAF_INVALID, 0, fmt, pcm, st)
              else let n = of_int count :: u32;
                       pcm = fold (\<lambda>i pcm.
                           let l = eaf_float_to_q31 t (outp ! 0 ! i);
                               r = (if ch > 1 then eaf_float_to_q31 t (outp ! 1 ! i) else l)
                           in put_frame (unat (vorbis_output_channels st)) i l r pcm) [0..<unat n] pcm
                   in (EAF_OK, n, vorbis_format st, pcm, st))"

function vorbis_loop ::
  "'l vorbis_lib \<Rightarrow> float_target \<Rightarrow> 'l \<Rightarrow> 'l eaf_dec_vorbis_t \<Rightarrow> int list \<Rightarrow> u32 \<Rightarrow> eaf_format_t \<Rightarrow>
   eaf_result_t \<times> u32 \<times> eaf_format_t \<times> int list \<times> 'l eaf_dec_vorbis_t" where
  "vorbis_loop lib t v st pcm max_frames fmt =
     (if vorbis_length st = 0 then (EAF_OK, 0, fmt, pcm, st)
      else let (consumed, ch, outp, count, v) = stb_vorbis_decode_frame_pushdata lib v (take (vorbis_length st) (vorbis_buffer st));
               st = st\<lparr>vorbis := Some v\<rparr>;
               st = (if consumed > 0 then vorbis_consume consumed st else st)
           in if count > 0 then vorbis_emit t st ch outp count pcm max_frames fmt
              else if consumed = 0 then (EAF_OK, 0, fmt, pcm, st)
              else vorbis_loop lib t v st pcm max_frames fmt)"
  by pat_completeness auto
termination
  by (relation "measure (\<lambda>(lib, t, v, st, _). vorbis_length st)") (auto simp: vorbis_consume_def)

declare vorbis_loop.simps [simp del]

definition vorbis_pull ::
  "'l vorbis_lib \<Rightarrow> float_target \<Rightarrow> 'l eaf_dec_vorbis_t \<Rightarrow> int list \<Rightarrow> u32 \<Rightarrow> eaf_format_t \<Rightarrow>
   eaf_result_t \<times> u32 \<times> eaf_format_t \<times> int list \<times> 'l eaf_dec_vorbis_t" where
  "vorbis_pull lib t st pcm max_frames fmt =
     (case vorbis_start lib st of Inl (rc, st) \<Rightarrow> (rc, 0, fmt, pcm, st) | Inr (v, st) \<Rightarrow> vorbis_loop lib t v st pcm max_frames fmt)"

definition vorbis_reset :: "'l eaf_dec_vorbis_t \<Rightarrow> eaf_result_t \<times> 'l eaf_dec_vorbis_t" where
  "vorbis_reset st = (EAF_OK, (vorbis_release st)\<lparr>vorbis_length := 0, vorbis_channels := 0\<rparr>)"

definition vorbis_close :: "'l eaf_dec_vorbis_t \<Rightarrow> 'l eaf_dec_vorbis_t" where
  "vorbis_close st = (vorbis_release st)\<lparr>vorbis_length := 0\<rparr>"

definition eaf_dec_vorbis_ops :: "'l vorbis_lib \<Rightarrow> float_target \<Rightarrow> 'l eaf_dec_vorbis_t eaf_decoder_ops_t" where
  "eaf_dec_vorbis_ops lib t = \<lparr>dec_open = Some vorbis_open, dec_push = Some vorbis_push, dec_pull = Some (vorbis_pull lib t),
     dec_reset = Some vorbis_reset, dec_close = Some vorbis_close\<rparr>"

section \<open>The adapter interface\<close>

definition vorbis_inv :: "'l eaf_dec_vorbis_t \<Rightarrow> bool" where
  "vorbis_inv d \<longleftrightarrow> length (vorbis_buffer d) = 32768 \<and> vorbis_length d \<le> 32768 \<and> vorbis_output_channels d = num_channels (vorbis_format d)"

lemma vorbis_consume_inv: "vorbis_inv d \<Longrightarrow> vorbis_inv (vorbis_consume n d) \<and> vorbis_format (vorbis_consume n d) = vorbis_format d"
  by (auto simp: vorbis_inv_def vorbis_consume_def)

lemma length_fold_put_frame: "length (fold (\<lambda>i pcm. put_frame oc i (l i) (r i) pcm) is pcm) = length pcm"
  by (induction "is" arbitrary: pcm) (simp_all add: put_frame_def)

definition vorbis_result_ok :: "'l eaf_dec_vorbis_t \<Rightarrow> int list \<Rightarrow> u32 \<Rightarrow> eaf_result_t \<times> u32 \<times> eaf_format_t \<times> int list \<times> 'l eaf_dec_vorbis_t \<Rightarrow> bool" where
  "vorbis_result_ok d pcm max_frames r \<longleftrightarrow> (case r of (rc, k, fmt', pcm', d') \<Rightarrow>
     vorbis_inv d' \<and> vorbis_format d' = vorbis_format d \<and> length pcm' = length pcm \<and> k \<le> max_frames \<and> (k \<noteq> 0 \<longrightarrow> fmt' = vorbis_format d))"

lemma vorbis_emit_ok:
  assumes "vorbis_inv d"
  shows "vorbis_result_ok d pcm max_frames (vorbis_emit t d ch outp count pcm max_frames fmt)"
  using assms by (auto simp: vorbis_emit_def vorbis_result_ok_def vorbis_inv_def Let_def length_fold_put_frame not_less)

lemma vorbis_loop_ok:
  "vorbis_inv d \<Longrightarrow> vorbis_result_ok d pcm max_frames (vorbis_loop lib t v d pcm max_frames fmt)"
proof (induction lib t v d pcm max_frames fmt rule: vorbis_loop.induct)
  case (1 lib t v d pcm max_frames fmt)
  obtain consumed ch outp count v' where r: "stb_vorbis_decode_frame_pushdata lib v (take (vorbis_length d) (vorbis_buffer d)) = (consumed, ch, outp, count, v')"
    by (metis prod_cases5)
  let ?d = "d\<lparr>vorbis := Some v'\<rparr>"
  define e where "e = (if consumed > 0 then vorbis_consume consumed ?d else ?d)"
  have "vorbis_inv ?d" using "1.prems" by (simp add: vorbis_inv_def)
  then have e: "vorbis_inv e" "vorbis_format e = vorbis_format d" using vorbis_consume_inv [of ?d consumed] by (auto simp: e_def)
  have same: "vorbis_result_ok e pcm max_frames x \<longleftrightarrow> vorbis_result_ok d pcm max_frames x" for x using e(2) by (simp add: vorbis_result_ok_def)
  show ?case
  proof (cases "vorbis_length d = 0")
    case True
    then show ?thesis using "1.prems" by (simp add: vorbis_loop.simps vorbis_result_ok_def)
  next
    case False
    have L: "vorbis_loop lib t v d pcm max_frames fmt = (if count > 0 then vorbis_emit t e ch outp count pcm max_frames fmt
        else if consumed = 0 then (EAF_OK, 0, fmt, pcm, e) else vorbis_loop lib t v' e pcm max_frames fmt)"
      using False r by (subst vorbis_loop.simps) (simp add: Let_def e_def)
    have "vorbis_result_ok d pcm max_frames (vorbis_loop lib t v' e pcm max_frames fmt)" if "\<not> count > 0" "consumed \<noteq> 0"
      unfolding same [symmetric] by (rule "1.IH" [OF False r [symmetric] refl refl refl refl refl e_def that e(1)])
    moreover have "vorbis_result_ok d pcm max_frames (EAF_OK, 0, fmt, pcm, e)" using e by (simp add: vorbis_result_ok_def)
    moreover have "vorbis_result_ok d pcm max_frames (vorbis_emit t e ch outp count pcm max_frames fmt)"
      unfolding same [symmetric] by (rule vorbis_emit_ok [OF e(1)])
    ultimately show ?thesis unfolding L by simp
  qed
qed

lemma vorbis_pull_ok:
  assumes "vorbis_inv d"
  shows "vorbis_result_ok d pcm max_frames (vorbis_pull lib t d pcm max_frames fmt)"
proof -
  have s: "case vorbis_start lib d of Inl (rc, d') \<Rightarrow> vorbis_inv d' \<and> vorbis_format d' = vorbis_format d
      | Inr (v, d') \<Rightarrow> vorbis_inv d' \<and> vorbis_format d' = vorbis_format d"
    using assms vorbis_consume_inv by (auto simp: vorbis_start_def vorbis_inv_def vorbis_consume_def split: option.split sum.split vorbis_error.split)
  show ?thesis
  proof (cases "vorbis_start lib d")
    case (Inl r)
    then show ?thesis using s by (cases r) (simp add: vorbis_pull_def vorbis_result_ok_def)
  next
    case (Inr r)
    obtain v e where r: "r = (v, e)" by fastforce
    have "vorbis_inv e" "vorbis_format e = vorbis_format d" using s Inr r by simp_all
    then show ?thesis using vorbis_loop_ok [of e pcm max_frames lib t v fmt] Inr r by (simp add: vorbis_pull_def vorbis_result_ok_def)
  qed
qed

interpretation vorbis: decoder_adapter vorbis_push "vorbis_pull lib t" vorbis_reset vorbis_format vorbis_inv
  for lib :: "'l vorbis_lib" and t :: float_target
proof (unfold_locales, goal_cases)
  case (1 d data rc n d')
  then show ?case by (auto simp: vorbis_push_def vorbis_inv_def Let_def split: if_splits)
next
  case (2 d max_frames pcm fmt rc k fmt' pcm' d')
  then show ?case using vorbis_pull_ok [of d pcm max_frames lib t fmt] by (simp add: vorbis_result_ok_def)
next
  case (3 d rc d')
  then show ?case by (auto simp: vorbis_reset_def vorbis_release_def vorbis_inv_def)
qed

interpretation vorbis_bridge: decode_bridge vorbis_push "vorbis_pull lib t" vorbis_reset vorbis_format vorbis_inv reservoir_sink "\<lambda>_. True"
  for lib :: "'l vorbis_lib" and t :: float_target
  by unfold_locales

section \<open>The byte stream\<close>

text \<open>The library with a log of the bytes it used since it was opened.\<close>

definition logged_vorbis :: "'l vorbis_lib \<Rightarrow> ('l \<times> u8 list) vorbis_lib" where
  "logged_vorbis lib = \<lparr>
     stb_vorbis_open_pushdata = (\<lambda>block. map_sum id (\<lambda>(n, l). (n, l, take n block)) (stb_vorbis_open_pushdata lib block)),
     stb_vorbis_decode_frame_pushdata = (\<lambda>(l, used) block.
       case stb_vorbis_decode_frame_pushdata lib l block of (n, ch, outp, count, l) \<Rightarrow> (n, ch, outp, count, l, used @ take n block))\<rparr>"

definition vorbis_stream :: "('l \<times> u8 list) eaf_dec_vorbis_t \<Rightarrow> u8 list" where
  "vorbis_stream d = (case vorbis d of None \<Rightarrow> [] | Some (l, used) \<Rightarrow> used) @ take (vorbis_length d) (vorbis_buffer d)"

lemma consume_stream:
  assumes "vorbis_inv d"
  shows "take n (take (vorbis_length d) (vorbis_buffer d)) @ take (vorbis_length (vorbis_consume n d)) (vorbis_buffer (vorbis_consume n d)) =
    take (vorbis_length d) (vorbis_buffer d)"
proof -
  have l: "length (take (vorbis_length d - n) (drop n (vorbis_buffer d))) = vorbis_length d - n" using assms by (auto simp: vorbis_inv_def)
  have "take (vorbis_length d - n) (blit (vorbis_buffer d) 0 (take (vorbis_length d - n) (drop n (vorbis_buffer d)))) =
      take (vorbis_length d - n) (drop n (vorbis_buffer d))" using l by (simp add: blit_def)
  also have "\<dots> = drop n (take (vorbis_length d) (vorbis_buffer d))" by (simp add: drop_take)
  finally show ?thesis by (simp add: vorbis_consume_def del: take_take)
qed

lemma push_stream:
  assumes "vorbis_inv d" and "vorbis_push d data = (rc, n, d')"
  shows "vorbis_stream d' = vorbis_stream d @ take n data" "rc = EAF_OK"
  using assms by (auto simp: vorbis_push_def vorbis_stream_def vorbis_inv_def blit_def Let_def min_def split: if_splits option.split)

lemma emit_stream:
  "vorbis_emit t d ch outp count pcm max_frames fmt = (rc, k, fmt', pcm', d') \<Longrightarrow> vorbis_stream d' = vorbis_stream d"
  by (auto simp: vorbis_emit_def vorbis_stream_def Let_def split: if_splits)

lemma loop_stream:
  "vorbis_inv d \<Longrightarrow> vorbis d = Some v \<Longrightarrow> vorbis_loop (logged_vorbis lib) t v d pcm max_frames fmt = (rc, k, fmt', pcm', d') \<Longrightarrow>
   vorbis_stream d' = vorbis_stream d"
proof (induction "logged_vorbis lib" t v d pcm max_frames fmt rule: vorbis_loop.induct)
  case (1 t v d pcm max_frames fmt)
  obtain l used where v: "v = (l, used)" by fastforce
  let ?b = "take (vorbis_length d) (vorbis_buffer d)"
  obtain n ch outp count l' where r: "stb_vorbis_decode_frame_pushdata lib l ?b = (n, ch, outp, count, l')" by (metis prod_cases5)
  let ?v = "(l', used @ take n ?b)"
  have R: "stb_vorbis_decode_frame_pushdata (logged_vorbis lib) v ?b = (n, ch, outp, count, ?v)" using r by (simp add: logged_vorbis_def v)
  let ?d = "d\<lparr>vorbis := Some ?v\<rparr>"
  define e where "e = (if n > 0 then vorbis_consume n ?d else ?d)"
  have i: "vorbis_inv ?d" using "1.prems"(1) by (simp add: vorbis_inv_def)
  then have e: "vorbis_inv e" "vorbis e = Some ?v" using vorbis_consume_inv [of ?d n] by (auto simp: e_def vorbis_consume_def)
  have s: "vorbis_stream e = vorbis_stream d"
    using consume_stream [OF i, of n] "1.prems"(2) v by (auto simp: e_def vorbis_stream_def vorbis_consume_def)
  show ?case
  proof (cases "vorbis_length d = 0")
    case True
    then show ?thesis using "1.prems"(3) by (simp add: vorbis_loop.simps)
  next
    case False
    have L: "vorbis_loop (logged_vorbis lib) t v d pcm max_frames fmt = (if count > 0 then vorbis_emit t e ch outp count pcm max_frames fmt
        else if n = 0 then (EAF_OK, 0, fmt, pcm, e) else vorbis_loop (logged_vorbis lib) t ?v e pcm max_frames fmt)"
      using False R by (subst vorbis_loop.simps) (simp add: Let_def e_def)
    have "vorbis_stream d' = vorbis_stream e" if "\<not> count > 0" "n \<noteq> 0"
      using "1.hyps" [OF False R [symmetric] refl refl refl refl refl e_def that e] "1.prems"(3) that unfolding L by simp
    then show ?thesis using "1.prems"(3) emit_stream [of t e ch outp count pcm max_frames fmt rc k fmt' pcm' d'] s unfolding L by (auto split: if_splits)
  qed
qed

lemma pull_stream:
  assumes "vorbis_inv d" and "vorbis_pull (logged_vorbis lib) t d pcm max_frames fmt = (EAF_OK, k, fmt', pcm', d')"
  shows "vorbis_stream d' = vorbis_stream d"
proof (cases "vorbis_start (logged_vorbis lib) d")
  case (Inl r)
  then have "vorbis_start (logged_vorbis lib) d = Inl (EAF_OK, d')" using assms(2) by (cases r) (simp add: vorbis_pull_def)
  then have "d' = d" by (auto simp: vorbis_start_def split: option.splits if_splits sum.splits vorbis_error.splits prod.splits)
  then show ?thesis by simp
next
  case (Inr r)
  obtain v e where r: "r = (v, e)" by fastforce
  have "vorbis_inv e \<and> vorbis e = Some v \<and> vorbis_stream e = vorbis_stream d"
  proof (cases "vorbis d")
    case (Some x)
    then show ?thesis using Inr r assms(1) by (simp add: vorbis_start_def)
  next
    case None
    let ?b = "take (vorbis_length d) (vorbis_buffer d)"
    obtain n l where o: "stb_vorbis_open_pushdata lib ?b = Inr (n, l)" "v = (l, take n ?b)" "e = vorbis_consume n (d\<lparr>vorbis := Some v\<rparr>)"
      using Inr r None unfolding vorbis_start_def logged_vorbis_def
      by (cases "stb_vorbis_open_pushdata lib ?b") (auto split: if_splits vorbis_error.splits)
    let ?d = "d\<lparr>vorbis := Some v\<rparr>"
    have i: "vorbis_inv ?d" using assms(1) by (simp add: vorbis_inv_def)
    have "vorbis_stream e = vorbis_stream d"
      using consume_stream [OF i, of n] None o(2) unfolding o(3) by (simp add: vorbis_stream_def vorbis_consume_def del: take_take)
    then show ?thesis using vorbis_consume_inv [OF i, of n] o(3) by (simp add: vorbis_consume_def)
  qed
  then show ?thesis using assms(2) Inr r loop_stream [of e v lib t pcm max_frames fmt EAF_OK k fmt' pcm' d'] by (simp add: vorbis_pull_def)
qed

section \<open>Properties\<close>

datatype vorbis_op = VPush "u8 list" | VPull u32

text \<open>A sequence of calls: the bytes accepted, whether every call succeeded, and the state left.\<close>

fun vorbis_run :: "'l vorbis_lib \<Rightarrow> float_target \<Rightarrow> vorbis_op list \<Rightarrow> 'l eaf_dec_vorbis_t \<Rightarrow> u8 list \<times> bool \<times> 'l eaf_dec_vorbis_t" where
  "vorbis_run lib t [] d = ([], True, d)"
| "vorbis_run lib t (VPush data # ops) d =
     (let (rc, n, d1) = vorbis_push d data; (bytes, ok, d2) = vorbis_run lib t ops d1 in (take n data @ bytes, ok, d2))"
| "vorbis_run lib t (VPull cap # ops) d =
     (let (rc, k, fmt, pcm, d1) = vorbis_pull lib t d (replicate (2 * unat cap) 0) cap zero_format; (bytes, ok, d2) = vorbis_run lib t ops d1
      in (bytes, rc = EAF_OK \<and> ok, d2))"

text \<open>The library uses at most the bytes of the block it is given. (The subtraction of the source would wrap around otherwise.)\<close>

definition vorbis_lib_ok :: "'l vorbis_lib \<Rightarrow> bool" where
  "vorbis_lib_ok lib \<longleftrightarrow>
     (\<forall>block n l. stb_vorbis_open_pushdata lib block = Inr (n, l) \<longrightarrow> n \<le> length block) \<and>
     (\<forall>v block. fst (stb_vorbis_decode_frame_pushdata lib v block) \<le> length block)"

text \<open>
  C27: The Vorbis adapter gives the library the compressed stream as it came: through every sequence of pushes and successful pulls, the bytes the
  library has used followed by the bytes still buffered are exactly the bytes accepted, in order, whatever amounts of the
  blocks offered the library takes.
\<close>

theorem vorbis_bytes_in_order:
  assumes "vorbis_inv d" and "vorbis_lib_ok lib" and "vorbis_run (logged_vorbis lib) t ops d = (bytes, True, d')"
  shows "vorbis_stream d' = vorbis_stream d @ bytes"
  using assms
proof (induction ops arbitrary: d bytes)
  case Nil
  then show ?case by simp
next
  case (Cons op ops)
  show ?case
  proof (cases op)
    case (VPush data)
    obtain rc n d1 where p: "vorbis_push d data = (rc, n, d1)" by (metis prod_cases3)
    obtain b ok d2 where r: "vorbis_run (logged_vorbis lib) t ops d1 = (b, ok, d2)" by (metis prod_cases3)
    have "vorbis_inv d1" using vorbis.push_law [OF Cons.prems(1) p] by simp
    then show ?thesis using Cons.IH [OF _ Cons.prems(2), of d1 b] Cons.prems(3) VPush p r push_stream [OF Cons.prems(1) p] by auto
  next
    case (VPull cap)
    obtain rc k fmt pcm d1 where p: "vorbis_pull (logged_vorbis lib) t d (replicate (2 * unat cap) 0) cap zero_format = (rc, k, fmt, pcm, d1)"
      by (metis prod_cases5)
    obtain b ok d2 where r: "vorbis_run (logged_vorbis lib) t ops d1 = (b, ok, d2)" by (metis prod_cases3)
    have ok: "rc = EAF_OK" "vorbis_run (logged_vorbis lib) t ops d1 = (bytes, True, d')" using Cons.prems(3) VPull p r by auto
    have "vorbis_inv d1"
      using vorbis_pull_ok [OF Cons.prems(1), of "replicate (2 * unat cap) 0" cap "logged_vorbis lib" t zero_format] p by (simp add: vorbis_result_ok_def)
    then show ?thesis using Cons.IH [OF _ Cons.prems(2) ok(2)] pull_stream [OF Cons.prems(1) p [unfolded ok(1)]] by simp
  qed
qed

definition two_byte_vorbis :: "unit vorbis_lib" where
  "two_byte_vorbis = \<lparr>
     stb_vorbis_open_pushdata = (\<lambda>block. if length block < 2 then Inl VORBIS_need_more_data else Inr (1, ())),
     stb_vorbis_decode_frame_pushdata = (\<lambda>_ block. if length block < 2 then (0, 0, [], 0, ()) else (2, 1, [[Fin 1]], 1, ()))\<rparr>"

definition empty_vorbis :: "(unit \<times> u8 list) eaf_dec_vorbis_t" where
  "empty_vorbis = \<lparr>vorbis = None, vorbis_buffer = replicate 32768 0, vorbis_length = 0,
     vorbis_format = zero_format\<lparr>num_channels := 1\<rparr>, vorbis_channels = 0, vorbis_output_channels = 1\<rparr>"

theorem vorbis_bytes_in_order_witness:
  "vorbis_lib_ok two_byte_vorbis \<and>
   (case vorbis_run (logged_vorbis two_byte_vorbis) \<lparr>ft_round = undefined, ft_lrint = undefined\<rparr> [VPush [7], VPull 4, VPush [8, 9, 10], VPull 4] empty_vorbis of
      (bytes, ok, d) \<Rightarrow> ok \<and> bytes = [7, 8, 9, 10] \<and> vorbis d = Some ((), [7, 8, 9]) \<and> vorbis_stream d = [7, 8, 9, 10])"
proof -
  let ?t = "\<lparr>ft_round = undefined, ft_lrint = undefined\<rparr>"
  let ?ops = "[VPush [7], VPull 4, VPush [8, 9, 10], VPull 4]"
  have L: "vorbis_lib_ok two_byte_vorbis" by (simp add: vorbis_lib_ok_def two_byte_vorbis_def)
  have I: "vorbis_inv empty_vorbis" by (simp add: vorbis_inv_def empty_vorbis_def)
  obtain d where R: "vorbis_run (logged_vorbis two_byte_vorbis) ?t ?ops empty_vorbis = ([7, 8, 9, 10], True, d)" and d: "vorbis d = Some ((), [7, 8, 9])"
    by (auto simp: empty_vorbis_def two_byte_vorbis_def logged_vorbis_def vorbis_push_def vorbis_pull_def vorbis_start_def vorbis_loop.simps vorbis_emit_def
        vorbis_consume_def blit_def eaf_float_to_q31_def Let_def upt_rec)
  show ?thesis using vorbis_bytes_in_order [OF I L R] L R d by (simp add: vorbis_stream_def empty_vorbis_def)
qed

end
