(* ===== verification/WAV_Source.thy ===== *)
theory WAV_Source
  imports Dec_PCM
begin

text \<open>
  \<open>apps/decoders/dec_wav.c\<close>: the RIFF/WAVE file source. The reader (\<open>eaf_source.h\<close>) is a function over a state; a successful
  read returns exactly the bytes asked for. The 16-bit samples are read through a pointer to \<open>int16_t\<close>, which is little-endian on every target of the library.
\<close>

section \<open>State\<close>

record 'r eaf_reader_t =
  read_at :: "'r \<Rightarrow> u64 \<Rightarrow> nat \<Rightarrow> eaf_result_t \<times> u8 list \<times> 'r"
  reader_ctx :: 'r
  reader_size :: u64

record 'r eaf_wav_t =
  wav_reader :: "'r eaf_reader_t"
  data_offset :: u64
  wav_position :: u64
  total_frames :: u64
  wav_format :: eaf_format_t
  wav_bits :: u16
  block_align :: u16
  wav_scratch :: "u8 list"

abbreviation (input) EAF_WAV_BLOCK_FRAMES :: u32 where "EAF_WAV_BLOCK_FRAMES \<equiv> 256"
abbreviation (input) EAF_CH_FRONT_CENTER :: u32 where "EAF_CH_FRONT_CENTER \<equiv> 8"

definition wav_u16 :: "u8 list \<Rightarrow> u16" where
  "wav_u16 p = ucast (p ! 0) OR push_bit 8 (ucast (p ! 1))"

definition wav_u32 :: "u8 list \<Rightarrow> u32" where
  "wav_u32 p = ucast (p ! 0) OR push_bit 8 (ucast (p ! 1)) OR push_bit 16 (ucast (p ! 2)) OR push_bit 24 (ucast (p ! 3))"

section \<open>Reading frames\<close>

definition wav_take :: "'r eaf_wav_t \<Rightarrow> u32 \<Rightarrow> u32" where
  "wav_take w cap =
     (let left = total_frames w - wav_position w;
          n = (if cap < EAF_WAV_BLOCK_FRAMES then cap else EAF_WAV_BLOCK_FRAMES)
      in if left < ucast n then ucast left else n)"

definition wav_sample :: "u16 \<Rightarrow> nat \<Rightarrow> u8 list \<Rightarrow> int" where
  "wav_sample bits width p =
     (let raw = fold (\<lambda>byte raw. raw OR push_bit (byte * 8) (ucast (p ! byte))) [0..<width] (0::u32)
      in if bits = 24 then eaf_pcm24_to_q31 (i32 (uint (if raw AND 8388608 \<noteq> 0 then raw OR 4278190080 else raw)))
         else eaf_pcm32_to_q31 (i32 (uint raw)))"

definition wav_convert :: "'r eaf_wav_t \<Rightarrow> nat \<Rightarrow> int list \<Rightarrow> int list" where
  "wav_convert w n dst =
     (let ch = channels (wav_format w); width = unat (wav_bits w) div 8
      in if wav_bits w = 16
         then eaf_s16_to_q31_interleaved (map (\<lambda>i. i16 (uint (wav_u16 (drop (2 * i) (wav_scratch w))))) [0..<n * ch]) n ch dst ch
         else fold (\<lambda>i dst. dst[i := wav_sample (wav_bits w) width (drop (i * width) (wav_scratch w))]) [0..<n * ch] dst)"

text \<open>The frames written, \<open>None\<close> where the output is left alone.\<close>

definition read_frames :: "'r eaf_wav_t \<Rightarrow> int list \<Rightarrow> u32 \<Rightarrow> eaf_result_t \<times> u32 option \<times> int list \<times> 'r eaf_wav_t" where
  "read_frames w dst cap =
     (if cap = 0 then (EAF_INVALID, None, dst, w)
      else let n = wav_take w cap
           in if n = 0 then (EAF_OK, Some 0, dst, w)
              else let rd = wav_reader w;
                       (rc, bytes, ctx) = read_at rd (reader_ctx rd) (data_offset w + wav_position w * ucast (block_align w)) (unat n * unat (block_align w));
                       w = w\<lparr>wav_reader := rd\<lparr>reader_ctx := ctx\<rparr>\<rparr>
                   in if rc \<noteq> EAF_OK then (rc, Some 0, dst, w)
                      else let w = w\<lparr>wav_scratch := blit (wav_scratch w) 0 bytes\<rparr>
                           in (EAF_OK, Some n, wav_convert w (unat n) dst, w\<lparr>wav_position := wav_position w + ucast n\<rparr>))"

definition seek_frame :: "'r eaf_wav_t \<Rightarrow> u64 \<Rightarrow> eaf_result_t \<times> 'r eaf_wav_t" where
  "seek_frame w frame = (if frame > total_frames w then (EAF_INVALID, w) else (EAF_OK, w\<lparr>wav_position := frame\<rparr>))"

section \<open>Opening\<close>

record wav_chunks =
  ck_format :: eaf_format_t
  ck_bits :: u16
  ck_align :: u16
  ck_data_offset :: u64
  ck_data_size :: u64
  have_fmt :: bool
  have_data :: bool

definition no_chunks :: wav_chunks where
  "no_chunks = \<lparr>ck_format = zero_format, ck_bits = 0, ck_align = 0, ck_data_offset = 0, ck_data_size = 0, have_fmt = False, have_data = False\<rparr>"

definition fmt_chunk :: "u8 list \<Rightarrow> wav_chunks \<Rightarrow> eaf_result_t \<times> wav_chunks" where
  "fmt_chunk header s =
     (if wav_u16 header \<noteq> 1 then (EAF_UNSUPPORTED, s)
      else let ch = wav_u16 (drop 2 header)
           in if ch \<noteq> 1 \<and> ch \<noteq> 2 then (EAF_UNSUPPORTED, s)
              else let s = s\<lparr>ck_bits := wav_u16 (drop 14 header), ck_align := wav_u16 (drop 12 header)\<rparr>
                   in if ck_bits s \<noteq> 16 \<and> ck_bits s \<noteq> 24 \<and> ck_bits s \<noteq> 32 then (EAF_UNSUPPORTED, s)
                      else let fmt = mk_format (wav_u32 (drop 4 header)) (ucast ch) (if ch = 1 then EAF_CH_FRONT_CENTER else 3);
                               s = s\<lparr>ck_format := fmt\<rparr>
                           in if \<not> eaf_format_valid fmt \<or> unat (ck_align s) \<noteq> unat ch * (unat (ck_bits s) div 8) \<or>
                                 (ucast (sample_rate fmt) * ucast (ck_align s) :: u64) \<noteq> ucast (wav_u32 (drop 8 header))
                              then (EAF_INVALID, s) else (EAF_OK, s\<lparr>have_fmt := True\<rparr>))"

definition chunk_step ::
  "'r eaf_reader_t \<Rightarrow> u8 list \<Rightarrow> u32 \<Rightarrow> u64 \<Rightarrow> 'r \<Rightarrow> wav_chunks \<Rightarrow> eaf_result_t \<times> 'r \<times> wav_chunks" where
  "chunk_step rd header sz offset ctx s =
     (if take 4 header = [102, 109, 116, 32]
      then if have_fmt s \<or> sz < 16 then (EAF_INVALID, ctx, s)
           else let (rc, header, ctx) = read_at rd ctx offset 16
                in if rc \<noteq> EAF_OK then (rc, ctx, s) else let (rc, s) = fmt_chunk header s in (rc, ctx, s)
      else if take 4 header = [100, 97, 116, 97]
      then if have_data s then (EAF_INVALID, ctx, s)
           else (EAF_OK, ctx, s\<lparr>ck_data_offset := offset, ck_data_size := ucast sz, have_data := True\<rparr>)
      else (EAF_OK, ctx, s))"

lemma chunk_advances:
  fixes offset fin_off padded :: u64
  assumes "offset < fin_off" and "\<not> fin_off - offset < 8" and "\<not> padded > fin_off - (offset + 8)"
  shows "unat (offset + 8 + padded) = unat offset + 8 + unat padded" and "unat offset + 8 + unat padded \<le> unat fin_off"
    and "unat (offset + 8) = unat offset + 8"
proof -
  have a: "unat offset + 8 \<le> unat fin_off" using assms(1,2) by unat_arith
  then show b: "unat (offset + 8) = unat offset + 8" by unat_arith
  have "offset + 8 \<le> fin_off" using a b by (simp add: word_le_nat_alt)
  then have "unat (fin_off - (offset + 8)) = unat fin_off - unat (offset + 8)" by (rule unat_sub)
  moreover have "unat padded \<le> unat (fin_off - (offset + 8))" using assms(3) by (simp add: word_le_nat_alt not_less)
  ultimately show c: "unat offset + 8 + unat padded \<le> unat fin_off" using a b by simp
  then have "unat (offset + 8) + unat padded < 2 ^ 64" using b unsigned_less [where ?'a = nat and w = fin_off] by simp
  then show "unat (offset + 8 + padded) = unat offset + 8 + unat padded" using b unat_add_lem [of "offset + 8" padded] by simp
qed

function chunk_loop :: "'r eaf_reader_t \<Rightarrow> u64 \<Rightarrow> u64 \<Rightarrow> 'r \<Rightarrow> wav_chunks \<Rightarrow> eaf_result_t \<times> 'r \<times> wav_chunks" where
  "chunk_loop rd fin_off offset ctx s =
     (if offset < fin_off
      then if fin_off - offset < 8 then (EAF_INVALID, ctx, s)
           else let (rc, header, ctx) = read_at rd ctx offset 8
                in if rc \<noteq> EAF_OK then (rc, ctx, s)
                   else let sz = wav_u32 (drop 4 header);
                            padded = ucast sz + ucast (sz AND 1);
                            offset = offset + 8
                        in if padded > fin_off - offset then (EAF_INVALID, ctx, s)
                           else let (rc, ctx, s) = chunk_step rd header sz offset ctx s
                                in if rc \<noteq> EAF_OK then (rc, ctx, s) else chunk_loop rd fin_off (offset + padded) ctx s
      else (EAF_OK, ctx, s))"
  by pat_completeness auto
termination
proof (relation "measure (\<lambda>(rd, fin_off, offset, ctx, s). unat fin_off - unat offset)", goal_cases)
  case (2 rd fin_off offset ctx s r rc y header ctx' sz padded offset')
  then show ?case using chunk_advances [of offset fin_off padded] by simp
qed simp

declare chunk_loop.simps [simp del]

definition eaf_wav_open :: "'r eaf_reader_t \<Rightarrow> eaf_result_t \<times> 'r \<times> 'r eaf_wav_t option" where
  "eaf_wav_open rd =
     (if reader_size rd < 12 then (EAF_INVALID, reader_ctx rd, None)
      else let (rc, header, ctx) = read_at rd (reader_ctx rd) 0 12
           in if rc \<noteq> EAF_OK then (rc, ctx, None)
              else if take 4 header \<noteq> [82, 73, 70, 70] \<or> take 4 (drop 8 header) \<noteq> [87, 65, 86, 69] then (EAF_UNSUPPORTED, ctx, None)
              else let fin_off = ucast (wav_u32 (drop 4 header)) + 8
                   in if fin_off < 12 \<or> fin_off > reader_size rd then (EAF_INVALID, ctx, None)
                      else let (rc, ctx, s) = chunk_loop rd fin_off 12 ctx no_chunks
                           in if rc \<noteq> EAF_OK then (rc, ctx, None)
                              else if \<not> have_fmt s \<or> \<not> have_data s \<or> ck_data_size s mod ucast (ck_align s) \<noteq> 0 then (EAF_INVALID, ctx, None)
                              else (EAF_OK, ctx, Some \<lparr>wav_reader = rd\<lparr>reader_ctx := ctx\<rparr>, data_offset = ck_data_offset s, wav_position = 0,
                                total_frames = ck_data_size s div ucast (ck_align s), wav_format = ck_format s, wav_bits = ck_bits s,
                                block_align = ck_align s, wav_scratch = replicate 2048 0\<rparr>))"

section \<open>Conversion\<close>

lemma wav_sample_pcm:
  assumes "bits = 24 \<and> width = 3 \<or> bits = 32 \<and> width = 4"
  shows "wav_sample bits width p = pcm_sample width p 0"
  using assms by (elim disjE) (simp_all add: wav_sample_def pcm_sample_def sign_extend24_def mult.commute)

lemma wav_sample16_pcm: "eaf_pcm16_to_q31 (i16 (uint (wav_u16 p))) = pcm_sample 2 p 0"
proof -
  have upt: "[0..<2] = [0, 1::nat]" by (simp add: upt_rec)
  have "uint (wav_u16 p) = uint (ucast (p ! 0) OR push_bit 8 (ucast (p ! 1)) :: u32)"
  proof -
    have "(ucast (wav_u16 p) :: u32) = ucast (p ! 0) OR push_bit 8 (ucast (p ! 1))"
      unfolding wav_u16_def by (rule bit_word_eqI) (auto simp: bit_simps dest: bit_imp_le_length)
    then show ?thesis by (metis uint_up_ucast is_up.rep_eq unat_ucast_16_32 uint_nat)
  qed
  then show ?thesis by (simp add: pcm_sample_def upt)
qed

text \<open>Interleaved samples, one after the other, are the frames of the reference decoder.\<close>

lemma decode_frames_samples:
  assumes "sb = 2 \<or> sb = 3 \<or> sb = 4" and "ch = 1 \<or> ch = 2" and "n * ch * sb \<le> length bs"
  shows "decode_frames sb ch ch bs n = map (\<lambda>i. pcm_sample sb (drop (i * sb) bs) 0) [0..<n * ch]"
  using assms(3)
proof (induction n)
  case 0
  show ?case by (simp add: decode_frames_def)
next
  case (Suc n)
  have v: "signed_value (8 * sb) (le_value (take sb (drop (c * sb) (take (ch * sb) (drop (n * (ch * sb)) bs))))) * 2 ^ (32 - 8 * sb) =
      pcm_sample sb (drop ((n * ch + c) * sb) bs) 0" if "c < ch" for c
  proof -
    have "(c + 1) * sb \<le> ch * sb" using that by (intro mult_le_mono1) simp
    then have c: "c * sb + sb \<le> ch * sb" by (simp add: algebra_simps)
    have "(n * ch + c) * sb + sb \<le> length bs" using Suc.prems c by (simp add: algebra_simps)
    then have "0 + sb \<le> length (drop ((n * ch + c) * sb) bs)" by simp
    from pcm_sample_value [OF assms(1) this] have "pcm_sample sb (drop ((n * ch + c) * sb) bs) 0 =
        signed_value (8 * sb) (le_value (take sb (drop ((n * ch + c) * sb) bs))) * 2 ^ (32 - 8 * sb)" by (simp only: drop_0)
    moreover have "take sb (drop (c * sb) (take (ch * sb) (drop (n * (ch * sb)) bs))) = take sb (drop ((n * ch + c) * sb) bs)"
      using c by (simp add: drop_take min_def algebra_simps)
    ultimately show ?thesis by simp
  qed
  have "frame_samples sb ch ch (take (ch * sb) (drop (n * (ch * sb)) bs)) = map (\<lambda>i. pcm_sample sb (drop (i * sb) bs) 0) [n * ch..<Suc n * ch]"
  proof (rule disjE [OF assms(2)])
    assume ch: "ch = 1"
    show ?thesis using v [of 0] by (simp add: frame_samples_def ch)
  next
    assume ch: "ch = 2"
    have "[n * 2..<Suc n * 2] = [n * 2, n * 2 + 1]" by (simp add: upt_rec)
    then show ?thesis using v [of 0] v [of 1] by (simp add: frame_samples_def ch)
  qed
  moreover have "[0..<Suc n * ch] = [0..<n * ch] @ [n * ch..<Suc n * ch]" using upt_add_eq_append [of 0 "n * ch" ch] by (simp add: add.commute)
  moreover have "n * ch * sb \<le> length bs" using Suc.prems by (simp add: algebra_simps)
  ultimately show ?case using Suc.IH by (simp add: decode_frames_Suc)
qed

lemma decode_frames_take: "decode_frames sb ic oc (take (n * (ic * sb)) bs) n = decode_frames sb ic oc bs n"
proof -
  have "take (ic * sb) (drop (i * (ic * sb)) (take (n * (ic * sb)) bs)) = take (ic * sb) (drop (i * (ic * sb)) bs)" if "i < n" for i
  proof -
    have "(i + 1) * (ic * sb) \<le> n * (ic * sb)" using that by (intro mult_le_mono1) simp
    then have "ic * sb \<le> n * (ic * sb) - i * (ic * sb)" by (simp add: algebra_simps)
    then show ?thesis by (simp add: drop_take min_absorb1)
  qed
  then show ?thesis unfolding decode_frames_def by (intro arg_cong [of _ _ concat] map_cong) simp_all
qed

lemma upmix_same: "ch = 1 \<or> ch = 2 \<Longrightarrow> upmix src n ch ch = map (\<lambda>i. src ! i) [0..<n * ch]"
  by (induction n) (auto simp: upmix_Suc frame_of_def, simp_all add: upmix_def)

definition wav_shape :: "'r eaf_wav_t \<Rightarrow> bool" where
  "wav_shape w \<longleftrightarrow> (wav_bits w = 16 \<or> wav_bits w = 24 \<or> wav_bits w = 32) \<and> (channels (wav_format w) = 1 \<or> channels (wav_format w) = 2) \<and>
     unat (block_align w) = channels (wav_format w) * (unat (wav_bits w) div 8) \<and> length (wav_scratch w) = 2048"

lemma wav_convert_decodes:
  assumes "wav_shape w" and "n \<le> 256" and "n * channels (wav_format w) \<le> length dst"
  shows "wav_convert w n dst =
    blit dst 0 (decode_frames (unat (wav_bits w) div 8) (channels (wav_format w)) (channels (wav_format w)) (wav_scratch w) n)"
proof -
  let ?ch = "channels (wav_format w)" and ?sb = "unat (wav_bits w) div 8"
  have sb: "?sb = 2 \<or> ?sb = 3 \<or> ?sb = 4" and ch: "?ch = 1 \<or> ?ch = 2" using assms(1) by (auto simp: wav_shape_def)
  have "n * ?ch * ?sb \<le> 256 * 2 * 4" using sb ch assms(2) by (intro mult_le_mono) auto
  then have len: "n * ?ch * ?sb \<le> length (wav_scratch w)" using assms(1) by (simp add: wav_shape_def)
  note D = decode_frames_samples [OF sb ch len]
  show ?thesis
  proof (cases "wav_bits w = 16")
    case True
    have M: "map ((!) (map g [0..<k])) [0..<k] = map g [0..<k]" for g :: "nat \<Rightarrow> int" and k using map_nth [of "map g [0..<k]"] by simp
    have "n * (if ?ch = 2 then 2 else 1) \<le> length dst" using assms(3) ch by auto
    moreover have "i * ?ch + (if ?ch = 2 then 1 else 0) < n * ?ch" if "i < n" for i using that ch by auto
    ultimately have "eaf_s16_to_q31_interleaved (map f [0..<n * ?ch]) n ?ch dst ?ch = blit dst 0 (map (eaf_pcm16_to_q31 \<circ> f) [0..<n * ?ch])" for f
      by (simp add: s16_as_q31 q31_interleaved_blit upmix_same [OF ch] M comp_def)
    then show ?thesis unfolding D using True by (simp add: wav_convert_def wav_sample16_pcm mult.commute comp_def)
  next
    case False
    then have "wav_bits w = 24 \<and> ?sb = 3 \<or> wav_bits w = 32 \<and> ?sb = 4" using assms(1) by (auto simp: wav_shape_def)
    then show ?thesis unfolding D using False fold_update_blit [of 0 "n * ?ch" dst] assms(3)
      by (simp add: wav_convert_def wav_sample_pcm Let_def)
  qed
qed

section \<open>Reading a file\<close>

text \<open>A reader of a file in memory; a short read is an error.\<close>

definition file_read :: "u8 list \<Rightarrow> unit \<Rightarrow> u64 \<Rightarrow> nat \<Rightarrow> eaf_result_t \<times> u8 list \<times> unit" where
  "file_read file ctx offset n =
     (if unat offset + n \<le> length file then (EAF_OK, take n (drop (unat offset) file), ()) else (EAF_IO, [], ()))"

definition file_reader :: "u8 list \<Rightarrow> unit eaf_reader_t" where
  "file_reader file = \<lparr>read_at = file_read file, reader_ctx = (), reader_size = of_nat (length file)\<rparr>"

text \<open>The source plays the frames of \<open>data\<close>, found in the file at the data offset.\<close>

definition wav_on :: "u8 list \<Rightarrow> u8 list \<Rightarrow> unit eaf_wav_t \<Rightarrow> bool" where
  "wav_on file data w \<longleftrightarrow> wav_shape w \<and> wav_reader w = file_reader file \<and> length file < 2 ^ 64 \<and> wav_position w \<le> total_frames w \<and>
     length data = unat (total_frames w) * unat (block_align w) \<and> unat (data_offset w) + length data \<le> length file \<and>
     take (length data) (drop (unat (data_offset w)) file) = data"

lemma wav_take_min:
  assumes "wav_position w \<le> total_frames w"
  shows "unat (wav_take w cap) = min (min (unat cap) 256) (unat (total_frames w) - unat (wav_position w))"
proof -
  let ?n = "if cap < 256 then cap else 256 :: u32"
  have l: "unat (total_frames w - wav_position w) = unat (total_frames w) - unat (wav_position w)" by (rule unat_sub [OF assms])
  have n: "unat ?n = min (unat cap) 256" "unat (ucast ?n :: u64) = unat ?n"
    by (auto simp: word_less_nat_alt unsigned_ucast_eq take_bit_nat_eq_self)
  have "unat (ucast (total_frames w - wav_position w) :: u32) = unat (total_frames w - wav_position w)"
    if "total_frames w - wav_position w < ucast ?n"
  proof -
    have "unat (total_frames w - wav_position w) < 2 ^ 32" using that n by (simp add: word_less_nat_alt)
    then show ?thesis by (simp add: unsigned_ucast_eq take_bit_nat_eq_self)
  qed
  then show ?thesis using l n by (auto simp: wav_take_def Let_def word_less_nat_alt)
qed

lemma read_frames_spec:
  assumes "wav_on file data w" and "cap \<noteq> 0"
  defines "n \<equiv> min (min (unat cap) 256) (unat (total_frames w) - unat (wav_position w))"
    and "ch \<equiv> channels (wav_format w)" and "sb \<equiv> unat (wav_bits w) div 8"
  assumes "n * ch \<le> length dst"
  shows "\<exists>w'. read_frames w dst cap = (EAF_OK, Some (of_nat n), blit dst 0 (decode_frames sb ch ch (drop (unat (wav_position w) * (ch * sb)) data) n), w') \<and>
    wav_on file data w' \<and> unat (wav_position w') = unat (wav_position w) + n \<and> total_frames w' = total_frames w \<and> wav_format w' = wav_format w \<and> wav_bits w' = wav_bits w"
proof -
  have t: "unat (wav_take w cap) = n" "wav_take w cap = of_nat n"
    using wav_take_min [of w cap] assms(1) by (auto simp: wav_on_def n_def) (metis of_nat_unat ucast_id)
  have sh: "wav_shape w" "unat (block_align w) = ch * sb" "wav_position w \<le> total_frames w" and dl: "length data = unat (total_frames w) * (ch * sb)"
    using assms(1) by (auto simp: wav_on_def wav_shape_def ch_def sb_def)
  show ?thesis
  proof (cases "n = 0")
    case True
    then show ?thesis using assms(1,2) t by (simp add: read_frames_def decode_frames_def)
  next
    case False
    let ?p = "unat (wav_position w)" and ?al = "ch * sb"
    have nz: "(of_nat n :: u32) \<noteq> 0" using t False by force
    have n: "n \<le> 256" "?p + n \<le> unat (total_frames w)" using False by (auto simp: n_def)
    have pb: "(?p + n) * ?al \<le> length data" unfolding dl using n(2) by (rule mult_le_mono1)
    have fl: "unat (data_offset w) + length data \<le> length file" "length file < 2 ^ 64" using assms(1) by (auto simp: wav_on_def)
    have "?p * ?al < 2 ^ 64" "unat (data_offset w) + ?p * ?al < 2 ^ 64" using pb fl by (simp_all add: algebra_simps)
    then have off: "unat (data_offset w + wav_position w * ucast (block_align w)) = unat (data_offset w) + ?p * ?al"
      using sh(2) by (simp add: unat_word_ariths unat_ucast_up)
    have fit: "unat (data_offset w) + ?p * ?al + n * ?al \<le> length file" using pb fl by (simp add: algebra_simps)
    let ?b = "take (n * ?al) (drop (unat (data_offset w) + ?p * ?al) file)"
    have b: "?b = take (n * ?al) (drop (?p * ?al) data)"
    proof -
      have "data = take (length data) (drop (unat (data_offset w)) file)" using assms(1) unfolding wav_on_def by metis
      then have "drop (?p * ?al) data = take (length data - ?p * ?al) (drop (?p * ?al) (drop (unat (data_offset w)) file))" by (metis drop_take)
      moreover have "n * ?al \<le> length data - ?p * ?al" using pb by (simp add: algebra_simps)
      ultimately show ?thesis by (simp add: min_def add.commute)
    qed
    have bl: "length ?b = n * ?al" using fit by simp
    have al8: "?al \<le> 8" using sh(1) by (auto simp: wav_shape_def ch_def sb_def)
    have "n * ?al \<le> 256 * 8" using n(1) al8 by (intro mult_le_mono) auto
    then have bs: "n * ?al \<le> length (wav_scratch w)" using sh(1) by (simp add: wav_shape_def)
    let ?w = "w\<lparr>wav_reader := (wav_reader w)\<lparr>reader_ctx := ()\<rparr>, wav_scratch := blit (wav_scratch w) 0 ?b\<rparr>"
    have shw: "wav_shape ?w" using sh(1) bs bl by (simp add: wav_shape_def length_blit)
    have "n * channels (wav_format ?w) \<le> length dst" using assms(6) by (simp add: ch_def)
    from wav_convert_decodes [OF shw n(1) this]
    have C: "wav_convert ?w n dst = blit dst 0 (decode_frames sb ch ch (blit (wav_scratch w) 0 ?b) n)" by (simp add: ch_def sb_def)
    have "decode_frames sb ch ch (blit (wav_scratch w) 0 ?b) n = decode_frames sb ch ch (drop (?p * ?al) data) n"
    proof -
      have "take (n * ?al) (blit (wav_scratch w) 0 ?b) = take (n * ?al) (drop (?p * ?al) data)" using b bl by (simp add: blit_def)
      then show ?thesis by (metis decode_frames_take)
    qed
    moreover have "read_frames w dst cap = (EAF_OK, Some (of_nat n), wav_convert ?w n dst, ?w\<lparr>wav_position := wav_position w + ucast (of_nat n :: u32)\<rparr>)"
      using assms(1,2) t nz off fit sh(2) by (simp add: read_frames_def file_read_def file_reader_def wav_on_def Let_def)
    moreover have "unat (wav_position w + ucast (of_nat n :: u32)) = ?p + n"
    proof -
      have "unat (of_nat n :: u32) = n" using n(1) by (simp add: unat_of_nat take_bit_nat_eq_self)
      moreover have "?p + n < 2 ^ 64" using n(2) unsigned_less [where ?'a = nat and w = "total_frames w"] by simp
      ultimately show ?thesis using unat_add_lem [of "wav_position w" "ucast (of_nat n :: u32)"] by simp
    qed
    ultimately show ?thesis using C assms(1) shw n(2)
      by (auto simp: wav_on_def wav_shape_def word_le_nat_alt file_reader_def)
  qed
qed

section \<open>Files\<close>

definition le_bytes :: "nat \<Rightarrow> nat \<Rightarrow> u8 list" where
  "le_bytes k v = map (\<lambda>i. of_nat (v div 256 ^ i)) [0..<k]"

lemma length_le_bytes [simp]: "length (le_bytes k v) = k"
  by (simp add: le_bytes_def)

lemma le_value_le_bytes: "le_value (le_bytes k v) = v mod 256 ^ k"
proof (induction k arbitrary: v)
  case (Suc k)
  have "le_bytes (Suc k) v = of_nat v # le_bytes k (v div 256)"
    by (simp add: le_bytes_def upt_conv_Cons del: upt_Suc) (simp add: map_Suc_upt [symmetric] div_mult2_eq del: upt_Suc)
  then show ?case using Suc [of "v div 256"] by (simp add: unat_of_nat take_bit_nat_def mod_mult2_eq)
qed (simp add: le_bytes_def)

lemma unat_wav_u32: "4 \<le> length p \<Longrightarrow> unat (wav_u32 p) = le_value (take 4 p)"
proof -
  assume l: "4 \<le> length p"
  have "[0..<4] = [0, 1, 2, 3::nat]" by (simp add: upt_rec)
  then have "wav_u32 p = fold (\<lambda>i v. v OR push_bit (8 * i) (ucast (p ! (0 + i)))) [0..<4] (0::u32)" by (simp add: wav_u32_def or.assoc)
  then show ?thesis using fold_sample_bytes [of 4 0 p] l by simp
qed

lemma unat_wav_u16: "2 \<le> length p \<Longrightarrow> unat (wav_u16 p) = le_value (take 2 p)"
proof -
  assume l: "2 \<le> length p"
  have u: "[0..<2] = [0, 1::nat]" by (simp add: upt_rec)
  have "(ucast (wav_u16 p) :: u32) = ucast (p ! 0) OR push_bit 8 (ucast (p ! 1))"
    unfolding wav_u16_def by (rule bit_word_eqI) (auto simp: bit_simps dest: bit_imp_le_length)
  then have "(ucast (wav_u16 p) :: u32) = fold (\<lambda>i v. v OR push_bit (8 * i) (ucast (p ! (0 + i)))) [0..<2] (0::u32)" by (simp add: u)
  then have "unat (ucast (wav_u16 p) :: u32) = le_value (take 2 p)" using fold_sample_bytes [of 2 0 p] l by simp
  then show ?thesis by simp
qed

lemma wav_le_bytes:
  "v < 2 ^ 16 \<Longrightarrow> wav_u16 (le_bytes 2 v @ r) = of_nat v" "v < 2 ^ 32 \<Longrightarrow> wav_u32 (le_bytes 4 v @ r) = of_nat v"
proof -
  assume v: "v < 2 ^ 16"
  then have "unat (wav_u16 (le_bytes 2 v @ r)) = v" using unat_wav_u16 [of "le_bytes 2 v @ r"] by (simp add: le_value_le_bytes)
  then show "wav_u16 (le_bytes 2 v @ r) = of_nat v" by (metis of_nat_unat ucast_id)
next
  assume v: "v < 2 ^ 32"
  then have "unat (wav_u32 (le_bytes 4 v @ r)) = v" using unat_wav_u32 [of "le_bytes 4 v @ r"] by (simp add: le_value_le_bytes)
  then show "wav_u32 (le_bytes 4 v @ r) = of_nat v" by (metis of_nat_unat ucast_id)
qed

definition chunk_bytes :: "u8 list \<times> u8 list \<Rightarrow> u8 list" where
  "chunk_bytes = (\<lambda>(name, body). name @ le_bytes 4 (length body) @ body @ (if odd (length body) then [0] else []))"

definition chunks_bytes :: "(u8 list \<times> u8 list) list \<Rightarrow> u8 list" where
  "chunks_bytes cs = concat (map chunk_bytes cs)"

definition riff_file :: "(u8 list \<times> u8 list) list \<Rightarrow> u8 list" where
  "riff_file cs = [82, 73, 70, 70] @ le_bytes 4 (4 + length (chunks_bytes cs)) @ [87, 65, 86, 69] @ chunks_bytes cs"

abbreviation fmt_name :: "u8 list" where "fmt_name \<equiv> [102, 109, 116, 32]"
abbreviation data_name :: "u8 list" where "data_name \<equiv> [100, 97, 116, 97]"

text \<open>A chunk the parser skips.\<close>

definition other_chunk :: "u8 list \<times> u8 list \<Rightarrow> bool" where
  "other_chunk c \<longleftrightarrow> length (fst c) = 4 \<and> fst c \<noteq> fmt_name \<and> fst c \<noteq> data_name"

lemma length_chunk_bytes: "length (fst c) = 4 \<Longrightarrow> length (chunk_bytes c) = 8 + length (snd c) + length (snd c) mod 2"
  by (cases c) (auto simp: chunk_bytes_def odd_iff_mod_2_eq_one even_iff_mod_2_eq_zero)

lemma unat_of_nat_u64: "n < 2 ^ 64 \<Longrightarrow> unat (of_nat n :: u64) = n"
  by (simp add: unat_of_nat take_bit_nat_eq_self)

lemma unat_of_nat_u32: "n < 2 ^ 32 \<Longrightarrow> unat (of_nat n :: u32) = n"
  by (simp add: unat_of_nat take_bit_nat_eq_self)

lemma padded_size:
  assumes "n < 2 ^ 32"
  shows "(ucast (of_nat n :: u32) + ucast ((of_nat n :: u32) AND 1) :: u64) = of_nat (n + n mod 2)"
proof -
  have "unat (ucast ((of_nat n :: u32) AND 1) :: u64) = n mod 2"
    using assms by (simp add: and_one_eq unat_of_nat_u32 unat_mod mod_2_eq_odd flip: of_nat_mod)
  then have "(ucast ((of_nat n :: u32) AND 1) :: u64) = of_nat (n mod 2)" by (metis of_nat_unat ucast_id)
  moreover have "(ucast (of_nat n :: u32) :: u64) = of_nat n" using unat_of_nat_u32 [OF assms] by (metis of_nat_unat ucast_id unat_ucast_32_64)
  ultimately show ?thesis by simp
qed

text \<open>One pass of the loop over a file that holds a whole chunk at the offset.\<close>

lemma chunk_loop_chunk:
  assumes "drop off file = chunk_bytes (name, body) @ rest" and "length name = 4" and "off + length (chunk_bytes (name, body)) \<le> e"
    and "e \<le> length file" "length file < 2 ^ 32 + 8" and "length body < 2 ^ 32"
  shows "chunk_loop (file_reader file) (of_nat e) (of_nat off) () s =
    (case chunk_step (file_reader file) (name @ le_bytes 4 (length body)) (of_nat (length body)) (of_nat (off + 8)) () s of (rc, ctx, s') \<Rightarrow>
       if rc \<noteq> EAF_OK then (rc, ctx, s') else chunk_loop (file_reader file) (of_nat e) (of_nat (off + length (chunk_bytes (name, body)))) ctx s')"
proof -
  let ?n = "length body" and ?h = "name @ le_bytes 4 (length body)"
  have lc: "length (chunk_bytes (name, body)) = 8 + ?n + ?n mod 2" using length_chunk_bytes [of "(name, body)"] assms(2) by simp
  have big: "e < 2 ^ 64" "off < 2 ^ 64" "off + 8 < 2 ^ 64" using assms(3-5) lc by simp_all
  have u: "unat (of_nat e :: u64) = e" "unat (of_nat off :: u64) = off" "unat (of_nat (off + 8) :: u64) = off + 8"
    using big by (simp_all add: unat_of_nat_u64 del: of_nat_add)
  have lt: "(of_nat off :: u64) < of_nat e" using u lc assms(3) by (simp add: word_less_nat_alt)
  have s8: "unat ((of_nat e :: u64) - of_nat off) = e - off" using lt u by (simp add: unat_sub word_le_nat_alt word_less_nat_alt)
  have s16: "unat ((of_nat e :: u64) - of_nat (off + 8)) = e - (off + 8)"
    using u lc assms(3) by (subst unat_sub) (simp_all add: word_le_nat_alt del: of_nat_add)
  have ge8: "\<not> (of_nat e :: u64) - of_nat off < 8" using s8 lc assms(3) by (simp add: word_less_nat_alt)
  have r: "read_at (file_reader file) () (of_nat off) 8 = (EAF_OK, ?h, ())"
    using assms(1-4) lc u by (simp add: file_reader_def file_read_def chunk_bytes_def)
  have sz: "wav_u32 (drop 4 ?h) = of_nat ?n"
  proof -
    have "unat (wav_u32 (drop 4 ?h)) = ?n" using unat_wav_u32 [of "drop 4 ?h"] assms(2,6) by (simp add: le_value_le_bytes)
    then show ?thesis by (metis of_nat_unat ucast_id)
  qed
  have "unat (of_nat (?n + ?n mod 2) :: u64) = ?n + ?n mod 2" using assms(6) by (intro unat_of_nat_u64) simp
  then have fits: "\<not> (of_nat (?n + ?n mod 2) :: u64) > of_nat e - of_nat (off + 8)"
    using s16 lc assms(3) by (simp add: word_less_nat_alt del: of_nat_add)
  have nxt: "(of_nat (off + 8) :: u64) + of_nat (?n + ?n mod 2) = of_nat (off + length (chunk_bytes (name, body)))" by (simp add: lc)
  have o8: "(of_nat off :: u64) + 8 = of_nat (off + 8)" by simp
  show ?thesis
    by (subst chunk_loop.simps) (simp only: lt ge8 r prod.case Let_def sz padded_size [OF assms(6)] o8 fits nxt if_True if_False simp_thms)
qed

lemma chunk_loop_others:
  assumes "list_all other_chunk cs" and "drop off file = chunks_bytes cs @ rest" and "off + length (chunks_bytes cs) \<le> e"
    and "e \<le> length file" "length file < 2 ^ 32 + 8"
  shows "chunk_loop (file_reader file) (of_nat e) (of_nat off) () s =
    chunk_loop (file_reader file) (of_nat e) (of_nat (off + length (chunks_bytes cs))) () s"
  using assms(1-3)
proof (induction cs arbitrary: off)
  case Nil
  show ?case by (simp add: chunks_bytes_def)
next
  case (Cons c cs)
  obtain name body where c: "c = (name, body)" by fastforce
  have o: "length name = 4" "name \<noteq> fmt_name" "name \<noteq> data_name" using Cons.prems(1) c by (simp_all add: other_chunk_def)
  have cb: "chunks_bytes (c # cs) = chunk_bytes (name, body) @ chunks_bytes cs" by (simp add: chunks_bytes_def c)
  have l: "length (chunk_bytes (name, body)) = 8 + length body + length body mod 2" using length_chunk_bytes [of "(name, body)"] o(1) by simp
  have d: "drop off file = chunk_bytes (name, body) @ (chunks_bytes cs @ rest)" using Cons.prems(2) cb by simp
  have e: "off + length (chunk_bytes (name, body)) \<le> e" "length body < 2 ^ 32" using Cons.prems(3) assms(4,5) cb l by simp_all
  have st: "chunk_step (file_reader file) (name @ le_bytes 4 (length body)) (of_nat (length body)) (of_nat (off + 8)) () s = (EAF_OK, (), s)"
    using o by (simp add: chunk_step_def)
  have "drop (off + length (chunk_bytes (name, body))) file = drop (length (chunk_bytes (name, body))) (drop off file)"
    by (simp only: drop_drop add.commute)
  then have "drop (off + length (chunk_bytes (name, body))) file = chunks_bytes cs @ rest" unfolding d by simp
  moreover have "off + length (chunk_bytes (name, body)) + length (chunks_bytes cs) \<le> e" using Cons.prems(3) cb by simp
  ultimately show ?case using Cons.IH [of "off + length (chunk_bytes (name, body))"] Cons.prems(1)
    unfolding chunk_loop_chunk [OF d o(1) e(1) assms(4,5) e(2)] st cb by (simp add: add.assoc)
qed

definition fmt_body :: "nat \<Rightarrow> nat \<Rightarrow> nat \<Rightarrow> u8 list" where
  "fmt_body rate ch bits = le_bytes 2 1 @ le_bytes 2 ch @ le_bytes 4 rate @ le_bytes 4 (rate * (ch * (bits div 8))) @
     le_bytes 2 (ch * (bits div 8)) @ le_bytes 2 bits"

definition file_format :: "nat \<Rightarrow> nat \<Rightarrow> eaf_format_t" where
  "file_format rate ch = mk_format (of_nat rate) (of_nat ch) (if ch = 1 then 8 else 3)"

lemma file_format_valid: "0 < rate \<Longrightarrow> rate < 2 ^ 32 \<Longrightarrow> ch = 1 \<or> ch = 2 \<Longrightarrow> eaf_format_valid (file_format rate ch)"
proof -
  assume a: "0 < rate" "rate < 2 ^ 32" "ch = 1 \<or> ch = 2"
  have "(of_nat rate :: u32) \<noteq> 0" using a unat_of_nat_u32 [of rate] by force
  moreover have "count_mask 8 0 = 1" "count_mask 3 0 = 2" by code_simp+
  moreover have "(8 :: u32) AND NOT 15 = 0" "(3 :: u32) AND NOT 15 = 0" by simp_all
  ultimately show ?thesis using a(3) by (elim disjE) (simp_all add: eaf_format_valid_def file_format_def mk_format_def)
qed

lemma fmt_chunk_body:
  assumes "0 < rate" and "ch = 1 \<or> ch = 2" and "bits = 16 \<or> bits = 24 \<or> bits = 32" and "rate * (ch * (bits div 8)) < 2 ^ 32"
  shows "fmt_chunk (fmt_body rate ch bits) s =
    (EAF_OK, s\<lparr>ck_bits := of_nat bits, ck_align := of_nat (ch * (bits div 8)), ck_format := file_format rate ch, have_fmt := True\<rparr>)"
proof -
  let ?al = "ch * (bits div 8)" and ?h = "fmt_body rate ch bits"
  have al: "0 < ?al" "?al \<le> 8" using assms(2,3) by auto
  have "rate * 1 \<le> rate * ?al" using al(1) by (intro mult_le_mono) auto
  then have rate: "rate < 2 ^ 32" using assms(4) unfolding mult_1_right by (rule le_less_trans)
  have small: "(1::nat) < 2 ^ 16" "ch < 2 ^ 16" "bits < 2 ^ 16" "?al < 2 ^ 16" using assms(2,3) al by auto
  have f: "wav_u16 ?h = of_nat 1" "wav_u16 (drop 2 ?h) = of_nat ch" "wav_u16 (drop 14 ?h) = of_nat bits" "wav_u16 (drop 12 ?h) = of_nat ?al"
    using wav_le_bytes(1) [OF small(1)] wav_le_bytes(1) [OF small(2)] wav_le_bytes(1) [OF small(3), of "[]"] wav_le_bytes(1) [OF small(4)]
    by (simp_all add: fmt_body_def del: of_nat_mult)
  have g: "wav_u32 (drop 4 ?h) = of_nat rate" "wav_u32 (drop 8 ?h) = of_nat (rate * ?al)"
    using wav_le_bytes(2) [OF rate] wav_le_bytes(2) [OF assms(4)] by (simp_all add: fmt_body_def del: of_nat_mult)
  have m: "(ucast (of_nat rate :: u32) * ucast (of_nat ?al :: u16) :: u64) = ucast (of_nat (rate * ?al) :: u32)"
  proof -
    have "unat (of_nat ?al :: u16) = ?al" using al(2) by (simp add: unat_of_nat take_bit_nat_eq_self del: of_nat_mult)
    then have "unat (ucast (of_nat ?al :: u16) :: u64) = ?al" by (simp add: unat_ucast_up)
    then show ?thesis using assms(4) rate
      by (simp add: word_unat_eq_iff unat_word_ariths unat_of_nat_u32 del: of_nat_mult)
  qed
  have v: "eaf_format_valid (file_format rate ch)" by (rule file_format_valid [OF assms(1) rate assms(2)])
  have ff: "mk_format (of_nat rate) (ucast (of_nat ch :: u16)) (if (of_nat ch :: u16) = 1 then 8 else 3) = file_format rate ch"
    and fr: "sample_rate (file_format rate ch) = of_nat rate"
    using assms(2) by (auto simp: file_format_def mk_format_def)
  have a: "unat (of_nat ?al :: u16) = unat (of_nat ch :: u16) * (unat (of_nat bits :: u16) div 8)"
    "\<not> ((of_nat ch :: u16) \<noteq> 1 \<and> (of_nat ch :: u16) \<noteq> 2)"
    "\<not> ((of_nat bits :: u16) \<noteq> 16 \<and> (of_nat bits :: u16) \<noteq> 24 \<and> (of_nat bits :: u16) \<noteq> 32)"
    using assms(2,3) by auto
  show ?thesis unfolding fmt_chunk_def Let_def using f g m v ff fr a by simp
qed

text \<open>A file with one format chunk, one data chunk behind it, and any other chunks around them.\<close>

definition wav_file :: "nat \<Rightarrow> nat \<Rightarrow> nat \<Rightarrow> u8 list \<Rightarrow> u8 list \<Rightarrow> (u8 list \<times> u8 list) list \<Rightarrow> (u8 list \<times> u8 list) list \<Rightarrow> (u8 list \<times> u8 list) list \<Rightarrow> u8 list" where
  "wav_file rate ch bits ext data pre mid post =
     riff_file (pre @ [(fmt_name, fmt_body rate ch bits @ ext)] @ mid @ [(data_name, data)] @ post)"

lemma chunks_bytes_append: "chunks_bytes (xs @ ys) = chunks_bytes xs @ chunks_bytes ys"
  by (simp add: chunks_bytes_def)

lemma length_fmt_body [simp]: "length (fmt_body rate ch bits) = 16"
  by (simp add: fmt_body_def)

lemma drop_append_exact: "file = a @ b \<Longrightarrow> n = length a \<Longrightarrow> drop n file = b"
  by simp

lemma chunk_body_at:
  assumes "drop off file = chunk_bytes (name, body) @ rest" and "length name = 4"
  shows "\<exists>r. drop (off + 8) file = body @ r"
proof -
  have "drop (off + 8) file = drop 8 (chunk_bytes (name, body) @ rest)" using assms(1) by (metis add.commute drop_drop)
  then show ?thesis using assms(2) by (simp add: chunk_bytes_def)
qed

lemma wav_scan:
  assumes "0 < rate" and "ch = 1 \<or> ch = 2" and "bits = 16 \<or> bits = 24 \<or> bits = 32" and "rate * (ch * (bits div 8)) < 2 ^ 32"
    and "list_all other_chunk pre" "list_all other_chunk mid" "list_all other_chunk post"
    and "file = wav_file rate ch bits ext data pre mid post" and "length file < 2 ^ 32 + 8"
  shows "\<exists>s off. chunk_loop (file_reader file) (of_nat (length file)) 12 () no_chunks = (EAF_OK, (), s) \<and>
    s = \<lparr>ck_format = file_format rate ch, ck_bits = of_nat bits, ck_align = of_nat (ch * (bits div 8)), ck_data_offset = of_nat off,
      ck_data_size = of_nat (length data), have_fmt = True, have_data = True\<rparr> \<and>
    off + length data \<le> length file \<and> take (length data) (drop off file) = data"
proof -
  let ?fmt = "fmt_body rate ch bits @ ext"
  let ?F = "chunk_bytes (fmt_name, ?fmt)" and ?D = "chunk_bytes (data_name, data)"
  define H where "H = take 12 file"
  have parts: "file = H @ chunks_bytes pre @ ?F @ chunks_bytes mid @ ?D @ chunks_bytes post" and lH: "length H = 12"
    using assms(8) by (simp_all add: H_def wav_file_def riff_file_def chunks_bytes_append) (simp_all add: chunks_bytes_def)
  define o1 where "o1 = 12 + length (chunks_bytes pre)"
  define o2 where "o2 = o1 + length ?F"
  define o3 where "o3 = o2 + length (chunks_bytes mid)"
  define o4 where "o4 = o3 + length ?D"
  have e: "length file = o4 + length (chunks_bytes post)" unfolding parts by (simp add: lH o1_def o2_def o3_def o4_def)
  have d0: "drop 12 file = chunks_bytes pre @ ?F @ chunks_bytes mid @ ?D @ chunks_bytes post"
    by (rule drop_append_exact [OF parts]) (simp add: lH)
  have d1: "drop o1 file = ?F @ (chunks_bytes mid @ ?D @ chunks_bytes post)"
    by (rule drop_append_exact [of _ "H @ chunks_bytes pre"]) (simp_all add: parts lH o1_def)
  have d2: "drop o2 file = chunks_bytes mid @ (?D @ chunks_bytes post)"
    by (rule drop_append_exact [of _ "H @ chunks_bytes pre @ ?F"]) (simp_all add: parts lH o1_def o2_def)
  have d3: "drop o3 file = ?D @ chunks_bytes post"
    by (rule drop_append_exact [of _ "H @ chunks_bytes pre @ ?F @ chunks_bytes mid"]) (simp_all add: parts lH o1_def o2_def o3_def)
  have d4: "drop o4 file = chunks_bytes post @ []"
    by (rule drop_append_exact [of _ "H @ chunks_bytes pre @ ?F @ chunks_bytes mid @ ?D"]) (simp_all add: parts lH o1_def o2_def o3_def o4_def)
  have lF: "length ?F = 8 + length ?fmt + length ?fmt mod 2" using length_chunk_bytes [of "(fmt_name, ?fmt)"] by simp
  have lD: "length ?D = 8 + length data + length data mod 2" using length_chunk_bytes [of "(data_name, data)"] by simp
  have b: "length ?fmt < 2 ^ 32" "length data < 2 ^ 32" using e lF lD assms(9) by (simp_all add: o2_def o3_def o4_def)
  let ?rd = "file_reader file" and ?e = "of_nat (length file) :: u64"
  let ?s1 = "no_chunks\<lparr>ck_bits := of_nat bits, ck_align := of_nat (ch * (bits div 8)), ck_format := file_format rate ch, have_fmt := True\<rparr>"
  let ?s2 = "?s1\<lparr>ck_data_offset := of_nat (o3 + 8), ck_data_size := of_nat (length data), have_data := True\<rparr>"
  have L1: "chunk_loop ?rd ?e (of_nat 12) () no_chunks = chunk_loop ?rd ?e (of_nat o1) () no_chunks"
    using chunk_loop_others [OF assms(5) d0 _ order.refl assms(9)] e by (simp add: o1_def o2_def o3_def o4_def)
  have r16: "read_at ?rd () (of_nat (o1 + 8)) 16 = (EAF_OK, fmt_body rate ch bits, ())"
  proof -
    obtain r where "drop (o1 + 8) file = ?fmt @ r" using chunk_body_at [OF d1] by auto
    then have "take 16 (drop (o1 + 8) file) = fmt_body rate ch bits" by simp
    moreover have "o1 + 8 < 2 ^ 64" "o1 + 8 + 16 \<le> length file" using e lF assms(9) by (simp_all add: o2_def o3_def o4_def)
    ultimately show ?thesis by (simp add: file_reader_def file_read_def unat_of_nat_u64 del: of_nat_add)
  qed
  have "unat (of_nat (length ?fmt) :: u32) = length ?fmt" by (rule unat_of_nat_u32 [OF b(1)])
  then have "\<not> (of_nat (length ?fmt) :: u32) < 16" by (simp add: word_less_nat_alt del: of_nat_add)
  then have st1: "chunk_step ?rd (fmt_name @ le_bytes 4 (length ?fmt)) (of_nat (length ?fmt)) (of_nat (o1 + 8)) () no_chunks = (EAF_OK, (), ?s1)"
    using r16 fmt_chunk_body [OF assms(1-4)] by (simp add: chunk_step_def no_chunks_def del: of_nat_add of_nat_mult length_append)
  have L2: "chunk_loop ?rd ?e (of_nat o1) () no_chunks = chunk_loop ?rd ?e (of_nat o2) () ?s1"
    using chunk_loop_chunk [OF d1 _ _ order.refl assms(9) b(1), of no_chunks] st1 e by (simp add: o2_def o3_def o4_def del: of_nat_add of_nat_mult length_append)
  have L3: "chunk_loop ?rd ?e (of_nat o2) () ?s1 = chunk_loop ?rd ?e (of_nat o3) () ?s1"
    using chunk_loop_others [OF assms(6) d2 _ order.refl assms(9), of ?s1] e by (simp add: o3_def o4_def del: of_nat_add of_nat_mult)
  have st2: "chunk_step ?rd (data_name @ le_bytes 4 (length data)) (of_nat (length data)) (of_nat (o3 + 8)) () ?s1 = (EAF_OK, (), ?s2)"
  proof -
    have "(ucast (of_nat (length data) :: u32) :: u64) = of_nat (length data)" using unat_of_nat_u32 [OF b(2)] by (metis of_nat_unat ucast_id unat_ucast_32_64)
    then show ?thesis by (simp add: chunk_step_def no_chunks_def del: of_nat_add of_nat_mult)
  qed
  have L4: "chunk_loop ?rd ?e (of_nat o3) () ?s1 = chunk_loop ?rd ?e (of_nat o4) () ?s2"
    using chunk_loop_chunk [OF d3 _ _ order.refl assms(9) b(2), of ?s1] st2 e by (simp add: o4_def del: of_nat_add of_nat_mult)
  have L5: "chunk_loop ?rd ?e (of_nat o4) () ?s2 = (EAF_OK, (), ?s2)"
    using chunk_loop_others [OF assms(7) d4 _ order.refl assms(9), of ?s2] e by (simp add: chunk_loop.simps [of _ "of_nat _" "of_nat _"] del: of_nat_add of_nat_mult)
  obtain r where "drop (o3 + 8) file = data @ r" using chunk_body_at [OF d3] by auto
  moreover have "o3 + 8 + length data \<le> length file" using e lD by (simp add: o4_def)
  ultimately show ?thesis using L1 L2 L3 L4 L5
    by (intro exI [of _ ?s2] exI [of _ "o3 + 8"]) (simp add: no_chunks_def del: of_nat_add of_nat_mult)
qed

lemma wav_open_file:
  assumes "0 < rate" and "ch = 1 \<or> ch = 2" and "bits = 16 \<or> bits = 24 \<or> bits = 32" and "rate * (ch * (bits div 8)) < 2 ^ 32"
    and "list_all other_chunk pre" "list_all other_chunk mid" "list_all other_chunk post"
    and "file = wav_file rate ch bits ext data pre mid post" and "length file < 2 ^ 32 + 8" and "length data = frames * (ch * (bits div 8))"
  shows "\<exists>w. eaf_wav_open (file_reader file) = (EAF_OK, (), Some w) \<and> wav_on file data w \<and> wav_position w = 0 \<and>
    wav_format w = file_format rate ch \<and> wav_bits w = of_nat bits \<and> total_frames w = of_nat frames"
proof -
  let ?al = "ch * (bits div 8)" and ?rd = "file_reader file"
  obtain off where S: "chunk_loop ?rd (of_nat (length file)) 12 () no_chunks = (EAF_OK, (), \<lparr>ck_format = file_format rate ch, ck_bits = of_nat bits,
      ck_align = of_nat ?al, ck_data_offset = of_nat off, ck_data_size = of_nat (length data), have_fmt = True, have_data = True\<rparr>)"
    and off: "off + length data \<le> length file" "take (length data) (drop off file) = data"
    using wav_scan [OF assms(1-9)] by auto
  let ?b = "chunks_bytes (pre @ [(fmt_name, fmt_body rate ch bits @ ext)] @ mid @ [(data_name, data)] @ post)"
  have split: "file = [82, 73, 70, 70] @ le_bytes 4 (4 + length ?b) @ [87, 65, 86, 69] @ ?b" by (simp only: assms(8) wav_file_def riff_file_def)
  have len: "length file = 12 + length ?b" by (subst split) simp
  have h: "read_at ?rd () 0 12 = (EAF_OK, [82, 73, 70, 70] @ le_bytes 4 (4 + length ?b) @ [87, 65, 86, 69], ())"
  proof -
    have "take 12 file = [82, 73, 70, 70] @ le_bytes 4 (4 + length ?b) @ [87, 65, 86, 69]" by (subst split) simp
    then show ?thesis using len by (simp add: file_reader_def file_read_def)
  qed
  have last: "(ucast (wav_u32 (drop 4 ([82, 73, 70, 70] @ le_bytes 4 (4 + length ?b) @ [87, 65, 86, 69]))) + 8 :: u64) = of_nat (length file)"
  proof -
    have lt: "4 + length ?b < 2 ^ 32" using len assms(9) by simp
    have "(ucast (of_nat (4 + length ?b) :: u32) :: u64) = of_nat (4 + length ?b)"
      using unat_of_nat_u32 [OF lt] by (metis of_nat_unat ucast_id unat_ucast_32_64)
    then show ?thesis using wav_le_bytes(2) [OF lt] len by (simp del: of_nat_add) (simp add: algebra_simps)
  qed
  have ul: "unat (of_nat (length file) :: u64) = length file" using assms(9) by (intro unat_of_nat_u64) simp
  have al: "0 < ?al" "?al \<le> 8" using assms(2,3) by auto
  have ual: "unat (of_nat ?al :: u16) = ?al" using al(2) by (simp add: unat_of_nat take_bit_nat_eq_self del: of_nat_mult)
  have ud: "unat (of_nat (length data) :: u64) = length data" using off(1) assms(9) by (intro unat_of_nat_u64) simp
  have dv: "(of_nat (length data) :: u64) div ucast (of_nat ?al :: u16) = of_nat frames"
    and md: "(of_nat (length data) :: u64) mod ucast (of_nat ?al :: u16) = 0"
  proof -
    have "unat ((of_nat (length data) :: u64) div ucast (of_nat ?al :: u16)) = frames"
      using ud ual al assms(10) by (simp add: unat_div unat_ucast_up del: of_nat_mult)
    then show "(of_nat (length data) :: u64) div ucast (of_nat ?al :: u16) = of_nat frames" by (metis of_nat_unat ucast_id)
    have "unat ((of_nat (length data) :: u64) mod ucast (of_nat ?al :: u16)) = 0"
      using ud ual al assms(10) by (simp add: unat_mod unat_ucast_up del: of_nat_mult)
    then show "(of_nat (length data) :: u64) mod ucast (of_nat ?al :: u16) = 0" by (simp only: unat_eq_0)
  qed
  let ?w = "\<lparr>wav_reader = ?rd, data_offset = of_nat off, wav_position = 0, total_frames = of_nat frames, wav_format = file_format rate ch,
      wav_bits = of_nat bits, block_align = of_nat ?al, wav_scratch = replicate 2048 0\<rparr>"
  have "\<not> (of_nat (length file) :: u64) < 12" using ul len by (simp add: word_less_nat_alt)
  then have "eaf_wav_open ?rd = (EAF_OK, (), Some ?w)" unfolding eaf_wav_open_def
    using h last S dv md by (simp add: file_reader_def Let_def del: of_nat_mult of_nat_add)
  moreover have "wav_on file data ?w"
  proof -
    have "unat (of_nat off :: u64) = off" using off(1) assms(9) by (intro unat_of_nat_u64) simp
    moreover have "frames \<le> length data" unfolding assms(10) using al(1) by simp
    then have "unat (of_nat frames :: u64) = frames" using assms(9) off(1) by (intro unat_of_nat_u64) simp
    moreover have "unat (of_nat ch :: u8) = ch" "unat (of_nat bits :: u16) div 8 = bits div 8"
      "(of_nat bits :: u16) = 16 \<or> (of_nat bits :: u16) = 24 \<or> (of_nat bits :: u16) = 32" using assms(2,3) by auto
    ultimately show ?thesis using off ual assms(2,9,10)
      by (auto simp: wav_on_def wav_shape_def file_format_def mk_format_def simp del: of_nat_mult)
  qed
  ultimately show ?thesis by (intro exI [of _ ?w]) simp
qed

text \<open>The caller of a source: reads until the end of the stream.\<close>

fun wav_drain :: "nat \<Rightarrow> 'r eaf_wav_t \<Rightarrow> u32 \<Rightarrow> int list" where
  "wav_drain 0 w cap = []"
| "wav_drain (Suc n) w cap =
     (case read_frames w (replicate 512 0) cap of (rc, frames, dst, w) \<Rightarrow>
        if rc \<noteq> EAF_OK \<or> frames = Some 0 then [] else take (unat (the frames) * channels (wav_format w)) dst @ wav_drain n w cap)"

lemma wav_drain_spec:
  assumes "cap \<noteq> 0"
  shows "wav_on file data w \<Longrightarrow> unat (total_frames w) - unat (wav_position w) \<le> n * min (unat cap) 256 \<Longrightarrow>
    wav_drain n w cap = decode_frames (unat (wav_bits w) div 8) (channels (wav_format w)) (channels (wav_format w))
      (drop (unat (wav_position w) * (channels (wav_format w) * (unat (wav_bits w) div 8))) data) (unat (total_frames w) - unat (wav_position w))"
proof (induction n arbitrary: w)
  case 0
  then show ?case by (simp add: decode_frames_def)
next
  case (Suc n)
  let ?left = "unat (total_frames w) - unat (wav_position w)" and ?ch = "channels (wav_format w)" and ?sb = "unat (wav_bits w) div 8"
  let ?n = "min (min (unat cap) 256) ?left"
  let ?D = "decode_frames ?sb ?ch ?ch"
  have ch: "?ch = 1 \<or> ?ch = 2" using Suc.prems(1) by (auto simp: wav_on_def wav_shape_def)
  then have "?n * ?ch \<le> 256 * 2" by (intro mult_le_mono) auto
  then have "?n * ?ch \<le> length (replicate 512 (0::int))" by simp
  from read_frames_spec [OF Suc.prems(1) assms this]
  obtain w' where r: "read_frames w (replicate 512 0) cap =
      (EAF_OK, Some (of_nat ?n), blit (replicate 512 0) 0 (?D (drop (unat (wav_position w) * (?ch * ?sb)) data) ?n), w')"
    and w': "wav_on file data w'" "unat (wav_position w') = unat (wav_position w) + ?n" "total_frames w' = total_frames w"
      "wav_format w' = wav_format w" "wav_bits w' = wav_bits w" by blast
  have un: "unat (of_nat ?n :: u32) = ?n" by (intro unat_of_nat_u32) simp
  show ?case
  proof (cases "?left = 0")
    case True
    then show ?thesis using r by (simp add: decode_frames_def)
  next
    case False
    have "0 < unat cap" using assms by (simp add: unat_gt_0)
    then have nz: "?n \<noteq> 0" using False by simp
    then have nz': "(of_nat ?n :: u32) \<noteq> 0" using un by (metis unat_0)
    have "?left - ?n \<le> n * min (unat cap) 256" using Suc.prems(2) unfolding mult_Suc by linarith
    then have "unat (total_frames w') - unat (wav_position w') \<le> n * min (unat cap) 256" unfolding w'(2,3) by linarith
    note IH = Suc.IH [OF w'(1) this]
    have left: "unat (total_frames w') - unat (wav_position w') = ?left - ?n" unfolding w'(2,3) by simp
    have pos: "drop (unat (wav_position w') * (?ch * ?sb)) data = drop (?n * (?ch * ?sb)) (drop (unat (wav_position w) * (?ch * ?sb)) data)"
      unfolding w'(2) by (simp add: algebra_simps)
    have "?left = ?n + (?left - ?n)" by simp
    then have sp: "?D (drop (unat (wav_position w) * (?ch * ?sb)) data) ?left = ?D (drop (unat (wav_position w) * (?ch * ?sb)) data) ?n @
        ?D (drop (?n * (?ch * ?sb)) (drop (unat (wav_position w) * (?ch * ?sb)) data)) (?left - ?n)" by (metis decode_frames_split)
    have "length (?D xs ?n) = ?n * ?ch" for xs using ch by auto
    moreover have "take (length xs) (blit ys 0 xs) = xs" for xs ys :: "int list" by (simp add: blit_def)
    ultimately have T: "take (unat (of_nat ?n :: u32) * channels (wav_format w')) (blit (replicate 512 0) 0 (?D (drop (unat (wav_position w) * (?ch * ?sb)) data) ?n)) =
        ?D (drop (unat (wav_position w) * (?ch * ?sb)) data) ?n" unfolding un w'(4) by metis
    have "wav_drain (Suc n) w cap = ?D (drop (unat (wav_position w) * (?ch * ?sb)) data) ?n @ wav_drain n w' cap"
      unfolding wav_drain.simps r prod.case using nz' by (simp only: option.inject option.sel simp_thms if_False T)
    then show ?thesis unfolding sp IH left w'(4,5) pos .
  qed
qed

section \<open>Properties\<close>

text \<open>
  C11: A WAVE file is played back exactly: for every PCM file of one or two channels and 16, 24 or 32 bits, with any other chunks before, between
  and behind the format and the data, opening succeeds with the format and the number of frames of the file, and reading to the end, in blocks of any
  size and from any frame sought to, returns the samples of the reference decoder from that frame on.
\<close>

theorem wav_played_exactly:
  assumes "0 < rate" and "ch = 1 \<or> ch = 2" and "bits = 16 \<or> bits = 24 \<or> bits = 32" and "rate * (ch * (bits div 8)) < 2 ^ 32"
    and "list_all other_chunk pre" "list_all other_chunk mid" "list_all other_chunk post"
    and "file = wav_file rate ch bits ext data pre mid post" and "length file < 2 ^ 32 + 8" and "length data = frames * (ch * (bits div 8))"
    and "cap \<noteq> 0" and "k \<le> frames" and "frames - k \<le> n * min (unat cap) 256"
  shows "\<exists>w w'. eaf_wav_open (file_reader file) = (EAF_OK, (), Some w) \<and> wav_format w = file_format rate ch \<and> total_frames w = of_nat frames \<and>
    seek_frame w (of_nat k) = (EAF_OK, w') \<and>
    wav_drain n w' cap = decode_frames (bits div 8) ch ch (drop (k * (ch * (bits div 8))) data) (frames - k)"
proof -
  obtain w where w: "eaf_wav_open (file_reader file) = (EAF_OK, (), Some w)" "wav_on file data w"
      "wav_format w = file_format rate ch" "wav_bits w = of_nat bits" "total_frames w = of_nat frames"
    using wav_open_file [OF assms(1-10)] by blast
  let ?w = "w\<lparr>wav_position := of_nat k\<rparr>"
  have f: "channels (wav_format w) = ch" "unat (wav_bits w) div 8 = bits div 8" using w(3,4) assms(2,3) by (auto simp: file_format_def mk_format_def)
  have al: "unat (block_align w) = ch * (bits div 8)" "0 < ch * (bits div 8)" using w(2) f assms(2,3) by (auto simp: wav_on_def wav_shape_def)
  have "unat (total_frames w) = frames" using w(2) al assms(10) by (simp add: wav_on_def)
  then have fr: "unat (total_frames w) = frames" "frames < 2 ^ 64" using unsigned_less [where ?'a = nat and w = "total_frames w"] by simp_all
  have uk: "unat (of_nat k :: u64) = k" using assms(12) fr(2) by (intro unat_of_nat_u64) simp
  then have le: "of_nat k \<le> total_frames w" using assms(12) fr(1) by (simp add: word_le_nat_alt)
  have on: "wav_on file data ?w" using w(2) le by (auto simp: wav_on_def wav_shape_def)
  have "unat (total_frames ?w) - unat (wav_position ?w) \<le> n * min (unat cap) 256" using assms(13) uk fr(1) by simp
  from wav_drain_spec [OF assms(11) on this] have "wav_drain n ?w cap = decode_frames (bits div 8) ch ch (drop (k * (ch * (bits div 8))) data) (frames - k)"
    using f uk fr(1) by simp
  moreover have "seek_frame w (of_nat k) = (EAF_OK, ?w)" using le by (simp add: seek_frame_def not_less)
  ultimately show ?thesis using w by blast
qed

definition example_wav :: "u8 list" where
  "example_wav = wav_file 8000 2 24 [0, 0] [1, 0, 0, 255, 255, 255, 0, 0, 128, 2, 0, 0] [([76, 73, 83, 84], [9, 9, 9])] [] [([105, 100, 51, 32], [])]"

theorem wav_played_exactly_witness:
  "\<exists>w w'. eaf_wav_open (file_reader example_wav) = (EAF_OK, (), Some w) \<and> wav_format w = mk_format 8000 2 3 \<and> total_frames w = 2 \<and>
    seek_frame w 1 = (EAF_OK, w') \<and> wav_drain 1 w' 1 = [-2147483648, 512]"
proof -
  have d: "decode_frames 3 2 2 [0, 0, 128, 2, 0, 0] 1 = [-2147483648, 512]"
    by (simp add: decode_frames_def frame_samples_def signed_value_def Let_def)
  have "length example_wav < 2 ^ 32 + 8"
    by (simp add: example_wav_def wav_file_def riff_file_def chunks_bytes_def chunk_bytes_def)
  from wav_played_exactly [of 8000 2 24 "[([76, 73, 83, 84], [9, 9, 9])]" "[]" "[([105, 100, 51, 32], [])]" example_wav "[0, 0]"
      "[1, 0, 0, 255, 255, 255, 0, 0, 128, 2, 0, 0]" 2 1 1 1, OF _ _ _ _ _ _ _ example_wav_def this]
  show ?thesis using d by (simp add: other_chunk_def file_format_def mk_format_def)
qed

section \<open>Any file\<close>

definition chunks_ok :: "u64 \<Rightarrow> wav_chunks \<Rightarrow> bool" where
  "chunks_ok e s \<longleftrightarrow> (have_fmt s \<longrightarrow> (ck_bits s = 16 \<or> ck_bits s = 24 \<or> ck_bits s = 32) \<and> (channels (ck_format s) = 1 \<or> channels (ck_format s) = 2) \<and>
       unat (ck_align s) = channels (ck_format s) * (unat (ck_bits s) div 8)) \<and>
     (have_data s \<longrightarrow> unat (ck_data_offset s) + unat (ck_data_size s) \<le> unat e)"

lemma fmt_chunk_ok:
  assumes "fmt_chunk header s = (EAF_OK, s')" and "chunks_ok e s"
  shows "chunks_ok e s'"
proof -
  let ?ch = "wav_u16 (drop 2 header)" and ?bits = "wav_u16 (drop 14 header)" and ?al = "wav_u16 (drop 12 header)"
  let ?fmt = "mk_format (wav_u32 (drop 4 header)) (ucast ?ch) (if ?ch = 1 then 8 else 3)"
  have "(?ch = 1 \<or> ?ch = 2) \<and> (?bits = 16 \<or> ?bits = 24 \<or> ?bits = 32) \<and> unat ?al = unat ?ch * (unat ?bits div 8) \<and>
      s' = s\<lparr>ck_bits := ?bits, ck_align := ?al, ck_format := ?fmt, have_fmt := True\<rparr>"
    using assms(1) unfolding fmt_chunk_def Let_def by (simp split: if_split_asm)
  moreover have "channels ?fmt = unat ?ch" if "?ch = 1 \<or> ?ch = 2" using that by (elim disjE) (simp_all add: mk_format_def)
  ultimately show ?thesis using assms(2) by (auto simp: chunks_ok_def simp del: One_nat_def)
qed

lemma chunk_step_ok:
  assumes "chunk_step rd header sz offset ctx s = (EAF_OK, ctx', s')" and "chunks_ok e s" and "unat offset + unat sz \<le> unat e"
  shows "chunks_ok e s'"
  using assms by (auto simp: chunk_step_def chunks_ok_def split: if_splits prod.splits dest!: fmt_chunk_ok [of _ _ _ e])

lemma padded_covers: "unat (sz :: u32) \<le> unat (ucast sz + ucast (sz AND 1) :: u64)"
proof -
  have "unat (sz AND 1) \<le> 1" by (simp add: and_one_eq unat_mod)
  moreover have "unat sz < 4294967296" using unsigned_less [where ?'a = nat and w = sz] by simp
  ultimately have "unat sz + unat (sz AND 1) < 18446744073709551616" by linarith
  then have "unat (ucast sz :: u64) + unat (ucast (sz AND 1) :: u64) < 2 ^ 64" by simp
  then show ?thesis using unat_add_lem [of "ucast sz :: u64" "ucast (sz AND 1)"] by simp
qed

lemma chunk_loop_ok:
  "chunk_loop rd e offset ctx s = (EAF_OK, ctx', s') \<Longrightarrow> chunks_ok e s \<Longrightarrow> chunks_ok e s'"
proof (induction rd e offset ctx s rule: chunk_loop.induct)
  case (1 rd e offset ctx s)
  obtain rc header ctx1 where r: "read_at rd ctx offset 8 = (rc, header, ctx1)" by (metis prod_cases3)
  let ?sz = "wav_u32 (drop 4 header)"
  let ?pad = "ucast ?sz + ucast (?sz AND 1) :: u64"
  obtain rc2 ctx2 s2 where c: "chunk_step rd header ?sz (offset + 8) ctx1 s = (rc2, ctx2, s2)" by (metis prod_cases3)
  show ?case
  proof (cases "offset < e")
    case False
    then show ?thesis using "1.prems" by (simp add: chunk_loop.simps)
  next
    case True
    have E: "chunk_loop rd e offset ctx s = (if e - offset < 8 then (EAF_INVALID, ctx, s) else if rc \<noteq> EAF_OK then (rc, ctx1, s)
        else if ?pad > e - (offset + 8) then (EAF_INVALID, ctx1, s) else if rc2 \<noteq> EAF_OK then (rc2, ctx2, s2) else chunk_loop rd e (offset + 8 + ?pad) ctx2 s2)"
      using True r c by (subst chunk_loop.simps) (simp add: Let_def)
    have g: "\<not> e - offset < 8" "rc = EAF_OK" "\<not> ?pad > e - (offset + 8)" "rc2 = EAF_OK"
      and l: "chunk_loop rd e (offset + 8 + ?pad) ctx2 s2 = (EAF_OK, ctx', s')"
      using "1.prems"(1) unfolding E by (auto split: if_splits)
    note A = chunk_advances [OF True g(1,3)]
    have k: "chunks_ok e s2" using padded_covers [of ?sz] chunk_step_ok [OF c [unfolded g(4)] "1.prems"(2)] A(2,3) by simp
    have n: "\<not> rc \<noteq> EAF_OK" "\<not> rc2 \<noteq> EAF_OK" using g by simp_all
    show ?thesis by (rule "1.IH" [OF True g(1) r [symmetric] refl refl n(1) refl refl refl g(3) c [symmetric] refl refl n(2) l k])
  qed
qed

lemma opened_shape:
  assumes "eaf_wav_open rd = (EAF_OK, ctx, Some w)"
  shows "wav_shape w" and "unat (data_offset w) + unat (total_frames w) * unat (block_align w) \<le> unat (reader_size rd)"
proof -
  obtain rc header ctx1 where r: "read_at rd (reader_ctx rd) 0 12 = (rc, header, ctx1)" by (metis prod_cases3)
  let ?e = "ucast (wav_u32 (drop 4 header)) + 8 :: u64"
  obtain rc2 ctx2 s where l: "chunk_loop rd ?e 12 ctx1 no_chunks = (rc2, ctx2, s)" by (metis prod_cases3)
  have g: "\<not> ?e > reader_size rd" "rc2 = EAF_OK" "have_fmt s" "have_data s" "ck_data_size s mod ucast (ck_align s) = 0"
    and w: "data_offset w = ck_data_offset s" "total_frames w = ck_data_size s div ucast (ck_align s)" "wav_format w = ck_format s"
      "wav_bits w = ck_bits s" "block_align w = ck_align s" "wav_scratch w = replicate 2048 0"
    using assms r l unfolding eaf_wav_open_def Let_def by (auto split: if_split_asm)
  have "chunks_ok ?e no_chunks" by (simp add: chunks_ok_def no_chunks_def)
  then have ok: "chunks_ok ?e s" by (rule chunk_loop_ok [OF l [unfolded g(2)]])
  show "wav_shape w" using ok g(3) w by (simp add: wav_shape_def chunks_ok_def)
  have "unat (total_frames w) * unat (block_align w) = unat (ck_data_size s) div unat (ck_align s) * unat (ck_align s)"
    using w by (simp add: unat_div unat_ucast_up)
  also have "\<dots> \<le> unat (ck_data_size s)" by (rule div_times_less_eq_dividend)
  finally have "unat (data_offset w) + unat (total_frames w) * unat (block_align w) \<le> unat ?e" using ok g(4) w(1) by (simp add: chunks_ok_def)
  also have "\<dots> \<le> unat (reader_size rd)" using g(1) by (simp add: word_le_nat_alt not_less)
  finally show "unat (data_offset w) + unat (total_frames w) * unat (block_align w) \<le> unat (reader_size rd)" .
qed

subsection \<open>Every read\<close>

text \<open>The reader, recording the offset and the length of every read it is asked for.\<close>

definition logged_reader :: "'r eaf_reader_t \<Rightarrow> ('r \<times> (u64 \<times> nat) list) eaf_reader_t" where
  "logged_reader rd = \<lparr>read_at = (\<lambda>(ctx, reads) offset n. let (rc, bytes, ctx) = read_at rd ctx offset n in (rc, bytes, ctx, reads @ [(offset, n)])),
     reader_ctx = (reader_ctx rd, []), reader_size = reader_size rd\<rparr>"

text \<open>Reads of bytes before \<open>limit\<close>, of at most \<open>buffer\<close> bytes.\<close>

definition within :: "nat \<Rightarrow> nat \<Rightarrow> (u64 \<times> nat) list \<Rightarrow> bool" where
  "within limit buffer reads \<longleftrightarrow> list_all (\<lambda>(offset, n). unat offset + n \<le> limit \<and> n \<le> buffer) reads"

lemma within_append [simp]: "within limit buffer (a @ b) \<longleftrightarrow> within limit buffer a \<and> within limit buffer b"
  by (simp add: within_def)

lemma within_mono: "within l b reads \<Longrightarrow> l \<le> l' \<Longrightarrow> within l' b reads"
  by (auto simp: within_def list_all_iff)

lemma logged_read:
  "read_at (logged_reader rd) (ctx, reads) offset n =
     (case read_at rd ctx offset n of (rc, bytes, ctx) \<Rightarrow> (rc, bytes, ctx, reads @ [(offset, n)]))"
  by (simp add: logged_reader_def)

lemma chunk_step_within:
  assumes "chunk_step (logged_reader rd) header sz offset (ctx, reads) s = (rc, (ctx', reads'), s')"
    and "within limit 16 reads" and "unat offset + unat sz \<le> limit"
  shows "within limit 16 reads'"
proof -
  have "unat offset + 16 \<le> limit" if "\<not> sz < 16" using that assms(3) by (simp add: word_less_nat_alt)
  then show ?thesis using assms(1,2)
    by (auto simp: chunk_step_def logged_read within_def split: if_splits prod.splits)
qed

lemma chunk_loop_within:
  assumes "chunk_loop (logged_reader rd) e offset (ctx, reads) s = (rc, (ctx', reads'), s')" and "within (unat e) 16 reads"
  shows "within (unat e) 16 reads'"
  using assms
proof (induction "logged_reader rd" e offset "(ctx, reads)" s arbitrary: ctx reads rule: chunk_loop.induct)
  case (1 e offset s ctx reads)
  obtain rc1 header ctx1 where r: "read_at rd ctx offset 8 = (rc1, header, ctx1)" by (metis prod_cases3)
  let ?sz = "wav_u32 (drop 4 header)" and ?reads = "reads @ [(offset, 8)]"
  let ?pad = "ucast ?sz + ucast (?sz AND 1) :: u64"
  have R: "read_at (logged_reader rd) (ctx, reads) offset 8 = (rc1, header, ctx1, ?reads)" by (simp add: logged_read r)
  obtain rc2 ctx2 reads2 s2 where c: "chunk_step (logged_reader rd) header ?sz (offset + 8) (ctx1, ?reads) s = (rc2, (ctx2, reads2), s2)"
    by (metis surj_pair)
  show ?case
  proof (cases "offset < e \<and> \<not> e - offset < 8")
    case False
    then show ?thesis using "1.prems" by (auto simp: chunk_loop.simps [of _ e offset] split: if_splits)
  next
    case True
    then have lt: "offset < e" and g: "\<not> e - offset < 8" by simp_all
    have E: "chunk_loop (logged_reader rd) e offset (ctx, reads) s = (if rc1 \<noteq> EAF_OK then (rc1, (ctx1, ?reads), s)
        else if ?pad > e - (offset + 8) then (EAF_INVALID, (ctx1, ?reads), s) else if rc2 \<noteq> EAF_OK then (rc2, (ctx2, reads2), s2)
        else chunk_loop (logged_reader rd) e (offset + 8 + ?pad) (ctx2, reads2) s2)"
      using lt g R c by (subst chunk_loop.simps) (simp add: Let_def)
    have "unat offset + 8 \<le> unat e" using chunk_advances(2,3) [OF lt g, of 0] by (simp add: word_less_nat_alt)
    then have w: "within (unat e) 16 ?reads" using "1.prems"(2) by (simp add: within_def)
    have w2: "within (unat e) 16 reads2" if "\<not> ?pad > e - (offset + 8)"
      using chunk_step_within [OF c w] chunk_advances [OF lt g that] padded_covers [of ?sz] by simp
    show ?thesis
    proof (cases "rc1 = EAF_OK \<and> \<not> ?pad > e - (offset + 8) \<and> rc2 = EAF_OK")
      case False
      then show ?thesis using "1.prems"(1) w w2 unfolding E by (auto split: if_splits)
    next
      case go: True
      then have "chunk_loop (logged_reader rd) e (offset + 8 + ?pad) (ctx2, reads2) s2 = (rc, (ctx', reads'), s')"
        using "1.prems"(1) unfolding E by simp
      moreover have n: "\<not> rc1 \<noteq> EAF_OK" "\<not> ?pad > e - (offset + 8)" "\<not> rc2 \<noteq> EAF_OK" using go by simp_all
      ultimately show ?thesis
        using "1.hyps" [OF lt g R [symmetric] refl refl n(1) refl refl refl n(2) c [symmetric] refl refl n(3)] w2 by blast
    qed
  qed
qed

lemma open_within:
  assumes "eaf_wav_open (logged_reader rd) = (rc, (ctx, reads), opened)"
  shows "within (unat (reader_size rd)) 16 reads"
proof -
  obtain rc1 header ctx1 where r: "read_at rd (reader_ctx rd) 0 12 = (rc1, header, ctx1)" by (metis prod_cases3)
  let ?e = "ucast (wav_u32 (drop 4 header)) + 8 :: u64" and ?size = "unat (reader_size rd)"
  obtain rc2 ctx2 reads2 s where l: "chunk_loop (logged_reader rd) ?e 12 (ctx1, [(0, 12)]) no_chunks = (rc2, (ctx2, reads2), s)"
    by (metis surj_pair)
  have R: "read_at (logged_reader rd) (reader_ctx (logged_reader rd)) 0 12 = (rc1, header, ctx1, [(0, 12)])"
    by (simp add: logged_reader_def r)
  consider "reads = []" | "\<not> reader_size rd < 12" "reads = [(0, 12)]"
    | "\<not> ?e < 12" "\<not> ?e > reader_size rd" "reads = reads2"
    using assms R l unfolding eaf_wav_open_def Let_def by (auto simp: logged_reader_def split: if_split_asm)
  then show ?thesis
  proof cases
    case 3
    then have "within (unat ?e) 16 [(0, 12)]" by (simp add: within_def word_less_nat_alt not_less)
    from chunk_loop_within [OF l this] show ?thesis
      using 3 by (auto simp: word_le_nat_alt not_less intro: within_mono)
  qed (simp_all add: within_def word_less_nat_alt)
qed

text \<open>Calls of an open source.\<close>

datatype wav_call = WavRead "int list" u32 | WavSeek u64

fun wav_apply :: "wav_call \<Rightarrow> 'r eaf_wav_t \<Rightarrow> 'r eaf_wav_t" where
  "wav_apply (WavRead dst cap) w = snd (snd (snd (read_frames w dst cap)))"
| "wav_apply (WavSeek frame) w = snd (seek_frame w frame)"

definition reads_inside :: "'r eaf_reader_t \<Rightarrow> (u64 \<times> nat) list \<Rightarrow> ('r \<times> (u64 \<times> nat) list) eaf_wav_t \<Rightarrow> bool" where
  "reads_inside rd opening w \<longleftrightarrow> unat (block_align w) \<le> 8 \<and> wav_position w \<le> total_frames w \<and>
     unat (data_offset w) + unat (total_frames w) * unat (block_align w) \<le> unat (reader_size rd) \<and>
     read_at (wav_reader w) = read_at (logged_reader rd) \<and>
     (\<exists>playing. snd (reader_ctx (wav_reader w)) = opening @ playing \<and> within (unat (reader_size rd)) 2048 playing)"

lemma frame_read_inside:
  assumes "unat (block_align w) \<le> 8" and "wav_position w \<le> total_frames w"
    and "unat (data_offset w) + unat (total_frames w) * unat (block_align w) \<le> unat (limit :: u64)"
  shows "unat (data_offset w + wav_position w * ucast (block_align w)) + unat (wav_take w cap) * unat (block_align w) \<le> unat limit"
    and "unat (wav_take w cap) * unat (block_align w) \<le> 2048" and "wav_position w + ucast (wav_take w cap) \<le> total_frames w"
proof -
  note t = wav_take_min [OF assms(2), of cap]
  have p: "unat (wav_position w) + unat (wav_take w cap) \<le> unat (total_frames w)" using assms(2) t by (simp add: word_le_nat_alt)
  then have "(unat (wav_position w) + unat (wav_take w cap)) * unat (block_align w) \<le> unat (total_frames w) * unat (block_align w)"
    by (rule mult_le_mono1)
  then have b: "unat (data_offset w) + (unat (wav_position w) + unat (wav_take w cap)) * unat (block_align w) \<le> unat limit"
    using assms(3) by linarith
  have "unat limit < 2 ^ 64" using unsigned_less [where ?'a = nat and w = limit] by simp
  then have "unat (data_offset w) + unat (wav_position w) * unat (block_align w) < 2 ^ 64" using b by (simp add: algebra_simps)
  then have "unat (data_offset w + wav_position w * ucast (block_align w)) = unat (data_offset w) + unat (wav_position w) * unat (block_align w)"
    by (simp add: unat_word_ariths unat_ucast_up)
  then show "unat (data_offset w + wav_position w * ucast (block_align w)) + unat (wav_take w cap) * unat (block_align w) \<le> unat limit"
    using b by (simp add: algebra_simps)
  have "unat (wav_take w cap) * unat (block_align w) \<le> 256 * 8" using assms(1) t by (intro mult_le_mono) auto
  then show "unat (wav_take w cap) * unat (block_align w) \<le> 2048" by simp
  have "unat (wav_position w) + unat (ucast (wav_take w cap) :: u64) < 2 ^ 64"
    using p unsigned_less [where ?'a = nat and w = "total_frames w"] by (simp add: unat_ucast_up)
  then show "wav_position w + ucast (wav_take w cap) \<le> total_frames w"
    using p unat_add_lem [of "wav_position w" "ucast (wav_take w cap)"] by (simp add: word_le_nat_alt unat_ucast_up)
qed

lemma wav_apply_inside:
  assumes "reads_inside rd opening w"
  shows "reads_inside rd opening (wav_apply call w)"
proof (cases call)
  case (WavSeek frame)
  then show ?thesis using assms by (auto simp: seek_frame_def reads_inside_def)
next
  case (WavRead dst cap)
  have a: "unat (block_align w) \<le> 8" "wav_position w \<le> total_frames w"
      "unat (data_offset w) + unat (total_frames w) * unat (block_align w) \<le> unat (reader_size rd)"
      "read_at (wav_reader w) = read_at (logged_reader rd)"
    using assms by (simp_all add: reads_inside_def)
  obtain c playing where p: "reader_ctx (wav_reader w) = (c, opening @ playing)" "within (unat (reader_size rd)) 2048 playing"
    using assms by (cases "reader_ctx (wav_reader w)") (auto simp: reads_inside_def)
  let ?off = "data_offset w + wav_position w * ucast (block_align w)" and ?n = "unat (wav_take w cap) * unat (block_align w)"
  note F = frame_read_inside [OF a(1-3), of cap]
  obtain rc bytes ctx where r: "read_at rd c ?off ?n = (rc, bytes, ctx)" by (metis prod_cases3)
  have "within (unat (reader_size rd)) 2048 (playing @ [(?off, ?n)])" using p(2) F by (simp add: within_def)
  moreover have "read_at (wav_reader w) (reader_ctx (wav_reader w)) ?off ?n = (rc, bytes, ctx, opening @ playing @ [(?off, ?n)])"
    by (simp add: a(4) p(1) logged_read r)
  ultimately show ?thesis using assms a F(3) WavRead
    by (auto simp: read_frames_def Let_def reads_inside_def)
qed

text \<open>
  C28: No file makes the source read outside it. For every reader, whatever bytes it returns, opening a file asks
  only for bytes inside the file and at most the 16 bytes of its header buffer at a time, whether it succeeds or not; and when it succeeds, every sequence of frame reads and
  seeks asks only for bytes inside the file and at most the 2048 bytes of the scratch buffer. The reads are those
  of \<open>read_at\<close>, recorded by the reader.
\<close>

theorem wav_reads_in_bounds:
  assumes "eaf_wav_open (logged_reader rd) = (rc, (ctx, opening), opened)"
  shows "within (unat (reader_size rd)) 16 opening \<and>
    (case opened of None \<Rightarrow> True | Some w \<Rightarrow> \<exists>playing. snd (reader_ctx (wav_reader (fold wav_apply calls w))) = opening @ playing \<and>
       within (unat (reader_size rd)) 2048 playing)"
proof (cases opened)
  case (Some w)
  have "rc = EAF_OK" and w: "wav_reader w = (logged_reader rd)\<lparr>reader_ctx := (ctx, opening)\<rparr>" "wav_position w = 0"
    using assms Some unfolding eaf_wav_open_def Let_def by (auto split: if_split_asm prod.splits)
  note O = opened_shape [OF assms [unfolded Some \<open>rc = EAF_OK\<close>]]
  have "reads_inside rd opening w"
    using O w by (auto simp: reads_inside_def wav_shape_def within_def logged_reader_def)
  then have "reads_inside rd opening (fold wav_apply calls w)"
    by (induction calls arbitrary: w) (simp_all add: wav_apply_inside)
  then show ?thesis using open_within [OF assms] Some by (auto simp: reads_inside_def)
qed (use open_within [OF assms] in simp)

text \<open>A file of floating-point samples is refused after its format chunk has been read.\<close>

definition float_wav :: "u8 list" where
  "float_wav = [82, 73, 70, 70, 28, 0, 0, 0, 87, 65, 86, 69, 102, 109, 116, 32, 16, 0, 0, 0,
     3, 0, 2, 0, 64, 31, 0, 0, 0, 250, 0, 0, 8, 0, 32, 0]"

theorem wav_reads_in_bounds_witness:
  "eaf_wav_open (logged_reader (file_reader float_wav)) = (EAF_UNSUPPORTED, ((), [(0, 12), (12, 8), (20, 16)]), None) \<and>
   within (unat (reader_size (file_reader float_wav))) 16 [(0, 12), (12, 8), (20, 16)]"
proof -
  let ?r = "eaf_wav_open (logged_reader (file_reader float_wav))"
  have "fst ?r = EAF_UNSUPPORTED" "snd (fst (snd ?r)) = [(0, 12), (12, 8), (20, 16)]" "Option.is_none (snd (snd ?r))"
    by code_simp+
  then have "?r = (EAF_UNSUPPORTED, ((), [(0, 12), (12, 8), (20, 16)]), None)"
    by (cases ?r) (auto simp: Option.is_none_def)
  with wav_reads_in_bounds [OF this, of "[]"] show ?thesis by simp
qed

end
