(* ===== verification/Sendspin_JSON.thy ===== *)
theory Sendspin_JSON
  imports EAF_Bytes EAF_Types "HOL-Library.Sublist"
begin

text \<open>
  \<open>apps/sendspin/sendspin_protocol.c\<close>, lines 1 to 424: the bounded JSON reader. The cursor
  \<open>cursor_t\<close> is the text between \<open>p\<close> and \<open>end\<close>; a view (pointer and length) is the
  substring it denotes. A scanner returns \<open>None\<close> where the code returns \<open>EAF_INVALID\<close>.
  The theory shows that every scanner only moves forward inside the text, that compact JSON
  is read back (\<open>skip_value\<close>, \<open>parse_value\<close> and the path lookup agree with a reference
  tree), and one input class on which the reader is stricter than JSON.
\<close>

section \<open>Scanning\<close>

type_synonym cursor_t = string

definition is_ws :: "char \<Rightarrow> bool" where
  "is_ws x \<longleftrightarrow> x = CHR '' '' \<or> x = CHR 0x09 \<or> x = CHR 0x0A \<or> x = CHR 0x0D"

definition skip_ws :: "cursor_t \<Rightarrow> cursor_t" where
  "skip_ws c = dropWhile is_ws c"

text \<open>The loop of \<open>scan_string\<close>: the view collected and the cursor behind the closing quote.\<close>

fun scan_string_body :: "cursor_t \<Rightarrow> (string \<times> cursor_t) option" where
  "scan_string_body [] = None"
| "scan_string_body (x # c) =
     (if x = CHR 0x5C then
        (case c of [] \<Rightarrow> None | y # c' \<Rightarrow> map_option (\<lambda>(s, r). (x # y # s, r)) (scan_string_body c'))
      else if x = CHR 0x22 then Some ([], c)
      else map_option (\<lambda>(s, r). (x # s, r)) (scan_string_body c))"

definition scan_string :: "cursor_t \<Rightarrow> (string \<times> cursor_t) option" where
  "scan_string c = (case c of x # r \<Rightarrow> if x = CHR 0x22 then scan_string_body r else None | [] \<Rightarrow> None)"

definition match_literal :: "cursor_t \<Rightarrow> string \<Rightarrow> cursor_t option" where
  "match_literal c lit =
     (let n = length lit in if length c < n \<or> take n c \<noteq> lit then None else Some (drop n c))"

definition skip_digits :: "cursor_t \<Rightarrow> cursor_t" where
  "skip_digits c = dropWhile is_digit c"

definition at :: "(char \<Rightarrow> bool) \<Rightarrow> cursor_t \<Rightarrow> bool" where
  "at P c \<longleftrightarrow> c \<noteq> [] \<and> P (hd c)"

definition skip_opt :: "(char \<Rightarrow> bool) \<Rightarrow> cursor_t \<Rightarrow> cursor_t" where
  "skip_opt P c = (if at P c then tl c else c)"

definition skip_number :: "cursor_t \<Rightarrow> cursor_t option" where
  "skip_number c0 =
     (let c1 = skip_opt (\<lambda>x. x = CHR ''-'') c0
      in if \<not> at is_digit c1 then None
         else let c2 = skip_digits c1;
                  c3 = (if at (\<lambda>x. x = CHR ''.'') c2 then skip_digits (tl c2) else c2)
              in if at (\<lambda>x. x = CHR ''e'' \<or> x = CHR ''E'') c3
                 then Some (skip_digits (skip_opt (\<lambda>x. x = CHR ''+'' \<or> x = CHR ''-'') (tl c3)))
                 else Some c3)"

text \<open>
  Every scanner returns a suffix of the text it is given: the cursor never leaves the text
  and never moves backwards. The recursive scanners need this to terminate.
\<close>

named_theorems json_suffix \<open>scanners return suffixes of their text\<close>

lemma skip_ws_suffix [json_suffix]: "suffix (skip_ws c) c"
  by (simp add: skip_ws_def suffix_dropWhile)

lemma skip_digits_suffix [json_suffix]: "suffix (skip_digits c) c"
  by (simp add: skip_digits_def suffix_dropWhile)

lemma skip_opt_suffix [json_suffix]: "suffix (skip_opt P c) c"
  by (simp add: skip_opt_def)

lemma at_tl_length: "at P c \<Longrightarrow> length (tl c) < length c"
  by (cases c) (simp_all add: at_def)

lemma scan_string_body_suffix: "scan_string_body c = Some (s, r) \<Longrightarrow> c = s @ CHR 0x22 # r"
  by (induction c arbitrary: s r rule: scan_string_body.induct)
     (auto split: if_splits list.splits)

lemma scan_string_view: "scan_string c = Some (s, r) \<Longrightarrow> c = CHR 0x22 # s @ CHR 0x22 # r"
  by (auto simp: scan_string_def split: list.splits if_splits dest!: scan_string_body_suffix)

lemma scan_string_suffix [json_suffix]: "scan_string c = Some (s, r) \<Longrightarrow> suffix r c"
  by (rule suffixI [of _ "CHR 0x22 # s @ [CHR 0x22]"]) (simp add: scan_string_view)

lemma match_literal_suffix [json_suffix]: "match_literal c lit = Some r \<Longrightarrow> suffix r c"
  by (auto simp: match_literal_def Let_def suffix_drop split: if_splits)

lemma skip_number_suffix [json_suffix]:
  assumes "skip_number c = Some r"
  shows "suffix r c"
proof -
  let ?c1 = "skip_opt (\<lambda>x. x = CHR ''-'') c"
  let ?c3 = "if at (\<lambda>x. x = CHR ''.'') (skip_digits ?c1) then skip_digits (tl (skip_digits ?c1)) else skip_digits ?c1"
  have "suffix (skip_digits ?c1) c" by (rule suffix_order.trans [OF skip_digits_suffix skip_opt_suffix])
  moreover have "suffix ?c3 (skip_digits ?c1)"
    using suffix_order.trans [OF skip_digits_suffix suffix_tl] by auto
  ultimately have c3: "suffix ?c3 c" by (rule suffix_order.trans [rotated])
  have "suffix (skip_digits (skip_opt P (tl ?c3))) ?c3" for P
    by (rule suffix_order.trans [OF skip_digits_suffix suffix_order.trans [OF skip_opt_suffix suffix_tl]])
  with c3 have "suffix (skip_digits (skip_opt P (tl ?c3))) c" for P by (blast intro: suffix_order.trans)
  with c3 assms show ?thesis
    unfolding skip_number_def Let_def by (simp only: option.inject split: if_split_asm) auto
qed

function (sequential) skip_value :: "cursor_t \<Rightarrow> cursor_t option"
  and skip_object :: "cursor_t \<Rightarrow> cursor_t option"
  and skip_object_loop :: "cursor_t \<Rightarrow> cursor_t option"
  and skip_array :: "cursor_t \<Rightarrow> cursor_t option"
  and skip_array_loop :: "cursor_t \<Rightarrow> cursor_t option"
where
  "skip_value c0 =
     (let c = skip_ws c0
      in if c = [] then None
         else if hd c = CHR ''{'' then skip_object c
         else if hd c = CHR ''['' then skip_array c
         else if hd c = CHR 0x22 then map_option snd (scan_string c)
         else if hd c = CHR ''t'' then match_literal c ''true''
         else if hd c = CHR ''f'' then match_literal c ''false''
         else if hd c = CHR ''n'' then match_literal c ''null''
         else skip_number c)"
| "skip_object c0 =
     (if c0 = [] then None
      else let c = skip_ws (tl c0)
           in if at (\<lambda>x. x = CHR ''}'') c then Some (tl c) else skip_object_loop c)"
| "skip_object_loop c0 =
     (case scan_string c0 of None \<Rightarrow> None
      | Some (key, c1) \<Rightarrow>
        let c2 = skip_ws c1
        in if \<not> at (\<lambda>x. x = CHR '':'') c2 then None
           else (case skip_value (tl c2) of None \<Rightarrow> None
             | Some c3 \<Rightarrow>
               let c4 = skip_ws c3
               in if c4 = [] then None
                  else if hd c4 = CHR '','' then skip_object_loop (tl c4)
                  else if hd c4 = CHR ''}'' then Some (tl c4)
                  else None))"
| "skip_array c0 =
     (if c0 = [] then None
      else let c = skip_ws (tl c0)
           in if at (\<lambda>x. x = CHR '']'') c then Some (tl c) else skip_array_loop c)"
| "skip_array_loop c0 =
     (case skip_value c0 of None \<Rightarrow> None
      | Some c3 \<Rightarrow>
        let c4 = skip_ws c3
        in if c4 = [] then None
           else if hd c4 = CHR '','' then skip_array_loop (tl c4)
           else if hd c4 = CHR '']'' then Some (tl c4)
           else None)"
  by pat_completeness auto

lemma suffix_of_ws: "suffix r (skip_ws c) \<Longrightarrow> suffix r c"
  by (rule suffix_order.trans [OF _ skip_ws_suffix])

lemma suffix_of_tl: "suffix r (tl c) \<Longrightarrow> suffix r c"
  by (rule suffix_order.trans [OF _ suffix_tl])

lemma suffix_after_ws: "suffix r c \<Longrightarrow> suffix (tl (skip_ws r)) c"
  by (blast intro: suffix_order.trans suffix_of_ws suffix_tl)

lemma skip_partial_suffix:
  "skip_value_skip_object_skip_object_loop_skip_array_skip_array_loop_dom (Inl (Inl c)) \<Longrightarrow>
     \<forall>r. skip_value c = Some r \<longrightarrow> suffix r c"
  "skip_value_skip_object_skip_object_loop_skip_array_skip_array_loop_dom (Inl (Inr c)) \<Longrightarrow>
     \<forall>r. skip_object c = Some r \<longrightarrow> suffix r c"
  "skip_value_skip_object_skip_object_loop_skip_array_skip_array_loop_dom (Inr (Inl c)) \<Longrightarrow>
     \<forall>r. skip_object_loop c = Some r \<longrightarrow> suffix r c"
  "skip_value_skip_object_skip_object_loop_skip_array_skip_array_loop_dom (Inr (Inr (Inl c))) \<Longrightarrow>
     \<forall>r. skip_array c = Some r \<longrightarrow> suffix r c"
  "skip_value_skip_object_skip_object_loop_skip_array_skip_array_loop_dom (Inr (Inr (Inr c))) \<Longrightarrow>
     \<forall>r. skip_array_loop c = Some r \<longrightarrow> suffix r c"
proof (induction c and c and c and c and c
    rule: skip_value_skip_object_skip_object_loop_skip_array_skip_array_loop.pinduct)
  case (1 c)
  have "suffix r (skip_ws c)" if "skip_value c = Some r" for r
    using that "1.IH" [OF refl]
    by (auto simp: skip_value.psimps [OF 1(1)] Let_def split: if_splits
        dest: scan_string_suffix match_literal_suffix skip_number_suffix)
  then show ?case by (blast intro: suffix_of_ws)
next
  case (2 c)
  have "suffix r (skip_ws (tl c))" if "skip_object c = Some r" for r
    using that "2.IH" [OF _ refl] by (auto simp: skip_object.psimps [OF 2(1)] Let_def split: if_splits)
  then show ?case by (blast intro: suffix_of_ws suffix_of_tl)
next
  case (3 c)
  show ?case
  proof (intro allI impI)
    fix r assume r: "skip_object_loop c = Some r"
    then obtain key c1 c3 where c1: "scan_string c = Some (key, c1)" "at (\<lambda>x. x = CHR '':'') (skip_ws c1)"
        "skip_value (tl (skip_ws c1)) = Some c3" "skip_ws c3 \<noteq> []"
        "hd (skip_ws c3) = CHR '','' \<and> skip_object_loop (tl (skip_ws c3)) = Some r \<or>
         hd (skip_ws c3) \<noteq> CHR '','' \<and> r = tl (skip_ws c3)"
      by (auto simp: skip_object_loop.psimps [OF 3(1)] Let_def split: option.splits if_splits)
    have "suffix c3 (tl (skip_ws c1))" using 3(2) [OF c1(1) refl refl] c1(2,3) by simp
    then have c: "suffix c3 c"
      using suffix_after_ws [OF scan_string_suffix [OF c1(1)]] by (rule suffix_order.trans)
    have "suffix r (tl (skip_ws c3))"
      using c1(5) 3(3) [OF c1(1) refl refl _ c1(3) refl c1(4)] c1(2) by auto
    then show "suffix r c" using suffix_after_ws [OF c] by (rule suffix_order.trans)
  qed
next
  case (4 c)
  have "suffix r (skip_ws (tl c))" if "skip_array c = Some r" for r
    using that "4.IH" [OF _ refl] by (auto simp: skip_array.psimps [OF 4(1)] Let_def split: if_splits)
  then show ?case by (blast intro: suffix_of_ws suffix_of_tl)
next
  case (5 c)
  show ?case
  proof (intro allI impI)
    fix r assume r: "skip_array_loop c = Some r"
    then obtain c3 where c3: "skip_value c = Some c3" "skip_ws c3 \<noteq> []"
        "hd (skip_ws c3) = CHR '','' \<and> skip_array_loop (tl (skip_ws c3)) = Some r \<or>
         hd (skip_ws c3) \<noteq> CHR '','' \<and> r = tl (skip_ws c3)"
      by (auto simp: skip_array_loop.psimps [OF 5(1)] Let_def split: option.splits if_splits)
    have c: "suffix c3 c" using 5(2) c3(1) by simp
    have "suffix r (tl (skip_ws c3))" using c3(3) 5(3) [OF c3(1) refl c3(2)] by auto
    then show "suffix r c" using suffix_after_ws [OF c] by (rule suffix_order.trans)
  qed
qed

lemma after_ws_shorter: "skip_ws c \<noteq> [] \<Longrightarrow> length (tl (skip_ws c)) < length c"
  using suffix_length_le [OF skip_ws_suffix [of c]] by (cases "skip_ws c") auto

lemma skip_terminates: "All skip_value_skip_object_skip_object_loop_skip_array_skip_array_loop_dom"
proof (relation "inv_image (less_than <*lex*> less_than)
    (case_sum (case_sum (\<lambda>c. (length c, 1)) (\<lambda>c. (length c, 0)))
       (case_sum (\<lambda>c. (length c, 0)) (case_sum (\<lambda>c. (length c, 0)) (\<lambda>c. (length c, 2)))))", goal_cases)
  case 1
  show ?case by (simp add: wf_inv_image wf_lex_prod)
next
  case (2 c x)
  then show ?case using suffix_length_le [OF skip_ws_suffix [of c]] by auto
next
  case (3 c x)
  then show ?case using suffix_length_le [OF skip_ws_suffix [of c]] by auto
next
  case (4 c x)
  then have "length (skip_ws (tl c)) < length c"
    using suffix_length_le [OF skip_ws_suffix [of "tl c"]] by (cases c) auto
  with 4 show ?case by simp
next
  case (5 c x2 key c1 c2)
  then have "length c1 \<le> length c" "length (tl (skip_ws c1)) < length c1"
    using suffix_length_le [OF scan_string_suffix] after_ws_shorter by (auto simp: at_def)
  with 5 show ?case by simp
next
  case (6 c x2 key c1 c2 c3 c4)
  then have a: "length c1 \<le> length c" "length (tl (skip_ws c1)) < length c1"
    using suffix_length_le [OF scan_string_suffix] after_ws_shorter by (auto simp: at_def)
  have "suffix c3 (tl (skip_ws c1))" using 6 by (auto dest!: skip_partial_suffix(1))
  then have "length c3 \<le> length (tl (skip_ws c1))" by (rule suffix_length_le)
  with 6 a after_ws_shorter [of c3] show ?case by simp
next
  case (7 c x)
  then have "length (skip_ws (tl c)) < length c"
    using suffix_length_le [OF skip_ws_suffix [of "tl c"]] by (cases c) auto
  with 7 show ?case by simp
next
  case (8 c)
  then show ?case by simp
next
  case (9 c c3 c4)
  then have "length c3 \<le> length c" using 9
    by (auto dest!: skip_partial_suffix(1) dest: suffix_length_le)
  with 9 after_ws_shorter [of c3] show ?case by simp
qed

termination skip_value
  by (rule skip_terminates)

declare skip_value.simps [simp del] skip_object.simps [simp del] skip_object_loop.simps [simp del]
  skip_array.simps [simp del] skip_array_loop.simps [simp del]

lemmas skip_suffixes = skip_partial_suffix
  [OF skip_terminates [THEN spec], THEN spec, THEN mp]

lemmas skip_value_suffix [json_suffix] = skip_suffixes(1)
lemmas skip_object_suffix [json_suffix] = skip_suffixes(2)
lemmas skip_array_suffix [json_suffix] = skip_suffixes(4)

section \<open>Values\<close>

datatype eaf_sendspin_json_type_t =
    EAF_SENDPIN_JSON_NULL | EAF_SENDPIN_JSON_BOOL | EAF_SENDPIN_JSON_NUMBER
  | EAF_SENDPIN_JSON_STRING | EAF_SENDPIN_JSON_ARRAY | EAF_SENDPIN_JSON_OBJECT

record eaf_sendspin_json_value_t =
  json_type :: eaf_sendspin_json_type_t
  boolean :: bool
  number :: int
  json_string :: string
  raw :: string

definition zero_json :: eaf_sendspin_json_value_t where
  "zero_json = \<lparr>json_type = EAF_SENDPIN_JSON_NULL, boolean = False, number = 0, json_string = [], raw = []\<rparr>"

definition INT64_MAX :: int where "INT64_MAX = 9223372036854775807"

definition INT64_MIN :: int where "INT64_MIN = - 9223372036854775808"

fun number_digits :: "cursor_t \<Rightarrow> u64 \<Rightarrow> bool \<Rightarrow> u64 \<times> bool \<times> cursor_t" where
  "number_digits [] magnitude overflow = (magnitude, overflow, [])"
| "number_digits (x # p) magnitude overflow =
     (if is_digit x
      then let digit = of_nat (of_char x - 48) :: u64
           in if \<not> overflow
              then if magnitude > (- 1 - digit) div 10 then number_digits p magnitude True
                   else number_digits p (magnitude * 10 + digit) overflow
              else number_digits p magnitude overflow
      else (magnitude, overflow, x # p))"

definition parse_number :: "cursor_t \<Rightarrow> (int \<times> cursor_t) option" where
  "parse_number c =
     (let negative = at (\<lambda>x. x = CHR ''-'') c;
          p = (if negative then tl c else c)
      in if \<not> at is_digit p then None
         else let (magnitude, overflow, p) = number_digits p 0 False
              in if at (\<lambda>x. x = CHR ''.'' \<or> x = CHR ''e'' \<or> x = CHR ''E'') p then None
                 else Some
                   (if negative
                    then if overflow \<or> magnitude > 9223372036854775808 then INT64_MIN
                         else i64 (uint (0 - magnitude))
                    else if overflow \<or> magnitude > 9223372036854775807 then INT64_MAX
                    else i64 (uint magnitude), p))"

definition parse_value :: "cursor_t \<Rightarrow> (eaf_sendspin_json_value_t \<times> cursor_t) option" where
  "parse_value c0 =
     (let c = skip_ws c0;
          done_at = (\<lambda>v c'. Some (v\<lparr>raw := take (length c - length c') c\<rparr>, c'))
      in if c = [] then None
         else if hd c = CHR ''{'' then
           Option.bind (skip_object c) (done_at (zero_json\<lparr>json_type := EAF_SENDPIN_JSON_OBJECT\<rparr>))
         else if hd c = CHR ''['' then
           Option.bind (skip_array c) (done_at (zero_json\<lparr>json_type := EAF_SENDPIN_JSON_ARRAY\<rparr>))
         else if hd c = CHR 0x22 then
           Option.bind (scan_string c)
             (\<lambda>(s, c'). done_at (zero_json\<lparr>json_type := EAF_SENDPIN_JSON_STRING, json_string := s\<rparr>) c')
         else if hd c = CHR ''t'' then
           Option.bind (match_literal c ''true'')
             (done_at (zero_json\<lparr>json_type := EAF_SENDPIN_JSON_BOOL, boolean := True\<rparr>))
         else if hd c = CHR ''f'' then
           Option.bind (match_literal c ''false'') (done_at (zero_json\<lparr>json_type := EAF_SENDPIN_JSON_BOOL\<rparr>))
         else if hd c = CHR ''n'' then
           Option.bind (match_literal c ''null'') (done_at zero_json)
         else
           Option.bind (parse_number c)
             (\<lambda>(n, c'). done_at (zero_json\<lparr>json_type := EAF_SENDPIN_JSON_NUMBER, number := n\<rparr>) c'))"

text \<open>
  \<open>parse_array_membership\<close>: the flag is reported even when the scan fails
  (\<open>eaf_sendspin_json_array_contains\<close> ignores the result code).
\<close>

lemma skip_value_length: "skip_value c = Some r \<Longrightarrow> length r \<le> length c"
  by (rule suffix_length_le [OF skip_value_suffix])

lemma scan_string_length: "scan_string c = Some (s, r) \<Longrightarrow> length r < length c"
  by (drule scan_string_view) simp

definition array_element :: "string \<Rightarrow> bool \<Rightarrow> cursor_t \<Rightarrow> (bool \<times> cursor_t) option" where
  "array_element needle member c =
     (if at (\<lambda>x. x = CHR 0x22) c
      then map_option (\<lambda>(element, c'). (member \<or> element = needle, c')) (scan_string c)
      else map_option (\<lambda>c'. (member, c')) (skip_value c))"

lemma array_element_length: "array_element needle m c = Some (m', r) \<Longrightarrow> length r \<le> length c"
  by (auto simp: array_element_def split: if_splits dest: scan_string_length skip_value_length)

function membership_loop :: "string \<Rightarrow> bool \<Rightarrow> cursor_t \<Rightarrow> bool \<times> cursor_t option" where
  "membership_loop needle member c0 =
     (case array_element needle member (skip_ws c0) of None \<Rightarrow> (member, None)
      | Some (member, c3) \<Rightarrow>
        let c4 = skip_ws c3
        in if c4 = [] then (member, None)
           else if hd c4 = CHR '','' then membership_loop needle member (tl c4)
           else if hd c4 = CHR '']'' then (member, Some (tl c4))
           else (member, None))"
  by pat_completeness auto
termination
proof (relation "measure (\<lambda>(needle, member, c). length c)", goal_cases)
  case (2 needle member c x m c3 c4)
  then have "length c3 \<le> length (skip_ws c)" by (auto dest!: array_element_length)
  also have "\<dots> \<le> length c" by (rule suffix_length_le [OF skip_ws_suffix])
  finally show ?case using 2 after_ws_shorter [of c3] by simp
qed simp

definition parse_array_membership :: "cursor_t \<Rightarrow> string \<Rightarrow> bool \<Rightarrow> bool \<times> cursor_t option" where
  "parse_array_membership c0 needle member =
     (let c = skip_ws c0
      in if \<not> at (\<lambda>x. x = CHR ''['') c then (False, skip_value c)
         else let c = skip_ws (tl c)
              in if at (\<lambda>x. x = CHR '']'') c then (member, Some (tl c))
                 else membership_loop needle member c)"

section \<open>Objects\<close>

text \<open>
  A field asked for: with a \<open>needle\<close> its value is an array searched for that element, without
  one the value is stored.
\<close>

record json_field_t =
  field_key :: string
  needle :: "string option"
  field_value :: eaf_sendspin_json_value_t
  member :: bool
  found :: bool

definition value_field :: "string \<Rightarrow> json_field_t" where
  "value_field key = \<lparr>field_key = key, needle = None, field_value = zero_json, member = False, found = False\<rparr>"

definition needle_field :: "string \<Rightarrow> string \<Rightarrow> json_field_t" where
  "needle_field key n = \<lparr>field_key = key, needle = Some n, field_value = zero_json, member = False, found = False\<rparr>"

fun match_field :: "string \<Rightarrow> json_field_t list \<Rightarrow> nat option" where
  "match_field key [] = None"
| "match_field key (f # fs) =
     (if \<not> found f \<and> field_key f = key then Some 0 else map_option Suc (match_field key fs))"

definition scan_member :: "string \<Rightarrow> json_field_t list \<Rightarrow> cursor_t \<Rightarrow> (json_field_t list \<times> cursor_t) option" where
  "scan_member key fs c =
     (case match_field key fs of
        None \<Rightarrow> map_option (\<lambda>c'. (fs, c')) (skip_value c)
      | Some i \<Rightarrow>
        let f = (fs ! i)\<lparr>found := True\<rparr>
        in (case needle f of
              Some n \<Rightarrow> (case parse_array_membership c n (member f) of
                  (m, Some c') \<Rightarrow> Some (fs[i := f\<lparr>member := m\<rparr>], c')
                | (m, None) \<Rightarrow> None)
            | None \<Rightarrow> map_option (\<lambda>(v, c'). (fs[i := f\<lparr>field_value := v\<rparr>], c')) (parse_value c)))"

lemma membership_length: "membership_loop n m c = (m', Some r) \<Longrightarrow> length r \<le> length c"
proof (induction n m c rule: membership_loop.induct)
  case (1 n m c)
  obtain m2 c3 where e: "array_element n m (skip_ws c) = Some (m2, c3)"
    using "1.prems" by (subst (asm) membership_loop.simps) (auto split: option.splits)
  have "length c3 \<le> length c"
    using array_element_length [OF e] suffix_length_le [OF skip_ws_suffix [of c]] by linarith
  then show ?case
    using "1.prems" "1.IH" [OF e refl refl] after_ws_shorter [of c3]
    by (subst (asm) membership_loop.simps) (auto simp: e Let_def split: if_splits)
qed

lemma parse_membership_length:
  assumes "parse_array_membership c n m = (m', Some r)"
  shows "length r \<le> length c"
proof -
  have ws: "length (skip_ws c) \<le> length c" and ws2: "length (skip_ws (tl (skip_ws c))) \<le> length c"
    using suffix_length_le [OF skip_ws_suffix] suffix_length_le [OF suffix_of_ws [OF suffix_of_tl [OF skip_ws_suffix]]]
    by blast+
  then show ?thesis using assms skip_value_length [of "skip_ws c" r] membership_length [of n m "skip_ws (tl (skip_ws c))" m' r]
    by (auto simp: parse_array_membership_def Let_def split: if_splits)
qed

lemma number_digits_suffix: "number_digits p mg ov = (mg', ov', r) \<Longrightarrow> suffix r p"
  by (induction p mg ov rule: number_digits.induct) (auto simp: Let_def suffix_Cons split: if_splits)

lemma parse_number_suffix [json_suffix]: "parse_number c = Some (n, r) \<Longrightarrow> suffix r c"
  by (auto simp: parse_number_def Let_def split: if_splits prod.splits dest!: number_digits_suffix intro: suffix_of_tl)

lemma parse_value_suffix [json_suffix]:
  assumes "parse_value c = Some (v, r)"
  shows "suffix r c"
proof (rule suffix_of_ws)
  show "suffix r (skip_ws c)" using assms
    by (auto simp: parse_value_def Let_def bind_eq_Some_conv split: if_splits prod.splits
        dest: scan_string_suffix skip_object_suffix skip_array_suffix match_literal_suffix parse_number_suffix)
qed

lemma scan_member_length: "scan_member key fs c = Some (fs', r) \<Longrightarrow> length r \<le> length c"
  by (auto simp: scan_member_def Let_def split: option.splits prod.splits
      dest: skip_value_length parse_membership_length suffix_length_le [OF parse_value_suffix])

function scan_fields_loop :: "json_field_t list \<Rightarrow> cursor_t \<Rightarrow> (json_field_t list \<times> cursor_t) option" where
  "scan_fields_loop fs c0 =
     (let c = skip_ws c0
      in if c = [] then None
         else if hd c = CHR ''}'' then Some (fs, tl c)
         else (case scan_string c of None \<Rightarrow> None
           | Some (key, c1) \<Rightarrow>
             let c2 = skip_ws c1
             in if \<not> at (\<lambda>x. x = CHR '':'') c2 then None
                else (case scan_member key fs (tl c2) of None \<Rightarrow> None
                  | Some (fs, c3) \<Rightarrow>
                    let c4 = skip_ws c3
                    in if c4 = [] then None
                       else if hd c4 = CHR '','' then scan_fields_loop fs (tl c4)
                       else if hd c4 = CHR ''}'' then Some (fs, tl c4)
                       else None)))"
  by pat_completeness auto
termination
proof (relation "measure (\<lambda>(fs, c). length c)", goal_cases)
  case (2 fs c0 c x key c1 c2 y fs' c3 c4)
  have "length (skip_ws c0) \<le> length c0" "length (skip_ws c1) \<le> length c1"
    using suffix_length_le [OF skip_ws_suffix] by blast+
  moreover have "length c1 < length (skip_ws c0)" using 2 by (auto dest: scan_string_length)
  moreover have "length c3 \<le> length (tl (skip_ws c1))" using 2 by (auto dest!: scan_member_length)
  ultimately show ?case using 2 after_ws_shorter [of c3] by simp
qed simp

definition scan_fields :: "cursor_t \<Rightarrow> json_field_t list \<Rightarrow> (json_field_t list \<times> cursor_t) option" where
  "scan_fields c0 fs =
     (let fs = map (\<lambda>f. f\<lparr>field_value := zero_json\<rparr>) fs;
          c = skip_ws c0
      in if \<not> at (\<lambda>x. x = CHR ''{'') c then None else scan_fields_loop fs (tl c))"

text \<open>
  \<open>descend\<close>: \<open>Inl\<close> is the result code of a failure; a leaf also yields its value.
\<close>

function descend_loop :: "string \<Rightarrow> bool \<Rightarrow> cursor_t \<Rightarrow> eaf_result_t + eaf_sendspin_json_value_t \<times> cursor_t" where
  "descend_loop segment leaf c0 =
     (let c = skip_ws c0
      in if c = [] then Inl EAF_INVALID
         else if hd c = CHR ''}'' then Inl EAF_UNSUPPORTED
         else (case scan_string c of None \<Rightarrow> Inl EAF_INVALID
           | Some (key, c1) \<Rightarrow>
             let c2 = skip_ws c1
             in if \<not> at (\<lambda>x. x = CHR '':'') c2 then Inl EAF_INVALID
                else if key = segment then
                  (if leaf then case parse_value (tl c2) of None \<Rightarrow> Inl EAF_INVALID | Some vc \<Rightarrow> Inr vc
                   else Inr (zero_json, tl c2))
                else (case skip_value (tl c2) of None \<Rightarrow> Inl EAF_INVALID
                  | Some c3 \<Rightarrow>
                    let c4 = skip_ws c3
                    in if c4 = [] then Inl EAF_INVALID
                       else if hd c4 = CHR '','' then descend_loop segment leaf (tl c4)
                       else if hd c4 = CHR ''}'' then Inl EAF_UNSUPPORTED
                       else Inl EAF_INVALID)))"
  by pat_completeness auto
termination
proof (relation "measure (\<lambda>(segment, leaf, c). length c)", goal_cases)
  case (2 segment leaf c0 c x key c1 c2 c3 c4)
  have "length (skip_ws c0) \<le> length c0" "length (skip_ws c1) \<le> length c1"
    using suffix_length_le [OF skip_ws_suffix] by blast+
  moreover have "length c1 < length (skip_ws c0)" using 2 by (auto dest: scan_string_length)
  moreover have "length c3 \<le> length (tl (skip_ws c1))" using 2 by (auto dest!: skip_value_length)
  ultimately show ?case using 2 after_ws_shorter [of c3] by simp
qed simp

definition descend :: "cursor_t \<Rightarrow> string \<Rightarrow> bool \<Rightarrow> eaf_result_t + eaf_sendspin_json_value_t \<times> cursor_t" where
  "descend c0 segment leaf =
     (let c = skip_ws c0
      in if \<not> at (\<lambda>x. x = CHR ''{'') c then Inl EAF_INVALID else descend_loop segment leaf (tl c))"

function json_get_loop :: "cursor_t \<Rightarrow> string \<Rightarrow> eaf_result_t + eaf_sendspin_json_value_t" where
  "json_get_loop c segment =
     (let name = takeWhile (\<lambda>x. x \<noteq> CHR ''.'') segment;
          rest = dropWhile (\<lambda>x. x \<noteq> CHR ''.'') segment;
          leaf = (rest = [])
      in (case descend c name leaf of Inl rc \<Rightarrow> Inl rc
          | Inr (v, c') \<Rightarrow> if leaf then Inr v else json_get_loop c' (tl rest)))"
  by pat_completeness auto
termination
proof (relation "measure (\<lambda>(c, segment). length segment)", goal_cases)
  case (2 c segment name rest leaf x v c')
  then have "length (tl rest) < length rest" by (cases rest) auto
  moreover have "length rest \<le> length segment" unfolding 2(2) by (rule length_dropWhile_le)
  ultimately show ?case by simp
qed simp

declare membership_loop.simps [simp del] scan_fields_loop.simps [simp del] descend_loop.simps [simp del]
  json_get_loop.simps [simp del]

definition eaf_sendspin_json_get ::
  "string option \<Rightarrow> string option \<Rightarrow> eaf_result_t + eaf_sendspin_json_value_t" where
  "eaf_sendspin_json_get json path =
     (case (json, path) of
        (Some json, Some path) \<Rightarrow> if path = [] then Inl EAF_INVALID else json_get_loop json path
      | _ \<Rightarrow> Inl EAF_INVALID)"

definition eaf_sendspin_json_array_contains :: "eaf_sendspin_json_value_t option \<Rightarrow> string option \<Rightarrow> int" where
  "eaf_sendspin_json_array_contains array elem =
     (case (array, elem) of
        (Some array, Some elem) \<Rightarrow>
          if json_type array \<noteq> EAF_SENDPIN_JSON_ARRAY then 0
          else if fst (parse_array_membership (raw array) elem False) then 1 else 0
      | _ \<Rightarrow> 0)"

definition eaf_sendspin_json_string_equals :: "eaf_sendspin_json_value_t option \<Rightarrow> string \<Rightarrow> bool" where
  "eaf_sendspin_json_string_equals v text =
     (case v of None \<Rightarrow> False
      | Some v \<Rightarrow> json_type v = EAF_SENDPIN_JSON_STRING \<and> json_string v = text)"

section \<open>Compact JSON\<close>

text \<open>
  A reference tree and its compact text, the form every implementation of the protocol may
  send: JSON without white space between tokens. A string of the tree is the body as it is
  written, escapes included. \<open>JNum\<close> is a number written as a 64-bit decimal integer; \<open>JLit\<close> is
  any number as written: its sign, digits, fraction, and exponent (mark, sign and digits).
\<close>

datatype json = JNull | JBool bool | JNum int
  | JLit bool string "string option" "(char \<times> string \<times> string) option"
  | JStr string | JArr "json list" | JObj "(string \<times> json) list"

definition print_number :: "bool \<Rightarrow> string \<Rightarrow> string option \<Rightarrow> (char \<times> string \<times> string) option \<Rightarrow> string" where
  "print_number neg ds frac ex =
     (if neg then ''-'' else []) @ ds @ (case frac of None \<Rightarrow> [] | Some f \<Rightarrow> CHR ''.'' # f) @
     (case ex of None \<Rightarrow> [] | Some (mark, sign, e) \<Rightarrow> mark # sign @ e)"

definition print_int :: "int \<Rightarrow> string" where
  "print_int n = (if n < 0 then CHR ''-'' # rev (dec_digits (of_int (- n))) else rev (dec_digits (of_int n)))"

definition print_string :: "string \<Rightarrow> string" where
  "print_string s = CHR 0x22 # s @ [CHR 0x22]"

fun print :: "json \<Rightarrow> string" and print_elems :: "json list \<Rightarrow> string"
  and print_members :: "(string \<times> json) list \<Rightarrow> string" where
  "print JNull = ''null''"
| "print (JBool b) = (if b then ''true'' else ''false'')"
| "print (JNum n) = print_int n"
| "print (JLit neg ds frac ex) = print_number neg ds frac ex"
| "print (JStr s) = print_string s"
| "print (JArr xs) = CHR ''['' # print_elems xs @ '']''"
| "print (JObj ms) = CHR ''{'' # print_members ms @ ''}''"
| "print_elems [] = []"
| "print_elems [x] = print x"
| "print_elems (x # y # xs) = print x @ CHR '','' # print_elems (y # xs)"
| "print_members [] = []"
| "print_members [(k, v)] = print_string k @ CHR '':'' # print v"
| "print_members ((k, v) # m # ms) = print_string k @ CHR '':'' # print v @ CHR '','' # print_members (m # ms)"

text \<open>
  The bodies of JSON strings, by their grammar: characters other than the quote and the
  backslash, and escapes, a backslash and the character it escapes. (JSON admits fewer: no
  control characters and only some escapes. The four digits of a Unicode escape are plain
  characters here.)
\<close>

inductive escaped :: "string \<Rightarrow> bool" where
  escaped_empty: "escaped []"
| escaped_plain: "x \<noteq> CHR 0x22 \<Longrightarrow> x \<noteq> CHR 0x5C \<Longrightarrow> escaped s \<Longrightarrow> escaped (x # s)"
| escaped_pair: "escaped s \<Longrightarrow> escaped (CHR 0x5C # y # s)"

inductive_simps escaped_Cons: "escaped (x # s)"

lemma escaped_Nil [simp, code]: "escaped [] = True"
  by (simp add: escaped_empty)

lemma escaped_code [code]:
  "escaped (x # s) =
     (if x = CHR 0x5C then (case s of [] \<Rightarrow> False | y # t \<Rightarrow> escaped t) else x \<noteq> CHR 0x22 \<and> escaped s)"
  by (auto simp: escaped_Cons split: list.splits)

text \<open>Numbers, by their grammar.\<close>

definition digits_ok :: "string \<Rightarrow> bool" where
  "digits_ok ds \<longleftrightarrow> ds \<noteq> [] \<and> list_all is_digit ds"

definition exponent_ok :: "char \<times> string \<times> string \<Rightarrow> bool" where
  "exponent_ok ex \<longleftrightarrow> (case ex of (mark, sign, e) \<Rightarrow>
     (mark = CHR ''e'' \<or> mark = CHR ''E'') \<and> (sign = [] \<or> sign = ''+'' \<or> sign = ''-'') \<and> digits_ok e)"

definition number_ok :: "string \<Rightarrow> string option \<Rightarrow> (char \<times> string \<times> string) option \<Rightarrow> bool" where
  "number_ok ds frac ex \<longleftrightarrow> digits_ok ds \<and>
     (case frac of None \<Rightarrow> True | Some f \<Rightarrow> digits_ok f) \<and> (case ex of None \<Rightarrow> True | Some e \<Rightarrow> exponent_ok e)"

text \<open>Well-formed trees, and the well-formed trees whose numbers are all 64-bit integers.\<close>

fun json_formed :: "json \<Rightarrow> bool" and elems_formed :: "json list \<Rightarrow> bool" and members_formed :: "(string \<times> json) list \<Rightarrow> bool" where
  "json_formed JNull = True"
| "json_formed (JBool b) = True"
| "json_formed (JNum n) = is_i64 n"
| "json_formed (JLit neg ds frac ex) = number_ok ds frac ex"
| "json_formed (JStr s) = escaped s"
| "json_formed (JArr xs) = elems_formed xs"
| "json_formed (JObj ms) = members_formed ms"
| "elems_formed [] = True"
| "elems_formed (x # xs) = (json_formed x \<and> elems_formed xs)"
| "members_formed [] = True"
| "members_formed ((k, v) # ms) = (escaped k \<and> json_formed v \<and> members_formed ms)"

fun json_ok :: "json \<Rightarrow> bool" and elems_ok :: "json list \<Rightarrow> bool" and members_ok :: "(string \<times> json) list \<Rightarrow> bool" where
  "json_ok JNull = True"
| "json_ok (JBool b) = True"
| "json_ok (JNum n) = is_i64 n"
| "json_ok (JLit neg ds frac ex) = False"
| "json_ok (JStr s) = escaped s"
| "json_ok (JArr xs) = elems_ok xs"
| "json_ok (JObj ms) = members_ok ms"
| "elems_ok [] = True"
| "elems_ok (x # xs) = (json_ok x \<and> elems_ok xs)"
| "members_ok [] = True"
| "members_ok ((k, v) # ms) = (escaped k \<and> json_ok v \<and> members_ok ms)"

definition delimited :: "string \<Rightarrow> bool" where
  "delimited rest \<longleftrightarrow> rest = [] \<or> hd rest = CHR '','' \<or> hd rest = CHR ''}'' \<or> hd rest = CHR '']'' \<or> is_ws (hd rest)"

lemma json_ok_formed:
  "json_ok j \<Longrightarrow> json_formed j" "elems_ok xs \<Longrightarrow> elems_formed xs" "members_ok ms \<Longrightarrow> members_formed ms"
  by (induction j and xs and ms rule: json_ok_elems_ok_members_ok.induct) simp_all

text \<open>The scanner of the code reads the grammar: it stops at the quote that closes the string.\<close>

lemma scan_escaped: "escaped s \<Longrightarrow> scan_string_body (s @ CHR 0x22 # rest) = Some (s, rest)"
  by (induction rule: escaped.induct) simp_all

lemma scan_printed_string: "escaped s \<Longrightarrow> scan_string (print_string s @ rest) = Some (s, rest)"
  by (simp add: scan_escaped scan_string_def print_string_def)

lemma delimited_Cons [simp]: "delimited (CHR '','' # r)" "delimited (CHR ''}'' # r)" "delimited (CHR '']'' # r)"
  by (simp_all add: delimited_def)

lemma delimited_not_digit: "delimited rest \<Longrightarrow> \<not> at is_digit rest"
  and delimited_not_number: "delimited rest \<Longrightarrow> \<not> at (\<lambda>x. x = CHR ''.'' \<or> x = CHR ''e'' \<or> x = CHR ''E'') rest"
  by (auto simp: delimited_def at_def is_digit_def is_ws_def)

subsection \<open>Numbers\<close>

lemma digit_overflow:
  fixes mg :: u64
  assumes "d < 10" and "unat mg * 10 + d < 2 ^ 64"
  shows "\<not> mg > (- 1 - of_nat d) div 10" and "unat (mg * 10 + of_nat d) = unat mg * 10 + d"
proof -
  have d: "unat (of_nat d :: u64) = d" using assms(1) by (simp add: unat_of_nat)
  have m: "unat (- 1 :: u64) = 2 ^ 64 - 1" by (simp add: unsigned_minus_1_eq_mask mask_eq_exp_minus_1)
  have "of_nat d \<le> (- 1 :: u64)" using assms(1) d m by (simp add: word_le_nat_alt)
  then have "unat (- 1 - of_nat d :: u64) = 2 ^ 64 - 1 - d" by (simp add: unat_sub d m)
  then have "unat ((- 1 - of_nat d :: u64) div 10) = (2 ^ 64 - 1 - d) div 10" by (simp add: unat_div)
  moreover have "unat mg \<le> (2 ^ 64 - 1 - d) div 10"
    using assms by (simp add: less_eq_div_iff_mult_less_eq)
  ultimately show "\<not> mg > (- 1 - of_nat d) div 10" by (simp add: word_less_nat_alt)
  show "unat (mg * 10 + of_nat d) = unat mg * 10 + d"
    using assms(2) d by (simp add: unat_word_ariths)
qed

definition dec_from :: "nat \<Rightarrow> string \<Rightarrow> nat" where
  "dec_from a s = foldl (\<lambda>a c. a * 10 + (of_char c - 48)) a s"

lemma dec_from_ge: "a \<le> dec_from a s"
proof (induction s arbitrary: a)
  case (Cons c s)
  have "a \<le> a * 10 + (of_char c - 48)" by simp
  also have "\<dots> \<le> dec_from (a * 10 + (of_char c - 48)) s" by (rule Cons.IH)
  finally show ?case by (simp add: dec_from_def)
qed (simp add: dec_from_def)

lemma digit_overflows:
  fixes mg :: u64
  assumes "d < 10" and "2 ^ 64 \<le> unat mg * 10 + d"
  shows "mg > (- 1 - of_nat d) div 10"
proof -
  have d: "unat (of_nat d :: u64) = d" using assms(1) by (simp add: unat_of_nat)
  have m: "unat (- 1 :: u64) = 2 ^ 64 - 1" by (simp add: unsigned_minus_1_eq_mask mask_eq_exp_minus_1)
  have "of_nat d \<le> (- 1 :: u64)" using assms(1) d m by (simp add: word_le_nat_alt)
  then have "unat (- 1 - of_nat d :: u64) = 2 ^ 64 - 1 - d" by (simp add: unat_sub d m)
  then have "unat ((- 1 - of_nat d :: u64) div 10) = (2 ^ 64 - 1 - d) div 10" by (simp add: unat_div)
  moreover have "(2 ^ 64 - 1 - d) div 10 < unat mg" using assms by (simp add: div_less_iff_less_mult)
  ultimately show ?thesis by (simp add: word_less_nat_alt)
qed

lemma number_digits_overflowed:
  "list_all is_digit ds \<Longrightarrow> \<not> at is_digit rest \<Longrightarrow> number_digits (ds @ rest) mg True = (mg, True, rest)"
proof (induction ds)
  case Nil
  then show ?case by (cases rest) (auto simp: at_def)
qed simp

lemma number_digits_all:
  assumes "list_all is_digit ds" and "\<not> at is_digit rest"
  shows "\<exists>mg'. number_digits (ds @ rest) mg False = (mg', 2 ^ 64 \<le> dec_from (unat mg) ds, rest) \<and>
    (dec_from (unat mg) ds < 2 ^ 64 \<longrightarrow> unat mg' = dec_from (unat mg) ds)"
  using assms
proof (induction ds arbitrary: mg)
  case Nil
  have "dec_from (unat mg) [] < 2 ^ 64" using unsigned_less [where ?'a = nat and w = mg] by (simp add: dec_from_def)
  then show ?case using Nil by (cases rest) (auto simp: at_def dec_from_def)
next
  case (Cons x ds)
  let ?d = "of_char x - 48 :: nat"
  have d: "?d < 10" using Cons.prems(1) by (auto simp: is_digit_def)
  have step: "dec_from (unat mg) (x # ds) = dec_from (unat mg * 10 + ?d) ds" by (simp add: dec_from_def)
  show ?case
  proof (cases "unat mg * 10 + ?d < 2 ^ 64")
    case True
    note D = digit_overflow [OF d True]
    show ?thesis using Cons.IH [of "mg * 10 + of_nat ?d"] Cons.prems D step by (simp add: Let_def)
  next
    case False
    then have "2 ^ 64 \<le> dec_from (unat mg) (x # ds)" using dec_from_ge [of "unat mg * 10 + ?d" ds] step by linarith
    moreover have "number_digits ((x # ds) @ rest) mg False = (mg, True, rest)"
      using digit_overflows [OF d, of mg] False Cons.prems number_digits_overflowed [of ds rest mg]
      by (simp add: Let_def)
    ultimately show ?thesis by simp
  qed
qed

lemma dec_from_0: "dec_from 0 s = dec_value s"
  by (simp add: dec_from_def dec_value_def)

text \<open>Digits printed by the writer are read back as the number they were printed from.\<close>

lemma number_digits_dec:
  assumes "\<not> at is_digit rest"
  shows "number_digits (rev (dec_digits v) @ rest) 0 False = (v, False, rest)"
proof -
  have "dec_from (unat (0::u64)) (rev (dec_digits v)) = unat v" by (simp add: dec_from_0 dec_digits_value)
  moreover have "unat v < 2 ^ 64" using unsigned_less [of v, where ?'a = nat] by simp
  ultimately obtain mg where "number_digits (rev (dec_digits v) @ rest) 0 False = (mg, False, rest)" "unat mg = unat v"
    using number_digits_all [of "rev (dec_digits v)" rest 0] assms
    by (auto simp: list_all_iff dec_digits_digits)
  then show ?thesis by (simp add: word_unat_eq_iff)
qed

lemma digits_head: "\<exists>x xs. rev (dec_digits v) = x # xs \<and> is_digit x"
proof -
  have "rev (dec_digits v) \<noteq> []" using dec_digits_pos [of v] by auto
  then obtain x xs where x: "rev (dec_digits v) = x # xs" by (cases "rev (dec_digits v)") auto
  then have "x \<in> set (dec_digits v)" by (metis list.set_intros(1) set_rev)
  with x show ?thesis using dec_digits_digits by blast
qed

lemma digit_chars:
  "is_digit x \<Longrightarrow> x \<noteq> CHR ''-''" "is_digit x \<Longrightarrow> x \<noteq> CHR ''{''" "is_digit x \<Longrightarrow> x \<noteq> CHR ''[''"
  "is_digit x \<Longrightarrow> x \<noteq> CHR 0x22" "is_digit x \<Longrightarrow> x \<noteq> CHR ''t''" "is_digit x \<Longrightarrow> x \<noteq> CHR ''f''"
  "is_digit x \<Longrightarrow> x \<noteq> CHR ''n''" "is_digit x \<Longrightarrow> \<not> is_ws x"
  by (auto simp: is_digit_def is_ws_def)

lemma print_int_head:
  "\<exists>x xs. print_int n = x # xs \<and> (is_digit x \<or> x = CHR ''-'')"
  using digits_head [of "of_int n"] by (auto simp: print_int_def)

lemma i64_uint: "is_i64 n \<Longrightarrow> 0 \<le> n \<Longrightarrow> uint (of_int n :: u64) = n"
  by (simp only: uint_word_of_int) (simp add: is_i64_def)

lemma i64_uint_neg:
  assumes "is_i64 n" and "n < 0"
  shows "uint (of_int (- n) :: u64) = - n" and "i64 (uint (0 - of_int (- n) :: u64)) = n"
proof -
  show m: "uint (of_int (- n) :: u64) = - n"
    using assms by (simp only: uint_word_of_int) (simp add: is_i64_def)
  have "0 - of_int (- n) = (of_int n :: u64)" by simp
  then have "uint (0 - of_int (- n) :: u64) = n mod 2 ^ 64" by (simp only: uint_word_of_int) simp
  also have "\<dots> = (n + 2 ^ 64) mod 2 ^ 64" by simp
  also have "\<dots> = n + 2 ^ 64" using assms by (intro mod_pos_pos_trivial) (simp_all add: is_i64_def)
  finally have u: "uint (0 - of_int (- n) :: u64) = n + 2 ^ 64" .
  have e: "n + 2 ^ 64 + 2 ^ 63 = (n + 2 ^ 63) + 2 ^ 64" by simp
  have "(n + 2 ^ 64 + 2 ^ 63) mod 2 ^ 64 = (n + 2 ^ 63) mod 2 ^ 64" unfolding e by (rule mod_add_self2)
  then show "i64 (uint (0 - of_int (- n) :: u64)) = n"
    using assms unfolding u i64_def by (simp add: is_i64_def)
qed

lemma parse_printed_number:
  assumes "is_i64 n" and "delimited rest"
  shows "parse_number (print_int n @ rest) = Some (n, rest)"
proof (cases "n < 0")
  case True
  obtain x xs where x: "rev (dec_digits (of_int (- n))) = x # xs" "is_digit x" using digits_head by blast
  have "number_digits (x # xs @ rest) 0 False = (of_int (- n), False, rest)"
    using number_digits_dec [OF delimited_not_digit [OF assms(2)], of "of_int (- n)"] x by simp
  moreover have "\<not> (of_int (- n) :: u64) > 9223372036854775808"
    unfolding word_less_def using assms True by (simp only: i64_uint_neg) (simp add: is_i64_def)
  ultimately show ?thesis
    using True x i64_uint_neg(2) [OF assms(1) True] delimited_not_number [OF assms(2)]
    by (simp add: parse_number_def print_int_def at_def Let_def)
next
  case False
  obtain x xs where x: "rev (dec_digits (of_int n)) = x # xs" "is_digit x" using digits_head by blast
  have "number_digits (x # xs @ rest) 0 False = (of_int n, False, rest)"
    using number_digits_dec [OF delimited_not_digit [OF assms(2)], of "of_int n"] x by simp
  moreover have "\<not> (of_int n :: u64) > 9223372036854775807"
    unfolding word_less_def using assms False by (simp only: i64_uint) (simp add: is_i64_def)
  ultimately show ?thesis
    using False x i64_uint [OF assms(1)] i64_id [OF assms(1)] delimited_not_number [OF assms(2)] digit_chars(1) [OF x(2)]
    by (simp add: parse_number_def print_int_def at_def Let_def)
qed

text \<open>Numbers too large for the reader saturate.\<close>

definition to_int64 :: "int \<Rightarrow> int" where
  "to_int64 n = max INT64_MIN (min INT64_MAX n)"

lemma skip_digits_all: "list_all is_digit ds \<Longrightarrow> \<not> at is_digit rest \<Longrightarrow> skip_digits (ds @ rest) = rest"
  by (cases rest) (auto simp: skip_digits_def at_def dropWhile_append list_all_iff)

lemma digits_okD:
  assumes "digits_ok ds"
  shows "\<exists>x xs. ds = x # xs \<and> is_digit x" and "list_all is_digit ds"
  using assms by (cases ds; simp add: digits_ok_def)+

lemma nat_is_i64: "n < 2 ^ 63 \<Longrightarrow> is_i64 (int n)"
  by (simp add: is_i64_def)

lemma negated_magnitude:
  fixes mg :: u64
  assumes "unat mg \<le> 2 ^ 63"
  shows "i64 (uint (0 - mg)) = - int (unat mg)"
proof (cases "mg = 0")
  case True
  then show ?thesis by (simp add: i64_def)
next
  case False
  then have "0 < unat mg" using word_unat_eq_iff [of mg 0] by simp
  then have pos: "0 < int (unat mg)" unfolding of_nat_0_less_iff .
  have "int (unat mg) \<le> int 9223372036854775808" unfolding of_nat_le_iff using assms by simp
  then have "int (unat mg) \<le> 9223372036854775808" unfolding of_nat_numeral .
  moreover have "(2::int) ^ 63 = 9223372036854775808" by simp
  ultimately have "is_i64 (- int (unat mg))" using pos unfolding is_i64_def by (intro conjI; linarith)
  with pos have n: "- int (unat mg) < 0" "is_i64 (- int (unat mg))" by simp_all
  have "of_int (int (unat mg)) = mg" by simp
  then show ?thesis using i64_uint_neg(2) [OF n(2,1)] by simp
qed

lemma parse_literal:
  assumes "number_ok ds frac ex" and "delimited rest"
  shows "parse_number (print_number neg ds frac ex @ rest) =
    (if frac = None \<and> ex = None then Some (to_int64 ((if neg then - 1 else 1) * int (dec_value ds)), rest) else None)"
proof -
  let ?tail = "(case frac of None \<Rightarrow> [] | Some f \<Rightarrow> CHR ''.'' # f) @
     (case ex of None \<Rightarrow> [] | Some (mark, sign, e) \<Rightarrow> mark # sign @ e) @ rest"
  have ds: "digits_ok ds" using assms(1) by (simp add: number_ok_def)
  obtain x xs where x: "ds = x # xs" "is_digit x" using digits_okD(1) [OF ds] by blast
  have nd: "\<not> at is_digit ?tail"
    using assms(1) delimited_not_digit [OF assms(2)]
    by (auto simp: number_ok_def exponent_ok_def at_def is_digit_def split: option.splits)
  obtain mg where mg: "number_digits (ds @ ?tail) 0 False = (mg, 2 ^ 64 \<le> dec_value ds, ?tail)"
    "dec_value ds < 2 ^ 64 \<longrightarrow> unat mg = dec_value ds"
    using number_digits_all [OF digits_okD(2) [OF ds] nd, of 0] by (auto simp: dec_from_0)
  have stop: "at (\<lambda>x. x = CHR ''.'' \<or> x = CHR ''e'' \<or> x = CHR ''E'') ?tail \<longleftrightarrow> \<not> (frac = None \<and> ex = None)"
    using assms(1) delimited_not_number [OF assms(2)]
    by (auto simp: number_ok_def exponent_ok_def at_def split: option.splits)
  have printed: "print_number neg ds frac ex @ rest = (if neg then CHR ''-'' # ds @ ?tail else ds @ ?tail)"
    by (simp add: print_number_def)
  have sign: "at (\<lambda>x. x = CHR ''-'') (print_number neg ds frac ex @ rest) \<longleftrightarrow> neg"
    unfolding printed at_def using x digit_chars(1) [OF x(2)] by simp
  have body: "(if neg then tl (print_number neg ds frac ex @ rest) else print_number neg ds frac ex @ rest) = ds @ ?tail"
    unfolding printed by simp
  have dig: "at is_digit (ds @ ?tail)" using x by (simp add: at_def)
  let ?v = "if neg then if 2 ^ 64 \<le> dec_value ds \<or> mg > 9223372036854775808 then INT64_MIN else i64 (uint (0 - mg))
       else if 2 ^ 64 \<le> dec_value ds \<or> mg > 9223372036854775807 then INT64_MAX else i64 (uint mg)"
  have P: "parse_number (print_number neg ds frac ex @ rest) =
      (if frac = None \<and> ex = None then Some (?v, ?tail) else None)"
    unfolding parse_number_def sign Let_def body by (simp add: dig mg(1) stop)
  have v: "?v = to_int64 ((if neg then - 1 else 1) * int (dec_value ds))"
  proof (cases "dec_value ds < 2 ^ 64")
    case False
    then show ?thesis by (simp add: to_int64_def INT64_MIN_def INT64_MAX_def)
  next
    case True
    then have u: "unat mg = dec_value ds" using mg(2) by simp
    have g1: "mg > 9223372036854775808 \<longleftrightarrow> 2 ^ 63 < dec_value ds" by (simp add: word_less_nat_alt u)
    have g2: "mg > 9223372036854775807 \<longleftrightarrow> 2 ^ 63 \<le> dec_value ds" by (auto simp add: word_less_nat_alt u)
    have n: "i64 (uint (0 - mg)) = - int (dec_value ds)" if "dec_value ds \<le> 2 ^ 63"
      using negated_magnitude [of mg] that u by simp
    have "uint mg = int (dec_value ds)" unfolding u [symmetric] by simp
    then have p: "i64 (uint mg) = int (dec_value ds)" if "dec_value ds < 2 ^ 63"
      using i64_id [OF nat_is_i64 [OF that]] by simp
    show ?thesis using True n p by (auto simp: g1 g2 to_int64_def INT64_MIN_def INT64_MAX_def)
  qed
  have "?tail = rest" if "frac = None \<and> ex = None" using that by simp
  then show ?thesis using P v by simp
qed

lemma skip_literal:
  assumes "number_ok ds frac ex" and "delimited rest"
  shows "skip_number (print_number neg ds frac ex @ rest) = Some rest"
proof -
  let ?ex = "(case ex of None \<Rightarrow> [] | Some (mark, sign, e) \<Rightarrow> mark # sign @ e) @ rest"
  let ?tail = "(case frac of None \<Rightarrow> [] | Some f \<Rightarrow> CHR ''.'' # f) @ ?ex"
  have ds: "digits_ok ds" using assms(1) by (simp add: number_ok_def)
  obtain x xs where x: "ds = x # xs" "is_digit x" using digits_okD(1) [OF ds] by blast
  have nr: "\<not> at is_digit rest" by (rule delimited_not_digit [OF assms(2)])
  have nn: "\<not> at (\<lambda>x. x = CHR ''.'') rest" "\<not> at (\<lambda>x. x = CHR ''e'' \<or> x = CHR ''E'') rest"
    using delimited_not_number [OF assms(2)] by (auto simp: at_def)
  have ne: "\<not> at is_digit ?ex" "\<not> at (\<lambda>x. x = CHR ''.'') ?ex"
    using assms(1) nr nn by (auto simp: number_ok_def exponent_ok_def at_def is_digit_def split: option.splits)
  have nt: "\<not> at is_digit ?tail" using ne by (auto simp: at_def is_digit_def split: option.splits)
  have c1: "skip_opt (\<lambda>x. x = CHR ''-'') (print_number neg ds frac ex @ rest) = ds @ ?tail"
    using x digit_chars(1) by (auto simp: skip_opt_def print_number_def at_def)
  have c2: "skip_digits (ds @ ?tail) = ?tail" by (rule skip_digits_all [OF digits_okD(2) [OF ds] nt])
  have c3: "(if at (\<lambda>x. x = CHR ''.'') ?tail then skip_digits (tl ?tail) else ?tail) = ?ex"
  proof (cases frac)
    case None
    then show ?thesis using ne by simp
  next
    case (Some f)
    then have "list_all is_digit f" using assms(1) digits_okD(2) by (simp add: number_ok_def)
    then show ?thesis using Some skip_digits_all [OF _ ne(1), of f] by (simp add: at_def)
  qed
  have c4: "(if at (\<lambda>x. x = CHR ''e'' \<or> x = CHR ''E'') ?ex
      then Some (skip_digits (skip_opt (\<lambda>x. x = CHR ''+'' \<or> x = CHR ''-'') (tl ?ex))) else Some ?ex) = Some rest"
  proof (cases ex)
    case None
    then show ?thesis using nn by simp
  next
    case (Some m)
    obtain mark sign e where m: "m = (mark, sign, e)" by (cases m)
    have ok: "mark = CHR ''e'' \<or> mark = CHR ''E''" "sign = [] \<or> sign = ''+'' \<or> sign = ''-''" "digits_ok e"
      using assms(1) Some m by (auto simp: number_ok_def exponent_ok_def)
    obtain y ys where y: "e = y # ys" "is_digit y" using digits_okD(1) [OF ok(3)] by blast
    have "skip_opt (\<lambda>x. x = CHR ''+'' \<or> x = CHR ''-'') (sign @ e @ rest) = e @ rest"
      using ok(2) y by (auto simp: skip_opt_def at_def is_digit_def)
    then show ?thesis using ok(1) skip_digits_all [OF digits_okD(2) [OF ok(3)] nr] by (simp add: Some m at_def)
  qed
  have "at is_digit (ds @ ?tail)" using x by (simp add: at_def)
  then show ?thesis unfolding skip_number_def Let_def c1 c2 c3 using c4 by simp
qed

lemma literal_head:
  "number_ok ds frac ex \<Longrightarrow> \<exists>x xs. print_number neg ds frac ex = x # xs \<and> (is_digit x \<or> x = CHR ''-'')"
  using digits_okD(1) [of ds] by (auto simp: number_ok_def print_number_def)

lemma skip_digits_dec:
  "\<not> at is_digit rest \<Longrightarrow> skip_digits (rev (dec_digits v) @ rest) = rest"
  using dec_digits_digits [of _ v]
  by (cases rest) (auto simp: skip_digits_def at_def dropWhile_append)

lemma skip_printed_number:
  assumes "delimited rest"
  shows "skip_number (print_int n @ rest) = Some rest"
proof -
  have nd: "\<not> at is_digit rest" by (rule delimited_not_digit [OF assms])
  have ne: "\<not> at (\<lambda>x. x = CHR ''.'') rest" "\<not> at (\<lambda>x. x = CHR ''e'' \<or> x = CHR ''E'') rest"
    using delimited_not_number [OF assms] by (auto simp: at_def)
  let ?ds = "rev (dec_digits (of_int \<bar>n\<bar>))"
  obtain x xs where x: "?ds = x # xs" "is_digit x" using digits_head by blast
  have "skip_opt (\<lambda>x. x = CHR ''-'') (print_int n @ rest) = ?ds @ rest"
    using x digit_chars(1) by (auto simp: skip_opt_def print_int_def at_def)
  moreover have "at is_digit (?ds @ rest)" using x by (simp add: at_def)
  ultimately show ?thesis using skip_digits_dec [OF nd] ne by (simp add: skip_number_def Let_def)
qed


subsection \<open>Trees\<close>

lemma print_string_Cons: "print_string s = CHR 0x22 # s @ [CHR 0x22]"
  by (simp add: print_string_def)

lemma print_head:
  assumes "json_formed j"
  shows "\<exists>x xs. print j = x # xs \<and> \<not> is_ws x \<and> x \<noteq> CHR '']''"
proof (cases j)
  case (JNum n)
  then show ?thesis using print_int_head [of n] digit_chars(8) by (auto simp: is_ws_def is_digit_def)
next
  case (JLit neg ds frac ex)
  then show ?thesis using assms literal_head [of ds frac ex neg] by (auto simp: is_ws_def is_digit_def)
qed (auto simp: is_ws_def print_string_Cons split: if_splits)

lemma skip_ws_print: "json_formed j \<Longrightarrow> skip_ws (print j @ rest) = print j @ rest"
  using print_head [of j] by (auto simp: skip_ws_def)

lemma skip_ws_char [simp]: "\<not> is_ws x \<Longrightarrow> skip_ws (x # c) = x # c"
  by (simp add: skip_ws_def)

lemma skip_ws_string: "skip_ws (print_string s @ rest) = print_string s @ rest"
  by (simp add: print_string_Cons is_ws_def)

lemma not_ws [simp]: "\<not> is_ws (CHR '','')" "\<not> is_ws (CHR '':'')" "\<not> is_ws (CHR ''}'')" "\<not> is_ws (CHR '']'')"
  "\<not> is_ws (CHR ''{'')" "\<not> is_ws (CHR ''['')" "\<not> is_ws (CHR 0x22)"
  by (simp_all add: is_ws_def)

lemma skip_value_scalar:
  assumes "delimited rest"
  shows "skip_value (''null'' @ rest) = Some rest" and "skip_value (''true'' @ rest) = Some rest"
    and "skip_value (''false'' @ rest) = Some rest" and "skip_value (print_int n @ rest) = Some rest"
    and "escaped s \<Longrightarrow> skip_value (print_string s @ rest) = Some rest"
proof -
  obtain x xs where x: "print_int n = x # xs" "is_digit x \<or> x = CHR ''-''" using print_int_head by blast
  have "\<not> is_ws x" "x \<noteq> CHR ''{''" "x \<noteq> CHR ''[''" "x \<noteq> CHR 0x22" "x \<noteq> CHR ''t''" "x \<noteq> CHR ''f''" "x \<noteq> CHR ''n''"
    using x(2) by (auto simp: is_ws_def is_digit_def)
  then show "skip_value (print_int n @ rest) = Some rest"
    using skip_printed_number [OF assms, of n] x(1) by (simp add: skip_value.simps [of "x # xs @ rest"] Let_def)
  show "escaped s \<Longrightarrow> skip_value (print_string s @ rest) = Some rest"
    using scan_printed_string [of s rest] by (subst skip_value.simps) (simp add: skip_ws_string print_string_Cons Let_def)
qed (simp_all add: skip_value.simps [of "_ # _"] match_literal_def is_ws_def Let_def)

lemma skip_value_literal:
  assumes "number_ok ds frac ex" and "delimited rest"
  shows "skip_value (print_number neg ds frac ex @ rest) = Some rest"
proof -
  obtain x xs where x: "print_number neg ds frac ex = x # xs" "is_digit x \<or> x = CHR ''-''"
    using literal_head [OF assms(1)] by blast
  have "\<not> is_ws x" "x \<noteq> CHR ''{''" "x \<noteq> CHR ''[''" "x \<noteq> CHR 0x22" "x \<noteq> CHR ''t''" "x \<noteq> CHR ''f''" "x \<noteq> CHR ''n''"
    using x(2) by (auto simp: is_ws_def is_digit_def)
  then show ?thesis
    using skip_literal [OF assms, of neg] x(1) by (simp add: skip_value.simps [of "x # xs @ rest"] Let_def)
qed

text \<open>The reader skips exactly the text of a value.\<close>

lemma skip_printed:
  "\<forall>rest. json_formed j \<longrightarrow> delimited rest \<longrightarrow> skip_value (print j @ rest) = Some rest"
  "\<forall>rest. elems_formed xs \<longrightarrow> xs \<noteq> [] \<longrightarrow> skip_array_loop (print_elems xs @ CHR '']'' # rest) = Some rest"
  "\<forall>rest. members_formed ms \<longrightarrow> ms \<noteq> [] \<longrightarrow> skip_object_loop (print_members ms @ CHR ''}'' # rest) = Some rest"
proof (induction j and xs and ms rule: print_print_elems_print_members.induct)
  case (6 xs)
  have "skip_array (CHR ''['' # print_elems xs @ CHR '']'' # rest) = Some rest" if "elems_formed xs" for rest
  proof (cases xs)
    case Nil
    then show ?thesis by (simp add: skip_array.simps at_def)
  next
    case (Cons x ys)
    have "\<exists>z zs. print_elems xs = z # zs \<and> \<not> is_ws z \<and> z \<noteq> CHR '']''"
      using print_head [of x] that Cons by (cases ys) auto
    then show ?thesis using 6 that Cons by (auto simp: skip_array.simps at_def)
  qed
  then show ?case by (simp add: skip_value.simps [of "_ # _"] Let_def)
next
  case (7 ms)
  have "skip_object (CHR ''{'' # print_members ms @ CHR ''}'' # rest) = Some rest" if "members_formed ms" for rest
  proof (cases ms)
    case Nil
    then show ?thesis by (simp add: skip_object.simps at_def)
  next
    case (Cons m ns)
    have "\<exists>z zs. print_members ms = z # zs \<and> \<not> is_ws z \<and> z \<noteq> CHR ''}''"
      using Cons by (cases m; cases ns) (auto simp: print_string_Cons)
    then show ?thesis using 7 that Cons by (auto simp: skip_object.simps at_def)
  qed
  then show ?case by (simp add: skip_value.simps [of "_ # _"] Let_def)
next
  case (9 x)
  then show ?case by (simp add: skip_array_loop.simps)
next
  case (10 x y xs)
  then show ?case by (simp add: skip_array_loop.simps [of "print x @ _"])
next
  case (12 k v)
  then show ?case by (simp add: skip_object_loop.simps scan_printed_string at_def Let_def)
next
  case (13 k v m ms)
  then show ?case by (simp add: skip_object_loop.simps [of "print_string k @ _"] scan_printed_string at_def Let_def)
qed (simp_all add: skip_value_scalar skip_value_literal skip_value_scalar(1-3) [simplified])

lemmas skip_printed_value = skip_printed(1) [rule_format]

lemmas skip_ok_value = skip_printed_value [OF json_ok_formed(1)]

text \<open>
  What the reader reports for a value. Integers outside 64 bits saturate; a number with a
  fraction or an exponent is skipped over, but not readable: \<open>read_value\<close> is \<open>None\<close>.
\<close>

fun value_of :: "json \<Rightarrow> eaf_sendspin_json_value_t" where
  "value_of JNull = zero_json\<lparr>raw := print JNull\<rparr>"
| "value_of (JBool b) = zero_json\<lparr>json_type := EAF_SENDPIN_JSON_BOOL, boolean := b, raw := print (JBool b)\<rparr>"
| "value_of (JNum n) = zero_json\<lparr>json_type := EAF_SENDPIN_JSON_NUMBER, number := n, raw := print (JNum n)\<rparr>"
| "value_of (JLit neg ds frac ex) = zero_json\<lparr>raw := print (JLit neg ds frac ex)\<rparr>"
| "value_of (JStr s) = zero_json\<lparr>json_type := EAF_SENDPIN_JSON_STRING, json_string := s, raw := print (JStr s)\<rparr>"
| "value_of (JArr xs) = zero_json\<lparr>json_type := EAF_SENDPIN_JSON_ARRAY, raw := print (JArr xs)\<rparr>"
| "value_of (JObj ms) = zero_json\<lparr>json_type := EAF_SENDPIN_JSON_OBJECT, raw := print (JObj ms)\<rparr>"

definition read_value :: "json \<Rightarrow> eaf_sendspin_json_value_t option" where
  "read_value j =
     (case j of JLit neg ds frac ex \<Rightarrow>
        if frac = None \<and> ex = None
        then Some (zero_json\<lparr>json_type := EAF_SENDPIN_JSON_NUMBER,
          number := to_int64 ((if neg then - 1 else 1) * int (dec_value ds)), raw := print j\<rparr>)
        else None
      | _ \<Rightarrow> Some (value_of j))"

lemma read_ok_value: "json_ok j \<Longrightarrow> read_value j = Some (value_of j)"
  by (cases j) (simp_all add: read_value_def)

lemma raw_slice: "take (length (x @ rest) - length rest) (x @ rest) = x"
  by simp

lemma parse_number_value:
  assumes "x \<noteq> CHR ''{''" "x \<noteq> CHR ''[''" "x \<noteq> CHR 0x22" "x \<noteq> CHR ''t''" "x \<noteq> CHR ''f''" "x \<noteq> CHR ''n''" "\<not> is_ws x"
  shows "parse_value (x # c) =
    Option.bind (parse_number (x # c)) (\<lambda>(n, c'). Some (zero_json\<lparr>json_type := EAF_SENDPIN_JSON_NUMBER, number := n,
      raw := take (length (x # c) - length c') (x # c)\<rparr>, c'))"
  using assms by (simp add: parse_value_def Let_def)

lemma parse_printed:
  assumes "json_formed j" and "delimited rest"
  shows "parse_value (print j @ rest) = map_option (\<lambda>v. (v, rest)) (read_value j)"
proof (cases j)
  case (JNum n)
  obtain x xs where x: "print_int n = x # xs" "is_digit x \<or> x = CHR ''-''" using print_int_head by blast
  have h: "x \<noteq> CHR ''{''" "x \<noteq> CHR ''[''" "x \<noteq> CHR 0x22" "x \<noteq> CHR ''t''" "x \<noteq> CHR ''f''" "x \<noteq> CHR ''n''" "\<not> is_ws x"
    using x(2) by (auto simp: is_digit_def is_ws_def)
  have "parse_number (x # xs @ rest) = Some (n, rest)"
    using parse_printed_number [of n rest] assms JNum x(1) by simp
  then show ?thesis using JNum x(1) raw_slice [of "x # xs" rest] parse_number_value [OF h]
    by (simp add: read_value_def)
next
  case (JLit neg ds frac ex)
  then have ok: "number_ok ds frac ex" using assms(1) by simp
  obtain x xs where x: "print_number neg ds frac ex = x # xs" "is_digit x \<or> x = CHR ''-''"
    using literal_head [OF ok] by blast
  have h: "x \<noteq> CHR ''{''" "x \<noteq> CHR ''[''" "x \<noteq> CHR 0x22" "x \<noteq> CHR ''t''" "x \<noteq> CHR ''f''" "x \<noteq> CHR ''n''" "\<not> is_ws x"
    using x(2) by (auto simp: is_digit_def is_ws_def)
  show ?thesis
  proof (cases "frac = None \<and> ex = None")
    case True
    then show ?thesis using parse_literal [OF ok assms(2), of neg] JLit x(1) raw_slice [of "x # xs" rest]
        parse_number_value [OF h, of "xs @ rest"] by (simp add: read_value_def)
  next
    case False
    then have "parse_number (x # xs @ rest) = None"
      using parse_literal [OF ok assms(2), of neg] x(1) by (simp only: if_False append_Cons)
    moreover have "read_value j = None" unfolding read_value_def JLit using False by (simp only: json.case if_False)
    ultimately show ?thesis using JLit x(1) parse_number_value [OF h, of "xs @ rest"] by simp
  qed
next
  case (JStr t)
  then show ?thesis using assms scan_printed_string [of t rest] skip_ws_string [of t rest]
    by (simp add: parse_value_def Let_def print_string_Cons read_value_def)
next
  case (JArr xs)
  have "skip_array (print j @ rest) = Some rest"
    using skip_printed_value [OF assms] JArr by (simp add: skip_value.simps [of "_ # _"] Let_def)
  then show ?thesis using JArr raw_slice [of "print j" rest] by (simp add: parse_value_def Let_def read_value_def)
next
  case (JObj ms)
  have "skip_object (print j @ rest) = Some rest"
    using skip_printed_value [OF assms] JObj by (simp add: skip_value.simps [of "_ # _"] Let_def)
  then show ?thesis using JObj raw_slice [of "print j" rest] by (simp add: parse_value_def Let_def read_value_def)
qed (auto simp: parse_value_def zero_json_def is_ws_def match_literal_def Let_def read_value_def)

lemma parse_printed_value:
  "json_ok j \<Longrightarrow> delimited rest \<Longrightarrow> parse_value (print j @ rest) = Some (value_of j, rest)"
  by (simp add: parse_printed json_ok_formed(1) read_ok_value)

text \<open>The members of an object, after the head: every printed member starts with a quote.\<close>

lemma members_head: "ms \<noteq> [] \<Longrightarrow> \<exists>xs. print_members ms @ rest = CHR 0x22 # xs"
  by (cases ms rule: print_members.cases) (auto simp: print_string_Cons)

lemma print_members_Cons:
  "print_members ((k, v) # ms) @ CHR ''}'' # rest =
     print_string k @ CHR '':'' # print v @ (if ms = [] then CHR ''}'' # rest else CHR '','' # print_members ms @ CHR ''}'' # rest)"
  by (cases ms) auto

lemma descend_printed:
  assumes "members_formed ms"
  shows "case map_of ms seg of
      None \<Rightarrow> descend_loop seg leaf (print_members ms @ CHR ''}'' # rest) = Inl EAF_UNSUPPORTED
    | Some v \<Rightarrow> json_formed v \<and> (\<exists>r. delimited r \<and> descend_loop seg leaf (print_members ms @ CHR ''}'' # rest) =
        (if \<not> leaf then Inr (zero_json, print v @ r)
         else case read_value v of None \<Rightarrow> Inl EAF_INVALID | Some x \<Rightarrow> Inr (x, r)))"
  using assms
proof (induction ms)
  case Nil
  show ?case by (simp add: descend_loop.simps)
next
  case (Cons m ms)
  obtain k v where m: "m = (k, v)" by fastforce
  let ?after = "if ms = [] then CHR ''}'' # rest else CHR '','' # print_members ms @ CHR ''}'' # rest"
  have ok: "escaped k" "json_formed v" "members_formed ms" using Cons.prems m by simp_all
  have d: "delimited ?after" by simp
  note P = print_members_Cons [of k v ms rest] skip_ws_string [of k] scan_printed_string [OF ok(1)]
    skip_printed_value [OF ok(2) d] parse_printed [OF ok(2) d]
  have ne: "print_string k @ c \<noteq> []" "hd (print_string k @ c) \<noteq> CHR ''}''" for c
    by (simp_all add: print_string_Cons)
  show ?case
  proof (cases "k = seg")
    case True
    then show ?thesis using ok(2) d P ne
      by (auto simp: m descend_loop.simps [of _ _ "_ @ _"] at_def Let_def intro!: exI [of _ ?after] split: option.splits)
  next
    case False
    then have "descend_loop seg leaf (print_members (m # ms) @ CHR ''}'' # rest) =
        (if ms = [] then Inl EAF_UNSUPPORTED else descend_loop seg leaf (print_members ms @ CHR ''}'' # rest))"
      using P ne by (subst descend_loop.simps) (auto simp: m at_def Let_def)
    with False m Cons.IH [OF ok(3)] show ?thesis by (auto split: if_splits option.splits)
  qed
qed

text \<open>The reference lookup along a dotted path; duplicate keys resolve to the first.\<close>

fun json_lookup :: "json \<Rightarrow> string list \<Rightarrow> eaf_result_t + json" where
  "json_lookup j [] = Inr j"
| "json_lookup (JObj ms) (k # ks) =
     (case map_of ms k of None \<Rightarrow> Inl EAF_UNSUPPORTED | Some v \<Rightarrow> json_lookup v ks)"
| "json_lookup j (k # ks) = Inl EAF_INVALID"

function segments :: "string \<Rightarrow> string list" where
  "segments s =
     takeWhile (\<lambda>x. x \<noteq> CHR ''.'') s #
       (let rest = dropWhile (\<lambda>x. x \<noteq> CHR ''.'') s in if rest = [] then [] else segments (tl rest))"
  by pat_completeness auto
termination
proof (relation "measure length", goal_cases)
  case (2 s rest)
  then have "length (tl rest) < length rest" by (cases rest) auto
  moreover have "length rest \<le> length s" unfolding 2(1) by (rule length_dropWhile_le)
  ultimately show ?case by simp
qed simp

declare segments.simps [simp del]

lemma not_object_head:
  assumes "\<And>ms. j \<noteq> JObj ms" and "json_formed j"
  shows "\<not> at (\<lambda>x. x = CHR ''{'') (print j @ rest)"
proof (cases j)
  case (JNum n)
  then show ?thesis using print_int_head [of n] by (auto simp: at_def is_digit_def)
next
  case (JLit neg ds frac ex)
  then show ?thesis using literal_head [of ds frac ex neg] assms(2) by (auto simp: at_def is_digit_def)
qed (use assms in \<open>auto simp: at_def print_string_Cons\<close>)

lemma json_get_formed:
  assumes "json_formed j"
  shows "json_get_loop (print j @ rest) path =
    (case json_lookup j (segments path) of Inl rc \<Rightarrow> Inl rc
     | Inr v \<Rightarrow> (case read_value v of None \<Rightarrow> Inl EAF_INVALID | Some x \<Rightarrow> Inr x))"
  using assms
proof (induction "length path" arbitrary: path j rest rule: less_induct)
  case less
  define name where "name = takeWhile (\<lambda>x. x \<noteq> CHR ''.'') path"
  define more where "more = dropWhile (\<lambda>x. x \<noteq> CHR ''.'') path"
  have seg: "segments path = name # (if more = [] then [] else segments (tl more))"
    by (subst segments.simps) (simp only: Let_def name_def more_def)
  have get: "json_get_loop c path = (case descend c name (more = []) of Inl rc \<Rightarrow> Inl rc
      | Inr (v, c') \<Rightarrow> if more = [] then Inr v else json_get_loop c' (tl more))" for c
    by (subst json_get_loop.simps) (simp only: Let_def name_def more_def)
  show ?case
  proof (cases "\<exists>ms. j = JObj ms")
    case False
    then have "descend (print j @ rest) name (more = []) = Inl EAF_INVALID"
      using not_object_head [of j rest] less.prems by (simp add: descend_def skip_ws_print)
    moreover have "json_lookup j (k # ks) = Inl EAF_INVALID" for k ks using False by (cases j) auto
    ultimately show ?thesis by (simp add: seg get)
  next
    case True
    then obtain ms where j: "j = JObj ms" by blast
    have d: "descend (print j @ rest) name (more = []) = descend_loop name (more = []) (print_members ms @ CHR ''}'' # rest)"
      by (simp add: descend_def j at_def)
    show ?thesis
    proof (cases "map_of ms name")
      case None
      then show ?thesis using descend_printed [of ms name "more = []" rest] less.prems j d
        by (simp add: seg get)
    next
      case (Some v)
      then obtain r where v: "json_formed v" "delimited r" "descend (print j @ rest) name (more = []) =
          (if more \<noteq> [] then Inr (zero_json, print v @ r)
           else case read_value v of None \<Rightarrow> Inl EAF_INVALID | Some x \<Rightarrow> Inr (x, r))"
        using descend_printed [of ms name "more = []" rest] less.prems j d by auto
      have lk: "json_lookup j (name # ks) = json_lookup v ks" for ks using Some j by simp
      have "json_get_loop (print j @ rest) path =
          (if more = [] then case read_value v of None \<Rightarrow> Inl EAF_INVALID | Some x \<Rightarrow> Inr x
           else json_get_loop (print v @ r) (tl more))"
        using v(3) by (auto simp add: get split: option.splits)
      moreover have "length (tl more) < length path" if "more \<noteq> []"
        using that length_dropWhile_le [of "\<lambda>x. x \<noteq> CHR ''.''" path] unfolding more_def [symmetric]
        by (cases more) auto
      ultimately show ?thesis using less.hyps [of "tl more" v r] v(1) unfolding seg lk by simp
    qed
  qed
qed

lemma json_lookup_ok: "json_ok j \<Longrightarrow> json_lookup j ks = Inr v \<Longrightarrow> json_ok v"
proof (induction j ks rule: json_lookup.induct)
  case (2 ms k ks)
  obtain u where u: "map_of ms k = Some u" "json_lookup u ks = Inr v" using 2(3) by (auto split: option.splits)
  have "json_ok u" using 2(2) u(1) by (induction ms) (auto split: if_splits)
  with 2(1) [OF u(1)] u(2) show ?case by simp
qed simp_all

lemma json_get_printed:
  assumes "json_ok j"
  shows "json_get_loop (print j @ rest) path =
    (case json_lookup j (segments path) of Inl rc \<Rightarrow> Inl rc | Inr v \<Rightarrow> Inr (value_of v))"
  unfolding json_get_formed [OF json_ok_formed(1) [OF assms]]
  using json_lookup_ok [OF assms, of "segments path"] read_ok_value by (auto split: sum.splits)

subsection \<open>Fields\<close>

fun has_element :: "string \<Rightarrow> json \<Rightarrow> bool" where
  "has_element n (JArr xs) = (JStr n \<in> set xs)"
| "has_element n j = False"

lemma array_element_printed:
  assumes "json_ok x" and "delimited rest"
  shows "array_element n m (print x @ rest) = Some (m \<or> x = JStr n, rest)"
proof (cases x)
  case (JStr t)
  then show ?thesis using assms scan_printed_string [of t rest]
    by (auto simp: array_element_def at_def print_string_Cons)
next
  case (JNum k)
  then show ?thesis using assms skip_ok_value [OF assms] print_int_head [of k]
    by (auto simp: array_element_def at_def is_digit_def)
qed (use assms skip_ok_value [OF assms] in \<open>auto simp: array_element_def at_def\<close>)

lemma membership_printed:
  assumes "elems_ok xs" and "xs \<noteq> []"
  shows "membership_loop n m (print_elems xs @ CHR '']'' # rest) = (m \<or> JStr n \<in> set xs, Some rest)"
  using assms
proof (induction xs arbitrary: m)
  case (Cons x xs)
  show ?case
  proof (cases xs)
    case Nil
    then show ?thesis using Cons.prems array_element_printed [of x "CHR '']'' # rest" n m]
      by (subst membership_loop.simps) (auto simp: skip_ws_print json_ok_formed(1))
  next
    case (Cons y ys)
    have "membership_loop n m (print_elems (x # xs) @ CHR '']'' # rest) =
        membership_loop n (m \<or> x = JStr n) (print_elems xs @ CHR '']'' # rest)"
      using array_element_printed [of x "CHR '','' # print_elems xs @ CHR '']'' # rest" n m] Cons.prems
      by (subst membership_loop.simps) (auto simp: Cons skip_ws_print json_ok_formed(1))
    with Cons.IH Cons.prems Cons show ?thesis by auto
  qed
qed simp

lemma parse_membership_printed:
  assumes "json_ok v" and "delimited rest"
  shows "parse_array_membership (print v @ rest) n False = (has_element n v, Some rest)"
proof (cases "\<exists>xs. v = JArr xs")
  case True
  then obtain xs where v: "v = JArr xs" by blast
  show ?thesis
  proof (cases xs)
    case Nil
    then show ?thesis by (simp add: v parse_array_membership_def at_def)
  next
    case (Cons x ys)
    have "\<exists>z zs. print_elems xs = z # zs \<and> \<not> is_ws z \<and> z \<noteq> CHR '']''"
      using print_head [of x] json_ok_formed(1) [of x] assms(1) v Cons by (cases ys) auto
    then show ?thesis using membership_printed [of xs n False rest] assms(1) Cons
      by (auto simp: v parse_array_membership_def at_def Let_def)
  qed
next
  case False
  have "\<not> at (\<lambda>x. x = CHR ''['') (print v @ rest)"
  proof (cases v)
    case (JNum k)
    then show ?thesis using print_int_head [of k] by (auto simp: at_def is_digit_def)
  qed (use False assms(1) in \<open>auto simp: at_def print_string_Cons\<close>)
  moreover have "\<not> has_element n v" using False by (cases v) auto
  ultimately show ?thesis using skip_ok_value [OF assms] json_ok_formed(1) [OF assms(1)] by (simp add: parse_array_membership_def skip_ws_print)
qed

text \<open>What scanning an object does to one field: its first member with that key decides.\<close>

definition read_field :: "(string \<times> json) list \<Rightarrow> json_field_t \<Rightarrow> json_field_t" where
  "read_field ms f =
     (if found f then f
      else case map_of ms (field_key f) of None \<Rightarrow> f
        | Some v \<Rightarrow> (case needle f of None \<Rightarrow> f\<lparr>found := True, field_value := value_of v\<rparr>
            | Some n \<Rightarrow> f\<lparr>found := True, member := has_element n v\<rparr>))"

lemma match_field_Some:
  "match_field k fs = Some i \<Longrightarrow> i < length fs \<and> \<not> found (fs ! i) \<and> field_key (fs ! i) = k"
  by (induction fs arbitrary: i) (auto split: if_splits)

lemma match_field_None: "match_field k fs = None \<longleftrightarrow> (\<forall>f \<in> set fs. found f \<or> field_key f \<noteq> k)"
  by (induction fs) auto

definition fields_ok :: "json_field_t list \<Rightarrow> bool" where
  "fields_ok fs \<longleftrightarrow> distinct (map field_key fs) \<and> (\<forall>f \<in> set fs. \<not> found f \<longrightarrow> \<not> member f)"

lemma scan_member_printed:
  assumes "fields_ok fs" and "json_ok v" and "delimited rest"
  shows "\<exists>fs'. scan_member k fs (print v @ rest) = Some (fs', rest) \<and> fields_ok fs' \<and>
    map (read_field ms) fs' = map (read_field ((k, v) # ms)) fs"
proof (cases "match_field k fs")
  case None
  then have "\<forall>f \<in> set fs. found f \<or> field_key f \<noteq> k" by (simp add: match_field_None)
  then have "map (read_field ms) fs = map (read_field ((k, v) # ms)) fs" by (auto simp: read_field_def)
  then show ?thesis using assms(1) None skip_ok_value [OF assms(2,3)] by (simp add: scan_member_def)
next
  case (Some i)
  note M = match_field_Some [OF Some]
  let ?f = "case needle (fs ! i) of None \<Rightarrow> (fs ! i)\<lparr>found := True, field_value := value_of v\<rparr>
      | Some n \<Rightarrow> (fs ! i)\<lparr>found := True, member := has_element n v\<rparr>"
  have nm: "\<not> member (fs ! i)" using assms(1) M nth_mem unfolding fields_ok_def by blast
  have scan: "scan_member k fs (print v @ rest) = Some (fs[i := ?f], rest)"
    using Some parse_printed_value [OF assms(2,3)] parse_membership_printed [OF assms(2,3)] nm
    by (auto simp: scan_member_def split: option.splits)
  have key: "field_key ?f = field_key (fs ! i)" "found ?f" by (auto split: option.splits)
  have "map field_key (fs[i := ?f]) = map field_key fs" using M key(1) by (simp add: map_update list_update_same_conv)
  then have ok: "fields_ok (fs[i := ?f])"
    using assms(1) key(2) unfolding fields_ok_def by (auto dest!: subsetD [OF set_update_subset_insert])
  have "map (read_field ms) (fs[i := ?f]) ! j = map (read_field ((k, v) # ms)) fs ! j" if j: "j < length fs" for j
  proof (cases "j = i")
    case True
    then show ?thesis using M j by (auto simp: read_field_def split: option.splits)
  next
    case False
    then have "field_key (fs ! j) \<noteq> k"
      using M j assms(1) by (auto simp: fields_ok_def distinct_conv_nth)
    with False j show ?thesis by (simp add: read_field_def)
  qed
  then have "map (read_field ms) (fs[i := ?f]) = map (read_field ((k, v) # ms)) fs"
    by (intro nth_equalityI) simp_all
  with scan ok show ?thesis by blast
qed

lemma scan_fields_loop_printed:
  assumes "fields_ok fs" and "members_ok ms"
  shows "scan_fields_loop fs (print_members ms @ CHR ''}'' # rest) = Some (map (read_field ms) fs, rest)"
  using assms
proof (induction ms arbitrary: fs)
  case Nil
  have "map (read_field []) fs = fs" by (simp add: read_field_def map_idI)
  then show ?case by (simp add: scan_fields_loop.simps)
next
  case (Cons m ms)
  obtain k v where m: "m = (k, v)" by fastforce
  let ?after = "if ms = [] then CHR ''}'' # rest else CHR '','' # print_members ms @ CHR ''}'' # rest"
  have ok: "escaped k" "json_ok v" "members_ok ms" using Cons.prems m by simp_all
  have d: "delimited ?after" by simp
  obtain fs' where f: "scan_member k fs (print v @ ?after) = Some (fs', ?after)" "fields_ok fs'"
    "map (read_field ms) fs' = map (read_field ((k, v) # ms)) fs"
    using scan_member_printed [OF Cons.prems(1) ok(2) d, of k ms] by blast
  have ne: "print_string k @ c \<noteq> []" "hd (print_string k @ c) \<noteq> CHR ''}''" for c by (simp_all add: print_string_Cons)
  have "scan_fields_loop fs (print_members (m # ms) @ CHR ''}'' # rest) =
      (if ms = [] then Some (fs', rest) else scan_fields_loop fs' (print_members ms @ CHR ''}'' # rest))"
    using print_members_Cons [of k v ms rest] skip_ws_string [of k] scan_printed_string [OF ok(1)] f(1) ne
    by (subst scan_fields_loop.simps) (auto simp: m at_def Let_def)
  moreover have "fs' = map (read_field ((k, v) # ms)) fs" if "ms = []"
    using f(3) that by (simp add: read_field_def [of "[]"] map_idI)
  ultimately show ?case using Cons.IH [OF f(2) ok(3)] f(3) m by auto
qed

lemma scan_fields_printed:
  assumes "fields_ok fs" and "members_ok ms"
  shows "scan_fields (print (JObj ms)) fs =
    Some (map (read_field ms) (map (\<lambda>f. f\<lparr>field_value := zero_json\<rparr>) fs), [])"
proof -
  have "fields_ok (map (\<lambda>f. f\<lparr>field_value := zero_json\<rparr>) fs)"
    using assms(1) by (auto simp: fields_ok_def comp_def)
  from scan_fields_loop_printed [OF this assms(2), of "[]"] show ?thesis
    by (simp add: scan_fields_def at_def Let_def)
qed

subsection \<open>White space\<close>

lemma members_formed_append: "members_formed (xs @ ys) \<longleftrightarrow> members_formed xs \<and> members_formed ys"
  by (induction xs) auto

lemma print_members_append:
  "xs \<noteq> [] \<Longrightarrow> ys \<noteq> [] \<Longrightarrow> print_members (xs @ ys) = print_members xs @ CHR '','' # print_members ys"
proof (induction xs)
  case (Cons m xs)
  then show ?case by (cases m; cases xs; cases ys) auto
qed simp

text \<open>After a comma the loop of \<open>skip_object\<close> wants the next key at once.\<close>

lemma skip_object_comma:
  "members_formed ms \<Longrightarrow> ms \<noteq> [] \<Longrightarrow> skip_object_loop (print_members ms @ CHR '','' # t) = skip_object_loop t"
proof (induction ms)
  case (Cons m ms)
  obtain k v where m: "m = (k, v)" by fastforce
  show ?case
  proof (cases ms)
    case Nil
    then show ?thesis using skip_printed_value [of v "CHR '','' # t"] Cons.prems
      by (simp add: m skip_object_loop.simps [of "print_string k @ _"] scan_printed_string at_def Let_def)
  next
    case (Cons n ns)
    then show ?thesis using skip_printed_value [of v "CHR '','' # print_members (n # ns) @ CHR '','' # t"] Cons.prems Cons.IH
      by (simp add: m skip_object_loop.simps [of "print_string k @ _"] scan_printed_string at_def Let_def)
  qed
qed simp

lemma skip_object_space: "is_ws x \<Longrightarrow> skip_object_loop (x # t) = None"
  by (auto simp: skip_object_loop.simps [of "x # t"] scan_string_def is_ws_def)

text \<open>An object with one member, an object that has \<open>w\<close> between the comma and the next key.\<close>

definition spaced_object :: "string \<Rightarrow> (string \<times> json) list \<Rightarrow> string \<Rightarrow> (string \<times> json) list \<Rightarrow> string" where
  "spaced_object k ms w ns =
     ''{'' @ print_string k @ '':{'' @ print_members ms @ '','' @ w @ print_members ns @ ''}}''"

lemma skip_spaced:
  assumes "members_formed ms" and "ms \<noteq> []" and "is_ws x"
  shows "skip_object (CHR ''{'' # print_members ms @ CHR '','' # x # t) = None"
proof -
  have h: "\<exists>z zs. print_members ms = z # zs \<and> \<not> is_ws z \<and> z \<noteq> CHR ''}''"
    using assms(2) by (cases ms rule: print_members.cases) (auto simp: print_string_Cons)
  then have "skip_object (CHR ''{'' # print_members ms @ CHR '','' # x # t) =
      skip_object_loop (print_members ms @ CHR '','' # x # t)" by (auto simp: skip_object.simps at_def)
  then show ?thesis using skip_object_comma [OF assms(1,2)] skip_object_space [OF assms(3)] by simp
qed

lemma segments_single: "CHR ''.'' \<notin> set path \<Longrightarrow> segments path = [path]"
proof -
  assume "CHR ''.'' \<notin> set path"
  then have "takeWhile (\<lambda>x. x \<noteq> CHR ''.'') path = path" "dropWhile (\<lambda>x. x \<noteq> CHR ''.'') path = []"
    by (auto simp: takeWhile_eq_all_conv)
  then show ?thesis by (subst segments.simps) simp
qed

lemma get_spaced:
  assumes "members_formed ms" and "ms \<noteq> []" and "escaped k" and "is_ws x" and "CHR ''.'' \<notin> set path"
  shows "json_get_loop (CHR ''{'' # print_string k @ CHR '':'' # CHR ''{'' # print_members ms @ CHR '','' # x # t) path =
    Inl EAF_INVALID"
proof -
  let ?v = "CHR ''{'' # print_members ms @ CHR '','' # x # t"
  have none: "skip_value ?v = None" "parse_value ?v = None"
    using skip_spaced [OF assms(1,2,4), of t]
    by (simp_all add: skip_value.simps [of "_ # _"] parse_value_def Let_def)
  have ne: "print_string k @ c \<noteq> []" "hd (print_string k @ c) \<noteq> CHR ''}''" for c
    by (simp_all add: print_string_Cons)
  have "descend_loop path True (print_string k @ CHR '':'' # ?v) = Inl EAF_INVALID"
    using none ne by (subst descend_loop.simps)
      (simp add: skip_ws_string scan_printed_string [OF assms(3)] at_def Let_def)
  then have "descend (CHR ''{'' # print_string k @ CHR '':'' # ?v) path True = Inl EAF_INVALID"
    by (simp add: descend_def at_def)
  moreover have d: "dropWhile (\<lambda>x. x \<noteq> CHR ''.'') path = []" using assms(5) by auto
  moreover have w: "takeWhile (\<lambda>x. x \<noteq> CHR ''.'') path = path" using d by (simp add: takeWhile_eq_all_conv)
  ultimately show ?thesis unfolding json_get_loop.simps [of _ path] Let_def w d by simp
qed

section \<open>Properties\<close>

text \<open>
  C15: the path lookup of the JSON reader agrees with lookup in the tree. For every well-formed
  JSON tree, printed without white space between its tokens, and every non-empty path it returns the type, the
  decoded scalar and the exact source text of the value the dotted path leads to: integers
  outside 64 bits saturate, a number with a fraction or an exponent is reported as
  \<open>EAF_INVALID\<close> when it is asked for and skipped otherwise, \<open>EAF_UNSUPPORTED\<close> means that an
  object on the way lacks the key, and \<open>EAF_INVALID\<close> that the path runs into something that
  is not an object. Well-formed strings and numbers are given by their grammar.
\<close>

theorem json_get_lookup:
  assumes "json_formed j" and "path \<noteq> []"
  shows "eaf_sendspin_json_get (Some (print j)) (Some path) =
    (case json_lookup j (segments path) of Inl rc \<Rightarrow> Inl rc
     | Inr v \<Rightarrow> (case read_value v of None \<Rightarrow> Inl EAF_INVALID | Some x \<Rightarrow> Inr x))"
  using json_get_formed [OF assms(1), of "[]" path] assms(2) by (simp add: eaf_sendspin_json_get_def)

definition example_json :: json where
  "example_json = JObj [(''type'', JStr [CHR ''x'', CHR 0x5C, CHR 0x22]), (''gain'', JLit False ''1'' (Some ''50'') (Some (CHR ''e'', ''-'', ''3''))),
     (''payload'', JObj [(''a'', JArr [JNull, JBool True]), (''b'', JLit True ''99999999999999999999'' None None)])]"

theorem json_get_lookup_witness:
  "map_sum id number (eaf_sendspin_json_get (Some (print example_json)) (Some ''payload.b'')) = Inr INT64_MIN \<and>
   eaf_sendspin_json_get (Some (print example_json)) (Some ''gain'') = Inl EAF_INVALID"
proof -
  have ok: "json_formed example_json" by code_simp
  have "json_lookup example_json (segments ''payload.b'') = Inr (JLit True ''99999999999999999999'' None None)"
    "json_lookup example_json (segments ''gain'') = Inr (JLit False ''1'' (Some ''50'') (Some (CHR ''e'', ''-'', ''3'')))"
    by code_simp+
  moreover have "to_int64 (- int (dec_value ''99999999999999999999'')) = INT64_MIN"
    by (simp add: dec_value_def to_int64_def INT64_MIN_def INT64_MAX_def)
  ultimately show ?thesis using json_get_lookup [OF ok, of "''payload.b''"] json_get_lookup [OF ok, of "''gain''"]
    by (simp add: read_value_def)
qed

text \<open>
  Every scanner of the reader terminates and, when it succeeds, leaves the cursor at a
  suffix of the text it was given: it never reads past the end of the message nor moves
  backwards, whatever bytes the server sent.
\<close>

theorem json_cursor_safe:
  "(case skip_value c of None \<Rightarrow> True | Some r \<Rightarrow> suffix r c) \<and>
   (case parse_value c of None \<Rightarrow> True | Some (v, r) \<Rightarrow> suffix r c) \<and>
   (case scan_string c of None \<Rightarrow> True | Some (s, r) \<Rightarrow> c = CHR 0x22 # s @ CHR 0x22 # r) \<and>
   (case parse_number c of None \<Rightarrow> True | Some (n, r) \<Rightarrow> suffix r c)"
  by (auto split: option.splits dest: skip_value_suffix parse_value_suffix scan_string_view parse_number_suffix)

text \<open>
  C39: the reader is stricter than JSON. Take an object with one member, whose value is an object of two or
  more well-formed members, and put any white space (spaces, tabs, line ends) behind one of its commas: every
  look-up of a key then fails with \<open>EAF_INVALID\<close>, because the loop of \<open>skip_object\<close> does not
  skip white space before the next key. Without the white space the same look-up returns the
  object, or \<open>EAF_UNSUPPORTED\<close> for another key.
\<close>

theorem json_space_after_comma:
  assumes "members_formed ms" and "members_formed ns" and "ms \<noteq> []" and "ns \<noteq> []" and "escaped k"
    and "list_all is_ws w" and "path \<noteq> []" and "CHR ''.'' \<notin> set path"
  shows "eaf_sendspin_json_get (Some (spaced_object k ms w ns)) (Some path) =
    (if w \<noteq> [] then Inl EAF_INVALID
     else if path = k then Inr (value_of (JObj (ms @ ns))) else Inl EAF_UNSUPPORTED)"
proof (cases w)
  case Nil
  have "spaced_object k ms w ns = print (JObj [(k, JObj (ms @ ns))])"
    using assms(3,4) by (simp add: spaced_object_def Nil print_members_append)
  then show ?thesis
    using json_get_formed [of "JObj [(k, JObj (ms @ ns))]" "[]" path] assms Nil
    by (auto simp: eaf_sendspin_json_get_def members_formed_append segments_single read_value_def)
next
  case (Cons x xs)
  then have "is_ws x" using assms(6) by simp
  from get_spaced [OF assms(1,3,5) this assms(8), of "xs @ print_members ns @ ''}}''"] show ?thesis
    using assms(7) by (simp add: eaf_sendspin_json_get_def spaced_object_def Cons)
qed

theorem json_space_after_comma_witness:
  "eaf_sendspin_json_get (Some (spaced_object ''p'' [(''a'', JNum 1)] '' '' [(''b'', JNum 2)])) (Some ''p'') = Inl EAF_INVALID"
  using json_space_after_comma [of "[(''a'', JNum 1)]" "[(''b'', JNum 2)]" "''p''" "'' ''" "''p''"]
  by (simp add: escaped_Cons is_i64_def is_ws_def)

end
