(* ===== verification/Sendspin_Messages.thy ===== *)
theory Sendspin_Messages
  imports Sendspin_JSON
begin

text \<open>
  \<open>apps/sendspin/sendspin_protocol.c\<close>, lines 426 to 902: the messages of the Sendspin protocol.
  Parsers read the server's messages with the JSON reader; builders write the client's
  messages into a bounded buffer. The theory shows that the parsers agree with a reference
  reading of the message tree and that the builders emit exactly the compact text of a
  message tree, or fail when it does not fit, for all strings and numbers.
\<close>

section \<open>Parsers\<close>

datatype eaf_sendspin_codec_t =
    EAF_SENDPIN_CODEC_UNKNOWN | EAF_SENDPIN_CODEC_PCM | EAF_SENDPIN_CODEC_FLAC
  | EAF_SENDPIN_CODEC_OPUS | EAF_SENDPIN_CODEC_MP3 | EAF_SENDPIN_CODEC_VORBIS

datatype eaf_sendspin_command_t =
    EAF_SENDPIN_COMMAND_UNKNOWN | EAF_SENDPIN_COMMAND_VOLUME | EAF_SENDPIN_COMMAND_MUTE
  | EAF_SENDPIN_COMMAND_SET_STATIC_DELAY

text \<open>A string view of a message is an option: \<open>None\<close> is the NULL pointer of a zeroed record.\<close>

record eaf_sendspin_server_hello_t =
  sh_version :: u32
  player_active :: bool
  server_id :: "string option"
  sh_name :: "string option"
  connection_reason :: "string option"

record eaf_sendspin_server_time_t =
  client_transmitted :: int
  server_received :: int
  st_server_transmitted :: int

record eaf_sendspin_stream_start_t =
  ss_server_transmitted :: int
  ss_codec :: eaf_sendspin_codec_t
  ss_sample_rate :: u32
  ss_channels :: u8
  ss_bit_depth :: u8
  codec_header :: "string option"

record eaf_sendspin_stream_end_t =
  se_server_transmitted :: int
  end_player :: bool

record eaf_sendspin_group_update_t =
  playback_state :: "string option"
  group_id :: "string option"

record eaf_sendspin_server_command_t =
  sc_command :: eaf_sendspin_command_t
  sc_volume :: int
  sc_muted :: bool
  sc_static_delay_ms :: int

definition codec_from_value :: "eaf_sendspin_json_value_t \<Rightarrow> eaf_sendspin_codec_t" where
  "codec_from_value v =
     (if eaf_sendspin_json_string_equals (Some v) ''pcm'' then EAF_SENDPIN_CODEC_PCM
      else if eaf_sendspin_json_string_equals (Some v) ''flac'' then EAF_SENDPIN_CODEC_FLAC
      else if eaf_sendspin_json_string_equals (Some v) ''opus'' then EAF_SENDPIN_CODEC_OPUS
      else if eaf_sendspin_json_string_equals (Some v) ''mp3'' then EAF_SENDPIN_CODEC_MP3
      else if eaf_sendspin_json_string_equals (Some v) ''vorbis'' then EAF_SENDPIN_CODEC_VORBIS
      else EAF_SENDPIN_CODEC_UNKNOWN)"

text \<open>The string a found field carries, if it is a string.\<close>

definition string_view :: "eaf_sendspin_json_value_t \<Rightarrow> string option" where
  "string_view v = (if json_type v = EAF_SENDPIN_JSON_STRING then Some (json_string v) else None)"

definition is_number :: "eaf_sendspin_json_value_t \<Rightarrow> bool" where
  "is_number v \<longleftrightarrow> json_type v = EAF_SENDPIN_JSON_NUMBER"

text \<open>The common start of the parsers: the \<open>payload\<close> object of the message.\<close>

definition get_payload :: "string option \<Rightarrow> eaf_result_t + eaf_sendspin_json_value_t" where
  "get_payload json =
     (case eaf_sendspin_json_get json (Some ''payload'') of Inl rc \<Rightarrow> Inl rc
      | Inr p \<Rightarrow> if json_type p \<noteq> EAF_SENDPIN_JSON_OBJECT then Inl EAF_INVALID else Inr p)"

definition zero_server_hello :: eaf_sendspin_server_hello_t where
  "zero_server_hello = \<lparr>sh_version = 0, player_active = False, server_id = None, sh_name = None,
     connection_reason = None\<rparr>"

definition eaf_sendspin_parse_server_hello ::
  "string option \<Rightarrow> eaf_sendspin_server_hello_t \<Rightarrow> eaf_result_t \<times> eaf_sendspin_server_hello_t" where
  "eaf_sendspin_parse_server_hello json out =
     (if json = None then (EAF_INVALID, out)
      else let out = zero_server_hello
           in (case get_payload json of Inl _ \<Rightarrow> (EAF_INVALID, out)
               | Inr payload \<Rightarrow>
                 (case scan_fields (raw payload)
                     [needle_field ''active_roles'' ''player@v1'', value_field ''server_id'', value_field ''name'',
                      value_field ''connection_reason'', value_field ''version''] of
                    None \<Rightarrow> (EAF_INVALID, out)
                  | Some (fs, _) \<Rightarrow>
                    if \<not> found (fs ! 0) then (EAF_INVALID, out)
                    else (EAF_OK,
                      out\<lparr>player_active := member (fs ! 0),
                          server_id := (if found (fs ! 1) then string_view (field_value (fs ! 1)) else None),
                          sh_name := (if found (fs ! 2) then string_view (field_value (fs ! 2)) else None),
                          connection_reason := (if found (fs ! 3) then string_view (field_value (fs ! 3)) else None),
                          sh_version := (if found (fs ! 4) \<and> is_number (field_value (fs ! 4))
                                         then of_int (number (field_value (fs ! 4))) else 0)\<rparr>))))"

definition eaf_sendspin_parse_server_time ::
  "string option \<Rightarrow> eaf_sendspin_server_time_t \<Rightarrow> eaf_result_t \<times> eaf_sendspin_server_time_t" where
  "eaf_sendspin_parse_server_time json out =
     (if json = None then (EAF_INVALID, out)
      else case get_payload json of Inl _ \<Rightarrow> (EAF_INVALID, out)
        | Inr payload \<Rightarrow>
          (case scan_fields (raw payload)
              [value_field ''client_transmitted'', value_field ''server_received'', value_field ''server_transmitted''] of
             None \<Rightarrow> (EAF_INVALID, out)
           | Some (fs, _) \<Rightarrow>
             if \<not> is_number (field_value (fs ! 0)) \<or> \<not> is_number (field_value (fs ! 1)) \<or>
                \<not> is_number (field_value (fs ! 2)) then (EAF_INVALID, out)
             else (EAF_OK, \<lparr>client_transmitted = number (field_value (fs ! 0)),
                            server_received = number (field_value (fs ! 1)),
                            st_server_transmitted = number (field_value (fs ! 2))\<rparr>)))"

definition zero_stream_start :: eaf_sendspin_stream_start_t where
  "zero_stream_start = \<lparr>ss_server_transmitted = 0, ss_codec = EAF_SENDPIN_CODEC_UNKNOWN, ss_sample_rate = 0,
     ss_channels = 0, ss_bit_depth = 0, codec_header = None\<rparr>"

definition eaf_sendspin_parse_stream_start ::
  "string option \<Rightarrow> eaf_sendspin_stream_start_t \<Rightarrow> eaf_result_t \<times> eaf_sendspin_stream_start_t" where
  "eaf_sendspin_parse_stream_start json out =
     (if json = None then (EAF_INVALID, out)
      else let out = zero_stream_start
           in (case get_payload json of Inl _ \<Rightarrow> (EAF_INVALID, out)
               | Inr payload \<Rightarrow>
                 (case scan_fields (raw payload) [value_field ''player'', value_field ''server_transmitted''] of
                    None \<Rightarrow> (EAF_INVALID, out)
                  | Some (ps, _) \<Rightarrow>
                    if \<not> found (ps ! 0) \<or> json_type (field_value (ps ! 0)) \<noteq> EAF_SENDPIN_JSON_OBJECT
                    then (EAF_INVALID, out)
                    else (case scan_fields (raw (field_value (ps ! 0)))
                        [value_field ''codec'', value_field ''sample_rate'', value_field ''channels'',
                         value_field ''bit_depth'', value_field ''codec_header''] of
                      None \<Rightarrow> (EAF_INVALID, out)
                    | Some (cs, _) \<Rightarrow>
                      if \<not> found (cs ! 0) then (EAF_INVALID, out)
                      else let out = out\<lparr>ss_codec := codec_from_value (field_value (cs ! 0))\<rparr>
                           in if \<not> is_number (field_value (cs ! 1)) \<or> \<not> is_number (field_value (cs ! 2)) \<or>
                                 \<not> is_number (field_value (cs ! 3)) then (EAF_INVALID, out)
                              else (EAF_OK,
                                out\<lparr>ss_sample_rate := of_int (number (field_value (cs ! 1))),
                                    ss_channels := of_int (number (field_value (cs ! 2))),
                                    ss_bit_depth := of_int (number (field_value (cs ! 3))),
                                    ss_server_transmitted :=
                                      (if is_number (field_value (ps ! 1)) then number (field_value (ps ! 1)) else 0),
                                    codec_header := string_view (field_value (cs ! 4))\<rparr>)))))"

definition eaf_sendspin_parse_stream_end ::
  "string option \<Rightarrow> eaf_sendspin_stream_end_t \<Rightarrow> eaf_result_t \<times> eaf_sendspin_stream_end_t" where
  "eaf_sendspin_parse_stream_end json out =
     (if json = None then (EAF_INVALID, out)
      else let out = \<lparr>se_server_transmitted = 0, end_player = False\<rparr>
           in (case eaf_sendspin_json_get json (Some ''payload'') of
                 Inl prc \<Rightarrow> if prc = EAF_UNSUPPORTED then (EAF_OK, out\<lparr>end_player := True\<rparr>) else (EAF_INVALID, out)
               | Inr payload \<Rightarrow>
                 if json_type payload \<noteq> EAF_SENDPIN_JSON_OBJECT then (EAF_INVALID, out)
                 else (case scan_fields (raw payload) [value_field ''server_transmitted'', needle_field ''roles'' ''player''] of
                    None \<Rightarrow> (EAF_INVALID, out)
                  | Some (fs, _) \<Rightarrow>
                    (EAF_OK, out\<lparr>se_server_transmitted :=
                                   (if is_number (field_value (fs ! 0)) then number (field_value (fs ! 0)) else 0),
                                 end_player := \<not> found (fs ! 1) \<or> member (fs ! 1)\<rparr>))))"

definition eaf_sendspin_parse_group_update ::
  "string option \<Rightarrow> eaf_sendspin_group_update_t \<Rightarrow> eaf_result_t \<times> eaf_sendspin_group_update_t" where
  "eaf_sendspin_parse_group_update json out =
     (if json = None then (EAF_INVALID, out)
      else let out = \<lparr>playback_state = None, group_id = None\<rparr>
           in (case get_payload json of Inl _ \<Rightarrow> (EAF_OK, out)
               | Inr payload \<Rightarrow>
                 (case scan_fields (raw payload) [value_field ''playback_state'', value_field ''group_id''] of
                    None \<Rightarrow> (EAF_OK, out)
                  | Some (fs, _) \<Rightarrow>
                    (EAF_OK, out\<lparr>playback_state := string_view (field_value (fs ! 0)),
                                 group_id := string_view (field_value (fs ! 1))\<rparr>))))"

definition eaf_sendspin_parse_server_command ::
  "string option \<Rightarrow> eaf_sendspin_server_command_t \<Rightarrow> eaf_result_t \<times> eaf_sendspin_server_command_t" where
  "eaf_sendspin_parse_server_command json out =
     (if json = None then (EAF_INVALID, out)
      else let out = \<lparr>sc_command = EAF_SENDPIN_COMMAND_UNKNOWN, sc_volume = - 1, sc_muted = False,
                      sc_static_delay_ms = - 1\<rparr>
           in (case get_payload json of Inl _ \<Rightarrow> (EAF_INVALID, out)
               | Inr payload \<Rightarrow>
                 (case scan_fields (raw payload) [value_field ''player''] of
                    None \<Rightarrow> (EAF_INVALID, out)
                  | Some (ps, _) \<Rightarrow>
                    if \<not> found (ps ! 0) \<or> json_type (field_value (ps ! 0)) \<noteq> EAF_SENDPIN_JSON_OBJECT
                    then (EAF_INVALID, out)
                    else (case scan_fields (raw (field_value (ps ! 0)))
                        [value_field ''command'', value_field ''volume'', value_field ''mute'', value_field ''static_delay_ms''] of
                      None \<Rightarrow> (EAF_INVALID, out)
                    | Some (cs, _) \<Rightarrow>
                      if \<not> found (cs ! 0) then (EAF_INVALID, out)
                      else let command = Some (field_value (cs ! 0))
                           in (EAF_OK,
                             out\<lparr>sc_command :=
                                   (if eaf_sendspin_json_string_equals command ''volume'' then EAF_SENDPIN_COMMAND_VOLUME
                                    else if eaf_sendspin_json_string_equals command ''mute'' then EAF_SENDPIN_COMMAND_MUTE
                                    else if eaf_sendspin_json_string_equals command ''set_static_delay''
                                         then EAF_SENDPIN_COMMAND_SET_STATIC_DELAY
                                    else EAF_SENDPIN_COMMAND_UNKNOWN),
                                 sc_volume := (if is_number (field_value (cs ! 1)) then i32 (number (field_value (cs ! 1))) else - 1),
                                 sc_muted := (if json_type (field_value (cs ! 2)) = EAF_SENDPIN_JSON_BOOL
                                              then boolean (field_value (cs ! 2)) else False),
                                 sc_static_delay_ms :=
                                   (if is_number (field_value (cs ! 3)) then i32 (number (field_value (cs ! 3))) else - 1)\<rparr>)))))"

section \<open>Builders\<close>

record writer_t =
  wr_buf :: string
  wr_capacity :: nat
  wr_used :: nat
  wr_ok :: bool

definition wr_raw :: "writer_t \<Rightarrow> string \<Rightarrow> writer_t" where
  "wr_raw w data =
     (if \<not> wr_ok w \<or> wr_used w + length data > wr_capacity w then w\<lparr>wr_ok := False\<rparr>
      else w\<lparr>wr_buf := blit (wr_buf w) (wr_used w) data, wr_used := wr_used w + length data\<rparr>)"

definition wr_char :: "writer_t \<Rightarrow> char \<Rightarrow> writer_t" where
  "wr_char w c = wr_raw w [c]"

definition wr_lit :: "writer_t \<Rightarrow> string \<Rightarrow> writer_t" where
  "wr_lit w literal = wr_raw w literal"

definition wr_u64 :: "writer_t \<Rightarrow> u64 \<Rightarrow> writer_t" where
  "wr_u64 w v =
     (if \<not> wr_ok w then w
      else let (n, dst) = eaf_bytes_write_u64_dec (drop (wr_used w) (wr_buf w)) (wr_capacity w - wr_used w) v;
               w = w\<lparr>wr_buf := take (wr_used w) (wr_buf w) @ dst\<rparr>
           in if n = 0 then w\<lparr>wr_ok := False\<rparr> else w\<lparr>wr_used := wr_used w + n\<rparr>)"

definition wr_i64 :: "writer_t \<Rightarrow> int \<Rightarrow> writer_t" where
  "wr_i64 w v =
     (if v < 0 then wr_u64 (wr_char w (CHR ''-'')) (of_int (- (v + 1)) + 1) else wr_u64 w (of_int v))"

definition hex_digits :: string where
  "hex_digits = ''0123456789abcdef''"

definition wr_json_char :: "char \<Rightarrow> writer_t \<Rightarrow> writer_t" where
  "wr_json_char ch w =
     (let c = of_char ch :: nat
      in if c = 34 then wr_lit w [CHR 0x5C, CHR 0x22]
         else if c = 92 then wr_lit w [CHR 0x5C, CHR 0x5C]
         else if c = 8 then wr_lit w [CHR 0x5C, CHR ''b'']
         else if c = 12 then wr_lit w [CHR 0x5C, CHR ''f'']
         else if c = 10 then wr_lit w [CHR 0x5C, CHR ''n'']
         else if c = 13 then wr_lit w [CHR 0x5C, CHR ''r'']
         else if c = 9 then wr_lit w [CHR 0x5C, CHR ''t'']
         else if c < 32 then wr_raw w ([CHR 0x5C] @ ''u00'' @ [hex_digits ! (c div 16), hex_digits ! (c mod 16)])
         else wr_char w ch)"

definition wr_json_string :: "writer_t \<Rightarrow> string \<Rightarrow> writer_t" where
  "wr_json_string w data = wr_char (fold wr_json_char data (wr_char w (CHR 0x22))) (CHR 0x22)"

record eaf_sendspin_format_t =
  fmt_codec :: eaf_sendspin_codec_t
  fmt_sample_rate :: u32
  fmt_channels :: u8
  fmt_bit_depth :: u8

fun codec_name :: "eaf_sendspin_codec_t \<Rightarrow> string option" where
  "codec_name EAF_SENDPIN_CODEC_PCM = Some ''pcm''"
| "codec_name EAF_SENDPIN_CODEC_FLAC = Some ''flac''"
| "codec_name EAF_SENDPIN_CODEC_OPUS = Some ''opus''"
| "codec_name EAF_SENDPIN_CODEC_MP3 = Some ''mp3''"
| "codec_name EAF_SENDPIN_CODEC_VORBIS = Some ''vorbis''"
| "codec_name EAF_SENDPIN_CODEC_UNKNOWN = None"

definition write_format :: "eaf_sendspin_format_t \<Rightarrow> writer_t \<Rightarrow> writer_t" where
  "write_format f w =
     (let w = wr_lit w ''{\"codec\":'';
          w = wr_json_string w (the (codec_name (fmt_codec f)));
          w = wr_lit w '',\"channels\":'';
          w = wr_u64 w (ucast (fmt_channels f));
          w = wr_lit w '',\"sample_rate\":'';
          w = wr_u64 w (ucast (fmt_sample_rate f));
          w = (if fmt_codec f = EAF_SENDPIN_CODEC_PCM \<and> fmt_bit_depth f \<noteq> 0
               then wr_u64 (wr_lit w '',\"bit_depth\":'') (ucast (fmt_bit_depth f)) else w)
      in wr_lit w ''}'')"

record eaf_sendspin_client_hello_t =
  client_id :: "string option"
  ch_name :: "string option"
  product_name :: "string option"
  manufacturer :: "string option"
  software_version :: "string option"
  formats :: "eaf_sendspin_format_t list"
  ch_sample_rate :: u32
  ch_channels :: u8
  ch_bit_depth :: u8
  buffer_capacity :: u32
  support_volume :: bool
  support_mute :: bool

record eaf_sendspin_player_state_t =
  ps_volume :: int
  ps_muted :: bool
  ps_static_delay_ms :: int
  required_lead_time_ms :: int
  min_buffer_ms :: int

text \<open>\<open>finish\<close>: the result code, the number of bytes written (if any) and the buffer.\<close>

definition writer_finish :: "writer_t \<Rightarrow> eaf_result_t \<times> nat \<times> string" where
  "writer_finish w = (if \<not> wr_ok w then (EAF_INVALID, 0, wr_buf w) else (EAF_OK, wr_used w, wr_buf w))"

definition write_device_info :: "eaf_sendspin_client_hello_t \<Rightarrow> writer_t \<Rightarrow> writer_t" where
  "write_device_info hello w =
     (if product_name hello = None \<and> manufacturer hello = None \<and> software_version hello = None then w
      else let w = wr_lit w '',\"device_info\":{'';
               (w, comma) = (case product_name hello of None \<Rightarrow> (w, False)
                  | Some s \<Rightarrow> (wr_json_string (wr_lit w ''\"product_name\":'') s, True));
               (w, comma) = (case manufacturer hello of None \<Rightarrow> (w, comma)
                  | Some s \<Rightarrow> (wr_json_string (wr_lit w (if comma then '',\"manufacturer\":'' else ''\"manufacturer\":'')) s, True));
               w = (case software_version hello of None \<Rightarrow> w
                  | Some s \<Rightarrow> wr_json_string (wr_lit w (if comma then '',\"software_version\":'' else ''\"software_version\":'')) s)
           in wr_lit w ''}'')"

definition write_formats :: "eaf_sendspin_client_hello_t \<Rightarrow> writer_t \<Rightarrow> writer_t" where
  "write_formats hello w =
     (let (w, emitted) = fold (\<lambda>f (w, emitted).
            if codec_name (fmt_codec f) = None then (w, emitted)
            else (write_format f (if emitted \<noteq> 0 then wr_char w (CHR '','') else w), emitted + 1))
            (formats hello) (w, 0::nat)
      in if emitted = 0
         then write_format \<lparr>fmt_codec = EAF_SENDPIN_CODEC_PCM, fmt_sample_rate = ch_sample_rate hello,
                fmt_channels = ch_channels hello, fmt_bit_depth = ch_bit_depth hello\<rparr> w
         else w)"

definition write_commands :: "eaf_sendspin_client_hello_t \<Rightarrow> writer_t \<Rightarrow> writer_t" where
  "write_commands hello w =
     (let w = (if support_volume hello
               then let w = wr_lit w ''\"volume\"'' in if support_mute hello then wr_lit w '','' else w
               else w)
      in if support_mute hello then wr_lit w ''\"mute\"'' else w)"

definition eaf_sendspin_build_client_hello ::
  "string \<Rightarrow> nat \<Rightarrow> eaf_sendspin_client_hello_t option \<Rightarrow> eaf_result_t \<times> nat \<times> string" where
  "eaf_sendspin_build_client_hello dst capacity hello =
     (case hello of None \<Rightarrow> (EAF_INVALID, 0, dst)
      | Some hello \<Rightarrow>
        (case (client_id hello, ch_name hello) of
           (Some cid, Some nm) \<Rightarrow>
             if capacity = 0 then (EAF_INVALID, 0, dst)
             else let w = \<lparr>wr_buf = dst, wr_capacity = capacity, wr_used = 0, wr_ok = True\<rparr>;
                      w = wr_json_string (wr_lit w ''{\"payload\":{\"client_id\":'') cid;
                      w = wr_json_string (wr_lit w '',\"name\":'') nm;
                      w = wr_lit w '',\"version\":1,\"supported_roles\":[\"player@v1\"]'';
                      w = write_device_info hello w;
                      w = wr_lit w '',\"player@v1_support\":{\"supported_formats\":['';
                      w = write_formats hello w;
                      w = wr_u64 (wr_lit w ''],\"buffer_capacity\":'') (ucast (buffer_capacity hello));
                      w = write_commands hello (wr_lit w '',\"supported_commands\":['');
                      w = wr_lit w '']}'';
                      w = wr_lit w ''},\"type\":\"client/hello\"}''
                  in writer_finish w
         | _ \<Rightarrow> (EAF_INVALID, 0, dst)))"

definition eaf_sendspin_build_client_time :: "string \<Rightarrow> nat \<Rightarrow> int \<Rightarrow> eaf_result_t \<times> nat \<times> string" where
  "eaf_sendspin_build_client_time dst capacity transmitted =
     (if capacity = 0 then (EAF_INVALID, 0, dst)
      else let w = \<lparr>wr_buf = dst, wr_capacity = capacity, wr_used = 0, wr_ok = True\<rparr>;
               w = wr_i64 (wr_lit w ''{\"payload\":{\"client_transmitted\":'') transmitted;
               w = wr_lit w ''},\"type\":\"client/time\"}''
           in writer_finish w)"

definition eaf_sendspin_build_client_state ::
  "string \<Rightarrow> nat \<Rightarrow> eaf_sendspin_player_state_t option \<Rightarrow> eaf_result_t \<times> nat \<times> string" where
  "eaf_sendspin_build_client_state dst capacity state =
     (case state of None \<Rightarrow> (EAF_INVALID, 0, dst)
      | Some state \<Rightarrow>
        if capacity = 0 then (EAF_INVALID, 0, dst)
        else let w = \<lparr>wr_buf = dst, wr_capacity = capacity, wr_used = 0, wr_ok = True\<rparr>;
                 w = wr_i64 (wr_lit w ''{\"payload\":{\"player\":{\"state\":\"synchronized\",\"volume\":'') (ps_volume state);
                 w = wr_lit (wr_lit w '',\"muted\":'') (if ps_muted state then ''true'' else ''false'');
                 w = wr_i64 (wr_lit w '',\"static_delay_ms\":'') (ps_static_delay_ms state);
                 w = wr_i64 (wr_lit w '',\"required_lead_time_ms\":'') (required_lead_time_ms state);
                 w = wr_i64 (wr_lit w '',\"min_buffer_ms\":'') (min_buffer_ms state);
                 w = wr_lit w ''}},\"type\":\"client/state\"}''
             in writer_finish w)"

section \<open>What the writer has written\<close>

text \<open>
  The writer started on \<open>dst\<close> has been given the text \<open>t\<close>: either all of it is in the buffer, or
  it does not fit and the writer has failed, with the buffer's length unchanged.
\<close>

definition wrote :: "string \<Rightarrow> nat \<Rightarrow> string \<Rightarrow> writer_t \<Rightarrow> bool" where
  "wrote dst cap t w \<longleftrightarrow> wr_capacity w = cap \<and> cap \<le> length dst \<and>
     (if length t \<le> cap then wr_ok w \<and> wr_used w = length t \<and> wr_buf w = blit dst 0 t else \<not> wr_ok w \<and> length (wr_buf w) = length dst)"

named_theorems writer_steps \<open>what each writer operation adds to the text\<close>

lemma wrote_start:
  "cap \<le> length dst \<Longrightarrow> wrote dst cap [] \<lparr>wr_buf = dst, wr_capacity = cap, wr_used = 0, wr_ok = True\<rparr>"
  by (simp add: wrote_def)

lemma wrote_raw [writer_steps]:
  assumes "wrote dst cap t w"
  shows "wrote dst cap (t @ u) (wr_raw w u)"
proof -
  have "blit (blit dst 0 t) (length t) u = blit dst 0 (t @ u)" by (simp add: blit_def add.commute)
  then show ?thesis using assms by (auto simp: wrote_def wr_raw_def split: if_splits)
qed

lemma wrote_lit [writer_steps]: "wrote dst cap t w \<Longrightarrow> wrote dst cap (t @ u) (wr_lit w u)"
  by (simp add: wr_lit_def wrote_raw)

lemma wrote_char [writer_steps]: "wrote dst cap t w \<Longrightarrow> wrote dst cap (t @ [c]) (wr_char w c)"
  by (simp add: wr_char_def wrote_raw)

lemma wrote_u64 [writer_steps]:
  assumes "wrote dst cap t w"
  shows "wrote dst cap (t @ rev (dec_digits v)) (wr_u64 w v)"
proof (cases "length t \<le> cap")
  case False
  then show ?thesis using assms by (auto simp: wrote_def wr_u64_def)
next
  case True
  let ?d = "rev (dec_digits v)"
  have w: "wr_ok w" "wr_used w = length t" "wr_buf w = blit dst 0 t" "wr_capacity w = cap" "cap \<le> length dst"
    using assms True by (simp_all add: wrote_def)
  have "eaf_bytes_write_u64_dec (drop (length t) (wr_buf w)) (cap - length t) v =
      (if length ?d > cap - length t then (0, drop (length t) (wr_buf w))
       else (length ?d, blit (drop (length t) (wr_buf w)) 0 ?d))"
    using write_u64_dec_eq [of "cap - length t" "drop (length t) (wr_buf w)" v] w True by simp
  moreover have "take (length t) (blit dst 0 t) @ blit (drop (length t) (blit dst 0 t)) 0 ?d = blit dst 0 (t @ ?d)"
    by (simp add: blit_def add.commute)
  moreover have "dec_digits v \<noteq> []" using dec_digits_pos [of v] by auto
  ultimately show ?thesis using w True by (auto simp: wrote_def wr_u64_def)
qed

lemma wrote_i64 [writer_steps]:
  assumes "wrote dst cap t w"
  shows "wrote dst cap (t @ print_int v) (wr_i64 w v)"
proof (cases "v < 0")
  case True
  have "of_int (- (v + 1)) + 1 = (of_int (- v) :: u64)" by simp
  then show ?thesis using True wrote_u64 [OF wrote_char [OF assms, of "CHR ''-''"], of "of_int (- v)"]
    by (simp add: wr_i64_def print_int_def)
qed (use wrote_u64 [OF assms] in \<open>simp add: wr_i64_def print_int_def\<close>)

definition escape_char :: "char \<Rightarrow> string" where
  "escape_char ch =
     (let c = of_char ch :: nat
      in if c = 34 then [CHR 0x5C, CHR 0x22] else if c = 92 then [CHR 0x5C, CHR 0x5C]
         else if c = 8 then [CHR 0x5C, CHR ''b''] else if c = 12 then [CHR 0x5C, CHR ''f'']
         else if c = 10 then [CHR 0x5C, CHR ''n''] else if c = 13 then [CHR 0x5C, CHR ''r'']
         else if c = 9 then [CHR 0x5C, CHR ''t'']
         else if c < 32 then [CHR 0x5C] @ ''u00'' @ [hex_digits ! (c div 16), hex_digits ! (c mod 16)]
         else [ch])"

definition json_escape :: "string \<Rightarrow> string" where
  "json_escape s = concat (map escape_char s)"

lemma wrote_json_char: "wrote dst cap t w \<Longrightarrow> wrote dst cap (t @ escape_char c) (wr_json_char c w)"
  by (auto simp: wr_json_char_def escape_char_def Let_def intro: wrote_lit wrote_raw wrote_char simp del: append_Cons)

lemma wrote_json_chars:
  "wrote dst cap t w \<Longrightarrow> wrote dst cap (t @ json_escape s) (fold wr_json_char s w)"
proof (induction s arbitrary: t w)
  case (Cons c s)
  from Cons.IH [OF wrote_json_char [OF Cons.prems]] show ?case by (simp add: json_escape_def)
qed (simp add: json_escape_def)

lemma wrote_json_string [writer_steps]:
  assumes "wrote dst cap t w"
  shows "wrote dst cap (t @ print_string (json_escape s)) (wr_json_string w s)"
  using wrote_char [OF wrote_json_chars [OF wrote_char [OF assms, of "CHR 0x22"], of s], of "CHR 0x22"]
  by (simp add: wr_json_string_def print_string_def)

text \<open>Escaping makes any string a valid string body.\<close>

lemma hex_digit_plain:
  assumes "i < 16"
  shows "hex_digits ! i \<noteq> CHR 0x22 \<and> hex_digits ! i \<noteq> CHR 0x5C"
proof -
  have "list_all (\<lambda>x. x \<noteq> CHR 0x22 \<and> x \<noteq> CHR 0x5C) hex_digits" by code_simp
  moreover have "length hex_digits = 16" by code_simp
  ultimately show ?thesis using assms by (simp add: list_all_length)
qed

lemma escaped_escape_char:
  assumes "escaped r"
  shows "escaped (escape_char c @ r)"
proof -
  have "hex_digits ! (of_char c mod 16) \<noteq> CHR 0x22 \<and> hex_digits ! (of_char c mod 16) \<noteq> CHR 0x5C"
    by (rule hex_digit_plain) simp
  moreover have "hex_digits ! (of_char c div 16) \<noteq> CHR 0x22 \<and> hex_digits ! (of_char c div 16) \<noteq> CHR 0x5C"
    if "of_char c < (32::nat)" by (rule hex_digit_plain) (use that in simp)
  moreover have "c \<noteq> CHR 0x22" if "of_char c \<noteq> (34::nat)" using that by auto
  moreover have "c \<noteq> CHR 0x5C" if "of_char c \<noteq> (92::nat)" using that by auto
  ultimately show ?thesis using assms
    by (auto simp: escape_char_def Let_def escaped_Cons)
qed

lemma escaped_escape [simp]: "escaped (json_escape s)"
  unfolding json_escape_def by (induction s) (simp_all add: escaped_escape_char)

section \<open>The messages as trees\<close>

definition client_time_json :: "int \<Rightarrow> json" where
  "client_time_json t =
     JObj [(''payload'', JObj [(''client_transmitted'', JNum t)]), (''type'', JStr ''client/time'')]"

definition client_state_json :: "eaf_sendspin_player_state_t \<Rightarrow> json" where
  "client_state_json st =
     JObj [(''payload'', JObj [(''player'', JObj
         [(''state'', JStr ''synchronized''), (''volume'', JNum (ps_volume st)), (''muted'', JBool (ps_muted st)),
          (''static_delay_ms'', JNum (ps_static_delay_ms st)), (''required_lead_time_ms'', JNum (required_lead_time_ms st)),
          (''min_buffer_ms'', JNum (min_buffer_ms st))])]),
       (''type'', JStr ''client/state'')]"

definition format_json :: "eaf_sendspin_format_t \<Rightarrow> json" where
  "format_json f =
     JObj ([(''codec'', JStr (the (codec_name (fmt_codec f)))), (''channels'', JNum (uint (fmt_channels f))),
            (''sample_rate'', JNum (uint (fmt_sample_rate f)))] @
           (if fmt_codec f = EAF_SENDPIN_CODEC_PCM \<and> fmt_bit_depth f \<noteq> 0
            then [(''bit_depth'', JNum (uint (fmt_bit_depth f)))] else []))"

definition advertised :: "eaf_sendspin_client_hello_t \<Rightarrow> eaf_sendspin_format_t list" where
  "advertised hello =
     (let fs = filter (\<lambda>f. codec_name (fmt_codec f) \<noteq> None) (formats hello)
      in if fs = []
         then [\<lparr>fmt_codec = EAF_SENDPIN_CODEC_PCM, fmt_sample_rate = ch_sample_rate hello,
                fmt_channels = ch_channels hello, fmt_bit_depth = ch_bit_depth hello\<rparr>]
         else fs)"

definition opt_member :: "string \<Rightarrow> string option \<Rightarrow> (string \<times> json) list" where
  "opt_member k v = (case v of None \<Rightarrow> [] | Some s \<Rightarrow> [(k, JStr (json_escape s))])"

definition device_members :: "eaf_sendspin_client_hello_t \<Rightarrow> (string \<times> json) list" where
  "device_members hello = opt_member ''product_name'' (product_name hello) @
     opt_member ''manufacturer'' (manufacturer hello) @ opt_member ''software_version'' (software_version hello)"

definition client_hello_json :: "string \<Rightarrow> string \<Rightarrow> eaf_sendspin_client_hello_t \<Rightarrow> json" where
  "client_hello_json cid nm hello =
     JObj [(''payload'', JObj (
         [(''client_id'', JStr (json_escape cid)), (''name'', JStr (json_escape nm)), (''version'', JNum 1),
          (''supported_roles'', JArr [JStr ''player@v1''])] @
         (if device_members hello = [] then [] else [(''device_info'', JObj (device_members hello))]) @
         [(''player@v1_support'', JObj
            [(''supported_formats'', JArr (map format_json (advertised hello))),
             (''buffer_capacity'', JNum (uint (buffer_capacity hello))),
             (''supported_commands'', JArr ((if support_volume hello then [JStr ''volume''] else []) @
                (if support_mute hello then [JStr ''mute''] else [])))])])),
       (''type'', JStr ''client/hello'')]"

lemma print_elems_snoc: "xs \<noteq> [] \<Longrightarrow> print_elems (xs @ [y]) = print_elems xs @ CHR '','' # print y"
proof (induction xs)
  case (Cons x xs)
  then show ?case by (cases xs) auto
qed simp

lemma print_word: "rev (dec_digits (ucast (x::u8))) = print_int (uint x)"
  "rev (dec_digits (ucast (y::u32))) = print_int (uint y)"
  unfolding print_int_def by (simp_all add: not_less)

lemma escape_plain: "list_all (\<lambda>c. 32 \<le> (of_char c :: nat) \<and> of_char c \<noteq> (34::nat) \<and> of_char c \<noteq> (92::nat)) s \<Longrightarrow> json_escape s = s"
  by (induction s) (auto simp: json_escape_def escape_char_def Let_def)

lemma codec_name_plain: "codec_name c = Some s \<Longrightarrow> json_escape s = s"
  by (cases c) (auto intro!: escape_plain)

lemma wrote_format:
  assumes "wrote dst cap t w" and "codec_name (fmt_codec f) \<noteq> None"
  shows "wrote dst cap (t @ print (format_json f)) (write_format f w)"
proof -
  let ?n = "the (codec_name (fmt_codec f))"
  let ?w = "wr_u64 (wr_lit (wr_u64 (wr_lit (wr_json_string (wr_lit w ''{\"codec\":'') ?n) '',\"channels\":'')
      (ucast (fmt_channels f))) '',\"sample_rate\":'') (ucast (fmt_sample_rate f))"
  have e: "json_escape ?n = ?n" using assms(2) codec_name_plain by auto
  have w: "wrote dst cap ((((((t @ ''{\"codec\":'') @ print_string (json_escape ?n)) @ '',\"channels\":'') @
      rev (dec_digits (ucast (fmt_channels f)))) @ '',\"sample_rate\":'') @ rev (dec_digits (ucast (fmt_sample_rate f)))) ?w"
    by (intro writer_steps assms(1))
  show ?thesis
  proof (cases "fmt_codec f = EAF_SENDPIN_CODEC_PCM \<and> fmt_bit_depth f \<noteq> 0")
    case True
    then show ?thesis
      using wrote_lit [OF wrote_u64 [OF wrote_lit [OF w, of "'',\"bit_depth\":''"], of "ucast (fmt_bit_depth f)"], of "''}''"] e
      by (simp add: write_format_def format_json_def print_string_def print_word Let_def)
  next
    case False
    then show ?thesis using wrote_lit [OF w, of "''}''"] e
      by (auto simp: write_format_def format_json_def print_string_def print_word Let_def)
  qed
qed

text \<open>The format loop: the text so far ends in the advertised formats of the prefix.\<close>

lemma wrote_format_loop:
  assumes "wrote dst cap (t @ print_elems (map format_json xs)) w"
  shows "\<exists>w'. fold (\<lambda>f (w, emitted).
            if codec_name (fmt_codec f) = None then (w, emitted)
            else (write_format f (if emitted \<noteq> 0 then wr_char w (CHR '','') else w), emitted + 1))
            fs (w, length xs) = (w', length (xs @ filter (\<lambda>f. codec_name (fmt_codec f) \<noteq> None) fs)) \<and>
    wrote dst cap (t @ print_elems (map format_json (xs @ filter (\<lambda>f. codec_name (fmt_codec f) \<noteq> None) fs))) w'"
  using assms
proof (induction fs arbitrary: xs w)
  case (Cons f fs)
  show ?case
  proof (cases "codec_name (fmt_codec f) = None")
    case True
    then show ?thesis using Cons by simp
  next
    case False
    let ?w = "write_format f (if length xs \<noteq> 0 then wr_char w (CHR '','') else w)"
    have "wrote dst cap (t @ print_elems (map format_json (xs @ [f]))) ?w"
    proof (cases "xs = []")
      case True
      then show ?thesis using wrote_format [of dst cap t w f] Cons.prems False by simp
    next
      case ne: False
      then show ?thesis using wrote_format [OF wrote_char [OF Cons.prems] False, of "CHR '',''"]
        by (simp add: print_elems_snoc)
    qed
    from Cons.IH [OF this] False show ?thesis by auto
  qed
qed simp

lemma wrote_formats:
  assumes "wrote dst cap t w"
  shows "wrote dst cap (t @ print_elems (map format_json (advertised hello))) (write_formats hello w)"
proof -
  let ?fs = "filter (\<lambda>f. codec_name (fmt_codec f) \<noteq> None) (formats hello)"
  obtain w' where w: "fold (\<lambda>f (w, emitted).
        if codec_name (fmt_codec f) = None then (w, emitted)
        else (write_format f (if emitted \<noteq> 0 then wr_char w (CHR '','') else w), emitted + 1))
        (formats hello) (w, 0::nat) = (w', length ?fs)"
      "wrote dst cap (t @ print_elems (map format_json ?fs)) w'"
    using wrote_format_loop [of dst cap t "[]" w "formats hello"] assms by auto
  show ?thesis
  proof (cases "?fs = []")
    case True
    then show ?thesis using w wrote_format [of dst cap t w'] by (simp add: write_formats_def advertised_def Let_def)
  next
    case False
    then show ?thesis using w by (simp add: write_formats_def advertised_def Let_def)
  qed
qed

lemma wrote_device_info:
  assumes "wrote dst cap t w"
  shows "wrote dst cap (t @ (if device_members hello = [] then []
      else '',\"device_info\":'' @ print (JObj (device_members hello)))) (write_device_info hello w)"
proof -
  let ?l = "\<lambda>w s u. wr_json_string (wr_lit w s) u"
  have step: "wrote dst cap (u @ l @ print_string (json_escape v)) (?l x l v)" if "wrote dst cap u x" for u x l v
    using wrote_json_string [OF wrote_lit [OF that]] by simp
  let ?t = "t @ '',\"device_info\":{''" and ?w = "wr_lit w '',\"device_info\":{''"
  have S: "wrote dst cap ?t ?w" by (rule wrote_lit [OF assms])
  note defs = write_device_info_def device_members_def opt_member_def print_string_def Let_def
  show ?thesis
  proof (cases "product_name hello")
    case p: None
    show ?thesis
    proof (cases "manufacturer hello")
      case m: None
      show ?thesis
      proof (cases "software_version hello")
        case None
        then show ?thesis using assms p m by (simp add: defs)
      next
        case (Some v)
        then show ?thesis using wrote_lit [OF step [OF S, of "''\"software_version\":''" v], of "''}''"] p m by (simp add: defs)
      qed
    next
      case m: (Some b)
      note B = step [OF S, of "''\"manufacturer\":''" b]
      show ?thesis
        using p m wrote_lit [OF B, of "''}''"] wrote_lit [OF step [OF B, of "'',\"software_version\":''" "the (software_version hello)"], of "''}''"]
        by (cases "software_version hello") (simp_all add: defs)
    qed
  next
    case p: (Some a)
    note A = step [OF S, of "''\"product_name\":''" a]
    show ?thesis
    proof (cases "manufacturer hello")
      case m: None
      show ?thesis
        using p m wrote_lit [OF A, of "''}''"] wrote_lit [OF step [OF A, of "'',\"software_version\":''" "the (software_version hello)"], of "''}''"]
        by (cases "software_version hello") (simp_all add: defs)
    next
      case m: (Some b)
      note B = step [OF A, of "'',\"manufacturer\":''" b]
      show ?thesis
        using p m wrote_lit [OF B, of "''}''"] wrote_lit [OF step [OF B, of "'',\"software_version\":''" "the (software_version hello)"], of "''}''"]
        by (cases "software_version hello") (simp_all add: defs)
    qed
  qed
qed

lemma wrote_commands:
  assumes "wrote dst cap t w"
  shows "wrote dst cap (t @ print_elems ((if support_volume hello then [JStr ''volume''] else []) @
      (if support_mute hello then [JStr ''mute''] else []))) (write_commands hello w)"
proof -
  have "wrote dst cap (t @ ''\"volume\"'') (wr_lit w ''\"volume\"'')" "wrote dst cap (t @ ''\"mute\"'') (wr_lit w ''\"mute\"'')"
    "wrote dst cap (((t @ ''\"volume\"'') @ '','') @ ''\"mute\"'') (wr_lit (wr_lit (wr_lit w ''\"volume\"'') '','') ''\"mute\"'')"
    by (intro writer_steps assms)+
  with assms show ?thesis by (simp add: write_commands_def print_string_def Let_def)
qed

lemma wrote_finish:
  assumes "wrote dst cap t w"
  shows "case writer_finish w of (rc, n, buf) \<Rightarrow>
    if length t \<le> cap then rc = EAF_OK \<and> n = length t \<and> buf = blit dst 0 t else rc = EAF_INVALID"
  using assms by (simp add: wrote_def writer_finish_def)

lemma wrote_client_time:
  assumes "cap \<le> length dst"
  shows "wrote dst cap (print (client_time_json t))
    (wr_lit (wr_i64 (wr_lit \<lparr>wr_buf = dst, wr_capacity = cap, wr_used = 0, wr_ok = True\<rparr>
       ''{\"payload\":{\"client_transmitted\":'') t) ''},\"type\":\"client/time\"}'')"
  using wrote_lit [OF wrote_i64 [OF wrote_lit [OF wrote_start [OF assms], of "''{\"payload\":{\"client_transmitted\":''"], of t],
      of "''},\"type\":\"client/time\"}''"]
  by (simp add: client_time_json_def print_string_def)

lemma wrote_client_state:
  assumes "wrote dst cap [] w0"
  shows "wrote dst cap (print (client_state_json st))
    (let w = wr_i64 (wr_lit w0 ''{\"payload\":{\"player\":{\"state\":\"synchronized\",\"volume\":'') (ps_volume st);
         w = wr_lit (wr_lit w '',\"muted\":'') (if ps_muted st then ''true'' else ''false'');
         w = wr_i64 (wr_lit w '',\"static_delay_ms\":'') (ps_static_delay_ms st);
         w = wr_i64 (wr_lit w '',\"required_lead_time_ms\":'') (required_lead_time_ms st);
         w = wr_i64 (wr_lit w '',\"min_buffer_ms\":'') (min_buffer_ms st)
     in wr_lit w ''}},\"type\":\"client/state\"}'')"
proof -
  let ?t = "(((((((((([] @ ''{\"payload\":{\"player\":{\"state\":\"synchronized\",\"volume\":'') @ print_int (ps_volume st)) @
      '',\"muted\":'') @ (if ps_muted st then ''true'' else ''false'')) @ '',\"static_delay_ms\":'') @
      print_int (ps_static_delay_ms st)) @ '',\"required_lead_time_ms\":'') @ print_int (required_lead_time_ms st)) @
      '',\"min_buffer_ms\":'') @ print_int (min_buffer_ms st)) @ ''}},\"type\":\"client/state\"}''"
  have "?t = print (client_state_json st)" by (simp add: client_state_json_def print_string_def)
  moreover have "wrote dst cap ?t
    (let w = wr_i64 (wr_lit w0 ''{\"payload\":{\"player\":{\"state\":\"synchronized\",\"volume\":'') (ps_volume st);
         w = wr_lit (wr_lit w '',\"muted\":'') (if ps_muted st then ''true'' else ''false'');
         w = wr_i64 (wr_lit w '',\"static_delay_ms\":'') (ps_static_delay_ms st);
         w = wr_i64 (wr_lit w '',\"required_lead_time_ms\":'') (required_lead_time_ms st);
         w = wr_i64 (wr_lit w '',\"min_buffer_ms\":'') (min_buffer_ms st)
     in wr_lit w ''}},\"type\":\"client/state\"}'')"
    unfolding Let_def by (intro writer_steps assms)
  ultimately show ?thesis by (simp only:)
qed

lemma print_one: "print_int 1 = ''1''"
  by code_simp

lemma print_hello:
  "print (client_hello_json cid nm hello) =
     ''{\"payload\":{\"client_id\":'' @ print_string (json_escape cid) @ '',\"name\":'' @ print_string (json_escape nm) @
     '',\"version\":1,\"supported_roles\":[\"player@v1\"]'' @
     (if device_members hello = [] then [] else '',\"device_info\":'' @ print (JObj (device_members hello))) @
     '',\"player@v1_support\":{\"supported_formats\":['' @ print_elems (map format_json (advertised hello)) @
     ''],\"buffer_capacity\":'' @ print_int (uint (buffer_capacity hello)) @ '',\"supported_commands\":['' @
     print_elems ((if support_volume hello then [JStr ''volume''] else []) @ (if support_mute hello then [JStr ''mute''] else [])) @
     '']}'' @ ''},\"type\":\"client/hello\"}''"
proof (cases "device_members hello = []")
  case True
  then show ?thesis by (simp add: client_hello_json_def print_string_def print_one)
next
  case False
  then show ?thesis by (simp add: client_hello_json_def print_string_def print_one)
qed

lemma wrote_client_hello:
  assumes "wrote dst cap [] w0"
  shows "wrote dst cap (print (client_hello_json cid nm hello))
    (let w = wr_json_string (wr_lit w0 ''{\"payload\":{\"client_id\":'') cid;
         w = wr_json_string (wr_lit w '',\"name\":'') nm;
         w = wr_lit w '',\"version\":1,\"supported_roles\":[\"player@v1\"]'';
         w = write_device_info hello w;
         w = wr_lit w '',\"player@v1_support\":{\"supported_formats\":['';
         w = write_formats hello w;
         w = wr_u64 (wr_lit w ''],\"buffer_capacity\":'') (ucast (buffer_capacity hello));
         w = write_commands hello (wr_lit w '',\"supported_commands\":['');
         w = wr_lit w '']}''
     in wr_lit w ''},\"type\":\"client/hello\"}'')"
    (is "wrote _ _ _ ?w")
proof -
  let ?t = "((((((((((((([] @ ''{\"payload\":{\"client_id\":'') @ print_string (json_escape cid)) @ '',\"name\":'') @
      print_string (json_escape nm)) @ '',\"version\":1,\"supported_roles\":[\"player@v1\"]'') @
      (if device_members hello = [] then [] else '',\"device_info\":'' @ print (JObj (device_members hello)))) @
      '',\"player@v1_support\":{\"supported_formats\":['') @ print_elems (map format_json (advertised hello))) @
      ''],\"buffer_capacity\":'') @ rev (dec_digits (ucast (buffer_capacity hello)))) @ '',\"supported_commands\":['') @
      print_elems ((if support_volume hello then [JStr ''volume''] else []) @ (if support_mute hello then [JStr ''mute''] else []))) @
      '']}'') @ ''},\"type\":\"client/hello\"}''"
  have "wrote dst cap ?t ?w" unfolding Let_def
    by (intro writer_steps wrote_device_info wrote_formats wrote_commands assms)
  moreover have "?t = print (client_hello_json cid nm hello)" unfolding print_hello by (simp only: append_assoc append_Nil print_word)
  ultimately show ?thesis by (simp only:)
qed

section \<open>Messages read from trees\<close>

definition num_at :: "(string \<times> json) list \<Rightarrow> string \<Rightarrow> int option" where
  "num_at ms k = (case map_of ms k of Some (JNum n) \<Rightarrow> Some n | _ \<Rightarrow> None)"

definition str_at :: "(string \<times> json) list \<Rightarrow> string \<Rightarrow> string option" where
  "str_at ms k = (case map_of ms k of Some (JStr s) \<Rightarrow> Some s | _ \<Rightarrow> None)"

definition obj_at :: "(string \<times> json) list \<Rightarrow> string \<Rightarrow> (string \<times> json) list option" where
  "obj_at ms k = (case map_of ms k of Some (JObj os) \<Rightarrow> Some os | _ \<Rightarrow> None)"

definition payload_of :: "json \<Rightarrow> (string \<times> json) list option" where
  "payload_of j = (case j of JObj ms \<Rightarrow> obj_at ms ''payload'' | _ \<Rightarrow> None)"

lemma members_ok_lookup: "members_ok ms \<Longrightarrow> map_of ms k = Some v \<Longrightarrow> json_ok v"
  by (induction ms) (auto split: if_splits)

lemma obj_at_ok: "members_ok ms \<Longrightarrow> obj_at ms k = Some os \<Longrightarrow> members_ok os"
  by (auto simp: obj_at_def split: option.splits json.splits dest: members_ok_lookup)

lemma payload_ok: "json_ok j \<Longrightarrow> payload_of j = Some ms \<Longrightarrow> members_ok ms"
  by (auto simp: payload_of_def split: json.splits dest: obj_at_ok)

lemma value_types [simp]:
  "json_type (value_of v) = (case v of JNull \<Rightarrow> EAF_SENDPIN_JSON_NULL | JBool _ \<Rightarrow> EAF_SENDPIN_JSON_BOOL
     | JNum _ \<Rightarrow> EAF_SENDPIN_JSON_NUMBER | JLit _ _ _ _ \<Rightarrow> EAF_SENDPIN_JSON_NULL | JStr _ \<Rightarrow> EAF_SENDPIN_JSON_STRING | JArr _ \<Rightarrow> EAF_SENDPIN_JSON_ARRAY
     | JObj _ \<Rightarrow> EAF_SENDPIN_JSON_OBJECT)"
  by (cases v) (simp_all add: zero_json_def)

lemma get_payload_printed:
  assumes "json_ok j"
  shows "case payload_of j of
      None \<Rightarrow> \<exists>rc. get_payload (Some (print j)) = Inl rc
    | Some ms \<Rightarrow> get_payload (Some (print j)) = Inr (value_of (JObj ms))"
proof -
  have seg: "segments ''payload'' = [''payload'']" by code_simp
  have "eaf_sendspin_json_get (Some (print j)) (Some ''payload'') =
      (case json_lookup j [''payload''] of Inl rc \<Rightarrow> Inl rc | Inr v \<Rightarrow> Inr (value_of v))"
    using json_get_printed [OF assms, of "[]" "''payload''"] seg by (simp add: eaf_sendspin_json_get_def)
  then show ?thesis
    by (cases j) (auto simp: get_payload_def payload_of_def obj_at_def split: option.splits json.splits)
qed

text \<open>Fields in the state \<open>scan_fields\<close> leaves them.\<close>

lemma read_value_field [simp]:
  "field_value (read_field ms ((value_field k)\<lparr>field_value := zero_json\<rparr>)) =
     (case map_of ms k of None \<Rightarrow> zero_json | Some v \<Rightarrow> value_of v)"
  "found (read_field ms ((value_field k)\<lparr>field_value := zero_json\<rparr>)) \<longleftrightarrow> map_of ms k \<noteq> None"
  by (simp_all add: read_field_def value_field_def split: option.splits)

lemma number_field: "is_number (case map_of ms k of None \<Rightarrow> zero_json | Some v \<Rightarrow> value_of v) \<longleftrightarrow> num_at ms k \<noteq> None"
  "num_at ms k = Some n \<Longrightarrow> number (case map_of ms k of None \<Rightarrow> zero_json | Some v \<Rightarrow> value_of v) = n"
  by (auto simp: is_number_def num_at_def zero_json_def split: option.splits json.splits)

lemma string_field: "string_view (case map_of ms k of None \<Rightarrow> zero_json | Some v \<Rightarrow> value_of v) = str_at ms k"
  by (auto simp: string_view_def str_at_def zero_json_def split: option.splits json.splits)

definition codec_of_name :: "string \<Rightarrow> eaf_sendspin_codec_t" where
  "codec_of_name s =
     (if s = ''pcm'' then EAF_SENDPIN_CODEC_PCM else if s = ''flac'' then EAF_SENDPIN_CODEC_FLAC
      else if s = ''opus'' then EAF_SENDPIN_CODEC_OPUS else if s = ''mp3'' then EAF_SENDPIN_CODEC_MP3
      else if s = ''vorbis'' then EAF_SENDPIN_CODEC_VORBIS else EAF_SENDPIN_CODEC_UNKNOWN)"

definition server_time_of :: "json \<Rightarrow> eaf_sendspin_server_time_t option" where
  "server_time_of j =
     Option.bind (payload_of j) (\<lambda>ms.
     Option.bind (num_at ms ''client_transmitted'') (\<lambda>a.
     Option.bind (num_at ms ''server_received'') (\<lambda>b.
     Option.bind (num_at ms ''server_transmitted'') (\<lambda>c.
     Some \<lparr>client_transmitted = a, server_received = b, st_server_transmitted = c\<rparr>))))"

definition stream_start_of :: "json \<Rightarrow> eaf_sendspin_stream_start_t option" where
  "stream_start_of j =
     Option.bind (payload_of j) (\<lambda>ms.
     Option.bind (obj_at ms ''player'') (\<lambda>ps.
     Option.bind (map_of ps ''codec'') (\<lambda>cdc.
     Option.bind (num_at ps ''sample_rate'') (\<lambda>rate.
     Option.bind (num_at ps ''channels'') (\<lambda>ch.
     Option.bind (num_at ps ''bit_depth'') (\<lambda>bits.
     Some \<lparr>ss_server_transmitted = (case num_at ms ''server_transmitted'' of None \<Rightarrow> 0 | Some t \<Rightarrow> t),
           ss_codec = (case cdc of JStr s \<Rightarrow> codec_of_name s | _ \<Rightarrow> EAF_SENDPIN_CODEC_UNKNOWN),
           ss_sample_rate = of_int rate, ss_channels = of_int ch, ss_bit_depth = of_int bits,
           codec_header = str_at ps ''codec_header''\<rparr>))))))"

lemma codec_of_value: "codec_from_value (value_of v) = (case v of JStr s \<Rightarrow> codec_of_name s | _ \<Rightarrow> EAF_SENDPIN_CODEC_UNKNOWN)"
  by (cases v) (simp_all add: codec_from_value_def codec_of_name_def eaf_sendspin_json_string_equals_def zero_json_def)

lemma raw_value [simp]: "raw (value_of v) = print v"
  by (cases v) simp_all

lemma parse_server_time_printed:
  assumes "json_ok j"
  shows "case server_time_of j of Some m \<Rightarrow> eaf_sendspin_parse_server_time (Some (print j)) out = (EAF_OK, m)
    | None \<Rightarrow> fst (eaf_sendspin_parse_server_time (Some (print j)) out) = EAF_INVALID"
proof (cases "payload_of j")
  case None
  then show ?thesis using get_payload_printed [OF assms]
    by (auto simp: eaf_sendspin_parse_server_time_def server_time_of_def)
next
  case (Some ms)
  have g: "get_payload (Some (print j)) = Inr (value_of (JObj ms))" using get_payload_printed [OF assms] Some by simp
  let ?fs = "[value_field ''client_transmitted'', value_field ''server_received'', value_field ''server_transmitted'']"
  have "fields_ok ?fs" by (simp add: fields_ok_def value_field_def)
  note F = scan_fields_printed [OF this payload_ok [OF assms Some]]
  show ?thesis
    using number_field [of ms "''client_transmitted''"] number_field [of ms "''server_received''"] number_field [of ms "''server_transmitted''"]
    by (auto simp: eaf_sendspin_parse_server_time_def g F server_time_of_def Some raw_value
        simp del: print.simps split: bind_splits)
qed

lemma parse_stream_start_printed:
  assumes "json_ok j"
  shows "case stream_start_of j of Some m \<Rightarrow> eaf_sendspin_parse_stream_start (Some (print j)) out = (EAF_OK, m)
    | None \<Rightarrow> fst (eaf_sendspin_parse_stream_start (Some (print j)) out) = EAF_INVALID"
proof (cases "payload_of j")
  case None
  then show ?thesis using get_payload_printed [OF assms]
    by (auto simp: eaf_sendspin_parse_stream_start_def stream_start_of_def Let_def)
next
  case (Some ms)
  have g: "get_payload (Some (print j)) = Inr (value_of (JObj ms))" using get_payload_printed [OF assms] Some by simp
  have "fields_ok [value_field ''player'', value_field ''server_transmitted'']" by (simp add: fields_ok_def value_field_def)
  note F = scan_fields_printed [OF this payload_ok [OF assms Some]]
  show ?thesis
  proof (cases "obj_at ms ''player''")
    case None
    then show ?thesis
      by (auto simp: eaf_sendspin_parse_stream_start_def g F stream_start_of_def Some Let_def obj_at_def
          simp del: print.simps split: option.splits json.splits)
  next
    case ps: (Some ps)
    then have m: "map_of ms ''player'' = Some (JObj ps)" by (auto simp: obj_at_def split: option.splits json.splits)
    let ?fs = "[value_field ''codec'', value_field ''sample_rate'', value_field ''channels'', value_field ''bit_depth'',
      value_field ''codec_header'']"
    have "fields_ok ?fs" by (simp add: fields_ok_def value_field_def)
    note P = scan_fields_printed [OF this obj_at_ok [OF payload_ok [OF assms Some] ps]]
    show ?thesis
      using number_field [of ps "''sample_rate''"] number_field [of ps "''channels''"] number_field [of ps "''bit_depth''"]
        number_field [of ms "''server_transmitted''"]
      by (auto simp: eaf_sendspin_parse_stream_start_def g F P m ps stream_start_of_def Some Let_def string_field
          codec_of_value zero_stream_start_def simp del: print.simps split: bind_splits option.splits)
  qed
qed

section \<open>Properties\<close>

text \<open>
  The parsers of \<open>server/time\<close> and \<open>stream/start\<close> read the message off its tree: they succeed
  exactly when the tree has a payload object with the required members of the required
  types, and then return their values; every other message is \<open>EAF_INVALID\<close>.
\<close>

theorem messages_parsed:
  assumes "json_ok j"
  shows "(case server_time_of j of Some m \<Rightarrow> eaf_sendspin_parse_server_time (Some (print j)) out1 = (EAF_OK, m)
      | None \<Rightarrow> fst (eaf_sendspin_parse_server_time (Some (print j)) out1) = EAF_INVALID) \<and>
    (case stream_start_of j of Some m \<Rightarrow> eaf_sendspin_parse_stream_start (Some (print j)) out2 = (EAF_OK, m)
      | None \<Rightarrow> fst (eaf_sendspin_parse_stream_start (Some (print j)) out2) = EAF_INVALID)"
  by (intro conjI parse_server_time_printed parse_stream_start_printed assms)

theorem messages_parsed_witness:
  "eaf_sendspin_parse_server_time (Some (print (JObj [(''payload'', JObj [(''server_received'', JNum 7),
       (''client_transmitted'', JNum (- 3)), (''server_transmitted'', JNum 9)])])))
       \<lparr>client_transmitted = 0, server_received = 0, st_server_transmitted = 0\<rparr> =
     (EAF_OK, \<lparr>client_transmitted = - 3, server_received = 7, st_server_transmitted = 9\<rparr>)"
proof -
  let ?j = "JObj [(''payload'', JObj [(''server_received'', JNum 7),
       (''client_transmitted'', JNum (- 3)), (''server_transmitted'', JNum 9)])]"
  have ok: "json_ok ?j" by code_simp
  have "server_time_of ?j = Some \<lparr>client_transmitted = - 3, server_received = 7, st_server_transmitted = 9\<rparr>"
    by (simp add: server_time_of_def payload_of_def obj_at_def num_at_def)
  with messages_parsed [OF ok, of "\<lparr>client_transmitted = 0, server_received = 0, st_server_transmitted = 0\<rparr>"] show ?thesis by simp
qed

definition emits :: "eaf_result_t \<times> nat \<times> string \<Rightarrow> string \<Rightarrow> nat \<Rightarrow> json \<Rightarrow> bool" where
  "emits r dst cap j \<longleftrightarrow> (case r of (rc, n, buf) \<Rightarrow>
     if length (print j) \<le> cap
     then rc = EAF_OK \<and> n = length (print j) \<and> take n buf = print j \<and> drop n buf = drop n dst
     else rc = EAF_INVALID)"

lemma emits_wrote: "wrote dst cap (print j) w \<Longrightarrow> emits (writer_finish w) dst cap j"
  using wrote_finish [of dst cap "print j" w] by (auto simp: emits_def blit_def split: if_splits)

text \<open>
  C30: The builders emit well-formed messages: for every client description, state and time
  stamp the buffer receives exactly the compact JSON text of the message, with all strings
  escaped, followed by its old contents; when that text does not fit, the builder fails.
\<close>

theorem builders_emit_json:
  assumes "0 < cap" and "cap \<le> length dst" and "client_id hello = Some cid" and "ch_name hello = Some nm"
  shows "emits (eaf_sendspin_build_client_hello dst cap (Some hello)) dst cap (client_hello_json cid nm hello) \<and>
    emits (eaf_sendspin_build_client_state dst cap (Some st)) dst cap (client_state_json st) \<and>
    emits (eaf_sendspin_build_client_time dst cap t) dst cap (client_time_json t)"
proof (intro conjI)
  note start = wrote_start [OF assms(2)]
  show "emits (eaf_sendspin_build_client_hello dst cap (Some hello)) dst cap (client_hello_json cid nm hello)"
    using emits_wrote [OF wrote_client_hello [OF start, of cid nm hello]] assms(1,3,4)
    by (simp add: eaf_sendspin_build_client_hello_def Let_def)
  show "emits (eaf_sendspin_build_client_state dst cap (Some st)) dst cap (client_state_json st)"
    using emits_wrote [OF wrote_client_state [OF start, of st]] assms(1)
    by (simp add: eaf_sendspin_build_client_state_def Let_def)
  show "emits (eaf_sendspin_build_client_time dst cap t) dst cap (client_time_json t)"
    using emits_wrote [OF wrote_client_time [OF assms(2), of t]] assms(1)
    by (simp add: eaf_sendspin_build_client_time_def Let_def)
qed

definition example_hello :: eaf_sendspin_client_hello_t where
  "example_hello = \<lparr>client_id = Some ''a\"b'', ch_name = Some ''n'', product_name = None, manufacturer = Some ''m'',
     software_version = None, formats = [], ch_sample_rate = 48000, ch_channels = 2, ch_bit_depth = 16,
     buffer_capacity = 1000, support_volume = True, support_mute = True\<rparr>"

theorem builders_emit_json_witness:
  "emits (eaf_sendspin_build_client_hello (replicate 512 CHR ''x'') 512 (Some example_hello)) (replicate 512 CHR ''x'') 512
     (client_hello_json ''a\"b'' ''n'' example_hello)"
proof -
  have "(0::nat) < 512" "512 \<le> length (replicate 512 CHR ''x'')" by simp_all
  moreover have "client_id example_hello = Some ''a\"b''" "ch_name example_hello = Some ''n''" by (simp_all add: example_hello_def)
  ultimately show ?thesis using builders_emit_json [of 512 "replicate 512 CHR ''x''" example_hello] by blast
qed

text \<open>
  A time request survives the trip: the message built for any 64-bit time stamp is read
  back by the JSON reader as that number, and 100 bytes of buffer always suffice.
\<close>

theorem client_time_round_trip:
  assumes "is_i64 t" and "100 \<le> cap" and "cap \<le> length dst"
  shows "\<exists>n buf. eaf_sendspin_build_client_time dst cap t = (EAF_OK, n, buf) \<and> n \<le> 100 \<and>
    eaf_sendspin_json_get (Some (take n buf)) (Some ''payload.client_transmitted'') = Inr (value_of (JNum t)) \<and>
    eaf_sendspin_json_get (Some (take n buf)) (Some ''type'') = Inr (value_of (JStr ''client/time''))"
proof -
  let ?j = "client_time_json t"
  have "length (print_int t) \<le> 21" using dec_digits_length [of "of_int t"] dec_digits_length [of "of_int (- t)"]
    by (auto simp: print_int_def)
  then have len: "length (print ?j) \<le> 100" by (simp add: client_time_json_def print_string_def)
  have "emits (eaf_sendspin_build_client_time dst cap t) dst cap ?j"
    using emits_wrote [OF wrote_client_time [OF assms(3), of t]] assms(2)
    by (simp add: eaf_sendspin_build_client_time_def Let_def)
  then obtain n buf where b: "eaf_sendspin_build_client_time dst cap t = (EAF_OK, n, buf)" "n = length (print ?j)"
      "take n buf = print ?j"
    using len assms(2) by (auto simp: emits_def split: prod.splits)
  have ok: "json_ok ?j" using assms(1) by (simp add: client_time_json_def escaped_Cons)
  have seg: "segments ''payload.client_transmitted'' = [''payload'', ''client_transmitted'']" "segments ''type'' = [''type'']"
    by code_simp+
  have "eaf_sendspin_json_get (Some (print ?j)) (Some p) =
      (case json_lookup ?j (segments p) of Inl rc \<Rightarrow> Inl rc | Inr v \<Rightarrow> Inr (value_of v))" if "p \<noteq> []" for p
    using json_get_printed [OF ok, of "[]" p] that by (simp add: eaf_sendspin_json_get_def)
  from this [of "''payload.client_transmitted''"] this [of "''type''"] b len show ?thesis
    by (simp add: seg client_time_json_def)
qed

theorem client_time_round_trip_witness:
  "\<exists>n buf. eaf_sendspin_build_client_time (replicate 100 CHR ''x'') 100 (- 9223372036854775808) = (EAF_OK, n, buf) \<and>
    eaf_sendspin_json_get (Some (take n buf)) (Some ''payload.client_transmitted'') = Inr (value_of (JNum (- 9223372036854775808)))"
proof -
  have "is_i64 (- 9223372036854775808)" "(100::nat) \<le> 100" "100 \<le> length (replicate 100 CHR ''x'')"
    by (simp_all add: is_i64_def)
  from client_time_round_trip [OF this] show ?thesis by blast
qed

end
