(* ===== verification/Chunked.thy ===== *)
theory Chunked
  imports EAF_Types
begin

text \<open>
  The interface of the streaming readers (the WebSocket frame decoder and the LMS packet
  parser): a loop that consumes a byte stream one iteration at a time and may suspend
  anywhere. \<open>ok\<close> is its invariant and \<open>safe\<close> what also holds after an error. An iteration that runs out of input behaves, on more input, like the iteration
  that had it all; the theorem of the interface is that the loop then cannot observe how the
  stream is cut into reads.
\<close>

section \<open>Suspendable loops\<close>

locale chunked_loop =
  fixes ok :: "'s \<Rightarrow> bool"
    and safe :: "'s \<Rightarrow> bool"
    and step :: "'s \<Rightarrow> 'b list \<Rightarrow> (eaf_result_t \<times> 's) + ('s \<times> 'b list)"
    and loop :: "'s \<Rightarrow> 'b list \<Rightarrow> eaf_result_t \<times> 's"
    and rank :: "'s \<Rightarrow> nat"
  assumes loop_Nil: "loop s [] = (EAF_OK, s)"
    and loop_Cons: "xs \<noteq> [] \<Longrightarrow> loop s xs = (case step s xs of Inl r \<Rightarrow> r | Inr (s', xs') \<Rightarrow> loop s' xs')"
    and step_fails: "step s xs = Inl r \<Longrightarrow> fst r \<noteq> EAF_OK"
    and ok_safe: "ok s \<Longrightarrow> safe s"
    and step_keeps: "ok s \<Longrightarrow> xs \<noteq> [] \<Longrightarrow>
      (case step s xs of Inl r \<Rightarrow> safe (snd r) | Inr (s', xs') \<Rightarrow> ok s')"
    and step_rank: "xs \<noteq> [] \<Longrightarrow> step s xs = Inr (s', xs') \<Longrightarrow>
      length xs' < length xs \<or> length xs' = length xs \<and> rank s' < rank s"
    and step_append: "ok s \<Longrightarrow> a \<noteq> [] \<Longrightarrow> b \<noteq> [] \<Longrightarrow>
      (case step s a of Inl r \<Rightarrow> step s (a @ b) = Inl r
       | Inr (s', a') \<Rightarrow> step s (a @ b) = Inr (s', a' @ b) \<or> a' = [] \<and> step s (a @ b) = step s' b)"
begin

lemma loop_induct [case_names loop]:
  assumes "\<And>s xs. (\<And>s' xs'. xs \<noteq> [] \<Longrightarrow> step s xs = Inr (s', xs') \<Longrightarrow> P s' xs') \<Longrightarrow> P s xs"
  shows "P s xs"
proof (induction "(length xs, rank s)" arbitrary: s xs rule: wf_induct_rule [OF wf_lex_prod [OF wf_less_than wf_less_than]])
  case 1
  show ?case
  proof (rule assms)
    fix s' xs' assume "xs \<noteq> []" "step s xs = Inr (s', xs')"
    from step_rank [OF this] show "P s' xs'" by (intro 1) auto
  qed
qed

lemma loop_keeps: "ok s \<Longrightarrow> safe (snd (loop s xs)) \<and> (fst (loop s xs) = EAF_OK \<longrightarrow> ok (snd (loop s xs)))"
proof (induction s xs rule: loop_induct)
  case (loop s xs)
  show ?case
  proof (cases "xs = []")
    case False
    show ?thesis
    proof (cases "step s xs")
      case (Inl r)
      then show ?thesis using False step_keeps [OF loop.prems False] step_fails [OF Inl] by (simp add: loop_Cons)
    next
      case (Inr t)
      then show ?thesis using False step_keeps [OF loop.prems False] loop.IH [OF False]
        by (cases t) (simp add: loop_Cons)
    qed
  qed (simp add: loop_Nil loop.prems ok_safe)
qed

lemma loop_append:
  assumes "ok s"
  shows "loop s (a @ b) = (case loop s a of (rc, s') \<Rightarrow> if rc \<noteq> EAF_OK then (rc, s') else loop s' b)"
  using assms
proof (induction s a rule: loop_induct)
  case (loop s a)
  consider "a = []" | "b = []" | "a \<noteq> []" "b \<noteq> []" by blast
  then show ?case
  proof cases
    case 3
    note A = step_append [OF loop.prems 3]
    show ?thesis
    proof (cases "step s a")
      case (Inl r)
      then show ?thesis using A 3 step_fails [OF Inl] by (auto simp: loop_Cons split: prod.splits)
    next
      case (Inr t)
      obtain s' a' where t: "t = (s', a')" by (cases t)
      have ok: "ok s'" using step_keeps [OF loop.prems 3(1)] Inr t by simp
      have la: "loop s a = loop s' a'" using Inr t 3 by (simp add: loop_Cons)
      from A Inr t consider "step s (a @ b) = Inr (s', a' @ b)" | "a' = []" "step s (a @ b) = step s' b" by auto
      then show ?thesis
      proof cases
        case 1
        then have "loop s (a @ b) = loop s' (a' @ b)" using 3 by (simp add: loop_Cons)
        then show ?thesis using loop.IH [OF 3(1) Inr [unfolded t] ok] la by simp
      next
        case 2
        then have "loop s (a @ b) = loop s' b" using 3 by (simp add: loop_Cons [of "a @ b"] loop_Cons [of b])
        then show ?thesis using la 2(1) by (simp add: loop_Nil)
      qed
    qed
  qed (auto simp: loop_Nil split: prod.splits)
qed

text \<open>Reads one after the other, up to the first error.\<close>

lemma loop_concat:
  assumes "ok s"
  shows "fold (\<lambda>c (rc, s). if rc \<noteq> EAF_OK then (rc, s) else loop s c) cs (EAF_OK, s) = loop s (concat cs)"
proof -
  have stuck: "rc \<noteq> EAF_OK \<Longrightarrow> fold (\<lambda>c (rc, s). if rc \<noteq> EAF_OK then (rc, s) else loop s c) cs (rc, s) = (rc, s)" for rc s cs
    by (induction cs) simp_all
  show ?thesis using assms
  proof (induction cs arbitrary: s)
    case (Cons c cs)
    obtain rc s' where r: "loop s c = (rc, s')" by fastforce
    have "rc = EAF_OK \<Longrightarrow> ok s'" using loop_keeps [OF Cons.prems, of c] r by simp
    then show ?case using r Cons.IH [of s'] loop_append [OF Cons.prems, of c "concat cs"] stuck
      by (cases "rc = EAF_OK") simp_all
  qed (simp add: loop_Nil)
qed

end

end
