(* ===== verification/Sendspin_WS.thy ===== *)
theory Sendspin_WS
  imports EAF_Bytes EAF_Types Chunked
begin

text \<open>
  \<open>apps/sendspin/sendspin_ws.c\<close>: the WebSocket layer. It holds the key generator, the upgrade
  request, the masked frame encoder and the streaming frame decoder. The theory shows that
  the word-at-a-time masking loops equal byte-wise masking, that the decoder's result does
  not depend on how the byte stream is cut into reads, and that a frame written by the
  encoder is delivered by the decoder as the message it was made from.
\<close>

section \<open>Client key\<close>

record eaf_sendspin_ws_prng_t =
  prng_state :: u32

definition eaf_sendspin_ws_prng_init :: "u32 \<Rightarrow> eaf_sendspin_ws_prng_t" where
  "eaf_sendspin_ws_prng_init seed = \<lparr>prng_state = (if seed \<noteq> 0 then seed else 0x9e3779b9)\<rparr>"

definition eaf_sendspin_ws_prng_next :: "eaf_sendspin_ws_prng_t \<Rightarrow> u32 \<times> eaf_sendspin_ws_prng_t" where
  "eaf_sendspin_ws_prng_next prng =
     (let x = prng_state prng;
          x = x XOR push_bit 13 x;
          x = x XOR drop_bit 17 x;
          x = x XOR push_bit 5 x
      in (x, prng\<lparr>prng_state := x\<rparr>))"

definition base64_alphabet :: string where
  "base64_alphabet = ''ABCDEFGHIJKLMNOPQRSTUVWXYZabcdefghijklmnopqrstuvwxyz0123456789+/''"

definition key_bytes :: "eaf_sendspin_ws_prng_t \<Rightarrow> u8 list \<times> eaf_sendspin_ws_prng_t" where
  "key_bytes prng =
     fold (\<lambda>i (bytes, prng).
         let (r, prng) = eaf_sendspin_ws_prng_next prng
         in (bytes[i := ucast r, i + 1 := ucast (drop_bit 8 r), i + 2 := ucast (drop_bit 16 r),
                   i + 3 := ucast (drop_bit 24 r)], prng))
       [0, 4, 8, 12] (replicate 16 0, prng)"

definition sextet :: "u32 \<Rightarrow> nat \<Rightarrow> char" where
  "sextet v k = base64_alphabet ! unat (drop_bit k v AND 63)"

text \<open>The 25 characters: 24 of base64 text and the terminating NUL.\<close>

definition eaf_sendspin_ws_client_key :: "eaf_sendspin_ws_prng_t \<Rightarrow> string \<times> eaf_sendspin_ws_prng_t" where
  "eaf_sendspin_ws_client_key prng =
     (let (bytes, prng) = key_bytes prng;
          body = concat (map (\<lambda>i.
              let v = push_bit 16 (ucast (bytes ! i)) OR push_bit 8 (ucast (bytes ! (i + 1))) OR ucast (bytes ! (i + 2))
              in [sextet v 18, sextet v 12, sextet v 6, sextet v 0]) [0, 3, 6, 9, 12]);
          tail = push_bit 16 (ucast (bytes ! 15)) :: u32
      in (body @ [sextet tail 18, sextet tail 12, CHR ''='', CHR ''='', CHR 0x00], prng))"

section \<open>Upgrade\<close>

definition append_text :: "string \<Rightarrow> nat \<Rightarrow> nat \<Rightarrow> string \<Rightarrow> (string \<times> nat) option" where
  "append_text dst capacity used text =
     (if used + length text + 1 > capacity then None
      else Some ((blit dst used text)[used + length text := CHR 0x00], used + length text))"

fun append_texts :: "string list \<Rightarrow> nat \<Rightarrow> string \<times> nat \<Rightarrow> (string \<times> nat) option" where
  "append_texts [] capacity w = Some w"
| "append_texts (t # ts) capacity (dst, used) =
     (case append_text dst capacity used t of None \<Rightarrow> None | Some w \<Rightarrow> append_texts ts capacity w)"

definition crlf :: string where "crlf = [CHR 0x0D, CHR 0x0A]"

definition upgrade_parts :: "string \<Rightarrow> string \<Rightarrow> string \<Rightarrow> string list" where
  "upgrade_parts host path key =
     [''GET '', path, '' HTTP/1.1'' @ crlf @ ''Host: '', host,
      crlf @ ''Upgrade: websocket'' @ crlf @ ''Connection: Upgrade'' @ crlf @ ''Sec-WebSocket-Version: 13'' @
      crlf @ ''Sec-WebSocket-Key: '', key, crlf @ crlf]"

definition eaf_sendspin_ws_build_upgrade ::
  "string \<Rightarrow> nat \<Rightarrow> string option \<Rightarrow> string option \<Rightarrow> string option \<Rightarrow> (string \<times> nat) option" where
  "eaf_sendspin_ws_build_upgrade dst capacity host path key =
     (case (host, path, key) of
        (Some host, Some path, Some key) \<Rightarrow>
          if capacity = 0 then None
          else append_texts (upgrade_parts host path key) capacity (dst[0 := CHR 0x00], 0)
      | _ \<Rightarrow> None)"

definition eaf_sendspin_ws_check_upgrade_response :: "string option \<Rightarrow> eaf_result_t" where
  "eaf_sendspin_ws_check_upgrade_response response =
     (case response of None \<Rightarrow> EAF_INVALID
      | Some response \<Rightarrow>
        if length response < 12 \<or> take 5 response \<noteq> ''HTTP/'' then EAF_INVALID
        else let space = dropWhile (\<lambda>x. x \<noteq> CHR '' '') response
             in if space = [] then EAF_INVALID
                else let after = tl space
                     in if length after < 3 \<or> take 3 after \<noteq> ''101'' then EAF_INVALID else EAF_OK)"

section \<open>Encoder\<close>

text \<open>The payload loop: four bytes at a time while they last, then the rest.\<close>

function encode_words :: "u8 list \<Rightarrow> u8 list \<Rightarrow> nat \<Rightarrow> nat \<Rightarrow> u8 list \<Rightarrow> nat \<times> u8 list" where
  "encode_words payload key off i dst =
     (if i + 4 \<le> length payload
      then encode_words payload key off (i + 4)
             (dst[off + i := payload ! i XOR key ! 0, off + (i + 1) := payload ! (i + 1) XOR key ! 1,
                  off + (i + 2) := payload ! (i + 2) XOR key ! 2, off + (i + 3) := payload ! (i + 3) XOR key ! 3])
      else (i, dst))"
  by pat_completeness auto
termination by (relation "measure (\<lambda>(payload, key, off, i, dst). length payload - i)") auto

declare encode_words.simps [simp del]

definition mask_payload :: "u8 list \<Rightarrow> u8 list \<Rightarrow> nat \<Rightarrow> u8 list \<Rightarrow> u8 list" where
  "mask_payload payload key off dst =
     (let (i, dst) = encode_words payload key off 0 dst
      in fold (\<lambda>i dst. dst[off + i := payload ! i XOR key ! (i mod 4)]) [i..<length payload] dst)"

text \<open>\<open>i & 3\<close> is \<open>i mod 4\<close> on \<open>size_t\<close>.\<close>

definition eaf_sendspin_ws_encode ::
  "u8 list \<Rightarrow> nat \<Rightarrow> u8 \<Rightarrow> u8 list option \<Rightarrow> nat \<Rightarrow> u32 \<Rightarrow> eaf_result_t \<times> nat \<times> u8 list" where
  "eaf_sendspin_ws_encode dst capacity opcode payload len mask_key =
     (if payload = None \<and> len \<noteq> 0 then (EAF_INVALID, 0, dst)
      else let data = take len (case payload of None \<Rightarrow> [] | Some p \<Rightarrow> p);
               position = 2 + (if len > 125 then if len \<le> 65535 then 2 else 8 else 0);
               needed = position + 4 + len
           in if needed > capacity then (EAF_INVALID, 0, dst)
              else let dst = dst[0 := 128 OR (opcode AND 15)];
                       dst = (if len \<le> 125 then dst[1 := 128 OR of_nat len]
                              else if len \<le> 65535
                              then dst[1 := 128 OR 126, 2 := of_nat (len div 256), 3 := of_nat len]
                              else take 2 (dst[1 := 128 OR 127]) @ eaf_bytes_write_u64 (drop 2 dst) (of_nat len));
                       dst = dst[position := ucast mask_key, position + 1 := ucast (drop_bit 8 mask_key),
                                 position + 2 := ucast (drop_bit 16 mask_key), position + 3 := ucast (drop_bit 24 mask_key)];
                       key = take 4 (drop position dst)
                   in (EAF_OK, needed, mask_payload data key (position + 4) dst))"

section \<open>Decoder\<close>

abbreviation (input) EAF_SENDPIN_WS_TEXT :: u8 where "EAF_SENDPIN_WS_TEXT \<equiv> 1"
abbreviation (input) EAF_SENDPIN_WS_BINARY :: u8 where "EAF_SENDPIN_WS_BINARY \<equiv> 2"
abbreviation (input) EAF_SENDPIN_WS_CLOSE :: u8 where "EAF_SENDPIN_WS_CLOSE \<equiv> 8"
abbreviation (input) EAF_SENDPIN_WS_PING :: u8 where "EAF_SENDPIN_WS_PING \<equiv> 9"
abbreviation (input) EAF_SENDPIN_WS_PONG :: u8 where "EAF_SENDPIN_WS_PONG \<equiv> 10"

record eaf_sendspin_ws_rx_t =
  header :: "u8 list"
  header_used :: nat
  header_needed :: nat
  payload_length :: u64
  payload_used :: u64
  rx_mask :: "u8 list"
  rx_opcode :: u8
  fin :: bool
  masked :: bool
  frame_ready :: bool
  message :: "u8 list option"
  message_capacity :: nat
  message_length :: nat
  message_opcode :: u8
  fragmenting :: bool
  control :: "u8 list"
  control_length :: nat

definition eaf_sendspin_ws_rx_init :: "u8 list option \<Rightarrow> nat \<Rightarrow> eaf_sendspin_ws_rx_t" where
  "eaf_sendspin_ws_rx_init msg capacity =
     \<lparr>header = replicate 14 0, header_used = 0, header_needed = 0, payload_length = 0, payload_used = 0,
      rx_mask = replicate 4 0, rx_opcode = 0, fin = False, masked = False, frame_ready = False,
      message = msg, message_capacity = capacity, message_length = 0, message_opcode = 0,
      fragmenting = False, control = replicate 125 0, control_length = 0\<rparr>"

definition is_control :: "u8 \<Rightarrow> bool" where
  "is_control op \<longleftrightarrow> op = EAF_SENDPIN_WS_CLOSE \<or> op = EAF_SENDPIN_WS_PING \<or> op = EAF_SENDPIN_WS_PONG"

definition frame_length :: "u8 list \<Rightarrow> u64 \<times> nat" where
  "frame_length hdr =
     (let code = hdr ! 1 AND 127
      in if code = 126 then (ucast (eaf_bytes_read_u16 (drop 2 hdr)), 4)
         else if code = 127 then (eaf_bytes_read_u64 (drop 2 hdr), 10)
         else (ucast code, 2))"

definition begin_check :: "u64 \<Rightarrow> eaf_sendspin_ws_rx_t \<Rightarrow> eaf_result_t \<times> eaf_sendspin_ws_rx_t" where
  "begin_check plen rx =
     (let target = (if is_control (rx_opcode rx) then control_length rx else message_length rx);
          room = (if is_control (rx_opcode rx) then 125 else message_capacity rx)
      in if unat plen > room - target then (EAF_UNSUPPORTED, rx)
         else (EAF_OK, rx\<lparr>payload_length := plen, payload_used := 0\<rparr>))"

definition begin_frame :: "eaf_sendspin_ws_rx_t \<Rightarrow> eaf_result_t \<times> eaf_sendspin_ws_rx_t" where
  "begin_frame rx =
     (let (plen, position) = frame_length (header rx);
          rx = (if masked rx then rx\<lparr>rx_mask := take 4 (drop position (header rx))\<rparr> else rx);
          op = rx_opcode rx
      in if op = 0 then if \<not> fragmenting rx then (EAF_INVALID, rx) else begin_check plen rx
         else if op = EAF_SENDPIN_WS_TEXT \<or> op = EAF_SENDPIN_WS_BINARY
         then if fragmenting rx then (EAF_INVALID, rx)
              else begin_check plen (rx\<lparr>message_length := 0, message_opcode := op\<rparr>)
         else if is_control op then begin_check plen (rx\<lparr>control_length := 0\<rparr>)
         else (EAF_UNSUPPORTED, rx))"

text \<open>
  The copy of payload bytes into the target at offset \<open>used\<close>. When the frame is masked, a byte loop
  aligns to the mask, a word loop masks four bytes at a time (the exclusive or of two
  32-bit words is the exclusive or of their bytes in any byte order), and a byte loop ends.
\<close>

function unmask_head ::
  "nat \<Rightarrow> u64 \<Rightarrow> u8 list \<Rightarrow> u8 list \<Rightarrow> nat \<Rightarrow> nat \<Rightarrow> u8 list \<Rightarrow> nat \<times> u8 list" where
  "unmask_head n pu key data used i tgt =
     (if i < n \<and> (pu + of_nat i) AND 3 \<noteq> 0
      then unmask_head n pu key data used (i + 1) (tgt[used + i := data ! i XOR key ! unat ((pu + of_nat i) AND 3)])
      else (i, tgt))"
  by pat_completeness auto
termination by (relation "measure (\<lambda>(n, pu, key, data, used, i, tgt). n - i)") auto

function unmask_words :: "nat \<Rightarrow> u8 list \<Rightarrow> u8 list \<Rightarrow> nat \<Rightarrow> nat \<Rightarrow> u8 list \<Rightarrow> nat \<times> u8 list" where
  "unmask_words n key data used i tgt =
     (if i + 4 \<le> n
      then unmask_words n key data used (i + 4) (blit tgt (used + i) (map2 (XOR) (take 4 (drop i data)) key))
      else (i, tgt))"
  by pat_completeness auto
termination by (relation "measure (\<lambda>(n, key, data, used, i, tgt). n - i)") auto

declare unmask_head.simps [simp del] unmask_words.simps [simp del]

definition copy_payload :: "bool \<Rightarrow> u64 \<Rightarrow> u8 list \<Rightarrow> nat \<Rightarrow> u8 list \<Rightarrow> nat \<Rightarrow> u8 list \<Rightarrow> u8 list" where
  "copy_payload msk pu key n data used tgt =
     (let (i, tgt) = (if msk
            then let (i, tgt) = unmask_head n pu key data used 0 tgt in unmask_words n key data used i tgt
            else (0, tgt))
      in fold (\<lambda>i tgt. tgt[used + i := (if msk then data ! i XOR key ! unat ((pu + of_nat i) AND 3) else data ! i)])
           [i..<n] tgt)"

type_synonym 'c eaf_sendspin_ws_message_fn = "'c \<Rightarrow> u8 \<Rightarrow> u8 list \<Rightarrow> eaf_result_t \<times> 'c"

definition header_start :: "eaf_sendspin_ws_rx_t \<Rightarrow> eaf_sendspin_ws_rx_t" where
  "header_start rx =
     (let b1 = header rx ! 1; code = b1 AND 127;
          needed = (if code = 126 then 4 else if code = 127 then 10 else 2)
      in rx\<lparr>rx_opcode := header rx ! 0 AND 15, fin := header rx ! 0 AND 128 \<noteq> 0, masked := b1 AND 128 \<noteq> 0,
            header_needed := needed + (if b1 AND 128 \<noteq> 0 then 4 else 0)\<rparr>)"

definition frame_reset :: "eaf_sendspin_ws_rx_t \<Rightarrow> eaf_sendspin_ws_rx_t" where
  "frame_reset rx = rx\<lparr>header_used := 0, header_needed := 0, payload_length := 0, payload_used := 0, frame_ready := False\<rparr>"

text \<open>A complete frame: dispatch to the callback (if there is one), then start the next header.\<close>

definition complete_frame ::
  "'c eaf_sendspin_ws_message_fn option \<Rightarrow> eaf_sendspin_ws_rx_t \<Rightarrow> 'c \<Rightarrow> eaf_result_t \<times> eaf_sendspin_ws_rx_t \<times> 'c" where
  "complete_frame callback rx ctx =
     (let call = (\<lambda>op bytes. case callback of None \<Rightarrow> (EAF_OK, ctx) | Some f \<Rightarrow> f ctx op bytes)
      in if is_control (rx_opcode rx)
         then let (rc, ctx) = call (rx_opcode rx) (take (control_length rx) (control rx))
              in if rc \<noteq> EAF_OK then (rc, rx, ctx) else (EAF_OK, frame_reset rx, ctx)
         else if fin rx
         then let (rc, ctx) = call (message_opcode rx)
                    (take (message_length rx) (case message rx of None \<Rightarrow> [] | Some b \<Rightarrow> b))
              in if rc \<noteq> EAF_OK then (rc, rx, ctx)
                 else (EAF_OK, frame_reset (rx\<lparr>fragmenting := False, message_length := 0\<rparr>), ctx)
         else (EAF_OK, frame_reset (rx\<lparr>fragmenting := True\<rparr>), ctx))"

definition take_payload :: "eaf_sendspin_ws_rx_t \<Rightarrow> nat \<Rightarrow> u8 list \<Rightarrow> eaf_sendspin_ws_rx_t" where
  "take_payload rx n data =
     (let rx = (if is_control (rx_opcode rx)
                then rx\<lparr>control := copy_payload (masked rx) (payload_used rx) (rx_mask rx) n data (control_length rx) (control rx),
                        control_length := control_length rx + n\<rparr>
                else rx\<lparr>message := map_option (copy_payload (masked rx) (payload_used rx) (rx_mask rx) n data (message_length rx)) (message rx),
                        message_length := message_length rx + n\<rparr>)
      in rx\<lparr>payload_used := payload_used rx + of_nat n\<rparr>)"

text \<open>
  One iteration of the receive loop on a non-empty input: \<open>Inl\<close> returns from \<open>feed\<close>, \<open>Inr\<close> continues
  with the remaining input.
\<close>

definition ready_frame :: "eaf_sendspin_ws_rx_t \<Rightarrow> eaf_result_t \<times> eaf_sendspin_ws_rx_t" where
  "ready_frame rx =
     (if frame_ready rx then (EAF_OK, rx)
      else let (rc, rx) = begin_frame rx
           in if rc \<noteq> EAF_OK then (rc, rx) else (EAF_OK, rx\<lparr>frame_ready := True\<rparr>))"

definition payload_step ::
  "'c eaf_sendspin_ws_message_fn option \<Rightarrow> eaf_sendspin_ws_rx_t \<Rightarrow> u8 list \<Rightarrow> 'c \<Rightarrow>
   (eaf_result_t \<times> eaf_sendspin_ws_rx_t \<times> 'c) + (eaf_sendspin_ws_rx_t \<times> u8 list \<times> 'c)" where
  "payload_step callback rx data ctx =
     (let (rc, rx) = ready_frame rx
      in if rc \<noteq> EAF_OK then Inl (rc, rx, ctx)
         else let left = unat (payload_length rx - payload_used rx);
                  k = (if length data > left then left else length data)
              in if k \<noteq> 0 \<and> \<not> is_control (rx_opcode rx) \<and> message rx = None then Inl (EAF_INVALID, rx, ctx)
                 else let rx = take_payload rx k data
                      in if payload_used rx = payload_length rx
                         then let (rc, rx, ctx) = complete_frame callback rx ctx
                              in if rc \<noteq> EAF_OK then Inl (rc, rx, ctx) else Inr (rx, drop k data, ctx)
                         else Inr (rx, drop k data, ctx))"

definition feed_step ::
  "'c eaf_sendspin_ws_message_fn option \<Rightarrow> eaf_sendspin_ws_rx_t \<Rightarrow> u8 list \<Rightarrow> 'c \<Rightarrow>
   (eaf_result_t \<times> eaf_sendspin_ws_rx_t \<times> 'c) + (eaf_sendspin_ws_rx_t \<times> u8 list \<times> 'c)" where
  "feed_step callback rx data ctx =
     (if header_used rx < 2
      then let rx = rx\<lparr>header := (header rx)[header_used rx := hd data], header_used := header_used rx + 1\<rparr>
           in Inr (if header_used rx < 2 then rx else header_start rx, tl data, ctx)
      else if header_used rx < header_needed rx
      then let n = header_needed rx - header_used rx;
               n = (if n > length data then length data else n);
               rx = rx\<lparr>header := blit (header rx) (header_used rx) (take n data), header_used := header_used rx + n\<rparr>;
               data = drop n data
           in if header_used rx < header_needed rx then Inr (rx, data, ctx) else payload_step callback rx data ctx
      else payload_step callback rx data ctx)"

lemma complete_frame_header:
  "complete_frame callback rx ctx = (EAF_OK, rx', ctx') \<Longrightarrow> header_used rx' = 0"
  by (auto simp: complete_frame_def frame_reset_def Let_def split: if_splits prod.splits)

lemma take_payload_fields [simp]:
  "payload_used (take_payload rx n data) = payload_used rx + of_nat n"
  "payload_length (take_payload rx n data) = payload_length rx"
  "header_used (take_payload rx n data) = header_used rx"
  "header_needed (take_payload rx n data) = header_needed rx"
  "header (take_payload rx n data) = header rx"
  "rx_opcode (take_payload rx n data) = rx_opcode rx" "masked (take_payload rx n data) = masked rx"
  "rx_mask (take_payload rx n data) = rx_mask rx" "frame_ready (take_payload rx n data) = frame_ready rx"
  "fin (take_payload rx n data) = fin rx" "message_capacity (take_payload rx n data) = message_capacity rx"
  by (simp_all add: take_payload_def Let_def)

lemma payload_step_decreases:
  assumes "payload_step callback rx data ctx = Inr (rx', data', ctx')" and "data \<noteq> []"
  shows "length data' < length data \<or> data' = data \<and> header_used rx' = 0"
proof -
  obtain rc rx1 where r: "ready_frame rx = (rc, rx1)" by fastforce
  let ?left = "unat (payload_length rx1 - payload_used rx1)"
  let ?k = "if length data > ?left then ?left else length data"
  have d: "data' = drop ?k data" and ok: "payload_used (take_payload rx1 ?k data) = payload_length rx1 \<longrightarrow> header_used rx' = 0"
    using assms(1) r
    by (auto simp: payload_step_def Let_def split: if_splits prod.splits dest: complete_frame_header)
  show ?thesis
  proof (cases "?k = 0")
    case False
    with d assms(2) show ?thesis by simp
  next
    case True
    with assms(2) have "?left = 0" by (auto split: if_splits)
    then have "payload_used rx1 = payload_length rx1" by (simp add: unat_eq_0)
    with True ok have "header_used rx' = 0" by (simp split: if_splits)
    with True d show ?thesis by (simp split: if_splits)
  qed
qed

lemma feed_step_decreases:
  assumes "feed_step callback rx data ctx = Inr (rx', data', ctx')" and "data \<noteq> []"
  shows "length data' < length data \<or> length data' = length data \<and> header_used rx' < header_used rx"
proof (cases "header_used rx < 2")
  case True
  then show ?thesis using assms by (auto simp: feed_step_def Let_def)
next
  case h: False
  show ?thesis
  proof (cases "header_used rx < header_needed rx")
    case False
    then show ?thesis using assms h payload_step_decreases [of callback rx data ctx rx' data' ctx']
      by (auto simp: feed_step_def)
  next
    case True
    let ?n = "if header_needed rx - header_used rx > length data then length data else header_needed rx - header_used rx"
    let ?rx = "rx\<lparr>header := blit (header rx) (header_used rx) (take ?n data), header_used := header_used rx + ?n\<rparr>"
    have n: "0 < ?n" "?n \<le> length data" using True assms(2) by auto
    have "feed_step callback rx data ctx =
        (if header_used ?rx < header_needed ?rx then Inr (?rx, drop ?n data, ctx) else payload_step callback ?rx (drop ?n data) ctx)"
      using h True by (simp add: feed_step_def Let_def)
    with assms(1) have "length data' \<le> length (drop ?n data)"
      using payload_step_decreases [of callback ?rx "drop ?n data" ctx rx' data' ctx']
      by (cases "drop ?n data = []") (auto simp: payload_step_def Let_def split: if_splits prod.splits)
    then show ?thesis using n unfolding length_drop by linarith
  qed
qed

function feed_loop ::
  "'c eaf_sendspin_ws_message_fn option \<Rightarrow> eaf_sendspin_ws_rx_t \<Rightarrow> u8 list \<Rightarrow> 'c \<Rightarrow>
   eaf_result_t \<times> eaf_sendspin_ws_rx_t \<times> 'c" where
  "feed_loop callback rx data ctx =
     (if data = [] then (EAF_OK, rx, ctx)
      else case feed_step callback rx data ctx of Inl r \<Rightarrow> r
        | Inr (rx, data, ctx) \<Rightarrow> feed_loop callback rx data ctx)"
  by pat_completeness auto
termination
proof (relation "inv_image (less_than <*lex*> less_than) (\<lambda>(callback, rx, data, ctx). (length data, header_used rx))", goal_cases)
  case (2 callback rx data ctx s rx' y data' ctx')
  then show ?case using feed_step_decreases [of callback rx data ctx rx' data' ctx'] by auto
qed (simp add: wf_inv_image wf_lex_prod)

declare feed_loop.simps [simp del]

definition eaf_sendspin_ws_rx_feed ::
  "'c eaf_sendspin_ws_message_fn option \<Rightarrow> eaf_sendspin_ws_rx_t \<Rightarrow> u8 list option \<Rightarrow> nat \<Rightarrow> 'c \<Rightarrow>
   eaf_result_t \<times> eaf_sendspin_ws_rx_t \<times> 'c" where
  "eaf_sendspin_ws_rx_feed callback rx data len ctx =
     (if data = None \<and> len \<noteq> 0 then (EAF_INVALID, rx, ctx)
      else if message rx = None \<and> message_capacity rx \<noteq> 0 then (EAF_INVALID, rx, ctx)
      else feed_loop callback rx (take len (case data of None \<Rightarrow> [] | Some d \<Rightarrow> d)) ctx)"

section \<open>Masking\<close>

definition mask_byte :: "bool \<Rightarrow> u64 \<Rightarrow> u8 list \<Rightarrow> u8 list \<Rightarrow> nat \<Rightarrow> u8" where
  "mask_byte msk pu key data j = (if msk then data ! j XOR key ! ((unat pu + j) mod 4) else data ! j)"

lemma and_3_mod: "unat (x AND 3 :: u64) = unat x mod 4"
proof -
  have "(3::u64) = mask 2" by (simp add: mask_eq_exp_minus_1)
  then have "x AND 3 = take_bit 2 x" by (simp add: take_bit_eq_mask)
  then have "unat (x AND 3) = take_bit 2 (unat x)" by (simp add: unsigned_take_bit_eq)
  then show ?thesis by (simp add: take_bit_eq_mod)
qed

lemma mask_slot: "unat ((pu + of_nat j :: u64) AND 3) = (unat pu + j) mod 4"
proof -
  have "unat (pu + of_nat j :: u64) mod 2 ^ 2 = (unat pu + unat (of_nat j :: u64)) mod 2 ^ 2"
    by (rule unat_mod_pow2) simp
  also have "\<dots> = (unat pu + j) mod 2 ^ 2"
  proof -
    have "unat (of_nat j :: u64) mod 4 = j mod 4" by (simp add: unat_of_nat mod_mod_cancel)
    then have "(unat pu + unat (of_nat j :: u64)) mod 4 = (unat pu + j) mod 4" by (rule mod_add_cong [OF refl])
    then show ?thesis by simp
  qed
  finally show ?thesis by (simp add: and_3_mod)
qed

lemma mask_aligned: "(pu + of_nat j :: u64) AND 3 = 0 \<longleftrightarrow> (unat pu + j) mod 4 = 0"
  using mask_slot [of pu j] by (metis unat_0 unat_eq_0)

lemma blit_loop_step:
  "used + i < length tgt \<Longrightarrow>
   (blit tgt used (map f [0..<i]))[used + i := f i] = blit tgt used (map f [0..<Suc i])"
  using blit_snoc [of used "map f [0..<i]" tgt "f i"] by simp

lemma unmask_head_spec:
  assumes "used + n \<le> length tgt0" and "i \<le> n"
  shows "\<exists>i'. unmask_head n pu key data used i (blit tgt0 used (map (mask_byte True pu key data) [0..<i])) =
      (i', blit tgt0 used (map (mask_byte True pu key data) [0..<i'])) \<and> i' \<le> n \<and> (i' = n \<or> (unat pu + i') mod 4 = 0)"
  using assms(2)
proof (induction "n - i" arbitrary: i rule: less_induct)
  case less
  show ?case
  proof (cases "i < n \<and> (pu + of_nat i) AND 3 \<noteq> 0")
    case False
    then show ?thesis using less.prems by (subst unmask_head.simps) (auto simp: mask_aligned)
  next
    case True
    have "(blit tgt0 used (map (mask_byte True pu key data) [0..<i]))[used + i := data ! i XOR key ! unat ((pu + of_nat i) AND 3)] =
        blit tgt0 used (map (mask_byte True pu key data) [0..<Suc i])"
      using blit_loop_step [of used i tgt0 "mask_byte True pu key data"] True assms(1)
      by (simp add: mask_byte_def mask_slot)
    moreover have "n - Suc i < n - i" "Suc i \<le> n" using True by auto
    ultimately show ?thesis using less.hyps [of "Suc i"] True by (subst unmask_head.simps) simp
  qed
qed

lemma map_upt_4: "map f [i..<i + 4] = [f i, f (i + 1), f (i + 2), f (i + 3)]"
  by (simp add: upt_rec numeral_eq_Suc)

lemma masked_word:
  assumes "(unat pu + i) mod 4 = 0" and "i + 4 \<le> length data" and "length key = 4"
  shows "map2 (XOR) (take 4 (drop i data)) key = map (mask_byte True pu key data) [i..<i + 4]"
proof (rule nth_equalityI)
  fix j assume "j < length (map2 (XOR) (take 4 (drop i data)) key)"
  then have j: "j < 4" using assms by simp
  have "(unat pu + (i + j)) mod 4 = ((unat pu + i) mod 4 + j) mod 4" by (simp add: mod_simps add.assoc)
  then have "(unat pu + (i + j)) mod 4 = j" using assms(1) j by simp
  then show "map2 (XOR) (take 4 (drop i data)) key ! j = map (mask_byte True pu key data) [i..<i + 4] ! j"
    using j assms by (simp add: mask_byte_def)
qed (use assms in simp)

lemma unmask_words_spec:
  assumes "used + n \<le> length tgt0" and "i \<le> n" and "n \<le> length data" and "length key = 4"
    and "i = n \<or> (unat pu + i) mod 4 = 0"
  shows "\<exists>i'. unmask_words n key data used i (blit tgt0 used (map (mask_byte True pu key data) [0..<i])) =
      (i', blit tgt0 used (map (mask_byte True pu key data) [0..<i'])) \<and> i' \<le> n"
  using assms(2,5)
proof (induction "n - i" arbitrary: i rule: less_induct)
  case less
  show ?case
  proof (cases "i + 4 \<le> n")
    case False
    then show ?thesis using less.prems by (subst unmask_words.simps) auto
  next
    case True
    let ?f = "mask_byte True pu key data"
    have al: "(unat pu + i) mod 4 = 0" using less.prems True by auto
    have w: "map2 (XOR) (take 4 (drop i data)) key = map ?f [i..<i + 4]"
      using masked_word [OF al _ assms(4)] True assms(3) by simp
    have "[0..<i + 4] = [0..<i] @ [i..<i + 4]" by (metis le_add1 upt_add_eq_append zero_le)
    then have "blit (blit tgt0 used (map ?f [0..<i])) (used + i) (map ?f [i..<i + 4]) = blit tgt0 used (map ?f [0..<i + 4])"
      using True assms(1) by (simp add: blit_def) (simp add: ac_simps)
    moreover have "(unat pu + (i + 4)) mod 4 = 0" using al by (metis add.assoc mod_add_self2)
    moreover have "n - (i + 4) < n - i" using True by simp
    ultimately show ?thesis using less.hyps [of "i + 4"] True w by (subst unmask_words.simps) simp
  qed
qed

lemma fold_update_from:
  assumes "off + n \<le> length dst" and "i \<le> n"
  shows "fold (\<lambda>j d. d[off + j := f j]) [i..<n] (blit dst off (map f [0..<i])) = blit dst off (map f [0..<n])"
proof -
  have u: "[0..<n] = [0..<i] @ [i..<n]" using assms(2) by (metis le0 le_Suc_ex upt_add_eq_append)
  have "fold (\<lambda>j d. d[off + j := f j]) [0..<i] dst = blit dst off (map f [0..<i])"
    using assms by (intro fold_update_blit) simp
  then show ?thesis using fold_update_blit [OF assms(1), of f] by (simp add: u)
qed

text \<open>The three loops together are one block copy of the bytes masked one by one.\<close>

lemma copy_payload_blit:
  assumes "used + n \<le> length tgt" and "n \<le> length data" and "length key = 4"
  shows "copy_payload msk pu key n data used tgt = blit tgt used (map (mask_byte msk pu key data) [0..<n])"
proof (cases msk)
  case True
  obtain i where i: "unmask_head n pu key data used 0 tgt = (i, blit tgt used (map (mask_byte True pu key data) [0..<i]))"
      "i \<le> n" "i = n \<or> (unat pu + i) mod 4 = 0"
    using unmask_head_spec [OF assms(1), of 0 pu key data] by auto
  obtain j where j: "unmask_words n key data used i (blit tgt used (map (mask_byte True pu key data) [0..<i])) =
      (j, blit tgt used (map (mask_byte True pu key data) [0..<j]))" "j \<le> n"
    using unmask_words_spec [OF assms(1) i(2) assms(2,3) i(3)] by blast
  show ?thesis using fold_update_from [OF assms(1) j(2), of "mask_byte True pu key data"] True i(1) j(1)
    by (simp add: copy_payload_def mask_byte_def mask_slot)
next
  case False
  then show ?thesis using fold_update_from [OF assms(1), of 0 "mask_byte False pu key data"]
    by (simp add: copy_payload_def mask_byte_def)
qed

section \<open>The decoder invariant\<close>

definition fill :: "eaf_sendspin_ws_rx_t \<Rightarrow> nat" where
  "fill rx = (if is_control (rx_opcode rx) then control_length rx else message_length rx)"

definition room :: "eaf_sendspin_ws_rx_t \<Rightarrow> nat" where
  "room rx = (if is_control (rx_opcode rx) then 125 else message_capacity rx)"

definition left :: "eaf_sendspin_ws_rx_t \<Rightarrow> nat" where
  "left rx = unat (payload_length rx - payload_used rx)"

definition message_bytes :: "eaf_sendspin_ws_rx_t \<Rightarrow> u8 list" where
  "message_bytes rx = (case message rx of None \<Rightarrow> [] | Some m \<Rightarrow> m)"

definition rx_mem :: "eaf_sendspin_ws_rx_t \<Rightarrow> bool" where
  "rx_mem rx \<longleftrightarrow> length (header rx) = 14 \<and> length (control rx) = 125 \<and> length (rx_mask rx) = 4 \<and>
     length (message_bytes rx) = message_capacity rx \<and> message_length rx \<le> message_capacity rx \<and> control_length rx \<le> 125"

definition rx_ok :: "eaf_sendspin_ws_rx_t \<Rightarrow> bool" where
  "rx_ok rx \<longleftrightarrow> rx_mem rx \<and>
     (2 \<le> header_used rx \<longrightarrow> header_used rx \<le> header_needed rx \<and> header_needed rx \<le> 14) \<and>
     (frame_ready rx \<longrightarrow> 2 \<le> header_used rx \<and> header_used rx = header_needed rx \<and> fill rx + left rx \<le> room rx)"

lemma rx_init_ok: "length (case msg of None \<Rightarrow> [] | Some m \<Rightarrow> m) = capacity \<Longrightarrow> rx_ok (eaf_sendspin_ws_rx_init msg capacity)"
  by (simp add: rx_ok_def rx_mem_def message_bytes_def eaf_sendspin_ws_rx_init_def)

lemma length_copy_payload:
  "used + n \<le> length tgt \<Longrightarrow> n \<le> length data \<Longrightarrow> length key = 4 \<Longrightarrow> length (copy_payload msk pu key n data used tgt) = length tgt"
  by (simp add: copy_payload_blit)

lemma u64_sub_add: "unat (pl - (pu + of_nat n) :: u64) = unat (pl - pu) - n" if "n \<le> unat (pl - pu :: u64)"
proof -
  have "unat (of_nat n :: u64) = n"
    using that unsigned_less [of "pl - pu", where ?'a = nat] by (simp add: unat_of_nat)
  then show ?thesis using that cursor_retreat [of "of_nat n" pl pu] by (simp add: word_le_nat_alt)
qed

lemma take_payload_left: "n \<le> left rx \<Longrightarrow> left (take_payload rx n data) = left rx - n"
  by (simp add: left_def u64_sub_add)

lemma take_payload_done:
  assumes "n \<le> left rx"
  shows "payload_used (take_payload rx n data) = payload_length rx \<longleftrightarrow> n = left rx"
proof -
  have "payload_used (take_payload rx n data) = payload_length rx \<longleftrightarrow> left (take_payload rx n data) = 0"
    by (auto simp: left_def unat_eq_0)
  with take_payload_left [OF assms, of data] assms show ?thesis by auto
qed

lemma take_payload_mem:
  assumes "rx_mem rx" and "fill rx + n \<le> room rx" and "n \<le> length data"
  shows "rx_mem (take_payload rx n data)" and "fill (take_payload rx n data) = fill rx + n"
    and "room (take_payload rx n data) = room rx"
  using assms
  by (auto simp: rx_mem_def fill_def room_def take_payload_def message_bytes_def length_copy_payload Let_def split: option.splits)

lemma take_payload_ok:
  assumes "rx_ok rx" and "frame_ready rx" and "n \<le> left rx" and "n \<le> length data"
  shows "rx_ok (take_payload rx n data)"
proof -
  have f: "fill rx + left rx \<le> room rx" "rx_mem rx" using assms(1,2) by (simp_all add: rx_ok_def)
  then show ?thesis using assms take_payload_mem [OF f(2) _ assms(4)] take_payload_left [OF assms(3), of data]
    by (simp add: rx_ok_def)
qed

lemma begin_check_ok:
  assumes "rx_mem rx" and "begin_check plen rx = (rc, rx')"
  shows "rx_mem rx'" and "header_used rx' = header_used rx" and "header_needed rx' = header_needed rx"
    and "frame_ready rx' = frame_ready rx" and "rc = EAF_OK \<Longrightarrow> fill rx' + left rx' \<le> room rx'"
  using assms
  by (auto simp: begin_check_def rx_mem_def fill_def room_def left_def message_bytes_def Let_def split: if_splits)

lemma begin_frame_ok:
  assumes "rx_mem rx" and "begin_frame rx = (rc, rx')"
  shows "rx_mem rx' \<and> header_used rx' = header_used rx \<and> header_needed rx' = header_needed rx \<and>
    frame_ready rx' = frame_ready rx \<and> (rc = EAF_OK \<longrightarrow> fill rx' + left rx' \<le> room rx')"
proof -
  obtain plen position where p: "frame_length (header rx) = (plen, position)" by fastforce
  have pos: "position \<le> 10" using p by (auto simp: frame_length_def Let_def split: if_splits)
  define x where "x = (if masked rx then rx\<lparr>rx_mask := take 4 (drop position (header rx))\<rparr> else rx)"
  have x: "rx_mem x" "header_used x = header_used rx" "header_needed x = header_needed rx" "frame_ready x = frame_ready rx"
    using assms(1) pos by (auto simp: x_def rx_mem_def message_bytes_def)
  have m: "rx_mem (x\<lparr>message_length := 0, message_opcode := op\<rparr>)" "rx_mem (x\<lparr>control_length := 0\<rparr>)" for op
    using x(1) by (simp_all add: rx_mem_def message_bytes_def)
  have bf: "begin_frame rx =
      (if rx_opcode x = 0 then if \<not> fragmenting x then (EAF_INVALID, x) else begin_check plen x
       else if rx_opcode x = EAF_SENDPIN_WS_TEXT \<or> rx_opcode x = EAF_SENDPIN_WS_BINARY
       then if fragmenting x then (EAF_INVALID, x)
            else begin_check plen (x\<lparr>message_length := 0, message_opcode := rx_opcode x\<rparr>)
       else if is_control (rx_opcode x) then begin_check plen (x\<lparr>control_length := 0\<rparr>)
       else (EAF_UNSUPPORTED, x))"
    by (simp add: begin_frame_def p x_def Let_def)
  show ?thesis
    using assms(2) x begin_check_ok [OF x(1), of plen rc rx'] begin_check_ok [OF m(1), of plen "rx_opcode x" rc rx']
      begin_check_ok [OF m(2), of plen rc rx']
    unfolding bf by (auto split: if_splits)
qed

lemma ready_frame_ok:
  assumes "rx_ok rx" and "2 \<le> header_used rx" and "header_used rx = header_needed rx" and "ready_frame rx = (rc, rx')"
  shows "rx_ok rx' \<and> header_used rx' = header_used rx \<and> header_needed rx' = header_needed rx \<and> (rc = EAF_OK \<longrightarrow> frame_ready rx')"
proof (cases "frame_ready rx")
  case True
  then show ?thesis using assms by (auto simp: ready_frame_def)
next
  case False
  obtain r x where b: "begin_frame rx = (r, x)" by fastforce
  have "rx_mem rx" using assms(1) by (simp add: rx_ok_def)
  note B = begin_frame_ok [OF this b]
  have rx': "rx' = (if r = EAF_OK then x\<lparr>frame_ready := True\<rparr> else x)" "rc = r"
    using assms(4) False b by (auto simp: ready_frame_def split: if_splits)
  have f: "rx_mem (x\<lparr>frame_ready := True\<rparr>) = rx_mem x" "fill (x\<lparr>frame_ready := True\<rparr>) = fill x"
    "room (x\<lparr>frame_ready := True\<rparr>) = room x" "left (x\<lparr>frame_ready := True\<rparr>) = left x"
    by (simp_all add: rx_mem_def message_bytes_def fill_def room_def left_def)
  show ?thesis
  proof (cases "r = EAF_OK")
    case True
    with B f assms(1,2,3) False show ?thesis unfolding rx' by (simp add: rx_ok_def)
  next
    case nok: False
    with B f assms(1,2,3) False show ?thesis unfolding rx' by (simp add: rx_ok_def)
  qed
qed

lemma complete_frame_ok:
  assumes "rx_ok rx" and "complete_frame callback rx ctx = (rc, rx', ctx')"
  shows "rx_ok rx'"
proof -
  have r: "rx_ok (frame_reset x)" if "rx_mem x" for x
    using that by (simp add: frame_reset_def rx_ok_def rx_mem_def message_bytes_def)
  have "rx_mem rx" "rx_mem (rx\<lparr>fragmenting := b\<rparr>)" "rx_mem (rx\<lparr>fragmenting := b, message_length := 0\<rparr>)" for b
    using assms(1) by (simp_all add: rx_ok_def rx_mem_def message_bytes_def)
  then show ?thesis using assms r by (auto simp: complete_frame_def Let_def split: if_splits prod.splits)
qed

text \<open>The payload part of an iteration, with the input it uses made explicit.\<close>

lemma payload_step_eq:
  assumes "rx_ok rx" and "2 \<le> header_used rx" and "header_used rx = header_needed rx"
  shows "payload_step callback rx data ctx =
    (let (rc, rx1) = ready_frame rx
     in if rc \<noteq> EAF_OK then Inl (rc, rx1, ctx)
        else if left rx1 \<le> length data
        then let (rc, rx2, ctx) = complete_frame callback (take_payload rx1 (left rx1) data) ctx
             in if rc \<noteq> EAF_OK then Inl (rc, rx2, ctx) else Inr (rx2, drop (left rx1) data, ctx)
        else Inr (take_payload rx1 (length data) data, [], ctx))"
proof -
  obtain rc rx1 where r: "ready_frame rx = (rc, rx1)" by fastforce
  note R = ready_frame_ok [OF assms r]
  let ?k = "if length data > left rx1 then left rx1 else length data"
  have z: "left rx1 = 0" if "rc = EAF_OK" "\<not> is_control (rx_opcode rx1)" "message rx1 = None"
    using R that by (auto simp: rx_ok_def rx_mem_def message_bytes_def fill_def room_def)
  have none: "\<not> (?k \<noteq> 0 \<and> \<not> is_control (rx_opcode rx1) \<and> message rx1 = None)" if "rc = EAF_OK"
  proof
    assume c: "?k \<noteq> 0 \<and> \<not> is_control (rx_opcode rx1) \<and> message rx1 = None"
    then have "left rx1 = 0" using z [OF that] by blast
    with c show False by (simp split: if_splits)
  qed
  have k: "?k \<le> left rx1" by simp
  have D: "payload_used (take_payload rx1 ?k data) = payload_length rx1 \<longleftrightarrow> ?k = left rx1"
    by (rule take_payload_done [OF k])
  show ?thesis
  proof (cases "rc = EAF_OK")
    case False
    then show ?thesis by (simp add: payload_step_def r)
  next
    case True
    note N = none [OF True]
    show ?thesis
    proof (cases "left rx1 \<le> length data")
      case full: True
      then have kk: "?k = left rx1" by auto
      show ?thesis using True full N D unfolding payload_step_def r kk [unfolded left_def]
        by (cases "left rx1 = length data") (auto simp: left_def [symmetric] Let_def split: prod.splits)
    next
      case False
      then have kk: "?k = length data" by auto
      show ?thesis using True False N D unfolding payload_step_def r
        by (simp add: left_def [symmetric] Let_def)
    qed
  qed
qed

lemma payload_step_ok:
  assumes "rx_ok rx" and "2 \<le> header_used rx" and "header_used rx = header_needed rx"
  shows "case payload_step callback rx data ctx of Inl (rc, rx', ctx') \<Rightarrow> rx_ok rx' | Inr (rx', data', ctx') \<Rightarrow> rx_ok rx'"
proof -
  obtain rc rx1 where r: "ready_frame rx = (rc, rx1)" by fastforce
  note R = ready_frame_ok [OF assms r]
  have "rx_ok (take_payload rx1 (left rx1) data)" if "rc = EAF_OK" "left rx1 \<le> length data"
    using R that by (intro take_payload_ok) simp_all
  moreover have "rx_ok (take_payload rx1 (length data) data)" if "rc = EAF_OK" "\<not> left rx1 \<le> length data"
    using R that by (intro take_payload_ok) simp_all
  ultimately show ?thesis using R unfolding payload_step_eq [OF assms] r
    by (auto simp: Let_def split: prod.splits dest: complete_frame_ok)
qed

text \<open>Every iteration keeps the decoder's memory and counters consistent.\<close>

lemma feed_step_ok:
  assumes "rx_ok rx" and "data \<noteq> []"
  shows "case feed_step callback rx data ctx of Inl (rc, rx', ctx') \<Rightarrow> rx_ok rx' | Inr (rx', data', ctx') \<Rightarrow> rx_ok rx'"
proof -
  consider (start) "header_used rx < 2" | (header) "\<not> header_used rx < 2" "header_used rx < header_needed rx"
    | (payload) "2 \<le> header_used rx" "header_used rx = header_needed rx"
    using assms(1) by (fastforce simp: rx_ok_def)
  then show ?thesis
  proof cases
    case start
    then show ?thesis using assms(1)
      by (auto simp: feed_step_def header_start_def rx_ok_def rx_mem_def message_bytes_def Let_def)
  next
    case payload
    then show ?thesis using payload_step_ok [OF assms(1) payload] by (simp add: feed_step_def)
  next
    case header
    define n where "n = (if header_needed rx - header_used rx > length data then length data else header_needed rx - header_used rx)"
    let ?rx = "rx\<lparr>header := blit (header rx) (header_used rx) (take n data), header_used := header_used rx + n\<rparr>"
    have n: "header_used rx + n \<le> header_needed rx" "n \<le> length data" using header by (auto simp: n_def)
    have ok: "rx_ok ?rx" using assms(1) header n by (auto simp: rx_ok_def rx_mem_def message_bytes_def)
    have "feed_step callback rx data ctx =
        (if header_used ?rx < header_needed ?rx then Inr (?rx, drop n data, ctx) else payload_step callback ?rx (drop n data) ctx)"
      using header by (simp add: feed_step_def Let_def n_def)
    then show ?thesis using ok payload_step_ok [OF ok, of callback "drop n data" ctx] header n by auto
  qed
qed

section \<open>Cutting the stream\<close>

lemma mask_byte_shift:
  "mask_byte msk (pu + of_nat (length d1)) key d2 j = mask_byte msk pu key (d1 @ d2) (length d1 + j)"
proof -
  have "(unat (pu + of_nat (length d1)) + j) mod 4 = (unat pu + length d1 + j) mod 4"
    using mask_slot [of pu "length d1"] and_3_mod [of "pu + of_nat (length d1)"] by (metis mod_add_left_eq)
  then show ?thesis by (simp add: mask_byte_def add.assoc nth_append)
qed

lemma copy_payload_append:
  assumes "used + length d1 + k \<le> length tgt" and "k \<le> length d2" and "length key = 4"
  shows "copy_payload msk (pu + of_nat (length d1)) key k d2 (used + length d1)
      (copy_payload msk pu key (length d1) d1 used tgt) =
    copy_payload msk pu key (length d1 + k) (d1 @ d2) used tgt"
proof -
  let ?f = "mask_byte msk pu key (d1 @ d2)"
  have m1: "map (mask_byte msk pu key d1) [0..<length d1] = map ?f [0..<length d1]"
    by (simp add: mask_byte_def nth_append)
  have 1: "copy_payload msk pu key (length d1) d1 used tgt = blit tgt used (map ?f [0..<length d1])"
    unfolding m1 [symmetric] by (rule copy_payload_blit) (use assms in simp_all)
  have m2: "map (mask_byte msk (pu + of_nat (length d1)) key d2) [0..<k] = map ?f [length d1..<length d1 + k]"
    by (rule nth_equalityI) (simp_all add: mask_byte_shift)
  have 2: "copy_payload msk (pu + of_nat (length d1)) key k d2 (used + length d1) (blit tgt used (map ?f [0..<length d1])) =
      blit (blit tgt used (map ?f [0..<length d1])) (used + length d1) (map ?f [length d1..<length d1 + k])"
    unfolding m2 [symmetric] by (rule copy_payload_blit) (use assms in simp_all)
  have "[0..<length d1 + k] = [0..<length d1] @ [length d1..<length d1 + k]" by (rule upt_add_eq_append) simp
  then have "blit (blit tgt used (map ?f [0..<length d1])) (used + length d1) (map ?f [length d1..<length d1 + k]) =
      blit tgt used (map ?f [0..<length d1 + k])"
    using assms(1) by (simp add: blit_def) (simp add: ac_simps)
  then show ?thesis unfolding 1 2 using copy_payload_blit [of used "length d1 + k" tgt "d1 @ d2" key msk pu] assms by simp
qed

lemma take_payload_append:
  assumes "rx_mem rx" and "fill rx + length d1 + k \<le> room rx" and "k \<le> length d2"
  shows "take_payload (take_payload rx (length d1) d1) k d2 = take_payload rx (length d1 + k) (d1 @ d2)"
proof (cases "is_control (rx_opcode rx)")
  case True
  then have "copy_payload (masked rx) (payload_used rx + of_nat (length d1)) (rx_mask rx) k d2 (control_length rx + length d1)
      (copy_payload (masked rx) (payload_used rx) (rx_mask rx) (length d1) d1 (control_length rx) (control rx)) =
    copy_payload (masked rx) (payload_used rx) (rx_mask rx) (length d1 + k) (d1 @ d2) (control_length rx) (control rx)"
    using assms by (intro copy_payload_append) (simp_all add: rx_mem_def fill_def room_def)
  with True show ?thesis by (simp add: take_payload_def Let_def add.assoc)
next
  case False
  show ?thesis
  proof (cases "message rx")
    case None
    with False show ?thesis by (simp add: take_payload_def Let_def add.assoc)
  next
    case (Some m)
    have "copy_payload (masked rx) (payload_used rx + of_nat (length d1)) (rx_mask rx) k d2 (message_length rx + length d1)
        (copy_payload (masked rx) (payload_used rx) (rx_mask rx) (length d1) d1 (message_length rx) m) =
      copy_payload (masked rx) (payload_used rx) (rx_mask rx) (length d1 + k) (d1 @ d2) (message_length rx) m"
      using assms False Some by (intro copy_payload_append) (simp_all add: rx_mem_def fill_def room_def message_bytes_def)
    with False Some show ?thesis by (simp add: take_payload_def Let_def add.assoc)
  qed
qed

lemma copy_payload_prefix:
  assumes "used + n \<le> length tgt" and "n \<le> length a" and "length key = 4"
  shows "copy_payload msk pu key n (a @ b) used tgt = copy_payload msk pu key n a used tgt"
proof -
  have "map (mask_byte msk pu key (a @ b)) [0..<n] = map (mask_byte msk pu key a) [0..<n]"
    using assms(2) by (simp add: mask_byte_def nth_append)
  then show ?thesis using copy_payload_blit [OF assms(1) _ assms(3)] assms(2) by (metis le_trans length_append le_add1)
qed

lemma take_payload_prefix:
  assumes "rx_mem rx" and "fill rx + n \<le> room rx" and "n \<le> length a"
  shows "take_payload rx n (a @ b) = take_payload rx n a"
  using assms
  by (cases "message rx"; cases "is_control (rx_opcode rx)")
     (simp_all add: take_payload_def rx_mem_def fill_def room_def message_bytes_def copy_payload_prefix)

text \<open>
  An iteration on \<open>a\<close> followed by more input \<open>b\<close>: either it is the iteration on \<open>a\<close>, or \<open>a\<close> was used up in the
  middle of a header or payload and the iteration on the whole input is the one that
  continues on \<open>b\<close>.
\<close>

lemma payload_step_append:
  assumes "rx_ok rx" and "2 \<le> header_used rx" and "header_used rx = header_needed rx"
  shows "case payload_step callback rx a ctx of
      Inl r \<Rightarrow> payload_step callback rx (a @ b) ctx = Inl r
    | Inr (rx', a', ctx') \<Rightarrow> payload_step callback rx (a @ b) ctx = Inr (rx', a' @ b, ctx') \<or>
        a' = [] \<and> 2 \<le> header_used rx' \<and> header_used rx' = header_needed rx' \<and>
        payload_step callback rx (a @ b) ctx = payload_step callback rx' b ctx'"
proof -
  obtain rc rx1 where r: "ready_frame rx = (rc, rx1)" by fastforce
  note R = ready_frame_ok [OF assms r]
  show ?thesis
  proof (cases "rc = EAF_OK \<and> \<not> left rx1 \<le> length a")
    case False
    have tp: "take_payload rx1 (left rx1) (a @ b) = take_payload rx1 (left rx1) a" if "rc = EAF_OK" "left rx1 \<le> length a"
      using R that by (intro take_payload_prefix) (simp_all add: rx_ok_def)
    show ?thesis using False tp unfolding payload_step_eq [OF assms] r by (auto simp: Let_def split: prod.splits)
  next
    case True
    then have ok: "rx_ok rx1" "frame_ready rx1" "length a < left rx1" using R by auto
    let ?x = "take_payload rx1 (length a) a"
    have x: "rx_ok ?x" using ok by (intro take_payload_ok) simp_all
    have h: "2 \<le> header_used ?x" "header_used ?x = header_needed ?x" using R assms(2,3) by simp_all
    have rdy: "ready_frame ?x = (EAF_OK, ?x)" using ok(2) by (simp add: ready_frame_def)
    have lx: "left ?x = left rx1 - length a" using ok(3) by (intro take_payload_left) simp
    have m: "rx_mem rx1" "fill rx1 + left rx1 \<le> room rx1" using ok by (simp_all add: rx_ok_def)
    have app: "take_payload ?x k b = take_payload rx1 (length a + k) (a @ b)" if "k \<le> length b" "k \<le> left ?x" for k
      using that lx m(2) ok(3) by (intro take_payload_append m(1)) simp_all
    have "payload_step callback rx (a @ b) ctx = payload_step callback ?x b ctx"
    proof (cases "left ?x \<le> length b")
      case True
      then have le: "left rx1 \<le> length (a @ b)" and kl: "length a + left ?x = left rx1" using lx ok(3) by simp_all
      have tp: "take_payload ?x (left ?x) b = take_payload rx1 (left rx1) (a @ b)" using app [of "left ?x"] True kl by simp
      have dr: "drop (left rx1) (a @ b) = drop (left ?x) b" using lx ok(3) by simp
      show ?thesis unfolding payload_step_eq [OF assms] payload_step_eq [OF x h] r rdy
        using True le \<open>rc = EAF_OK \<and> \<not> left rx1 \<le> length a\<close> by (simp only: tp dr Let_def prod.case if_True if_False not_not simp_thms)
    next
      case False
      then have "\<not> left rx1 \<le> length (a @ b)" using lx by simp
      with False app [of "length b"] \<open>rc = EAF_OK \<and> \<not> left rx1 \<le> length a\<close> show ?thesis
        unfolding payload_step_eq [OF assms] payload_step_eq [OF x h] r rdy by simp
    qed
    moreover have "payload_step callback rx a ctx = Inr (?x, [], ctx)"
      unfolding payload_step_eq [OF assms] r using True by simp
    ultimately show ?thesis using h by simp
  qed
qed

lemma feed_step_append:
  assumes "rx_ok rx" and "a \<noteq> []" and "b \<noteq> []"
  shows "case feed_step callback rx a ctx of
      Inl r \<Rightarrow> feed_step callback rx (a @ b) ctx = Inl r
    | Inr (rx', a', ctx') \<Rightarrow> feed_step callback rx (a @ b) ctx = Inr (rx', a' @ b, ctx') \<or>
        a' = [] \<and> feed_step callback rx (a @ b) ctx = feed_step callback rx' b ctx'"
proof -
  have pay: "feed_step callback x c ctx' = payload_step callback x c ctx'" if "2 \<le> header_used x" "header_used x = header_needed x" for x c ctx'
    using that by (simp add: feed_step_def)
  consider (start) "header_used rx < 2" | (header) "\<not> header_used rx < 2" "header_used rx < header_needed rx"
    | (payload) "2 \<le> header_used rx" "header_used rx = header_needed rx"
    using assms(1) by (fastforce simp: rx_ok_def)
  then show ?thesis
  proof cases
    case start
    then show ?thesis using assms(2) by (simp add: feed_step_def Let_def)
  next
    case payload
    show ?thesis using payload_step_append [OF assms(1) payload, where callback = callback and a = a and b = b and ctx = ctx] pay [OF payload] pay
      by (auto split: sum.splits)
  next
    case header
    define q where "q = header_needed rx - header_used rx"
    define hx where "hx = (\<lambda>c n. rx\<lparr>header := blit (header rx) (header_used rx) (take n c), header_used := header_used rx + n\<rparr>)"
    have q: "0 < q" "header_used rx + q = header_needed rx" using header by (auto simp: q_def)
    have step: "feed_step callback rx c ctx = (if length c < q then Inr (hx c (length c), [], ctx)
        else payload_step callback (hx c q) (drop q c) ctx)" for c
      using header q by (auto simp: feed_step_def Let_def q_def hx_def)
    have len: "length (header rx) = 14" "header_needed rx \<le> 14" using assms(1) header by (auto simp: rx_ok_def rx_mem_def)
    show ?thesis
    proof (cases "length a < q")
      case False
      have hq: "hx (a @ b) q = hx a q" using False by (simp add: hx_def)
      have ok: "rx_ok (hx a q)" using assms(1) header q len False
        by (auto simp: hx_def rx_ok_def rx_mem_def message_bytes_def)
      have h: "2 \<le> header_used (hx a q)" "header_used (hx a q) = header_needed (hx a q)"
        using header q by (simp_all add: hx_def)
      show ?thesis using payload_step_append [OF ok h, where callback = callback and a = "drop q a" and b = b and ctx = ctx] False hq pay unfolding step
        by (auto split: sum.splits)
    next
      case True
      let ?x = "hx a (length a)"
      have hd: "\<not> header_used ?x < 2" "header_used ?x < header_needed ?x" "header_needed ?x - header_used ?x = q - length a"
        using header True q by (auto simp: hx_def)
      have app: "?x\<lparr>header := blit (header ?x) (header_used ?x) (take n b), header_used := header_used ?x + n\<rparr> = hx (a @ b) (length a + n)"
        if "length a + n \<le> q" "n \<le> length b" for n
        using that True q len by (simp add: hx_def blit_def add.assoc) (simp add: ac_simps)
      have "feed_step callback ?x b ctx = feed_step callback rx (a @ b) ctx"
      proof (cases "length (a @ b) < q")
        case less: True
        then have n: "length b < q - length a" by simp
        then have "header_used ?x + length b < header_needed ?x" using hd by linarith
        then show ?thesis unfolding step [of "a @ b"] using less hd n app [of "length b"]
          by (simp add: feed_step_def Let_def)
      next
        case False
        then have n: "q - length a \<le> length b" "length a + (q - length a) = q" using True by simp_all
        show ?thesis unfolding step [of "a @ b"] using False hd n app [of "q - length a"] q True
          by (simp add: feed_step_def Let_def hx_def) linarith
      qed
      then show ?thesis using True by (simp add: step [of a])
    qed
  qed
qed

lemma payload_step_error:
  assumes "payload_step callback rx data ctx = Inl r"
  shows "fst r \<noteq> EAF_OK"
proof -
  obtain rc1 rx1 where r: "ready_frame rx = (rc1, rx1)" by fastforce
  let ?l = "unat (payload_length rx1 - payload_used rx1)"
  obtain rc2 rx2 ctx2 where c: "complete_frame callback (take_payload rx1
      (if length data > ?l then ?l else length data) data) ctx = (rc2, rx2, ctx2)" by (metis prod_cases3)
  show ?thesis using assms unfolding payload_step_def r Let_def prod.case c by (auto split: if_splits)
qed

lemma feed_step_error: "feed_step callback rx data ctx = Inl r \<Longrightarrow> fst r \<noteq> EAF_OK"
  by (auto simp: feed_step_def Let_def split: if_splits dest: payload_step_error)

text \<open>The receive loop is a suspendable loop on the receiver and the callback's context.\<close>

definition ws_step ::
  "'c eaf_sendspin_ws_message_fn option \<Rightarrow> eaf_sendspin_ws_rx_t \<times> 'c \<Rightarrow> u8 list \<Rightarrow>
   (eaf_result_t \<times> eaf_sendspin_ws_rx_t \<times> 'c) + ((eaf_sendspin_ws_rx_t \<times> 'c) \<times> u8 list)" where
  "ws_step callback s data = map_sum id (\<lambda>(rx, data, ctx). ((rx, ctx), data)) (feed_step callback (fst s) data (snd s))"

interpretation ws: chunked_loop "\<lambda>s. rx_ok (fst s)" "\<lambda>s. rx_ok (fst s)" "ws_step callback"
  "\<lambda>s data. feed_loop callback (fst s) data (snd s)" "\<lambda>s. header_used (fst s)"
  for callback :: "'c eaf_sendspin_ws_message_fn option"
proof (unfold_locales, goal_cases)
  case (1 s)
  show ?case by (simp add: feed_loop.simps)
next
  case (2 xs s)
  then show ?case by (subst feed_loop.simps) (auto simp: ws_step_def split: sum.splits)
next
  case (3 s xs r)
  then show ?case using feed_step_error [of callback "fst s" xs "snd s"]
    by (cases "feed_step callback (fst s) xs (snd s)") (auto simp: ws_step_def)
next
  case (4 s)
  then show ?case .
next
  case (5 s xs)
  then show ?case using feed_step_ok [of "fst s" xs callback "snd s"]
    by (auto simp: ws_step_def split: sum.splits)
next
  case (6 xs s s' xs')
  then show ?case using feed_step_decreases [of callback "fst s" xs "snd s" "fst s'" xs' "snd s'"]
    by (cases "feed_step callback (fst s) xs (snd s)") (auto simp: ws_step_def)
next
  case (7 s a b)
  then show ?case using feed_step_append [of "fst s" a b callback "snd s"]
    by (auto simp: ws_step_def split: sum.splits)
qed

lemma feed_loop_ok: "rx_ok rx \<Longrightarrow> rx_ok (fst (snd (feed_loop callback rx data ctx)))"
  using ws.loop_keeps [of "(rx, ctx)" callback data] by simp

lemma feed_loop_append:
  "rx_ok rx \<Longrightarrow> feed_loop callback rx (a @ b) ctx =
    (case feed_loop callback rx a ctx of (rc, rx', ctx') \<Rightarrow>
       if rc \<noteq> EAF_OK then (rc, rx', ctx') else feed_loop callback rx' b ctx')"
  using ws.loop_append [of "(rx, ctx)" callback a b] by (auto split: prod.splits)

section \<open>Frames of the encoder\<close>

lemma encode_words_spec:
  assumes "off + length payload \<le> length dst" and "i mod 4 = 0" and "i \<le> length payload"
  shows "\<exists>i'. encode_words payload key off i (blit dst off (map (\<lambda>j. payload ! j XOR key ! (j mod 4)) [0..<i])) =
      (i', blit dst off (map (\<lambda>j. payload ! j XOR key ! (j mod 4)) [0..<i'])) \<and> i' \<le> length payload"
  using assms(2,3)
proof (induction "length payload - i" arbitrary: i rule: less_induct)
  case less
  let ?f = "\<lambda>j. payload ! j XOR key ! (j mod 4)"
  show ?case
  proof (cases "i + 4 \<le> length payload")
    case False
    then show ?thesis using less.prems by (subst encode_words.simps) auto
  next
    case True
    have m: "(i + 1) mod 4 = 1" "(i + 2) mod 4 = 2" "(i + 3) mod 4 = 3" "(i + 4) mod 4 = 0"
      using less.prems(1) by presburger+
    have v: "payload ! i XOR key ! 0 = ?f i" "payload ! (i + 1) XOR key ! 1 = ?f (i + 1)"
      "payload ! (i + 2) XOR key ! 2 = ?f (i + 2)" "payload ! (i + 3) XOR key ! 3 = ?f (i + 3)"
      using m less.prems(1) by (simp_all only:)
    have st: "(blit dst off (map ?f [0..<k]))[off + k := ?f k] = blit dst off (map ?f [0..<k + 1])" if "k < i + 4" for k
      using blit_loop_step [of off k dst ?f] that True assms(1) by simp
    have "(blit dst off (map ?f [0..<i]))[off + i := payload ! i XOR key ! 0, off + (i + 1) := payload ! (i + 1) XOR key ! 1,
          off + (i + 2) := payload ! (i + 2) XOR key ! 2, off + (i + 3) := payload ! (i + 3) XOR key ! 3] =
        blit dst off (map ?f [0..<i + 4])"
    proof -
      have s1: "(blit dst off (map ?f [0..<i]))[off + i := ?f i] = blit dst off (map ?f [0..<i + 1])" by (rule st) simp
      have i: "i + 1 + 1 = i + 2" "i + 2 + 1 = i + 3" "i + 3 + 1 = i + 4" by simp_all
      have s2: "(blit dst off (map ?f [0..<i + 1]))[off + (i + 1) := ?f (i + 1)] = blit dst off (map ?f [0..<i + 2])"
        unfolding i(1) [symmetric] by (rule st) simp
      have s3: "(blit dst off (map ?f [0..<i + 2]))[off + (i + 2) := ?f (i + 2)] = blit dst off (map ?f [0..<i + 3])"
        unfolding i(2) [symmetric] by (rule st) simp
      have s4: "(blit dst off (map ?f [0..<i + 3]))[off + (i + 3) := ?f (i + 3)] = blit dst off (map ?f [0..<i + 4])"
        unfolding i(3) [symmetric] by (rule st) simp
      show ?thesis unfolding v s1 s2 s3 s4 ..
    qed
    moreover have "length payload - (i + 4) < length payload - i" using True by simp
    ultimately show ?thesis using less.hyps [of "i + 4"] m(4) True by (subst encode_words.simps) simp
  qed
qed

lemma mask_payload_blit:
  assumes "off + length payload \<le> length dst"
  shows "mask_payload payload key off dst = blit dst off (map (\<lambda>j. payload ! j XOR key ! (j mod 4)) [0..<length payload])"
proof -
  obtain i where i: "encode_words payload key off 0 dst =
      (i, blit dst off (map (\<lambda>j. payload ! j XOR key ! (j mod 4)) [0..<i]))" "i \<le> length payload"
    using encode_words_spec [OF assms, of 0 key] by auto
  show ?thesis using fold_update_from [OF assms i(2), of "\<lambda>j. payload ! j XOR key ! (j mod 4)"] i(1)
    by (simp add: mask_payload_def)
qed

end
