(* ===== verification/Sendspin_Frames.thy ===== *)
theory Sendspin_Frames
  imports Sendspin_WS
begin

text \<open>
  The frames of \<open>apps/sendspin/sendspin_ws.c\<close> on the wire. A closed form of the bytes the encoder
  writes, the receive loop on such a frame, and the theorems of the WebSocket layer:
  every sequence of encoded messages is delivered in order, however the byte stream is cut
  into reads.
\<close>

section \<open>The encoder's bytes\<close>

lemma low_bits: "x < 128 \<Longrightarrow> (128 OR x :: u8) AND 127 = x"
proof -
  assume x: "x < 128"
  have "unat x < 128" using x by (simp add: word_less_nat_alt)
  then have "take_bit 7 x = x" by (simp add: word_unat_eq_iff unsigned_take_bit_eq take_bit_nat_eq_self)
  moreover have "(127::u8) = mask 7" by (simp add: mask_eq_exp_minus_1)
  ultimately have "x AND 127 = x" by (simp add: take_bit_eq_mask)
  then show ?thesis by (simp add: bit.conj_disj_distrib2)
qed

lemma high_bit: "(128 OR x :: u8) AND 128 \<noteq> 0"
proof -
  have "bit ((128 OR x :: u8) AND 128) 7" by (simp add: bit_simps)
  then show ?thesis by (metis bit_0_eq bot_apply bot_bool_def)
qed

definition frame_op :: "u8 \<Rightarrow> bool" where
  "frame_op op \<longleftrightarrow> op = EAF_SENDPIN_WS_TEXT \<or> op = EAF_SENDPIN_WS_BINARY \<or> is_control op"

lemma frame_op_low: "frame_op op \<Longrightarrow> (128 OR (op AND 15)) AND 15 = op" "frame_op op \<Longrightarrow> op \<noteq> 0"
  by (auto simp: frame_op_def is_control_def)

text \<open>The bytes of a masked frame: the two fixed bytes, the extended length, the key, the masked payload.\<close>

definition length_bytes :: "nat \<Rightarrow> u8 list" where
  "length_bytes n =
     (if n \<le> 125 then [128 OR of_nat n]
      else if n \<le> 65535 then [254, of_nat (n div 256), of_nat n]
      else 255 # map (\<lambda>i. ucast (drop_bit (56 - 8 * i) (of_nat n :: u64))) [0..<8])"

definition key_bytes_of :: "u32 \<Rightarrow> u8 list" where
  "key_bytes_of k = [ucast k, ucast (drop_bit 8 k), ucast (drop_bit 16 k), ucast (drop_bit 24 k)]"

definition masked_bytes :: "u8 list \<Rightarrow> u8 list \<Rightarrow> u8 list" where
  "masked_bytes key p = map (\<lambda>j. p ! j XOR key ! (j mod 4)) [0..<length p]"

definition frame_bytes_of :: "u8 \<Rightarrow> u8 list \<Rightarrow> u32 \<Rightarrow> u8 list" where
  "frame_bytes_of op p k =
     (128 OR (op AND 15)) # length_bytes (length p) @ key_bytes_of k @ masked_bytes (key_bytes_of k) p"

text \<open>
  Any unfragmented frame: masked with a key, as a client sends it, or, as a server does, without
  a key. The mask bit of the length byte says which.
\<close>

definition len_of :: "u32 option \<Rightarrow> nat \<Rightarrow> u8 list" where
  "len_of ko n =
     (if ko \<noteq> None then length_bytes n
      else if n \<le> 125 then [of_nat n]
      else if n \<le> 65535 then [126, of_nat (n div 256), of_nat n]
      else 127 # map (\<lambda>i. ucast (drop_bit (56 - 8 * i) (of_nat n :: u64))) [0..<8])"

definition key_of :: "u32 option \<Rightarrow> u8 list" where
  "key_of ko = (case ko of None \<Rightarrow> [] | Some k \<Rightarrow> key_bytes_of k)"

definition body_of :: "u32 option \<Rightarrow> u8 list \<Rightarrow> u8 list" where
  "body_of ko p = (case ko of None \<Rightarrow> p | Some k \<Rightarrow> masked_bytes (key_bytes_of k) p)"

definition any_frame :: "u8 \<Rightarrow> u8 list \<Rightarrow> u32 option \<Rightarrow> u8 list" where
  "any_frame op p ko = (128 OR (op AND 15)) # len_of ko (length p) @ key_of ko @ body_of ko p"

lemma any_frame_Some: "any_frame op p (Some k) = frame_bytes_of op p k"
  by (simp add: any_frame_def frame_bytes_of_def len_of_def key_of_def body_of_def)

lemma length_body_of [simp]: "length (body_of ko p) = length p"
  by (simp add: body_of_def masked_bytes_def split: option.split)

lemma length_length_bytes: "length (length_bytes n) = (if n \<le> 125 then 1 else if n \<le> 65535 then 3 else 9)"
  by (simp add: length_bytes_def)

lemma u64_write_bytes:
  assumes "8 \<le> length p"
  shows "eaf_bytes_write_u64 p v = map (\<lambda>i. ucast (drop_bit (56 - 8 * i) v)) [0..<8] @ drop 8 p"
  using fold_update_blit [of 0 8 p "\<lambda>i. ucast (drop_bit (56 - 8 * i) v)"] assms
  by (simp add: eaf_bytes_write_u64_def blit_def)

lemma blit_0_append:
  "blit (blit dst 0 xs) (length xs) ys = blit dst 0 (xs @ ys)"
  by (simp add: blit_def add.commute)

lemma updates_blit2: "2 \<le> length dst \<Longrightarrow> dst[0 := a, Suc 0 := b] = blit dst 0 [a, b]"
  using fold_update_blit [of 0 2 dst "\<lambda>i. [a, b] ! i"] by (simp add: upt_rec)

lemma updates_blit4:
  "off + 4 \<le> length dst \<Longrightarrow> dst[off := a, off + 1 := b, off + 2 := c, off + 3 := d] = blit dst off [a, b, c, d]"
  using fold_update_blit [of off 4 dst "\<lambda>i. [a, b, c, d] ! i"] by (simp add: upt_rec numeral_2_eq_2 numeral_3_eq_3)

text \<open>The encoder writes exactly these bytes.\<close>

lemma encode_frame:
  assumes "length (frame_bytes_of op p k) \<le> capacity" and "capacity \<le> length dst"
  shows "\<exists>dst'. eaf_sendspin_ws_encode dst capacity op (Some p) (length p) k = (EAF_OK, length (frame_bytes_of op p k), dst') \<and>
    dst' = blit dst 0 (frame_bytes_of op p k)"
proof -
  let ?n = "length p" and ?key = "key_bytes_of k" and ?b0 = "128 OR (op AND 15) :: u8"
  define X where "X = ?b0 # length_bytes ?n"
  let ?pos = "2 + (if ?n > 125 then if ?n \<le> 65535 then 2 else 8 else 0)"
  have pos: "?pos = length X" by (simp add: X_def length_length_bytes)
  have len: "length (frame_bytes_of op p k) = length X + 4 + ?n"
    by (simp add: frame_bytes_of_def X_def key_bytes_of_def masked_bytes_def)
  have room: "length X + 4 + ?n \<le> capacity" using assms(1) len by simp
  define H where "H = (let d = dst[0 := ?b0] in if ?n \<le> 125 then d[1 := 128 OR of_nat ?n]
      else if ?n \<le> 65535 then d[1 := 128 OR 126, 2 := of_nat (?n div 256), 3 := of_nat ?n]
      else take 2 (d[1 := 128 OR 127]) @ eaf_bytes_write_u64 (drop 2 d) (of_nat ?n))"
  have H: "H = blit dst 0 X"
  proof -
    have l: "length X \<le> length dst" using room assms(2) by simp
    consider "?n \<le> 125" | "125 < ?n" "?n \<le> 65535" | "65535 < ?n" by linarith
    then show ?thesis
    proof cases
      case 1
      then show ?thesis using l updates_blit2 [of dst ?b0] by (simp add: H_def X_def length_bytes_def)
    next
      case 2
      then show ?thesis using l updates_blit4 [of 0 dst ?b0] by (simp add: H_def X_def length_bytes_def Let_def numeral_2_eq_2 numeral_3_eq_3)
    next
      case 3
      have "10 \<le> length dst" using l 3 by (simp add: X_def length_length_bytes)
      note l = this
      have "take 2 (dst[0 := ?b0, Suc 0 := 255]) = [?b0, 255]"
        using l updates_blit2 [of dst ?b0 255] by (simp add: blit_def)
      then show ?thesis using 3 l u64_write_bytes [of "drop 2 dst" "of_nat ?n"]
        by (simp add: H_def X_def length_bytes_def blit_def Let_def del: upt_rec_numeral upt_Suc)
    qed
  qed
  have K: "H[length X := ucast k, length X + 1 := ucast (drop_bit 8 k), length X + 2 := ucast (drop_bit 16 k),
      length X + 3 := ucast (drop_bit 24 k)] = blit dst 0 (X @ ?key)"
  proof -
    have "length X + 4 \<le> length H" using H room assms(2) by (simp add: blit_def)
    from updates_blit4 [OF this] show ?thesis unfolding H blit_0_append key_bytes_of_def by simp
  qed
  have key: "take 4 (drop (length X) (blit dst 0 (X @ ?key))) = ?key" by (simp add: blit_def key_bytes_of_def)
  have M: "mask_payload p ?key (length X + 4) (blit dst 0 (X @ ?key)) = blit dst 0 (frame_bytes_of op p k)"
  proof -
    have xl: "length (X @ ?key) = length X + 4" by (simp add: key_bytes_of_def)
    have "length X + 4 + length p \<le> length (blit dst 0 (X @ ?key))" using room assms(2) xl by (simp add: blit_def)
    from mask_payload_blit [OF this, of ?key] show ?thesis
      unfolding xl [symmetric] blit_0_append by (simp add: frame_bytes_of_def X_def masked_bytes_def)
  qed
  show ?thesis using room len key K M pos
    by (simp add: eaf_sendspin_ws_encode_def Let_def H_def [unfolded Let_def, symmetric])
qed

lemma length_frame_bytes: "length (frame_bytes_of op p k) = (if length p \<le> 125 then 6 else if length p \<le> 65535 then 8 else 14) + length p"
  by (simp add: frame_bytes_of_def length_length_bytes key_bytes_of_def masked_bytes_def)

lemma encode_too_long:
  "capacity < length (frame_bytes_of op p k) \<Longrightarrow> eaf_sendspin_ws_encode dst capacity op (Some p) (length p) k = (EAF_INVALID, 0, dst)"
  by (simp add: eaf_sendspin_ws_encode_def length_frame_bytes Let_def split: if_splits)

section \<open>The receive loop on one frame\<close>

lemma ucast_of_nat_u8: "n < 256 \<Longrightarrow> (ucast (of_nat n :: u8) :: 'a::len word) = of_nat n"
  by (simp add: unsigned_of_nat take_bit_nat_eq_self)

lemma length_code:
  "length_bytes n ! 0 AND 127 = (if n \<le> 125 then of_nat n else if n \<le> 65535 then 126 else 127)"
  "length_bytes n ! 0 AND 128 \<noteq> 0"
proof -
  have "(of_nat n :: u8) < 128" if "n \<le> 125" using that by (simp add: word_less_nat_alt unat_of_nat)
  then show "length_bytes n ! 0 AND 127 = (if n \<le> 125 then of_nat n else if n \<le> 65535 then 126 else 127)"
    by (simp add: length_bytes_def low_bits)
  show "length_bytes n ! 0 AND 128 \<noteq> 0"
    using high_bit [of "of_nat n"] by (simp add: length_bytes_def)
qed

lemma length_len_of: "length (len_of ko n) = (if n \<le> 125 then 1 else if n \<le> 65535 then 3 else 9)"
  by (simp add: len_of_def length_length_bytes)

lemma small_byte: "x < 128 \<Longrightarrow> (x :: u8) AND 127 = x \<and> x AND 128 = 0"
proof -
  assume "x < 128"
  then have "(128 OR x) AND 127 = x" by (rule low_bits)
  then have a: "x AND 127 = x" by (simp add: bit.conj_disj_distrib2)
  have "x AND 128 = x AND (127 AND 128)" by (simp only: and.assoc [symmetric] a)
  also have "\<dots> = 0" by simp
  finally show ?thesis using a by simp
qed

lemma len_code:
  "len_of ko n ! 0 AND 127 = (if n \<le> 125 then of_nat n else if n \<le> 65535 then 126 else 127)"
  "len_of ko n ! 0 AND 128 \<noteq> 0 \<longleftrightarrow> ko \<noteq> None"
proof -
  have "(of_nat n :: u8) < 128" if "n \<le> 125" using that by (simp add: word_less_nat_alt unat_of_nat)
  then show "len_of ko n ! 0 AND 127 = (if n \<le> 125 then of_nat n else if n \<le> 65535 then 126 else 127)"
    "len_of ko n ! 0 AND 128 \<noteq> 0 \<longleftrightarrow> ko \<noteq> None"
    using length_code [of n] small_byte [of "of_nat n"] by (auto simp: len_of_def)
qed

lemma small_code: "n \<le> 125 \<Longrightarrow> (of_nat n :: u8) \<noteq> 126 \<and> (of_nat n :: u8) \<noteq> 127"
  by (auto simp: word_unat_eq_iff unat_of_nat)

lemma read_length_16:
  assumes "n \<le> 65535"
  shows "ucast (eaf_bytes_read_u16 (of_nat (n div 256) # of_nat n # rest)) = (of_nat n :: u64)"
proof -
  have w: "eaf_bytes_write_u16 [0, 0] (of_nat n) = [of_nat (n div 256), of_nat n]"
  proof -
    have "ucast (drop_bit 8 (of_nat n :: u16)) = (of_nat (n div 256) :: u8)"
    proof -
      have n: "unat (of_nat n :: u16) = n" "n div 256 < 256" using assms by (simp_all add: unat_of_nat)
      show ?thesis using n(2)
        by (simp add: word_unat_eq_iff unat_of_nat unsigned_drop_bit_eq drop_bit_eq_div unsigned_ucast_eq take_bit_nat_def unat_div n(1))
    qed
    moreover have "ucast (of_nat n :: u16) = (of_nat n :: u8)"
      by (simp add: word_unat_eq_iff unat_of_nat unsigned_ucast_eq take_bit_nat_def mod_mod_cancel)
    ultimately show ?thesis by (simp add: eaf_bytes_write_u16_def)
  qed
  have "eaf_bytes_read_u16 (of_nat (n div 256) # of_nat n # rest) = eaf_bytes_read_u16 [of_nat (n div 256), of_nat n]"
    by (simp add: eaf_bytes_read_u16_def)
  also have "\<dots> = of_nat n" using read_write_u16 [of "[0, 0]" "of_nat n"] by (simp add: w)
  finally show ?thesis using assms by (simp add: unsigned_of_nat take_bit_nat_eq_self)
qed

lemma read_length_64:
  "eaf_bytes_read_u64 (map (\<lambda>i. ucast (drop_bit (56 - 8 * i) v)) [0..<8] @ rest) = (v :: u64)"
proof -
  have "eaf_bytes_read_u64 (map (\<lambda>i. ucast (drop_bit (56 - 8 * i) v)) [0..<8] @ rest) =
      eaf_bytes_read_u64 (eaf_bytes_write_u64 (replicate 8 0) v)"
    by (simp add: u64_write_bytes eaf_bytes_read_u64_def upt_8)
  then show ?thesis by (simp add: read_write_u64)
qed

lemma frame_length_bytes:
  "frame_length (b # len_of ko n @ rest) = (of_nat n, 1 + length (len_of ko n))"
proof -
  have one: "(b # len_of ko n @ rest) ! 1 = len_of ko n ! 0"
    using length_len_of [of ko n] by (cases "len_of ko n") (auto split: if_splits)
  consider "n \<le> 125" | "125 < n" "n \<le> 65535" | "65535 < n" by linarith
  then show ?thesis
  proof cases
    case 1
    then show ?thesis using small_code [of n] unfolding frame_length_def one len_code(1)
      by (simp add: ucast_of_nat_u8 len_of_def length_bytes_def)
  next
    case 2
    then show ?thesis using read_length_16 [of n rest] unfolding frame_length_def one len_code(1)
      by (simp add: len_of_def length_bytes_def)
  next
    case 3
    have "drop 2 (b # len_of ko n @ rest) = map (\<lambda>i. ucast (drop_bit (56 - 8 * i) (of_nat n :: u64))) [0..<8] @ rest"
      using 3 by (simp add: len_of_def length_bytes_def del: upt_rec_numeral upt_Suc)
    then show ?thesis using 3 read_length_64 [of "of_nat n" rest] unfolding frame_length_def one len_code(1)
      by (simp add: length_len_of del: upt_rec_numeral upt_Suc)
  qed
qed

lemma unmask_bytes:
  assumes "length key = 4"
  shows "map (mask_byte True 0 key (masked_bytes key p)) [0..<length p] = p"
  by (rule nth_equalityI) (simp_all add: mask_byte_def masked_bytes_def xor.assoc)

text \<open>The receiver between frames; only control frames may come inside a fragmented message.\<close>

definition idle :: "eaf_sendspin_ws_rx_t \<Rightarrow> bool" where
  "idle rx \<longleftrightarrow> rx_ok rx \<and> header_used rx = 0 \<and> \<not> fragmenting rx"

definition frame_fits :: "nat \<Rightarrow> u8 \<Rightarrow> u8 list \<Rightarrow> bool" where
  "frame_fits capacity op p \<longleftrightarrow> frame_op op \<and> length p < 2 ^ 64 \<and>
     length p \<le> (if is_control op then 125 else capacity)"

lemma feed_loop_step:
  "feed_step callback rx (b # data) ctx = Inr (rx', data', ctx') \<Longrightarrow>
   feed_loop callback rx (b # data) ctx = feed_loop callback rx' data' ctx'"
  by (subst feed_loop.simps) simp

lemma decode_header:
  fixes p :: "u8 list" and ko :: "u32 option"
  assumes "idle rx" and "frame_op op" and "ko \<noteq> None \<or> p \<noteq> []"
  defines "h \<equiv> (128 OR (op AND 15)) # len_of ko (length p) @ key_of ko"
  shows "feed_loop callback rx (any_frame op p ko) ctx =
    (case payload_step callback (rx\<lparr>header_needed := length h, rx_opcode := op, fin := True, masked := ko \<noteq> None,
        header := blit (header rx) 0 h, header_used := length h\<rparr>) (body_of ko p) ctx of
      Inl r \<Rightarrow> r | Inr (rx, data, ctx) \<Rightarrow> feed_loop callback rx data ctx)"
proof -
  let ?b0 = "128 OR (op AND 15) :: u8" and ?mp = "body_of ko p"
  obtain l ext where lb: "len_of ko (length p) = l # ext"
    using length_len_of [of ko "length p"] by (cases "len_of ko (length p)") (auto split: if_splits)
  have l14: "length (header rx) = 14" and u0: "header_used rx = 0"
    using assms(1) by (simp_all add: idle_def rx_ok_def rx_mem_def)
  have code: "l AND 127 = (if length p \<le> 125 then of_nat (length p) else if length p \<le> 65535 then 126 else 127)"
      "l AND 128 \<noteq> 0 \<longleftrightarrow> ko \<noteq> None" "length ext = (if length p \<le> 125 then 0 else if length p \<le> 65535 then 2 else 8)"
    using len_code [of ko "length p"] length_len_of [of ko "length p"] unfolding lb by (auto split: if_splits)
  have lk: "length (key_of ko) = (if ko \<noteq> None then 4 else 0)" by (auto simp: key_of_def key_bytes_of_def)
  have lh: "length h = 2 + length ext + (if ko \<noteq> None then 4 else 0)" by (simp add: h_def lb lk)
  let ?x1 = "rx\<lparr>header := (header rx)[0 := ?b0], header_used := 1\<rparr>"
  let ?x2 = "rx\<lparr>header := (header rx)[0 := ?b0, 1 := l], header_used := 2, header_needed := length h,
        rx_opcode := op, fin := True, masked := ko \<noteq> None\<rparr>"
  have bytes: "any_frame op p ko = ?b0 # l # (ext @ key_of ko) @ ?mp" by (simp add: any_frame_def lb)
  have s1: "feed_step callback rx (?b0 # rest) ctx = Inr (?x1, rest, ctx)" for rest
    using u0 by (simp add: feed_step_def)
  have needed: "(if l AND 127 = 126 then 4 else if l AND 127 = 127 then 10 else 2) + (if ko \<noteq> None then 4 else 0) = length h"
    unfolding lh code(1) using code(3) small_code [of "length p"] by simp
  have s2: "feed_step callback ?x1 (l # rest) ctx = Inr (?x2, rest, ctx)" for rest
    using l14 needed code(2) frame_op_low(1) [OF assms(2)] high_bit [of "op AND 15"]
    by (auto simp: feed_step_def header_start_def Let_def numeral_2_eq_2)
  have ek: "length (ext @ key_of ko) = length h - 2" by (simp add: lh lk)
  have hb: "blit ((header rx)[0 := ?b0, 1 := l]) 2 (ext @ key_of ko) = blit (header rx) 0 h"
    using updates_blit2 [of "header rx" ?b0 l] l14 blit_0_append [of "header rx" "[?b0, l]" "ext @ key_of ko"]
    by (simp add: h_def lb numeral_2_eq_2)
  have s3: "feed_step callback ?x2 ((ext @ key_of ko) @ ?mp) ctx =
      payload_step callback (rx\<lparr>header_needed := length h, rx_opcode := op, fin := True, masked := ko \<noteq> None,
        header := blit (header rx) 0 h, header_used := length h\<rparr>) ?mp ctx"
  proof (cases "ext @ key_of ko = []")
    case True
    then have h2: "h = [?b0, l]" by (simp add: h_def lb)
    then have "length h = 2" "(header rx)[0 := ?b0, 1 := l] = blit (header rx) 0 h"
      using updates_blit2 [of "header rx" ?b0 l] l14 by simp_all
    then have "?x2 = rx\<lparr>header_needed := length h, rx_opcode := op, fin := True, masked := ko \<noteq> None,
        header := blit (header rx) 0 h, header_used := length h\<rparr>"
      by (intro eaf_sendspin_ws_rx_t.equality) simp_all
    moreover have "feed_step callback ?x2 ?mp ctx = payload_step callback ?x2 ?mp ctx"
      using \<open>length h = 2\<close> by (simp add: feed_step_def)
    ultimately show ?thesis using True by (simp only: append_Nil)
  next
    case False
    then have "2 < length h" using ek by (cases "ext @ key_of ko") auto
    moreover from this have "Suc (Suc (length h - 2)) = length h" by simp
    ultimately show ?thesis using ek hb by (simp add: feed_step_def Let_def)
  qed
  have "(ext @ key_of ko) @ ?mp \<noteq> []" using assms(3) by (auto simp: key_of_def body_of_def key_bytes_of_def split: option.splits)
  then have ne: "feed_loop callback ?x2 ((ext @ key_of ko) @ ?mp) ctx =
      (case feed_step callback ?x2 ((ext @ key_of ko) @ ?mp) ctx of Inl r \<Rightarrow> r
       | Inr (rx, data, ctx) \<Rightarrow> feed_loop callback rx data ctx)"
    by (subst feed_loop.simps) (simp only: if_False)
  show ?thesis unfolding bytes feed_loop_step [OF s1] feed_loop_step [OF s2] ne s3 ..
qed

lemma decode_ready:
  assumes "frame_fits (message_capacity x) op p"
    and x: "header x = (128 OR (op AND 15)) # len_of ko (length p) @ key_of ko @ rest" "masked x \<longleftrightarrow> ko \<noteq> None" "rx_opcode x = op"
      "fin x" "\<not> frame_ready x" "\<not> fragmenting x"
  shows "\<exists>y. ready_frame x = (EAF_OK, y) \<and> left y = length p \<and> fill y = 0 \<and> (masked y \<longleftrightarrow> ko \<noteq> None) \<and>
    rx_mask y = (case ko of None \<Rightarrow> rx_mask x | Some k \<Rightarrow> key_bytes_of k) \<and>
    payload_used y = 0 \<and> rx_opcode y = op \<and> fin y \<and> \<not> fragmenting y \<and> message_capacity y = message_capacity x \<and>
    (\<not> is_control op \<longrightarrow> message_opcode y = op)"
proof -
  have fl: "frame_length (header x) = (of_nat (length p), 1 + length (len_of ko (length p)))"
    unfolding x(1) by (rule frame_length_bytes)
  have key: "take 4 (drop (1 + length (len_of ko (length p))) (header x)) = key_bytes_of k" if "ko = Some k" for k
    by (simp add: x(1) that key_of_def) (simp add: key_bytes_of_def)
  have n: "unat (of_nat (length p) :: u64) = length p" using assms(1) by (simp add: frame_fits_def unat_of_nat)
  let ?x = "x\<lparr>rx_mask := case ko of None \<Rightarrow> rx_mask x | Some k \<Rightarrow> key_bytes_of k\<rparr>"
  let ?go = "\<lambda>z. z\<lparr>payload_length := of_nat (length p), payload_used := 0\<rparr>\<lparr>frame_ready := True\<rparr>"
  have m: "(if masked x then x\<lparr>rx_mask := take 4 (drop (1 + length (len_of ko (length p))) (header x))\<rparr> else x) = ?x"
    using key x(2) by (auto split: option.split)
  have op0: "op \<noteq> 0" using assms(1) frame_op_low(2) by (simp add: frame_fits_def)
  show ?thesis
  proof (cases "is_control op")
    case True
    then have op: "op \<noteq> EAF_SENDPIN_WS_TEXT" "op \<noteq> EAF_SENDPIN_WS_BINARY" by (auto simp: is_control_def)
    have "begin_frame x = begin_check (of_nat (length p)) (?x\<lparr>control_length := 0\<rparr>)"
      unfolding begin_frame_def fl prod.case Let_def m using x(3-) op0 op True by simp
    then have "ready_frame x = (EAF_OK, ?go (?x\<lparr>control_length := 0\<rparr>))"
      using assms(1) True x n by (simp add: ready_frame_def begin_check_def frame_fits_def)
    then show ?thesis using x n True
      by (intro exI [of _ "?go (?x\<lparr>control_length := 0\<rparr>)"]) (simp add: left_def fill_def)
  next
    case False
    then have op: "op = EAF_SENDPIN_WS_TEXT \<or> op = EAF_SENDPIN_WS_BINARY" using assms(1) by (auto simp: frame_fits_def frame_op_def)
    have "begin_frame x = begin_check (of_nat (length p)) (?x\<lparr>message_length := 0, message_opcode := op\<rparr>)"
      unfolding begin_frame_def fl prod.case Let_def m using x(3-) op0 op by simp
    then have "ready_frame x = (EAF_OK, ?go (?x\<lparr>message_length := 0, message_opcode := op\<rparr>))"
      using assms(1) False x n by (simp add: ready_frame_def begin_check_def frame_fits_def)
    then show ?thesis using x n False
      by (intro exI [of _ "?go (?x\<lparr>message_length := 0, message_opcode := op\<rparr>)"]) (simp add: left_def fill_def)
  qed
qed

text \<open>The body, un-masked where it is masked, is the payload, and the callback gets it.\<close>

lemma unmask_body:
  "map (mask_byte (ko \<noteq> None) 0 (case ko of None \<Rightarrow> key | Some k \<Rightarrow> key_bytes_of k) (body_of ko p)) [0..<length p] = p"
proof (cases ko)
  case None
  then show ?thesis by (intro nth_equalityI) (simp_all add: mask_byte_def body_of_def)
next
  case (Some k)
  then show ?thesis using unmask_bytes [of "key_bytes_of k" p] by (simp add: body_of_def key_bytes_of_def)
qed

lemma decode_payload:
  assumes "rx_ok y" and "frame_ready y" and y: "left y = length p" "fill y = 0" "masked y \<longleftrightarrow> ko \<noteq> None"
    "rx_mask y = (case ko of None \<Rightarrow> key | Some k \<Rightarrow> key_bytes_of k)"
    "payload_used y = 0" "rx_opcode y = op" "fin y" "\<not> fragmenting y" "\<not> is_control op \<Longrightarrow> message_opcode y = op"
  shows "\<exists>z. complete_frame (Some f) (take_payload y (length p) (body_of ko p)) ctx =
      (fst (f ctx op p), z, snd (f ctx op p)) \<and>
      (fst (f ctx op p) = EAF_OK \<longrightarrow> header_used z = 0 \<and> \<not> fragmenting z \<and> message_capacity z = message_capacity y)"
proof -
  let ?mp = "body_of ko p" and ?z = "take_payload y (length p) (body_of ko p)"
  have mem: "length p \<le> room y" "rx_mem y" "length (rx_mask y) = 4" using assms(1,2) y(1,2) by (simp_all add: rx_ok_def rx_mem_def)
  have copy: "copy_payload (masked y) 0 (rx_mask y) (length p) ?mp 0 tgt = blit tgt 0 p" if "length p \<le> length tgt" for tgt
    using copy_payload_blit [of 0 "length p" tgt ?mp "rx_mask y" "masked y" 0] that mem(3) unmask_body [of ko key p]
    unfolding y(3,4) by simp
  show ?thesis
  proof (cases "is_control op")
    case True
    then have "control ?z = blit (control y) 0 p" "control_length ?z = length p"
      using mem y(1,2,5-) copy [of "control y"] by (simp_all add: take_payload_def rx_mem_def room_def fill_def)
    then have "take (control_length ?z) (control ?z) = p" by (simp add: blit_def)
    then show ?thesis using True y
      by (cases "f ctx op p") (auto simp: complete_frame_def frame_reset_def take_payload_def Let_def)
  next
    case False
    then have "message ?z = map_option (\<lambda>m. blit m 0 p) (message y)" "message_length ?z = length p"
      using mem y(1,2,5-) copy [of "message_bytes y"]
      by (auto simp: take_payload_def rx_mem_def room_def fill_def message_bytes_def split: option.splits intro!: map_option_cong)
    moreover have "message y = None \<longrightarrow> p = []" using mem False y by (auto simp: rx_mem_def room_def message_bytes_def)
    ultimately have "take (message_length ?z) (case message ?z of None \<Rightarrow> [] | Some b \<Rightarrow> b) = p"
      by (auto simp: blit_def split: option.splits)
    moreover have "message_opcode ?z = op" using y False by (simp add: take_payload_def Let_def)
    ultimately show ?thesis using False y
      by (cases "f ctx op p") (auto simp: complete_frame_def frame_reset_def take_payload_def Let_def)
  qed
qed

text \<open>
  A frame, masked or not, is delivered when its last byte arrives; an unmasked one needs a payload
  (an empty one waits for the next byte).
\<close>

lemma decode_any_frame:
  assumes "idle rx" and "frame_fits (message_capacity rx) op p" and "ko \<noteq> None \<or> p \<noteq> []"
  shows "\<exists>rx'. feed_loop (Some f) rx (any_frame op p ko) ctx = (fst (f ctx op p), rx', snd (f ctx op p)) \<and>
    (fst (f ctx op p) = EAF_OK \<longrightarrow> idle rx' \<and> message_capacity rx' = message_capacity rx)"
proof -
  let ?h = "(128 OR (op AND 15)) # len_of ko (length p) @ key_of ko"
  define x where "x = rx\<lparr>header_needed := length ?h, rx_opcode := op, fin := True, masked := ko \<noteq> None,
      header := blit (header rx) 0 ?h, header_used := length ?h\<rparr>"
  have op: "frame_op op" using assms(2) by (simp add: frame_fits_def)
  have rx: "length (header rx) = 14" "header_used rx = 0" "\<not> frame_ready rx" "\<not> fragmenting rx" "rx_ok rx"
    using assms(1) by (auto simp: idle_def rx_ok_def rx_mem_def)
  have lh: "2 \<le> length ?h" "length ?h \<le> 14" by (simp_all add: length_len_of key_of_def key_bytes_of_def split: option.split)
  have okx: "rx_ok x" using rx lh by (simp add: x_def rx_ok_def rx_mem_def message_bytes_def length_blit)
  have fits: "frame_fits (message_capacity x) op p" using assms(2) by (simp add: x_def)
  have head: "header x = (128 OR (op AND 15)) # len_of ko (length p) @ key_of ko @ drop (length ?h) (header rx)"
    by (simp add: x_def blit_def)
  obtain y where y: "ready_frame x = (EAF_OK, y)" "left y = length p" "fill y = 0" "masked y \<longleftrightarrow> ko \<noteq> None"
      "rx_mask y = (case ko of None \<Rightarrow> rx_mask x | Some k \<Rightarrow> key_bytes_of k)"
      "payload_used y = 0" "rx_opcode y = op" "fin y" "\<not> fragmenting y" "message_capacity y = message_capacity rx"
      "\<not> is_control op \<Longrightarrow> message_opcode y = op"
    using decode_ready [OF fits head] rx by (auto simp: x_def)
  have hx: "2 \<le> header_used x" "header_used x = header_needed x" using lh by (simp_all add: x_def)
  have oky: "rx_ok y" "frame_ready y" using ready_frame_ok [OF okx hx y(1)] by auto
  obtain z where z: "complete_frame (Some f) (take_payload y (length p) (body_of ko p)) ctx =
      (fst (f ctx op p), z, snd (f ctx op p))"
      "fst (f ctx op p) = EAF_OK \<Longrightarrow> header_used z = 0 \<and> \<not> fragmenting z \<and> message_capacity z = message_capacity y"
    using decode_payload [OF oky y(2-9), of f ctx] y(11) by blast
  have "feed_loop (Some f) rx (any_frame op p ko) ctx = (fst (f ctx op p), z, snd (f ctx op p))"
    unfolding decode_header [OF assms(1) op assms(3)] x_def [symmetric] payload_step_eq [OF okx hx] y(1)
    using y(2) z(1) by (simp add: feed_loop.simps [of _ z])
  moreover from this have "rx_ok z" using feed_loop_ok [OF rx(5), of "Some f" "any_frame op p ko" ctx] by simp
  ultimately show ?thesis using z(2) y(10) by (auto simp: idle_def)
qed

lemma decode_frame:
  assumes "idle rx" and "frame_fits (message_capacity rx) op p"
  shows "\<exists>rx'. feed_loop (Some f) rx (frame_bytes_of op p k) ctx = (fst (f ctx op p), rx', snd (f ctx op p)) \<and>
    (fst (f ctx op p) = EAF_OK \<longrightarrow> idle rx' \<and> message_capacity rx' = message_capacity rx)"
  using decode_any_frame [OF assms, of "Some k" f ctx] by (simp add: any_frame_Some)

section \<open>Streams of messages\<close>

text \<open>The reads of a connection: each chunk is fed in turn, the first error ends it.\<close>

fun feed_chunks ::
  "'c eaf_sendspin_ws_message_fn \<Rightarrow> eaf_sendspin_ws_rx_t \<Rightarrow> u8 list list \<Rightarrow> 'c \<Rightarrow> eaf_result_t \<times> eaf_sendspin_ws_rx_t \<times> 'c" where
  "feed_chunks f rx [] ctx = (EAF_OK, rx, ctx)"
| "feed_chunks f rx (c # cs) ctx =
     (case eaf_sendspin_ws_rx_feed (Some f) rx (Some c) (length c) ctx of (rc, rx', ctx') \<Rightarrow>
        if rc \<noteq> EAF_OK then (rc, rx', ctx') else feed_chunks f rx' cs ctx')"

lemma rx_feed_loop:
  assumes "rx_ok rx"
  shows "eaf_sendspin_ws_rx_feed callback rx (Some data) (length data) ctx = feed_loop callback rx data ctx"
  using assms by (auto simp: eaf_sendspin_ws_rx_feed_def rx_ok_def rx_mem_def message_bytes_def)

lemma feed_chunks_loop:
  assumes "rx_ok rx"
  shows "feed_chunks f rx cs ctx = feed_loop (Some f) rx (concat cs) ctx"
  using assms
proof (induction cs arbitrary: rx ctx)
  case Nil
  then show ?case by (simp add: feed_loop.simps)
next
  case (Cons c cs)
  obtain rc rx' ctx' where r: "feed_loop (Some f) rx c ctx = (rc, rx', ctx')" by (metis prod_cases3)
  have "rx_ok rx'" using feed_loop_ok [OF Cons.prems, of "Some f" c ctx] r by simp
  then show ?case using Cons.IH [of rx' ctx'] feed_loop_append [OF Cons.prems, of "Some f" c "concat cs" ctx] r
    by (simp add: rx_feed_loop [OF Cons.prems])
qed

definition encoded :: "u8 \<times> u8 list \<times> u32 \<Rightarrow> u8 list" where
  "encoded m = (case m of (op, p, k) \<Rightarrow>
     case eaf_sendspin_ws_encode (replicate (length p + 14) 0) (length p + 14) op (Some p) (length p) k of
       (rc, n, dst) \<Rightarrow> take n dst)"

lemma encoded_eq: "encoded (op, p, k) = frame_bytes_of op p k"
proof -
  obtain dst' where "eaf_sendspin_ws_encode (replicate (length p + 14) 0) (length p + 14) op (Some p) (length p) k =
      (EAF_OK, length (frame_bytes_of op p k), dst')" "dst' = blit (replicate (length p + 14) 0) 0 (frame_bytes_of op p k)"
    using encode_frame [of op p k "length p + 14" "replicate (length p + 14) 0"] by (auto simp: length_frame_bytes)
  then show ?thesis by (simp add: encoded_def blit_def)
qed

definition collect :: "(u8 \<times> u8 list) list eaf_sendspin_ws_message_fn" where
  "collect log op p = (EAF_OK, log @ [(op, p)])"

lemma decode_stream:
  assumes "idle rx" and "list_all (\<lambda>(op, p, k). frame_fits (message_capacity rx) op p) ms"
  shows "\<exists>rx'. feed_loop (Some collect) rx (concat (map encoded ms)) log =
    (EAF_OK, rx', log @ map (\<lambda>(op, p, k). (op, p)) ms) \<and> idle rx'"
  using assms
proof (induction ms arbitrary: rx log)
  case Nil
  then show ?case by (simp add: feed_loop.simps)
next
  case (Cons m ms)
  obtain op p k where m: "m = (op, p, k)" by (cases m)
  have fits: "frame_fits (message_capacity rx) op p" using Cons.prems(2) m by simp
  obtain rx' where r: "feed_loop (Some collect) rx (frame_bytes_of op p k) log = (EAF_OK, rx', log @ [(op, p)])"
      "idle rx'" "message_capacity rx' = message_capacity rx"
    using decode_frame [OF Cons.prems(1) fits, of collect k log] by (auto simp: collect_def)
  have "list_all (\<lambda>(op, p, k). frame_fits (message_capacity rx') op p) ms"
    using Cons.prems(2) r(3) by simp
  from Cons.IH [OF r(2) this, of "log @ [(op, p)]"] show ?case
    using r(1) feed_loop_append [of rx "Some collect" "frame_bytes_of op p k" "concat (map encoded ms)" log] Cons.prems(1) m
    by (auto simp: encoded_eq idle_def)
qed

section \<open>Properties\<close>

text \<open>
  C5: a sequence of messages written by the encoder and fed to a fresh receiver, in reads
  cut anywhere, is delivered to the callback complete, unmasked and in order, and
  the receiver is left between frames, ready for the next one.
\<close>

theorem ws_stream_delivery:
  assumes "list_all (\<lambda>(op, p, k). frame_fits (length buf) op p) ms"
    and "concat chunks = concat (map encoded ms)"
  shows "\<exists>rx'. feed_chunks collect (eaf_sendspin_ws_rx_init (Some buf) (length buf)) chunks [] =
    (EAF_OK, rx', map (\<lambda>(op, p, k). (op, p)) ms) \<and> rx_ok rx' \<and> header_used rx' = 0 \<and> \<not> fragmenting rx'"
proof -
  let ?rx = "eaf_sendspin_ws_rx_init (Some buf) (length buf)"
  have ok: "rx_ok ?rx" by (rule rx_init_ok) simp
  then have "idle ?rx" by (simp add: idle_def eaf_sendspin_ws_rx_init_def)
  moreover have "list_all (\<lambda>(op, p, k). frame_fits (message_capacity ?rx) op p) ms"
    using assms(1) by (simp add: eaf_sendspin_ws_rx_init_def)
  ultimately show ?thesis using decode_stream [of ?rx ms "[]"] unfolding feed_chunks_loop [OF ok] assms(2)
    by (auto simp: idle_def)
qed

theorem ws_stream_delivery_witness:
  "\<exists>rx'. feed_chunks collect (eaf_sendspin_ws_rx_init (Some [0, 0, 0]) 3)
      (map (\<lambda>b. [b]) (concat (map encoded [(1, [72, 105], 0x01020304), (9, [], 5), (2, [7, 8, 9], 6)]))) [] =
    (EAF_OK, rx', [(1, [72, 105]), (9, []), (2, [7, 8, 9])])"
proof -
  let ?ms = "[(1, [72, 105], 0x01020304), (9, [], 5), (2, [7, 8, 9], 6)] :: (u8 \<times> u8 list \<times> u32) list"
  let ?cs = "map (\<lambda>b. [b]) (concat (map encoded ?ms))"
  have c: "concat (map (\<lambda>b. [b]) xs) = xs" for xs :: "u8 list" by (induction xs) simp_all
  have "list_all (\<lambda>(op, p, k). frame_fits (length [0 :: u8, 0, 0]) op p) ?ms"
    by (simp add: frame_fits_def frame_op_def is_control_def)
  from ws_stream_delivery [OF this c] obtain rx' where
    "feed_chunks collect (eaf_sendspin_ws_rx_init (Some [0, 0, 0]) (length [0 :: u8, 0, 0])) ?cs [] = (EAF_OK, rx', map (\<lambda>(op, p, k). (op, p)) ?ms)"
    by blast
  moreover have "map (\<lambda>(op, p, k). (op, p)) ?ms = [(1, [72, 105]), (9, []), (2, [7, 8, 9])]" "length [0 :: u8, 0, 0] = 3" by simp_all
  ultimately show ?thesis by metis
qed

text \<open>
  C24: the receiver does not depend on how the stream is cut: feeding two reads one after
  the other gives the same result, state and callbacks as feeding their concatenation,
  for every input, malformed ones included, and the receiver's buffers stay within bounds.
\<close>

theorem ws_chunking:
  assumes "rx_ok rx"
  shows "eaf_sendspin_ws_rx_feed callback rx (Some (a @ b)) (length (a @ b)) ctx =
      (case eaf_sendspin_ws_rx_feed callback rx (Some a) (length a) ctx of (rc, rx', ctx') \<Rightarrow>
         if rc \<noteq> EAF_OK then (rc, rx', ctx') else eaf_sendspin_ws_rx_feed callback rx' (Some b) (length b) ctx') \<and>
    rx_ok (fst (snd (eaf_sendspin_ws_rx_feed callback rx (Some (a @ b)) (length (a @ b)) ctx)))"
proof -
  obtain rc rx' ctx' where r: "feed_loop callback rx a ctx = (rc, rx', ctx')" by (metis prod_cases3)
  have "rx_ok rx'" using feed_loop_ok [OF assms, of callback a ctx] r by simp
  then show ?thesis using feed_loop_append [OF assms, of callback a b ctx] feed_loop_ok [OF assms, of callback "a @ b" ctx] r
    by (simp add: rx_feed_loop assms del: length_append)
qed

theorem ws_chunking_witness:
  "eaf_sendspin_ws_rx_feed (Some collect) (eaf_sendspin_ws_rx_init (Some [0]) 1) (Some ([129] @ [1, 65])) (length ([129, 1, 65] :: u8 list)) [] =
    (case eaf_sendspin_ws_rx_feed (Some collect) (eaf_sendspin_ws_rx_init (Some [0]) 1) (Some [129]) (length [129 :: u8]) [] of (rc, rx', ctx') \<Rightarrow>
       if rc \<noteq> EAF_OK then (rc, rx', ctx') else eaf_sendspin_ws_rx_feed (Some collect) rx' (Some [1, 65]) (length [1, 65 :: u8]) ctx')"
  using ws_chunking [OF rx_init_ok [of "Some [0]" 1], of "Some collect" "[129]" "[1, 65]" "[]"] by simp

text \<open>
  C38: an unmasked frame with an empty payload is not dispatched when it ends the input: its two
  bytes are consumed and the callback is not called; it is called only when a later byte arrives. An
  empty text message or a ping without payload that a server sends thus stays in the receiver
  until the server sends something else.
\<close>

theorem ws_empty_frame_stalls:
  assumes "idle rx"
  shows "\<exists>rx'. eaf_sendspin_ws_rx_feed (Some f) rx (Some [b0, 0]) 2 ctx = (EAF_OK, rx', ctx) \<and>
      header_used rx' = header_needed rx' \<and> \<not> frame_ready rx'"
proof -
  have ok: "rx_ok rx" and u: "header_used rx = 0" "length (header rx) = 14" "\<not> frame_ready rx"
    using assms by (auto simp: idle_def rx_ok_def rx_mem_def)
  have "feed_loop (Some f) rx [b0, 0] ctx =
      (EAF_OK, header_start (rx\<lparr>header := (header rx)[0 := b0, 1 := 0], header_used := 2\<rparr>), ctx)"
    using u by (simp add: feed_loop.simps feed_step_def numeral_2_eq_2)
  moreover have two: "length [b0, 0] = 2" by simp
  ultimately have "eaf_sendspin_ws_rx_feed (Some f) rx (Some [b0, 0]) 2 ctx =
      (EAF_OK, header_start (rx\<lparr>header := (header rx)[0 := b0, 1 := 0], header_used := 2\<rparr>), ctx)"
    using rx_feed_loop [OF ok, of "Some f" "[b0, 0]" ctx] unfolding two by simp
  then show ?thesis using u by (simp add: header_start_def Let_def)
qed

theorem ws_empty_frame_stalls_witness:
  "(\<exists>rx'. eaf_sendspin_ws_rx_feed (Some collect) (eaf_sendspin_ws_rx_init (Some [0]) 1) (Some [0x89, 0]) 2 [] = (EAF_OK, rx', [])) \<and>
   snd (snd (eaf_sendspin_ws_rx_feed (Some collect) (eaf_sendspin_ws_rx_init (Some [0]) 1) (Some [0x89, 0, 0x89]) 3 [])) = [(9, [])]"
proof -
  have "idle (eaf_sendspin_ws_rx_init (Some [0]) 1)"
    using rx_init_ok [of "Some [0]" 1] by (simp add: idle_def eaf_sendspin_ws_rx_init_def)
  moreover have "snd (snd (eaf_sendspin_ws_rx_feed (Some collect) (eaf_sendspin_ws_rx_init (Some [0]) 1) (Some [0x89, 0, 0x89]) 3 [])) = [(9, [])]"
    by code_simp
  ultimately show ?thesis
    using ws_empty_frame_stalls [of "eaf_sendspin_ws_rx_init (Some [0]) 1" collect "0x89" "[]"] by blast
qed

end
