(* ===== verification/Net.thy ===== *)
theory Net
  imports EAF_Types
begin

text \<open>
  \<open>include/eaf/eaf_net.h\<close> and \<open>hal/net/tcp_impl.h\<close>: the non-blocking TCP interface the network
  clients use and its implementation on the socket calls of the operating system. The
  system calls are a parameter; the implementation turns what POSIX promises of them
  into the contract the clients rely on. The theory also holds the combinator for
  \<open>if (rc) return rc;\<close> that the client theories share.
\<close>

section \<open>The interface\<close>

record eaf_tcp_t =
  tcp_fd :: int
  tcp_open :: bool

text \<open>
  The functions of \<open>eaf_net.h\<close>, and the clock of \<open>eaf_hal.h\<close>, on a state \<open>'w\<close> of the world
  outside the client. Received bytes are the result of \<open>net_recv\<close>.
\<close>

record 'w hal_net =
  net_connect :: "eaf_tcp_t \<Rightarrow> u32 \<Rightarrow> u16 \<Rightarrow> u32 \<Rightarrow> 'w \<Rightarrow> eaf_result_t \<times> eaf_tcp_t \<times> 'w"
  net_send :: "eaf_tcp_t \<Rightarrow> u8 list \<Rightarrow> 'w \<Rightarrow> eaf_result_t \<times> nat \<times> 'w"
  net_recv :: "eaf_tcp_t \<Rightarrow> nat \<Rightarrow> 'w \<Rightarrow> eaf_result_t \<times> u8 list \<times> 'w"
  net_close :: "eaf_tcp_t \<Rightarrow> 'w \<Rightarrow> eaf_tcp_t \<times> 'w"
  net_time_us :: "'w \<Rightarrow> u64 \<times> 'w"

text \<open>What a client may rely on.\<close>

definition net_ok :: "'w hal_net \<Rightarrow> bool" where
  "net_ok hal \<longleftrightarrow>
     (\<forall>tcp ip port ms w rc tcp' w'. net_connect hal tcp ip port ms w = (rc, tcp', w') \<longrightarrow>
        (if rc = EAF_OK then tcp_open tcp' else tcp' = tcp)) \<and>
     (\<forall>tcp data w rc n w'. net_send hal tcp data w = (rc, n, w') \<longrightarrow> n \<le> length data) \<and>
     (\<forall>tcp cap w rc bytes w'. net_recv hal tcp cap w = (rc, bytes, w') \<longrightarrow>
        length bytes \<le> cap \<and> (rc = EAF_OK \<longrightarrow> bytes \<noteq> [])) \<and>
     (\<forall>tcp w. \<not> tcp_open (fst (net_close hal tcp w)))"

section \<open>Sockets\<close>

datatype errno_t = EAGAIN | EWOULDBLOCK | EINTR | EINPROGRESS | EOTHER

text \<open>
  The system calls \<open>tcp_impl.h\<close> is compiled with. A call returns its C result, the
  \<open>errno\<close> it leaves, and the new state; \<open>recv\<close> also the bytes it stored.
\<close>

record 'w os_sockets =
  sys_socket :: "'w \<Rightarrow> int \<times> 'w"
  sys_getfl :: "int \<Rightarrow> 'w \<Rightarrow> int \<times> 'w"
  sys_set_nonblock :: "int \<Rightarrow> int \<Rightarrow> 'w \<Rightarrow> int \<times> 'w"
  sys_connect :: "int \<Rightarrow> u32 \<Rightarrow> u16 \<Rightarrow> 'w \<Rightarrow> int \<times> errno_t \<times> 'w"
  sys_poll :: "int \<Rightarrow> int \<Rightarrow> 'w \<Rightarrow> int \<times> 'w"
  sys_so_error :: "int \<Rightarrow> 'w \<Rightarrow> int \<times> int \<times> 'w"
  sys_send :: "int \<Rightarrow> u8 list \<Rightarrow> 'w \<Rightarrow> int \<times> errno_t \<times> 'w"
  sys_recv :: "int \<Rightarrow> nat \<Rightarrow> 'w \<Rightarrow> int \<times> u8 list \<times> errno_t \<times> 'w"
  sys_close :: "int \<Rightarrow> 'w \<Rightarrow> 'w"
  sys_time_us :: "'w \<Rightarrow> u64 \<times> 'w"

definition hal_tcp_connect ::
  "'w os_sockets \<Rightarrow> eaf_tcp_t \<Rightarrow> u32 \<Rightarrow> u16 \<Rightarrow> u32 \<Rightarrow> 'w \<Rightarrow> eaf_result_t \<times> eaf_tcp_t \<times> 'w" where
  "hal_tcp_connect os tcp ipv4 port timeout_ms w =
     (if tcp_open tcp \<or> port = 0 \<or> unat timeout_ms > 2147483647 then (EAF_INVALID, tcp, w)
      else let (fd, w) = sys_socket os w
      in if fd < 0 then (EAF_IO, tcp, w)
      else let (flags, w) = sys_getfl os fd w
      in if flags < 0 then (EAF_IO, tcp, sys_close os fd w)
      else let (r, w) = sys_set_nonblock os fd flags w
      in if r < 0 then (EAF_IO, tcp, sys_close os fd w)
      else let (rc, errno, w) = sys_connect os fd ipv4 port w
      in if rc \<noteq> 0 \<and> errno \<noteq> EINPROGRESS then (EAF_IO, tcp, sys_close os fd w)
      else if rc = 0 then (EAF_OK, \<lparr>tcp_fd = fd, tcp_open = True\<rparr>, w)
      else let (rc, w) = sys_poll os fd (i32 (uint timeout_ms)) w
      in if rc \<le> 0 then (EAF_IO, tcp, sys_close os fd w)
      else let (r, error, w) = sys_so_error os fd w
      in if r \<noteq> 0 \<or> error \<noteq> 0 then (EAF_IO, tcp, sys_close os fd w)
      else (EAF_OK, \<lparr>tcp_fd = fd, tcp_open = True\<rparr>, w))"

definition would_block :: "errno_t \<Rightarrow> bool" where
  "would_block e \<longleftrightarrow> e = EAGAIN \<or> e = EWOULDBLOCK \<or> e = EINTR"

definition hal_tcp_send :: "'w os_sockets \<Rightarrow> eaf_tcp_t \<Rightarrow> u8 list \<Rightarrow> 'w \<Rightarrow> eaf_result_t \<times> nat \<times> 'w" where
  "hal_tcp_send os tcp data w =
     (if \<not> tcp_open tcp then (EAF_INVALID, 0, w)
      else let (n, errno, w) = sys_send os (tcp_fd tcp) data w
      in if n < 0 then (if would_block errno then EAF_AGAIN else EAF_IO, 0, w)
      else if n = 0 \<and> data \<noteq> [] then (EAF_IO, 0, w)
      else (EAF_OK, nat n, w))"

definition hal_tcp_recv :: "'w os_sockets \<Rightarrow> eaf_tcp_t \<Rightarrow> nat \<Rightarrow> 'w \<Rightarrow> eaf_result_t \<times> u8 list \<times> 'w" where
  "hal_tcp_recv os tcp capacity w =
     (if \<not> tcp_open tcp \<or> capacity = 0 then (EAF_INVALID, [], w)
      else let (n, bytes, errno, w) = sys_recv os (tcp_fd tcp) capacity w
      in if n < 0 then (if would_block errno then EAF_AGAIN else EAF_IO, [], w)
      else if n = 0 then (EAF_EOF, [], w)
      else (EAF_OK, take (nat n) bytes, w))"

definition hal_tcp_close :: "'w os_sockets \<Rightarrow> eaf_tcp_t \<Rightarrow> 'w \<Rightarrow> eaf_tcp_t \<times> 'w" where
  "hal_tcp_close os tcp w =
     (if tcp_open tcp then (tcp\<lparr>tcp_open := False\<rparr>, sys_close os (tcp_fd tcp) w) else (tcp, w))"

definition tcp_hal :: "'w os_sockets \<Rightarrow> 'w hal_net" where
  "tcp_hal os = \<lparr>net_connect = hal_tcp_connect os, net_send = hal_tcp_send os, net_recv = hal_tcp_recv os,
     net_close = hal_tcp_close os, net_time_us = sys_time_us os\<rparr>"

text \<open>
  POSIX: \<open>send\<close> and \<open>recv\<close> transfer at most the bytes asked for, and \<open>recv\<close> stores as many as it returns.
\<close>

definition posix_ok :: "'w os_sockets \<Rightarrow> bool" where
  "posix_ok os \<longleftrightarrow>
     (\<forall>fd data w n e w'. sys_send os fd data w = (n, e, w') \<longrightarrow> n \<le> int (length data)) \<and>
     (\<forall>fd cap w n bytes e w'. sys_recv os fd cap w = (n, bytes, e, w') \<longrightarrow> n \<le> int cap \<and> nat n = length bytes)"

lemma tcp_hal_ok:
  assumes "posix_ok os"
  shows "net_ok (tcp_hal os)"
proof -
  have c: "if rc = EAF_OK then tcp_open tcp' else tcp' = tcp"
    if "hal_tcp_connect os tcp ip port ms w = (rc, tcp', w')" for tcp ip port ms w rc tcp' w'
    using that by (auto simp: hal_tcp_connect_def Let_def split: if_splits prod.splits)
  have s: "n \<le> length data" if "hal_tcp_send os tcp data w = (rc, n, w')" for tcp data w rc n w'
  proof -
    obtain m e w1 where m: "sys_send os (tcp_fd tcp) data w = (m, e, w1)" by (metis prod_cases3)
    then have "m \<le> int (length data)" using assms unfolding posix_ok_def by blast
    then show ?thesis using that m by (auto simp: hal_tcp_send_def split: if_splits)
  qed
  have r: "length bytes \<le> cap \<and> (rc = EAF_OK \<longrightarrow> bytes \<noteq> [])"
    if "hal_tcp_recv os tcp cap w = (rc, bytes, w')" for tcp cap w rc bytes w'
  proof -
    obtain m b e w1 where m: "sys_recv os (tcp_fd tcp) cap w = (m, b, e, w1)" by (metis prod_cases4)
    then have "m \<le> int cap" "nat m = length b" using assms unfolding posix_ok_def by blast+
    then show ?thesis using that m by (auto simp: hal_tcp_recv_def split: if_splits)
  qed
  have k: "\<not> tcp_open (fst (hal_tcp_close os tcp w))" for tcp w by (simp add: hal_tcp_close_def)
  show ?thesis unfolding net_ok_def tcp_hal_def using c s r k by auto
qed

lemma net_connect_ok:
  "net_ok hal \<Longrightarrow> net_connect hal tcp ip port ms w = (rc, tcp', w') \<Longrightarrow> if rc = EAF_OK then tcp_open tcp' else tcp' = tcp"
  unfolding net_ok_def by metis

lemma net_send_ok: "net_ok hal \<Longrightarrow> net_send hal tcp data w = (rc, n, w') \<Longrightarrow> n \<le> length data"
  unfolding net_ok_def by blast

lemma net_recv_ok:
  "net_ok hal \<Longrightarrow> net_recv hal tcp cap w = (rc, bytes, w') \<Longrightarrow> length bytes \<le> cap \<and> (rc = EAF_OK \<longrightarrow> bytes \<noteq> [])"
  unfolding net_ok_def by blast

lemma net_close_ok: "net_ok hal \<Longrightarrow> \<not> tcp_open (fst (net_close hal tcp w))"
  unfolding net_ok_def by blast

section \<open>Returning errors\<close>

text \<open>\<open>rc = f(...); if (rc) return rc; ...\<close> on the state of a client.\<close>

definition and_then :: "eaf_result_t \<times> 's \<Rightarrow> ('s \<Rightarrow> eaf_result_t \<times> 's) \<Rightarrow> eaf_result_t \<times> 's" where
  "and_then r f = (if fst r \<noteq> EAF_OK then r else f (snd r))"

lemma and_then_simps [simp]:
  "and_then (EAF_OK, s) f = f s" "rc \<noteq> EAF_OK \<Longrightarrow> and_then (rc, s) f = (rc, s)"
  by (simp_all add: and_then_def)

lemma and_then_keeps:
  assumes "P (snd r)" and "\<And>s. P s \<Longrightarrow> P (snd (f s))"
  shows "P (snd (and_then r f))"
  using assms by (simp add: and_then_def)

end
