(* ===== verification/LMS_Protocol.thy ===== *)
theory LMS_Protocol
  imports EAF_Bytes EAF_Types Chunked
begin

text \<open>
  \<open>apps/lms/lms_protocol.c\<close>: the wire format of the Logitech Media Server control
  connection. Incoming packets carry a 16-bit length; the parser reassembles them from TCP
  fragments in a buffer of 2048 bytes. The theory shows that every sequence of well-formed
  packets reaches the callback in order however the stream is cut, that a bad length stops
  the parser for good, and what bytes the \<open>HELO\<close> message has.
\<close>

section \<open>Packet parser\<close>

abbreviation (input) EAF_LMS_MAX_PACKET :: nat where "EAF_LMS_MAX_PACKET \<equiv> 2048"

type_synonym 'c eaf_lms_packet_fn = "'c \<Rightarrow> u8 list \<Rightarrow> eaf_result_t \<times> 'c"

text \<open>The parser's callback and its context are arguments of the operations.\<close>

record eaf_lms_parser_t =
  lms_packet :: "u8 list"
  lms_prefix :: "u8 list"
  prefix_used :: nat
  pk_used :: nat
  pk_expected :: nat
  pk_failed :: bool

definition eaf_lms_parser_init :: eaf_lms_parser_t where
  "eaf_lms_parser_init =
     \<lparr>lms_packet = replicate EAF_LMS_MAX_PACKET 0, lms_prefix = [0, 0], prefix_used = 0, pk_used = 0, pk_expected = 0,
      pk_failed = False\<rparr>"

text \<open>
  The body of the loop once the two prefix bytes are there. \<open>expected - used\<close> is a
  \<open>size_t\<close>; if it wrapped, it would exceed every length.
\<close>

definition packet_step ::
  "'c eaf_lms_packet_fn \<Rightarrow> eaf_lms_parser_t \<Rightarrow> u8 list \<Rightarrow> 'c \<Rightarrow>
   (eaf_result_t \<times> eaf_lms_parser_t \<times> 'c) + ((eaf_lms_parser_t \<times> 'c) \<times> u8 list)" where
  "packet_step on_packet p data ctx =
     (let n = (if pk_expected p < pk_used p \<or> pk_expected p - pk_used p > length data then length data
               else pk_expected p - pk_used p);
          p = p\<lparr>lms_packet := blit (lms_packet p) (pk_used p) (take n data), pk_used := pk_used p + n\<rparr>;
          data = drop n data
      in if pk_used p = pk_expected p
         then let (rc, ctx) = on_packet ctx (take (pk_expected p) (lms_packet p));
                  p = p\<lparr>prefix_used := 0, pk_used := 0, pk_expected := 0\<rparr>
              in if rc \<noteq> EAF_OK then Inl (rc, p\<lparr>pk_failed := True\<rparr>, ctx) else Inr ((p, ctx), data)
         else Inr ((p, ctx), data))"

definition lms_step ::
  "'c eaf_lms_packet_fn \<Rightarrow> eaf_lms_parser_t \<times> 'c \<Rightarrow> u8 list \<Rightarrow>
   (eaf_result_t \<times> eaf_lms_parser_t \<times> 'c) + ((eaf_lms_parser_t \<times> 'c) \<times> u8 list)" where
  "lms_step on_packet s data =
     (case s of (p, ctx) \<Rightarrow>
      if prefix_used p < 2
      then let p = p\<lparr>lms_prefix := (lms_prefix p)[prefix_used p := hd data], prefix_used := prefix_used p + 1\<rparr>
           in if prefix_used p < 2 then Inr ((p, ctx), tl data)
              else let p = p\<lparr>pk_expected := unat (lms_prefix p ! 0) * 256 + unat (lms_prefix p ! 1)\<rparr>
                   in if pk_expected p < 4 \<or> pk_expected p > length (lms_packet p)
                      then Inl (EAF_INVALID, p\<lparr>pk_failed := True\<rparr>, ctx)
                      else packet_step on_packet p (tl data) ctx
      else packet_step on_packet p data ctx)"

lemma packet_step_rank:
  assumes "packet_step on_packet p data ctx = Inr ((p', ctx'), data')"
  shows "length data' < length data \<or> length data' = length data \<and> (data \<noteq> [] \<longrightarrow> prefix_used p' = 0)"
  using assms by (auto simp: packet_step_def Let_def split: if_splits prod.splits)

lemma lms_step_rank:
  assumes "data \<noteq> []" and "lms_step on_packet s data = Inr (s', data')"
  shows "length data' < length data \<or> length data' = length data \<and> prefix_used (fst s') < prefix_used (fst s)"
proof -
  obtain p ctx p' ctx' where s: "s = (p, ctx)" "s' = (p', ctx')" by (cases s, cases s')
  have l: "length (tl data) < length data" using assms(1) by simp
  show ?thesis
  proof (cases "prefix_used p < 2")
    case True
    then show ?thesis using assms l s packet_step_rank
      by (fastforce simp: lms_step_def Let_def split: if_splits)
  next
    case False
    then show ?thesis using assms s packet_step_rank [of on_packet p data ctx p' ctx' data']
      by (auto simp: lms_step_def)
  qed
qed

function lms_loop :: "'c eaf_lms_packet_fn \<Rightarrow> eaf_lms_parser_t \<times> 'c \<Rightarrow> u8 list \<Rightarrow> eaf_result_t \<times> eaf_lms_parser_t \<times> 'c" where
  "lms_loop on_packet s data =
     (if data = [] then (EAF_OK, s)
      else case lms_step on_packet s data of Inl r \<Rightarrow> r | Inr (s, data) \<Rightarrow> lms_loop on_packet s data)"
  by pat_completeness auto
termination
proof (relation "inv_image (less_than <*lex*> less_than) (\<lambda>(on_packet, s, data). (length data, prefix_used (fst s)))", goal_cases)
  case (2 on_packet s data r s' data')
  then show ?case using lms_step_rank [of data on_packet s s' data'] by auto
qed (simp add: wf_inv_image wf_lex_prod)

declare lms_loop.simps [simp del]

definition eaf_lms_feed ::
  "'c eaf_lms_packet_fn option \<Rightarrow> eaf_lms_parser_t \<Rightarrow> u8 list option \<Rightarrow> nat \<Rightarrow> 'c \<Rightarrow>
   eaf_result_t \<times> eaf_lms_parser_t \<times> 'c" where
  "eaf_lms_feed on_packet p bytes len ctx =
     (case on_packet of None \<Rightarrow> (EAF_INVALID, p, ctx)
      | Some f \<Rightarrow>
        if bytes = None \<and> len \<noteq> 0 then (EAF_INVALID, p, ctx)
        else if pk_failed p then (EAF_STATE, p, ctx)
        else lms_loop f (p, ctx) (take len (case bytes of None \<Rightarrow> [] | Some b \<Rightarrow> b)))"

section \<open>Stream commands and HELO\<close>

record eaf_lms_stream_t =
  command_code :: u8
  autostart :: u8
  codec_code :: u8
  sample_size :: u8
  sample_rate_code :: u8
  channels_code :: u8
  endianness :: u8
  stream_flags :: u8
  threshold_kib :: u8
  output_threshold_ds :: u8
  replay_gain :: u32
  server_ipv4 :: u32
  server_port :: u16
  request :: "u8 list"

text \<open>ASCII text as bytes.\<close>

definition ascii :: "string \<Rightarrow> u8 list" where
  "ascii s = map (\<lambda>c. of_nat (of_char c)) s"

text \<open>The request pointer and length are the list of the bytes it points to.\<close>

definition eaf_lms_parse_stream :: "u8 list option \<Rightarrow> eaf_lms_stream_t option" where
  "eaf_lms_parse_stream bytes =
     (case bytes of None \<Rightarrow> None
      | Some p \<Rightarrow>
        if length p < 28 \<or> take 4 p \<noteq> ascii ''strm'' then None
        else Some \<lparr>command_code = p ! 4, autostart = p ! 5, codec_code = p ! 6, sample_size = p ! 7,
          sample_rate_code = p ! 8, channels_code = p ! 9, endianness = p ! 10, stream_flags = p ! 15,
          threshold_kib = p ! 11, output_threshold_ds = p ! 16, replay_gain = eaf_bytes_read_u32 (drop 18 p),
          server_ipv4 = eaf_bytes_read_u32 (drop 24 p), server_port = eaf_bytes_read_u16 (drop 22 p),
          request = drop 28 p\<rparr>)"

definition eaf_lms_helo ::
  "u8 list option \<Rightarrow> nat \<Rightarrow> u8 list option \<Rightarrow> string option \<Rightarrow> eaf_result_t \<times> nat \<times> u8 list option" where
  "eaf_lms_helo dst capacity mac capabilities =
     (case (dst, mac, capabilities) of
        (Some d, Some mac, Some caps) \<Rightarrow>
          let len = min EAF_LMS_MAX_PACKET (length caps)
          in if len = EAF_LMS_MAX_PACKET \<or> capacity < 44 + len then (EAF_INVALID, 0, dst)
             else let d = blit d 0 (replicate 44 0);
                      d = blit d 0 (ascii ''HELO'');
                      d = take 4 d @ eaf_bytes_write_u32 (drop 4 d) (of_nat len + 36);
                      d = d[8 := 12];
                      d = blit d 10 mac;
                      d = blit d 44 (ascii (take len caps))
                  in (EAF_OK, 44 + len, Some d)
      | _ \<Rightarrow> (EAF_INVALID, 0, dst))"

section \<open>The parser as a suspendable loop\<close>

definition parser_ok :: "eaf_lms_parser_t \<Rightarrow> bool" where
  "parser_ok p \<longleftrightarrow> length (lms_packet p) = EAF_LMS_MAX_PACKET \<and> length (lms_prefix p) = 2 \<and> prefix_used p \<le> 2 \<and>
     pk_used p \<le> EAF_LMS_MAX_PACKET \<and> \<not> pk_failed p \<and>
     (if prefix_used p < 2 then pk_used p = 0
      else pk_used p < pk_expected p \<and> 4 \<le> pk_expected p \<and> pk_expected p \<le> EAF_LMS_MAX_PACKET)"

definition parser_safe :: "eaf_lms_parser_t \<Rightarrow> bool" where
  "parser_safe p \<longleftrightarrow> length (lms_packet p) = EAF_LMS_MAX_PACKET \<and> length (lms_prefix p) = 2 \<and> (pk_failed p \<or> parser_ok p)"

lemma parser_init_ok: "parser_ok eaf_lms_parser_init"
  by (simp add: parser_ok_def eaf_lms_parser_init_def)

lemma packet_step_keeps:
  assumes "parser_ok p" "prefix_used p = 2"
  shows "case packet_step on_packet p data ctx of Inl r \<Rightarrow> parser_safe (fst (snd r)) | Inr (s', xs') \<Rightarrow> parser_ok (fst s')"
  using assms by (auto simp: packet_step_def parser_ok_def parser_safe_def Let_def split: prod.splits)

text \<open>The state after the next prefix byte.\<close>

definition prefix_byte :: "eaf_lms_parser_t \<Rightarrow> u8 \<Rightarrow> eaf_lms_parser_t" where
  "prefix_byte p b = p\<lparr>lms_prefix := (lms_prefix p)[prefix_used p := b], prefix_used := prefix_used p + 1\<rparr>"

definition prefix_done :: "eaf_lms_parser_t \<Rightarrow> eaf_lms_parser_t" where
  "prefix_done p = p\<lparr>pk_expected := unat (lms_prefix p ! 0) * 256 + unat (lms_prefix p ! 1)\<rparr>"

definition bad_length :: "eaf_lms_parser_t \<Rightarrow> bool" where
  "bad_length p \<longleftrightarrow> pk_expected p < 4 \<or> pk_expected p > length (lms_packet p)"

lemma lms_step_cases:
  "prefix_used p = 0 \<Longrightarrow> lms_step f (p, ctx) (b # data) = Inr ((prefix_byte p b, ctx), data)"
  "prefix_used p = 1 \<Longrightarrow> lms_step f (p, ctx) (b # data) =
    (let q = prefix_done (prefix_byte p b)
     in if bad_length q then Inl (EAF_INVALID, q\<lparr>pk_failed := True\<rparr>, ctx) else packet_step f q data ctx)"
  "2 \<le> prefix_used p \<Longrightarrow> lms_step f (p, ctx) data = packet_step f p data ctx"
  by (simp_all add: lms_step_def prefix_byte_def prefix_done_def bad_length_def Let_def)

lemma prefix_ok:
  assumes "parser_ok p"
  shows "prefix_used p = 0 \<Longrightarrow> parser_ok (prefix_byte p b) \<and> prefix_used (prefix_byte p b) = 1"
    and "prefix_used p = 1 \<Longrightarrow> parser_safe ((prefix_done (prefix_byte p b))\<lparr>pk_failed := True\<rparr>)"
    and "prefix_used p = 1 \<Longrightarrow> \<not> bad_length (prefix_done (prefix_byte p b)) \<Longrightarrow>
      parser_ok (prefix_done (prefix_byte p b)) \<and> prefix_used (prefix_done (prefix_byte p b)) = 2"
  using assms by (auto simp: parser_ok_def parser_safe_def prefix_byte_def prefix_done_def bad_length_def)

lemma lms_step_keeps:
  assumes "parser_ok (fst s)" and "data \<noteq> []"
  shows "case lms_step on_packet s data of Inl r \<Rightarrow> parser_safe (fst (snd r)) | Inr (s', xs') \<Rightarrow> parser_ok (fst s')"
proof -
  obtain p ctx b rest where s: "s = (p, ctx)" "data = b # rest" using assms(2) by (cases s, cases data) auto
  have ok: "parser_ok p" using assms(1) s by simp
  consider "prefix_used p = 0" | "prefix_used p = 1" | "prefix_used p = 2" using ok by (fastforce simp: parser_ok_def)
  then show ?thesis
  proof cases
    case 1
    then show ?thesis using prefix_ok(1) [OF ok] by (simp add: s lms_step_cases)
  next
    case 2
    let ?q = "prefix_done (prefix_byte p b)"
    show ?thesis
    proof (cases "bad_length ?q")
      case True
      then show ?thesis using prefix_ok(2) [OF ok 2] 2 by (simp add: s lms_step_cases)
    next
      case False
      then show ?thesis using packet_step_keeps [of ?q on_packet rest ctx] prefix_ok(3) [OF ok 2] 2
        by (simp add: s lms_step_cases)
    qed
  next
    case 3
    then show ?thesis using packet_step_keeps [OF ok] by (simp add: s lms_step_cases)
  qed
qed

lemma lms_step_fails: "lms_step on_packet s data = Inl r \<Longrightarrow> fst r \<noteq> EAF_OK"
  by (auto simp: lms_step_def packet_step_def Let_def split: prod.splits if_splits)

text \<open>An iteration either runs out of input or completes the packet.\<close>

definition stored :: "eaf_lms_parser_t \<Rightarrow> u8 list \<Rightarrow> eaf_lms_parser_t" where
  "stored p data = p\<lparr>lms_packet := blit (lms_packet p) (pk_used p) data, pk_used := pk_used p + length data\<rparr>"

definition dispatch ::
  "'c eaf_lms_packet_fn \<Rightarrow> eaf_lms_parser_t \<Rightarrow> u8 list \<Rightarrow> 'c \<Rightarrow>
   (eaf_result_t \<times> eaf_lms_parser_t \<times> 'c) + ((eaf_lms_parser_t \<times> 'c) \<times> u8 list)" where
  "dispatch f p data ctx =
     (let (rc, ctx) = f ctx (take (pk_expected p) (lms_packet p)); p = p\<lparr>prefix_used := 0, pk_used := 0, pk_expected := 0\<rparr>
      in if rc \<noteq> EAF_OK then Inl (rc, p\<lparr>pk_failed := True\<rparr>, ctx) else Inr ((p, ctx), data))"

lemma packet_step_short:
  "pk_used p + length data < pk_expected p \<Longrightarrow> packet_step f p data ctx = Inr ((stored p data, ctx), [])"
  by (auto simp: packet_step_def stored_def Let_def)

lemma packet_step_full:
  assumes "pk_used p < pk_expected p" and "pk_expected p \<le> pk_used p + length data"
  shows "packet_step f p data ctx =
    dispatch f (stored p (take (pk_expected p - pk_used p) data)) (drop (pk_expected p - pk_used p) data) ctx"
proof -
  have "\<not> (pk_expected p < pk_used p \<or> pk_expected p - pk_used p > length data)" using assms by linarith
  then show ?thesis using assms by (simp add: packet_step_def dispatch_def stored_def Let_def min_def)
qed

lemma stored_stored:
  assumes "pk_used p + length a \<le> length (lms_packet p)"
  shows "stored (stored p a) b = stored p (a @ b)"
  using assms by (simp add: stored_def blit_def ac_simps)

lemma packet_step_append:
  assumes "parser_ok p" and "prefix_used p = 2"
  shows "case packet_step f p a ctx of Inl r \<Rightarrow> packet_step f p (a @ b) ctx = Inl r
     | Inr (s', a') \<Rightarrow> packet_step f p (a @ b) ctx = Inr (s', a' @ b) \<or> a' = [] \<and> packet_step f p (a @ b) ctx = lms_step f s' b"
proof -
  let ?n = "pk_expected p - pk_used p"
  have p: "length (lms_packet p) = EAF_LMS_MAX_PACKET" "pk_used p < pk_expected p" "pk_expected p \<le> EAF_LMS_MAX_PACKET"
    using assms by (auto simp: parser_ok_def)
  show ?thesis
  proof (cases "pk_used p + length a < pk_expected p")
    case False
    then have "take ?n (a @ b) = take ?n a" "drop ?n (a @ b) = drop ?n a @ b" by simp_all
    then show ?thesis using False p by (auto simp: packet_step_full dispatch_def Let_def split: prod.splits)
  next
    case True
    let ?q = "stored p a"
    have q: "pk_used ?q = pk_used p + length a" "pk_expected ?q = pk_expected p" "prefix_used ?q = 2"
      using assms(2) by (simp_all add: stored_def)
    have st: "stored ?q xs = stored p (a @ xs)" for xs using True p by (intro stored_stored) linarith
    have "packet_step f ?q b ctx = packet_step f p (a @ b) ctx"
    proof (cases "pk_used p + length (a @ b) < pk_expected p")
      case less: True
      then show ?thesis using q st by (simp add: packet_step_short)
    next
      case False
      have "take ?n (a @ b) = a @ take (pk_expected p - (pk_used p + length a)) b"
        "drop ?n (a @ b) = drop (pk_expected p - (pk_used p + length a)) b" using True by simp_all
      then show ?thesis using False True p q st by (simp add: packet_step_full)
    qed
    moreover have "lms_step f (?q, ctx) b = packet_step f ?q b ctx" using q(3) by (simp add: lms_step_cases)
    ultimately show ?thesis using packet_step_short [OF True, of f ctx] by simp
  qed
qed

lemma lms_step_append:
  assumes "parser_ok (fst s)" and "a \<noteq> []" and "b \<noteq> []"
  shows "case lms_step f s a of Inl r \<Rightarrow> lms_step f s (a @ b) = Inl r
     | Inr (s', a') \<Rightarrow> lms_step f s (a @ b) = Inr (s', a' @ b) \<or> a' = [] \<and> lms_step f s (a @ b) = lms_step f s' b"
proof -
  obtain p ctx c rest where s: "s = (p, ctx)" "a = c # rest" using assms(2) by (cases s, cases a) auto
  have ok: "parser_ok p" using assms(1) s by simp
  consider "prefix_used p = 0" | "prefix_used p = 1" | "prefix_used p = 2" using ok by (fastforce simp: parser_ok_def)
  then show ?thesis
  proof cases
    case 1
    then show ?thesis by (simp add: s lms_step_cases)
  next
    case 2
    let ?q = "prefix_done (prefix_byte p c)"
    show ?thesis
    proof (cases "bad_length ?q")
      case True
      then show ?thesis using 2 by (simp add: s lms_step_cases)
    next
      case False
      then have e: "lms_step f (p, ctx) (c # xs) = packet_step f ?q xs ctx" for xs using 2 by (simp add: lms_step_cases)
      show ?thesis unfolding s append_Cons e using prefix_ok(3) [OF ok 2 False] by (intro packet_step_append) simp_all
    qed
  next
    case 3
    then have e: "lms_step f (p, ctx) xs = packet_step f p xs ctx" for xs by (simp add: lms_step_cases)
    show ?thesis unfolding s(1) e using ok 3 by (rule packet_step_append)
  qed
qed

interpretation lms: chunked_loop "\<lambda>s. parser_ok (fst s)" "\<lambda>s. parser_safe (fst s)" "lms_step f" "lms_loop f"
  "\<lambda>s. prefix_used (fst s)"
  for f :: "'c eaf_lms_packet_fn"
proof (unfold_locales, goal_cases)
  case (2 xs s)
  then show ?case by (subst lms_loop.simps) simp
next
  case (3 s xs r)
  then show ?case by (rule lms_step_fails)
next
  case (4 s)
  then show ?case by (simp add: parser_safe_def) (simp add: parser_ok_def)
next
  case (5 s xs)
  then show ?case by (rule lms_step_keeps)
next
  case (6 xs s s' xs')
  then show ?case by (rule lms_step_rank)
next
  case (7 s a b)
  then show ?case by (rule lms_step_append)
qed (simp add: lms_loop.simps)

section \<open>Streams of packets\<close>

definition packet_fits :: "u8 list \<Rightarrow> bool" where
  "packet_fits pk \<longleftrightarrow> 4 \<le> length pk \<and> length pk \<le> EAF_LMS_MAX_PACKET"

text \<open>The callback only ever sees packets of a legal length.\<close>

lemma packet_step_ctx:
  assumes "parser_ok p" and "prefix_used p = 2" and "P ctx" and "\<And>ctx pk. P ctx \<Longrightarrow> packet_fits pk \<Longrightarrow> P (snd (f ctx pk))"
  shows "case packet_step f p data ctx of Inl r \<Rightarrow> P (snd (snd r)) | Inr (s', xs') \<Rightarrow> P (snd s')"
proof (cases "pk_used p + length data < pk_expected p")
  case True
  then show ?thesis using assms(3) by (simp add: packet_step_short)
next
  case False
  let ?q = "stored p (take (pk_expected p - pk_used p) data)"
  have p: "length (lms_packet p) = EAF_LMS_MAX_PACKET" "pk_used p < pk_expected p" "4 \<le> pk_expected p" "pk_expected p \<le> EAF_LMS_MAX_PACKET"
    using assms(1,2) by (auto simp: parser_ok_def)
  have "length (lms_packet ?q) = EAF_LMS_MAX_PACKET" using p False by (simp add: stored_def)
  then have "packet_fits (take (pk_expected ?q) (lms_packet ?q))" using p by (simp add: packet_fits_def stored_def)
  from assms(4) [OF assms(3) this] show ?thesis using packet_step_full [of p data f ctx] p False
    by (auto simp: dispatch_def Let_def split: prod.splits)
qed

lemma lms_loop_ctx:
  assumes "parser_ok (fst s)" and "P (snd s)" and "\<And>ctx pk. P ctx \<Longrightarrow> packet_fits pk \<Longrightarrow> P (snd (f ctx pk))"
  shows "P (snd (snd (lms_loop f s data)))"
  using assms(1,2)
proof (induction s data rule: lms.loop_induct [of f])
  case (loop s data)
  show ?case
  proof (cases data)
    case (Cons b rest)
    obtain p ctx where s: "s = (p, ctx)" by (cases s)
    have ok: "parser_ok p" "P ctx" using loop.prems s by simp_all
    have C: "case lms_step f s data of Inl r \<Rightarrow> P (snd (snd r)) | Inr (s', xs') \<Rightarrow> P (snd s')"
    proof -
      consider "prefix_used p = 0" | "prefix_used p = 1" | "prefix_used p = 2" using ok by (fastforce simp: parser_ok_def)
      then show ?thesis
      proof cases
        case 1
        then show ?thesis using ok(2) by (simp add: s Cons lms_step_cases)
      next
        case 2
        then show ?thesis using ok(2) prefix_ok(3) [OF ok(1) 2] packet_step_ctx [where P = P and f = f, OF _ _ ok(2) assms(3)]
          by (auto simp: s Cons lms_step_cases Let_def)
      next
        case 3
        then show ?thesis using packet_step_ctx [where P = P and f = f, OF ok(1) 3 ok(2) assms(3)] by (simp add: s lms_step_cases)
      qed
    qed
    have ne: "data \<noteq> []" using Cons by simp
    show ?thesis using C lms_step_keeps [OF loop.prems(1) ne, of f] loop.IH [OF ne]
      by (auto simp: lms.loop_Cons [OF ne] split: sum.splits)
  qed (simp add: lms.loop_Nil loop.prems)
qed

text \<open>A packet on the wire.\<close>

definition framed :: "u8 list \<Rightarrow> u8 list" where
  "framed pk = of_nat (length pk div 256) # of_nat (length pk) # pk"

lemma framed_length:
  assumes "packet_fits pk"
  shows "unat (of_nat (length pk div 256) :: u8) * 256 + unat (of_nat (length pk) :: u8) = length pk"
proof -
  have "length pk div 256 < 256" using assms unfolding packet_fits_def by linarith
  then show ?thesis by (simp add: unat_of_nat)
qed

text \<open>Between packets one framed packet is one call of the callback.\<close>

lemma lms_loop_packet:
  assumes "parser_ok p" and "prefix_used p = 0" and "packet_fits pk"
  shows "\<exists>p'. lms_loop f (p, ctx) (framed pk) =
      (fst (f ctx pk), p', snd (f ctx pk)) \<and> parser_safe p' \<and>
      (if fst (f ctx pk) = EAF_OK then parser_ok p' \<and> prefix_used p' = 0 else pk_failed p')"
proof -
  let ?p = "prefix_byte p (of_nat (length pk div 256))"
  let ?q = "prefix_done (prefix_byte ?p (of_nat (length pk)))"
  have lens: "length (lms_packet p) = EAF_LMS_MAX_PACKET" "length (lms_prefix p) = 2" "pk_used p = 0" "prefix_used p = 0" "\<not> pk_failed p"
    using assms(1,2) by (auto simp: parser_ok_def)
  have q: "pk_expected ?q = length pk" "pk_used ?q = 0" "length (lms_packet ?q) = EAF_LMS_MAX_PACKET" "lms_packet ?q = lms_packet p"
    "length (lms_prefix ?q) = 2" "\<not> pk_failed ?q"
    using framed_length [OF assms(3)] lens by (simp_all add: prefix_done_def prefix_byte_def)
  have good: "\<not> bad_length ?q" using q assms(3) by (simp add: bad_length_def packet_fits_def)
  have s1: "lms_step f (p, ctx) (framed pk) = Inr ((?p, ctx), of_nat (length pk) # pk)"
    using assms(2) by (simp add: framed_def lms_step_cases)
  have "prefix_used ?p = 1" using assms(2) by (simp add: prefix_byte_def)
  then have s2: "lms_step f (?p, ctx) (of_nat (length pk) # pk) = packet_step f ?q pk ctx"
    using good by (simp add: lms_step_cases Let_def)
  have ne: "0 < length pk" using assms(3) unfolding packet_fits_def by linarith
  have s3: "packet_step f ?q pk ctx = dispatch f (stored ?q pk) [] ctx"
    using packet_step_full [of ?q pk f ctx] ne unfolding q(1,2) by simp
  have pk: "take (length pk) (lms_packet (stored ?q pk)) = pk" "pk_expected (stored ?q pk) = length pk"
    "length (lms_packet (stored ?q pk)) = EAF_LMS_MAX_PACKET" "length (lms_prefix (stored ?q pk)) = 2" "\<not> pk_failed (stored ?q pk)"
    using q assms(3) by (simp_all add: stored_def blit_def packet_fits_def)
  have "lms_loop f (p, ctx) (framed pk) =
      (case dispatch f (stored ?q pk) [] ctx of Inl r \<Rightarrow> r | Inr (s, xs) \<Rightarrow> lms_loop f s xs)"
    using s1 s2 s3 by (simp add: lms_loop.simps [of f "(p, ctx)"] lms_loop.simps [of f "(?p, ctx)"] framed_def)
  then show ?thesis using pk
    by (cases "f ctx pk") (auto simp: dispatch_def Let_def lms.loop_Nil parser_safe_def parser_ok_def)
qed

definition log_packet :: "u8 list list eaf_lms_packet_fn" where
  "log_packet log pk = (EAF_OK, log @ [pk])"

lemma lms_loop_packets:
  assumes "parser_ok p" and "prefix_used p = 0" and "list_all packet_fits pks"
  shows "\<exists>p'. lms_loop log_packet (p, log) (concat (map framed pks)) = (EAF_OK, p', log @ pks) \<and> parser_ok p' \<and> prefix_used p' = 0"
  using assms
proof (induction pks arbitrary: p log)
  case Nil
  then show ?case by (simp add: lms.loop_Nil)
next
  case (Cons pk pks)
  have fits: "packet_fits pk" "list_all packet_fits pks" using Cons.prems(3) by simp_all
  obtain p' where r: "lms_loop log_packet (p, log) (framed pk) = (EAF_OK, p', log @ [pk])" "parser_ok p'" "prefix_used p' = 0"
    using lms_loop_packet [OF Cons.prems(1,2) fits(1), of log_packet log] by (auto simp: log_packet_def)
  from Cons.IH [OF r(2,3) fits(2), of "log @ [pk]"] show ?case
    using r(1) lms.loop_append [of "(p, log)" log_packet "framed pk" "concat (map framed pks)"] Cons.prems(1) by auto
qed

text \<open>The reads of a connection, as \<open>eaf_lms_client_step\<close> feeds them: the first error ends it.\<close>

definition feed_reads :: "'c eaf_lms_packet_fn \<Rightarrow> u8 list list \<Rightarrow> eaf_lms_parser_t \<times> 'c \<Rightarrow> eaf_result_t \<times> eaf_lms_parser_t \<times> 'c" where
  "feed_reads f reads s =
     fold (\<lambda>c (rc, s). if rc \<noteq> EAF_OK then (rc, s) else eaf_lms_feed (Some f) (fst s) (Some c) (length c) (snd s)) reads (EAF_OK, s)"

lemma feed_loop_lms:
  "parser_ok p \<Longrightarrow> eaf_lms_feed (Some f) p (Some bytes) (length bytes) ctx = lms_loop f (p, ctx) bytes"
  by (simp add: eaf_lms_feed_def parser_ok_def)

lemma feed_reads_concat:
  assumes "parser_ok (fst s)"
  shows "feed_reads f reads s = lms_loop f s (concat reads)"
proof -
  have stuck: "rc \<noteq> EAF_OK \<Longrightarrow> fold (\<lambda>c (rc, s). if rc \<noteq> EAF_OK then (rc, s)
      else eaf_lms_feed (Some f) (fst s) (Some c) (length c) (snd s)) reads (rc, s) = (rc, s)" for rc s reads
    by (induction reads) simp_all
  show ?thesis using assms
  proof (induction reads arbitrary: s)
    case Nil
    then show ?case by (simp add: feed_reads_def lms.loop_Nil)
  next
    case (Cons c cs)
    obtain rc s' where r: "lms_loop f s c = (rc, s')" by (cases "lms_loop f s c")
    have "rc = EAF_OK \<Longrightarrow> parser_ok (fst s')" using lms.loop_keeps [OF Cons.prems, of f c] r by simp
    then show ?case using r Cons.IH [of s'] lms.loop_append [OF Cons.prems, of f c "concat cs"] stuck Cons.prems
      by (cases "rc = EAF_OK") (auto simp: feed_reads_def feed_loop_lms)
  qed
qed

section \<open>Properties\<close>

text \<open>
  C21: every sequence of packets of 4 to 2048 bytes, framed with their big-endian length and
  received in reads cut anywhere, reaches the callback complete and in order, and the
  parser is left between packets.
\<close>

theorem lms_packets_delivered:
  assumes "list_all packet_fits pks" and "concat reads = concat (map framed pks)"
  shows "\<exists>p'. feed_reads log_packet reads (eaf_lms_parser_init, []) = (EAF_OK, p', pks) \<and> parser_ok p' \<and> prefix_used p' = 0"
proof -
  have z: "prefix_used eaf_lms_parser_init = 0" by (simp add: eaf_lms_parser_init_def)
  show ?thesis using lms_loop_packets [OF parser_init_ok z assms(1), of "[]"] parser_init_ok
    by (simp add: feed_reads_concat assms(2))
qed

theorem lms_packets_delivered_witness:
  "\<exists>p'. feed_reads log_packet [[0], [4, 1, 2], [3, 4, 0, 5, 9], [8, 7], [6, 5]] (eaf_lms_parser_init, []) =
     (EAF_OK, p', [[1, 2, 3, 4], [9, 8, 7, 6, 5]])"
  using lms_packets_delivered [of "[[1, 2, 3, 4], [9, 8, 7, 6, 5]]" "[[0], [4, 1, 2], [3, 4, 0, 5, 9], [8, 7], [6, 5]]"]
  by (auto simp: packet_fits_def framed_def)

text \<open>
  The parser never writes outside its buffers, whatever it is fed: after any feed its
  arrays have their size and its counters their bounds; a length below 4 or above 2048
  and a callback error stop it, and a stopped parser refuses all further input unchanged.
\<close>

theorem lms_feed_safe:
  assumes "parser_safe p"
  shows "(case eaf_lms_feed (Some f) p (Some bytes) (length bytes) ctx of (rc, p', ctx') \<Rightarrow>
      parser_safe p' \<and> (rc = EAF_OK \<longrightarrow> \<not> pk_failed p') \<and>
      (pk_failed p' \<longrightarrow> eaf_lms_feed (Some f) p' next_bytes n ctx' = (if next_bytes = None \<and> n \<noteq> 0 then EAF_INVALID else EAF_STATE, p', ctx')))"
proof -
  obtain rc p' ctx' where r: "eaf_lms_feed (Some f) p (Some bytes) (length bytes) ctx = (rc, p', ctx')" by (metis prod_cases3)
  have "parser_safe p' \<and> (rc = EAF_OK \<longrightarrow> \<not> pk_failed p')"
  proof (cases "pk_failed p")
    case True
    then show ?thesis using r assms by (auto simp: eaf_lms_feed_def)
  next
    case False
    then have ok: "parser_ok p" using assms by (simp add: parser_safe_def)
    show ?thesis using lms.loop_keeps [of "(p, ctx)" f bytes] ok r by (auto simp: feed_loop_lms [OF ok] parser_ok_def)
  qed
  moreover have "pk_failed p' \<longrightarrow> eaf_lms_feed (Some f) p' next_bytes n ctx' = (if next_bytes = None \<and> n \<noteq> 0 then EAF_INVALID else EAF_STATE, p', ctx')"
    by (simp add: eaf_lms_feed_def)
  ultimately show ?thesis using r by simp
qed

theorem lms_feed_safe_witness:
  "case eaf_lms_feed (Some log_packet) eaf_lms_parser_init (Some [0, 3, 1]) (length [0, 3, 1 :: u8]) [] of (rc, p', ctx') \<Rightarrow>
     parser_safe p' \<and> rc = EAF_INVALID \<and> eaf_lms_feed (Some log_packet) p' (Some [0]) 1 ctx' = (EAF_STATE, p', ctx')"
proof -
  have safe: "parser_safe eaf_lms_parser_init"
    using parser_init_ok by (simp add: parser_safe_def) (simp add: parser_ok_def)
  have run: "eaf_lms_feed (Some log_packet) eaf_lms_parser_init (Some [0, 3, 1]) (length [0, 3, 1 :: u8]) [] =
      (EAF_INVALID, eaf_lms_parser_init\<lparr>lms_prefix := [0, 3], prefix_used := 2, pk_expected := 3, pk_failed := True\<rparr>, [])"
    by (simp add: eaf_lms_feed_def lms_loop.simps lms_step_def eaf_lms_parser_init_def)
  show ?thesis using lms_feed_safe [OF safe, where f = log_packet and bytes = "[0, 3, 1]" and ctx = "[]" and next_bytes = "Some [0]" and n = 1] unfolding run by simp
qed

end
