(* ===== verification/LMS_Client.thy ===== *)
theory LMS_Client
  imports LMS_Protocol Net
begin

text \<open>
  \<open>apps/lms/lms_client.c\<close>: the Logitech Media Server client. One control connection carries
  commands and status reports, one HTTP connection the raw PCM of the current stream;
  \<open>eaf_lms_client_step\<close> performs one bounded non-blocking iteration over both. The network,
  the clock and the callbacks of the output owner act on a state \<open>'w\<close> of the world. Here are the
  data model and all operations; \<open>LMS_Client_Props\<close> has the theorems.
\<close>

section \<open>Data\<close>

abbreviation (input) EAF_LMS_PCM_FRAMES :: nat where "EAF_LMS_PCM_FRAMES \<equiv> 512"
abbreviation (input) EAF_LMS_INGRESS_BYTES :: nat where "EAF_LMS_INGRESS_BYTES \<equiv> 4096"

record eaf_lms_buffer_request_t =
  stream_bytes :: u32
  output_ms :: u32
  req_sample_bytes :: u8

record eaf_lms_buffer_limits_t =
  capacity_frames :: u32
  ready_frames :: u32
  clamped :: bool

record 'w eaf_lms_callbacks_t =
  cb_start :: "(eaf_format_t \<Rightarrow> 'w \<Rightarrow> eaf_result_t \<times> 'w) option"
  cb_pcm :: "(int list \<Rightarrow> u32 \<Rightarrow> 'w \<Rightarrow> u32 \<times> 'w) option"
  cb_eof :: "('w \<Rightarrow> 'w) option"
  cb_stop :: "('w \<Rightarrow> 'w) option"
  cb_pause :: "(bool \<Rightarrow> 'w \<Rightarrow> eaf_result_t \<times> 'w) option"
  cb_volume :: "(int \<Rightarrow> int \<Rightarrow> 'w \<Rightarrow> eaf_result_t \<times> 'w) option"
  cb_start_buffered :: "(eaf_format_t \<Rightarrow> eaf_lms_buffer_request_t \<Rightarrow> eaf_lms_buffer_limits_t \<Rightarrow> 'w \<Rightarrow>
      eaf_result_t \<times> eaf_lms_buffer_limits_t \<times> 'w) option"
  cb_release :: "('w \<Rightarrow> eaf_result_t \<times> 'w) option"

record eaf_lms_playback_t =
  elapsed_ms :: u32
  buffer_bytes :: u32
  queued_bytes :: u32
  pb_started :: bool

datatype eaf_lms_stage_t =
    EAF_LMS_STAGE_NONE | EAF_LMS_STAGE_CONNECT | EAF_LMS_STAGE_CONTROL_SEND | EAF_LMS_STAGE_CONTROL_RECV
  | EAF_LMS_STAGE_COMMAND | EAF_LMS_STAGE_HTTP_CONNECT | EAF_LMS_STAGE_OUTPUT_START | EAF_LMS_STAGE_HTTP_SEND
  | EAF_LMS_STAGE_HTTP_RECV | EAF_LMS_STAGE_HEADERS | EAF_LMS_STAGE_DECODE | EAF_LMS_STAGE_PCM | EAF_LMS_STAGE_STATUS

record eaf_lms_diagnostics_t =
  http_bytes :: u64
  pcm_frames :: u64
  recv_again :: u32
  backpressure_count :: u32
  budget_yields :: u32
  first_error :: eaf_result_t
  error_stage :: eaf_lms_stage_t
  error_opcode :: "u8 list"
  http_status :: u16
  http_length_known :: bool
  http_content_length :: u32
  http_content_type :: "u8 list"

record eaf_lms_pump_result_t =
  pump_steps :: u32
  progressed :: bool
  budget_exhausted :: bool
  backpressured :: bool

text \<open>The fields of the client carry the prefix \<open>lc_\<close>.\<close>

record 'w eaf_lms_client_t =
  lc_control :: eaf_tcp_t
  lc_http :: eaf_tcp_t
  lc_parser :: eaf_lms_parser_t
  lc_callbacks :: "'w eaf_lms_callbacks_t"
  lc_server :: u32
  lc_tx :: "u8 list"
  lc_request :: "u8 list"
  lc_rx :: "u8 list"
  lc_tail :: "u8 list"
  lc_header :: "u8 list"
  lc_tx_used :: nat
  lc_tx_sent :: nat
  lc_request_used :: nat
  lc_request_sent :: nat
  lc_header_used :: nat
  lc_tail_used :: nat
  lc_pcm :: "int list"
  lc_pcm_count :: u32
  lc_pcm_sent :: u32
  lc_ingress :: "u8 list"
  lc_ingress_used :: nat
  lc_format :: eaf_format_t
  lc_width :: nat
  lc_big_endian :: bool
  lc_headers_done :: bool
  lc_streaming :: bool
  lc_body_done :: bool
  lc_has_length :: bool
  lc_wait_cont :: bool
  lc_wait_start :: bool
  lc_ready_sent :: bool
  lc_started_sent :: bool
  lc_playback :: eaf_lms_playback_t
  lc_remaining :: u64
  lc_bytes_received :: u64
  lc_diagnostics :: eaf_lms_diagnostics_t
  lc_stage :: eaf_lms_stage_t
  lc_opcode :: "u8 list"
  lc_step_progress :: bool
  lc_step_backpressure :: bool
  lc_buffered_output :: bool
  lc_output_released :: bool
  lc_output_paused :: bool
  lc_input_eof :: bool
  lc_eof_sent :: bool
  lc_prefill_frames :: u32
  lc_buffer_limits :: eaf_lms_buffer_limits_t

abbreviation zero_limits :: eaf_lms_buffer_limits_t where
  "zero_limits \<equiv> \<lparr>capacity_frames = 0, ready_frames = 0, clamped = False\<rparr>"

abbreviation zero_playback :: eaf_lms_playback_t where
  "zero_playback \<equiv> \<lparr>elapsed_ms = 0, buffer_bytes = 0, queued_bytes = 0, pb_started = False\<rparr>"

definition zero_diagnostics :: eaf_lms_diagnostics_t where
  "zero_diagnostics =
     \<lparr>http_bytes = 0, pcm_frames = 0, recv_again = 0, backpressure_count = 0, budget_yields = 0, first_error = EAF_OK,
      error_stage = EAF_LMS_STAGE_NONE, error_opcode = replicate 4 0, http_status = 0, http_length_known = False,
      http_content_length = 0, http_content_type = replicate 32 0\<rparr>"

section \<open>Buffer limits\<close>

definition eaf_lms_buffer_limits ::
  "eaf_format_t option \<Rightarrow> eaf_lms_buffer_request_t option \<Rightarrow> u32 \<Rightarrow> u32 \<Rightarrow> eaf_lms_buffer_limits_t option" where
  "eaf_lms_buffer_limits fmt req capacity preferred =
     (case (fmt, req) of
        (Some fmt, Some req) \<Rightarrow>
          if \<not> eaf_format_valid fmt \<or> capacity = 0 \<or> preferred = 0 \<or> preferred > capacity \<or>
             req_sample_bytes req < 2 \<or> req_sample_bytes req > 4 then None
          else let frame_bytes = ucast (req_sample_bytes req) * ucast (num_channels fmt) :: u32;
                   stream = (ucast (stream_bytes req) + ucast frame_bytes - 1) div ucast frame_bytes :: u64;
                   output = (ucast (output_ms req) * ucast (sample_rate fmt) + 999) div 1000 :: u64;
                   ready = (if stream > output then stream else output);
                   ready = (if ready < ucast preferred then ucast preferred else ready)
               in Some \<lparr>capacity_frames = capacity, ready_frames = (if ready > ucast capacity then capacity else ucast ready),
                    clamped = ready > ucast capacity\<rparr>
      | _ \<Rightarrow> None)"

section \<open>Control connection\<close>

definition record_error :: "'w eaf_lms_client_t \<Rightarrow> eaf_result_t \<Rightarrow> 'w eaf_lms_client_t" where
  "record_error c rc =
     (if rc \<noteq> EAF_OK \<and> first_error (lc_diagnostics c) = EAF_OK
      then let d = (lc_diagnostics c)\<lparr>first_error := rc, error_stage := lc_stage c\<rparr>;
               d = (if lc_stage c = EAF_LMS_STAGE_COMMAND \<or> lc_stage c = EAF_LMS_STAGE_HTTP_CONNECT \<or>
                       lc_stage c = EAF_LMS_STAGE_OUTPUT_START
                    then d\<lparr>error_opcode := take 4 (lc_opcode c)\<rparr> else d)
           in c\<lparr>lc_diagnostics := d\<rparr>
      else c)"

text \<open>\<open>eaf_bytes_write_u32(array + off, v)\<close>.\<close>

definition put_u32 :: "u8 list \<Rightarrow> nat \<Rightarrow> u32 \<Rightarrow> u8 list" where
  "put_u32 a off v = take off a @ eaf_bytes_write_u32 (drop off a) v"

definition enqueue :: "'w eaf_lms_client_t \<Rightarrow> u8 list \<Rightarrow> u8 list \<Rightarrow> eaf_result_t \<times> 'w eaf_lms_client_t" where
  "enqueue c opcode body =
     (let n = length body;
          c = (if lc_tx_sent c \<noteq> 0
               then c\<lparr>lc_tx := blit (lc_tx c) 0 (take (lc_tx_used c - lc_tx_sent c) (drop (lc_tx_sent c) (lc_tx c))),
                      lc_tx_used := lc_tx_used c - lc_tx_sent c, lc_tx_sent := 0\<rparr>
               else c)
      in if n > length (lc_tx c) - 8 \<or> lc_tx_used c > length (lc_tx c) - 8 - n then (EAF_IO, c)
         else let tx = blit (lc_tx c) (lc_tx_used c) opcode;
                  tx = put_u32 tx (lc_tx_used c + 4) (of_nat n);
                  tx = blit tx (lc_tx_used c + 8) body
              in (EAF_OK, c\<lparr>lc_tx := tx, lc_tx_used := lc_tx_used c + (8 + n)\<rparr>))"

type_synonym 'w lms_state = "'w eaf_lms_client_t \<times> 'w"

definition status_body :: "'w eaf_lms_client_t \<Rightarrow> u8 list \<Rightarrow> u32 \<Rightarrow> u64 \<Rightarrow> u8 list" where
  "status_body c event timestamp now_us =
     (let body = blit (replicate 53 0) 0 event;
          body = put_u32 body 15 (ucast (drop_bit 32 (lc_bytes_received c)));
          body = put_u32 body 19 (ucast (lc_bytes_received c));
          body = put_u32 body 25 (ucast (now_us div 1000));
          body = put_u32 body 29 (buffer_bytes (lc_playback c));
          body = put_u32 body 33 (queued_bytes (lc_playback c));
          body = put_u32 body 37 (elapsed_ms (lc_playback c) div 1000);
          body = put_u32 body 43 (elapsed_ms (lc_playback c))
      in put_u32 body 47 timestamp)"

definition status :: "'w hal_net \<Rightarrow> 'w lms_state \<Rightarrow> string \<Rightarrow> u32 \<Rightarrow> eaf_result_t \<times> 'w lms_state" where
  "status hal s event timestamp =
     (case s of (c, w) \<Rightarrow>
      let (now_us, w) = net_time_us hal w;
          (rc, c) = enqueue c (ascii ''STAT'') (status_body c (ascii event) timestamp now_us)
      in (rc, c, w))"

text \<open>
  Callbacks that \<open>eaf_lms_client_init\<close> requires; the client never calls them when they are NULL.
\<close>

definition call_stop :: "'w eaf_lms_client_t \<Rightarrow> 'w \<Rightarrow> 'w" where
  "call_stop c w = (case cb_stop (lc_callbacks c) of None \<Rightarrow> w | Some f \<Rightarrow> f w)"

definition call_eof :: "'w eaf_lms_client_t \<Rightarrow> 'w \<Rightarrow> 'w" where
  "call_eof c w = (case cb_eof (lc_callbacks c) of None \<Rightarrow> w | Some f \<Rightarrow> f w)"

definition stop_stream :: "'w hal_net \<Rightarrow> 'w lms_state \<Rightarrow> 'w lms_state" where
  "stop_stream hal s =
     (case s of (c, w) \<Rightarrow>
      let (http, w) = net_close hal (lc_http c) w;
          w = (if lc_streaming c then call_stop c w else w)
      in (c\<lparr>lc_http := http, lc_streaming := False, lc_buffered_output := False, lc_output_released := False,
            lc_output_paused := False, lc_input_eof := False, lc_eof_sent := False, lc_prefill_frames := 0,
            lc_buffer_limits := zero_limits, lc_pcm_count := 0, lc_pcm_sent := 0, lc_body_done := False,
            lc_wait_cont := False, lc_wait_start := False, lc_ready_sent := False, lc_started_sent := False,
            lc_playback := zero_playback, lc_bytes_received := 0\<rparr>, w))"

section \<open>Commands\<close>

definition byte :: "char \<Rightarrow> u8" where
  "byte ch = of_nat (of_char ch)"

text \<open>Master gain: unsigned 16.16 to Q1.31, unity when the adjust byte is off or the gain is 1 or more.\<close>

definition audg_gain :: "u8 list \<Rightarrow> nat \<Rightarrow> int" where
  "audg_gain p ch =
     (let raw = eaf_bytes_read_u32 (drop (14 + ch * 4) p)
      in if p ! 12 = 0 \<or> raw \<ge> 65536 then INT32_MAX else i32 (uint (push_bit 15 raw)))"

definition command_audg :: "'w lms_state \<Rightarrow> u8 list \<Rightarrow> eaf_result_t \<times> 'w lms_state" where
  "command_audg s p =
     (case s of (c, w) \<Rightarrow>
      if length p < 22 then (EAF_INVALID, c, w)
      else case cb_volume (lc_callbacks c) of None \<Rightarrow> (EAF_OK, c, w)
        | Some volume \<Rightarrow> let (rc, w) = volume (audg_gain p 0) (audg_gain p 1) w in (rc, c, w))"

definition command_cont :: "'w eaf_lms_client_t \<Rightarrow> u8 list \<Rightarrow> eaf_result_t \<times> 'w eaf_lms_client_t" where
  "command_cont c p =
     (if length p < 9 then (EAF_INVALID, c)
      else if \<not> lc_streaming c \<or> \<not> lc_wait_cont c then (EAF_OK, c)
      else if p ! 4 \<noteq> 0 \<or> p ! 5 \<noteq> 0 \<or> p ! 6 \<noteq> 0 \<or> p ! 7 \<noteq> 0 \<or> p ! 8 \<noteq> 0 then (EAF_UNSUPPORTED, c)
      else (EAF_OK, c\<lparr>lc_wait_cont := False\<rparr>))"

definition call_pause :: "'w lms_state \<Rightarrow> bool \<Rightarrow> eaf_result_t \<times> 'w lms_state" where
  "call_pause s paused =
     (case s of (c, w) \<Rightarrow>
      case cb_pause (lc_callbacks c) of None \<Rightarrow> (EAF_UNSUPPORTED, c, w)
      | Some pause \<Rightarrow> let (rc, w) = pause paused w in (rc, c, w))"

definition command_unpause :: "'w hal_net \<Rightarrow> 'w lms_state \<Rightarrow> eaf_lms_stream_t \<Rightarrow> eaf_result_t \<times> 'w lms_state" where
  "command_unpause hal s strm =
     (case s of (c, w) \<Rightarrow>
      if replay_gain strm \<noteq> 0 then (EAF_UNSUPPORTED, c, w)
      else if \<not> lc_streaming c \<or> lc_wait_cont c then (EAF_STATE, c, w)
      else and_then
        (if lc_wait_start c
         then if \<not> lc_ready_sent c then (EAF_STATE, c, w) else (EAF_OK, c\<lparr>lc_wait_start := False\<rparr>, w)
         else call_pause (c, w) False)
        (\<lambda>(c, w). status hal (c\<lparr>lc_output_paused := False\<rparr>, w) ''STMr'' 0))"

definition command_pause :: "'w hal_net \<Rightarrow> 'w lms_state \<Rightarrow> eaf_lms_stream_t \<Rightarrow> eaf_result_t \<times> 'w lms_state" where
  "command_pause hal s strm =
     (case s of (c, w) \<Rightarrow>
      if replay_gain strm \<noteq> 0 \<or> cb_pause (lc_callbacks c) = None then (EAF_UNSUPPORTED, c, w)
      else if \<not> lc_streaming c then (EAF_STATE, c, w)
      else and_then (call_pause (c, w) True) (\<lambda>(c, w). status hal (c\<lparr>lc_output_paused := True\<rparr>, w) ''STMp'' 0))"

definition rates :: "u32 list" where
  "rates = [11025, 22050, 32000, 44100, 48000, 8000, 12000, 16000, 24000, 96000, 88200]"

definition crlfcrlf :: "u8 list" where
  "crlfcrlf = [13, 10, 13, 10]"

definition stream_unsupported :: "'w eaf_lms_client_t \<Rightarrow> eaf_lms_stream_t \<Rightarrow> bool" where
  "stream_unsupported c strm \<longleftrightarrow>
     stream_flags strm AND 32 \<noteq> 0 \<or> codec_code strm \<noteq> byte CHR ''p'' \<or>
     autostart strm < byte CHR ''0'' \<or> autostart strm > byte CHR ''3'' \<or>
     sample_size strm < byte CHR ''1'' \<or> sample_size strm > byte CHR ''3'' \<or>
     sample_rate_code strm < byte CHR ''0'' \<or> unat (sample_rate_code strm - byte CHR ''0'') \<ge> length rates \<or>
     (channels_code strm \<noteq> byte CHR ''1'' \<and> channels_code strm \<noteq> byte CHR ''2'') \<or>
     (endianness strm \<noteq> byte CHR ''0'' \<and> endianness strm \<noteq> byte CHR ''1'') \<or>
     length (request strm) < 4 \<or> length (request strm) > length (lc_request c) \<or>
     drop (length (request strm) - 4) (request strm) \<noteq> crlfcrlf"

definition stream_setup :: "'w eaf_lms_client_t \<Rightarrow> eaf_lms_stream_t \<Rightarrow> 'w eaf_lms_client_t" where
  "stream_setup c strm =
     c\<lparr>lc_width := unat (sample_size strm - byte CHR ''0'') + 1, lc_big_endian := endianness strm = byte CHR ''0'',
       lc_format := mk_format (rates ! unat (sample_rate_code strm - byte CHR ''0'')) (channels_code strm - byte CHR ''0'')
          (if channels_code strm = byte CHR ''1'' then 8 else 3),
       lc_stage := EAF_LMS_STAGE_HTTP_CONNECT\<rparr>"

definition start_output :: "'w lms_state \<Rightarrow> eaf_lms_stream_t \<Rightarrow> eaf_result_t \<times> 'w lms_state" where
  "start_output s strm =
     (case s of (c, w) \<Rightarrow>
      case cb_start_buffered (lc_callbacks c) of
        Some start_buffered \<Rightarrow>
          let req = \<lparr>stream_bytes = ucast (threshold_kib strm) * 1024, output_ms = ucast (output_threshold_ds strm) * 100,
                req_sample_bytes = of_nat (lc_width c)\<rparr>;
              (rc, limits, w) = start_buffered (lc_format c) req (lc_buffer_limits c) w;
              c = c\<lparr>lc_buffered_output := True, lc_buffer_limits := limits\<rparr>
          in if rc = EAF_OK \<and> (ready_frames limits = 0 \<or> ready_frames limits > capacity_frames limits)
             then (EAF_INVALID, c, call_stop c w)
             else (rc, c, w)
      | None \<Rightarrow>
          let (rc, w) = (case cb_start (lc_callbacks c) of None \<Rightarrow> (EAF_INVALID, w) | Some start \<Rightarrow> start (lc_format c) w)
          in (rc, c\<lparr>lc_buffered_output := False\<rparr>, w))"

definition begin_stream :: "'w eaf_lms_client_t \<Rightarrow> eaf_lms_stream_t \<Rightarrow> 'w eaf_lms_client_t" where
  "begin_stream c strm =
     c\<lparr>lc_streaming := True, lc_header_used := 0, lc_headers_done := False, lc_has_length := False,
       lc_wait_cont := autostart strm \<ge> byte CHR ''2'',
       lc_wait_start := (autostart strm = byte CHR ''0'' \<or> autostart strm = byte CHR ''2''),
       lc_tail_used := 0, lc_bytes_received := 0, lc_request_used := length (request strm), lc_request_sent := 0,
       lc_request := blit (lc_request c) 0 (request strm)\<rparr>"

definition command_start :: "'w hal_net \<Rightarrow> 'w lms_state \<Rightarrow> eaf_lms_stream_t \<Rightarrow> eaf_result_t \<times> 'w lms_state" where
  "command_start hal s strm =
     (case stop_stream hal s of (c, w) \<Rightarrow>
      if stream_unsupported c strm then (EAF_UNSUPPORTED, c, w)
      else let c = stream_setup c strm;
               (rc, http, w) = net_connect hal (lc_http c) (if server_ipv4 strm \<noteq> 0 then server_ipv4 strm else lc_server c)
                  (server_port strm) 500 w;
               c = c\<lparr>lc_http := http\<rparr>
           in if rc \<noteq> EAF_OK then (rc, c, w)
              else let (rc, c, w) = start_output (c\<lparr>lc_stage := EAF_LMS_STAGE_OUTPUT_START\<rparr>, w) strm
                   in if rc \<noteq> EAF_OK
                      then let (http, w) = net_close hal (lc_http c) w in (rc, c\<lparr>lc_http := http\<rparr>, w)
                      else status hal (begin_stream c strm, w) ''STMc'' 0)"

definition command_strm :: "'w hal_net \<Rightarrow> 'w lms_state \<Rightarrow> u8 list \<Rightarrow> eaf_result_t \<times> 'w lms_state" where
  "command_strm hal s p =
     (case eaf_lms_parse_stream (Some p) of None \<Rightarrow> (EAF_INVALID, s)
      | Some strm \<Rightarrow>
        let cmd = command_code strm
        in if cmd = byte CHR ''t'' then status hal s ''STMt'' (replay_gain strm)
           else if cmd = byte CHR ''q'' \<or> cmd = byte CHR ''f'' then status hal (stop_stream hal s) ''STMf'' 0
           else if cmd = byte CHR ''u'' then command_unpause hal s strm
           else if cmd = byte CHR ''p'' then command_pause hal s strm
           else if cmd \<noteq> byte CHR ''s'' then (EAF_UNSUPPORTED, s)
           else command_start hal s strm)"

definition command :: "'w hal_net \<Rightarrow> 'w lms_state \<Rightarrow> u8 list \<Rightarrow> eaf_result_t \<times> 'w lms_state" where
  "command hal s p =
     (case s of (c, w) \<Rightarrow>
      let c = c\<lparr>lc_stage := EAF_LMS_STAGE_COMMAND, lc_opcode := blit (lc_opcode c) 0 (take 4 p)\<rparr>
      in if take 4 p = ascii ''audg'' then command_audg (c, w) p
         else if take 4 p = ascii ''cont'' then let (rc, c) = command_cont c p in (rc, c, w)
         else if take 4 p \<noteq> ascii ''strm'' then (EAF_OK, c, w)
         else command_strm hal (c, w) p)"

section \<open>Connection\<close>

definition zero_tcp :: eaf_tcp_t where
  "zero_tcp = \<lparr>tcp_fd = 0, tcp_open = False\<rparr>"

definition eaf_lms_client_init :: "'w eaf_lms_callbacks_t option \<Rightarrow> 'w eaf_lms_client_t option" where
  "eaf_lms_client_init cb =
     (case cb of None \<Rightarrow> None
      | Some cb \<Rightarrow>
        if (cb_start cb = None \<and> cb_start_buffered cb = None) \<or> cb_pcm cb = None \<or> cb_stop cb = None \<or> cb_eof cb = None \<or>
           (cb_start_buffered cb \<noteq> None) \<noteq> (cb_release cb \<noteq> None) then None
        else Some
          \<lparr>lc_control = zero_tcp, lc_http = zero_tcp, lc_parser = eaf_lms_parser_init, lc_callbacks = cb, lc_server = 0,
           lc_tx = replicate 4096 0, lc_request = replicate EAF_LMS_MAX_PACKET 0, lc_rx = replicate 1024 0, lc_tail = replicate 8 0,
           lc_header = replicate (EAF_LMS_MAX_PACKET + 1) 0, lc_tx_used = 0, lc_tx_sent = 0, lc_request_used = 0,
           lc_request_sent = 0, lc_header_used = 0, lc_tail_used = 0, lc_pcm = replicate (EAF_LMS_PCM_FRAMES * 2) 0,
           lc_pcm_count = 0, lc_pcm_sent = 0, lc_ingress = replicate EAF_LMS_INGRESS_BYTES 0, lc_ingress_used = 0,
           lc_format = zero_format, lc_width = 0, lc_big_endian = False, lc_headers_done = False, lc_streaming = False,
           lc_body_done = False, lc_has_length = False, lc_wait_cont = False, lc_wait_start = False, lc_ready_sent = False,
           lc_started_sent = False, lc_playback = zero_playback, lc_remaining = 0, lc_bytes_received = 0,
           lc_diagnostics = zero_diagnostics, lc_stage = EAF_LMS_STAGE_NONE, lc_opcode = replicate 4 0,
           lc_step_progress = False, lc_step_backpressure = False, lc_buffered_output = False, lc_output_released = False,
           lc_output_paused = False, lc_input_eof = False, lc_eof_sent = False, lc_prefill_frames = 0,
           lc_buffer_limits = zero_limits\<rparr>)"

definition eaf_lms_client_connect ::
  "'w hal_net \<Rightarrow> 'w lms_state \<Rightarrow> u32 \<Rightarrow> u16 \<Rightarrow> u8 list option \<Rightarrow> eaf_result_t \<times> 'w lms_state" where
  "eaf_lms_client_connect hal s server port mac =
     (case s of (c, w) \<Rightarrow>
      if mac = None \<or> (cb_start (lc_callbacks c) = None \<and> cb_start_buffered (lc_callbacks c) = None) \<or> tcp_open (lc_control c)
      then (EAF_INVALID, c, w)
      else let c = c\<lparr>lc_diagnostics := zero_diagnostics, lc_stage := EAF_LMS_STAGE_CONNECT\<rparr>;
               (rc, control, w) = net_connect hal (lc_control c) server port 500 w;
               c = c\<lparr>lc_control := control\<rparr>
           in if rc \<noteq> EAF_OK then (rc, record_error c rc, w)
              else let c = c\<lparr>lc_server := server, lc_tx_sent := 0, lc_parser := eaf_lms_parser_init\<rparr>;
                       (rc, used, tx) = eaf_lms_helo (Some (lc_tx c)) (length (lc_tx c)) mac (Some ''Model=eaf,MaxSampleRate=96000,pcm'');
                       c = c\<lparr>lc_tx := (case tx of None \<Rightarrow> lc_tx c | Some tx \<Rightarrow> tx), lc_tx_used := used\<rparr>
                   in if rc \<noteq> EAF_OK
                      then let (control, w) = net_close hal (lc_control c) w in (rc, c\<lparr>lc_control := control\<rparr>, w)
                      else (EAF_OK, c, w))"

section \<open>HTTP response header\<close>

definition lower :: "u8 \<Rightarrow> u8" where
  "lower ch = (if byte CHR ''A'' \<le> ch \<and> ch \<le> byte CHR ''Z'' then ch + 32 else ch)"

definition key :: "u8 list \<Rightarrow> string \<Rightarrow> bool" where
  "key line name \<longleftrightarrow> length name \<le> length line \<and> map lower (take (length name) line) = ascii name"

text \<open>\<open>strstr\<close> for the line end: the text before the first CR LF, and what follows it.\<close>

fun split_line :: "u8 list \<Rightarrow> (u8 list \<times> u8 list) option" where
  "split_line (a # b # rest) =
     (if a = 13 \<and> b = 10 then Some ([], rest)
      else map_option (\<lambda>(line, rest). (a # line, rest)) (split_line (b # rest)))"
| "split_line text = None"

lemma split_line_shorter: "split_line str = Some (line, rest) \<Longrightarrow> length rest < length str"
proof (induction str arbitrary: line rest rule: split_line.induct)
  case (1 a b xs)
  show ?case
  proof (cases "a = 13 \<and> b = 10")
    case False
    then obtain line' where "split_line (b # xs) = Some (line', rest)" using "1.prems" by (auto split: if_splits)
    then show ?thesis using "1.IH" [OF False] by fastforce
  qed (use "1.prems" in auto)
qed simp_all

definition blank :: "u8 \<Rightarrow> bool" where
  "blank ch \<longleftrightarrow> ch = 32 \<or> ch = 9"

definition is_dec :: "u8 \<Rightarrow> bool" where
  "is_dec ch \<longleftrightarrow> byte CHR ''0'' \<le> ch \<and> ch \<le> byte CHR ''9''"

text \<open>The digit loop: \<open>None\<close> when the value does not fit in 64 bits.\<close>

fun content_length :: "u8 list \<Rightarrow> u64 \<Rightarrow> bool \<Rightarrow> (u64 \<times> bool \<times> u8 list) option" where
  "content_length [] v digit = Some (v, digit, [])"
| "content_length (ch # rest) v digit =
     (if is_dec ch
      then let d = ucast (ch - byte CHR ''0'')
           in if v > (- 1 - d) div 10 then None else content_length rest (v * 10 + d) True
      else Some (v, digit, ch # rest))"

definition header_content_type :: "'w eaf_lms_client_t \<Rightarrow> u8 list \<Rightarrow> 'w eaf_lms_client_t" where
  "header_content_type c line =
     (if key line ''content-type:''
      then let v = dropWhile blank (drop 13 line);
               size = length (http_content_type (lc_diagnostics c));
               n = (if length v \<ge> size then size - 1 else length v)
           in c\<lparr>lc_diagnostics := (lc_diagnostics c)
                \<lparr>http_content_type := (blit (http_content_type (lc_diagnostics c)) 0 (take n v))[n := 0]\<rparr>\<rparr>
      else c)"

definition header_content_length :: "'w eaf_lms_client_t \<Rightarrow> u8 list \<Rightarrow> eaf_result_t \<times> 'w eaf_lms_client_t" where
  "header_content_length c line =
     (if \<not> key line ''content-length:'' then (EAF_OK, c)
      else if lc_has_length c then (EAF_INVALID, c)
      else case content_length (dropWhile blank (drop 15 line)) 0 False of
        None \<Rightarrow> (EAF_INVALID, c)
      | Some (v, digit, rest) \<Rightarrow>
        if \<not> digit \<or> dropWhile blank rest \<noteq> [] then (EAF_INVALID, c)
        else (EAF_OK, c\<lparr>lc_remaining := v, lc_has_length := True, lc_diagnostics := (lc_diagnostics c)
               \<lparr>http_length_known := True, http_content_length := (if unat v > UINT32_MAX then - 1 else ucast v)\<rparr>\<rparr>))"

definition header_line :: "'w eaf_lms_client_t \<Rightarrow> u8 list \<Rightarrow> eaf_result_t \<times> 'w eaf_lms_client_t" where
  "header_line c line =
     (if key line ''transfer-encoding:'' \<or> key line ''content-encoding:'' \<or> key line ''icy-metaint:''
      then (EAF_UNSUPPORTED, c)
      else header_content_length (header_content_type c line) line)"

text \<open>The text is what precedes the terminating NUL.\<close>

function header_lines :: "'w eaf_lms_client_t \<Rightarrow> u8 list \<Rightarrow> eaf_result_t \<times> 'w eaf_lms_client_t" where
  "header_lines c text =
     (if text = [] \<or> take 2 text = [13, 10] then (EAF_OK, c)
      else case split_line text of None \<Rightarrow> (EAF_INVALID, c)
        | Some (line, rest) \<Rightarrow> and_then (header_line c line) (\<lambda>c. header_lines c rest))"
  by pat_completeness auto
termination
  by (relation "measure (\<lambda>(c, text). length text)") (auto dest: split_line_shorter)

declare header_lines.simps [simp del]

definition headers :: "'w eaf_lms_client_t \<Rightarrow> eaf_result_t \<times> 'w eaf_lms_client_t" where
  "headers c =
     (let p = lc_header c
      in if lc_header_used c < 12 \<or> (take 13 p \<noteq> ascii ''HTTP/1.0 200 '' \<and> take 13 p \<noteq> ascii ''HTTP/1.1 200 '')
         then (EAF_IO, c)
         else let c = c\<lparr>lc_diagnostics := (lc_diagnostics c)
                    \<lparr>http_status := ucast (p ! 9 - byte CHR ''0'') * 100 + ucast (p ! 10 - byte CHR ''0'') * 10 +
                       ucast (p ! 11 - byte CHR ''0'')\<rparr>\<rparr>
              in case split_line (takeWhile (\<lambda>ch. ch \<noteq> 0) p) of None \<Rightarrow> (EAF_INVALID, c)
                 | Some (line, rest) \<Rightarrow>
                   and_then (header_lines c rest) (\<lambda>c.
                     let c = c\<lparr>lc_headers_done := True, lc_step_progress := True\<rparr>;
                         c = (if lc_has_length c \<and> lc_remaining c = 0 then c\<lparr>lc_body_done := True\<rparr> else c)
                     in enqueue c (ascii ''RESP'') (take (lc_header_used c) (lc_header c))))"

text \<open>Bytes of a read go to the header until it is complete; the rest is body.\<close>

fun header_bytes :: "'w eaf_lms_client_t \<Rightarrow> u8 list \<Rightarrow> eaf_result_t \<times> 'w eaf_lms_client_t \<times> u8 list" where
  "header_bytes c [] = (EAF_OK, c, [])"
| "header_bytes c (ch # rest) =
     (if lc_headers_done c then (EAF_OK, c, ch # rest)
      else if lc_header_used c = EAF_LMS_MAX_PACKET then (EAF_INVALID, c, ch # rest)
      else if ch = 0 then (EAF_INVALID, c, rest)
      else let c = c\<lparr>lc_header := (lc_header c)[lc_header_used c := ch, lc_header_used c + 1 := 0], lc_header_used := lc_header_used c + 1\<rparr>
           in if lc_header_used c \<ge> 4 \<and> take 4 (drop (lc_header_used c - 4) (lc_header c)) = crlfcrlf
              then case headers c of (rc, c) \<Rightarrow> if rc \<noteq> EAF_OK then (rc, c, rest) else header_bytes c rest
              else header_bytes c rest)"

section \<open>Body bytes to PCM\<close>

definition ingress_fill :: "'w eaf_lms_client_t \<Rightarrow> u8 list \<Rightarrow> eaf_result_t \<times> 'w eaf_lms_client_t" where
  "ingress_fill c data =
     (let n = length data
      in if n = 0 then (EAF_OK, c)
         else if n > length (lc_ingress c) - lc_ingress_used c then (EAF_INVALID, c)
         else if lc_has_length c \<and> n > unat (lc_remaining c) then (EAF_INVALID, c)
         else let c = (if lc_has_length c
                       then c\<lparr>lc_remaining := lc_remaining c - of_nat n, lc_body_done := lc_remaining c - of_nat n = 0\<rparr>
                       else c)
              in (EAF_OK, c\<lparr>lc_bytes_received := lc_bytes_received c + of_nat n,
                    lc_ingress := blit (lc_ingress c) (lc_ingress_used c) data, lc_ingress_used := lc_ingress_used c + n\<rparr>))"

definition decode_sample :: "nat \<Rightarrow> bool \<Rightarrow> u8 list \<Rightarrow> nat \<Rightarrow> int" where
  "decode_sample width big_endian tail ch =
     (let raw = fold (\<lambda>b raw. push_bit 8 raw OR ucast (tail ! (ch * width + (if big_endian then b else width - b - 1))))
              [0..<width] (0 :: u32);
          bits = width * 8;
          sample = (if raw AND push_bit (bits - 1) 1 \<noteq> 0 then uint raw - 2 ^ bits else uint raw)
      in i32 (sample * 2 ^ (32 - bits)))"

definition decode_frame_pcm :: "'w eaf_lms_client_t \<Rightarrow> 'w eaf_lms_client_t" where
  "decode_frame_pcm c =
     (let channels = unat (num_channels (lc_format c))
      in c\<lparr>lc_pcm := fold (\<lambda>ch pcm. pcm[unat (lc_pcm_count c) * channels + ch := decode_sample (lc_width c) (lc_big_endian c) (lc_tail c) ch])
             [0..<channels] (lc_pcm c),
           lc_pcm_count := lc_pcm_count c + 1, lc_tail_used := 0\<rparr>)"

definition decode_byte :: "'w eaf_lms_client_t \<Rightarrow> u8 \<Rightarrow> 'w eaf_lms_client_t" where
  "decode_byte c b =
     (let c = c\<lparr>lc_tail := (lc_tail c)[lc_tail_used c := b], lc_tail_used := lc_tail_used c + 1\<rparr>
      in if lc_tail_used c \<noteq> lc_width c * unat (num_channels (lc_format c)) then c else decode_frame_pcm c)"

text \<open>The loop over the buffered bytes: the client and the bytes not consumed.\<close>

fun decode_bytes :: "'w eaf_lms_client_t \<Rightarrow> u8 list \<Rightarrow> 'w eaf_lms_client_t \<times> u8 list" where
  "decode_bytes c [] = (c, [])"
| "decode_bytes c (b # rest) =
     (if unat (lc_pcm_count c) < EAF_LMS_PCM_FRAMES then decode_bytes (decode_byte c b) rest else (c, b # rest))"

definition ingress_decode :: "'w eaf_lms_client_t \<Rightarrow> eaf_result_t \<times> 'w eaf_lms_client_t" where
  "ingress_decode c =
     (let (c, rest) = decode_bytes c (take (lc_ingress_used c) (lc_ingress c))
      in (EAF_OK, c\<lparr>lc_ingress := blit (lc_ingress c) 0 rest, lc_ingress_used := length rest\<rparr>))"

definition call_pcm :: "'w eaf_lms_client_t \<Rightarrow> u32 \<Rightarrow> 'w \<Rightarrow> u32 \<times> 'w" where
  "call_pcm c left w =
     (case cb_pcm (lc_callbacks c) of None \<Rightarrow> (0, w)
      | Some pcm \<Rightarrow> pcm (drop (unat (lc_pcm_sent c) * unat (num_channels (lc_format c))) (lc_pcm c)) left w)"

definition count_prefill :: "'w eaf_lms_client_t \<Rightarrow> u32 \<Rightarrow> eaf_result_t \<times> 'w eaf_lms_client_t" where
  "count_prefill c wrote =
     (if lc_buffered_output c \<and> \<not> lc_output_released c
      then if wrote > capacity_frames (lc_buffer_limits c) - lc_prefill_frames c then (EAF_INVALID, c)
           else (EAF_OK, c\<lparr>lc_prefill_frames := lc_prefill_frames c + wrote\<rparr>)
      else (EAF_OK, c))"

definition count_backpressure :: "'w eaf_lms_client_t \<Rightarrow> u32 \<Rightarrow> u32 \<Rightarrow> 'w eaf_lms_client_t" where
  "count_backpressure c left wrote =
     (let c = c\<lparr>lc_step_progress := (lc_step_progress c \<or> wrote \<noteq> 0)\<rparr>
      in if wrote < left
         then c\<lparr>lc_diagnostics := (lc_diagnostics c)\<lparr>backpressure_count := backpressure_count (lc_diagnostics c) + 1\<rparr>,
                lc_step_backpressure := True\<rparr>
         else c)"

definition flush_pcm :: "'w lms_state \<Rightarrow> eaf_result_t \<times> 'w lms_state" where
  "flush_pcm s =
     (case s of (c, w) \<Rightarrow>
      if lc_pcm_sent c \<ge> lc_pcm_count c then (EAF_OK, c, w)
      else let left = lc_pcm_count c - lc_pcm_sent c;
               c = c\<lparr>lc_stage := EAF_LMS_STAGE_PCM\<rparr>;
               (wrote, w) = call_pcm c left w
           in if wrote > left then (EAF_INVALID, c, w)
              else let c = c\<lparr>lc_pcm_sent := lc_pcm_sent c + wrote,
                      lc_diagnostics := (lc_diagnostics c)\<lparr>pcm_frames := pcm_frames (lc_diagnostics c) + ucast wrote\<rparr>\<rparr>;
                       (rc, c) = count_prefill c wrote
                   in if rc \<noteq> EAF_OK then (rc, c, w) else (EAF_OK, count_backpressure c left wrote, w))"

section \<open>One iteration\<close>

definition progress :: "'w lms_state \<Rightarrow> 'w lms_state" where
  "progress s = (case s of (c, w) \<Rightarrow> (c\<lparr>lc_step_progress := True\<rparr>, w))"

definition report_ready :: "'w hal_net \<Rightarrow> 'w lms_state \<Rightarrow> eaf_result_t \<times> 'w lms_state" where
  "report_ready hal s =
     and_then (status hal s ''STMl'' 0) (\<lambda>(c, w). (EAF_OK, progress (c\<lparr>lc_ready_sent := True\<rparr>, w)))"

definition call_release :: "'w eaf_lms_client_t \<Rightarrow> 'w \<Rightarrow> eaf_result_t \<times> 'w" where
  "call_release c w = (case cb_release (lc_callbacks c) of None \<Rightarrow> (EAF_INVALID, w) | Some release \<Rightarrow> release w)"

definition release_output :: "'w lms_state \<Rightarrow> eaf_result_t \<times> 'w lms_state" where
  "release_output s =
     (case s of (c, w) \<Rightarrow>
      let c = c\<lparr>lc_stage := EAF_LMS_STAGE_OUTPUT_START\<rparr>;
          (rc, w) = call_release c w
      in and_then (rc, c, w) (\<lambda>(c, w). (EAF_OK, progress (c\<lparr>lc_output_released := True\<rparr>, w))))"

definition report_eof :: "'w hal_net \<Rightarrow> 'w lms_state \<Rightarrow> eaf_result_t \<times> 'w lms_state" where
  "report_eof hal s =
     and_then (status hal s ''STMd'' 0) (\<lambda>(c, w). (EAF_OK, progress (c\<lparr>lc_eof_sent := True\<rparr>, w)))"

definition service_buffered :: "'w hal_net \<Rightarrow> 'w lms_state \<Rightarrow> eaf_result_t \<times> 'w lms_state" where
  "service_buffered hal s =
     (case s of (c, w) \<Rightarrow>
      if \<not> lc_buffered_output c \<or> lc_wait_cont c \<or>
         (lc_prefill_frames c < ready_frames (lc_buffer_limits c) \<and> \<not> lc_input_eof c) then (EAF_OK, c, w)
      else and_then (if lc_wait_start c \<and> \<not> lc_ready_sent c then report_ready hal (c, w) else (EAF_OK, c, w)) (\<lambda>(c, w).
           and_then (if \<not> lc_wait_start c \<and> \<not> lc_output_paused c \<and> \<not> lc_output_released c then release_output (c, w)
                     else (EAF_OK, c, w)) (\<lambda>(c, w).
           if lc_input_eof c \<and> lc_output_released c \<and> \<not> lc_eof_sent c then report_eof hal (c, w) else (EAF_OK, c, w))))"

text \<open>Decoded PCM to the output callback, then a refill from the ring.\<close>

definition drain_pcm :: "'w lms_state \<Rightarrow> eaf_result_t \<times> 'w lms_state" where
  "drain_pcm s =
     and_then (flush_pcm s) (\<lambda>(c, w).
       if lc_pcm_sent c \<noteq> lc_pcm_count c then (EAF_OK, c, w)
       else let (rc, c) = ingress_decode (c\<lparr>lc_pcm_count := 0, lc_pcm_sent := 0\<rparr>)
            in if rc \<noteq> EAF_OK then (rc, c, w)
               else if lc_pcm_count c = 0 then (EAF_OK, c, w)
               else flush_pcm (c\<lparr>lc_step_progress := True\<rparr>, w))"

definition finish_source :: "'w hal_net \<Rightarrow> 'w lms_state \<Rightarrow> eaf_result_t \<times> 'w lms_state" where
  "finish_source hal s =
     (case s of (c, w) \<Rightarrow>
      if lc_tail_used c \<noteq> 0 then (EAF_INVALID, c, w)
      else let c = c\<lparr>lc_step_progress := True\<rparr>;
               w = call_eof c w;
               c = c\<lparr>lc_input_eof := True\<rparr>;
               (http, w) = net_close hal (lc_http c) w;
               c = c\<lparr>lc_http := http\<rparr>
           in if lc_buffered_output c then service_buffered hal (c, w) else status hal (c, w) ''STMd'' 0)"

definition send_request :: "'w hal_net \<Rightarrow> 'w lms_state \<Rightarrow> eaf_result_t \<times> 'w lms_state" where
  "send_request hal s =
     (case s of (c, w) \<Rightarrow>
      let c = c\<lparr>lc_stage := EAF_LMS_STAGE_HTTP_SEND\<rparr>;
          (rc, n, w) = net_send hal (lc_http c) (take (lc_request_used c - lc_request_sent c) (drop (lc_request_sent c) (lc_request c))) w
      in if rc = EAF_AGAIN then (EAF_OK, c, w)
         else if rc \<noteq> EAF_OK then (rc, c, w)
         else (EAF_OK, c\<lparr>lc_request_sent := lc_request_sent c + n, lc_step_progress := (lc_step_progress c \<or> n \<noteq> 0)\<rparr>, w))"

definition receive_body :: "'w hal_net \<Rightarrow> 'w lms_state \<Rightarrow> eaf_result_t \<times> 'w lms_state" where
  "receive_body hal s =
     (case s of (c, w) \<Rightarrow>
      let space = length (lc_ingress c) - lc_ingress_used c;
          want = (if space < length (lc_rx c) then space else length (lc_rx c));
          c = c\<lparr>lc_stage := EAF_LMS_STAGE_HTTP_RECV\<rparr>;
          (rc, bytes, w) = net_recv hal (lc_http c) want w
      in if rc = EAF_AGAIN
         then (EAF_OK, c\<lparr>lc_diagnostics := (lc_diagnostics c)\<lparr>recv_again := recv_again (lc_diagnostics c) + 1\<rparr>\<rparr>, w)
         else if rc = EAF_EOF
         then if \<not> lc_headers_done c \<or> (lc_has_length c \<and> lc_remaining c \<noteq> 0) then (EAF_IO, c, w)
              else (EAF_OK, c\<lparr>lc_body_done := True, lc_step_progress := True\<rparr>, w)
         else if rc \<noteq> EAF_OK then (rc, c, w)
         else let c = c\<lparr>lc_rx := blit (lc_rx c) 0 bytes,
                    lc_diagnostics := (lc_diagnostics c)\<lparr>http_bytes := http_bytes (lc_diagnostics c) + of_nat (length bytes)\<rparr>,
                    lc_step_progress := (lc_step_progress c \<or> bytes \<noteq> []), lc_stage := EAF_LMS_STAGE_HEADERS\<rparr>;
                  (rc, c, body) = header_bytes c bytes
              in if rc \<noteq> EAF_OK then (rc, c, w)
                 else let (rc, c) = ingress_fill (c\<lparr>lc_stage := EAF_LMS_STAGE_DECODE\<rparr>) body in (rc, c, w))"

text \<open>The transfer part of \<open>pump_http\<close>, once the stream may be read.\<close>

definition pump_body :: "'w hal_net \<Rightarrow> 'w lms_state \<Rightarrow> eaf_result_t \<times> 'w lms_state" where
  "pump_body hal s =
     and_then (drain_pcm s) (\<lambda>(c, w).
       if lc_body_done c \<and> lc_ingress_used c = 0 \<and> lc_pcm_sent c = lc_pcm_count c then finish_source hal (c, w)
       else if lc_body_done c \<or> lc_ingress_used c \<ge> length (lc_ingress c) then (EAF_OK, c, w)
       else if lc_request_sent c < lc_request_used c then send_request hal (c, w)
       else receive_body hal (c, w))"

definition pump_http :: "'w hal_net \<Rightarrow> 'w lms_state \<Rightarrow> eaf_result_t \<times> 'w lms_state" where
  "pump_http hal s =
     (if \<not> lc_streaming (fst s) then (EAF_OK, s)
      else and_then (service_buffered hal s) (\<lambda>(c, w).
        if \<not> tcp_open (lc_http c) then (EAF_OK, c, w)
        else if lc_headers_done c \<and> lc_wait_cont c then (EAF_OK, c, w)
        else if \<not> lc_buffered_output c \<and> lc_headers_done c \<and> lc_wait_start c \<and>
                (lc_pcm_count c \<noteq> 0 \<or> lc_ingress_used c \<noteq> 0 \<or> lc_body_done c)
        then if \<not> lc_ready_sent c then report_ready hal (c, w) else (EAF_OK, c, w)
        else pump_body hal (c, w)))"

definition eaf_lms_client_close :: "'w hal_net \<Rightarrow> 'w lms_state \<Rightarrow> 'w lms_state" where
  "eaf_lms_client_close hal s =
     (case stop_stream hal s of (c, w) \<Rightarrow>
      let (control, w) = net_close hal (lc_control c) w
      in (c\<lparr>lc_control := control, lc_tx_used := 0, lc_tx_sent := 0\<rparr>, w))"

definition send_control :: "'w hal_net \<Rightarrow> 'w lms_state \<Rightarrow> eaf_result_t \<times> 'w lms_state" where
  "send_control hal s =
     (case s of (c, w) \<Rightarrow>
      if lc_tx_sent c < lc_tx_used c
      then let c = c\<lparr>lc_stage := EAF_LMS_STAGE_CONTROL_SEND\<rparr>;
               (rc, n, w) = net_send hal (lc_control c) (take (lc_tx_used c - lc_tx_sent c) (drop (lc_tx_sent c) (lc_tx c))) w;
               rc = (if rc = EAF_AGAIN then EAF_OK else rc)
           in if rc \<noteq> EAF_OK then (rc, c, w)
              else (EAF_OK, c\<lparr>lc_tx_sent := lc_tx_sent c + n, lc_step_progress := (lc_step_progress c \<or> n \<noteq> 0)\<rparr>, w)
      else (EAF_OK, c, w))"

definition receive_control :: "'w hal_net \<Rightarrow> 'w lms_state \<Rightarrow> eaf_result_t \<times> 'w lms_state" where
  "receive_control hal s =
     (case s of (c, w) \<Rightarrow>
      let c = c\<lparr>lc_stage := EAF_LMS_STAGE_CONTROL_RECV\<rparr>;
          (rc, incoming, w) = net_recv hal (lc_control c) 256 w
      in if rc = EAF_AGAIN then (EAF_OK, c, w)
         else if rc \<noteq> EAF_OK then (rc, c, w)
         else let c = c\<lparr>lc_step_progress := (lc_step_progress c \<or> incoming \<noteq> [])\<rparr>;
                  (rc, p, c, w) = eaf_lms_feed (Some (command hal)) (lc_parser c) (Some incoming) (length incoming) (c, w)
              in (rc, c\<lparr>lc_parser := p\<rparr>, w))"

definition eaf_lms_client_step :: "'w hal_net \<Rightarrow> 'w lms_state \<Rightarrow> eaf_result_t \<times> 'w lms_state" where
  "eaf_lms_client_step hal s =
     (case s of (c, w) \<Rightarrow>
      let c = c\<lparr>lc_step_progress := False, lc_step_backpressure := False\<rparr>
      in if \<not> tcp_open (lc_control c) then (EAF_STATE, c, w)
         else let (rc, c, w) = and_then (and_then (send_control hal (c, w)) (receive_control hal)) (pump_http hal)
              in if rc \<noteq> EAF_OK then (rc, eaf_lms_client_close hal (record_error c rc, w)) else (EAF_OK, c, w))"

function pump_loop ::
  "'w hal_net \<Rightarrow> u32 \<Rightarrow> u32 \<Rightarrow> u64 \<Rightarrow> 'w lms_state \<Rightarrow> eaf_lms_pump_result_t \<Rightarrow>
   eaf_result_t \<times> eaf_lms_pump_result_t \<times> 'w lms_state" where
  "pump_loop hal max_steps max_us start_us s result =
     (let (rc, c, w) = eaf_lms_client_step hal s;
          result = result\<lparr>pump_steps := pump_steps result + 1, progressed := (progressed result \<or> lc_step_progress c),
            backpressured := (backpressured result \<or> lc_step_backpressure c)\<rparr>
      in if rc \<noteq> EAF_OK \<or> \<not> lc_step_progress c then (rc, result, c, w)
         else let (late, w) = (if pump_steps result \<ge> max_steps then (True, w)
                    else let (now_us, w) = net_time_us hal w in (now_us - start_us \<ge> ucast max_us, w))
              in if late
                 then (EAF_OK, result\<lparr>budget_exhausted := True\<rparr>,
                       c\<lparr>lc_diagnostics := (lc_diagnostics c)\<lparr>budget_yields := budget_yields (lc_diagnostics c) + 1\<rparr>\<rparr>, w)
                 else pump_loop hal max_steps max_us start_us (c, w) result)"
  by pat_completeness auto

lemma pump_rank:
  assumes "\<not> (max_steps :: u32) \<le> steps + 1"
  shows "unat (max_steps - 1 - (steps + 1)) < unat (max_steps - 1 - steps)"
proof -
  have ne: "max_steps - 1 - steps \<noteq> 0" using assms by (auto simp: algebra_simps)
  have eq: "max_steps - 1 - (steps + 1) = (max_steps - 1 - steps) - 1" by (simp add: algebra_simps)
  have "unat (max_steps - 1 - steps - 1) = unat (max_steps - 1 - steps) - 1" by (rule unat_minus_one [OF ne])
  moreover have "0 < unat (max_steps - 1 - steps)" using ne unat_gt_0 by blast
  ultimately show ?thesis unfolding eq by linarith
qed

termination pump_loop
  by (relation "measure (\<lambda>(hal, max_steps, max_us, start_us, s, result). unat (max_steps - 1 - pump_steps result))")
    (auto dest: pump_rank split: if_splits)

declare pump_loop.simps [simp del]

definition eaf_lms_client_pump ::
  "'w hal_net \<Rightarrow> 'w lms_state \<Rightarrow> u32 \<Rightarrow> u32 \<Rightarrow> eaf_lms_pump_result_t \<Rightarrow>
   eaf_result_t \<times> eaf_lms_pump_result_t \<times> 'w lms_state" where
  "eaf_lms_client_pump hal s max_steps max_us result =
     (if max_steps = 0 \<or> max_steps > 64 \<or> max_us = 0 \<or> max_us > 10000 then (EAF_INVALID, result, s)
      else case s of (c, w) \<Rightarrow>
        let (start_us, w) = net_time_us hal w
        in pump_loop hal max_steps max_us start_us (c, w)
             \<lparr>pump_steps = 0, progressed = False, budget_exhausted = False, backpressured = False\<rparr>)"

definition eaf_lms_client_report_playback ::
  "'w hal_net \<Rightarrow> 'w lms_state \<Rightarrow> eaf_lms_playback_t option \<Rightarrow> eaf_result_t \<times> 'w lms_state" where
  "eaf_lms_client_report_playback hal s p =
     (case s of (c, w) \<Rightarrow>
      case p of None \<Rightarrow> (EAF_INVALID, c, w)
      | Some p \<Rightarrow>
        if queued_bytes p > buffer_bytes p then (EAF_INVALID, c, w)
        else if \<not> tcp_open (lc_control c) \<or> \<not> lc_streaming c \<or> lc_wait_cont c \<or> lc_wait_start c then (EAF_STATE, c, w)
        else if lc_started_sent c \<and> \<not> pb_started p then (EAF_STATE, c, w)
        else let first = pb_started p \<and> \<not> lc_started_sent c;
                 (rc, c, w) = status hal (c\<lparr>lc_playback := p, lc_stage := EAF_LMS_STAGE_STATUS\<rparr>, w)
                    (if first then ''STMs'' else ''STMt'') 0;
                 c = record_error c rc
             in (rc, if rc = EAF_OK \<and> first then c\<lparr>lc_started_sent := True\<rparr> else c, w))"

end
