(* ===== verification/LMS_Control_Props.thy ===== *)
theory LMS_Control_Props
  imports LMS_Client
begin

text \<open>
  The invariant of the LMS client (\<open>apps/lms/lms_client.c\<close>): array sizes, counters, callbacks and the
  stream protocol, and that the control side keeps it: status reports, commands of the
  server, start and stop of a stream.
\<close>

section \<open>Invariant\<close>

text \<open>The arrays of the client keep their sizes and the counters stay inside them.\<close>

definition arrays_ok :: "'w eaf_lms_client_t \<Rightarrow> bool" where
  "arrays_ok c \<longleftrightarrow>
     length (lc_tx c) = 4096 \<and> length (lc_request c) = EAF_LMS_MAX_PACKET \<and> length (lc_rx c) = 1024 \<and> length (lc_tail c) = 8 \<and>
     length (lc_header c) = EAF_LMS_MAX_PACKET + 1 \<and> length (lc_pcm c) = EAF_LMS_PCM_FRAMES * 2 \<and>
     length (lc_ingress c) = EAF_LMS_INGRESS_BYTES \<and> length (lc_opcode c) = 4 \<and>
     length (http_content_type (lc_diagnostics c)) = 32 \<and> length (error_opcode (lc_diagnostics c)) = 4"

definition counters_ok :: "'w eaf_lms_client_t \<Rightarrow> bool" where
  "counters_ok c \<longleftrightarrow>
     lc_tx_sent c \<le> lc_tx_used c \<and> lc_tx_used c \<le> 4096 \<and>
     lc_request_sent c \<le> lc_request_used c \<and> lc_request_used c \<le> EAF_LMS_MAX_PACKET \<and>
     lc_header_used c \<le> EAF_LMS_MAX_PACKET \<and> lc_ingress_used c \<le> EAF_LMS_INGRESS_BYTES \<and>
     lc_pcm_sent c \<le> lc_pcm_count c \<and> unat (lc_pcm_count c) \<le> EAF_LMS_PCM_FRAMES"

definition callbacks_ok :: "'w eaf_lms_callbacks_t \<Rightarrow> bool" where
  "callbacks_ok cb \<longleftrightarrow> cb_pcm cb \<noteq> None \<and> cb_stop cb \<noteq> None \<and> cb_eof cb \<noteq> None \<and>
     (cb_start cb \<noteq> None \<or> cb_start_buffered cb \<noteq> None) \<and> (cb_start_buffered cb \<noteq> None) = (cb_release cb \<noteq> None)"

definition has_release :: "'w eaf_lms_callbacks_t \<Rightarrow> bool" where
  "has_release cb \<longleftrightarrow> cb_release cb \<noteq> None"

definition frame_size :: "'w eaf_lms_client_t \<Rightarrow> nat" where
  "frame_size c = lc_width c * unat (num_channels (lc_format c))"

text \<open>The stream protocol.\<close>

definition stream_ok :: "'w eaf_lms_client_t \<Rightarrow> bool" where
  "stream_ok c \<longleftrightarrow>
     (lc_streaming c \<longrightarrow> 2 \<le> lc_width c \<and> lc_width c \<le> 4 \<and> num_channels (lc_format c) \<in> {1, 2} \<and> lc_tail_used c < frame_size c) \<and>
     (lc_streaming c \<or> \<not> tcp_open (lc_http c)) \<and>
     (lc_ready_sent c \<or> lc_started_sent c \<or> lc_output_released c \<or> lc_wait_cont c \<or> lc_wait_start c \<longrightarrow> lc_streaming c) \<and>
     (lc_streaming c \<and> lc_buffered_output c \<longrightarrow> 0 < ready_frames (lc_buffer_limits c) \<and>
        ready_frames (lc_buffer_limits c) \<le> capacity_frames (lc_buffer_limits c)) \<and>
     (lc_buffered_output c \<longrightarrow> has_release (lc_callbacks c)) \<and>
     lc_prefill_frames c \<le> capacity_frames (lc_buffer_limits c) \<and>
     (lc_output_released c \<longrightarrow> lc_buffered_output c \<and> (ready_frames (lc_buffer_limits c) \<le> lc_prefill_frames c \<or> lc_input_eof c)) \<and>
     (lc_eof_sent c \<longrightarrow> lc_input_eof c \<and> lc_output_released c) \<and>
     (lc_body_done c \<longrightarrow> lc_headers_done c \<and> (lc_has_length c \<longrightarrow> lc_remaining c = 0))"

definition lms_ok :: "'w eaf_lms_client_t \<Rightarrow> bool" where
  "lms_ok c \<longleftrightarrow> arrays_ok c \<and> counters_ok c \<and> callbacks_ok (lc_callbacks c) \<and> stream_ok c \<and> parser_safe (lc_parser c)"

text \<open>What the stream protocol does not depend on.\<close>

lemma stream_ok_frame [simp]:
  "stream_ok (c\<lparr>lc_control := x0\<rparr>) = stream_ok c"
  "stream_ok (c\<lparr>lc_parser := x1\<rparr>) = stream_ok c"
  "stream_ok (c\<lparr>lc_server := x2\<rparr>) = stream_ok c"
  "stream_ok (c\<lparr>lc_tx := x3\<rparr>) = stream_ok c"
  "stream_ok (c\<lparr>lc_request := x4\<rparr>) = stream_ok c"
  "stream_ok (c\<lparr>lc_rx := x5\<rparr>) = stream_ok c"
  "stream_ok (c\<lparr>lc_tail := x6\<rparr>) = stream_ok c"
  "stream_ok (c\<lparr>lc_header := x7\<rparr>) = stream_ok c"
  "stream_ok (c\<lparr>lc_tx_used := x8\<rparr>) = stream_ok c"
  "stream_ok (c\<lparr>lc_tx_sent := x9\<rparr>) = stream_ok c"
  "stream_ok (c\<lparr>lc_request_used := x10\<rparr>) = stream_ok c"
  "stream_ok (c\<lparr>lc_request_sent := x11\<rparr>) = stream_ok c"
  "stream_ok (c\<lparr>lc_header_used := x12\<rparr>) = stream_ok c"
  "stream_ok (c\<lparr>lc_pcm := x13\<rparr>) = stream_ok c"
  "stream_ok (c\<lparr>lc_pcm_count := x14\<rparr>) = stream_ok c"
  "stream_ok (c\<lparr>lc_pcm_sent := x15\<rparr>) = stream_ok c"
  "stream_ok (c\<lparr>lc_ingress := x16\<rparr>) = stream_ok c"
  "stream_ok (c\<lparr>lc_ingress_used := x17\<rparr>) = stream_ok c"
  "stream_ok (c\<lparr>lc_big_endian := x18\<rparr>) = stream_ok c"
  "stream_ok (c\<lparr>lc_playback := x19\<rparr>) = stream_ok c"
  "stream_ok (c\<lparr>lc_bytes_received := x20\<rparr>) = stream_ok c"
  "stream_ok (c\<lparr>lc_diagnostics := x21\<rparr>) = stream_ok c"
  "stream_ok (c\<lparr>lc_stage := x22\<rparr>) = stream_ok c"
  "stream_ok (c\<lparr>lc_opcode := x23\<rparr>) = stream_ok c"
  "stream_ok (c\<lparr>lc_step_progress := x24\<rparr>) = stream_ok c"
  "stream_ok (c\<lparr>lc_step_backpressure := x25\<rparr>) = stream_ok c"
  "stream_ok (c\<lparr>lc_output_paused := x26\<rparr>) = stream_ok c"
  by (simp_all add: stream_ok_def frame_size_def)

lemmas lms_ok_defs = lms_ok_def arrays_ok_def counters_ok_def

lemma lms_init_ok:
  assumes "eaf_lms_client_init (Some cb) = Some c"
  shows "lms_ok c"
proof -
  have "parser_safe eaf_lms_parser_init"
    using parser_init_ok by (simp add: parser_safe_def) (simp add: parser_ok_def)
  then show ?thesis using assms
    by (simp add: eaf_lms_client_init_def lms_ok_defs callbacks_ok_def stream_ok_def zero_tcp_def zero_diagnostics_def split: if_splits) auto
qed

lemma record_error_ok: "lms_ok c \<Longrightarrow> lms_ok (record_error c rc)"
  by (simp add: record_error_def Let_def lms_ok_defs)

lemma length_put_u32 [simp]: "length (put_u32 a off v) = length a"
  by (simp add: put_u32_def)

lemma length_ascii [simp]: "length (ascii s) = length s"
  by (simp add: ascii_def)

text \<open>The compaction and the append of \<open>enqueue\<close>.\<close>

lemma enqueue_ok:
  assumes "lms_ok c" and "length opcode = 4"
  shows "lms_ok (snd (enqueue c opcode body))"
proof -
  define d where "d = (if lc_tx_sent c \<noteq> 0
      then c\<lparr>lc_tx := blit (lc_tx c) 0 (take (lc_tx_used c - lc_tx_sent c) (drop (lc_tx_sent c) (lc_tx c))),
             lc_tx_used := lc_tx_used c - lc_tx_sent c, lc_tx_sent := 0\<rparr> else c)"
  have "lc_tx_used c - lc_tx_sent c \<le> 4096" using assms(1) unfolding lms_ok_defs by linarith
  then have d: "lms_ok d" "lc_tx_sent d = 0" using assms(1) by (simp_all add: d_def lms_ok_defs)
  let ?tx = "blit (put_u32 (blit (lc_tx d) (lc_tx_used d) opcode) (lc_tx_used d + 4) (of_nat (length body))) (lc_tx_used d + 8) body"
  have eq: "snd (enqueue c opcode body) =
      (if length body > length (lc_tx d) - 8 \<or> lc_tx_used d > length (lc_tx d) - 8 - length body then d
       else d\<lparr>lc_tx := ?tx, lc_tx_used := lc_tx_used d + (8 + length body)\<rparr>)"
    unfolding enqueue_def Let_def d_def [symmetric] by simp
  have len: "length (lc_tx d) = 4096" using d(1) by (simp add: lms_ok_defs)
  show ?thesis
  proof (cases "length body > length (lc_tx d) - 8 \<or> lc_tx_used d > length (lc_tx d) - 8 - length body")
    case True
    then show ?thesis unfolding eq using d(1) by simp
  next
    case False
    then have fits: "lc_tx_used d + (8 + length body) \<le> 4096" using len by linarith
    moreover have "length ?tx = 4096" using fits len assms(2) by simp
    ultimately have "lms_ok (d\<lparr>lc_tx := ?tx, lc_tx_used := lc_tx_used d + (8 + length body)\<rparr>)"
      using d by (simp add: lms_ok_defs)
    then show ?thesis unfolding eq using False by simp
  qed
qed

lemma status_ok:
  assumes "lms_ok (fst s)"
  shows "lms_ok (fst (snd (status hal s event ts)))"
proof -
  obtain c w where s: "s = (c, w)" by (cases s)
  obtain now w' where t: "net_time_us hal w = (now, w')" by (cases "net_time_us hal w")
  obtain rc c' where e: "enqueue c (ascii ''STAT'') (status_body c (ascii event) ts now) = (rc, c')" by fastforce
  show ?thesis using enqueue_ok [of c "ascii ''STAT''" "status_body c (ascii event) ts now"] assms s t e
    by (simp add: status_def)
qed

text \<open>Operations on the pair of client and world.\<close>

abbreviation keeps :: "eaf_result_t \<times> 'w lms_state \<Rightarrow> bool" where
  "keeps r \<equiv> lms_ok (fst (snd r))"

lemma and_then_ok: "keeps r \<Longrightarrow> (\<And>c w. lms_ok c \<Longrightarrow> keeps (f (c, w))) \<Longrightarrow> keeps (and_then r f)"
  by (cases r) (auto simp: and_then_def)

lemma status_keeps [intro]: "lms_ok c \<Longrightarrow> keeps (status hal (c, w) event ts)"
  using status_ok [of "(c, w)"] by simp

text \<open>A client between streams; its HTTP connection may be open already.\<close>

definition halted :: "'w eaf_lms_client_t \<Rightarrow> bool" where
  "halted c \<longleftrightarrow> arrays_ok c \<and> counters_ok c \<and> callbacks_ok (lc_callbacks c) \<and> parser_safe (lc_parser c) \<and>
     \<not> lc_streaming c \<and> \<not> lc_body_done c \<and> lc_prefill_frames c = 0 \<and> \<not> lc_output_released c \<and> \<not> lc_ready_sent c \<and>
     \<not> lc_started_sent c \<and> \<not> lc_eof_sent c \<and> \<not> lc_input_eof c \<and> \<not> lc_wait_cont c \<and> \<not> lc_wait_start c \<and>
     (lc_buffered_output c \<longrightarrow> has_release (lc_callbacks c))"

lemma halted_ok: "halted c \<Longrightarrow> \<not> tcp_open (lc_http c) \<Longrightarrow> lms_ok c"
  by (simp add: halted_def lms_ok_def stream_ok_def)

lemma halted_http [simp]: "halted (c\<lparr>lc_http := h\<rparr>) = halted c" "halted (c\<lparr>lc_stage := st\<rparr>) = halted c"
  by (simp_all add: halted_def arrays_ok_def counters_ok_def)

lemma stop_stream_ok:
  fixes w :: 'w
  assumes "net_ok hal" and "lms_ok c"
  defines "c' \<equiv> fst (stop_stream hal (c, w))"
  shows "halted c'" and "\<not> tcp_open (lc_http c')"
proof -
  obtain http w1 where h: "net_close hal (lc_http c) w = (http, w1)" by fastforce
  then show "\<not> tcp_open (lc_http c')" using net_close_ok [OF assms(1), of "lc_http c" w]
    by (simp add: c'_def stop_stream_def)
  show "halted c'" using assms(2) h by (simp add: c'_def halted_def stop_stream_def lms_ok_defs)
qed

lemma stream_setup_ok: "halted c \<Longrightarrow> halted (stream_setup c strm)"
  by (simp add: halted_def stream_setup_def arrays_ok_def counters_ok_def)

lemma stream_setup_format:
  assumes "\<not> stream_unsupported c strm"
  shows "2 \<le> lc_width (stream_setup c strm) \<and> lc_width (stream_setup c strm) \<le> 4 \<and>
    num_channels (lc_format (stream_setup c strm)) \<in> {1, 2} \<and> length (request strm) \<le> length (lc_request c)"
proof -
  have "byte CHR ''1'' \<le> sample_size strm" "sample_size strm \<le> byte CHR ''3''"
    using assms by (simp_all add: stream_unsupported_def not_less)
  then have "unat (sample_size strm - byte CHR ''0'') \<in> {1, 2, 3}"
    by (simp add: byte_def word_le_nat_alt unat_sub_if_size) linarith
  then show ?thesis using assms by (auto simp: stream_unsupported_def stream_setup_def mk_format_def byte_def not_less)
qed

lemma start_output_ok:
  assumes "halted c" and "start_output (c, w) strm = (rc, c', w')"
  shows "halted c' \<and> lc_width c' = lc_width c \<and> lc_format c' = lc_format c \<and>
    (rc = EAF_OK \<and> lc_buffered_output c' \<longrightarrow> 0 < ready_frames (lc_buffer_limits c') \<and>
        ready_frames (lc_buffer_limits c') \<le> capacity_frames (lc_buffer_limits c'))"
proof (cases "cb_start_buffered (lc_callbacks c)")
  case None
  then show ?thesis using assms by (auto simp: start_output_def halted_def arrays_ok_def counters_ok_def Let_def split: prod.splits)
next
  case (Some f)
  have "has_release (lc_callbacks c)" using Some assms(1) by (simp add: halted_def callbacks_ok_def has_release_def)
  then show ?thesis using Some assms
    by (auto simp: start_output_def halted_def arrays_ok_def counters_ok_def Let_def word_gt_0 not_less split: prod.splits if_splits)
qed

lemma begin_stream_ok:
  assumes "halted c" and "2 \<le> lc_width c" "lc_width c \<le> 4" "num_channels (lc_format c) \<in> {1, 2}"
    and "length (request strm) \<le> length (lc_request c)"
    and "lc_buffered_output c \<Longrightarrow> 0 < ready_frames (lc_buffer_limits c) \<and> ready_frames (lc_buffer_limits c) \<le> capacity_frames (lc_buffer_limits c)"
  shows "lms_ok (begin_stream c strm)"
proof -
  have "0 < unat (num_channels (lc_format c))" using assms(4) by (auto simp: unat_gt_0)
  then have "stream_ok (begin_stream c strm)"
    using assms by (simp add: stream_ok_def begin_stream_def frame_size_def halted_def)
  moreover have "arrays_ok (begin_stream c strm)" "counters_ok (begin_stream c strm)"
    using assms(1,5) by (simp_all add: begin_stream_def halted_def arrays_ok_def counters_ok_def)
  ultimately show ?thesis using assms(1) by (simp add: lms_ok_def halted_def begin_stream_def)
qed

lemma command_start_ok:
  assumes "net_ok hal" and "lms_ok c"
  shows "keeps (command_start hal (c, w) strm)"
proof -
  obtain c1 w1 where s1: "stop_stream hal (c, w) = (c1, w1)" by fastforce
  have h1: "halted c1" "\<not> tcp_open (lc_http c1)" using stop_stream_ok [OF assms, of w] s1 by simp_all
  let ?c2 = "stream_setup c1 strm"
  have h2: "halted ?c2" "lc_http ?c2 = lc_http c1" using stream_setup_ok [OF h1(1)] by (simp_all add: stream_setup_def)
  obtain rc http w2 where con: "net_connect hal (lc_http ?c2) (if server_ipv4 strm \<noteq> 0 then server_ipv4 strm else lc_server ?c2)
      (server_port strm) 500 w1 = (rc, http, w2)" by (metis prod_cases3)
  note http = net_connect_ok [OF assms(1) con]
  let ?c3 = "?c2\<lparr>lc_http := http\<rparr>\<lparr>lc_stage := EAF_LMS_STAGE_OUTPUT_START\<rparr>"
  obtain rc' c4 w3 where so: "start_output (?c3, w2) strm = (rc', c4, w3)" by (metis prod_cases3)
  have h4: "halted c4" "lc_width c4 = lc_width ?c2" "lc_format c4 = lc_format ?c2"
    "rc' = EAF_OK \<and> lc_buffered_output c4 \<Longrightarrow> 0 < ready_frames (lc_buffer_limits c4) \<and>
        ready_frames (lc_buffer_limits c4) \<le> capacity_frames (lc_buffer_limits c4)"
    using start_output_ok [OF _ so] h2 by auto
  obtain http' w4 where cl: "net_close hal (lc_http c4) w3 = (http', w4)" by fastforce
  have closed: "\<not> tcp_open http'" using net_close_ok [OF assms(1), of "lc_http c4" w3] cl by simp
  have fail: "lms_ok (c4\<lparr>lc_http := http'\<rparr>)" using h4(1) closed by (intro halted_ok) simp_all
  have noconn: "rc \<noteq> EAF_OK \<Longrightarrow> lms_ok (?c2\<lparr>lc_http := http\<rparr>)"
    using h2 h1(2) http by (intro halted_ok) simp_all
  have start: "keeps (status hal (begin_stream c4 strm, w3) ''STMc'' 0)" if "\<not> stream_unsupported c1 strm" "rc' = EAF_OK"
  proof -
    have req: "length (lc_request c4) = EAF_LMS_MAX_PACKET" "length (lc_request c1) = EAF_LMS_MAX_PACKET"
      using h4(1) h1(1) by (simp_all add: halted_def arrays_ok_def)
    show ?thesis using stream_setup_format [OF that(1)] h4 that(2) req by (intro status_keeps begin_stream_ok) auto
  qed
  show ?thesis using s1 con so cl h1 fail noconn start halted_ok [OF h1]
    by (auto simp: command_start_def Let_def)
qed

lemma command_audg_ok: "lms_ok c \<Longrightarrow> keeps (command_audg (c, w) p)"
  by (simp add: command_audg_def split: option.splits prod.splits)

lemma waits_ok:
  "stream_ok c \<Longrightarrow> stream_ok (c\<lparr>lc_wait_cont := False\<rparr>)" "stream_ok c \<Longrightarrow> stream_ok (c\<lparr>lc_wait_start := False\<rparr>)"
  unfolding stream_ok_def frame_size_def by simp_all

lemma command_cont_ok: "lms_ok c \<Longrightarrow> lms_ok (snd (command_cont c p))"
  by (simp add: command_cont_def lms_ok_defs waits_ok)

lemma call_pause_ok: "lms_ok c \<Longrightarrow> keeps (call_pause (c, w) paused)"
  by (simp add: call_pause_def split: option.splits prod.splits)

lemma paused_ok [simp]: "lms_ok (c\<lparr>lc_output_paused := b\<rparr>) = lms_ok c"
  by (simp add: lms_ok_defs)

lemma wait_start_ok: "lms_ok c \<Longrightarrow> lms_ok (c\<lparr>lc_wait_start := False\<rparr>)"
  by (simp add: lms_ok_defs waits_ok)

lemma command_unpause_ok: "lms_ok c \<Longrightarrow> keeps (command_unpause hal (c, w) strm)"
  by (auto simp: command_unpause_def wait_start_ok intro!: and_then_ok call_pause_ok status_keeps)

lemma command_pause_ok: "lms_ok c \<Longrightarrow> keeps (command_pause hal (c, w) strm)"
  by (auto simp: command_pause_def intro!: and_then_ok call_pause_ok status_keeps)

lemma command_strm_ok:
  assumes "net_ok hal" and "lms_ok c"
  shows "keeps (command_strm hal (c, w) p)"
proof (cases "eaf_lms_parse_stream (Some p)")
  case (Some strm)
  obtain c1 w1 where s1: "stop_stream hal (c, w) = (c1, w1)" by fastforce
  have "lms_ok c1" using stop_stream_ok [OF assms, of w] s1 halted_ok by auto
  then show ?thesis using Some assms s1 command_start_ok [OF assms, of w strm]
    by (simp add: command_strm_def Let_def command_unpause_ok command_pause_ok status_keeps)
qed (simp add: command_strm_def assms)

lemma command_ok:
  assumes "net_ok hal" and "lms_ok c" and "4 \<le> length p"
  shows "keeps (command hal (c, w) p)"
proof -
  let ?c = "c\<lparr>lc_stage := EAF_LMS_STAGE_COMMAND, lc_opcode := blit (lc_opcode c) 0 (take 4 p)\<rparr>"
  have "lms_ok ?c" using assms(2,3) by (simp add: lms_ok_defs)
  then show ?thesis using command_audg_ok [of ?c w p] command_cont_ok [of ?c p] command_strm_ok [OF assms(1), of ?c w p]
    by (auto simp: command_def Let_def split: prod.splits)
qed

end
