(* ===== verification/LMS_Client_Inv.thy ===== *)
theory LMS_Client_Inv
  imports LMS_Control_Props
begin

text \<open>
  The data side of the LMS client (\<open>apps/lms/lms_client.c\<close>) keeps the client's invariant: HTTP header,
  body transfer, decoding, delivery to the output callback, and the step that composes them with the
  control side.
\<close>

section \<open>The send queue\<close>

text \<open>A report changes the send queue only.\<close>

definition tx_only :: "'w eaf_lms_client_t \<Rightarrow> 'w eaf_lms_client_t \<Rightarrow> bool" where
  "tx_only c c' \<longleftrightarrow> (\<exists>tx u t. c' = c\<lparr>lc_tx := tx, lc_tx_used := u, lc_tx_sent := t\<rparr>)"

lemma tx_onlyI: "c' = c\<lparr>lc_tx := tx, lc_tx_used := u, lc_tx_sent := t\<rparr> \<Longrightarrow> tx_only c c'"
  unfolding tx_only_def by blast

lemma tx_only_update:
  assumes "tx_only c d"
  shows "tx_only c (d\<lparr>lc_tx := tx, lc_tx_used := u\<rparr>)"
proof -
  obtain tx' u' t where "d = c\<lparr>lc_tx := tx', lc_tx_used := u', lc_tx_sent := t\<rparr>" using assms unfolding tx_only_def by blast
  then show ?thesis by (intro tx_onlyI [where tx = tx and u = u and t = t]) simp
qed

lemma enqueue_frame: "tx_only c (snd (enqueue c opcode body))"
proof -
  define d where "d = (if lc_tx_sent c \<noteq> 0
      then c\<lparr>lc_tx := blit (lc_tx c) 0 (take (lc_tx_used c - lc_tx_sent c) (drop (lc_tx_sent c) (lc_tx c))),
             lc_tx_used := lc_tx_used c - lc_tx_sent c, lc_tx_sent := 0\<rparr> else c)"
  have "tx_only c c" by (rule tx_onlyI [where tx = "lc_tx c" and u = "lc_tx_used c" and t = "lc_tx_sent c"]) simp
  then have "tx_only c d" unfolding d_def by (auto intro: tx_onlyI)
  then show ?thesis using tx_only_update unfolding enqueue_def Let_def d_def [symmetric] by auto
qed

lemma status_frame: "tx_only c (fst (snd (status hal (c, w) event ts)))"
proof -
  obtain now w' where t: "net_time_us hal w = (now, w')" by (cases "net_time_us hal w")
  obtain rc c' where e: "enqueue c (ascii ''STAT'') (status_body c (ascii event) ts now) = (rc, c')" by fastforce
  then show ?thesis using enqueue_frame [of c "ascii ''STAT''" "status_body c (ascii event) ts now"] t by (simp add: status_def)
qed

section \<open>The HTTP header\<close>

lemma diagnostics_ok:
  assumes "lms_ok c" and "length (http_content_type d) = 32" "length (error_opcode d) = 4"
  shows "lms_ok (c\<lparr>lc_diagnostics := d\<rparr>)"
  using assms by (simp add: lms_ok_defs)

lemma stage_ok [simp]: "lms_ok (c\<lparr>lc_stage := st\<rparr>) = lms_ok c"
  "lms_ok (c\<lparr>lc_step_progress := b\<rparr>) = lms_ok c" "lms_ok (c\<lparr>lc_step_backpressure := b\<rparr>) = lms_ok c"
  by (simp_all add: lms_ok_defs)

text \<open>While the header is parsed, only the length and the diagnostics change.\<close>

definition header_frame :: "'w eaf_lms_client_t \<Rightarrow> 'w eaf_lms_client_t \<Rightarrow> bool" where
  "header_frame c c' \<longleftrightarrow> (\<exists>r h d. c' = c\<lparr>lc_remaining := r, lc_has_length := h, lc_diagnostics := d\<rparr> \<and>
     length (http_content_type d) = 32 \<and> length (error_opcode d) = 4)"

lemma header_frameI:
  "c' = c\<lparr>lc_remaining := r, lc_has_length := h, lc_diagnostics := d\<rparr> \<Longrightarrow> length (http_content_type d) = 32 \<Longrightarrow>
   length (error_opcode d) = 4 \<Longrightarrow> header_frame c c'"
  unfolding header_frame_def by blast

lemma header_frame_trans: "header_frame a b \<Longrightarrow> header_frame b c \<Longrightarrow> header_frame a c"
  unfolding header_frame_def by (elim exE conjE) (simp, blast)

lemma header_frame_ok:
  assumes "header_frame c c'" and "lms_ok c" and "\<not> lc_body_done c"
  shows "lms_ok c' \<and> \<not> lc_body_done c'"
proof -
  obtain r h d where c': "c' = c\<lparr>lc_remaining := r, lc_has_length := h, lc_diagnostics := d\<rparr>"
    "length (http_content_type d) = 32" "length (error_opcode d) = 4"
    using assms(1) by (auto simp: header_frame_def)
  have "stream_ok c'" using assms(2,3) unfolding c' lms_ok_def stream_ok_def frame_size_def by simp
  then show ?thesis using assms(2,3) c' by (simp add: lms_ok_defs)
qed

lemma header_line_frame:
  assumes "length (http_content_type (lc_diagnostics c)) = 32" and "length (error_opcode (lc_diagnostics c)) = 4"
  shows "header_frame c (snd (header_line c line))"
proof -
  let ?c = "header_content_type c line"
  have 1: "\<exists>d. ?c = c\<lparr>lc_diagnostics := d\<rparr> \<and> length (http_content_type d) = 32 \<and> length (error_opcode d) = 4"
  proof (cases "key line ''content-type:''")
    case True
    let ?v = "dropWhile blank (drop 13 line)"
    have "length (take (if 32 \<le> length ?v then 31 else length ?v) ?v) \<le> 32" by simp
    then have "length (blit (http_content_type (lc_diagnostics c)) 0 (take (if 32 \<le> length ?v then 31 else length ?v) ?v)) = 32"
      using assms(1) by (subst length_blit) simp_all
    then show ?thesis using True assms
      by (intro exI [of _ "lc_diagnostics ?c"]) (simp add: header_content_type_def Let_def)
  next
    case False
    then show ?thesis using assms by (intro exI [of _ "lc_diagnostics c"]) (simp add: header_content_type_def)
  qed
  then obtain d where d: "?c = c\<lparr>lc_diagnostics := d\<rparr>" "length (http_content_type d) = 32" "length (error_opcode d) = 4" by blast
  have same: "header_frame c c" "header_frame c ?c"
    using assms d by (auto intro: header_frameI [where r = "lc_remaining c" and h = "lc_has_length c" and d = "lc_diagnostics c"]
      header_frameI [where r = "lc_remaining c" and h = "lc_has_length c" and d = d])
  have "header_frame c (snd (header_content_length ?c line))"
  proof (cases "key line ''content-length:'' \<and> \<not> lc_has_length ?c")
    case False
    then show ?thesis using same(2) by (auto simp: header_content_length_def)
  next
    case True
    show ?thesis
    proof (cases "content_length (dropWhile blank (drop 15 line)) 0 False")
      case None
      then show ?thesis using True same(2) by (simp add: header_content_length_def)
    next
      case (Some v)
      obtain n digit rest where v: "v = (n, digit, rest)" by (cases v)
      let ?d = "d\<lparr>http_length_known := True, http_content_length := (if unat n > UINT32_MAX then - 1 else ucast n)\<rparr>"
      have "header_frame c (c\<lparr>lc_remaining := n, lc_has_length := True, lc_diagnostics := ?d\<rparr>)"
        using d by (intro header_frameI [OF refl]) simp_all
      moreover have "?c\<lparr>lc_remaining := n, lc_has_length := True, lc_diagnostics := (lc_diagnostics ?c)
          \<lparr>http_length_known := True, http_content_length := (if unat n > UINT32_MAX then - 1 else ucast n)\<rparr>\<rparr> =
          c\<lparr>lc_remaining := n, lc_has_length := True, lc_diagnostics := ?d\<rparr>"
        unfolding d(1) by simp
      ultimately show ?thesis using True Some v same(2) by (simp add: header_content_length_def)
    qed
  qed
  then show ?thesis using same by (simp add: header_line_def)
qed

lemma header_lines_frame:
  assumes "length (http_content_type (lc_diagnostics c)) = 32" and "length (error_opcode (lc_diagnostics c)) = 4"
  shows "header_frame c (snd (header_lines c str))"
  using assms
proof (induction c str rule: header_lines.induct)
  case (1 c str)
  have same: "header_frame c c" using 1(2,3) 
    by (intro header_frameI [where r = "lc_remaining c" and h = "lc_has_length c" and d = "lc_diagnostics c"]) simp_all
  show ?case
  proof (cases "str = [] \<or> take 2 str = [13, 10] \<or> split_line str = None")
    case True
    then show ?thesis using same by (subst header_lines.simps) auto
  next
    case False
    then obtain line rest where l: "split_line str = Some (line, rest)" by fastforce
    obtain rc c' where h: "header_line c line = (rc, c')" by fastforce
    have f: "header_frame c c'" using header_line_frame [OF 1(2,3), of line] h by simp
    then have len: "length (http_content_type (lc_diagnostics c')) = 32" "length (error_opcode (lc_diagnostics c')) = 4"
      by (auto simp: header_frame_def)
    have "header_frame c' (snd (header_lines c' rest))"
      using 1(1) [OF _ l refl, of c'] False len by blast
    then show ?thesis using False l h f header_frame_trans [OF f]
      by (subst header_lines.simps) (auto simp: and_then_def)
  qed
qed

lemma headers_ok:
  assumes "lms_ok c" and "\<not> lc_body_done c"
  shows "lms_ok (snd (headers c)) \<and> lc_streaming (snd (headers c)) = lc_streaming c"
proof -
  define d where "d = c\<lparr>lc_diagnostics := (lc_diagnostics c)
      \<lparr>http_status := ucast (lc_header c ! 9 - byte CHR ''0'') * 100 + ucast (lc_header c ! 10 - byte CHR ''0'') * 10 +
         ucast (lc_header c ! 11 - byte CHR ''0'')\<rparr>\<rparr>"
  have d: "lms_ok d" "\<not> lc_body_done d" "lc_streaming d = lc_streaming c" using assms by (simp_all add: d_def lms_ok_defs)
  show ?thesis
  proof (cases "split_line (takeWhile (\<lambda>ch. ch \<noteq> 0) (lc_header c))")
    case None
    then show ?thesis using assms d unfolding headers_def Let_def d_def [symmetric] by simp
  next
    case (Some lr)
    obtain line rest where lr: "lr = (line, rest)" by (cases lr)
    obtain rc e where e: "header_lines d rest = (rc, e)" by fastforce
    have f: "header_frame d e" using header_lines_frame [of d rest] d(1) e by (simp add: lms_ok_defs)
    then have ok: "lms_ok e" "\<not> lc_body_done e" using header_frame_ok d by blast+
    have st: "lc_streaming e = lc_streaming c" using f d(3) by (auto simp: header_frame_def)
    let ?f = "e\<lparr>lc_headers_done := True, lc_step_progress := True\<rparr>"
    have "stream_ok ?f" using ok unfolding lms_ok_def stream_ok_def frame_size_def by simp
    then have f: "lms_ok ?f" using ok(1) by (simp add: lms_ok_defs)
    have g: "lms_ok (?f\<lparr>lc_body_done := True\<rparr>)" if "lc_remaining e = 0"
    proof -
      have "stream_ok (?f\<lparr>lc_body_done := True\<rparr>)" using ok that unfolding lms_ok_def stream_ok_def frame_size_def by simp
      then show ?thesis using ok(1) by (simp add: lms_ok_defs)
    qed
    have four: "length (ascii ''RESP'') = 4" by simp
    have eq: "lc_streaming (snd (enqueue x op b)) = lc_streaming x" for x :: "'a eaf_lms_client_t" and op b
      using enqueue_frame [of x op b] by (auto simp: tx_only_def)
    show ?thesis using assms(1) d ok(1) st Some lr e enqueue_ok [OF f four] enqueue_ok [OF g four]
      unfolding headers_def Let_def d_def [symmetric] by (simp add: and_then_def eq)
  qed
qed

lemma header_bytes_ok:
  assumes "lms_ok c" and "header_bytes c bytes = (rc, c', body)"
  shows "lms_ok c' \<and> lc_streaming c' = lc_streaming c \<and> (rc = EAF_OK \<and> body \<noteq> [] \<longrightarrow> lc_headers_done c')"
  using assms
proof (induction c bytes rule: header_bytes.induct)
  case (2 c ch rest)
  let ?d = "c\<lparr>lc_header := (lc_header c)[lc_header_used c := ch, lc_header_used c + 1 := 0], lc_header_used := lc_header_used c + 1\<rparr>"
  show ?case
  proof (cases "lc_headers_done c \<or> lc_header_used c = EAF_LMS_MAX_PACKET \<or> ch = 0")
    case True
    then show ?thesis using 2(3,4) by (auto split: if_splits)
  next
    case False
    have "\<not> lc_body_done c" using False 2(3) by (auto simp: lms_ok_def stream_ok_def)
    then have d: "lms_ok ?d" "\<not> lc_body_done ?d" using 2(3) False by (simp_all add: lms_ok_defs)
    show ?thesis
    proof (cases "lc_header_used ?d \<ge> 4 \<and> take 4 (drop (lc_header_used ?d - 4) (lc_header ?d)) = crlfcrlf")
      case True
      obtain rc1 c1 where h: "headers ?d = (rc1, c1)" by fastforce
      have "lms_ok c1" "lc_streaming c1 = lc_streaming c" using headers_ok [OF d] h by simp_all
      then show ?thesis using 2(1) [OF _ _ _ refl True h [symmetric]] 2(4) False True h
        by (auto simp: Let_def split: if_splits)
    next
      case no: False
      then show ?thesis using 2(2) [OF _ _ _ refl no d(1)] 2(4) False by (auto simp: Let_def)
    qed
  qed
qed simp

section \<open>The body\<close>

lemma ingress_fill_ok:
  assumes "lms_ok c" and "data \<noteq> [] \<longrightarrow> lc_headers_done c"
  shows "lms_ok (snd (ingress_fill c data))"
proof -
  let ?n = "length data"
  define d where "d = (if lc_has_length c
      then c\<lparr>lc_remaining := lc_remaining c - of_nat ?n, lc_body_done := lc_remaining c - of_nat ?n = 0\<rparr> else c)"
  have "stream_ok d" if "data \<noteq> []"
    using assms that unfolding d_def lms_ok_def stream_ok_def frame_size_def by simp
  then have d: "lms_ok d" if "data \<noteq> []" using assms(1) that by (simp add: d_def lms_ok_defs)
  have eq: "snd (ingress_fill c data) =
      (if ?n = 0 \<or> ?n > length (lc_ingress c) - lc_ingress_used c \<or> lc_has_length c \<and> ?n > unat (lc_remaining c) then c
       else d\<lparr>lc_bytes_received := lc_bytes_received d + of_nat ?n,
              lc_ingress := blit (lc_ingress d) (lc_ingress_used d) data, lc_ingress_used := lc_ingress_used d + ?n\<rparr>)"
    unfolding ingress_fill_def Let_def d_def [symmetric] by auto
  show ?thesis
  proof (cases "?n = 0 \<or> ?n > length (lc_ingress c) - lc_ingress_used c \<or> lc_has_length c \<and> ?n > unat (lc_remaining c)")
    case True
    then show ?thesis unfolding eq using assms(1) by simp
  next
    case False
    have same: "lc_ingress d = lc_ingress c" "lc_ingress_used d = lc_ingress_used c" by (simp_all add: d_def)
    have len: "length (lc_ingress c) = EAF_LMS_INGRESS_BYTES" "lc_ingress_used c \<le> EAF_LMS_INGRESS_BYTES"
      using assms(1) by (simp_all add: lms_ok_defs)
    then have fits: "lc_ingress_used d + ?n \<le> EAF_LMS_INGRESS_BYTES" using False same by linarith
    then have "length (blit (lc_ingress d) (lc_ingress_used d) data) = EAF_LMS_INGRESS_BYTES" using len same by simp
    then have "lms_ok (d\<lparr>lc_bytes_received := lc_bytes_received d + of_nat ?n,
        lc_ingress := blit (lc_ingress d) (lc_ingress_used d) data, lc_ingress_used := lc_ingress_used d + ?n\<rparr>)"
      using d False fits by (simp add: lms_ok_defs)
    then show ?thesis unfolding eq if_not_P [OF False] .
  qed
qed

lemma word_advance:
  assumes "(a :: 'a::len word) \<le> b" and "n \<le> b - a"
  shows "a + n \<le> b" and "unat (a + n) = unat a + unat n"
proof -
  have n: "unat a + unat n \<le> unat b" using assms unat_sub [OF assms(1)] by (simp add: word_le_nat_alt)
  then have "unat a + unat n < 2 ^ LENGTH('a)" using unsigned_less [of b, where ?'a = nat] by (rule le_less_trans)
  then show "unat (a + n) = unat a + unat n" by (simp add: unat_word_ariths)
  with n show "a + n \<le> b" by (simp add: word_le_nat_alt)
qed

lemma count_prefill_ok:
  assumes "lms_ok c"
  shows "lms_ok (snd (count_prefill c wrote))"
proof -
  have "stream_ok (c\<lparr>lc_prefill_frames := lc_prefill_frames c + wrote\<rparr>)"
    if "\<not> lc_output_released c" "\<not> capacity_frames (lc_buffer_limits c) - lc_prefill_frames c < wrote"
  proof -
    have "lc_prefill_frames c \<le> capacity_frames (lc_buffer_limits c)" using assms by (simp add: lms_ok_def stream_ok_def)
    then have "lc_prefill_frames c + wrote \<le> capacity_frames (lc_buffer_limits c)"
      using word_advance(1) that(2) by (simp add: not_less)
    then show ?thesis using assms that unfolding lms_ok_def stream_ok_def frame_size_def by simp
  qed
  then show ?thesis using assms by (simp add: count_prefill_def lms_ok_defs)
qed

lemma count_backpressure_ok: "lms_ok c \<Longrightarrow> lms_ok (count_backpressure c left wrote)"
  by (simp add: count_backpressure_def Let_def lms_ok_defs)

lemma flush_pcm_ok:
  assumes "lms_ok c"
  shows "keeps (flush_pcm (c, w))"
proof (cases "lc_pcm_sent c \<ge> lc_pcm_count c")
  case True
  then show ?thesis using assms by (simp add: flush_pcm_def)
next
  case False
  let ?left = "lc_pcm_count c - lc_pcm_sent c"
  obtain wrote w' where cb: "call_pcm (c\<lparr>lc_stage := EAF_LMS_STAGE_PCM\<rparr>) ?left w = (wrote, w')" by fastforce
  let ?d = "c\<lparr>lc_stage := EAF_LMS_STAGE_PCM, lc_pcm_sent := lc_pcm_sent c + wrote,
      lc_diagnostics := (lc_diagnostics c)\<lparr>pcm_frames := pcm_frames (lc_diagnostics c) + ucast wrote\<rparr>\<rparr>"
  have d: "lms_ok ?d" if "wrote \<le> ?left"
    using assms that word_advance(1) [of "lc_pcm_sent c" "lc_pcm_count c" wrote] by (simp add: lms_ok_defs)
  obtain rc e where e: "count_prefill ?d wrote = (rc, e)" by fastforce
  have "lms_ok e" if "wrote \<le> ?left" using count_prefill_ok [OF d [OF that], of wrote] e by simp
  then show ?thesis using assms False cb e count_backpressure_ok [of e ?left wrote]
    by (auto simp: flush_pcm_def Let_def not_less)
qed

text \<open>Decoding: the byte goes to the frame under construction, a complete frame to the PCM chunk.\<close>

lemma decode_byte_ok:
  assumes "lms_ok c" and "lc_streaming c" and "unat (lc_pcm_count c) < EAF_LMS_PCM_FRAMES"
  shows "lms_ok (decode_byte c b) \<and> lc_streaming (decode_byte c b)"
proof -
  let ?d = "c\<lparr>lc_tail := (lc_tail c)[lc_tail_used c := b], lc_tail_used := lc_tail_used c + 1\<rparr>"
  let ?fs = "lc_width c * unat (num_channels (lc_format c))"
  have st: "lc_tail_used c < ?fs" "stream_ok c" using assms(1,2) by (simp_all add: lms_ok_def stream_ok_def frame_size_def)
  have count: "unat (lc_pcm_count c + 1) = unat (lc_pcm_count c) + 1" using assms(3) by (simp add: unat_word_ariths)
  have mono: "lc_pcm_sent c \<le> lc_pcm_count c + 1"
    using assms(1) count by (simp add: lms_ok_defs word_le_nat_alt)
  show ?thesis
  proof (cases "lc_tail_used c + 1 = ?fs")
    case False
    have "stream_ok ?d" using st False assms(2) unfolding stream_ok_def frame_size_def by simp
    then show ?thesis using assms(1,2) False by (simp add: decode_byte_def lms_ok_defs)
  next
    case True
    let ?p = "fold (\<lambda>ch pcm. pcm[unat (lc_pcm_count c) * unat (num_channels (lc_format c)) + ch :=
        decode_sample (lc_width c) (lc_big_endian c) (lc_tail ?d) ch]) [0..<unat (num_channels (lc_format c))] (lc_pcm c)"
    have len: "length (fold (\<lambda>ch pcm. pcm[f ch := g ch]) xs pcm) = length pcm" for f g and xs :: "nat list" and pcm :: "int list"
      by (induction xs arbitrary: pcm) simp_all
    have eq: "decode_byte c b = ?d\<lparr>lc_pcm := ?p, lc_pcm_count := lc_pcm_count c + 1, lc_tail_used := 0\<rparr>"
      using True by (simp add: decode_byte_def decode_frame_pcm_def Let_def)
    have "0 < ?fs" using st(1) by linarith
    then have "stream_ok (decode_byte c b)" using st assms(2) unfolding eq stream_ok_def frame_size_def by simp
    then show ?thesis using assms count mono len unfolding eq by (simp add: lms_ok_defs)
  qed
qed

lemma decode_bytes_ok:
  assumes "lms_ok c" and "lc_streaming c" and "decode_bytes c bytes = (c', rest)"
  shows "lms_ok c' \<and> lc_streaming c' \<and> length rest \<le> length bytes"
  using assms
proof (induction c bytes rule: decode_bytes.induct)
  case (2 c b bytes)
  show ?case
  proof (cases "unat (lc_pcm_count c) < EAF_LMS_PCM_FRAMES")
    case True
    then show ?thesis using 2(1) [OF True] 2(2,3,4) decode_byte_ok [OF 2(2,3) True, of b] by auto
  qed (use 2 in auto)
qed simp

lemma ingress_decode_ok:
  assumes "lms_ok c" and "lc_streaming c"
  shows "lms_ok (snd (ingress_decode c)) \<and> lc_streaming (snd (ingress_decode c))"
proof -
  obtain c' rest where r: "decode_bytes c (take (lc_ingress_used c) (lc_ingress c)) = (c', rest)" by fastforce
  have d: "lms_ok c'" "lc_streaming c'" "length rest \<le> length (take (lc_ingress_used c) (lc_ingress c))"
    using decode_bytes_ok [OF assms r] by auto
  then have "length rest \<le> EAF_LMS_INGRESS_BYTES" using assms(1) by (simp add: lms_ok_defs)
  then show ?thesis using d r by (simp add: ingress_decode_def lms_ok_defs)
qed

section \<open>Every operation keeps the invariant\<close>

definition running :: "'w eaf_lms_client_t \<Rightarrow> bool" where
  "running c \<longleftrightarrow> lms_ok c \<and> lc_streaming c"

definition serviced :: "'w eaf_lms_client_t \<Rightarrow> bool" where
  "serviced c \<longleftrightarrow> running c \<and> lc_buffered_output c \<and>
     (ready_frames (lc_buffer_limits c) \<le> lc_prefill_frames c \<or> lc_input_eof c)"

lemma status_serviced:
  assumes "serviced c"
  shows "serviced (fst (snd (status hal (c, w) event ts)))"
  using assms status_keeps [of c hal w event ts] status_frame [of c hal w event ts]
  by (auto simp: serviced_def running_def tx_only_def)

lemma status_running:
  assumes "running c"
  shows "running (fst (snd (status hal (c, w) event ts)))"
  using assms status_keeps [of c hal w event ts] status_frame [of c hal w event ts]
  by (auto simp: running_def tx_only_def)

lemma flags_ok:
  "running c \<Longrightarrow> lms_ok (c\<lparr>lc_ready_sent := True\<rparr>)" "running c \<Longrightarrow> lms_ok (c\<lparr>lc_started_sent := True\<rparr>)"
  "serviced c \<Longrightarrow> lms_ok (c\<lparr>lc_output_released := True\<rparr>)"
  "lms_ok c \<Longrightarrow> lc_input_eof c \<Longrightarrow> lc_output_released c \<Longrightarrow> lms_ok (c\<lparr>lc_eof_sent := True\<rparr>)"
  "lms_ok c \<Longrightarrow> lms_ok (c\<lparr>lc_input_eof := True\<rparr>)" "lms_ok c \<Longrightarrow> \<not> tcp_open h \<Longrightarrow> lms_ok (c\<lparr>lc_http := h\<rparr>)"
proof -
  show "running c \<Longrightarrow> lms_ok (c\<lparr>lc_ready_sent := True\<rparr>)" "running c \<Longrightarrow> lms_ok (c\<lparr>lc_started_sent := True\<rparr>)"
    by (simp_all add: running_def lms_ok_defs) (simp_all add: stream_ok_def frame_size_def)
  show "serviced c \<Longrightarrow> lms_ok (c\<lparr>lc_output_released := True\<rparr>)"
    by (simp add: serviced_def running_def lms_ok_defs) (simp add: stream_ok_def frame_size_def)
  show "lms_ok c \<Longrightarrow> lc_input_eof c \<Longrightarrow> lc_output_released c \<Longrightarrow> lms_ok (c\<lparr>lc_eof_sent := True\<rparr>)"
    by (simp add: lms_ok_defs) (simp add: stream_ok_def frame_size_def)
  show "lms_ok c \<Longrightarrow> lms_ok (c\<lparr>lc_input_eof := True\<rparr>)"
    by (simp add: lms_ok_defs) (simp add: stream_ok_def frame_size_def)
  show "lms_ok c \<Longrightarrow> \<not> tcp_open h \<Longrightarrow> lms_ok (c\<lparr>lc_http := h\<rparr>)"
    by (simp add: lms_ok_defs) (simp add: stream_ok_def frame_size_def)
qed

lemma progress_simps [simp]: "fst (progress (c, w)) = c\<lparr>lc_step_progress := True\<rparr>" "snd (progress s) = snd s"
  by (simp_all add: progress_def split: prod.splits)

lemma serviced_progress [simp]:
  "serviced (c\<lparr>lc_step_progress := b\<rparr>) = serviced c" "serviced (c\<lparr>lc_stage := st\<rparr>) = serviced c"
  "running (c\<lparr>lc_step_progress := b\<rparr>) = running c" "running (c\<lparr>lc_stage := st\<rparr>) = running c"
  by (simp_all add: serviced_def running_def)

text \<open>Sequencing on the client part of the state.\<close>

lemma and_then_client:
  "P (fst (snd r)) \<Longrightarrow> (\<And>c w. P c \<Longrightarrow> P (fst (snd (f (c, w))))) \<Longrightarrow> P (fst (snd (and_then r f)))"
  by (cases r) (auto simp: and_then_def)

lemma and_then_into:
  "P (fst (snd r)) \<Longrightarrow> (\<And>c. P c \<Longrightarrow> Q c) \<Longrightarrow> (\<And>c w. P c \<Longrightarrow> Q (fst (snd (f (c, w))))) \<Longrightarrow> Q (fst (snd (and_then r f)))"
  by (cases r) (auto simp: and_then_def)

lemma report_ready_running: "running c \<Longrightarrow> running (fst (snd (report_ready hal (c, w))))"
  unfolding report_ready_def
  by (rule and_then_client) (simp_all add: status_running, simp add: running_def flags_ok(1) [unfolded running_def])

lemma report_ready_serviced: "serviced c \<Longrightarrow> serviced (fst (snd (report_ready hal (c, w))))"
  unfolding report_ready_def
  by (rule and_then_client) (simp_all add: status_serviced, simp add: serviced_def running_def flags_ok(1) [unfolded running_def])

lemma release_serviced:
  assumes "serviced c"
  shows "serviced (fst (snd (release_output (c, w))))"
proof -
  obtain rc w' where r: "call_release (c\<lparr>lc_stage := EAF_LMS_STAGE_OUTPUT_START\<rparr>) w = (rc, w')" by fastforce
  have "serviced (c\<lparr>lc_output_released := True\<rparr>)"
    using assms flags_ok(3) [OF assms] by (simp add: serviced_def running_def)
  then have "serviced (c\<lparr>lc_stage := EAF_LMS_STAGE_OUTPUT_START, lc_output_released := True\<rparr>)"
    using assms flags_ok(3) [of "c\<lparr>lc_stage := EAF_LMS_STAGE_OUTPUT_START\<rparr>"] by (simp add: serviced_def running_def)
  then show ?thesis using assms r by (simp add: release_output_def and_then_def Let_def)
qed

lemma report_eof_serviced:
  assumes "serviced c" and "lc_input_eof c" and "lc_output_released c"
  shows "serviced (fst (snd (report_eof hal (c, w))))"
proof -
  obtain rc c' w' where s: "status hal (c, w) ''STMd'' 0 = (rc, c', w')" by (metis prod_cases3)
  have "serviced c'" "lc_input_eof c'" "lc_output_released c'"
    using status_serviced [OF assms(1), of hal w "''STMd''" 0] status_frame [of c hal w "''STMd''" 0] assms(2,3) s
    by (auto simp: tx_only_def)
  then show ?thesis using flags_ok(4) [of c'] unfolding report_eof_def s
    by (simp add: and_then_def serviced_def running_def)
qed

lemma service_buffered_running:
  assumes "running c"
  shows "running (fst (snd (service_buffered hal (c, w))))"
proof (cases "\<not> lc_buffered_output c \<or> lc_wait_cont c \<or>
    (lc_prefill_frames c < ready_frames (lc_buffer_limits c) \<and> \<not> lc_input_eof c)")
  case True
  then show ?thesis using assms by (simp add: service_buffered_def)
next
  case False
  then have c: "serviced c" using assms by (auto simp: serviced_def not_less)
  let ?r = "if lc_wait_start c \<and> \<not> lc_ready_sent c then report_ready hal (c, w) else (EAF_OK, c, w)"
  have 1: "serviced (fst (snd ?r))" using c report_ready_serviced [OF c, of hal w] by simp
  have "serviced (fst (snd (and_then ?r (\<lambda>(c, w).
           and_then (if \<not> lc_wait_start c \<and> \<not> lc_output_paused c \<and> \<not> lc_output_released c then release_output (c, w)
                     else (EAF_OK, c, w)) (\<lambda>(c, w).
           if lc_input_eof c \<and> lc_output_released c \<and> \<not> lc_eof_sent c then report_eof hal (c, w) else (EAF_OK, c, w))))))"
    by (rule and_then_client [where P = serviced, OF 1], simp only: prod.case, rule and_then_client)
      (simp_all add: release_serviced report_eof_serviced)
  then show ?thesis unfolding service_buffered_def prod.case if_not_P [OF False] serviced_def by (rule conjunct1)
qed

lemma flush_pcm_streaming: "lc_streaming (fst (snd (flush_pcm (c, w)))) = lc_streaming c"
  by (auto simp: flush_pcm_def count_prefill_def count_backpressure_def Let_def split: prod.splits)

lemma flush_pcm_running: "running c \<Longrightarrow> running (fst (snd (flush_pcm (c, w))))"
  by (simp add: running_def flush_pcm_ok flush_pcm_streaming)

lemma drain_pcm_running:
  assumes "running c"
  shows "running (fst (snd (drain_pcm (c, w))))"
  unfolding drain_pcm_def
proof (rule and_then_client [where P = running, OF flush_pcm_running [OF assms]], goal_cases)
  case (1 c w)
  have z: "running (c\<lparr>lc_pcm_count := 0, lc_pcm_sent := 0\<rparr>)" using 1 by (simp add: running_def lms_ok_defs)
  obtain rc d where d: "ingress_decode (c\<lparr>lc_pcm_count := 0, lc_pcm_sent := 0\<rparr>) = (rc, d)" by fastforce
  have "running d" using ingress_decode_ok [of "c\<lparr>lc_pcm_count := 0, lc_pcm_sent := 0\<rparr>"] z d by (simp add: running_def)
  then show ?case using 1 d flush_pcm_running [of "d\<lparr>lc_step_progress := True\<rparr>" w] by (simp add: Let_def)
qed

lemma finish_source_running:
  assumes "net_ok hal" and "running c"
  shows "running (fst (snd (finish_source hal (c, w))))"
proof -
  let ?d = "c\<lparr>lc_step_progress := True, lc_input_eof := True\<rparr>"
  obtain http w' where h: "net_close hal (lc_http c) (call_eof (c\<lparr>lc_step_progress := True\<rparr>) w) = (http, w')" by fastforce
  have "\<not> tcp_open http" using net_close_ok [OF assms(1), of "lc_http c"] h by (metis fst_conv)
  then have r: "running (?d\<lparr>lc_http := http\<rparr>)" using assms(2) by (simp add: running_def flags_ok)
  show ?thesis using assms(2) h service_buffered_running [OF r, of hal w'] status_running [OF r, of hal w' "''STMd''" 0]
    by (simp add: finish_source_def Let_def)
qed

lemma send_request_running:
  assumes "net_ok hal" and "running c"
  shows "running (fst (snd (send_request hal (c, w))))"
proof -
  let ?data = "take (lc_request_used c - lc_request_sent c) (drop (lc_request_sent c) (lc_request c))"
  obtain rc n w' where r: "net_send hal (lc_http c) ?data w = (rc, n, w')" by (metis prod_cases3)
  have "n \<le> lc_request_used c - lc_request_sent c" using net_send_ok [OF assms(1) r] by simp
  moreover have "lc_request_sent c \<le> lc_request_used c" using assms(2) by (simp add: running_def lms_ok_defs)
  ultimately have "lc_request_sent c + n \<le> lc_request_used c" by linarith
  then show ?thesis using assms(2) r by (simp add: send_request_def Let_def running_def lms_ok_defs)
qed

lemma ingress_fill_streaming: "lc_streaming (snd (ingress_fill c data)) = lc_streaming c"
  by (simp add: ingress_fill_def Let_def)

lemma body_done_ok:
  assumes "lms_ok c" and "lc_headers_done c" and "lc_has_length c \<longrightarrow> lc_remaining c = 0"
  shows "lms_ok (c\<lparr>lc_body_done := True\<rparr>)"
  using assms by (simp add: lms_ok_defs) (simp add: stream_ok_def frame_size_def)

lemma receive_body_running:
  assumes "net_ok hal" and "running c"
  shows "running (fst (snd (receive_body hal (c, w))))"
proof -
  let ?space = "length (lc_ingress c) - lc_ingress_used c"
  let ?want = "if ?space < length (lc_rx c) then ?space else length (lc_rx c)"
  obtain rc bytes w' where r: "net_recv hal (lc_http c) ?want w = (rc, bytes, w')" by (metis prod_cases3)
  have lb: "length bytes \<le> length (lc_rx c)" using net_recv_ok [OF assms(1) r] by (auto split: if_splits)
  let ?d = "c\<lparr>lc_rx := blit (lc_rx c) 0 bytes,
      lc_diagnostics := (lc_diagnostics c)\<lparr>http_bytes := http_bytes (lc_diagnostics c) + of_nat (length bytes)\<rparr>,
      lc_step_progress := (lc_step_progress c \<or> bytes \<noteq> []), lc_stage := EAF_LMS_STAGE_HEADERS\<rparr>"
  have d: "lms_ok ?d" "lc_streaming ?d" using assms(2) lb by (simp_all add: running_def lms_ok_defs)
  obtain rc1 e body where h: "header_bytes ?d bytes = (rc1, e, body)" by (metis prod_cases3)
  have e: "lms_ok e" "lc_streaming e" "rc1 = EAF_OK \<and> body \<noteq> [] \<longrightarrow> lc_headers_done e"
    using header_bytes_ok [OF d(1) h] d(2) by auto
  obtain rc2 f where f: "ingress_fill (e\<lparr>lc_stage := EAF_LMS_STAGE_DECODE\<rparr>) body = (rc2, f)" by fastforce
  have "running f" if "rc1 = EAF_OK"
  proof -
    have "lc_streaming f" using ingress_fill_streaming [of "e\<lparr>lc_stage := EAF_LMS_STAGE_DECODE\<rparr>" body] f e(2) by simp
    then show ?thesis using ingress_fill_ok [of "e\<lparr>lc_stage := EAF_LMS_STAGE_DECODE\<rparr>" body] f e that by (simp add: running_def)
  qed
  moreover have "running e" using e by (simp add: running_def)
  moreover have "running (c\<lparr>lc_stage := EAF_LMS_STAGE_HTTP_RECV, lc_body_done := True\<rparr>)"
    if "lc_headers_done c" "lc_has_length c \<longrightarrow> lc_remaining c = 0"
    using body_done_ok [of "c\<lparr>lc_stage := EAF_LMS_STAGE_HTTP_RECV\<rparr>"] that assms(2) by (simp add: running_def)
  moreover have "running (c\<lparr>lc_stage := EAF_LMS_STAGE_HTTP_RECV, lc_diagnostics := (lc_diagnostics c)\<lparr>recv_again := n\<rparr>\<rparr>)" for n
    using assms(2) by (simp add: running_def lms_ok_defs)
  ultimately show ?thesis using assms(2) r h f by (simp add: receive_body_def Let_def)
qed

lemma pump_body_running:
  assumes "net_ok hal" and "running c"
  shows "running (fst (snd (pump_body hal (c, w))))"
  unfolding pump_body_def
  by (rule and_then_client [where P = running, OF drain_pcm_running [OF assms(2)]])
    (simp add: finish_source_running send_request_running receive_body_running assms(1))

lemma pump_http_ok:
  assumes "net_ok hal" and "lms_ok c"
  shows "keeps (pump_http hal (c, w))"
proof (cases "lc_streaming c")
  case True
  then have r: "running c" using assms(2) by (simp add: running_def)
  have "running (fst (snd (and_then (service_buffered hal (c, w)) (\<lambda>(c, w).
        if \<not> tcp_open (lc_http c) then (EAF_OK, c, w)
        else if lc_headers_done c \<and> lc_wait_cont c then (EAF_OK, c, w)
        else if \<not> lc_buffered_output c \<and> lc_headers_done c \<and> lc_wait_start c \<and>
                (lc_pcm_count c \<noteq> 0 \<or> lc_ingress_used c \<noteq> 0 \<or> lc_body_done c)
        then if \<not> lc_ready_sent c then report_ready hal (c, w) else (EAF_OK, c, w)
        else pump_body hal (c, w)))))"
    by (rule and_then_client [where P = running, OF service_buffered_running [OF r]])
      (simp add: report_ready_running pump_body_running assms(1))
  then show ?thesis using True by (simp add: pump_http_def running_def)
qed (simp add: pump_http_def assms)

lemma close_ok:
  assumes "net_ok hal" and "lms_ok c"
  shows "lms_ok (fst (eaf_lms_client_close hal (c, w)))"
proof -
  obtain d w1 where s: "stop_stream hal (c, w) = (d, w1)" by fastforce
  have "lms_ok d" using stop_stream_ok [OF assms, of w] halted_ok s by simp
  then show ?thesis using s by (simp add: eaf_lms_client_close_def lms_ok_defs split: prod.splits)
qed

lemma send_control_ok:
  assumes "net_ok hal" and "lms_ok c"
  shows "keeps (send_control hal (c, w))"
proof -
  let ?data = "take (lc_tx_used c - lc_tx_sent c) (drop (lc_tx_sent c) (lc_tx c))"
  obtain rc n w' where r: "net_send hal (lc_control c) ?data w = (rc, n, w')" by (metis prod_cases3)
  have "n \<le> lc_tx_used c - lc_tx_sent c" using net_send_ok [OF assms(1) r] by simp
  then have "lc_tx_sent c < lc_tx_used c \<Longrightarrow> lc_tx_sent c + n \<le> lc_tx_used c" by linarith
  then show ?thesis using assms(2) r by (simp add: send_control_def Let_def lms_ok_defs)
qed

lemma receive_control_ok:
  assumes "net_ok hal" and "lms_ok c"
  shows "keeps (receive_control hal (c, w))"
proof -
  obtain rc bytes w' where r: "net_recv hal (lc_control c) 256 w = (rc, bytes, w')" by (metis prod_cases3)
  let ?d = "c\<lparr>lc_stage := EAF_LMS_STAGE_CONTROL_RECV, lc_step_progress := (lc_step_progress c \<or> bytes \<noteq> [])\<rparr>"
  have d: "lms_ok ?d" using assms(2) by simp
  obtain rc2 p e w2 where f: "eaf_lms_feed (Some (command hal)) (lc_parser c) (Some bytes) (length bytes) (?d, w') = (rc2, p, e, w2)"
    by (metis prod_cases4)
  have "lms_ok e \<and> parser_safe p"
  proof (cases "pk_failed (lc_parser c)")
    case True
    then show ?thesis using f d assms(2) by (auto simp: eaf_lms_feed_def lms_ok_def)
  next
    case False
    have "parser_safe (lc_parser c)" using assms(2) by (simp add: lms_ok_def)
    then have ok: "parser_ok (lc_parser c)" using False by (simp add: parser_safe_def)
    have cmd: "lms_ok (fst (snd (command hal s pk)))" if "lms_ok (fst s)" "packet_fits pk" for s pk
      using command_ok [OF assms(1), of "fst s" pk "snd s"] that by (simp add: packet_fits_def)
    have "lms_ok (fst (snd (snd (lms_loop (command hal) (lc_parser c, ?d, w') bytes))))"
      by (rule lms_loop_ctx [where P = "\<lambda>s. lms_ok (fst s)"]) (use ok d cmd in simp_all)
    moreover have "parser_safe (fst (snd (lms_loop (command hal) (lc_parser c, ?d, w') bytes)))"
      using lms.loop_keeps [of "(lc_parser c, ?d, w')" "command hal" bytes] ok by simp
    ultimately show ?thesis using f by (simp add: feed_loop_lms [OF ok])
  qed
  then have "lms_ok (e\<lparr>lc_parser := p\<rparr>)" by (simp add: lms_ok_defs)
  then show ?thesis using assms(2) r f by (simp add: receive_control_def Let_def)
qed

lemma client_step_ok:
  assumes "net_ok hal" and "lms_ok c"
  shows "keeps (eaf_lms_client_step hal (c, w))"
proof -
  let ?c = "c\<lparr>lc_step_progress := False, lc_step_backpressure := False\<rparr>"
  have c: "lms_ok ?c" using assms(2) by simp
  let ?r = "and_then (and_then (send_control hal (?c, w)) (receive_control hal)) (pump_http hal)"
  have r: "keeps ?r"
    by (intro and_then_ok send_control_ok receive_control_ok pump_http_ok assms(1) c)
  obtain rc d w' where e: "?r = (rc, d, w')" by (metis prod_cases3)
  show ?thesis using assms(2) r e close_ok [OF assms(1) record_error_ok, of d rc w']
    by (simp add: eaf_lms_client_step_def Let_def)
qed

lemma pump_loop_ok:
  assumes "net_ok hal" and "lms_ok (fst s)"
  shows "lms_ok (fst (snd (snd (pump_loop hal max_steps max_us start_us s result))))"
  using assms
proof (induction hal max_steps max_us start_us s result rule: pump_loop.induct)
  case (1 hal max_steps max_us start_us s result)
  obtain rc c w where st: "eaf_lms_client_step hal s = (rc, c, w)" by (metis prod_cases3)
  have c: "lms_ok c" using client_step_ok [OF 1(2), of "fst s" "snd s"] 1(3) st by simp
  obtain now w' where t: "net_time_us hal w = (now, w')" by fastforce
  have y: "lms_ok (c\<lparr>lc_diagnostics := (lc_diagnostics c)\<lparr>budget_yields := n\<rparr>\<rparr>)" for n
    using c by (simp add: lms_ok_defs)
  show ?case
  proof (cases "rc \<noteq> EAF_OK \<or> \<not> lc_step_progress c \<or> pump_steps result + 1 \<ge> max_steps \<or> now - start_us \<ge> ucast max_us")
    case True
    then show ?thesis using c y t by (subst pump_loop.simps) (auto simp: st Let_def)
  next
    case False
    then show ?thesis using 1(1) [OF st [symmetric] refl refl _ _ refl] 1(2) c t
      by (subst pump_loop.simps) (simp add: st Let_def, blast)
  qed
qed

lemma client_pump_ok:
  assumes "net_ok hal" and "lms_ok c"
  shows "lms_ok (fst (snd (snd (eaf_lms_client_pump hal (c, w) max_steps max_us result))))"
  using assms pump_loop_ok [OF assms(1), of "(c, _)"] by (simp add: eaf_lms_client_pump_def split: prod.splits)

lemma helo_ok:
  assumes "length dst = 4096" and "length mac = 6"
  shows "\<exists>tx. eaf_lms_helo (Some dst) 4096 (Some mac) (Some ''Model=eaf,MaxSampleRate=96000,pcm'') = (EAF_OK, 77, Some tx) \<and> length tx = 4096"
  using assms by (simp add: eaf_lms_helo_def Let_def)

lemma connect_ok:
  assumes "net_ok hal" and "lms_ok c" and "\<And>m. mac = Some m \<Longrightarrow> length m = 6"
  shows "keeps (eaf_lms_client_connect hal (c, w) server port mac)"
proof (cases "mac = None \<or> (cb_start (lc_callbacks c) = None \<and> cb_start_buffered (lc_callbacks c) = None) \<or> tcp_open (lc_control c)")
  case True
  then show ?thesis using assms(2) by (simp add: eaf_lms_client_connect_def)
next
  case False
  then obtain m where m: "mac = Some m" "length m = 6" using assms(3) by auto
  let ?c = "c\<lparr>lc_diagnostics := zero_diagnostics, lc_stage := EAF_LMS_STAGE_CONNECT\<rparr>"
  obtain rc control w1 where con: "net_connect hal (lc_control c) server port 500 w = (rc, control, w1)" by (metis prod_cases3)
  let ?d = "?c\<lparr>lc_control := control\<rparr>"
  have d: "lms_ok ?d" using assms(2) by (simp add: lms_ok_defs zero_diagnostics_def)
  have "length (lc_tx c) = 4096" using assms(2) by (simp add: lms_ok_defs)
  then obtain tx where h: "eaf_lms_helo (Some (lc_tx c)) (length (lc_tx c)) (Some m) (Some ''Model=eaf,MaxSampleRate=96000,pcm'') = (EAF_OK, 77, Some tx)"
    "length tx = 4096" using helo_ok [OF _ m(2), of "lc_tx c"] by auto
  have "parser_safe eaf_lms_parser_init"
    using parser_init_ok by (simp add: parser_safe_def) (simp add: parser_ok_def)
  then have e: "lms_ok (?d\<lparr>lc_server := server, lc_tx_sent := 0, lc_parser := eaf_lms_parser_init, lc_tx := tx, lc_tx_used := 77\<rparr>)"
    using d h(2) by (simp add: lms_ok_defs)
  show ?thesis using assms(2) False m(1) con h(1) e record_error_ok [OF d, of rc]
    by (simp add: eaf_lms_client_connect_def Let_def)
qed

lemma report_playback_ok:
  assumes "lms_ok c"
  shows "keeps (eaf_lms_client_report_playback hal (c, w) p)"
proof (cases "p = None \<or> queued_bytes (the p) > buffer_bytes (the p) \<or> \<not> tcp_open (lc_control c) \<or> \<not> lc_streaming c \<or>
    lc_wait_cont c \<or> lc_wait_start c \<or> lc_started_sent c \<and> \<not> pb_started (the p)")
  case True
  then show ?thesis using assms by (auto simp: eaf_lms_client_report_playback_def split: option.splits)
next
  case False
  then obtain q where q: "p = Some q" by auto
  let ?d = "c\<lparr>lc_playback := q, lc_stage := EAF_LMS_STAGE_STATUS\<rparr>"
  have d: "running ?d" using assms False by (simp add: running_def lms_ok_defs)
  obtain rc e w' where s: "status hal (?d, w) (if pb_started q \<and> \<not> lc_started_sent c then ''STMs'' else ''STMt'') 0 = (rc, e, w')"
    by (metis prod_cases3)
  have e: "running e" using status_running [OF d] s by (metis fst_conv snd_conv)
  then have r: "running (record_error e rc)" using record_error_ok [of e rc] by (simp add: running_def record_error_def Let_def)
  show ?thesis using False q s r flags_ok(2) [OF r]
    by (auto simp: eaf_lms_client_report_playback_def Let_def running_def)
qed

end
