(* ===== verification/LMS_Client_Props.thy ===== *)
theory LMS_Client_Props
  imports LMS_Client_Inv Dec_PCM
begin

text \<open>
  The theorems of the LMS client (\<open>apps/lms/lms_client.c\<close>): every reachable client keeps its
  invariant on every network and for every output owner; the PCM chunk is the body
  decoded frame by frame, with nothing lost between two chunks; the limits of the output buffer; and
  that a new stream starts with the bytes of the previous one.
\<close>

section \<open>Samples\<close>

lemma shift_in_byte:
  assumes "unat (a :: u32) < 2 ^ 24"
  shows "unat (push_bit 8 a OR ucast (b :: u8)) = 256 * unat a + unat b"
proof -
  have "push_bit 8 a AND ucast b = 0"
    by (rule bit_word_eqI) (auto simp: bit_simps dest: bit_imp_le_length)
  then have "push_bit 8 a OR ucast b = push_bit 8 a + ucast b" by (simp add: disjunctive_add_eq_or)
  moreover have "unat (push_bit 8 a) = 256 * unat a"
    using assms unfolding unsigned_push_bit_eq by (simp add: take_bit_eq_mod push_bit_eq_mult mult.commute)
  moreover have "256 * unat a + unat b < 4294967296"
  proof -
    have "unat a < 16777216" using assms by simp
    then show ?thesis using unat_lt_8 [of b] by linarith
  qed
  ultimately show ?thesis by (simp add: unat_word_ariths)
qed

lemma fold_shift_bytes:
  assumes "k \<le> 4"
  shows "unat (fold (\<lambda>b raw. push_bit 8 raw OR ucast (f b)) [0..<k] (0 :: u32)) = le_value (rev (map f [0..<k]))"
  using assms
proof (induction k)
  case (Suc k)
  let ?v = "fold (\<lambda>b raw. push_bit 8 raw OR ucast (f b)) [0..<k] (0 :: u32)"
  have IH: "unat ?v = le_value (rev (map f [0..<k]))" using Suc by simp
  have "le_value (rev (map f [0..<k])) < 256 ^ k" using le_value_less [of "rev (map f [0..<k])"] by simp
  also have "(256 :: nat) ^ k \<le> 256 ^ 3" using Suc.prems by (intro power_increasing) simp_all
  finally have "unat ?v < 2 ^ 24" using IH by simp
  from shift_in_byte [OF this, of "f k"] show ?case using IH by simp
qed simp

lemma top_bit_set:
  assumes "unat (v :: u32) < 2 ^ Suc n" and "n < 32"
  shows "v AND push_bit n 1 \<noteq> 0 \<longleftrightarrow> 2 ^ n \<le> unat v"
proof -
  have "v AND push_bit n 1 \<noteq> 0 \<longleftrightarrow> bit v n"
    using and_exp_eq_0_iff_not_bit [of v n] by (simp add: push_bit_eq_mult)
  also have "\<dots> \<longleftrightarrow> bit (unat v) n" using assms(2) by (simp add: bit_unsigned_iff)
  also have "\<dots> \<longleftrightarrow> odd (unat v div 2 ^ n)" by (simp add: bit_iff_odd)
  also have "\<dots> \<longleftrightarrow> 2 ^ n \<le> unat v"
  proof (cases "unat v < 2 ^ n")
    case False
    then have "unat v div 2 ^ n = 1" using assms(1) by (intro div_nat_eqI) simp_all
    with False show ?thesis by simp
  qed simp
  finally show ?thesis .
qed

text \<open>The bytes of sample \<open>ch\<close>, least significant first, and the value they denote at the top of a 32-bit word.\<close>

definition sample_bytes_of :: "nat \<Rightarrow> bool \<Rightarrow> u8 list \<Rightarrow> nat \<Rightarrow> u8 list" where
  "sample_bytes_of width be frame ch =
     (let bytes = take width (drop (ch * width) frame) in if be then rev bytes else bytes)"

definition sample_value :: "nat \<Rightarrow> bool \<Rightarrow> u8 list \<Rightarrow> nat \<Rightarrow> int" where
  "sample_value width be frame ch = signed_value (8 * width) (le_value (sample_bytes_of width be frame ch)) * 2 ^ (32 - 8 * width)"

lemma signed_value_range:
  assumes "2 \<le> width" "width \<le> 4" and "n < 2 ^ (8 * width)"
  shows "is_i32 (signed_value (8 * width) n * 2 ^ (32 - 8 * width))"
proof -
  consider "width = 2" | "width = 3" | "width = 4" using assms(1,2) by linarith
  then show ?thesis using assms(3) by cases (auto simp: signed_value_def is_i32_def)
qed

lemma decode_sample_value:
  assumes "2 \<le> width" "width \<le> 4" and "ch * width + width \<le> length bs"
  shows "decode_sample width be bs ch = sample_value width be bs ch \<and> is_i32 (sample_value width be bs ch)"
proof -
  let ?idx = "\<lambda>b. ch * width + (if be then b else width - b - 1)"
  let ?raw = "fold (\<lambda>b raw. push_bit 8 raw OR ucast (bs ! ?idx b)) [0..<width] (0 :: u32)"
  have bytes: "rev (map (\<lambda>b. bs ! ?idx b) [0..<width]) = sample_bytes_of width be bs ch"
    using assms(3) by (auto simp: sample_bytes_of_def rev_nth Let_def intro!: nth_equalityI)
  have raw: "unat ?raw = le_value (sample_bytes_of width be bs ch)"
    using fold_shift_bytes [of width "\<lambda>b. bs ! ?idx b"] assms(2) unfolding bytes by simp
  have "length (sample_bytes_of width be bs ch) = width" using assms(3) by (simp add: sample_bytes_of_def Let_def)
  then have lt: "unat ?raw < 2 ^ (8 * width)"
    using le_value_less [of "sample_bytes_of width be bs ch"] unfolding raw by (simp add: power_mult)
  have u: "uint ?raw = int (unat ?raw)" by (rule uint_nat)
  have sign: "?raw AND push_bit (width * 8 - 1) 1 \<noteq> 0 \<longleftrightarrow> 2 ^ (width * 8 - 1) \<le> unat ?raw"
  proof (rule top_bit_set)
    have "Suc (width * 8 - 1) = 8 * width" using assms(1) by simp
    then show "unat ?raw < 2 ^ Suc (width * 8 - 1)" using lt by (simp only:)
    show "width * 8 - 1 < 32" using assms(1,2) by simp
  qed
  have val: "(if ?raw AND push_bit (width * 8 - 1) 1 \<noteq> 0 then uint ?raw - 2 ^ (width * 8) else uint ?raw) =
      signed_value (8 * width) (unat ?raw)"
    unfolding sign u signed_value_def by (simp add: mult.commute [of width 8] not_less [symmetric])
  have range: "is_i32 (signed_value (8 * width) (unat ?raw) * 2 ^ (32 - 8 * width))"
    by (rule signed_value_range [OF assms(1,2) lt])
  show ?thesis using val range raw by (simp add: decode_sample_def sample_value_def Let_def mult.commute)
qed

section \<open>Frames\<close>

text \<open>The first \<open>k\<close> frames of a byte sequence as interleaved samples.\<close>

definition frame_samples_of :: "nat \<Rightarrow> bool \<Rightarrow> nat \<Rightarrow> u8 list \<Rightarrow> int list" where
  "frame_samples_of width be nch frame = map (sample_value width be frame) [0..<nch]"

definition body_samples :: "nat \<Rightarrow> bool \<Rightarrow> nat \<Rightarrow> u8 list \<Rightarrow> nat \<Rightarrow> int list" where
  "body_samples width be nch bytes k =
     concat (map (\<lambda>f. frame_samples_of width be nch (take (width * nch) (drop (f * (width * nch)) bytes))) [0..<k])"

lemma length_body_samples: "length (body_samples width be nch bytes k) = k * nch"
  by (induction k) (simp_all add: body_samples_def frame_samples_of_def)

lemma sample_value_take:
  assumes "ch < nch"
  shows "sample_value width be (take (width * nch) bs) ch = sample_value width be bs ch"
proof -
  have "ch * width + width \<le> width * nch"
    using mult_le_mono2 [of "Suc ch" nch width] assms by (simp add: mult.commute)
  then have "take width (drop (ch * width) (take (width * nch) bs)) = take width (drop (ch * width) bs)"
    by (simp add: drop_take min_def)
  then show ?thesis by (simp add: sample_value_def sample_bytes_of_def)
qed

text \<open>What has been decoded of \<open>all\<close> when the bytes \<open>rest\<close> are still to come.\<close>

definition decoded :: "u8 list \<Rightarrow> 'w eaf_lms_client_t \<Rightarrow> u8 list \<Rightarrow> bool" where
  "decoded all c rest \<longleftrightarrow>
     (let nch = unat (num_channels (lc_format c)); n = unat (lc_pcm_count c)
      in take (n * nch) (lc_pcm c) = body_samples (lc_width c) (lc_big_endian c) nch all n \<and>
         n * frame_size c \<le> length all \<and>
         drop (n * frame_size c) all = take (lc_tail_used c) (lc_tail c) @ rest)"

lemma running_facts:
  assumes "running c"
  shows "2 \<le> lc_width c" "lc_width c \<le> 4" "unat (num_channels (lc_format c)) \<in> {1, 2}" "lc_tail_used c < frame_size c"
    "frame_size c \<le> 8" "length (lc_tail c) = 8" "length (lc_pcm c) = 1024"
proof -
  show w: "2 \<le> lc_width c" "lc_width c \<le> 4" and "lc_tail_used c < frame_size c"
    and l: "length (lc_tail c) = 8" "length (lc_pcm c) = 1024"
    using assms by (simp_all add: running_def lms_ok_def stream_ok_def arrays_ok_def)
  have "num_channels (lc_format c) = 1 \<or> num_channels (lc_format c) = 2"
    using assms by (simp add: running_def lms_ok_def stream_ok_def)
  then show ch: "unat (num_channels (lc_format c)) \<in> {1, 2}" by auto
  then show "frame_size c \<le> 8" using w(2) by (auto simp: frame_size_def)
qed

lemma decode_byte_decoded:
  assumes "running c" and "unat (lc_pcm_count c) < EAF_LMS_PCM_FRAMES" and "decoded all c (b # rest)"
  shows "decoded all (decode_byte c b) rest"
proof -
  note R = running_facts [OF assms(1)]
  let ?ch = "unat (num_channels (lc_format c))" and ?n = "unat (lc_pcm_count c)" and ?fs = "frame_size c"
  let ?t = "(lc_tail c)[lc_tail_used c := b]"
  have D: "take (?n * ?ch) (lc_pcm c) = body_samples (lc_width c) (lc_big_endian c) ?ch all ?n" "?n * ?fs \<le> length all"
    "drop (?n * ?fs) all = take (lc_tail_used c) (lc_tail c) @ b # rest"
    using assms(3) by (simp_all add: decoded_def Let_def)
  have tu: "lc_tail_used c < length (lc_tail c)" using R(4,5,6) by linarith
  have tk: "take (lc_tail_used c + 1) ?t = take (lc_tail_used c) (lc_tail c) @ [b]"
    using tu by (simp add: take_Suc_conv_app_nth)
  show ?thesis
  proof (cases "lc_tail_used c + 1 = ?fs")
    case False
    then show ?thesis using D tk by (simp add: decode_byte_def decoded_def frame_size_def Let_def)
  next
    case True
    have frame: "take ?fs (drop (?n * ?fs) all) = take ?fs ?t" using D(3) tk tu by (simp add: True [symmetric])
    have all_len: "?n * ?fs + ?fs \<le> length all"
    proof -
      have "length (drop (?n * ?fs) all) = lc_tail_used c + 1 + length rest" using D(3) tu by simp
      then show ?thesis using True D(2) by simp
    qed
    have samples: "decode_sample (lc_width c) (lc_big_endian c) ?t i = sample_value (lc_width c) (lc_big_endian c) (take ?fs ?t) i"
      if "i < ?ch" for i
    proof -
      have "i * lc_width c + lc_width c \<le> ?fs"
        using mult_le_mono2 [of "Suc i" ?ch "lc_width c"] that by (simp add: frame_size_def mult.commute)
      then have "i * lc_width c + lc_width c \<le> length ?t" using R(5,6) by simp
      from decode_sample_value [OF R(1,2) this] show ?thesis
        using sample_value_take [OF that, of "lc_width c" "lc_big_endian c" ?t] by (simp add: frame_size_def)
    qed
    have room: "?n * ?ch + ?ch \<le> length (lc_pcm c)" using assms(2) R(3,7) by auto
    have pcm: "fold (\<lambda>ch pcm. pcm[?n * ?ch + ch := decode_sample (lc_width c) (lc_big_endian c) ?t ch]) [0..<?ch] (lc_pcm c) =
        blit (lc_pcm c) (?n * ?ch) (frame_samples_of (lc_width c) (lc_big_endian c) ?ch (take ?fs ?t))"
    proof -
      have "map (decode_sample (lc_width c) (lc_big_endian c) ?t) [0..<?ch] =
          frame_samples_of (lc_width c) (lc_big_endian c) ?ch (take ?fs ?t)"
        unfolding frame_samples_of_def by (rule map_cong) (use samples in auto)
      then show ?thesis using fold_update_blit [OF room, of "decode_sample (lc_width c) (lc_big_endian c) ?t"] by simp
    qed
    have count: "unat (lc_pcm_count c + 1) = ?n + 1" using assms(2) by (simp add: unat_word_ariths)
    have eq: "decode_byte c b = c\<lparr>lc_tail := ?t,
        lc_pcm := blit (lc_pcm c) (?n * ?ch) (frame_samples_of (lc_width c) (lc_big_endian c) ?ch (take ?fs ?t)),
        lc_pcm_count := lc_pcm_count c + 1, lc_tail_used := 0\<rparr>"
      using True pcm by (simp add: decode_byte_def decode_frame_pcm_def frame_size_def Let_def)
    have take_pcm: "take ((?n + 1) * ?ch) (blit (lc_pcm c) (?n * ?ch) (frame_samples_of (lc_width c) (lc_big_endian c) ?ch (take ?fs ?t))) =
        body_samples (lc_width c) (lc_big_endian c) ?ch all (?n + 1)"
    proof -
      have l: "length (frame_samples_of (lc_width c) (lc_big_endian c) ?ch (take ?fs ?t)) = ?ch" by (simp add: frame_samples_of_def)
      have "take (?n * ?ch + ?ch) (blit (lc_pcm c) (?n * ?ch) (frame_samples_of (lc_width c) (lc_big_endian c) ?ch (take ?fs ?t))) =
          take (?n * ?ch) (lc_pcm c) @ frame_samples_of (lc_width c) (lc_big_endian c) ?ch (take ?fs ?t)"
        using take_blit_all [of "?n * ?ch" "frame_samples_of (lc_width c) (lc_big_endian c) ?ch (take ?fs ?t)" "lc_pcm c"] room l by simp
      then show ?thesis using D(1) frame by (simp add: body_samples_def frame_size_def add.commute)
    qed
    have drop_all: "drop ((?n + 1) * ?fs) all = rest"
    proof -
      have e: "drop ((?n + 1) * ?fs) all = drop ?fs (drop (?n * ?fs) all)" by (simp add: algebra_simps)
      have "drop (lc_tail_used c + 1) (take (lc_tail_used c) (lc_tail c) @ b # rest) = rest" using tu by simp
      then show ?thesis unfolding e D(3) by (simp only: True)
    qed
    have "frame_size (decode_byte c b) = ?fs" unfolding eq by (simp add: frame_size_def)
    then show ?thesis using take_pcm drop_all all_len count
      unfolding decoded_def eq Let_def by (simp add: algebra_simps)
  qed
qed

lemma decode_bytes_decoded:
  assumes "running c" and "decoded all c bytes" and "decode_bytes c bytes = (c', rest)"
  shows "running c' \<and> decoded all c' rest \<and> (rest \<noteq> [] \<longrightarrow> unat (lc_pcm_count c') = EAF_LMS_PCM_FRAMES) \<and>
    lc_width c' = lc_width c \<and> lc_big_endian c' = lc_big_endian c \<and> lc_format c' = lc_format c"
  using assms
proof (induction c bytes rule: decode_bytes.induct)
  case (2 c b bytes)
  show ?case
  proof (cases "unat (lc_pcm_count c) < EAF_LMS_PCM_FRAMES")
    case True
    have "running (decode_byte c b)" using decode_byte_ok [of c b] 2(2) True by (simp add: running_def)
    moreover have "lc_width (decode_byte c b) = lc_width c" "lc_big_endian (decode_byte c b) = lc_big_endian c"
      "lc_format (decode_byte c b) = lc_format c"
      by (simp_all add: decode_byte_def decode_frame_pcm_def Let_def)
    ultimately show ?thesis using 2(1) [OF True _ decode_byte_decoded [OF 2(2) True 2(3)]] 2(4) True by simp
  next
    case False
    moreover have "unat (lc_pcm_count c) \<le> EAF_LMS_PCM_FRAMES" using 2(2) by (simp add: running_def lms_ok_defs)
    ultimately show ?thesis using 2 by auto
  qed
qed simp

text \<open>The bytes received and not yet decoded.\<close>

definition pending :: "'w eaf_lms_client_t \<Rightarrow> u8 list" where
  "pending c = take (lc_ingress_used c) (lc_ingress c)"

lemma ingress_decode_spec:
  fixes c :: "'w eaf_lms_client_t"
  assumes "running c" and "lc_pcm_count c = 0"
  defines "all \<equiv> take (lc_tail_used c) (lc_tail c) @ pending c" and "c' \<equiv> snd (ingress_decode c)"
  defines "n \<equiv> min EAF_LMS_PCM_FRAMES (length all div frame_size c)" and "nch \<equiv> unat (num_channels (lc_format c))"
  shows "unat (lc_pcm_count c') = n" and "take (n * nch) (lc_pcm c') = body_samples (lc_width c) (lc_big_endian c) nch all n"
    and "take (lc_tail_used c') (lc_tail c') @ pending c' = drop (n * frame_size c) all"
proof -
  obtain d rest where r: "decode_bytes c (pending c) = (d, rest)" by fastforce
  have "decoded all c (pending c)" using assms(2) by (simp add: decoded_def all_def body_samples_def)
  note D = decode_bytes_decoded [OF assms(1) this r]
  have c': "c' = d\<lparr>lc_ingress := blit (lc_ingress d) 0 rest, lc_ingress_used := length rest\<rparr>"
    using r by (simp add: c'_def ingress_decode_def pending_def)
  have E: "lc_width d = lc_width c" "lc_big_endian d = lc_big_endian c" "lc_format d = lc_format c" and DD: "decoded all d rest"
    using D by simp_all
  have fs: "frame_size d = frame_size c" using E by (simp add: frame_size_def)
  let ?k = "unat (lc_pcm_count d)"
  have d: "take (?k * nch) (lc_pcm d) = body_samples (lc_width c) (lc_big_endian c) nch all ?k"
    "?k * frame_size c \<le> length all" "drop (?k * frame_size c) all = take (lc_tail_used d) (lc_tail d) @ rest"
    using DD fs E by (simp_all add: decoded_def Let_def nch_def)
  note R = running_facts [of d]
  have tl: "lc_tail_used d < frame_size c" "lc_tail_used d \<le> length (lc_tail d)"
    using D R(4,5,6) fs by auto
  have len: "length all = ?k * frame_size c + (lc_tail_used d + length rest)"
    using d(2) arg_cong [OF d(3), of length] tl(2) by simp
  have "?k = n"
  proof (cases "rest = []")
    case True
    have "length all div frame_size c = ?k" using len True tl(1) by (simp add: div_nat_eqI)
    moreover have "?k \<le> EAF_LMS_PCM_FRAMES" using D by (simp add: running_def lms_ok_defs)
    ultimately show ?thesis by (simp add: n_def)
  next
    case False
    then have "?k = EAF_LMS_PCM_FRAMES" using D by blast
    moreover have "?k \<le> length all div frame_size c" using len tl(1) by (simp add: less_eq_div_iff_mult_less_eq)
    ultimately show ?thesis by (simp add: n_def)
  qed
  then show "unat (lc_pcm_count c') = n" "take (n * nch) (lc_pcm c') = body_samples (lc_width c) (lc_big_endian c) nch all n"
    "take (lc_tail_used c') (lc_tail c') @ pending c' = drop (n * frame_size c) all"
    using d unfolding c' by (simp_all add: pending_def blit_def)
qed

section \<open>A new stream\<close>

lemma start_output_buffers:
  assumes "start_output (c, w) strm = (rc, c', w')"
  shows "lc_ingress c' = lc_ingress c \<and> lc_ingress_used c' = lc_ingress_used c"
  using assms by (auto simp: start_output_def Let_def split: option.splits prod.splits if_splits)

lemma stop_stream_pending: "pending (fst (stop_stream hal (c, w))) = pending c"
  by (simp add: stop_stream_def pending_def split: prod.splits)

lemma tx_only_pending:
  assumes "tx_only c c'"
  shows "pending c' = pending c \<and> lc_streaming c' = lc_streaming c \<and> lc_headers_done c' = lc_headers_done c \<and>
    lc_bytes_received c' = lc_bytes_received c"
  using assms by (auto simp: tx_only_def pending_def)

lemma command_start_pending:
  assumes "fst (command_start hal (c, w) strm) = EAF_OK"
  defines "c' \<equiv> fst (snd (command_start hal (c, w) strm))"
  shows "lc_streaming c' \<and> \<not> lc_headers_done c' \<and> lc_bytes_received c' = 0 \<and> pending c' = pending c"
proof -
  obtain c1 w1 where s1: "stop_stream hal (c, w) = (c1, w1)" by fastforce
  have p1: "pending c1 = pending c" using stop_stream_pending [of hal c w] s1 by simp
  let ?c2 = "stream_setup c1 strm"
  obtain rc http w2 where con: "net_connect hal (lc_http ?c2) (if server_ipv4 strm \<noteq> 0 then server_ipv4 strm else lc_server ?c2)
      (server_port strm) 500 w1 = (rc, http, w2)" by (metis prod_cases3)
  let ?c3 = "?c2\<lparr>lc_http := http, lc_stage := EAF_LMS_STAGE_OUTPUT_START\<rparr>"
  obtain rc2 c4 w4 where so: "start_output (?c3, w2) strm = (rc2, c4, w4)" by (metis prod_cases3)
  have p4: "pending c4 = pending c" using start_output_buffers [OF so] p1 by (simp add: pending_def stream_setup_def)
  have cmd: "command_start hal (c, w) strm = status hal (begin_stream c4 strm, w4) ''STMc'' 0"
    using assms(1) s1 con so by (auto simp: command_start_def Let_def split: if_splits prod.splits)
  have "tx_only (begin_stream c4 strm) c'" unfolding c'_def cmd by (rule status_frame)
  from tx_only_pending [OF this] show ?thesis using p4 by (simp add: begin_stream_def pending_def)
qed

section \<open>The pump\<close>

lemma pump_loop_bounded:
  assumes "unat (pump_steps result) < unat max_steps" and "pump_loop hal max_steps max_us start_us s result = (rc, r, c, w)"
  shows "unat (pump_steps result) < unat (pump_steps r) \<and> unat (pump_steps r) \<le> unat max_steps \<and>
    (rc = EAF_OK \<and> \<not> budget_exhausted r \<longrightarrow> \<not> lc_step_progress c)"
  using assms
proof (induction hal max_steps max_us start_us s result rule: pump_loop.induct)
  case (1 hal max_steps max_us start_us s result)
  obtain rc1 c1 w1 where st: "eaf_lms_client_step hal s = (rc1, c1, w1)" by (metis prod_cases3)
  obtain now w' where t: "net_time_us hal w1 = (now, w')" by fastforce
  have "unat (pump_steps result) + 1 < 4294967296" using 1(2) unat_lt_32 [of max_steps] by linarith
  then have one: "unat (pump_steps result + 1) = unat (pump_steps result) + 1" by (simp add: unat_word_ariths)
  show ?case
  proof (cases "rc1 \<noteq> EAF_OK \<or> \<not> lc_step_progress c1 \<or> pump_steps result + 1 \<ge> max_steps \<or> now - start_us \<ge> ucast max_us")
    case True
    then show ?thesis using 1(2,3) t one by (subst (asm) pump_loop.simps) (auto simp: st Let_def split: if_splits)
  next
    case False
    then have lt: "unat (pump_steps result + 1) < unat max_steps" by (simp add: word_le_nat_alt not_le)
    let ?r = "result\<lparr>pump_steps := pump_steps result + 1, progressed := (progressed result \<or> lc_step_progress c1),
            backpressured := (backpressured result \<or> lc_step_backpressure c1)\<rparr>"
    have "pump_loop hal max_steps max_us start_us (c1, w') ?r = (rc, r, c, w)"
      using 1(3) False t by (subst (asm) pump_loop.simps) (simp add: st Let_def)
    then have "unat (pump_steps ?r) < unat (pump_steps r) \<and> unat (pump_steps r) \<le> unat max_steps \<and>
        (rc = EAF_OK \<and> \<not> budget_exhausted r \<longrightarrow> \<not> lc_step_progress c)"
      using 1(1) [OF st [symmetric] refl refl _ _ refl] False t lt by (simp add: st Let_def, blast)
    then show ?thesis using one by simp
  qed
qed

section \<open>Reachable clients\<close>

text \<open>A client from its initialisation on, in a world that changes at any time.\<close>

inductive lms_reachable :: "'w hal_net \<Rightarrow> 'w lms_state \<Rightarrow> bool" for hal where
  init: "eaf_lms_client_init (Some cb) = Some c \<Longrightarrow> lms_reachable hal (c, w)"
| world: "lms_reachable hal (c, w) \<Longrightarrow> lms_reachable hal (c, w')"
| connect: "lms_reachable hal s \<Longrightarrow> length mac = 6 \<Longrightarrow>
    lms_reachable hal (snd (eaf_lms_client_connect hal s server port (Some mac)))"
| step: "lms_reachable hal s \<Longrightarrow> lms_reachable hal (snd (eaf_lms_client_step hal s))"
| pump: "lms_reachable hal s \<Longrightarrow> lms_reachable hal (snd (snd (eaf_lms_client_pump hal s max_steps max_us result)))"
| playback: "lms_reachable hal s \<Longrightarrow> lms_reachable hal (snd (eaf_lms_client_report_playback hal s p))"
| close: "lms_reachable hal s \<Longrightarrow> lms_reachable hal (eaf_lms_client_close hal s)"

lemma lms_reachable_ok:
  assumes "net_ok hal" and "lms_reachable hal s"
  shows "lms_ok (fst s)"
  using assms(2)
proof induction
  case (init cb c w)
  then show ?case by (simp add: lms_init_ok)
next
  case (connect s mac server port)
  then show ?case using connect_ok [OF assms(1), of "fst s" "Some mac" "snd s" server port] by simp
next
  case (step s)
  then show ?case using client_step_ok [OF assms(1), of "fst s" "snd s"] by simp
next
  case (pump s max_steps max_us result)
  then show ?case using client_pump_ok [OF assms(1), of "fst s" "snd s"] by simp
next
  case (playback s p)
  then show ?case using report_playback_ok [of "fst s" hal "snd s" p] by simp
next
  case (close s)
  then show ?case using close_ok [OF assms(1), of "fst s" "snd s"] by simp
qed simp

section \<open>Properties\<close>

text \<open>A world without a peer: connections succeed and nothing ever arrives.\<close>

definition quiet_os :: "unit os_sockets" where
  "quiet_os = \<lparr>sys_socket = \<lambda>w. (3, w), sys_getfl = \<lambda>fd w. (0, w), sys_set_nonblock = \<lambda>fd flags w. (0, w),
     sys_connect = \<lambda>fd ip port w. (0, EOTHER, w), sys_poll = \<lambda>fd ms w. (1, w), sys_so_error = \<lambda>fd w. (0, 0, w),
     sys_send = \<lambda>fd data w. (int (length data), EOTHER, w), sys_recv = \<lambda>fd cap w. (- 1, [], EAGAIN, w),
     sys_close = \<lambda>fd w. w, sys_time_us = \<lambda>w. (0, w)\<rparr>"

definition quiet_callbacks :: "unit eaf_lms_callbacks_t" where
  "quiet_callbacks = \<lparr>cb_start = Some (\<lambda>fmt w. (EAF_OK, w)), cb_pcm = Some (\<lambda>pcm frames w. (frames, w)), cb_eof = Some (\<lambda>w. w),
     cb_stop = Some (\<lambda>w. w), cb_pause = None, cb_volume = None, cb_start_buffered = None, cb_release = None\<rparr>"

definition quiet_client :: "unit eaf_lms_client_t" where
  "quiet_client = the (eaf_lms_client_init (Some quiet_callbacks))"

lemma quiet_init: "eaf_lms_client_init (Some quiet_callbacks) = Some quiet_client"
  by (simp add: quiet_client_def eaf_lms_client_init_def quiet_callbacks_def)

lemma quiet_posix: "posix_ok quiet_os"
  by (simp add: posix_ok_def quiet_os_def)

text \<open>
  C6: On sockets that behave as POSIX says, an LMS client keeps its invariant through every
  sequence of connects, steps, pumps, playback reports and closes, whatever the
  server sends and however the output callbacks behave: no counter passes the end of its buffer, at most
  512 decoded frames are held and none is sent twice, the HTTP connection is open only while streaming,
  and no status that needs a stream is recorded without one.
\<close>

theorem lms_client_invariant:
  assumes "posix_ok os" and "lms_reachable (tcp_hal os) s"
  shows "lms_ok (fst s)"
  by (rule lms_reachable_ok [OF tcp_hal_ok [OF assms(1)] assms(2)])

theorem lms_client_invariant_witness:
  "lms_ok (fst (snd (eaf_lms_client_step (tcp_hal quiet_os)
     (snd (eaf_lms_client_connect (tcp_hal quiet_os) (quiet_client, ()) 2130706433 3483 (Some [1, 2, 3, 4, 5, 6]))))))"
  by (rule lms_client_invariant [OF quiet_posix lms_reachable.step [OF lms_reachable.connect [OF lms_reachable.init [OF quiet_init]]]]) simp

text \<open>
  One call of \<open>ingress_decode\<close> with an empty sample buffer turns the bytes at hand - the partial frame
  kept from before, followed by the pending body bytes - into as many whole frames as there are,
  at most 512: each sample is the two's-complement value of its 2, 3 or 4 bytes in the byte order of
  the stream, moved to the top of 32 bits. The bytes after the last decoded frame stay, in order.
\<close>

theorem lms_body_decoded:
  fixes c :: "'w eaf_lms_client_t"
  assumes "running c" and "lc_pcm_count c = 0"
  defines "all \<equiv> take (lc_tail_used c) (lc_tail c) @ pending c" and "c' \<equiv> snd (ingress_decode c)"
  defines "n \<equiv> min EAF_LMS_PCM_FRAMES (length all div frame_size c)" and "nch \<equiv> unat (num_channels (lc_format c))"
  shows "unat (lc_pcm_count c') = n \<and> take (n * nch) (lc_pcm c') = body_samples (lc_width c) (lc_big_endian c) nch all n \<and>
    take (lc_tail_used c') (lc_tail c') @ pending c' = drop (n * frame_size c) all"
  using ingress_decode_spec [OF assms(1,2)] unfolding all_def c'_def n_def nch_def by simp

definition body_client :: "unit eaf_lms_client_t" where
  "body_client = quiet_client\<lparr>lc_streaming := True, lc_width := 2, lc_format := mk_format 44100 1 8,
     lc_ingress := blit (lc_ingress quiet_client) 0 [0, 128, 1], lc_ingress_used := 3\<rparr>"

theorem lms_body_decoded_witness:
  "unat (lc_pcm_count (snd (ingress_decode body_client))) = 1 \<and>
   take 1 (lc_pcm (snd (ingress_decode body_client))) = [- 2147483648] \<and>
   take (lc_tail_used (snd (ingress_decode body_client))) (lc_tail (snd (ingress_decode body_client))) @
     pending (snd (ingress_decode body_client)) = [1]"
proof -
  have "parser_safe (lc_parser quiet_client)" using lms_init_ok [OF quiet_init] by (simp add: lms_ok_def)
  then have r: "running body_client"
    by (simp add: running_def body_client_def quiet_client_def eaf_lms_client_init_def quiet_callbacks_def lms_ok_defs stream_ok_def
        callbacks_ok_def has_release_def frame_size_def mk_format_def zero_diagnostics_def)
  have f: "lc_streaming quiet_client = False" "lc_prefill_frames quiet_client = 0" "lc_tail_used quiet_client = 0"
    "lc_pcm_count quiet_client = 0" "length (lc_ingress quiet_client) = EAF_LMS_INGRESS_BYTES" "lc_big_endian quiet_client = False"
    by (simp_all add: quiet_client_def eaf_lms_client_init_def quiet_callbacks_def)
  have p: "pending body_client = [0, 128, 1]" "lc_tail_used body_client = 0"
    using f by (simp_all add: pending_def body_client_def blit_def)
  have b: "lc_width body_client = 2" "unat (num_channels (lc_format body_client)) = 1" "frame_size body_client = 2" "lc_pcm_count body_client = 0"
    "lc_big_endian body_client = False"
    using f by (simp_all add: body_client_def frame_size_def mk_format_def)
  show ?thesis using lms_body_decoded [OF r b(4)] p b
    by (simp add: body_samples_def frame_samples_of_def sample_value_def sample_bytes_of_def signed_value_def)
qed

text \<open>
  A pump call with a valid budget returns after at least one and at most \<open>max_steps\<close> steps, and unless
  it reports an error or an exhausted budget its last step found nothing left to do.
\<close>

theorem lms_pump_bounded:
  assumes "0 < max_steps" "max_steps \<le> 64" and "0 < max_us" "max_us \<le> 10000"
    and "eaf_lms_client_pump hal (c, w) max_steps max_us r0 = (rc, r, c', w')"
  shows "0 < unat (pump_steps r) \<and> unat (pump_steps r) \<le> unat max_steps \<and>
    (rc = EAF_OK \<and> \<not> budget_exhausted r \<longrightarrow> \<not> lc_step_progress c')"
proof -
  obtain t w1 where t: "net_time_us hal w = (t, w1)" by fastforce
  have "0 < unat max_steps" using assms(1) by (simp add: word_less_nat_alt)
  moreover have "\<not> (max_steps = 0 \<or> 64 < max_steps \<or> max_us = 0 \<or> 10000 < max_us)" using assms(1-4) by auto
  ultimately show ?thesis using assms(5) t
      pump_loop_bounded [of "\<lparr>pump_steps = 0, progressed = False, budget_exhausted = False, backpressured = False\<rparr>"
        max_steps hal max_us t "(c, w1)" rc r c' w']
    by (simp add: eaf_lms_client_pump_def)
qed

theorem lms_pump_bounded_witness:
  "fst (eaf_lms_client_pump (tcp_hal quiet_os) (quiet_client, ()) 8 1000 \<lparr>pump_steps = 0, progressed = False, budget_exhausted = False, backpressured = False\<rparr>) = EAF_STATE \<and>
   0 < unat (pump_steps (fst (snd (eaf_lms_client_pump (tcp_hal quiet_os) (quiet_client, ()) 8 1000
      \<lparr>pump_steps = 0, progressed = False, budget_exhausted = False, backpressured = False\<rparr>))))"
proof -
  let ?p = "eaf_lms_client_pump (tcp_hal quiet_os) (quiet_client, ()) 8 1000
      \<lparr>pump_steps = 0, progressed = False, budget_exhausted = False, backpressured = False\<rparr>"
  obtain rc r c w where p: "?p = (rc, r, c, w)" by (metis prod_cases4)
  have f: "tcp_open (lc_control quiet_client) = False"
    by (simp add: quiet_client_def eaf_lms_client_init_def quiet_callbacks_def zero_tcp_def)
  have "fst ?p = EAF_STATE" using f
    by (simp add: eaf_lms_client_pump_def tcp_hal_def quiet_os_def pump_loop.simps eaf_lms_client_step_def)
  moreover have "0 < unat (pump_steps r)" using lms_pump_bounded [OF _ _ _ _ p] by simp
  ultimately show ?thesis using p by simp
qed

text \<open>
  C37: When a stream is started while body bytes of the previous one have not been decoded yet,
  those bytes stay pending in front of the body of the new stream: a successful start resets the header and
  the counters but not the ingress buffer.
\<close>

theorem lms_stale_body:
  assumes "fst (command_start hal (c, w) strm) = EAF_OK" and "pending c = stale"
  defines "c' \<equiv> fst (snd (command_start hal (c, w) strm))"
  shows "lc_streaming c' \<and> \<not> lc_headers_done c' \<and> lc_bytes_received c' = 0 \<and> pending c' = stale"
  using command_start_pending [OF assms(1)] assms(2) unfolding c'_def by simp

definition get_request :: "u8 list" where
  "get_request = ascii ''GET / HTTP/1.0'' @ crlfcrlf"

definition start_packet :: eaf_lms_stream_t where
  "start_packet = \<lparr>command_code = byte CHR ''s'', autostart = byte CHR ''1'', codec_code = byte CHR ''p'', sample_size = byte CHR ''1'', sample_rate_code = byte CHR ''3'',
     channels_code = byte CHR ''2'', endianness = byte CHR ''1'', stream_flags = 0, threshold_kib = 0, output_threshold_ds = 0, replay_gain = 0,
     server_ipv4 = 0, server_port = 9000, request = get_request\<rparr>"

lemma start_supported:
  "server_port start_packet = 9000" "length (lc_request c) = EAF_LMS_MAX_PACKET \<Longrightarrow> \<not> stream_unsupported c start_packet"
  by (simp_all add: stream_unsupported_def start_packet_def get_request_def byte_def rates_def ascii_def crlfcrlf_def)

theorem lms_stale_body_witness:
  "fst (command_start (tcp_hal quiet_os) (body_client, ()) start_packet) = EAF_OK \<and>
   pending (fst (snd (command_start (tcp_hal quiet_os) (body_client, ()) start_packet))) = [0, 128, 1]"
proof -
  have l: "length (lc_request quiet_client) = EAF_LMS_MAX_PACKET" "length (lc_tx quiet_client) = 4096" "lc_tx_used quiet_client = 0" "lc_tx_sent quiet_client = 0"
    "tcp_open (lc_http quiet_client) = False" "length (lc_ingress quiet_client) = EAF_LMS_INGRESS_BYTES" "lc_callbacks quiet_client = quiet_callbacks"
    by (simp_all add: quiet_client_def eaf_lms_client_init_def quiet_callbacks_def zero_tcp_def)
  have ok: "fst (command_start (tcp_hal quiet_os) (body_client, ()) start_packet) = EAF_OK"
    using l
    by (simp add: command_start_def start_supported stop_stream_def tcp_hal_def quiet_os_def hal_tcp_close_def hal_tcp_connect_def
        start_output_def stream_setup_def quiet_callbacks_def status_def enqueue_def status_body_def Let_def body_client_def begin_stream_def)
  have p: "pending body_client = [0, 128, 1]" using l by (simp add: pending_def body_client_def blit_def)
  show ?thesis using lms_stale_body [OF ok p] ok by simp
qed

end
