(* ===== verification/BT_Ingress.thy ===== *)
theory BT_Ingress
  imports Ring_Memory FIFO_Spec EAF_Types
begin

text \<open>
  \<open>apps/bt/bt_ingress.c\<close>: the queue of SBC media packets between the Bluetooth callback
  and the decode worker. A malformed packet or one that finds the queue full is dropped, and the
  next packet that is accepted is marked as discontinuous, as is one whose sequence number is not the
  expected one. The queue is a \<open>bounded_fifo\<close>.
\<close>

section \<open>State and operations\<close>

abbreviation (input) EAF_BT_PACKET_BYTES :: nat where "EAF_BT_PACKET_BYTES \<equiv> 1024"
abbreviation (input) EAF_BT_QUEUE_PACKETS :: u32 where "EAF_BT_QUEUE_PACKETS \<equiv> 8"

record eaf_bt_packet_t =
  pkt_sequence :: u16
  pkt_length :: u16
  pkt_timestamp :: u32
  frame_count_sbc :: u8
  pkt_discontinuity :: bool
  pkt_data :: "u8 list"

record eaf_bt_ingress_t =
  bt_slots :: "eaf_bt_packet_t list"
  bt_read_cursor :: u32
  bt_write_cursor :: u32
  bt_dropped :: u32
  expected_sequence :: u16
  have_sequence :: bool
  bt_discontinuity :: bool

definition zero_packet :: eaf_bt_packet_t where
  "zero_packet = \<lparr>pkt_sequence = 0, pkt_length = 0, pkt_timestamp = 0, frame_count_sbc = 0, pkt_discontinuity = False,
     pkt_data = replicate EAF_BT_PACKET_BYTES 0\<rparr>"

definition eaf_bt_ingress_init :: eaf_bt_ingress_t where
  "eaf_bt_ingress_init = \<lparr>bt_slots = replicate (unat EAF_BT_QUEUE_PACKETS) zero_packet, bt_read_cursor = 0, bt_write_cursor = 0,
     bt_dropped = 0, expected_sequence = 0, have_sequence = False, bt_discontinuity = False\<rparr>"

text \<open>The test that rejects a payload, its media header included.\<close>

definition bad_payload :: "u8 list option \<Rightarrow> bool" where
  "bad_payload payload =
     (case payload of None \<Rightarrow> True
      | Some p \<Rightarrow> length p < 2 \<or> length p - 1 > EAF_BT_PACKET_BYTES \<or> p ! 0 AND 0xf0 \<noteq> 0 \<or> p ! 0 AND 0x0f = 0)"

definition drop_packet :: "eaf_bt_ingress_t \<Rightarrow> eaf_bt_ingress_t" where
  "drop_packet q = q\<lparr>bt_dropped := bt_dropped q + 1, bt_discontinuity := True\<rparr>"

definition store_packet :: "eaf_bt_packet_t \<Rightarrow> u16 \<Rightarrow> u32 \<Rightarrow> u8 list \<Rightarrow> bool \<Rightarrow> eaf_bt_packet_t" where
  "store_packet p sequence timestamp payload discontinuity =
     p\<lparr>pkt_sequence := sequence, pkt_timestamp := timestamp, pkt_length := of_nat (length payload - 1),
       frame_count_sbc := payload ! 0 AND 0x0f, pkt_discontinuity := discontinuity,
       pkt_data := blit (pkt_data p) 0 (drop 1 payload)\<rparr>"

definition eaf_bt_sbc_receive ::
  "eaf_bt_ingress_t \<Rightarrow> u16 \<Rightarrow> u32 \<Rightarrow> u8 list option \<Rightarrow> eaf_result_t \<times> eaf_bt_ingress_t" where
  "eaf_bt_sbc_receive q sequence timestamp payload =
     (if bad_payload payload then (EAF_INVALID, drop_packet q)
      else let gap = have_sequence q \<and> sequence \<noteq> expected_sequence q;
               q = q\<lparr>expected_sequence := sequence + 1, have_sequence := True\<rparr>;
               write = bt_write_cursor q
           in if write - bt_read_cursor q = EAF_BT_QUEUE_PACKETS then (EAF_IO, drop_packet q)
              else let slot = unat (write mod EAF_BT_QUEUE_PACKETS)
                   in (EAF_OK, q\<lparr>bt_slots := (bt_slots q)[slot := store_packet (bt_slots q ! slot) sequence timestamp (the payload)
                            (gap \<or> bt_discontinuity q)],
                          bt_discontinuity := False, bt_write_cursor := write + 1\<rparr>))"

text \<open>\<open>pop\<close> copies the oldest packet into the scratch packet of the caller: its header and as many data bytes as it has.\<close>

definition load_packet :: "eaf_bt_packet_t \<Rightarrow> eaf_bt_packet_t \<Rightarrow> eaf_bt_packet_t" where
  "load_packet out p =
     out\<lparr>pkt_sequence := pkt_sequence p, pkt_timestamp := pkt_timestamp p, pkt_length := pkt_length p,
       frame_count_sbc := frame_count_sbc p, pkt_discontinuity := pkt_discontinuity p,
       pkt_data := blit (pkt_data out) 0 (take (unat (pkt_length p)) (pkt_data p))\<rparr>"

definition eaf_bt_ingress_pop ::
  "eaf_bt_ingress_t \<Rightarrow> eaf_bt_packet_t option \<Rightarrow> eaf_bt_packet_t option \<times> eaf_bt_ingress_t" where
  "eaf_bt_ingress_pop q out =
     (case out of None \<Rightarrow> (None, q)
      | Some out \<Rightarrow>
        let read = bt_read_cursor q
        in if read = bt_write_cursor q then (None, q)
           else (Some (load_packet out (bt_slots q ! unat (read mod EAF_BT_QUEUE_PACKETS))), q\<lparr>bt_read_cursor := read + 1\<rparr>))"

section \<open>The queue of media packets\<close>

text \<open>What a packet carries.\<close>

record bt_media =
  media_sequence :: u16
  media_timestamp :: u32
  media_frames :: u8
  media_discontinuity :: bool
  media_bytes :: "u8 list"

definition media :: "eaf_bt_packet_t \<Rightarrow> bt_media" where
  "media p = \<lparr>media_sequence = pkt_sequence p, media_timestamp = pkt_timestamp p, media_frames = frame_count_sbc p,
     media_discontinuity = pkt_discontinuity p, media_bytes = take (unat (pkt_length p)) (pkt_data p)\<rparr>"

definition packet_ok :: "eaf_bt_packet_t \<Rightarrow> bool" where
  "packet_ok p \<longleftrightarrow> length (pkt_data p) = EAF_BT_PACKET_BYTES \<and> unat (pkt_length p) \<le> EAF_BT_PACKET_BYTES"

definition bt_level :: "eaf_bt_ingress_t \<Rightarrow> nat" where
  "bt_level q = unat (bt_write_cursor q - bt_read_cursor q)"

definition bt_inv :: "eaf_bt_ingress_t \<Rightarrow> bool" where
  "bt_inv q \<longleftrightarrow> length (bt_slots q) = 8 \<and> list_all packet_ok (bt_slots q) \<and> bt_level q \<le> 8"

definition bt_content :: "eaf_bt_ingress_t \<Rightarrow> bt_media list" where
  "bt_content q = map media (ring_read (bt_slots q) (unat (bt_read_cursor q)) (bt_level q))"

text \<open>The packet a call of \<open>receive\<close> queues, if it is accepted.\<close>

definition incoming :: "u16 \<times> u32 \<times> u8 list option \<Rightarrow> eaf_bt_ingress_t \<Rightarrow> bt_media" where
  "incoming i q = (case i of (sequence, timestamp, payload) \<Rightarrow>
     \<lparr>media_sequence = sequence, media_timestamp = timestamp, media_frames = the payload ! 0 AND 0x0f,
      media_discontinuity = (have_sequence q \<and> sequence \<noteq> expected_sequence q \<or> bt_discontinuity q), media_bytes = drop 1 (the payload)\<rparr>)"

lemma bt_init_inv: "bt_inv eaf_bt_ingress_init" "bt_content eaf_bt_ingress_init = []"
  by (simp_all add: bt_inv_def bt_content_def bt_level_def eaf_bt_ingress_init_def zero_packet_def packet_ok_def list_all_length)

lemma unat_mod_8: "unat (c mod 8 :: u32) = unat c mod 8"
  by (simp add: unat_mod)

lemma store_packet_media:
  assumes "packet_ok p" and "\<not> bad_payload (Some payload)"
  shows "packet_ok (store_packet p sequence timestamp payload d)"
    and "media (store_packet p sequence timestamp payload d) =
      \<lparr>media_sequence = sequence, media_timestamp = timestamp, media_frames = payload ! 0 AND 0x0f, media_discontinuity = d,
       media_bytes = drop 1 payload\<rparr>"
proof -
  have len: "length payload - 1 \<le> 1024" using assms(2) by (simp add: bad_payload_def)
  then have n: "unat (of_nat (length payload - 1) :: u16) = length payload - 1"
    by (simp add: unat_of_nat take_bit_nat_eq_self)
  show "packet_ok (store_packet p sequence timestamp payload d)"
    using assms(1) len n by (simp add: packet_ok_def store_packet_def)
  show "media (store_packet p sequence timestamp payload d) =
      \<lparr>media_sequence = sequence, media_timestamp = timestamp, media_frames = payload ! 0 AND 0x0f, media_discontinuity = d,
       media_bytes = drop 1 payload\<rparr>"
    using n by (simp add: media_def store_packet_def blit_def)
qed

lemma load_packet_media:
  assumes "packet_ok p" and "length (pkt_data out) = EAF_BT_PACKET_BYTES"
  shows "media (load_packet out p) = media p" and "packet_ok (load_packet out p)"
  using assms by (simp_all add: media_def load_packet_def packet_ok_def blit_def)

lemma drop_packet_inv:
  "bt_inv (drop_packet q) = bt_inv q" "bt_content (drop_packet q) = bt_content q"
  by (simp_all add: drop_packet_def bt_inv_def bt_content_def bt_level_def)

lemma sequence_inv [simp]:
  "bt_inv (q\<lparr>expected_sequence := e, have_sequence := h\<rparr>) = bt_inv q"
  "bt_content (q\<lparr>expected_sequence := e, have_sequence := h\<rparr>) = bt_content q"
  by (simp_all add: bt_inv_def bt_content_def bt_level_def)

text \<open>A packet is accepted exactly when it is well formed and there is a free slot.\<close>

lemma receive_accepts:
  assumes "bt_inv q"
  shows "fst (eaf_bt_sbc_receive q sequence timestamp payload) =
    (if bad_payload payload then EAF_INVALID else if bt_level q = 8 then EAF_IO else EAF_OK)"
proof -
  have "bt_write_cursor q - bt_read_cursor q = 8 \<longleftrightarrow> bt_level q = 8"
    by (simp add: bt_level_def word_unat_eq_iff)
  then show ?thesis by (simp add: eaf_bt_sbc_receive_def Let_def)
qed

lemma receive_refused:
  assumes "bt_inv q" and "eaf_bt_sbc_receive q sequence timestamp payload = (rc, q')" and "rc \<noteq> EAF_OK"
  shows "bt_inv q'" and "bt_content q' = bt_content q"
  using assms by (auto simp: eaf_bt_sbc_receive_def Let_def drop_packet_inv split: if_splits)

lemma receive_accepted:
  assumes "bt_inv q" and "eaf_bt_sbc_receive q sequence timestamp payload = (EAF_OK, q')"
  shows "bt_inv q'" and "bt_content q' = bt_content q @ [incoming (sequence, timestamp, payload) q]"
proof -
  let ?w = "bt_write_cursor q" and ?r = "bt_read_cursor q"
  let ?d = "have_sequence q \<and> sequence \<noteq> expected_sequence q \<or> bt_discontinuity q"
  let ?slot = "unat ?w mod 8"
  let ?p = "store_packet (bt_slots q ! ?slot) sequence timestamp (the payload) ?d"
  have ok: "\<not> bad_payload payload" "bt_level q \<noteq> 8" using receive_accepts [OF assms(1), of sequence timestamp payload] assms(2)
    by (auto split: if_splits)
  then obtain pl where pl: "payload = Some pl" by (cases payload) (simp_all add: bad_payload_def)
  have len: "length (bt_slots q) = 8" and lv: "bt_level q < 8" and slots: "list_all packet_ok (bt_slots q)"
    using assms(1) ok by (auto simp: bt_inv_def)
  have q': "q' = q\<lparr>expected_sequence := sequence + 1, have_sequence := True, bt_slots := (bt_slots q)[?slot := ?p],
      bt_discontinuity := False, bt_write_cursor := ?w + 1\<rparr>"
    using assms(2) ok(1) by (auto simp: eaf_bt_sbc_receive_def Let_def unat_mod_8 split: if_splits)
  have adv: "unat (?w + 1 - ?r) = Suc (unat (?w - ?r))"
    using cursor_advance [of 1 ?w ?r] lv by (simp add: bt_level_def)
  have "packet_ok (bt_slots q ! ?slot)" using slots len by (simp add: list_all_length)
  note P = store_packet_media [OF this, of pl sequence timestamp ?d]
  have "list_all packet_ok ((bt_slots q)[?slot := ?p])"
    using slots P(1) ok(1) pl len by (simp add: list_all_length nth_list_update)
  then show "bt_inv q'" using len lv adv unfolding q' by (simp add: bt_inv_def bt_level_def)
  have "media ?p = incoming (sequence, timestamp, payload) q"
    using P(2) ok(1) pl by (simp add: incoming_def)
  then show "bt_content q' = bt_content q @ [incoming (sequence, timestamp, payload) q]"
    using ring_write_slot [of "bt_slots q" 3 ?w ?r ?p] len lv adv unfolding q'
    by (simp add: bt_content_def bt_level_def)
qed

lemma pop_spec:
  assumes "bt_inv q" and "length (pkt_data out) = EAF_BT_PACKET_BYTES" and "eaf_bt_ingress_pop q (Some out) = (r, q')"
  shows "bt_inv q'" and "bt_content q = (case r of None \<Rightarrow> [] | Some p \<Rightarrow> [media p]) @ bt_content q'"
    and "r = None \<longleftrightarrow> bt_content q = []" and "\<And>p. r = Some p \<Longrightarrow> packet_ok p"
proof -
  let ?w = "bt_write_cursor q" and ?r = "bt_read_cursor q"
  have len: "length (bt_slots q) = 8" and lv: "bt_level q \<le> 8" and slots: "list_all packet_ok (bt_slots q)"
    using assms(1) by (auto simp: bt_inv_def)
  have "bt_inv q' \<and> bt_content q = (case r of None \<Rightarrow> [] | Some p \<Rightarrow> [media p]) @ bt_content q' \<and>
    (r = None \<longleftrightarrow> bt_content q = []) \<and> (\<forall>p. r = Some p \<longrightarrow> packet_ok p)"
  proof (cases "?r = ?w")
    case True
    then show ?thesis using assms(1,3) by (auto simp: eaf_bt_ingress_pop_def Let_def bt_content_def bt_level_def)
  next
    case False
    let ?p = "bt_slots q ! (unat ?r mod 8)"
    have q': "r = Some (load_packet out ?p)" "q' = q\<lparr>bt_read_cursor := ?r + 1\<rparr>"
      using assms(3) False by (auto simp: eaf_bt_ingress_pop_def Let_def unat_mod_8)
    have "packet_ok ?p" using slots len by (simp add: list_all_length)
    note P = load_packet_media [OF this assms(2)]
    have one: "1 \<le> ?w - ?r" using False by (simp add: word_le_nat_alt Suc_le_eq unat_gt_0)
    have "unat (?w - (?r + 1)) \<le> 8" using cursor_retreat [OF one] lv by (simp add: bt_level_def)
    then show ?thesis using q' P slots len ring_read_slot [of "bt_slots q" 3 ?w ?r] False
      by (auto simp: bt_inv_def bt_content_def bt_level_def)
  qed
  then show "bt_inv q'" and "bt_content q = (case r of None \<Rightarrow> [] | Some p \<Rightarrow> [media p]) @ bt_content q'"
    and "r = None \<longleftrightarrow> bt_content q = []" and "\<And>p. r = Some p \<Longrightarrow> packet_ok p"
    by blast+
qed

text \<open>The two ends of the queue as calls of a bounded first-in first-out buffer.\<close>

definition bt_put :: "u16 \<times> u32 \<times> u8 list option \<Rightarrow> eaf_bt_ingress_t \<Rightarrow> bool \<times> eaf_bt_ingress_t" where
  "bt_put i q = (case i of (sequence, timestamp, payload) \<Rightarrow>
     let (rc, q') = eaf_bt_sbc_receive q sequence timestamp payload in (rc = EAF_OK, q'))"

definition bt_get :: "eaf_bt_ingress_t \<Rightarrow> bt_media option \<times> eaf_bt_ingress_t" where
  "bt_get q = (let (r, q') = eaf_bt_ingress_pop q (Some zero_packet) in (map_option media r, q'))"

interpretation bt: bounded_fifo bt_put bt_get incoming bt_content bt_inv 8
proof
  have z: "length (pkt_data zero_packet) = 1024" by (simp add: zero_packet_def)
  fix q :: eaf_bt_ingress_t and i :: "u16 \<times> u32 \<times> u8 list option" and q' x
  assume inv: "bt_inv q"
  obtain s t p where i: "i = (s, t, p)" by (cases i)
  obtain rc q1 where r: "eaf_bt_sbc_receive q s t p = (rc, q1)" by fastforce
  show "bt_put i q = (True, q') \<Longrightarrow> bt_inv q' \<and> bt_content q' = bt_content q @ [incoming i q]"
    using receive_accepted [OF inv, of s t p q'] r by (auto simp: bt_put_def i)
  show "bt_put i q = (False, q') \<Longrightarrow> bt_inv q' \<and> bt_content q' = bt_content q"
    using receive_refused [OF inv r] r by (auto simp: bt_put_def i)
  obtain o1 q2 where g: "eaf_bt_ingress_pop q (Some zero_packet) = (o1, q2)" by fastforce
  note G = pop_spec [OF inv z g]
  show "bt_get q = (Some x, q') \<Longrightarrow> bt_inv q' \<and> bt_content q = x # bt_content q'"
    using G(1,2) g by (auto simp: bt_get_def)
  show "bt_get q = (None, q') \<Longrightarrow> bt_inv q' \<and> bt_content q' = [] \<and> bt_content q = []"
    using G g by (auto simp: bt_get_def)
  show "length (bt_content q) \<le> 8" using inv by (simp add: bt_content_def bt_inv_def)
qed

section \<open>Gaps\<close>

text \<open>The fields of the producer; a pop leaves them alone.\<close>

definition producer_fields :: "eaf_bt_ingress_t \<Rightarrow> bool \<times> u16 \<times> bool" where
  "producer_fields q = (have_sequence q, expected_sequence q, bt_discontinuity q)"

lemma pop_producer: "producer_fields (snd (eaf_bt_ingress_pop q out)) = producer_fields q"
  by (simp add: producer_fields_def eaf_bt_ingress_pop_def Let_def split: option.splits)

lemma receive_gap:
  assumes "eaf_bt_sbc_receive q1 s1 t1 p1 = (rc1, q2)" and "producer_fields q3 = producer_fields q2"
  shows "media_discontinuity (incoming (s2, t2, p2) q3) \<longleftrightarrow> rc1 \<noteq> EAF_OK \<or> s2 \<noteq> s1 + 1"
  using assms by (auto simp: eaf_bt_sbc_receive_def Let_def drop_packet_def incoming_def producer_fields_def split: if_splits)

section \<open>Properties\<close>

text \<open>
  C26: The Bluetooth ingress queue is a bounded FIFO: for every sequence of received packets and
  pops, the accepted media packets are delivered complete and in order, at most eight are queued,
  and the invariant of the queue holds at the end.
\<close>

theorem bt_ingress_fifo:
  assumes "fifo_run bt_put bt_get incoming ops eaf_bt_ingress_init = (accepted, delivered, q)"
  shows "accepted = delivered @ bt_content q \<and> length (bt_content q) \<le> 8 \<and> bt_inv q"
  using bt.run_conserves [OF bt_init_inv(1) assms] bt.run_bounded [OF bt_init_inv(1) assms] bt_init_inv(2) by simp

definition example_packets :: "(u16 \<times> u32 \<times> u8 list option) option list" where
  "example_packets = [Some (1, 0, Some [1, 10, 20]), Some (2, 5, Some [16, 3]), None, Some (3, 9, Some [2, 30])]"

theorem bt_ingress_fifo_witness:
  "fst (fifo_run bt_put bt_get incoming example_packets eaf_bt_ingress_init) =
     fst (snd (fifo_run bt_put bt_get incoming example_packets eaf_bt_ingress_init)) @
       bt_content (snd (snd (fifo_run bt_put bt_get incoming example_packets eaf_bt_ingress_init))) \<and>
   map media_bytes (fst (fifo_run bt_put bt_get incoming example_packets eaf_bt_ingress_init)) = [[10, 20], [30]]"
proof -
  obtain acc del q where r: "fifo_run bt_put bt_get incoming example_packets eaf_bt_ingress_init = (acc, del, q)" by (metis prod_cases3)
  have "map media_bytes (fst (fifo_run bt_put bt_get incoming example_packets eaf_bt_ingress_init)) = [[10, 20], [30]]"
    by (simp add: example_packets_def bt_put_def bt_get_def eaf_bt_sbc_receive_def eaf_bt_ingress_pop_def bad_payload_def
        eaf_bt_ingress_init_def drop_packet_def incoming_def)
  then show ?thesis using bt_ingress_fifo [OF r] r by simp
qed

text \<open>
  After any packet handed to the queue, and whatever the consumer takes out meanwhile, the next accepted
  packet is marked discontinuous exactly when the one before was dropped or its sequence
  number is not the successor (modulo 65536) of the one before.
\<close>

theorem bt_gap_marked:
  assumes "bt_inv q" and "eaf_bt_sbc_receive q s1 t1 p1 = (rc1, q1)"
    and "q2 = ((\<lambda>q. snd (eaf_bt_ingress_pop q (Some out))) ^^ n) q1" and "length (pkt_data out) = EAF_BT_PACKET_BYTES"
    and "eaf_bt_sbc_receive q2 s2 t2 p2 = (EAF_OK, q3)"
  shows "bt_content q3 \<noteq> [] \<and> media_discontinuity (last (bt_content q3)) = (rc1 \<noteq> EAF_OK \<or> s2 \<noteq> s1 + 1)"
proof -
  have inv1: "bt_inv q1"
  proof (cases "rc1 = EAF_OK")
    case True
    then show ?thesis using receive_accepted(1) [OF assms(1)] assms(2) by blast
  qed (rule receive_refused(1) [OF assms(1,2)])
  have "bt_inv (((\<lambda>q. snd (eaf_bt_ingress_pop q (Some out))) ^^ n) q1) \<and>
      producer_fields (((\<lambda>q. snd (eaf_bt_ingress_pop q (Some out))) ^^ n) q1) = producer_fields q1"
  proof (induction n)
    case (Suc n)
    then show ?case using pop_spec(1) [OF _ assms(4) prod.collapse [symmetric]] by (simp add: pop_producer)
  qed (simp add: inv1)
  then have "bt_inv q2" "producer_fields q2 = producer_fields q1" using assms(3) by simp_all
  then show ?thesis using receive_accepted(2) [OF _ assms(5)] receive_gap [OF assms(2)] by simp
qed

theorem bt_gap_marked_witness:
  "media_discontinuity (last (bt_content (snd (eaf_bt_sbc_receive (snd (eaf_bt_sbc_receive eaf_bt_ingress_init 7 0 (Some [1, 10]))) 9 5 (Some [1, 11])))))"
proof -
  obtain q1 where q1: "eaf_bt_sbc_receive eaf_bt_ingress_init 7 0 (Some [1, 10]) = (EAF_OK, q1)"
    by (simp add: eaf_bt_sbc_receive_def bad_payload_def eaf_bt_ingress_init_def)
  have "length (bt_content q1) = 1" using receive_accepted(2) [OF bt_init_inv(1) q1] bt_init_inv(2) by simp
  then have "bt_inv q1 \<and> bt_level q1 = 1" using receive_accepted(1) [OF bt_init_inv(1) q1] by (simp add: bt_content_def)
  then obtain q3 where q3: "eaf_bt_sbc_receive q1 9 5 (Some [1, 11]) = (EAF_OK, q3)"
    using receive_accepts [of q1 9 5 "Some [1, 11]"] by (cases "eaf_bt_sbc_receive q1 9 5 (Some [1, 11])") (simp add: bad_payload_def)
  have "length (pkt_data zero_packet) = 1024" by (simp add: zero_packet_def)
  from bt_gap_marked [OF bt_init_inv(1) q1 _ this q3, of 0] show ?thesis using q1 q3 by simp
qed

end
