(* ===== verification/BT_Volume.thy ===== *)
theory BT_Volume
  imports DSP
begin

text \<open>
  \<open>apps/bt/bt_volume.c\<close>: the AVRCP volume applied to stereo samples, with a linear ramp of 256
  frames after every change.
\<close>

section \<open>State and operations\<close>

record eaf_bt_volume_t =
  vol_current :: u32
  vol_target :: u32
  vol_remaining :: u32

definition volume_target :: "u8 \<Rightarrow> bool \<Rightarrow> u32" where
  "volume_target volume muted =
     (let v = (if volume > 127 then 127 else ucast volume) :: u32
      in if muted then 0 else v * v * 65536 div (127 * 127))"

definition retarget :: "eaf_bt_volume_t \<Rightarrow> u8 \<Rightarrow> bool \<Rightarrow> eaf_bt_volume_t" where
  "retarget g volume muted =
     (let target = volume_target volume muted
      in if target \<noteq> vol_target g then g\<lparr>vol_target := target, vol_remaining := 256\<rparr> else g)"

definition ramp_step :: "eaf_bt_volume_t \<Rightarrow> eaf_bt_volume_t" where
  "ramp_step g =
     (if vol_remaining g \<noteq> 0
      then let delta = i32 (uint (vol_target g)) - i32 (uint (vol_current g))
           in g\<lparr>vol_current := word_of_int (i32 (uint (vol_current g)) + delta sdiv i32 (uint (vol_remaining g))),
                   vol_remaining := vol_remaining g - 1\<rparr>
      else g)"

definition gain_frame :: "int \<Rightarrow> nat \<Rightarrow> int list \<Rightarrow> int list" where
  "gain_frame g i stereo = fold (\<lambda>ch st. st[i * 2 + ch := eaf_q16_multiply (st ! (i * 2 + ch)) g]) [0..<2] stereo"

definition eaf_bt_volume_apply ::
  "eaf_bt_volume_t \<Rightarrow> int list \<Rightarrow> nat \<Rightarrow> u8 \<Rightarrow> bool \<Rightarrow> eaf_bt_volume_t \<times> int list" where
  "eaf_bt_volume_apply g stereo frames volume muted =
     fold (\<lambda>i (g, stereo). let g = ramp_step g in (g, gain_frame (i32 (uint (vol_current g))) i stereo))
       [0..<frames] (retarget g volume muted, stereo)"

section \<open>The ramp\<close>

text \<open>A gain never exceeds unity (65536), and a finished ramp is at its target.\<close>

definition vol_ok :: "eaf_bt_volume_t \<Rightarrow> bool" where
  "vol_ok g \<longleftrightarrow> vol_current g \<le> 65536 \<and> vol_target g \<le> 65536 \<and> vol_remaining g \<le> 256 \<and>
     (vol_remaining g = 0 \<longrightarrow> vol_current g = vol_target g)"

lemma small_i32: "(x :: u32) \<le> 65536 \<Longrightarrow> i32 (uint x) = uint x \<and> uint x \<le> 65536"
proof -
  assume "x \<le> 65536"
  then have "uint x \<le> 65536" by (simp add: word_le_def)
  moreover have "0 \<le> uint x" by simp
  ultimately have "- 2147483648 \<le> uint x \<and> uint x < 2147483648" by linarith
  then have "is_i32 (uint x)" by (simp add: is_i32_def)
  then show ?thesis using \<open>uint x \<le> 65536\<close> by simp
qed

lemma volume_target_bound: "volume_target volume muted \<le> 65536"
proof -
  let ?v = "if volume > 127 then 127 else ucast volume :: u32"
  have v: "unat ?v \<le> 127"
    by (simp add: not_less word_le_nat_alt)
  have vv: "unat ?v * unat ?v \<le> 127 * 127" by (intro mult_mono v) simp_all
  have "unat (?v * ?v * 65536) = unat ?v * unat ?v * 65536"
    using vv by (simp add: unat_word_ariths del: if_split)
  then have "unat (?v * ?v * 65536 div (127 * 127)) = unat ?v * unat ?v * 65536 div 16129"
    by (simp add: unat_div del: if_split)
  also have "\<dots> \<le> 127 * 127 * 65536 div 16129" using vv by (intro div_le_mono) simp
  finally show ?thesis by (simp add: volume_target_def Let_def word_le_nat_alt del: if_split)
qed

lemma retarget_ok: "vol_ok g \<Longrightarrow> vol_ok (retarget g volume muted)" "vol_target (retarget g volume muted) = volume_target volume muted"
  using volume_target_bound [of volume muted] by (auto simp: retarget_def vol_ok_def Let_def)

text \<open>A step moves the gain towards the target without passing it, and the last one reaches it.\<close>

lemma sdiv_between:
  assumes "1 \<le> (r :: int)"
  shows "0 \<le> d \<Longrightarrow> 0 \<le> d sdiv r \<and> d sdiv r \<le> d" and "d \<le> 0 \<Longrightarrow> d \<le> d sdiv r \<and> d sdiv r \<le> 0"
proof -
  have "\<bar>d\<bar> \<le> r * \<bar>d\<bar>" using assms mult_right_mono [of 1 r "\<bar>d\<bar>"] by simp
  then have "\<bar>d sdiv r\<bar> \<le> \<bar>d\<bar>" using assms by (intro abs_sdiv_bound) simp_all
  then show "0 \<le> d \<Longrightarrow> 0 \<le> d sdiv r \<and> d sdiv r \<le> d" "d \<le> 0 \<Longrightarrow> d \<le> d sdiv r \<and> d sdiv r \<le> 0"
    using sdiv_sign [of r d] assms by simp_all
qed

definition between :: "u32 \<Rightarrow> u32 \<Rightarrow> u32 \<Rightarrow> bool" where
  "between a b x \<longleftrightarrow> (a \<le> x \<and> x \<le> b) \<or> (b \<le> x \<and> x \<le> a)"

lemma ramp_step_spec:
  assumes "vol_ok g" and "vol_remaining g \<noteq> 0"
  defines "g' \<equiv> ramp_step g"
  shows "between (vol_current g) (vol_target g) (vol_current g')" and "vol_target g' = vol_target g"
    and "unat (vol_remaining g) = Suc (unat (vol_remaining g'))" and "vol_remaining g' = 0 \<longrightarrow> vol_current g' = vol_target g"
proof -
  let ?c = "uint (vol_current g)" and ?t = "uint (vol_target g)" and ?r = "uint (vol_remaining g)"
  have c: "i32 ?c = ?c" "?c \<le> 65536" and t: "i32 ?t = ?t" "?t \<le> 65536"
    using assms(1) small_i32 by (simp_all add: vol_ok_def)
  have "vol_remaining g \<le> 65536" using assms(1) by (auto simp: vol_ok_def elim: order_trans)
  then have r: "i32 ?r = ?r" using small_i32 by blast
  have r1: "1 \<le> ?r" using assms(2) by (metis int_one_le_iff_zero_less uint_0_iff word_of_int_uint unsigned_greater_eq order_le_less)
  let ?n = "?c + (?t - ?c) sdiv ?r"
  have cur: "vol_current g' = word_of_int ?n" "vol_remaining g' = vol_remaining g - 1" "vol_target g' = vol_target g"
    using assms(2) c t r by (simp_all add: g'_def ramp_step_def Let_def)
  have b: "(?c \<le> ?n \<and> ?n \<le> ?t) \<or> (?t \<le> ?n \<and> ?n \<le> ?c)"
    using sdiv_between [OF r1, of "?t - ?c"] by linarith
  have "0 \<le> ?c" "0 \<le> ?t" by simp_all
  then have "0 \<le> ?n" "?n \<le> 65536" using b c(2) t(2) by linarith+
  then have n: "uint (word_of_int ?n :: u32) = ?n" unfolding uint_word_of_int by (simp add: take_bit_eq_mod)
  show "between (vol_current g) (vol_target g) (vol_current g')"
    using b n unfolding cur between_def word_le_def by simp
  show "vol_target g' = vol_target g" by (rule cur(3))
  have "unat (vol_remaining g - 1) = unat (vol_remaining g) - 1" by (rule unat_minus_one [OF assms(2)])
  moreover have "0 < unat (vol_remaining g)" using assms(2) by (simp add: unat_gt_0)
  ultimately show "unat (vol_remaining g) = Suc (unat (vol_remaining g'))" unfolding cur by simp
  show "vol_remaining g' = 0 \<longrightarrow> vol_current g' = vol_target g"
  proof
    assume "vol_remaining g' = 0"
    then have "vol_remaining g = 1" unfolding cur by simp
    then have "?n = ?t" by simp
    then show "vol_current g' = vol_target g" unfolding cur by simp
  qed
qed

lemma ramp_step_ok:
  assumes "vol_ok g"
  shows "vol_ok (ramp_step g)" and "vol_target (ramp_step g) = vol_target g"
    and "between (vol_current g) (vol_target g) (vol_current (ramp_step g))"
proof -
  have "vol_ok (ramp_step g) \<and> vol_target (ramp_step g) = vol_target g \<and>
    between (vol_current g) (vol_target g) (vol_current (ramp_step g))"
  proof (cases "vol_remaining g = 0")
    case True
    then show ?thesis using assms by (auto simp: ramp_step_def between_def)
  next
    case False
    note S = ramp_step_spec [OF assms False]
    have "unat (vol_remaining (ramp_step g)) \<le> 256" using S(3) assms by (simp add: vol_ok_def word_le_nat_alt)
    moreover have "vol_current (ramp_step g) \<le> 65536" using S(1) assms by (auto simp: vol_ok_def between_def elim: order_trans)
    ultimately show ?thesis using S assms by (simp add: vol_ok_def word_le_nat_alt)
  qed
  then show "vol_ok (ramp_step g)" "vol_target (ramp_step g) = vol_target g"
    "between (vol_current g) (vol_target g) (vol_current (ramp_step g))" by simp_all
qed

lemma ramp_ok:
  assumes "vol_ok g"
  shows "vol_ok ((ramp_step ^^ n) g)" and "vol_target ((ramp_step ^^ n) g) = vol_target g"
  using assms ramp_step_ok by (induction n) simp_all

lemma ramp_ends:
  assumes "vol_ok g" and "unat (vol_remaining g) \<le> n"
  shows "vol_current ((ramp_step ^^ n) g) = vol_target g"
  using assms
proof (induction n arbitrary: g)
  case 0
  then show ?case by (simp add: vol_ok_def unat_eq_0)
next
  case (Suc n)
  show ?case
  proof (cases "vol_remaining g = 0")
    case True
    then have "ramp_step g = g" by (simp add: ramp_step_def)
    then show ?thesis using Suc.IH [of g] Suc.prems True by (simp add: funpow_swap1)
  next
    case False
    note S = ramp_step_spec [OF Suc.prems(1) False]
    have "vol_current ((ramp_step ^^ n) (ramp_step g)) = vol_target (ramp_step g)"
      by (rule Suc.IH) (use ramp_step_ok [OF Suc.prems(1)] S(3) Suc.prems(2) in simp_all)
    then show ?thesis using S(2) by (simp add: funpow_swap1)
  qed
qed

section \<open>The samples\<close>

text \<open>The gain of frame \<open>i\<close>.\<close>

definition frame_gain :: "eaf_bt_volume_t \<Rightarrow> nat \<Rightarrow> int" where
  "frame_gain g i = int (unat (vol_current ((ramp_step ^^ Suc i) g)))"

lemma gain_frame_nth:
  assumes "i * 2 + 2 \<le> length st"
  shows "length (gain_frame g i st) = length st"
    and "j < length st \<Longrightarrow> gain_frame g i st ! j = (if j div 2 = i then eaf_q16_multiply (st ! j) g else st ! j)"
proof -
  have two: "[0..<2] = [0, Suc 0]" by (simp add: upt_rec)
  show "length (gain_frame g i st) = length st" by (simp add: gain_frame_def two)
  assume j: "j < length st"
  show "gain_frame g i st ! j = (if j div 2 = i then eaf_q16_multiply (st ! j) g else st ! j)"
  proof (cases "j div 2 = i")
    case True
    then have "j = i * 2 \<or> j = i * 2 + 1" by auto
    then show ?thesis using True j assms by (auto simp: gain_frame_def two nth_list_update)
  next
    case False
    then have "j \<noteq> i * 2 \<and> j \<noteq> i * 2 + 1" by auto
    then show ?thesis using False by (simp add: gain_frame_def two)
  qed
qed

lemma apply_loop:
  assumes "vol_ok g" and "2 * frames \<le> length st"
  defines "r \<equiv> fold (\<lambda>i (g, stereo). let g = ramp_step g in (g, gain_frame (i32 (uint (vol_current g))) i stereo))
       [0..<frames] (g, st)"
  shows "fst r = (ramp_step ^^ frames) g" and "length (snd r) = length st"
    and "j < length st \<Longrightarrow> snd r ! j = (if j < 2 * frames then eaf_q16_multiply (st ! j) (frame_gain g (j div 2)) else st ! j)"
proof -
  let ?f = "\<lambda>i (g, stereo). let g = ramp_step g in (g, gain_frame (i32 (uint (vol_current g))) i stereo)"
  have "fst (fold ?f [0..<frames] (g, st)) = (ramp_step ^^ frames) g \<and> length (snd (fold ?f [0..<frames] (g, st))) = length st \<and>
    (\<forall>j < length st. snd (fold ?f [0..<frames] (g, st)) ! j =
       (if j < 2 * frames then eaf_q16_multiply (st ! j) (frame_gain g (j div 2)) else st ! j))"
    using assms(2)
  proof (induction frames)
    case (Suc n)
    obtain g1 s1 where f: "fold ?f [0..<n] (g, st) = (g1, s1)" by fastforce
    have IH: "g1 = (ramp_step ^^ n) g" "length s1 = length st"
      "\<And>j. j < length st \<Longrightarrow> s1 ! j = (if j < 2 * n then eaf_q16_multiply (st ! j) (frame_gain g (j div 2)) else st ! j)"
      using Suc f by simp_all
    have ok: "vol_ok (ramp_step g1)" using ramp_ok(1) [OF assms(1), of "Suc n"] IH(1) by simp
    then have fg: "i32 (uint (vol_current (ramp_step g1))) = frame_gain g n"
    proof -
      have "i32 (uint (vol_current (ramp_step g1))) = uint (vol_current (ramp_step g1))"
        using small_i32 ok by (simp add: vol_ok_def)
      then show ?thesis by (simp add: frame_gain_def IH(1))
    qed
    have fit: "n * 2 + 2 \<le> length s1" using Suc.prems IH(2) by simp
    note G = gain_frame_nth [OF fit, where g = "frame_gain g n"]
    have "gain_frame (frame_gain g n) n s1 ! j =
        (if j < 2 * Suc n then eaf_q16_multiply (st ! j) (frame_gain g (j div 2)) else st ! j)" if "j < length st" for j
    proof (cases "j div 2 = n")
      case True
      then have "\<not> j < 2 * n" "j < 2 * Suc n" by auto
      then show ?thesis using G(2) [of j] IH(2,3) that True by simp
    next
      case False
      then have "j < 2 * n \<longleftrightarrow> j < 2 * Suc n" by auto
      then show ?thesis using G(2) [of j] IH(2,3) that False by simp
    qed
    then show ?case using f IH(1,2) G(1) fg by (simp add: Let_def)
  qed simp
  then show "fst r = (ramp_step ^^ frames) g" "length (snd r) = length st"
    "j < length st \<Longrightarrow> snd r ! j = (if j < 2 * frames then eaf_q16_multiply (st ! j) (frame_gain g (j div 2)) else st ! j)"
    unfolding r_def by auto
qed

lemma q16_bound:
  assumes "is_i32 x" and "0 \<le> g" and "g \<le> 65536"
  shows "\<bar>eaf_q16_multiply x g\<bar> \<le> \<bar>x\<bar>" and "is_i32 (eaf_q16_multiply x g)"
proof -
  have "\<bar>eaf_q16_multiply x g\<bar> \<le> \<bar>x\<bar> \<and> is_i32 (eaf_q16_multiply x g)"
  proof (cases "g = 65536")
    case False
    then have "is_i32 (g * 32768)" "0 \<le> g * 32768" "g * 32768 \<noteq> INT32_MAX" using assms by (auto simp: is_i32_def)
    then show ?thesis using q31_exact [OF assms(1), of "g * 32768"] q31_range [OF assms(1), of "g * 32768"] False assms(3)
      by (simp add: eaf_q16_multiply_def)
  qed (simp add: eaf_q16_multiply_def assms(1))
  then show "\<bar>eaf_q16_multiply x g\<bar> \<le> \<bar>x\<bar>" "is_i32 (eaf_q16_multiply x g)" by simp_all
qed

section \<open>Properties\<close>

text \<open>
  Applying the Bluetooth volume scales both samples of frame \<open>i\<close> by the gain of the ramp after \<open>i + 1\<close>
  steps, which is never above unity, so that no sample grows or leaves 32 bits; nothing behind the given
  frames changes; and once 256 frames have passed since the change, the gain is exactly the
  squared volume (or zero when muted) and the ramp is over.
\<close>

theorem bt_volume_ramp:
  assumes "vol_ok g" and "list_all is_i32 stereo" and "2 * frames \<le> length stereo"
    and "eaf_bt_volume_apply g stereo frames volume muted = (g', out)"
  shows "vol_ok g' \<and> length out = length stereo \<and> list_all is_i32 out \<and> (256 \<le> frames \<longrightarrow> vol_current g' = volume_target volume muted) \<and>
    (\<forall>j < length stereo. out ! j = (if j < 2 * frames
        then eaf_q16_multiply (stereo ! j) (frame_gain (retarget g volume muted) (j div 2)) else stereo ! j) \<and>
      \<bar>out ! j\<bar> \<le> \<bar>stereo ! j\<bar>)"
proof -
  let ?g = "retarget g volume muted"
  have ok: "vol_ok ?g" by (rule retarget_ok(1) [OF assms(1)])
  note L = apply_loop [OF ok assms(3)]
  have r: "g' = (ramp_step ^^ frames) ?g" "length out = length stereo"
    and nth: "\<And>j. j < length stereo \<Longrightarrow> out ! j = (if j < 2 * frames then eaf_q16_multiply (stereo ! j) (frame_gain ?g (j div 2)) else stereo ! j)"
    using L assms(4) unfolding eaf_bt_volume_apply_def by simp_all
  have fg: "0 \<le> frame_gain ?g i \<and> frame_gain ?g i \<le> 65536" for i
    using ramp_ok(1) [OF ok, of "Suc i"] by (simp add: frame_gain_def vol_ok_def word_le_def del: funpow.simps)
  have x: "is_i32 (stereo ! j)" if "j < length stereo" for j using assms(2) that by (simp add: list_all_length)
  have out: "\<bar>out ! j\<bar> \<le> \<bar>stereo ! j\<bar> \<and> is_i32 (out ! j)" if "j < length stereo" for j
    using nth [OF that] q16_bound [OF x [OF that]] fg x [OF that] by simp
  have "unat (vol_remaining ?g) \<le> 256" using ok by (simp add: vol_ok_def word_le_nat_alt)
  then have e: "256 \<le> frames \<longrightarrow> vol_current g' = volume_target volume muted"
    using ramp_ends [OF ok, of frames] retarget_ok(2) [of g volume muted] r(1) by simp
  have "vol_ok g'" using ramp_ok(1) [OF ok] r(1) by simp
  moreover have "list_all is_i32 out" using out r(2) by (simp add: list_all_length)
  ultimately show ?thesis using r(2) e nth out by blast
qed

theorem bt_volume_ramp_witness:
  "vol_current (fst (eaf_bt_volume_apply \<lparr>vol_current = 0, vol_target = 0, vol_remaining = 0\<rparr> (replicate 600 1000) 256 127 False)) = 65536"
proof -
  let ?g = "\<lparr>vol_current = 0, vol_target = 0, vol_remaining = 0\<rparr>"
  obtain g' out where r: "eaf_bt_volume_apply ?g (replicate 600 1000) 256 127 False = (g', out)" by fastforce
  have "vol_ok ?g" by (simp add: vol_ok_def)
  moreover have "list_all is_i32 (replicate 600 1000)" by (simp add: list_all_length is_i32_def)
  ultimately have "vol_current g' = volume_target 127 False" using bt_volume_ramp [OF _ _ _ r] by simp
  then show ?thesis using r by (simp add: volume_target_def)
qed

end
