(* ===== verification/BT_Decoder.thy ===== *)
theory BT_Decoder
  imports BT_Ingress Reservoir
begin

text \<open>
  \<open>apps/bt/bt_decoder.c\<close> and the codec adapter \<open>apps/decoders/sbc_oi.c\<close>: the worker that takes media
  packets from the ingress queue, decodes one SBC frame per step and writes the samples to
  the reservoir, holding them back while the reservoir is full. The decoder callbacks are a parameter;
  the queue and the reservoir the worker points to are fields of its state. The theorem is that the steps,
  interleaved with reception and playback, compute the decoding of the whole packet stream.
\<close>

section \<open>State and operations\<close>

text \<open>
  The callbacks on the state \<open>'c\<close> of the codec. \<open>frame\<close> gets the bytes left in the packet and the sample array, and
  returns its result, the bytes consumed, the array, the frame count and the format.
\<close>

record 'c eaf_sbc_decoder_t =
  sbc_reset :: "('c \<Rightarrow> eaf_result_t \<times> 'c) option"
  sbc_frame :: "('c \<Rightarrow> u8 list \<Rightarrow> int list \<Rightarrow> eaf_result_t \<times> nat \<times> int list \<times> u32 \<times> eaf_format_t \<times> 'c) option"
  sbc_ctx :: 'c

record 'c eaf_bt_decoder_t =
  bd_ingress :: "eaf_bt_ingress_t option"
  bd_reservoir :: "eaf_reservoir_t option"
  bd_decoder :: "'c eaf_sbc_decoder_t"
  bd_packet :: eaf_bt_packet_t
  bd_offset :: nat
  bd_frames_left :: u32
  pcm16 :: "int list"
  pcm31 :: "int list"
  bd_pending :: u32
  bd_sent :: u32
  bd_rejected :: u32

definition call_reset :: "'c eaf_bt_decoder_t \<Rightarrow> eaf_result_t \<times> 'c eaf_bt_decoder_t" where
  "call_reset d = (let (rc, ctx) = the (sbc_reset (bd_decoder d)) (sbc_ctx (bd_decoder d))
     in (rc, d\<lparr>bd_decoder := (bd_decoder d)\<lparr>sbc_ctx := ctx\<rparr>\<rparr>))"

definition eaf_bt_decoder_reset :: "'c eaf_bt_decoder_t \<Rightarrow> eaf_result_t \<times> 'c eaf_bt_decoder_t" where
  "eaf_bt_decoder_reset d =
     (if Option.is_none (sbc_reset (bd_decoder d)) then (EAF_INVALID, d)
      else call_reset (d\<lparr>bd_pending := 0, bd_sent := 0, bd_frames_left := 0, bd_offset := 0\<rparr>))"

definition eaf_bt_decoder_init ::
  "'c eaf_bt_decoder_t \<Rightarrow> eaf_bt_ingress_t option \<Rightarrow> eaf_reservoir_t option \<Rightarrow> 'c eaf_sbc_decoder_t option \<Rightarrow>
   eaf_result_t \<times> 'c eaf_bt_decoder_t" where
  "eaf_bt_decoder_init d q r codec =
     (case (q, r, codec) of
        (Some q, Some r, Some codec) \<Rightarrow>
          if storage r = [] \<or> Option.is_none (sbc_frame codec) \<or> Option.is_none (sbc_reset codec) \<or>
             num_channels (res_format r) \<noteq> 2 \<or> channel_mask (res_format r) \<noteq> 3 then (EAF_INVALID, d)
          else call_reset
            \<lparr>bd_ingress = Some q, bd_reservoir = Some r, bd_decoder = codec, bd_packet = zero_packet, bd_offset = 0, bd_frames_left = 0,
             pcm16 = replicate 256 0, pcm31 = replicate 256 0, bd_pending = 0, bd_sent = 0, bd_rejected = 0\<rparr>
      | _ \<Rightarrow> (EAF_INVALID, d))"

definition reject :: "'c eaf_bt_decoder_t \<Rightarrow> eaf_result_t \<Rightarrow> eaf_result_t \<times> 'c eaf_bt_decoder_t" where
  "reject d rc =
     (let (reset, d) = call_reset (d\<lparr>bd_rejected := bd_rejected d + 1, bd_pending := 0, bd_sent := 0, bd_frames_left := 0\<rparr>)
      in (if reset \<noteq> EAF_OK then reset else rc, d))"

text \<open>\<open>sent += eaf_reservoir_write(reservoir, pcm31 + 2 * sent, pending - sent)\<close>, for the retry and for the fresh frame (\<open>sent\<close> is 0 there).\<close>

definition write_pcm :: "'c eaf_bt_decoder_t \<Rightarrow> 'c eaf_bt_decoder_t" where
  "write_pcm d =
     (let (k, r) = eaf_reservoir_write (the (bd_reservoir d)) (Some (drop (unat (bd_sent d) * 2) (pcm31 d))) (bd_pending d - bd_sent d)
      in d\<lparr>bd_sent := bd_sent d + k, bd_reservoir := Some r\<rparr>)"

text \<open>Taking the next packet: \<open>None\<close> when the queue is empty, otherwise a result of the reset a discontinuous packet asks for.\<close>

definition next_packet :: "'c eaf_bt_decoder_t \<Rightarrow> (eaf_result_t \<times> 'c eaf_bt_decoder_t) option" where
  "next_packet d =
     (case eaf_bt_ingress_pop (the (bd_ingress d)) (Some (bd_packet d)) of
        (None, q) \<Rightarrow> None
      | (Some p, q) \<Rightarrow>
          let d = d\<lparr>bd_ingress := Some q, bd_packet := p, bd_offset := 0, bd_frames_left := ucast (frame_count_sbc p)\<rparr>
          in Some (if pkt_discontinuity p then call_reset d else (EAF_OK, d)))"

definition decode_one :: "'c eaf_bt_decoder_t \<Rightarrow> eaf_result_t \<times> 'c eaf_bt_decoder_t" where
  "decode_one d =
     (let left = unat (pkt_length (bd_packet d)) - bd_offset d;
          data = take left (drop (bd_offset d) (pkt_data (bd_packet d)));
          (rc, used, pcm, frames, fmt, ctx) = the (sbc_frame (bd_decoder d)) (sbc_ctx (bd_decoder d)) data (pcm16 d);
          d = d\<lparr>pcm16 := pcm, bd_decoder := (bd_decoder d)\<lparr>sbc_ctx := ctx\<rparr>\<rparr>
      in if rc \<noteq> EAF_OK then reject d rc
         else if used = 0 \<or> used > left \<or> frames = 0 \<or> frames > 128 \<or> \<not> eaf_format_equal fmt (res_format (the (bd_reservoir d)))
         then reject d EAF_INVALID
         else let d = d\<lparr>bd_offset := bd_offset d + used, bd_frames_left := bd_frames_left d - 1\<rparr>
              in if (bd_frames_left d = 0 \<and> bd_offset d \<noteq> unat (pkt_length (bd_packet d))) \<or>
                    (bd_frames_left d \<noteq> 0 \<and> bd_offset d = unat (pkt_length (bd_packet d)))
                 then reject d EAF_INVALID
                 else (EAF_OK, write_pcm (d\<lparr>pcm31 := eaf_s16_to_q31_interleaved (pcm16 d) (unat frames) 2 (pcm31 d) 2,
                         bd_pending := frames, bd_sent := 0\<rparr>)))"

definition eaf_bt_decoder_step :: "'c eaf_bt_decoder_t \<Rightarrow> eaf_result_t \<times> 'c eaf_bt_decoder_t" where
  "eaf_bt_decoder_step d =
     (if Option.is_none (bd_ingress d) \<or> Option.is_none (bd_reservoir d) then (EAF_INVALID, d)
      else let d = (if bd_pending d > bd_sent d then write_pcm d else d)
           in if bd_pending d > bd_sent d then (EAF_OK, d)
              else let d = d\<lparr>bd_pending := 0, bd_sent := 0\<rparr>
                   in if bd_frames_left d \<noteq> 0 then decode_one d
                      else case next_packet d of None \<Rightarrow> (EAF_OK, d)
                           | Some (rc, d) \<Rightarrow> if rc \<noteq> EAF_OK then reject d rc else decode_one d)"

section \<open>The OpenInterface SBC adapter\<close>

text \<open>
  The functions of the codec library \<open>sbc_oi.c\<close> calls. \<open>oi_reset\<close> is the reset of a zeroed context; \<open>oi_decode\<close>
  returns whether it succeeded, the bytes left, the samples, the bytes of samples and the context.
\<close>

record 'c oi_codec =
  oi_reset :: "bool \<times> 'c"
  oi_decode :: "'c \<Rightarrow> u8 list \<Rightarrow> int list \<Rightarrow> u32 \<Rightarrow> bool \<times> u32 \<times> int list \<times> u32 \<times> 'c"
  oi_frequency :: "'c \<Rightarrow> u32"

definition sbc_oi_reset :: "'c oi_codec \<Rightarrow> 'c \<Rightarrow> eaf_result_t \<times> 'c" where
  "sbc_oi_reset oi s = (let (ok, s) = oi_reset oi in (if ok then EAF_OK else EAF_IO, s))"

definition sbc_oi_frame ::
  "'c oi_codec \<Rightarrow> 'c \<Rightarrow> u8 list \<Rightarrow> int list \<Rightarrow> eaf_result_t \<times> nat \<times> int list \<times> u32 \<times> eaf_format_t \<times> 'c" where
  "sbc_oi_frame oi s data pcm =
     (if length data < 4 \<or> length data > UINT32_MAX then (EAF_INVALID, 0, pcm, 0, zero_format, s)
      else if data ! 0 \<noteq> 0x9c then (EAF_INVALID, 0, pcm, 0, zero_format, s)
      else let (ok, left, pcm, bytes, s) = oi_decode oi s data pcm 512
           in if \<not> ok then (EAF_INVALID, 0, pcm, 0, zero_format, s)
              else (EAF_OK, length data - unat left, pcm, bytes div 4, mk_format (oi_frequency oi s) 2 3, s))"

definition eaf_sbc_oi_init :: "'c oi_codec \<Rightarrow> 'c \<Rightarrow> eaf_result_t \<times> 'c eaf_sbc_decoder_t" where
  "eaf_sbc_oi_init oi state =
     (let (rc, state) = sbc_oi_reset oi state
      in (rc, \<lparr>sbc_reset = Some (sbc_oi_reset oi), sbc_frame = Some (sbc_oi_frame oi), sbc_ctx = state\<rparr>))"

section \<open>Decoding a packet stream\<close>

text \<open>
  The reference: the samples of a stream of packets when every frame is decoded at once.
  A state is the codec context with the sample array.
\<close>

type_synonym 'c codec_state = "'c \<times> int list"

definition widen :: "int list \<Rightarrow> u32 \<Rightarrow> int list" where
  "widen pcm frames = map eaf_pcm16_to_q31 (take (unat frames * 2) pcm)"

definition dropped_packet :: "'c eaf_sbc_decoder_t \<Rightarrow> 'c codec_state \<Rightarrow> 'c codec_state" where
  "dropped_packet dec st = (snd (the (sbc_reset dec) (fst st)), snd st)"

fun packet_pcm :: "'c eaf_sbc_decoder_t \<Rightarrow> eaf_format_t \<Rightarrow> 'c codec_state \<Rightarrow> u8 list \<Rightarrow> nat \<Rightarrow> 'c codec_state \<times> int list" where
  "packet_pcm dec fmt st bytes 0 = (st, [])"
| "packet_pcm dec fmt st bytes (Suc n) =
     (let (rc, used, pcm, frames, f, ctx) = the (sbc_frame dec) (fst st) bytes (snd st)
      in if rc \<noteq> EAF_OK \<or> used = 0 \<or> used > length bytes \<or> frames = 0 \<or> frames > 128 \<or> f \<noteq> fmt \<or>
            (n = 0) \<noteq> (used = length bytes)
         then (dropped_packet dec (ctx, pcm), [])
         else let (st', out) = packet_pcm dec fmt (ctx, pcm) (drop used bytes) n in (st', widen pcm frames @ out))"

fun stream_pcm :: "'c eaf_sbc_decoder_t \<Rightarrow> eaf_format_t \<Rightarrow> 'c codec_state \<Rightarrow> bt_media list \<Rightarrow> int list" where
  "stream_pcm dec fmt st [] = []"
| "stream_pcm dec fmt st (m # ms) =
     (let (rc, ctx) = (if media_discontinuity m then the (sbc_reset dec) (fst st) else (EAF_OK, fst st))
      in if rc \<noteq> EAF_OK then stream_pcm dec fmt (dropped_packet dec (ctx, snd st)) ms
         else let (st', out) = packet_pcm dec fmt (ctx, snd st) (media_bytes m) (unat (media_frames m))
              in out @ stream_pcm dec fmt st' ms)"

section \<open>What a worker still has to deliver\<close>

text \<open>The callbacks fill an array of 256 16-bit samples.\<close>

definition sbc_ok :: "'c eaf_sbc_decoder_t \<Rightarrow> bool" where
  "sbc_ok dec \<longleftrightarrow> (\<exists>reset frame. sbc_reset dec = Some reset \<and> sbc_frame dec = Some frame \<and>
     (\<forall>ctx bytes pcm rc used pcm' frames f ctx'. length pcm = 256 \<and> list_all is_i16 pcm \<and>
        frame ctx bytes pcm = (rc, used, pcm', frames, f, ctx') \<longrightarrow> length pcm' = 256 \<and> list_all is_i16 pcm'))"

definition queue_frames_ok :: "eaf_bt_ingress_t \<Rightarrow> bool" where
  "queue_frames_ok q \<longleftrightarrow> bt_inv q \<and> list_all (\<lambda>m. media_frames m \<noteq> 0) (bt_content q)"

definition bd_ok :: "'c eaf_bt_decoder_t \<Rightarrow> bool" where
  "bd_ok d \<longleftrightarrow> (\<exists>q r. bd_ingress d = Some q \<and> bd_reservoir d = Some r \<and> queue_frames_ok q \<and> reservoir_inv r \<and> res_channels r = 2) \<and>
     sbc_ok (bd_decoder d) \<and> packet_ok (bd_packet d) \<and> bd_offset d \<le> unat (pkt_length (bd_packet d)) \<and>
     length (pcm16 d) = 256 \<and> list_all is_i16 (pcm16 d) \<and> length (pcm31 d) = 256 \<and> list_all is_i32 (pcm31 d) \<and>
     bd_sent d \<le> bd_pending d \<and> unat (bd_pending d) \<le> 128"

definition retained_pcm :: "'c eaf_bt_decoder_t \<Rightarrow> int list" where
  "retained_pcm d = drop (unat (bd_sent d) * 2) (take (unat (bd_pending d) * 2) (pcm31 d))"

definition packet_left :: "'c eaf_bt_decoder_t \<Rightarrow> u8 list" where
  "packet_left d = drop (bd_offset d) (media_bytes (media (bd_packet d)))"

text \<open>The samples still to come when the packets \<open>later\<close> follow the queued ones.\<close>

definition upcoming :: "'c eaf_bt_decoder_t \<Rightarrow> bt_media list \<Rightarrow> int list" where
  "upcoming d later =
     (let fmt = res_format (the (bd_reservoir d));
          (st, out) = packet_pcm (bd_decoder d) fmt (sbc_ctx (bd_decoder d), pcm16 d) (packet_left d) (unat (bd_frames_left d))
      in retained_pcm d @ out @ stream_pcm (bd_decoder d) fmt st (bt_content (the (bd_ingress d)) @ later))"

definition total_pcm :: "'c eaf_bt_decoder_t \<Rightarrow> bt_media list \<Rightarrow> int list" where
  "total_pcm d later = res_queue (the (bd_reservoir d)) @ upcoming d later"

lemma packet_pcm_ctx [simp]: "packet_pcm (dec\<lparr>sbc_ctx := x\<rparr>) fmt st bytes n = packet_pcm dec fmt st bytes n"
  by (induction n arbitrary: st bytes) (simp_all add: dropped_packet_def Let_def split: prod.split)

lemma stream_pcm_ctx [simp]: "stream_pcm (dec\<lparr>sbc_ctx := x\<rparr>) fmt st ms = stream_pcm dec fmt st ms"
  by (induction ms arbitrary: st) (simp_all add: dropped_packet_def Let_def split: prod.split)

lemma sbc_ok_ctx [simp]: "sbc_ok (dec\<lparr>sbc_ctx := x\<rparr>) = sbc_ok dec"
  by (simp add: sbc_ok_def)

lemma sbc_ok_frame:
  assumes "sbc_ok dec" and "length pcm = 256" "list_all is_i16 pcm"
    and "the (sbc_frame dec) ctx bytes pcm = (rc, used, pcm', frames, f, ctx')"
  shows "length pcm' = 256 \<and> list_all is_i16 pcm'"
proof -
  obtain frame where "sbc_frame dec = Some frame"
    "\<forall>ctx bytes pcm rc used pcm' frames f ctx'. length pcm = 256 \<and> list_all is_i16 pcm \<and>
        frame ctx bytes pcm = (rc, used, pcm', frames, f, ctx') \<longrightarrow> length pcm' = 256 \<and> list_all is_i16 pcm'"
    using assms(1) unfolding sbc_ok_def by blast
  then show ?thesis using assms(2-4) by (metis option.sel)
qed

lemma media_bytes_left:
  assumes "packet_ok (bd_packet d)"
  shows "take (unat (pkt_length (bd_packet d)) - bd_offset d) (drop (bd_offset d) (pkt_data (bd_packet d))) = packet_left d"
    and "length (packet_left d) = unat (pkt_length (bd_packet d)) - bd_offset d"
  using assms by (auto simp: packet_left_def media_def drop_take packet_ok_def)

section \<open>The steps\<close>

lemma upmix_stereo: "n * 2 \<le> length src \<Longrightarrow> upmix src n 2 2 = take (n * 2) src"
proof (induction n)
  case (Suc n)
  have "take (Suc n * 2) src = take (n * 2) src @ [src ! (n * 2), src ! (n * 2 + 1)]"
    using Suc.prems by (simp add: take_Suc_conv_app_nth)
  then show ?case using Suc by (simp add: upmix_def frame_of_def)
qed (simp add: upmix_def)

lemma widen_pcm:
  assumes "length pcm = 256" and "list_all is_i16 pcm" and "length dst = 256" and "frames \<le> 128"
  shows "eaf_s16_to_q31_interleaved pcm (unat frames) 2 dst 2 = blit dst 0 (widen pcm frames)"
    and "length (widen pcm frames) = unat frames * 2" and "list_all is_i32 (widen pcm frames)"
proof -
  have n: "unat frames * 2 \<le> 256" using assms(4) by (simp add: word_le_nat_alt)
  have idx: "i * 2 + (if (2::nat) = 2 then 1 else 0) < length pcm" if "i < unat frames" for i using that n assms(1) by simp
  have "eaf_s16_to_q31_interleaved pcm (unat frames) 2 dst 2 = eaf_q31_interleaved (map eaf_pcm16_to_q31 pcm) (unat frames) 2 dst 2"
    by (rule s16_as_q31) (use idx in simp)
  also have "\<dots> = blit dst 0 (upmix (map eaf_pcm16_to_q31 pcm) (unat frames) 2 2)"
    by (rule q31_interleaved_blit) (use n assms(3) in simp)
  also have "upmix (map eaf_pcm16_to_q31 pcm) (unat frames) 2 2 = widen pcm frames"
    using upmix_stereo [of "unat frames" "map eaf_pcm16_to_q31 pcm"] n assms(1) by (simp add: widen_def take_map)
  finally show "eaf_s16_to_q31_interleaved pcm (unat frames) 2 dst 2 = blit dst 0 (widen pcm frames)" .
  show "length (widen pcm frames) = unat frames * 2" using n assms(1) by (simp add: widen_def)
  show "list_all is_i32 (widen pcm frames)"
    using assms(2) by (auto simp: widen_def list_all_iff is_i16_def is_i32_def eaf_pcm16_to_q31_def dest!: in_set_takeD)
qed

lemma write_pcm_total:
  assumes "bd_ok d"
  shows "bd_ok (write_pcm d)" and "total_pcm (write_pcm d) later = total_pcm d later"
proof -
  obtain q r where qr: "bd_ingress d = Some q" "bd_reservoir d = Some r" "queue_frames_ok q" "reservoir_inv r" "res_channels r = 2"
    using assms by (auto simp: bd_ok_def)
  let ?src = "drop (unat (bd_sent d) * 2) (pcm31 d)"
  obtain k r' where w: "eaf_reservoir_write r (Some ?src) (bd_pending d - bd_sent d) = (k, r')" by fastforce
  have sp: "bd_sent d \<le> bd_pending d" "unat (bd_pending d) \<le> 128" "length (pcm31 d) = 256" "list_all is_i32 (pcm31 d)"
    using assms by (auto simp: bd_ok_def)
  have n: "unat (bd_pending d - bd_sent d) = unat (bd_pending d) - unat (bd_sent d)" using sp(1) by (rule unat_diff_le)
  have s: "unat (bd_sent d) \<le> unat (bd_pending d)" using sp(1) by (simp add: word_le_nat_alt)
  note W = write_spec [OF qr(4) w]
  have fits: "unat (bd_pending d - bd_sent d) * res_channels r \<le> length ?src" "list_all is_i32 ?src"
    using sp s qr(5) n by (simp_all add: list_all_drop)
  have k: "unat k \<le> unat (bd_pending d) - unat (bd_sent d)" using W(1) [OF fits] n by (simp add: write_taken_def)
  have adv: "unat (bd_sent d + k) = unat (bd_sent d) + unat k"
    using k s sp(2) by (simp add: unat_word_ariths)
  have d': "write_pcm d = d\<lparr>bd_sent := bd_sent d + k, bd_reservoir := Some r'\<rparr>" using w qr(2) by (simp add: write_pcm_def)
  have "bd_sent d + k \<le> bd_pending d" using adv k s by (simp add: word_le_nat_alt)
  then show "bd_ok (write_pcm d)" using assms qr W(2,4) fits unfolding d' bd_ok_def by auto
  have "take (unat k * 2) ?src @ retained_pcm (write_pcm d) = retained_pcm d"
  proof -
    let ?xs = "take (unat (bd_pending d) * 2) (pcm31 d)"
    have "take (unat k * 2) ?src = take (unat k * 2) (drop (unat (bd_sent d) * 2) ?xs)"
      using k s by (simp add: drop_take min_def)
    moreover have "retained_pcm (write_pcm d) = drop (unat k * 2) (drop (unat (bd_sent d) * 2) ?xs)"
      unfolding d' by (simp add: retained_pcm_def adv add_mult_distrib) (simp add: add.commute)
    ultimately show ?thesis unfolding retained_pcm_def by (simp only: append_take_drop_id)
  qed
  moreover have "res_queue r' = res_queue r @ take (unat k * 2) ?src" using W(3) fits qr(5) by simp
  moreover have "packet_left (write_pcm d) = packet_left d" unfolding d' by (simp add: packet_left_def)
  ultimately show "total_pcm (write_pcm d) later = total_pcm d later"
    using qr W(4) [OF fits] unfolding d' by (simp add: total_pcm_def upcoming_def Let_def split: prod.splits)
qed

lemma clear_total:
  assumes "bd_ok d" and "\<not> bd_sent d < bd_pending d"
  defines "d' \<equiv> d\<lparr>bd_pending := 0, bd_sent := 0\<rparr>"
  shows "bd_ok d'" and "total_pcm d' later = total_pcm d later"
proof -
  show "bd_ok d'" using assms(1) by (simp add: bd_ok_def d'_def)
  have "bd_sent d = bd_pending d" using assms by (auto simp: bd_ok_def)
  then have "retained_pcm d = []" by (simp add: retained_pcm_def)
  moreover have "retained_pcm d' = []" by (simp add: retained_pcm_def d'_def)
  ultimately show "total_pcm d' later = total_pcm d later"
    by (simp add: total_pcm_def upcoming_def d'_def packet_left_def Let_def split: prod.splits)
qed

lemma reject_total:
  assumes "bd_ok d"
  shows "bd_ok (snd (reject d rc))"
    and "total_pcm (snd (reject d rc)) later = res_queue (the (bd_reservoir d)) @
      stream_pcm (bd_decoder d) (res_format (the (bd_reservoir d))) (dropped_packet (bd_decoder d) (sbc_ctx (bd_decoder d), pcm16 d))
        (bt_content (the (bd_ingress d)) @ later)"
proof -
  obtain rc' ctx where c: "the (sbc_reset (bd_decoder d)) (sbc_ctx (bd_decoder d)) = (rc', ctx)" by fastforce
  have d': "snd (reject d rc) = d\<lparr>bd_rejected := bd_rejected d + 1, bd_pending := 0, bd_sent := 0, bd_frames_left := 0,
      bd_decoder := (bd_decoder d)\<lparr>sbc_ctx := ctx\<rparr>\<rparr>"
    using c by (simp add: reject_def call_reset_def)
  show "bd_ok (snd (reject d rc))" using assms unfolding d' by (simp add: bd_ok_def)
  show "total_pcm (snd (reject d rc)) later = res_queue (the (bd_reservoir d)) @
      stream_pcm (bd_decoder d) (res_format (the (bd_reservoir d))) (dropped_packet (bd_decoder d) (sbc_ctx (bd_decoder d), pcm16 d))
        (bt_content (the (bd_ingress d)) @ later)"
    unfolding d' using c by (simp add: total_pcm_def upcoming_def retained_pcm_def dropped_packet_def)
qed

lemma decode_one_total:
  assumes "bd_ok d" and "bd_pending d = 0" "bd_sent d = 0" and "bd_frames_left d \<noteq> 0"
  shows "bd_ok (snd (decode_one d))" and "total_pcm (snd (decode_one d)) later = total_pcm d later"
proof -
  obtain q r where qr: "bd_ingress d = Some q" "bd_reservoir d = Some r" "res_channels r = 2" using assms(1) by (auto simp: bd_ok_def)
  have pk: "packet_ok (bd_packet d)" "bd_offset d \<le> unat (pkt_length (bd_packet d))" using assms(1) by (auto simp: bd_ok_def)
  note B = media_bytes_left [OF pk(1)]
  let ?bytes = "packet_left d"
  obtain rc used pcm frames fmt ctx where f: "the (sbc_frame (bd_decoder d)) (sbc_ctx (bd_decoder d)) ?bytes (pcm16 d) = (rc, used, pcm, frames, fmt, ctx)"
    by (metis prod_cases6)
  have "sbc_ok (bd_decoder d)" "length (pcm16 d) = 256" "list_all is_i16 (pcm16 d)" using assms(1) by (simp_all add: bd_ok_def)
  from sbc_ok_frame [OF this f] have pcm: "length pcm = 256" "list_all is_i16 pcm" by simp_all
  let ?d = "d\<lparr>pcm16 := pcm, bd_decoder := (bd_decoder d)\<lparr>sbc_ctx := ctx\<rparr>\<rparr>"
  have ok: "bd_ok ?d" using assms(1) pcm by (simp add: bd_ok_def)
  obtain n where n: "unat (bd_frames_left d) = Suc n" using assms(4) by (metis gr0_implies_Suc unat_gt_0)
  have n': "unat (bd_frames_left d - 1) = n" using unat_minus_one [OF assms(4)] n by simp
  have zero: "bd_frames_left d - 1 = 0 \<longleftrightarrow> n = 0" using n' by (metis unat_eq_0)
  let ?bad = "rc \<noteq> EAF_OK \<or> used = 0 \<or> used > length ?bytes \<or> frames = 0 \<or> frames > 128 \<or> fmt \<noteq> res_format r \<or> (n = 0) \<noteq> (used = length ?bytes)"
  have ret: "retained_pcm d = []" using assms(2,3) by (simp add: retained_pcm_def)
  have "bd_ok (snd (decode_one d)) \<and> total_pcm (snd (decode_one d)) later = total_pcm d later"
  proof (cases ?bad)
    case True
    have tot: "total_pcm d later = res_queue r @ stream_pcm (bd_decoder d) (res_format r) (dropped_packet (bd_decoder d) (ctx, pcm)) (bt_content q @ later)"
      using True f qr by (simp add: total_pcm_def upcoming_def ret n)
    have off: "(bd_offset d + used = unat (pkt_length (bd_packet d))) = (used = length ?bytes)" using B(2) pk(2) by auto
    let ?d2 = "?d\<lparr>bd_offset := bd_offset d + used, bd_frames_left := bd_frames_left d - 1\<rparr>"
    have ok2: "used \<le> length ?bytes \<Longrightarrow> bd_ok ?d2" using ok B(2) pk(2) by (simp add: bd_ok_def)
    consider (result) "rc \<noteq> EAF_OK"
      | (frame) "rc = EAF_OK" "used = 0 \<or> used > length ?bytes \<or> frames = 0 \<or> frames > 128 \<or> fmt \<noteq> res_format r"
      | (left) "rc = EAF_OK" "\<not> (used = 0 \<or> used > length ?bytes \<or> frames = 0 \<or> frames > 128 \<or> fmt \<noteq> res_format r)"
          "(n = 0) \<noteq> (used = length ?bytes)"
      using True by blast
    then show ?thesis
    proof cases
      case result
      then have "snd (decode_one d) = snd (reject ?d rc)" using f B by (simp add: decode_one_def)
      then show ?thesis using reject_total [OF ok] qr tot by (simp add: dropped_packet_def)
    next
      case frame
      then have "snd (decode_one d) = snd (reject ?d EAF_INVALID)" using f B qr(2) by (simp add: decode_one_def)
      then show ?thesis using reject_total [OF ok] qr tot by (simp add: dropped_packet_def)
    next
      case left
      then have "snd (decode_one d) = snd (reject ?d2 EAF_INVALID)"
        using f B qr(2) off zero unfolding decode_one_def by (simp add: Let_def)
      then show ?thesis using reject_total [OF ok2] qr tot left(2) by (simp add: dropped_packet_def not_less)
    qed
  next
    case False
    let ?d2 = "?d\<lparr>bd_offset := bd_offset d + used, bd_frames_left := bd_frames_left d - 1,
      pcm31 := eaf_s16_to_q31_interleaved pcm (unat frames) 2 (pcm31 d) 2, bd_pending := frames, bd_sent := 0\<rparr>"
    have step: "snd (decode_one d) = write_pcm ?d2"
      using False f B pk(2) zero qr(2) by (auto simp: decode_one_def Let_def not_less)
    have fr: "frames \<le> 128" "length (pcm31 d) = 256" using False assms(1) by (auto simp: bd_ok_def not_less)
    note W = widen_pcm [OF pcm fr(2,1)]
    have n256: "unat frames * 2 \<le> 256" using fr(1) by (simp add: word_le_nat_alt)
    have "bd_offset d + used \<le> unat (pkt_length (bd_packet d))" using False B(2) pk(2) by linarith
    then have "bd_ok ?d2" using ok W n256 fr by (simp add: bd_ok_def list_all_blit word_le_nat_alt)
    moreover have "total_pcm ?d2 later = total_pcm d later"
    proof -
      have "retained_pcm ?d2 = widen pcm frames" using W(1,2) by (simp add: retained_pcm_def blit_def)
      moreover have "packet_left ?d2 = drop used ?bytes" by (simp add: packet_left_def add.commute)
      ultimately show ?thesis using False f qr by (simp add: total_pcm_def upcoming_def ret n n' Let_def split: prod.splits)
    qed
    ultimately show ?thesis using write_pcm_total [of ?d2] unfolding step by simp
  qed
  then show "bd_ok (snd (decode_one d))" "total_pcm (snd (decode_one d)) later = total_pcm d later" by simp_all
qed

lemma next_packet_total:
  assumes "bd_ok d" and "bd_pending d = 0" "bd_sent d = 0" and "bd_frames_left d = 0" and "next_packet d = Some (rc, d')"
  shows "bd_ok d'" and "bd_frames_left d' \<noteq> 0" and "bd_pending d' = 0" and "bd_sent d' = 0"
    and "total_pcm d later = (if rc \<noteq> EAF_OK then total_pcm (snd (reject d' rc)) later else total_pcm d' later)"
proof -
  obtain q r where qr: "bd_ingress d = Some q" "bd_reservoir d = Some r" "queue_frames_ok q" using assms(1) by (auto simp: bd_ok_def)
  have len: "length (pkt_data (bd_packet d)) = 1024" and inv: "bt_inv q"
    using assms(1) qr(3) by (auto simp: bd_ok_def packet_ok_def queue_frames_ok_def)
  obtain p q' where pop: "eaf_bt_ingress_pop q (Some (bd_packet d)) = (Some p, q')"
    using assms(5) qr by (auto simp: next_packet_def split: prod.splits option.splits)
  note P = pop_spec [OF inv len pop]
  have content: "bt_content q = media p # bt_content q'" using P(2) by simp
  have frames: "frame_count_sbc p \<noteq> 0" and q': "queue_frames_ok q'"
    using qr(3) content P(1) by (simp_all add: queue_frames_ok_def media_def)
  let ?d = "d\<lparr>bd_ingress := Some q', bd_packet := p, bd_offset := 0, bd_frames_left := ucast (frame_count_sbc p)\<rparr>"
  have ok: "bd_ok ?d" using assms(1) q' P(4) by (auto simp: bd_ok_def)
  have "unat (ucast (frame_count_sbc p) :: u32) \<noteq> 0" using frames by (simp add: unat_eq_0)
  then have fl: "(ucast (frame_count_sbc p) :: u32) \<noteq> 0" by (metis unsigned_0)
  have ret: "retained_pcm d = []" "retained_pcm ?d = []" using assms(2,3) by (simp_all add: retained_pcm_def)
  obtain rc1 ctx where c: "the (sbc_reset (bd_decoder d)) (sbc_ctx (bd_decoder d)) = (rc1, ctx)" by fastforce
  have d': "(rc, d') = (if pkt_discontinuity p then (rc1, ?d\<lparr>bd_decoder := (bd_decoder d)\<lparr>sbc_ctx := ctx\<rparr>\<rparr>) else (EAF_OK, ?d))"
    using assms(5) qr pop c by (auto simp: next_packet_def call_reset_def split: if_splits)
  show ok': "bd_ok d'" "bd_frames_left d' \<noteq> 0" "bd_pending d' = 0" "bd_sent d' = 0"
    using d' ok fl assms(2,3) by (auto simp: bd_ok_def split: if_splits)
  show "total_pcm d later = (if rc \<noteq> EAF_OK then total_pcm (snd (reject d' rc)) later else total_pcm d' later)"
  proof (cases "rc = EAF_OK")
    case True
    then show ?thesis using d' qr c content
      by (auto simp: total_pcm_def upcoming_def retained_pcm_def assms(2-4) packet_left_def media_def split: if_splits prod.splits)
  next
    case False
    then show ?thesis using reject_total(2) [OF ok'(1)] d' qr c content
      by (auto simp: total_pcm_def upcoming_def ret assms(4) media_def dropped_packet_def split: if_splits)
  qed
qed

lemma step_total:
  assumes "bd_ok d"
  shows "bd_ok (snd (eaf_bt_decoder_step d)) \<and> total_pcm (snd (eaf_bt_decoder_step d)) later = total_pcm d later"
proof -
  have some: "\<not> Option.is_none (bd_ingress d)" "\<not> Option.is_none (bd_reservoir d)" using assms by (auto simp: bd_ok_def)
  define d1 where "d1 = (if bd_pending d > bd_sent d then write_pcm d else d)"
  have d1: "bd_ok d1" "total_pcm d1 later = total_pcm d later" unfolding d1_def using assms write_pcm_total by auto
  show ?thesis
  proof (cases "bd_pending d1 > bd_sent d1")
    case True
    then show ?thesis using d1 some by (simp add: eaf_bt_decoder_step_def d1_def Let_def)
  next
    case False
    let ?d2 = "d1\<lparr>bd_pending := 0, bd_sent := 0\<rparr>"
    note C = clear_total [OF d1(1) False]
    have st: "eaf_bt_decoder_step d = (if bd_frames_left ?d2 \<noteq> 0 then decode_one ?d2
        else case next_packet ?d2 of None \<Rightarrow> (EAF_OK, ?d2) | Some (rc, d) \<Rightarrow> if rc \<noteq> EAF_OK then reject d rc else decode_one d)"
      using False some unfolding eaf_bt_decoder_step_def d1_def [symmetric] Let_def by simp
    show ?thesis
    proof (cases "bd_frames_left ?d2 \<noteq> 0 \<or> next_packet ?d2 = None")
      case True
      then show ?thesis using decode_one_total [OF C(1)] C d1(2) st by auto
    next
      case False
      then obtain rc d3 where n: "next_packet ?d2 = Some (rc, d3)" by auto
      note N = next_packet_total [OF C(1) _ _ _ n]
      have z: "bd_pending ?d2 = 0" "bd_sent ?d2 = 0" "bd_frames_left ?d2 = 0" using False by simp_all
      show ?thesis
      proof (cases "rc = EAF_OK")
        case True
        then have "eaf_bt_decoder_step d = decode_one d3" using st z n by simp
        then show ?thesis using decode_one_total [of d3] N [OF z] True C(2) d1(2) by simp
      next
        case rc: False
        then have "eaf_bt_decoder_step d = reject d3 rc" using st z n by simp
        then show ?thesis using reject_total(1) [OF N(1) [OF z]] N(5) [OF z] rc C(2) d1(2) by simp
      qed
    qed
  qed
qed

section \<open>Runs\<close>

text \<open>
  The Bluetooth callback, the worker and the audio owner in any order. A run collects the packets that were accepted
  and the samples that were played.
\<close>

datatype bt_op = B_Receive u16 u32 "u8 list option" | B_Step | B_Pull eaf_buffer_t

definition bt_op_ok :: "bt_op \<Rightarrow> bool" where
  "bt_op_ok op = (case op of B_Pull buf \<Rightarrow> length (mem buf) = capacity_samples buf | _ \<Rightarrow> True)"

fun bt_run :: "bt_op list \<Rightarrow> 'c eaf_bt_decoder_t \<Rightarrow> bt_media list \<times> int list \<times> 'c eaf_bt_decoder_t" where
  "bt_run [] d = ([], [], d)"
| "bt_run (B_Receive s t p # ops) d =
     (let q = the (bd_ingress d); (rc, q') = eaf_bt_sbc_receive q s t p;
          (acc, del, d') = bt_run ops (d\<lparr>bd_ingress := Some q'\<rparr>)
      in (if rc = EAF_OK then incoming (s, t, p) q # acc else acc, del, d'))"
| "bt_run (B_Step # ops) d = bt_run ops (snd (eaf_bt_decoder_step d))"
| "bt_run (B_Pull buf # ops) d =
     (let r = the (bd_reservoir d); (rc, woke, r', buf') = eaf_reservoir_pull r buf;
          (acc, del, d') = bt_run ops (d\<lparr>bd_reservoir := Some r'\<rparr>)
      in (acc, take (unat (frames_read r' - frames_read r) * 2) (mem buf') @ del, d'))"

lemma receive_frames_ok:
  assumes "queue_frames_ok q" and "eaf_bt_sbc_receive q s t p = (rc, q')"
  shows "queue_frames_ok q' \<and> bt_content q' = bt_content q @ (if rc = EAF_OK then [incoming (s, t, p) q] else [])"
proof (cases "rc = EAF_OK")
  case True
  have inv: "bt_inv q" using assms(1) by (simp add: queue_frames_ok_def)
  have r: "eaf_bt_sbc_receive q s t p = (EAF_OK, q')" using assms(2) True by simp
  have "\<not> bad_payload p" using receive_accepts [OF inv, of s t p] r by (auto split: if_splits)
  then have "media_frames (incoming (s, t, p) q) \<noteq> 0" by (cases p) (simp_all add: bad_payload_def incoming_def)
  then show ?thesis using receive_accepted [OF inv r] assms(1) True by (simp add: queue_frames_ok_def)
next
  case False
  then show ?thesis using receive_refused [OF _ assms(2) False] assms(1) by (simp add: queue_frames_ok_def)
qed

lemma bt_run_total:
  assumes "bd_ok d" and "list_all bt_op_ok ops" and "bt_run ops d = (acc, del, d')"
  shows "bd_ok d' \<and> total_pcm d (acc @ later) = del @ total_pcm d' later"
  using assms
proof (induction ops arbitrary: d acc del)
  case (Cons op ops)
  obtain q r where qr: "bd_ingress d = Some q" "bd_reservoir d = Some r" "queue_frames_ok q" "reservoir_inv r" "res_channels r = 2"
    using Cons.prems(1) by (auto simp: bd_ok_def)
  have ops: "list_all bt_op_ok ops" using Cons.prems(2) by simp
  show ?case
  proof (cases op)
    case (B_Receive s t p)
    obtain rc q' where rv: "eaf_bt_sbc_receive q s t p = (rc, q')" by fastforce
    let ?d = "d\<lparr>bd_ingress := Some q'\<rparr>"
    obtain acc1 where run: "bt_run ops ?d = (acc1, del, d')" and acc: "acc = (if rc = EAF_OK then [incoming (s, t, p) q] else []) @ acc1"
      using Cons.prems(3) B_Receive qr rv by (cases "bt_run ops ?d") auto
    note R = receive_frames_ok [OF qr(3) rv]
    have "bd_ok ?d" using Cons.prems(1) qr R by (auto simp: bd_ok_def)
    note IH = Cons.IH [OF this ops run]
    have "total_pcm ?d (acc1 @ later) = total_pcm d (acc @ later)"
      using R qr by (simp add: total_pcm_def upcoming_def acc retained_pcm_def packet_left_def split: prod.splits)
    then show ?thesis using IH by simp
  next
    case B_Step
    then have "bt_run ops (snd (eaf_bt_decoder_step d)) = (acc, del, d')" using Cons.prems(3) by simp
    from Cons.IH [OF _ ops this] show ?thesis using step_total [OF Cons.prems(1), of "acc @ later"] by simp
  next
    case (B_Pull buf)
    obtain rc woke r' buf' where pl: "eaf_reservoir_pull r buf = (rc, woke, r', buf')" by (metis prod_cases4)
    let ?d = "d\<lparr>bd_reservoir := Some r'\<rparr>"
    obtain del1 where run: "bt_run ops ?d = (acc, del1, d')" and del: "del = take (unat (frames_read r' - frames_read r) * 2) (mem buf') @ del1"
      using Cons.prems(3) B_Pull qr pl by (cases "bt_run ops ?d") auto
    have "length (mem buf) = capacity_samples buf" using Cons.prems(2) B_Pull by (simp add: bt_op_ok_def)
    note P = pull_conserves [OF qr(4) this pl]
    have "bd_ok ?d" using Cons.prems(1) qr P(1,2) by (auto simp: bd_ok_def)
    note IH = Cons.IH [OF this ops run]
    have "total_pcm d (acc @ later) = take (unat (frames_read r' - frames_read r) * 2) (mem buf') @ total_pcm ?d (acc @ later)"
      using P qr by (simp add: total_pcm_def upcoming_def retained_pcm_def packet_left_def split: prod.splits)
    then show ?thesis using IH del by simp
  qed
qed simp

lemma decoder_init_ok:
  assumes "sbc_ok codec" and "reservoir_inv r" and "eaf_bt_decoder_init d0 (Some eaf_bt_ingress_init) (Some r) (Some codec) = (rc, d)"
    and "rc = EAF_OK"
  shows "bd_ok d" and "total_pcm d later = res_queue r @ stream_pcm codec (res_format r) (snd (the (sbc_reset codec) (sbc_ctx codec)), replicate 256 0) later"
proof -
  have ch: "num_channels (res_format r) = 2" using assms(3,4) by (auto simp: eaf_bt_decoder_init_def split: if_splits)
  obtain ctx where d: "the (sbc_reset codec) (sbc_ctx codec) = (EAF_OK, ctx)"
    "d = \<lparr>bd_ingress = Some eaf_bt_ingress_init, bd_reservoir = Some r, bd_decoder = codec\<lparr>sbc_ctx := ctx\<rparr>, bd_packet = zero_packet,
      bd_offset = 0, bd_frames_left = 0, pcm16 = replicate 256 0, pcm31 = replicate 256 0, bd_pending = 0, bd_sent = 0, bd_rejected = 0\<rparr>"
    using assms(3,4) by (auto simp: eaf_bt_decoder_init_def call_reset_def split: if_splits prod.splits)
  have z: "list_all is_i16 (replicate 256 0)" "list_all is_i32 (replicate 256 0)"
    by (simp_all add: list_all_length is_i16_def)
  have "packet_ok zero_packet" by (simp add: packet_ok_def zero_packet_def)
  then show "bd_ok d" using assms(1,2) bt_init_inv z ch by (simp add: d bd_ok_def queue_frames_ok_def)
  show "total_pcm d later = res_queue r @ stream_pcm codec (res_format r) (snd (the (sbc_reset codec) (sbc_ctx codec)), replicate 256 0) later"
    using bt_init_inv(2) by (simp add: d total_pcm_def upcoming_def retained_pcm_def)
qed

section \<open>Properties\<close>

definition bt_idle :: "'c eaf_bt_decoder_t \<Rightarrow> bool" where
  "bt_idle d \<longleftrightarrow> bd_sent d = bd_pending d \<and> bd_frames_left d = 0 \<and> bt_content (the (bd_ingress d)) = []"

text \<open>
  C4: The Bluetooth worker implements the decoding of the whole packet stream. However reception, decoding steps
  and playback interleave, and however often the reservoir is full, the samples played followed by
  the ones queued in the reservoir are a prefix of what decoding all accepted packets at once gives, packet errors
  and discontinuities included: no sample is lost, repeated or reordered. When the worker is idle they are all of it.
\<close>

theorem bt_stream_decoded:
  assumes "sbc_ok codec" and "reservoir_inv r" and "res_queue r = []"
    and "eaf_bt_decoder_init d0 (Some eaf_bt_ingress_init) (Some r) (Some codec) = (EAF_OK, d)"
    and "list_all bt_op_ok ops" and "bt_run ops d = (accepted, played, d')"
  shows "\<exists>rest. stream_pcm codec (res_format r) (snd (the (sbc_reset codec) (sbc_ctx codec)), replicate 256 0) accepted =
      played @ res_queue (the (bd_reservoir d')) @ rest \<and> (bt_idle d' \<longrightarrow> rest = [])"
proof (rule exI [of _ "upcoming d' []"])
  note I = decoder_init_ok [OF assms(1,2,4) refl]
  have "stream_pcm codec (res_format r) (snd (the (sbc_reset codec) (sbc_ctx codec)), replicate 256 0) accepted = played @ total_pcm d' []"
    using bt_run_total [OF I(1) assms(5,6), of "[]"] I(2) [of accepted] assms(3) by simp
  moreover have "bt_idle d' \<longrightarrow> upcoming d' [] = []" by (auto simp: bt_idle_def upcoming_def retained_pcm_def)
  ultimately show "stream_pcm codec (res_format r) (snd (the (sbc_reset codec) (sbc_ctx codec)), replicate 256 0) accepted =
      played @ res_queue (the (bd_reservoir d')) @ upcoming d' [] \<and> (bt_idle d' \<longrightarrow> upcoming d' [] = [])"
    by (simp add: total_pcm_def)
qed

text \<open>A codec whose frames are single bytes.\<close>

definition byte_codec :: "unit eaf_sbc_decoder_t" where
  "byte_codec = \<lparr>sbc_reset = Some (\<lambda>c. (EAF_OK, c)),
     sbc_frame = Some (\<lambda>c bytes pcm. case bytes of [] \<Rightarrow> (EAF_INVALID, 0, pcm, 0, zero_format, c)
       | b # _ \<Rightarrow> (EAF_OK, 1, blit pcm 0 [int (unat b), - int (unat b)], 1, mk_format 48000 2 3, c)), sbc_ctx = ()\<rparr>"

definition stereo_reservoir :: eaf_reservoir_t where
  "stereo_reservoir = snd (eaf_reservoir_init 1000 zero_reservoir (replicate 8 0) 4 (mk_format 48000 2 3) 1)"

definition fresh_decoder :: "unit eaf_bt_decoder_t" where
  "fresh_decoder = \<lparr>bd_ingress = None, bd_reservoir = None, bd_decoder = byte_codec, bd_packet = zero_packet, bd_offset = 0,
     bd_frames_left = 0, pcm16 = [], pcm31 = [], bd_pending = 0, bd_sent = 0, bd_rejected = 0\<rparr>"

definition example_worker_ops :: "bt_op list" where
  "example_worker_ops = [B_Receive 1 0 (Some [2, 5, 6]), B_Step, B_Step]"

definition started_decoder :: "unit eaf_bt_decoder_t" where
  "started_decoder = snd (eaf_bt_decoder_init fresh_decoder (Some eaf_bt_ingress_init) (Some stereo_reservoir) (Some byte_codec))"

theorem bt_stream_decoded_witness:
  "\<exists>rest. stream_pcm byte_codec (mk_format 48000 2 3) ((), replicate 256 0) (fst (bt_run example_worker_ops started_decoder)) =
     fst (snd (bt_run example_worker_ops started_decoder)) @
     res_queue (the (bd_reservoir (snd (snd (bt_run example_worker_ops started_decoder))))) @ rest"
proof -
  have range: "- 32768 \<le> uint b" "uint b < 32768" "uint b \<le> 32768" "- uint b < 32768" for b :: u8
  proof -
    have "0 \<le> uint b" by simp
    moreover have "uint b < 256" using unsigned_less [of b, where ?'a = int] by simp
    ultimately show "- 32768 \<le> uint b" "uint b < 32768" "uint b \<le> 32768" "- uint b < 32768" by linarith+
  qed
  have codec: "sbc_ok byte_codec"
    by (auto simp: sbc_ok_def byte_codec_def blit_def list_all_iff is_i16_def range dest: in_set_dropD split: list.splits)
  have init: "eaf_reservoir_init 1000 zero_reservoir (replicate 8 0) 4 (mk_format 48000 2 3) 1 = (EAF_OK, stereo_reservoir)"
    by code_simp
  have inv: "reservoir_inv stereo_reservoir" by (rule init_accepts [OF init]) (code_simp, simp)
  have q: "res_queue stereo_reservoir = []" "res_format stereo_reservoir = mk_format 48000 2 3" by code_simp+
  have r: "storage stereo_reservoir \<noteq> []" by code_simp
  have i: "eaf_bt_decoder_init fresh_decoder (Some eaf_bt_ingress_init) (Some stereo_reservoir) (Some byte_codec) = (EAF_OK, started_decoder)"
    using r q(2) by (simp add: started_decoder_def eaf_bt_decoder_init_def call_reset_def byte_codec_def mk_format_def)
  obtain acc del d' where run: "bt_run example_worker_ops started_decoder = (acc, del, d')" by (metis prod_cases3)
  have "list_all bt_op_ok example_worker_ops" by (simp add: bt_op_ok_def example_worker_ops_def)
  from bt_stream_decoded [OF codec inv q(1) i this run] show ?thesis
    unfolding q(2) using run by (auto simp: byte_codec_def)
qed

end
