(* ===== verification/Sink_Spec.thy ===== *)
theory Sink_Spec
  imports EAF_Types
begin

text \<open>
  The contract of \<open>struct eaf_sink_ops\<close> (\<open>include/eaf/eaf_hal.h\<close>) on which the pipeline relies: a sink lends one
  buffer at a time, only while it runs; a commit takes it back; a stop that succeeds
  drops it, and a stopped sink lends nothing. The null sink and the I2S core are instances.
\<close>

locale sink_contract =
  fixes init :: "'s \<Rightarrow> eaf_format_t \<Rightarrow> nat \<Rightarrow> eaf_result_t \<times> 's"
    and start :: "'s \<Rightarrow> eaf_result_t \<times> 's"
    and stop :: "'s \<Rightarrow> eaf_result_t \<times> 's"
    and acquire :: "'s \<Rightarrow> eaf_result_t \<times> eaf_buffer_t option \<times> 's"
    and commit :: "'s \<Rightarrow> eaf_buffer_t \<Rightarrow> eaf_result_t \<times> 's"
    and deinit :: "'s \<Rightarrow> eaf_result_t \<times> 's"
    and invar :: "'s \<Rightarrow> bool"
    and active :: "'s \<Rightarrow> bool"
    and lent :: "'s \<Rightarrow> eaf_buffer_t option"
  assumes lent_active: "invar s \<Longrightarrow> lent s \<noteq> None \<Longrightarrow> active s"
    and init_keeps: "invar s \<Longrightarrow> invar (snd (init s fmt n)) \<and> active (snd (init s fmt n)) = active s"
    and start_keeps: "invar s \<Longrightarrow> start s = (rc, s') \<Longrightarrow>
        invar s' \<and> (if rc = EAF_OK then \<not> active s \<and> active s' \<and> lent s' = None else s' = s)"
    and stop_keeps: "invar s \<Longrightarrow> stop s = (rc, s') \<Longrightarrow> invar s' \<and> lent s' = None \<and> (rc = EAF_OK \<longrightarrow> \<not> active s')"
    and acquire_keeps: "invar s \<Longrightarrow> acquire s = (rc, b, s') \<Longrightarrow>
        invar s' \<and> active s' = active s \<and>
        (if rc = EAF_OK then active s \<and> lent s = None \<and> b \<noteq> None \<and> lent s' = b \<and> length (mem (the b)) = capacity_samples (the b)
         else lent s' = lent s)"
    and commit_keeps: "invar s \<Longrightarrow> lent s = Some own \<Longrightarrow> capacity_samples buf = capacity_samples own \<Longrightarrow> length (mem buf) = capacity_samples own \<Longrightarrow>
        commit s buf = (rc, s') \<Longrightarrow> invar s' \<and> active s' \<and> (rc = EAF_OK \<longrightarrow> lent s' = None)"
    and commit_refused: "invar s \<Longrightarrow> lent s = None \<Longrightarrow> fst (commit s buf) \<noteq> EAF_OK"
    and deinit_keeps: "invar s \<Longrightarrow> deinit s = (rc, s') \<Longrightarrow> invar s' \<and> lent s' = None \<and> (rc = EAF_OK \<longrightarrow> \<not> active s')"
begin

text \<open>At most one buffer is lent, and none after a stop.\<close>

lemma acquire_needs:
  assumes "invar s" and "lent s \<noteq> None \<or> \<not> active s"
  shows "fst (acquire s) \<noteq> EAF_OK"
proof
  assume "fst (acquire s) = EAF_OK"
  then obtain b s' where "acquire s = (EAF_OK, b, s')" by (metis prod.collapse)
  then show False using acquire_keeps [OF assms(1)] assms(2) by auto
qed

lemma no_second_buffer:
  assumes "invar s" and "acquire s = (EAF_OK, b, s')"
  shows "fst (acquire s') \<noteq> EAF_OK"
  using acquire_keeps [OF assms] acquire_needs [of s'] by simp

lemma stopped_lends_nothing:
  assumes "invar s" and "stop s = (EAF_OK, s')"
  shows "fst (acquire s') \<noteq> EAF_OK"
  using stop_keeps [OF assms] acquire_needs [of s'] by simp

text \<open>A block: acquire, work in the buffer, then commit. It cannot be committed twice.\<close>

lemma block_returns:
  assumes "invar s" and "acquire s = (EAF_OK, Some b, s1)" and "capacity_samples buf = capacity_samples b" "length (mem buf) = capacity_samples b"
    and "commit s1 buf = (EAF_OK, s2)"
  shows "invar s2 \<and> active s2 \<and> lent s2 = None \<and> fst (commit s2 buf') \<noteq> EAF_OK"
proof -
  have "invar s1" "lent s1 = Some b" using acquire_keeps [OF assms(1,2)] by simp_all
  from commit_keeps [OF this assms(3-5)] show ?thesis using commit_refused by simp
qed

end

end
