(* ===== verification/Sink_Null.thy ===== *)
theory Sink_Null
  imports Sink_Spec Pipeline
begin

text \<open>
  \<open>hal/common/sink_null.c\<close>: the sink without a device. It lends two buffers in turn and paces the pipeline by the
  clock: a commit sleeps until the committed frames would have been played.
\<close>

section \<open>State and operations\<close>

text \<open>The clock functions of \<open>eaf_hal.h\<close>.\<close>

record 'w hal_clock =
  hal_monotonic_time_us :: "'w \<Rightarrow> u64 \<times> 'w"
  hal_sleep_until_us :: "u64 \<Rightarrow> 'w \<Rightarrow> eaf_result_t \<times> 'w"

abbreviation (input) EAF_NULL_MAX_FRAMES :: nat where "EAF_NULL_MAX_FRAMES \<equiv> 1024"

text \<open>The array \<open>samples[i]\<close> at \<open>null_address s ! i\<close> is the memory of the buffer \<open>buffers[i]\<close>.\<close>

record eaf_null_sink_ctx_t =
  null_address :: "nat list"
  null_buffers :: "eaf_buffer_t list"
  epoch_us :: u64
  frames_committed :: u64
  null_active :: nat
  null_initialized :: bool
  null_running :: bool
  acquired :: bool

type_synonym 'w null_state = "eaf_null_sink_ctx_t option \<times> 'w"

definition null_buffer :: "eaf_null_sink_ctx_t \<Rightarrow> eaf_format_t \<Rightarrow> nat \<Rightarrow> nat \<Rightarrow> eaf_buffer_t" where
  "null_buffer s fmt frames i =
     \<lparr>samples = null_address s ! i, mem = mem (null_buffers s ! i), frame_count = of_nat frames, capacity_frames = of_nat EAF_NULL_MAX_FRAMES,
      capacity_samples = EAF_NULL_MAX_FRAMES * EAF_MAX_CHANNELS, format = fmt, flags = 0\<rparr>"

definition null_init :: "'w null_state \<Rightarrow> eaf_format_t \<Rightarrow> nat \<Rightarrow> eaf_result_t \<times> 'w null_state" where
  "null_init d fmt frames =
     (case d of (None, w) \<Rightarrow> (EAF_INVALID, d)
      | (Some s, w) \<Rightarrow>
        if \<not> eaf_format_valid fmt \<or> frames = 0 \<or> frames > EAF_NULL_MAX_FRAMES then (EAF_INVALID, d)
        else if null_running s then (EAF_STATE, d)
        else (EAF_OK, Some (s\<lparr>null_buffers := map (null_buffer s fmt frames) [0..<2], null_active := 0, acquired := False,
                null_initialized := True\<rparr>), w))"

definition null_start :: "'w hal_clock \<Rightarrow> 'w null_state \<Rightarrow> eaf_result_t \<times> 'w null_state" where
  "null_start hal d =
     (let s = the (fst d)
      in if \<not> null_initialized s \<or> null_running s then (EAF_STATE, d)
         else let (now, w) = hal_monotonic_time_us hal (snd d)
              in (EAF_OK, Some (s\<lparr>epoch_us := now, frames_committed := 0, null_active := 0, acquired := False, null_running := True\<rparr>), w))"

definition null_stop :: "'w null_state \<Rightarrow> eaf_result_t \<times> 'w null_state" where
  "null_stop d = (EAF_OK, Some ((the (fst d))\<lparr>null_running := False, acquired := False\<rparr>), snd d)"

definition null_acquire :: "'w null_state \<Rightarrow> eaf_result_t \<times> eaf_buffer_t option \<times> 'w null_state" where
  "null_acquire d =
     (let s = the (fst d)
      in if \<not> null_running s \<or> acquired s then (EAF_STATE, None, d)
         else (EAF_OK, Some (null_buffers s ! null_active s), Some (s\<lparr>acquired := True\<rparr>), snd d))"

definition null_duration :: "u64 \<Rightarrow> u64 \<Rightarrow> u64" where
  "null_duration frames rate = frames div rate * 1000000 + frames mod rate * 1000000 div rate"

text \<open>The buffer argument: \<open>Some i\<close> is \<open>&buffers[i]\<close>, \<open>None\<close> any other pointer.\<close>

definition null_commit :: "'w hal_clock \<Rightarrow> 'w null_state \<Rightarrow> nat option \<Rightarrow> eaf_result_t \<times> 'w null_state" where
  "null_commit hal d buf =
     (let s = the (fst d)
      in if \<not> null_running s \<or> \<not> acquired s \<or> buf \<noteq> Some (null_active s) then (EAF_STATE, d)
         else let b = null_buffers s ! null_active s;
                  frames = frames_committed s + ucast (frame_count b);
                  (rc, w) = hal_sleep_until_us hal (epoch_us s + null_duration frames (ucast (sample_rate (format b)))) (snd d)
              in (rc, Some (s\<lparr>frames_committed := frames, null_active := 1 - null_active s, acquired := False\<rparr>), w))"

definition null_adjust :: "'w null_state \<Rightarrow> int \<Rightarrow> eaf_result_t" where
  "null_adjust d ppm = EAF_UNSUPPORTED"

definition null_deinit :: "'w null_state \<Rightarrow> eaf_result_t \<times> 'w null_state" where
  "null_deinit d =
     (case d of (None, w) \<Rightarrow> (EAF_OK, d)
      | (Some s, w) \<Rightarrow> (EAF_OK, Some (s\<lparr>null_running := False, null_initialized := False, acquired := False\<rparr>), w))"

text \<open>
  The table. The pipeline works on the lent buffer through the pointer, so its
  contents are the sink's own when it calls commit.
\<close>

definition null_commit_buf :: "'w hal_clock \<Rightarrow> 'w null_state \<Rightarrow> eaf_buffer_t \<Rightarrow> eaf_result_t \<times> 'w null_state" where
  "null_commit_buf hal d buf =
     (let s = the (fst d)
      in null_commit hal (Some (s\<lparr>null_buffers := (null_buffers s)[null_active s := buf]\<rparr>), snd d) (Some (null_active s)))"

definition eaf_null_sink_ops :: "'w hal_clock \<Rightarrow> 'w null_state eaf_sink_ops" where
  "eaf_null_sink_ops hal = \<lparr>sink_init = Some null_init, sink_start = Some (null_start hal), sink_stop = Some null_stop,
     sink_acquire = Some null_acquire, sink_commit = Some (null_commit_buf hal), sink_deinit = Some null_deinit\<rparr>"

section \<open>The contract\<close>

definition null_ok :: "'w null_state \<Rightarrow> bool" where
  "null_ok d \<longleftrightarrow> (\<exists>s. fst d = Some s \<and> length (null_address s) = 2 \<and> length (null_buffers s) = 2 \<and> null_active s < 2 \<and>
     (\<forall>b \<in> set (null_buffers s). length (mem b) = EAF_NULL_MAX_FRAMES * EAF_MAX_CHANNELS) \<and>
     (null_running s \<longrightarrow> null_initialized s) \<and> (acquired s \<longrightarrow> null_running s) \<and>
     (null_initialized s \<longrightarrow> (\<forall>b \<in> set (null_buffers s). capacity_samples b = EAF_NULL_MAX_FRAMES * EAF_MAX_CHANNELS)))"

abbreviation null_is_running :: "'w null_state \<Rightarrow> bool" where "null_is_running d \<equiv> null_running (the (fst d))"

definition null_lent :: "'w null_state \<Rightarrow> eaf_buffer_t option" where
  "null_lent d = (let s = the (fst d) in if acquired s then Some (null_buffers s ! null_active s) else None)"

lemma null_okD:
  assumes "null_ok d"
  obtains s w where "d = (Some s, w)" "length (null_address s) = 2" "length (null_buffers s) = 2" "null_active s < 2"
    "\<And>i. i < 2 \<Longrightarrow> length (mem (null_buffers s ! i)) = 4096" "null_running s \<Longrightarrow> null_initialized s" "acquired s \<Longrightarrow> null_running s"
    "\<And>i. i < 2 \<Longrightarrow> null_initialized s \<Longrightarrow> capacity_samples (null_buffers s ! i) = 4096"
proof -
  obtain s where s: "fst d = Some s" "length (null_address s) = 2" "length (null_buffers s) = 2" "null_active s < 2"
    "\<forall>b \<in> set (null_buffers s). length (mem b) = 4096" "null_running s \<longrightarrow> null_initialized s" "acquired s \<longrightarrow> null_running s"
    "null_initialized s \<longrightarrow> (\<forall>b \<in> set (null_buffers s). capacity_samples b = 4096)"
    using assms by (auto simp: null_ok_def)
  then show ?thesis by (intro that [of s "snd d"]) (auto simp: prod_eq_iff)
qed

lemma null_init_ok:
  assumes "null_ok d"
  shows "null_ok (snd (null_init d fmt n)) \<and> null_is_running (snd (null_init d fmt n)) = null_is_running d"
proof -
  obtain s w where d: "d = (Some s, w)" "length (null_address s) = 2" "length (null_buffers s) = 2"
    and m: "\<And>i. i < 2 \<Longrightarrow> length (mem (null_buffers s ! i)) = 4096"
    using assms by (rule null_okD) blast
  show ?thesis using assms m d by (auto simp: null_init_def null_ok_def null_buffer_def)
qed

lemma null_commit_ok:
  assumes "null_ok d" and "null_lent d = Some b" and "capacity_samples buf = capacity_samples b" "length (mem buf) = capacity_samples b"
    and "null_commit_buf hal d buf = (rc, d')"
  shows "null_ok d' \<and> null_is_running d' \<and> null_lent d' = None"
proof -
  obtain s w where d: "d = (Some s, w)" "length (null_address s) = 2" "length (null_buffers s) = 2" "null_active s < 2"
    and m: "\<And>i. i < 2 \<Longrightarrow> length (mem (null_buffers s ! i)) = 4096" and r: "null_running s \<Longrightarrow> null_initialized s" "acquired s \<Longrightarrow> null_running s"
    and c: "\<And>i. i < 2 \<Longrightarrow> null_initialized s \<Longrightarrow> capacity_samples (null_buffers s ! i) = 4096"
    using assms(1) by (rule null_okD) blast
  have b: "acquired s" "b = null_buffers s ! null_active s" using assms(2) d(1) by (auto simp: null_lent_def Let_def split: if_splits)
  have cap: "capacity_samples b = 4096" using c [OF d(4)] r b by simp
  let ?bufs = "(null_buffers s)[null_active s := buf]"
  have bufs: "\<forall>x \<in> set ?bufs. length (mem x) = 4096 \<and> capacity_samples x = 4096"
    using m c r b(1) cap assms(3,4) d(3,4) by (auto simp: in_set_conv_nth nth_list_update)
  obtain rc1 w1 where sl: "hal_sleep_until_us hal (epoch_us s + null_duration (frames_committed s + ucast (frame_count buf)) (ucast (sample_rate (format buf)))) w = (rc1, w1)"
    by fastforce
  have "d' = (Some (s\<lparr>null_buffers := ?bufs, frames_committed := frames_committed s + ucast (frame_count buf), null_active := 1 - null_active s, acquired := False\<rparr>), w1)"
    using assms(5) d b(1) r sl by (simp add: null_commit_buf_def null_commit_def Let_def)
  then show ?thesis using d bufs r b(1) by (auto simp: null_ok_def null_lent_def)
qed

interpretation null: sink_contract null_init "null_start hal" null_stop null_acquire "null_commit_buf hal" null_deinit null_ok null_is_running null_lent
proof
  fix d :: "'a null_state" and d' fmt n rc b buf
  assume ok: "null_ok d"
  obtain s w where d: "d = (Some s, w)" "length (null_address s) = 2" "length (null_buffers s) = 2" "null_active s < 2"
    and m: "\<And>i. i < 2 \<Longrightarrow> length (mem (null_buffers s ! i)) = 4096" and r: "null_running s \<Longrightarrow> null_initialized s" "acquired s \<Longrightarrow> null_running s"
    and c: "\<And>i. i < 2 \<Longrightarrow> null_initialized s \<Longrightarrow> capacity_samples (null_buffers s ! i) = 4096"
    using ok by (rule null_okD) blast
  show "null_lent d \<noteq> None \<Longrightarrow> null_is_running d" using r d(1) by (auto simp: null_lent_def Let_def split: if_splits)
  show "null_ok (snd (null_init d fmt n)) \<and> null_is_running (snd (null_init d fmt n)) = null_is_running d" by (rule null_init_ok [OF ok])
  show "null_ok d' \<and> (if rc = EAF_OK then \<not> null_is_running d \<and> null_is_running d' \<and> null_lent d' = None else d' = d)"
    if "null_start hal d = (rc, d')"
    using that ok d by (auto simp: null_start_def null_ok_def null_lent_def Let_def split: if_splits prod.splits)
  show "null_ok d' \<and> null_lent d' = None \<and> (rc = EAF_OK \<longrightarrow> \<not> null_is_running d')" if "null_stop d = (rc, d')"
    using that ok d by (auto simp: null_stop_def null_ok_def null_lent_def)
  show "null_ok d' \<and> null_is_running d' = null_is_running d \<and>
      (if rc = EAF_OK then null_is_running d \<and> null_lent d = None \<and> b \<noteq> None \<and> null_lent d' = b \<and> length (mem (the b)) = capacity_samples (the b)
       else null_lent d' = null_lent d)" if "null_acquire d = (rc, b, d')"
    using that ok d m [OF d(4)] c [OF d(4)] r by (auto simp: null_acquire_def null_ok_def null_lent_def Let_def split: if_splits)
  show "fst (null_commit_buf hal d buf) \<noteq> EAF_OK" if "null_lent d = None"
    using that d(1) by (auto simp: null_commit_buf_def null_commit_def null_lent_def Let_def split: if_splits)
  show "null_ok d' \<and> null_lent d' = None \<and> (rc = EAF_OK \<longrightarrow> \<not> null_is_running d')" if "null_deinit d = (rc, d')"
    using that ok d by (auto simp: null_deinit_def null_ok_def null_lent_def)
qed (use null_commit_ok in blast)

section \<open>Pacing\<close>

text \<open>The split of the conversion keeps it exact: microseconds of \<open>frames\<close> frames, rounded down.\<close>

lemma duration_exact:
  assumes "0 < unat rate" and "unat rate < 4294967296" and "unat frames * 1000000 div unat rate < 2 ^ 64"
  shows "unat (null_duration frames rate) = unat frames * 1000000 div unat rate"
proof -
  let ?f = "unat frames" and ?r = "unat rate"
  have split: "?f * 1000000 div ?r = ?f div ?r * 1000000 + ?f mod ?r * 1000000 div ?r"
  proof -
    have dist: "(a * b + c) * k = c * k + a * k * b" for a b c k :: nat by (simp add: algebra_simps)
    have "?f * 1000000 = ?f mod ?r * 1000000 + ?f div ?r * 1000000 * ?r"
      using dist [of "?f div ?r" ?r "?f mod ?r" 1000000] by (simp only: div_mult_mod_eq)
    then have "?f * 1000000 div ?r = (?f mod ?r * 1000000 + ?f div ?r * 1000000 * ?r) div ?r" by simp
    also have "\<dots> = ?f div ?r * 1000000 + ?f mod ?r * 1000000 div ?r" using assms(1) by (simp only: div_mult_self1)
    finally show ?thesis .
  qed
  have "?f mod ?r < 4294967296" using assms(1,2) by (meson less_trans mod_less_divisor)
  then have rem: "unat (frames mod rate * 1000000) = ?f mod ?r * 1000000"
    by (simp add: unat_word_ariths unat_mod)
  have "?f div ?r * 1000000 < 2 ^ 64" using assms(3) split by linarith
  then have quo: "unat (frames div rate * 1000000) = ?f div ?r * 1000000" by (simp add: unat_word_ariths unat_div)
  have "unat (frames mod rate * 1000000 div rate) = ?f mod ?r * 1000000 div ?r" by (simp add: unat_div rem)
  then show ?thesis using assms(3) split quo by (simp add: null_duration_def unat_word_ariths)
qed

text \<open>A clock that also records the deadlines it was given.\<close>

definition logged_clock :: "'w hal_clock \<Rightarrow> ('w \<times> u64 list) hal_clock" where
  "logged_clock hal =
     \<lparr>hal_monotonic_time_us = \<lambda>(w, deadlines). let (now, w) = hal_monotonic_time_us hal w in (now, w, deadlines),
      hal_sleep_until_us = \<lambda>t (w, deadlines). let (rc, w) = hal_sleep_until_us hal t w in (rc, w, deadlines @ [t])\<rparr>"

text \<open>A block: acquire, fill the samples, commit.\<close>

definition fills :: "(eaf_buffer_t \<Rightarrow> eaf_buffer_t) \<Rightarrow> bool" where
  "fills f \<longleftrightarrow> (\<forall>b. \<exists>m fl. f b = b\<lparr>mem := m, flags := fl\<rparr> \<and> length m = length (mem b))"

definition null_block :: "'w hal_clock \<Rightarrow> (eaf_buffer_t \<Rightarrow> eaf_buffer_t) \<Rightarrow> 'w null_state \<Rightarrow> 'w null_state" where
  "null_block hal f d = (case null_acquire d of (rc, b, d1) \<Rightarrow> snd (null_commit_buf hal d1 (f (the b))))"

definition paced :: "u64 \<Rightarrow> u32 \<Rightarrow> eaf_format_t \<Rightarrow> nat \<Rightarrow> ('w \<times> u64 list) null_state \<Rightarrow> u64 list \<Rightarrow> bool" where
  "paced epoch frames fmt k d deadlines \<longleftrightarrow> (\<exists>s w. d = (Some s, w, deadlines) \<and> null_running s \<and> \<not> acquired s \<and> null_active s < 2 \<and>
     length (null_buffers s) = 2 \<and> (\<forall>i < 2. frame_count (null_buffers s ! i) = frames \<and> format (null_buffers s ! i) = fmt) \<and>
     frames_committed s = of_nat k * ucast frames \<and> epoch_us s = epoch)"

lemma paced_block:
  assumes "fills f" and "paced epoch frames fmt k d deadlines"
  shows "paced epoch frames fmt (Suc k) (null_block (logged_clock hal) f d)
    (deadlines @ [epoch + null_duration (of_nat (Suc k) * ucast frames) (ucast (sample_rate fmt))])"
proof -
  obtain s w where d: "d = (Some s, w, deadlines)" "null_running s" "\<not> acquired s" "null_active s < 2" "length (null_buffers s) = 2"
    and b: "\<And>i. i < 2 \<Longrightarrow> frame_count (null_buffers s ! i) = frames" "\<And>i. i < 2 \<Longrightarrow> format (null_buffers s ! i) = fmt"
    and n: "frames_committed s = of_nat k * ucast frames" "epoch_us s = epoch"
    using assms(2) by (auto simp: paced_def)
  obtain m fl where f: "f (null_buffers s ! null_active s) = (null_buffers s ! null_active s)\<lparr>mem := m, flags := fl\<rparr>"
    using assms(1) unfolding fills_def by blast
  let ?t = "epoch + null_duration (of_nat (Suc k) * ucast frames) (ucast (sample_rate fmt))"
  obtain rc w' where sl: "hal_sleep_until_us hal ?t w = (rc, w')" by fastforce
  have fc: "frames_committed s + ucast frames = of_nat (Suc k) * ucast frames" using n(1) by (simp add: algebra_simps)
  have "null_block (logged_clock hal) f d = (Some (s\<lparr>acquired := False,
      null_buffers := (null_buffers s)[null_active s := (null_buffers s ! null_active s)\<lparr>mem := m, flags := fl\<rparr>],
      frames_committed := of_nat (Suc k) * ucast frames, null_active := 1 - null_active s\<rparr>), w', deadlines @ [?t])"
    using d b [OF d(4)] f sl n(2) fc
    by (simp add: null_block_def null_acquire_def null_commit_buf_def null_commit_def logged_clock_def Let_def del: of_nat_Suc)
  then show ?thesis using d b n(2) by (auto simp: paced_def nth_list_update)
qed

lemma paced_blocks:
  assumes "fills f" and "paced epoch frames fmt 0 d deadlines"
  shows "paced epoch frames fmt n ((null_block (logged_clock hal) f ^^ n) d)
    (deadlines @ map (\<lambda>k. epoch + null_duration (of_nat (Suc k) * ucast frames) (ucast (sample_rate fmt))) [0..<n])"
proof (induction n)
  case (Suc n)
  then show ?case using paced_block [OF assms(1) Suc, of hal] by simp
qed (simp add: assms(2))

lemma started_paced:
  assumes "null_ok d" and "null_init d fmt frames = (EAF_OK, d1)" and "null_start (logged_clock hal) d1 = (EAF_OK, Some s, w, deadlines)"
  shows "paced (epoch_us s) (of_nat frames) fmt 0 (Some s, w, deadlines) deadlines" and "deadlines = snd (snd d)"
    and "0 < frames" "frames \<le> 1024" "sample_rate fmt \<noteq> 0"
proof -
  obtain s0 w0 l0 where d: "d = (Some s0, w0, l0)" using null_okD [OF assms(1)] by (metis prod.collapse)
  have i: "eaf_format_valid fmt" "0 < frames" "frames \<le> 1024" "\<not> null_running s0"
    "d1 = (Some (s0\<lparr>null_buffers := map (null_buffer s0 fmt frames) [0..<2], null_active := 0, acquired := False, null_initialized := True\<rparr>), w0, l0)"
    using assms(2) d by (auto simp: null_init_def split: if_splits)
  then show "0 < frames" "frames \<le> 1024" "sample_rate fmt \<noteq> 0" using format_valid_channels by auto
  obtain now w1 where t: "hal_monotonic_time_us hal w0 = (now, w1)" by fastforce
  have "s = s0\<lparr>null_buffers := map (null_buffer s0 fmt frames) [0..<2], acquired := False, null_initialized := True,
      epoch_us := now, frames_committed := 0, null_active := 0, null_running := True\<rparr>" "deadlines = l0"
    using assms(3) i t by (auto simp: null_start_def logged_clock_def)
  then show "paced (epoch_us s) (of_nat frames) fmt 0 (Some s, w, deadlines) deadlines" "deadlines = snd (snd d)"
    using d by (auto simp: paced_def null_buffer_def)
qed

section \<open>Properties\<close>

text \<open>
  A null sink that is initialised and started plays \<open>n\<close> blocks at the rate of the format without
  drift: whatever the clock does, commit \<open>k\<close> sleeps until the start time plus the exact duration of all frames so far,
  rounded down to a microsecond once, as long as that duration fits in 64 bits.
\<close>

theorem null_sink_paced:
  assumes "null_ok d" and "null_init d fmt frames = (EAF_OK, d1)" and "null_start (logged_clock hal) d1 = (EAF_OK, Some s, w, deadlines)"
    and "fills f" and "n * frames * 1000000 < 2 ^ 64"
  shows "snd (snd ((null_block (logged_clock hal) f ^^ n) (Some s, w, deadlines))) =
    snd (snd d) @ map (\<lambda>k. epoch_us s + of_nat (Suc k * frames * 1000000 div unat (sample_rate fmt))) [0..<n]"
proof -
  note S = started_paced [OF assms(1-3)]
  have fr: "unat (of_nat frames :: u32) = frames" using S(4) by (simp add: unat_of_nat take_bit_nat_eq_self)
  have rate: "0 < unat (sample_rate fmt)" using S(5) by (simp add: unat_gt_0)
  have dur: "null_duration (of_nat (Suc k) * ucast (of_nat frames :: u32)) (ucast (sample_rate fmt)) =
      of_nat (Suc k * frames * 1000000 div unat (sample_rate fmt))" if "k < n" for k
  proof -
    have le: "Suc k * frames \<le> n * frames" using that by (intro mult_le_mono1) simp
    then have lt: "Suc k * frames * 1000000 < 2 ^ 64" using assms(5) by linarith
    have "ucast (of_nat frames :: u32) = (of_nat frames :: u64)"
      by (rule word_unat_eq_iff [THEN iffD2]) (use fr S(4) in \<open>simp add: unat_of_nat take_bit_nat_eq_self\<close>)
    then have "of_nat (Suc k) * ucast (of_nat frames :: u32) = (of_nat (Suc k * frames) :: u64)" by (simp only: of_nat_mult)
    moreover have u: "unat (of_nat (Suc k * frames) :: u64) = Suc k * frames"
      using lt by (simp only: unat_of_nat) (simp add: take_bit_nat_eq_self)
    moreover have q: "Suc k * frames * 1000000 div unat (sample_rate fmt) < 2 ^ 64"
      using le_less_trans [OF div_le_dividend lt] .
    ultimately have eq: "unat (null_duration (of_nat (Suc k) * ucast (of_nat frames :: u32)) (ucast (sample_rate fmt))) =
        Suc k * frames * 1000000 div unat (sample_rate fmt)"
      using duration_exact [of "ucast (sample_rate fmt)" "of_nat (Suc k * frames)"] rate by simp
    show ?thesis unfolding eq [symmetric] by simp
  qed
  have "paced (epoch_us s) (of_nat frames) fmt n ((null_block (logged_clock hal) f ^^ n) (Some s, w, deadlines))
    (deadlines @ map (\<lambda>k. epoch_us s + null_duration (of_nat (Suc k) * ucast (of_nat frames :: u32)) (ucast (sample_rate fmt))) [0..<n])"
    by (rule paced_blocks [OF assms(4) S(1)])
  then show ?thesis unfolding S(2) [symmetric] paced_def using dur by (auto simp del: of_nat_Suc)
qed

definition idle_null :: "(unit \<times> u64 list) null_state" where
  "idle_null = (Some \<lparr>null_address = [4096, 20480], null_buffers = replicate 2 \<lparr>samples = 0, mem = replicate 4096 0, frame_count = 0,
      capacity_frames = 0, capacity_samples = 0, format = zero_format, flags = 0\<rparr>, epoch_us = 0, frames_committed = 0, null_active = 0,
      null_initialized = False, null_running = False, acquired = False\<rparr>, (), [])"

definition fixed_clock :: "unit hal_clock" where
  "fixed_clock = \<lparr>hal_monotonic_time_us = \<lambda>w. (1000, w), hal_sleep_until_us = \<lambda>t w. (EAF_OK, w)\<rparr>"

theorem null_sink_paced_witness:
  "snd (snd ((null_block (logged_clock fixed_clock) id ^^ 3) (snd (null_start (logged_clock fixed_clock)
     (snd (null_init idle_null (mk_format 44100 2 3) 441)))))) = [11000, 21000, 31000]"
proof -
  have ok: "null_ok idle_null" by (simp add: null_ok_def idle_null_def)
  have v: "eaf_format_valid (mk_format 44100 2 3)" by code_simp
  obtain d1 where i: "null_init idle_null (mk_format 44100 2 3) 441 = (EAF_OK, d1)"
    using v by (simp add: null_init_def idle_null_def)
  then have d1: "null_initialized (the (fst d1))" "\<not> null_running (the (fst d1))"
    using v by (auto simp: null_init_def idle_null_def)
  obtain s w l where st: "null_start (logged_clock fixed_clock) d1 = (EAF_OK, Some s, w, l)" "epoch_us s = 1000"
    using d1 by (cases d1) (auto simp: null_start_def logged_clock_def fixed_clock_def)
  have f: "fills id" unfolding fills_def
  proof (intro allI exI conjI)
    fix b :: eaf_buffer_t
    show "id b = b\<lparr>mem := mem b, flags := flags b\<rparr>" by simp
  qed simp
  have "snd (snd idle_null) = []" by (simp add: idle_null_def)
  then show ?thesis using null_sink_paced [OF ok i st(1) f, of 3] i st
    by (simp add: mk_format_def upt_rec)
qed

end
