(* ===== verification/Sink_I2S.thy ===== *)
theory Sink_I2S
  imports Sink_Spec Pipeline "HOL-Library.Multiset"
begin

text \<open>
  \<open>hal/common/sink_i2s_core.c\<close>: the state machine shared by the I2S sinks. It owns at most one DMA block
  between acquire and commit; a complete write hands the block to the driver, a stop frees it; a driver that
  fails to stop keeps the state so that the call can be repeated. The backend callbacks are a
  parameter acting on a state \<open>'w\<close> of the device.
\<close>

section \<open>State and operations\<close>

abbreviation (input) EAF_I2S_CORE_MAX_FRAMES :: nat where "EAF_I2S_CORE_MAX_FRAMES \<equiv> 1024"

text \<open>\<open>dma_alloc\<close> returns the address of a block with its contents; \<open>write\<close> gets the address, the samples and a length in bytes.\<close>

record 'w eaf_i2s_backend_t =
  be_configure :: "eaf_format_t \<Rightarrow> nat \<Rightarrow> 'w \<Rightarrow> eaf_result_t \<times> 'w"
  be_enable :: "'w \<Rightarrow> eaf_result_t \<times> 'w"
  be_write :: "nat \<Rightarrow> int list \<Rightarrow> nat \<Rightarrow> 'w \<Rightarrow> eaf_result_t \<times> nat \<times> 'w"
  be_start :: "'w \<Rightarrow> eaf_result_t \<times> 'w"
  be_drop :: "('w \<Rightarrow> eaf_result_t \<times> 'w) option"
  be_drain :: "'w \<Rightarrow> eaf_result_t \<times> 'w"
  be_disable :: "('w \<Rightarrow> eaf_result_t \<times> 'w) option"
  be_delete_channel :: "('w \<Rightarrow> eaf_result_t \<times> 'w) option"
  be_tune_ppm :: "(int \<Rightarrow> 'w \<Rightarrow> eaf_result_t \<times> 'w) option"
  be_dma_alloc :: "nat \<Rightarrow> 'w \<Rightarrow> (nat \<times> int list) option \<times> 'w"
  be_dma_free :: "nat \<Rightarrow> 'w \<Rightarrow> 'w"
  enable_before_write :: bool

record 'w eaf_i2s_core_t =
  i2s_backend :: "'w eaf_i2s_backend_t option"
  i2s_buffer :: eaf_buffer_t
  i2s_dma :: "nat option"
  i2s_frames :: u32
  submitted_blocks :: u32
  i2s_configured :: bool
  i2s_running :: bool
  i2s_started :: bool
  i2s_paused :: bool
  held :: bool
  error_handler :: "(string \<Rightarrow> eaf_result_t \<Rightarrow> u32 \<Rightarrow> 'w \<Rightarrow> 'w) option"

type_synonym 'w i2s_state = "'w eaf_i2s_core_t \<times> 'w"

abbreviation backend :: "'w eaf_i2s_core_t \<Rightarrow> 'w eaf_i2s_backend_t" where "backend c \<equiv> the (i2s_backend c)"

definition eaf_i2s_core_io_error :: "'w i2s_state \<Rightarrow> string \<Rightarrow> eaf_result_t \<Rightarrow> eaf_result_t \<times> 'w i2s_state" where
  "eaf_i2s_core_io_error s operation err =
     (case s of (c, w) \<Rightarrow> (EAF_IO, c, case error_handler c of None \<Rightarrow> w | Some h \<Rightarrow> h operation err (submitted_blocks c) w))"

definition eaf_i2s_core_set_error_handler ::
  "'w eaf_i2s_core_t \<Rightarrow> (string \<Rightarrow> eaf_result_t \<Rightarrow> u32 \<Rightarrow> 'w \<Rightarrow> 'w) option \<Rightarrow> 'w eaf_i2s_core_t" where
  "eaf_i2s_core_set_error_handler c handler = c\<lparr>error_handler := handler\<rparr>"

text \<open>A callback the backend may leave out, with the error report of its failure.\<close>

definition optional_call ::
  "('w \<Rightarrow> eaf_result_t \<times> 'w) option \<Rightarrow> string \<Rightarrow> 'w i2s_state \<Rightarrow> eaf_result_t \<times> 'w i2s_state" where
  "optional_call f operation s =
     (case f of None \<Rightarrow> (EAF_OK, s)
      | Some f \<Rightarrow> let (rc, w) = f (snd s) in if rc \<noteq> EAF_OK then eaf_i2s_core_io_error (fst s, w) operation rc else (EAF_OK, fst s, w))"

definition eaf_i2s_core_drain :: "'w i2s_state \<Rightarrow> eaf_result_t \<times> 'w i2s_state" where
  "eaf_i2s_core_drain s =
     (case s of (c, w) \<Rightarrow>
      if \<not> i2s_started c then (EAF_OK, c, w)
      else let (rc, w) = be_drain (backend c) w
           in if rc \<noteq> EAF_OK then eaf_i2s_core_io_error (c, w) ''drain'' rc
              else let (rc, c, w) = optional_call (be_disable (backend c)) ''disable'' (c, w)
                   in if rc \<noteq> EAF_OK then (rc, c, w) else (EAF_OK, c\<lparr>i2s_started := False\<rparr>, w))"

definition eaf_i2s_core_pause :: "'w i2s_state \<Rightarrow> bool \<Rightarrow> eaf_result_t \<times> 'w i2s_state" where
  "eaf_i2s_core_pause s paused =
     (case s of (c, w) \<Rightarrow>
      if \<not> i2s_running c \<or> held c then (EAF_STATE, c, w)
      else if i2s_paused c = paused then (EAF_OK, c, w)
      else let (rc, c, w) = (if paused \<and> i2s_started c then eaf_i2s_core_drain (c, w) else (EAF_OK, c, w))
           in if rc \<noteq> EAF_OK then (rc, c, w) else (EAF_OK, c\<lparr>i2s_paused := paused\<rparr>, w))"

definition core_init :: "'w i2s_state \<Rightarrow> eaf_format_t \<Rightarrow> nat \<Rightarrow> eaf_result_t \<times> 'w i2s_state" where
  "core_init s fmt frames =
     (case s of (c, w) \<Rightarrow>
      if Option.is_none (i2s_backend c) \<or> i2s_configured c \<or> i2s_running c then (EAF_STATE, c, w)
      else if \<not> eaf_format_valid fmt \<or> num_channels fmt \<noteq> 2 \<or> channel_mask fmt \<noteq> 3 \<or> frames = 0 then (EAF_INVALID, c, w)
      else let frames = (if frames > EAF_I2S_CORE_MAX_FRAMES then EAF_I2S_CORE_MAX_FRAMES else frames);
               (rc, w) = be_configure (backend c) fmt frames w
           in if rc \<noteq> EAF_OK then (rc, c, w)
              else (EAF_OK, c\<lparr>i2s_frames := of_nat frames,
                      i2s_buffer := \<lparr>samples = 0, mem = [], frame_count = of_nat frames, capacity_frames = of_nat frames,
                        capacity_samples = frames * 2, format = fmt, flags = 0\<rparr>,
                      i2s_dma := None, held := False, i2s_configured := True\<rparr>, w))"

definition core_start :: "'w i2s_state \<Rightarrow> eaf_result_t \<times> 'w i2s_state" where
  "core_start s =
     (case s of (c, w) \<Rightarrow>
      if \<not> i2s_configured c \<or> i2s_running c then (EAF_STATE, c, w)
      else (EAF_OK, c\<lparr>i2s_paused := False, submitted_blocks := 0, i2s_running := True, i2s_started := False, held := False\<rparr>, w))"

definition core_acquire :: "'w i2s_state \<Rightarrow> eaf_result_t \<times> eaf_buffer_t option \<times> 'w i2s_state" where
  "core_acquire s =
     (case s of (c, w) \<Rightarrow>
      if \<not> i2s_running c \<or> i2s_paused c \<or> held c then (EAF_STATE, None, c, w)
      else let (block, w) = be_dma_alloc (backend c) (unat (i2s_frames c) * 2 * 4) w
           in case block of None \<Rightarrow> let (rc, s) = eaf_i2s_core_io_error (c, w) ''allocate'' EAF_IO in (rc, None, s)
              | Some (addr, contents) \<Rightarrow>
                  let b = (i2s_buffer c)\<lparr>samples := addr, mem := contents, frame_count := i2s_frames c, flags := 0\<rparr>
                  in (EAF_OK, Some b, c\<lparr>i2s_dma := Some addr, held := True, i2s_buffer := b\<rparr>, w))"

text \<open>The start trigger after the first write of a device that is not enabled before it.\<close>

definition start_device :: "'w i2s_state \<Rightarrow> eaf_result_t \<times> 'w i2s_state" where
  "start_device s =
     (case s of (c, w) \<Rightarrow>
      if i2s_started c then (EAF_OK, c, w)
      else let (rc, w) = be_start (backend c) w
           in if rc \<noteq> EAF_OK then eaf_i2s_core_io_error (c, w) ''start'' rc else (EAF_OK, c\<lparr>i2s_started := True\<rparr>, w))"

definition core_submit :: "'w i2s_state \<Rightarrow> eaf_result_t \<times> 'w i2s_state" where
  "core_submit s =
     (case s of (c, w) \<Rightarrow>
      let bytes = unat (frame_count (i2s_buffer c)) * 2 * 4;
          (rc, written, w) = be_write (backend c) (the (i2s_dma c)) (mem (i2s_buffer c)) bytes w
      in if rc \<noteq> EAF_OK \<or> written \<noteq> bytes then eaf_i2s_core_io_error (c, w) ''write'' (if rc \<noteq> EAF_OK then rc else EAF_IO)
         else case start_device (c\<lparr>held := False, i2s_dma := None, submitted_blocks := submitted_blocks c + 1\<rparr>, w) of (rc, c, w) \<Rightarrow>
              if rc \<noteq> EAF_OK then (rc, c, w)
              else if flags (i2s_buffer c) AND EAF_FRAME_EOS \<noteq> 0 then eaf_i2s_core_drain (c, w) else (EAF_OK, c, w))"

text \<open>\<open>own\<close>: whether the buffer argument is the core's own buffer.\<close>

definition core_commit :: "'w i2s_state \<Rightarrow> bool \<Rightarrow> eaf_result_t \<times> 'w i2s_state" where
  "core_commit s own =
     (case s of (c, w) \<Rightarrow>
      if \<not> i2s_running c \<or> \<not> held c \<or> \<not> own then (EAF_STATE, c, w)
      else if \<not> i2s_started c \<and> enable_before_write (backend c)
      then let (rc, w) = be_enable (backend c) w
           in if rc \<noteq> EAF_OK then eaf_i2s_core_io_error (c, w) ''enable'' rc else core_submit (c\<lparr>i2s_started := True\<rparr>, w)
      else core_submit (c, w))"

definition core_stop :: "'w i2s_state \<Rightarrow> eaf_result_t \<times> 'w i2s_state" where
  "core_stop s =
     (case s of (c, w) \<Rightarrow>
      let (c, w) = (if held c then (c\<lparr>i2s_dma := None, held := False\<rparr>, be_dma_free (backend c) (the (i2s_dma c)) w) else (c, w));
          (rc, c, w) = (if i2s_started c then eaf_i2s_core_drain (c, w) else (EAF_OK, c, w))
      in if rc \<noteq> EAF_OK then (rc, c, w)
         else let (rc, c, w) = optional_call (be_drop (backend c)) ''drop'' (c, w)
              in if rc \<noteq> EAF_OK then (rc, c, w) else (EAF_OK, c\<lparr>i2s_running := False, i2s_paused := False\<rparr>, w))"

definition core_deinit :: "'w i2s_state \<Rightarrow> eaf_result_t \<times> 'w i2s_state" where
  "core_deinit s =
     (case core_stop s of (rc, c, w) \<Rightarrow>
      if rc \<noteq> EAF_OK then (rc, c, w)
      else let (rc, c, w) = optional_call (be_delete_channel (backend c)) ''delete'' (c, w)
           in if rc \<noteq> EAF_OK then (rc, c, w) else (EAF_OK, c\<lparr>i2s_configured := False\<rparr>, w))"

definition core_adjust :: "'w i2s_state \<Rightarrow> int \<Rightarrow> eaf_result_t \<times> 'w i2s_state" where
  "core_adjust s ppm =
     (case s of (c, w) \<Rightarrow>
      case be_tune_ppm (backend c) of None \<Rightarrow> (EAF_UNSUPPORTED, c, w) | Some f \<Rightarrow> let (rc, w) = f ppm w in (rc, c, w))"

text \<open>The table; the pipeline writes into the core's own buffer before it commits.\<close>

definition core_commit_buf :: "'w i2s_state \<Rightarrow> eaf_buffer_t \<Rightarrow> eaf_result_t \<times> 'w i2s_state" where
  "core_commit_buf s buf = (case s of (c, w) \<Rightarrow> core_commit (c\<lparr>i2s_buffer := buf\<rparr>, w) True)"

definition eaf_i2s_core_sink_ops :: "'w i2s_state eaf_sink_ops" where
  "eaf_i2s_core_sink_ops = \<lparr>sink_init = Some core_init, sink_start = Some core_start, sink_stop = Some core_stop,
     sink_acquire = Some core_acquire, sink_commit = Some core_commit_buf, sink_deinit = Some core_deinit\<rparr>"

section \<open>Invariant\<close>

text \<open>A backend allocates blocks of the size asked for (four bytes a sample).\<close>

definition alloc_ok :: "'w eaf_i2s_backend_t \<Rightarrow> bool" where
  "alloc_ok be \<longleftrightarrow> (\<forall>n w a m w'. be_dma_alloc be (n * 4) w = (Some (a, m), w') \<longrightarrow> length m = n)"

definition i2s_ok :: "'w eaf_i2s_core_t \<Rightarrow> bool" where
  "i2s_ok c \<longleftrightarrow> (\<forall>be. i2s_backend c = Some be \<longrightarrow> alloc_ok be) \<and>
     (held c \<longleftrightarrow> i2s_dma c \<noteq> None) \<and> (held c \<longrightarrow> i2s_running c \<and> \<not> i2s_paused c) \<and>
     (i2s_running c \<longrightarrow> i2s_configured c) \<and> (i2s_configured c \<longrightarrow> i2s_backend c \<noteq> None) \<and>
     (i2s_started c \<or> i2s_paused c \<longrightarrow> i2s_running c) \<and> \<not> (i2s_started c \<and> i2s_paused c) \<and>
     (i2s_configured c \<longrightarrow> capacity_samples (i2s_buffer c) = unat (i2s_frames c) * 2) \<and>
     (held c \<longrightarrow> length (mem (i2s_buffer c)) = capacity_samples (i2s_buffer c))"

definition i2s_lent :: "'w i2s_state \<Rightarrow> eaf_buffer_t option" where
  "i2s_lent s = (if held (fst s) then Some (i2s_buffer (fst s)) else None)"

lemma io_error_simps [simp]: "fst (eaf_i2s_core_io_error (c, w) op e) = EAF_IO" "fst (snd (eaf_i2s_core_io_error (c, w) op e)) = c"
  by (simp_all add: eaf_i2s_core_io_error_def)

lemma optional_call_core [simp]: "fst (snd (optional_call f op (c, w))) = c"
  by (simp add: optional_call_def split: option.splits prod.splits)

text \<open>A drain changes nothing but \<open>started\<close>.\<close>

lemma drain_core:
  "fst (snd (eaf_i2s_core_drain (c, w))) = (if fst (eaf_i2s_core_drain (c, w)) = EAF_OK then c\<lparr>i2s_started := False\<rparr> else c)"
proof -
  obtain rc w1 where d: "be_drain (backend c) w = (rc, w1)" by fastforce
  obtain rc2 c2 w2 where o: "optional_call (be_disable (backend c)) ''disable'' (c, w1) = (rc2, c2, w2)" by (metis prod_cases3)
  have "c2 = c" using optional_call_core [of "be_disable (backend c)" "''disable''" c w1] o by simp
  then show ?thesis using d o by (auto simp: eaf_i2s_core_drain_def)
qed

lemma drained_ok: "i2s_ok c \<Longrightarrow> i2s_ok (c\<lparr>i2s_started := False\<rparr>)"
  by (auto simp: i2s_ok_def)

lemma core_drain_ok: "i2s_ok c \<Longrightarrow> i2s_ok (fst (snd (eaf_i2s_core_drain (c, w))))"
  by (simp add: drain_core drained_ok)

lemma core_paused_ok:
  assumes "i2s_ok c" and "i2s_running c" and "\<not> held c" and "b \<longrightarrow> \<not> i2s_started c"
  shows "i2s_ok (c\<lparr>i2s_paused := b\<rparr>)"
  using assms unfolding i2s_ok_def by auto

lemma pause_ok:
  assumes "i2s_ok c"
  shows "i2s_ok (fst (snd (eaf_i2s_core_pause (c, w) paused)))"
proof (cases "i2s_running c \<and> \<not> held c \<and> i2s_paused c \<noteq> paused")
  case True
  define r where "r = (if paused \<and> i2s_started c then eaf_i2s_core_drain (c, w) else (EAF_OK, c, w))"
  obtain rc c1 w1 where d: "r = (rc, c1, w1)" by (metis prod_cases3)
  then have c1: "c1 = (if rc = EAF_OK \<and> paused \<and> i2s_started c then c\<lparr>i2s_started := False\<rparr> else c)"
    using drain_core [of c w] unfolding r_def by (cases "paused \<and> i2s_started c") auto
  have e: "fst (snd (eaf_i2s_core_pause (c, w) paused)) = (if rc \<noteq> EAF_OK then c1 else c1\<lparr>i2s_paused := paused\<rparr>)"
    using True d unfolding eaf_i2s_core_pause_def r_def by auto
  have ok1: "i2s_ok c1" using assms drained_ok [OF assms] c1 by simp
  have "i2s_ok (c1\<lparr>i2s_paused := paused\<rparr>)" if "rc = EAF_OK"
    by (rule core_paused_ok [OF ok1]) (use True c1 that in \<open>auto split: if_splits\<close>)
  then show ?thesis using ok1 e by simp
next
  case False
  then have "snd (eaf_i2s_core_pause (c, w) paused) = (c, w)" by (auto simp: eaf_i2s_core_pause_def)
  then show ?thesis using assms by simp
qed

lemma core_init_ok:
  assumes "i2s_ok c"
  shows "i2s_ok (fst (snd (core_init (c, w) fmt n)))"
proof -
  define k where "k = (if n > 1024 then 1024 else n)"
  have k: "unat (of_nat k :: u32) = k" by (simp add: k_def unat_of_nat take_bit_nat_eq_self)
  obtain rc w1 where b: "be_configure (backend c) fmt k w = (rc, w1)" by fastforce
  let ?c = "c\<lparr>i2s_frames := of_nat k, i2s_buffer := \<lparr>samples = 0, mem = [], frame_count = of_nat k, capacity_frames = of_nat k,
                        capacity_samples = k * 2, format = fmt, flags = 0\<rparr>, i2s_dma := None, held := False, i2s_configured := True\<rparr>"
  have "fst (snd (core_init (c, w) fmt n)) = c \<or>
      i2s_backend c \<noteq> None \<and> \<not> i2s_running c \<and> fst (snd (core_init (c, w) fmt n)) = ?c"
    using b unfolding core_init_def k_def [symmetric] by (auto simp: Let_def Option.is_none_def)
  moreover have "i2s_ok ?c" if "i2s_backend c \<noteq> None" "\<not> i2s_running c" using assms that k unfolding i2s_ok_def by simp
  ultimately show ?thesis using assms by auto
qed

lemma core_start_ok: "i2s_ok c \<Longrightarrow> i2s_ok (fst (snd (core_start (c, w))))"
  by (auto simp: core_start_def i2s_ok_def)

lemma core_acquire_cases:
  assumes "core_acquire (c, w) = (rc, b, c', w')"
  obtains (refused) "rc \<noteq> EAF_OK" "c' = c" "b = None"
    | (lent) addr contents where "rc = EAF_OK" "i2s_running c" "\<not> i2s_paused c" "\<not> held c"
        "be_dma_alloc (backend c) (unat (i2s_frames c) * 2 * 4) w = (Some (addr, contents), w')"
        "b = Some ((i2s_buffer c)\<lparr>samples := addr, mem := contents, frame_count := i2s_frames c, flags := 0\<rparr>)"
        "c' = c\<lparr>i2s_dma := Some addr, held := True, i2s_buffer := the b\<rparr>"
proof (cases "i2s_running c \<and> \<not> i2s_paused c \<and> \<not> held c")
  case True
  obtain block w1 where a: "be_dma_alloc (backend c) (unat (i2s_frames c) * 2 * 4) w = (block, w1)" by fastforce
  show ?thesis
  proof (cases block)
    case None
    then show ?thesis using assms True a by (intro refused) (auto simp: core_acquire_def eaf_i2s_core_io_error_def)
  next
    case (Some p)
    then show ?thesis using assms True a by (cases p) (intro lent, auto simp: core_acquire_def Let_def)
  qed
next
  case False
  then show ?thesis using assms by (intro refused) (auto simp: core_acquire_def)
qed

lemma core_acquire_ok:
  assumes "i2s_ok c" and "core_acquire (c, w) = (rc, b, c', w')"
  shows "i2s_ok c' \<and> (rc = EAF_OK \<longrightarrow> length (mem (the b)) = capacity_samples (the b))"
  using assms(2)
proof (cases rule: core_acquire_cases)
  case refused
  then show ?thesis using assms(1) by simp
next
  case (lent addr contents)
  have "alloc_ok (backend c)" using assms(1) lent(2) by (auto simp: i2s_ok_def)
  then have "length contents = unat (i2s_frames c) * 2" using lent(5) unfolding alloc_ok_def by blast
  then show ?thesis using assms(1) lent by (auto simp: i2s_ok_def)
qed

lemma start_device_core: "\<exists>b. fst (snd (start_device (c, w))) = c\<lparr>i2s_started := b\<rparr>"
proof -
  have "c\<lparr>i2s_started := i2s_started c\<rparr> = c" by simp
  then have "\<exists>b. c = c\<lparr>i2s_started := b\<rparr>" by metis
  then show ?thesis by (auto simp: start_device_def eaf_i2s_core_io_error_def split: prod.splits)
qed

lemma drain_core_ex: "\<exists>b. fst (snd (eaf_i2s_core_drain (c\<lparr>i2s_started := b0\<rparr>, w))) = c\<lparr>i2s_started := b\<rparr>"
  unfolding drain_core by (auto split: if_splits)

text \<open>What a submission leaves: the block still held, or handed to the driver.\<close>

lemma core_submit_cases:
  assumes "core_submit (c, w) = (rc, c', w')"
  obtains (kept) "rc \<noteq> EAF_OK" "c' = c"
    | (handed) b where "c' = c\<lparr>held := False, i2s_dma := None, submitted_blocks := submitted_blocks c + 1, i2s_started := b\<rparr>"
proof -
  let ?bytes = "unat (frame_count (i2s_buffer c)) * 2 * 4"
  let ?c1 = "c\<lparr>held := False, i2s_dma := None, submitted_blocks := submitted_blocks c + 1\<rparr>"
  obtain rc1 n w1 where wr: "be_write (backend c) (the (i2s_dma c)) (mem (i2s_buffer c)) ?bytes w = (rc1, n, w1)" by (metis prod_cases3)
  show ?thesis
  proof (cases "rc1 \<noteq> EAF_OK \<or> n \<noteq> ?bytes")
    case True
    then show ?thesis using assms wr by (intro kept) (auto simp: core_submit_def eaf_i2s_core_io_error_def Let_def)
  next
    case False
    obtain rc2 c2 w2 where st: "start_device (?c1, w1) = (rc2, c2, w2)" by (metis prod_cases3)
    obtain b where c2: "c2 = ?c1\<lparr>i2s_started := b\<rparr>" using start_device_core [of ?c1 w1] st by auto
    have "c' = c2 \<or> c' = fst (snd (eaf_i2s_core_drain (c2, w2)))"
      using assms wr False st by (auto simp: core_submit_def Let_def split: if_splits)
    then have "\<exists>b. c' = ?c1\<lparr>i2s_started := b\<rparr>" using drain_core_ex [where c = ?c1 and ?b0.0 = b and w = w2] c2 by auto
    then show ?thesis using handed by auto
  qed
qed

lemma submit_ok:
  assumes "i2s_ok c" and "held c" and "core_submit (c, w) = (rc, c', w')"
  shows "i2s_ok c' \<and> i2s_running c' \<and> (rc = EAF_OK \<longrightarrow> \<not> held c')"
  using assms(3)
proof (cases rule: core_submit_cases)
  case kept
  then show ?thesis using assms(1,2) by (auto simp: i2s_ok_def)
next
  case (handed b)
  then show ?thesis using assms(1,2) by (auto simp: i2s_ok_def)
qed

lemma core_commit_ok:
  assumes "i2s_ok c" and "core_commit (c, w) own = (rc, c', w')"
  shows "i2s_ok c' \<and> i2s_running c' = i2s_running c \<and> (rc = EAF_OK \<longrightarrow> held c \<and> \<not> held c')"
proof (cases "i2s_running c \<and> held c \<and> own")
  case True
  obtain rc1 w1 where en: "be_enable (backend c) w = (rc1, w1)" by fastforce
  have c1: "i2s_ok (c\<lparr>i2s_started := True\<rparr>)" "held (c\<lparr>i2s_started := True\<rparr>)" using assms(1) True by (auto simp: i2s_ok_def)
  show ?thesis
  proof (cases "\<not> i2s_started c \<and> enable_before_write (backend c)")
    case first: True
    show ?thesis
    proof (cases "rc1 = EAF_OK")
      case True
      then have "core_submit (c\<lparr>i2s_started := True\<rparr>, w1) = (rc, c', w')" using assms(2) \<open>i2s_running c \<and> held c \<and> own\<close> first en
        by (auto simp: core_commit_def)
      from submit_ok [OF c1 this] show ?thesis using \<open>i2s_running c \<and> held c \<and> own\<close> by simp
    next
      case False
      then show ?thesis using assms True first en by (auto simp: core_commit_def eaf_i2s_core_io_error_def)
    qed
  next
    case False
    then have "core_submit (c, w) = (rc, c', w')" using assms(2) True by (auto simp: core_commit_def)
    from submit_ok [OF assms(1) _ this] show ?thesis using True by simp
  qed
next
  case False
  then show ?thesis using assms by (auto simp: core_commit_def)
qed

lemma core_stop_cases:
  assumes "core_stop (c, w) = (rc, c', w')"
  defines "c1 \<equiv> (if held c then c\<lparr>i2s_dma := None, held := False\<rparr> else c)"
  obtains (failed) b where "rc \<noteq> EAF_OK" "c' = c1\<lparr>i2s_started := b\<rparr>" "b \<longrightarrow> i2s_started c"
    | (stopped) "rc = EAF_OK" "c' = c1\<lparr>i2s_started := False, i2s_running := False, i2s_paused := False\<rparr>"
proof -
  define w1 where "w1 = (if held c then be_dma_free (backend c) (the (i2s_dma c)) w else w)"
  obtain rc2 c2 w2 where d: "(if i2s_started c1 then eaf_i2s_core_drain (c1, w1) else (EAF_OK, c1, w1)) = (rc2, c2, w2)" by (metis prod_cases3)
  have c2: "c2 = (if rc2 = EAF_OK then c1\<lparr>i2s_started := False\<rparr> else c1)"
    using d drain_core [of c1 w1] by (cases "i2s_started c1") auto
  obtain rc3 c3 w3 where o: "optional_call (be_drop (backend c2)) ''drop'' (c2, w2) = (rc3, c3, w3)" by (metis prod_cases3)
  have c3: "c3 = c2" using optional_call_core [of "be_drop (backend c2)" "''drop''" c2 w2] o by simp
  have "(rc, c', w') = (if rc2 \<noteq> EAF_OK then (rc2, c2, w2)
      else if rc3 \<noteq> EAF_OK then (rc3, c3, w3) else (EAF_OK, c3\<lparr>i2s_running := False, i2s_paused := False\<rparr>, w3))"
  proof -
    have "(if held c then (c\<lparr>i2s_dma := None, held := False\<rparr>, be_dma_free (backend c) (the (i2s_dma c)) w) else (c, w)) = (c1, w1)"
      by (simp add: c1_def w1_def)
    then have "core_stop (c, w) = (case (if i2s_started c1 then eaf_i2s_core_drain (c1, w1) else (EAF_OK, c1, w1)) of (rc, c, w) \<Rightarrow>
        if rc \<noteq> EAF_OK then (rc, c, w)
        else case optional_call (be_drop (backend c)) ''drop'' (c, w) of (rc, c, w) \<Rightarrow>
          if rc \<noteq> EAF_OK then (rc, c, w) else (EAF_OK, c\<lparr>i2s_running := False, i2s_paused := False\<rparr>, w))"
      unfolding core_stop_def Let_def by simp
    then show ?thesis using assms(1) o unfolding d by (cases "rc2 = EAF_OK"; cases "rc3 = EAF_OK") simp_all
  qed
  then consider "rc2 \<noteq> EAF_OK" "rc \<noteq> EAF_OK" "c' = c1" | "rc2 = EAF_OK" "rc \<noteq> EAF_OK" "c' = c1\<lparr>i2s_started := False\<rparr>"
    | "rc = EAF_OK" "c' = c1\<lparr>i2s_started := False, i2s_running := False, i2s_paused := False\<rparr>"
    using c2 c3 by (auto split: if_splits)
  then show ?thesis
  proof cases
    case 1
    then show ?thesis by (intro failed [of "i2s_started c"]) (simp_all add: c1_def)
  next
    case 2
    then show ?thesis by (intro failed [of False]) simp_all
  qed (rule stopped)
qed

lemma core_stop_ok:
  assumes "i2s_ok c" and "core_stop (c, w) = (rc, c', w')"
  shows "i2s_ok c' \<and> \<not> held c' \<and> (rc = EAF_OK \<longrightarrow> \<not> i2s_running c')"
  using assms(2)
proof (cases rule: core_stop_cases)
  case (failed b)
  then show ?thesis using assms(1) by (auto simp: i2s_ok_def split: if_splits)
next
  case stopped
  then show ?thesis using assms(1) by (auto simp: i2s_ok_def split: if_splits)
qed

lemma core_deinit_ok:
  assumes "i2s_ok c" and "core_deinit (c, w) = (rc, c', w')"
  shows "i2s_ok c' \<and> \<not> held c' \<and> (rc = EAF_OK \<longrightarrow> \<not> i2s_running c')"
proof -
  obtain rc1 c1 w1 where st: "core_stop (c, w) = (rc1, c1, w1)" by (metis prod_cases3)
  note S = core_stop_ok [OF assms(1) st]
  obtain rc2 c2 w2 where o: "optional_call (be_delete_channel (backend c1)) ''delete'' (c1, w1) = (rc2, c2, w2)" by (metis prod_cases3)
  have "c2 = c1" using optional_call_core [of "be_delete_channel (backend c1)" "''delete''" c1 w1] o by simp
  then have "(rc, c', w') = (if rc1 \<noteq> EAF_OK then (rc1, c1, w1) else if rc2 \<noteq> EAF_OK then (rc2, c1, w2) else (EAF_OK, c1\<lparr>i2s_configured := False\<rparr>, w2))"
    using assms(2) st o by (cases "rc1 = EAF_OK"; cases "rc2 = EAF_OK") (simp_all add: core_deinit_def)
  then show ?thesis using S by (auto simp: i2s_ok_def split: if_splits)
qed

interpretation i2s: sink_contract core_init core_start core_stop core_acquire core_commit_buf core_deinit
  "\<lambda>s. i2s_ok (fst s)" "\<lambda>s. i2s_running (fst s)" i2s_lent
proof
  fix s s' :: "'a i2s_state" and fmt n rc b own buf
  assume ok: "i2s_ok (fst s)"
  obtain c w where s: "s = (c, w)" by (cases s)
  obtain c' w' where s': "s' = (c', w')" by (cases s')
  have okc: "i2s_ok c" using ok s by simp
  show "i2s_lent s \<noteq> None \<Longrightarrow> i2s_running (fst s)" using okc by (auto simp: s i2s_lent_def i2s_ok_def split: if_splits)
  show "i2s_ok (fst (snd (core_init s fmt n))) \<and> i2s_running (fst (snd (core_init s fmt n))) = i2s_running (fst s)"
    using core_init_ok [OF okc] by (simp add: s core_init_def Let_def split: prod.splits)
  show "i2s_ok (fst s') \<and> (if rc = EAF_OK then \<not> i2s_running (fst s) \<and> i2s_running (fst s') \<and> i2s_lent s' = None else s' = s)"
    if "core_start s = (rc, s')"
    using that core_start_ok [OF okc, of w] by (auto simp: s core_start_def i2s_lent_def split: if_splits)
  show "i2s_ok (fst s') \<and> i2s_lent s' = None \<and> (rc = EAF_OK \<longrightarrow> \<not> i2s_running (fst s'))" if "core_stop s = (rc, s')"
    using that core_stop_ok [OF okc, of w rc c' w'] by (simp add: s s' i2s_lent_def)
  show "i2s_ok (fst s') \<and> i2s_running (fst s') = i2s_running (fst s) \<and>
      (if rc = EAF_OK then i2s_running (fst s) \<and> i2s_lent s = None \<and> b \<noteq> None \<and> i2s_lent s' = b \<and> length (mem (the b)) = capacity_samples (the b)
       else i2s_lent s' = i2s_lent s)" if a: "core_acquire s = (rc, b, s')"
  proof -
    have a': "core_acquire (c, w) = (rc, b, c', w')" using a s s' by simp
    note A = core_acquire_ok [OF okc a']
    from a' show ?thesis
    proof (cases rule: core_acquire_cases)
      case refused
      then show ?thesis using okc by (simp add: s s' i2s_lent_def)
    next
      case (lent addr contents)
      then show ?thesis using A by (simp add: s s' i2s_lent_def)
    qed
  qed
  show "i2s_ok (fst s') \<and> i2s_running (fst s') \<and> (rc = EAF_OK \<longrightarrow> i2s_lent s' = None)"
    if "i2s_lent s = Some own" "capacity_samples buf = capacity_samples own" "length (mem buf) = capacity_samples own" "core_commit_buf s buf = (rc, s')"
  proof -
    have h: "held c" "own = i2s_buffer c" using that(1) by (auto simp: s i2s_lent_def split: if_splits)
    then have "i2s_ok (c\<lparr>i2s_buffer := buf\<rparr>)" using okc that(2,3) by (auto simp: i2s_ok_def)
    from core_commit_ok [OF this, of w True rc c' w'] show ?thesis
      using that(4) h okc by (auto simp: s s' core_commit_buf_def i2s_lent_def i2s_ok_def)
  qed
  show "fst (core_commit_buf s buf) \<noteq> EAF_OK" if "i2s_lent s = None"
    using that by (auto simp: s core_commit_buf_def core_commit_def i2s_lent_def split: if_splits)
  show "i2s_ok (fst s') \<and> i2s_lent s' = None \<and> (rc = EAF_OK \<longrightarrow> \<not> i2s_running (fst s'))" if "core_deinit s = (rc, s')"
    using that core_deinit_ok [OF okc, of w rc c' w'] by (simp add: s s' i2s_lent_def)
qed

end
