(* ===== verification/Sink_I2S_DMA.thy ===== *)
theory Sink_I2S_DMA
  imports Sink_I2S
begin

text \<open>
  The theorem of the I2S core (\<open>hal/common/sink_i2s_core.c\<close>): for every behaviour of the device, every DMA block
  that was allocated has been handed to the driver once, or freed once, or is the one
  the core holds. A ledger beside the device records the three.
\<close>

section \<open>Ownership of DMA blocks\<close>

text \<open>
  The device with a ledger: the blocks allocated, those handed over by a complete write and
  those freed.
\<close>

record ledger =
  allocated :: "nat list"
  handed_over :: "nat list"
  freed :: "nat list"

definition on_device :: "('w \<Rightarrow> 'a \<times> 'w) \<Rightarrow> 'w \<times> ledger \<Rightarrow> 'a \<times> 'w \<times> ledger" where
  "on_device f s = (case s of (w, l) \<Rightarrow> let (a, w) = f w in (a, w, l))"

definition ledger_backend :: "'w eaf_i2s_backend_t \<Rightarrow> ('w \<times> ledger) eaf_i2s_backend_t" where
  "ledger_backend be =
     \<lparr>be_configure = \<lambda>fmt n. on_device (be_configure be fmt n), be_enable = on_device (be_enable be),
      be_write = \<lambda>a m n (w, l). let (rc, k, w) = be_write be a m n w
        in (rc, k, w, if rc = EAF_OK \<and> k = n then l\<lparr>handed_over := handed_over l @ [a]\<rparr> else l),
      be_start = on_device (be_start be), be_drop = map_option on_device (be_drop be), be_drain = on_device (be_drain be),
      be_disable = map_option on_device (be_disable be), be_delete_channel = map_option on_device (be_delete_channel be),
      be_tune_ppm = map_option (\<lambda>f ppm. on_device (f ppm)) (be_tune_ppm be),
      be_dma_alloc = \<lambda>n (w, l). let (b, w) = be_dma_alloc be n w
        in (b, w, case b of None \<Rightarrow> l | Some (a, m) \<Rightarrow> l\<lparr>allocated := allocated l @ [a]\<rparr>),
      be_dma_free = \<lambda>a (w, l). (be_dma_free be a w, l\<lparr>freed := freed l @ [a]\<rparr>), enable_before_write = enable_before_write be\<rparr>"

definition ledger_handler :: "(string \<Rightarrow> eaf_result_t \<Rightarrow> u32 \<Rightarrow> 'w \<Rightarrow> 'w) \<Rightarrow> string \<Rightarrow> eaf_result_t \<Rightarrow> u32 \<Rightarrow> 'w \<times> ledger \<Rightarrow> 'w \<times> ledger" where
  "ledger_handler h op e n s = (h op e n (fst s), snd s)"

definition balanced :: "'w eaf_i2s_core_t \<Rightarrow> ledger \<Rightarrow> bool" where
  "balanced c l \<longleftrightarrow> mset (allocated l) = mset (handed_over l) + mset (freed l) + mset_set (set_option (i2s_dma c))"

definition audited :: "'w eaf_i2s_backend_t \<Rightarrow> ('w \<times> ledger) i2s_state \<Rightarrow> bool" where
  "audited be s \<longleftrightarrow> i2s_ok (fst s) \<and> i2s_backend (fst s) = Some (ledger_backend be) \<and>
     (\<exists>h. error_handler (fst s) = map_option ledger_handler h) \<and> balanced (fst s) (snd (snd s))"

text \<open>Operations other than a write, an allocation and a free leave the ledger alone.\<close>

lemma on_device_ledger [simp]: "snd (snd (on_device f s)) = snd s"
  by (simp add: on_device_def split: prod.splits)

lemma io_error_ledger:
  assumes "error_handler c = map_option ledger_handler h"
  shows "snd (snd (snd (eaf_i2s_core_io_error (c, w) op e))) = snd w"
  using assms by (cases h) (simp_all add: eaf_i2s_core_io_error_def ledger_handler_def)

lemma optional_ledger:
  assumes "error_handler c = map_option ledger_handler h"
  shows "snd (snd (snd (optional_call (map_option on_device f) op (c, w)))) = snd w"
proof (cases f)
  case (Some g)
  obtain rc w1 where g: "on_device g w = (rc, w1)" by (cases "on_device g w")
  then have "snd w1 = snd w" using on_device_ledger [of g w] by simp
  then show ?thesis using Some g io_error_ledger [OF assms, of w1 op rc] by (simp add: optional_call_def)
qed (simp add: optional_call_def)

lemma drain_ledger:
  assumes "i2s_backend c = Some (ledger_backend be)" and "error_handler c = map_option ledger_handler h"
  shows "snd (snd (snd (eaf_i2s_core_drain (c, w)))) = snd w"
proof -
  obtain rc w1 where d: "on_device (be_drain be) w = (rc, w1)" by (cases "on_device (be_drain be) w")
  then have w1: "snd w1 = snd w" using on_device_ledger [of "be_drain be" w] by simp
  obtain rc2 c2 w2 where o: "optional_call (map_option on_device (be_disable be)) ''disable'' (c, w1) = (rc2, c2, w2)" by (metis prod_cases3)
  have w2: "snd w2 = snd w1" using optional_ledger [OF assms(2), of "be_disable be" "''disable''" w1] o by simp
  have b: "be_drain (backend c) w = (rc, w1)" "be_disable (backend c) = map_option on_device (be_disable be)"
    using assms(1) d by (simp_all add: ledger_backend_def)
  show ?thesis using b o w1 w2 io_error_ledger [OF assms(2), of w1 "''drain''" rc]
    by (auto simp: eaf_i2s_core_drain_def)
qed

lemma start_ledger:
  assumes "i2s_backend c = Some (ledger_backend be)" and "error_handler c = map_option ledger_handler h"
  shows "snd (snd (snd (start_device (c, w)))) = snd w"
proof -
  obtain rc w1 where d: "on_device (be_start be) w = (rc, w1)" by (cases "on_device (be_start be) w")
  then have "snd w1 = snd w" using on_device_ledger [of "be_start be" w] by simp
  then show ?thesis using assms(1) d io_error_ledger [OF assms(2), of w1 "''start''" rc]
    by (simp add: start_device_def ledger_backend_def)
qed

lemma submit_ledger:
  assumes be: "i2s_backend c = Some (ledger_backend be)" and h: "error_handler c = map_option ledger_handler h"
    and held: "i2s_dma c = Some a" and sub: "core_submit (c, w) = (rc, c', w')"
  shows "snd w' = (if i2s_dma c' = None then (snd w)\<lparr>handed_over := handed_over (snd w) @ [a]\<rparr> else snd w)"
proof -
  let ?bytes = "unat (frame_count (i2s_buffer c)) * 2 * 4"
  obtain rc1 n v where wr: "be_write be a (mem (i2s_buffer c)) ?bytes (fst w) = (rc1, n, v)" by (metis prod_cases3)
  let ?l = "if rc1 = EAF_OK \<and> n = ?bytes then (snd w)\<lparr>handed_over := handed_over (snd w) @ [a]\<rparr> else snd w"
  have wr': "be_write (backend c) (the (i2s_dma c)) (mem (i2s_buffer c)) ?bytes w = (rc1, n, v, ?l)"
    using be held wr by (cases w) (simp add: ledger_backend_def)
  show ?thesis
  proof (cases "rc1 \<noteq> EAF_OK \<or> n \<noteq> ?bytes")
    case True
    let ?e = "if rc1 \<noteq> EAF_OK then rc1 else EAF_IO"
    have e: "(rc, c', w') = eaf_i2s_core_io_error (c, v, ?l) ''write'' ?e"
      using sub wr' True by (auto simp: core_submit_def Let_def)
    have "c' = c" using arg_cong [OF e, of "\<lambda>x. fst (snd x)"] by simp
    moreover have "snd w' = ?l"
      using arg_cong [OF e, of "\<lambda>x. snd (snd (snd x))"] io_error_ledger [OF h, of "(v, ?l)" "''write''" ?e] by simp
    ultimately show ?thesis using True held by auto
  next
    case False
    let ?c1 = "c\<lparr>held := False, i2s_dma := None, submitted_blocks := submitted_blocks c + 1\<rparr>"
    have c1: "i2s_backend ?c1 = Some (ledger_backend be)" "error_handler ?c1 = map_option ledger_handler h" using be h by simp_all
    obtain rc2 c2 w2 where st: "start_device (?c1, v, ?l) = (rc2, c2, w2)" by (metis prod_cases3)
    have w2: "snd w2 = ?l" using start_ledger [OF c1, of "(v, ?l)"] st by simp
    obtain b where c2: "c2 = ?c1\<lparr>i2s_started := b\<rparr>" using start_device_core [of ?c1 "(v, ?l)"] st by auto
    have dr: "snd (snd (snd (eaf_i2s_core_drain (c2, w2)))) = snd w2" using drain_ledger [of c2 be h w2] c2 c1 by simp
    have dma: "i2s_dma (fst (snd (eaf_i2s_core_drain (c2, w2)))) = None" unfolding drain_core using c2 by simp
    have "(rc, c', w') = (rc, c2, w2) \<or> (rc, c', w') = eaf_i2s_core_drain (c2, w2)"
      using sub wr' False st by (auto simp: core_submit_def Let_def split: if_splits)
    then have "snd w' = ?l \<and> i2s_dma c' = None"
    proof
      assume e: "(rc, c', w') = eaf_i2s_core_drain (c2, w2)"
      show ?thesis using dr dma w2 unfolding e [symmetric] by simp
    qed (use c2 w2 in simp)
    then show ?thesis using False by simp
  qed
qed

lemma stop_ledger:
  assumes be: "i2s_backend c = Some (ledger_backend be)" and h: "error_handler c = map_option ledger_handler h"
    and stop: "core_stop (c, w) = (rc, c', w')"
  shows "snd w' = (if held c then (snd w)\<lparr>freed := freed (snd w) @ [the (i2s_dma c)]\<rparr> else snd w)"
proof -
  define c1 where "c1 = (if held c then c\<lparr>i2s_dma := None, held := False\<rparr> else c)"
  define w1 where "w1 = (if held c then be_dma_free (backend c) (the (i2s_dma c)) w else w)"
  have w1: "snd w1 = (if held c then (snd w)\<lparr>freed := freed (snd w) @ [the (i2s_dma c)]\<rparr> else snd w)"
    using be by (cases w) (simp add: w1_def ledger_backend_def)
  have c1: "i2s_backend c1 = Some (ledger_backend be)" "error_handler c1 = map_option ledger_handler h" using be h by (simp_all add: c1_def)
  define r2 where "r2 = (if i2s_started c1 then eaf_i2s_core_drain (c1, w1) else (EAF_OK, c1, w1))"
  obtain rc2 c2 w2 where r2: "r2 = (rc2, c2, w2)" by (metis prod_cases3)
  have w2: "snd w2 = snd w1" using drain_ledger [OF c1, of w1] r2 unfolding r2_def by (cases "i2s_started c1") auto
  have c2: "i2s_backend c2 = Some (ledger_backend be)" "error_handler c2 = map_option ledger_handler h"
    using c1 drain_core [of c1 w1] r2 unfolding r2_def by (auto split: if_splits)
  define r3 where "r3 = optional_call (be_drop (backend c2)) ''drop'' (c2, w2)"
  obtain rc3 c3 w3 where r3: "r3 = (rc3, c3, w3)" by (metis prod_cases3)
  have "be_drop (backend c2) = map_option on_device (be_drop be)" using c2(1) by (simp add: ledger_backend_def)
  then have w3: "snd w3 = snd w2" using optional_ledger [OF c2(2), of "be_drop be" "''drop''" w2] r3 unfolding r3_def by simp
  have "core_stop (c, w) = (case r2 of (rc, c, w) \<Rightarrow> if rc \<noteq> EAF_OK then (rc, c, w)
      else case optional_call (be_drop (backend c)) ''drop'' (c, w) of (rc, c, w) \<Rightarrow>
        if rc \<noteq> EAF_OK then (rc, c, w) else (EAF_OK, c\<lparr>i2s_running := False, i2s_paused := False\<rparr>, w))"
    unfolding core_stop_def r2_def c1_def w1_def Let_def by simp
  then have "w' = w2 \<or> w' = w3" using stop r2 r3 unfolding r3_def by (auto split: if_splits)
  then show ?thesis using w1 w2 w3 by auto
qed

lemma init_keeps_ledger:
  assumes "i2s_backend c = Some (ledger_backend be)"
  shows "snd (snd (snd (core_init (c, w) fmt n))) = snd w"
proof -
  define k where "k = (if n > 1024 then 1024 else n)"
  obtain rc w1 where b: "be_configure (backend c) fmt k w = (rc, w1)" by (cases "be_configure (backend c) fmt k w")
  have "snd w1 = snd w" using b on_device_ledger [of "be_configure be fmt k" w] assms by (simp add: ledger_backend_def)
  then show ?thesis using b unfolding core_init_def k_def [symmetric] by (auto simp: Let_def)
qed

lemma acquire_ledger:
  assumes be: "i2s_backend c = Some (ledger_backend be)" and h: "error_handler c = map_option ledger_handler h"
    and a: "core_acquire (c, w) = (rc, b, c', w')"
  shows "snd w' = (if rc = EAF_OK then (snd w)\<lparr>allocated := allocated (snd w) @ [the (i2s_dma c')]\<rparr> else snd w)"
proof (cases "i2s_running c \<and> \<not> i2s_paused c \<and> \<not> held c")
  case True
  obtain block v where al: "be_dma_alloc be (unat (i2s_frames c) * 2 * 4) (fst w) = (block, v)" by fastforce
  let ?l = "case block of None \<Rightarrow> snd w | Some (a, m) \<Rightarrow> (snd w)\<lparr>allocated := allocated (snd w) @ [a]\<rparr>"
  have al': "be_dma_alloc (backend c) (unat (i2s_frames c) * 2 * 4) w = (block, v, ?l)"
    using be al by (cases w; cases block) (simp_all add: ledger_backend_def)
  show ?thesis
  proof (cases block)
    case None
    obtain rc1 c1 w1 where e: "eaf_i2s_core_io_error (c, v, ?l) ''allocate'' EAF_IO = (rc1, c1, w1)" by (metis prod_cases3)
    have "snd w1 = ?l" using io_error_ledger [OF h, of "(v, ?l)" "''allocate''" EAF_IO] e by simp
    moreover have "rc1 = EAF_IO" using io_error_simps(1) [of c "(v, ?l)" "''allocate''" EAF_IO] e by simp
    ultimately show ?thesis using a True al' None e by (simp add: core_acquire_def)
  next
    case (Some p)
    then show ?thesis using a True al' by (cases p) (auto simp: core_acquire_def Let_def)
  qed
next
  case False
  then show ?thesis using a by (auto simp: core_acquire_def)
qed

lemma enable_ledger:
  assumes "i2s_backend c = Some (ledger_backend be)" and "be_enable (backend c) w = (rc, w1)"
  shows "snd w1 = snd w"
  using assms on_device_ledger [of "be_enable be" w] by (simp add: ledger_backend_def)

lemma commit_ledger:
  assumes be: "i2s_backend c = Some (ledger_backend be)" and h: "error_handler c = map_option ledger_handler h"
    and held: "held c" "i2s_dma c = Some a" and com: "core_commit (c, w) own = (rc, c', w')"
  shows "snd w' = (if i2s_dma c' = None then (snd w)\<lparr>handed_over := handed_over (snd w) @ [a]\<rparr> else snd w)"
proof -
  obtain rc1 w1 where en: "be_enable (backend c) w = (rc1, w1)" by (cases "be_enable (backend c) w")
  have w1: "snd w1 = snd w" by (rule enable_ledger [OF be en])
  let ?c = "c\<lparr>i2s_started := True\<rparr>"
  have c: "i2s_backend ?c = Some (ledger_backend be)" "error_handler ?c = map_option ledger_handler h" "i2s_dma ?c = Some a"
    using be h held by simp_all
  consider (no) "(rc, c', w') = (EAF_STATE, c, w)" | (err) "(rc, c', w') = eaf_i2s_core_io_error (c, w1) ''enable'' rc1"
    | (on) "core_submit (?c, w1) = (rc, c', w')" | (go) "core_submit (c, w) = (rc, c', w')"
  proof (cases "i2s_running c \<and> own")
    case True
    then show ?thesis using com en held(1) err on go
      by (cases "\<not> i2s_started c \<and> enable_before_write (backend c)"; cases "rc1 = EAF_OK") (simp_all add: core_commit_def)
  next
    case False
    then show ?thesis using com no by (auto simp: core_commit_def)
  qed
  then show ?thesis
  proof cases
    case err
    have "c' = c" using arg_cong [OF err, of "\<lambda>x. fst (snd x)"] by simp
    moreover have "snd w' = snd w1" using arg_cong [OF err, of "\<lambda>x. snd (snd (snd x))"] io_error_ledger [OF h, of w1 "''enable''" rc1] by simp
    ultimately show ?thesis using w1 held by simp
  next
    case on
    then show ?thesis using submit_ledger [OF c on] w1 by simp
  next
    case go
    then show ?thesis using submit_ledger [OF be h held(2) go] by simp
  qed (use held in simp)
qed

lemma deinit_ledger:
  assumes be: "i2s_backend c = Some (ledger_backend be)" and h: "error_handler c = map_option ledger_handler h"
    and "core_stop (c, w) = (rc1, c1, w1)"
  shows "snd (snd (snd (core_deinit (c, w)))) = snd w1" and "i2s_dma (fst (snd (core_deinit (c, w)))) = i2s_dma c1"
    and "i2s_backend (fst (snd (core_deinit (c, w)))) = i2s_backend c1" and "error_handler (fst (snd (core_deinit (c, w)))) = error_handler c1"
proof -
  have c1: "i2s_backend c1 = Some (ledger_backend be)" "error_handler c1 = map_option ledger_handler h"
    using assms(3) be h by (cases rule: core_stop_cases; simp)+
  obtain rc2 c2 w2 where o: "optional_call (be_delete_channel (backend c1)) ''delete'' (c1, w1) = (rc2, c2, w2)" by (metis prod_cases3)
  have c2: "c2 = c1" using optional_call_core [of "be_delete_channel (backend c1)" "''delete''" c1 w1] o by simp
  have "be_delete_channel (backend c1) = map_option on_device (be_delete_channel be)" using c1(1) by (simp add: ledger_backend_def)
  then have w2: "snd w2 = snd w1" using optional_ledger [OF c1(2), of "be_delete_channel be" "''delete''" w1] o by simp
  have "core_deinit (c, w) = (if rc1 \<noteq> EAF_OK then (rc1, c1, w1) else if rc2 \<noteq> EAF_OK then (rc2, c1, w2) else (EAF_OK, c1\<lparr>i2s_configured := False\<rparr>, w2))"
    using assms(3) o c2 by (cases "rc1 = EAF_OK"; cases "rc2 = EAF_OK") (simp_all add: core_deinit_def)
  then show "snd (snd (snd (core_deinit (c, w)))) = snd w1" "i2s_dma (fst (snd (core_deinit (c, w)))) = i2s_dma c1"
    "i2s_backend (fst (snd (core_deinit (c, w)))) = i2s_backend c1" "error_handler (fst (snd (core_deinit (c, w)))) = error_handler c1"
    using w2 by simp_all
qed

lemma pause_ledger:
  fixes w :: "'w \<times> ledger" and paused :: bool
  assumes be: "i2s_backend c = Some (ledger_backend be)" and h: "error_handler c = map_option ledger_handler h"
  defines "s' \<equiv> snd (eaf_i2s_core_pause (c, w) paused)"
  shows "snd (snd s') = snd w" and "i2s_dma (fst s') = i2s_dma c" and "i2s_backend (fst s') = i2s_backend c" and "error_handler (fst s') = error_handler c"
proof -
  define r where "r = (if paused \<and> i2s_started c then eaf_i2s_core_drain (c, w) else (EAF_OK, c, w))"
  obtain rc c1 w1 where d: "r = (rc, c1, w1)" by (metis prod_cases3)
  have w1: "snd w1 = snd w" using drain_ledger [OF be h, of w] d unfolding r_def by (cases "paused \<and> i2s_started c") auto
  have c1: "i2s_dma c1 = i2s_dma c \<and> i2s_backend c1 = i2s_backend c \<and> error_handler c1 = error_handler c"
    using drain_core [of c w] d unfolding r_def by (cases "paused \<and> i2s_started c") (auto split: if_splits)
  have "s' = (c, w) \<or> s' = (c1, w1) \<or> s' = (c1\<lparr>i2s_paused := paused\<rparr>, w1)"
    using d unfolding s'_def eaf_i2s_core_pause_def r_def by (auto split: if_splits)
  then show "snd (snd s') = snd w" "i2s_dma (fst s') = i2s_dma c" "i2s_backend (fst s') = i2s_backend c" "error_handler (fst s') = error_handler c"
    using w1 c1 by auto
qed

section \<open>Reachable states\<close>

text \<open>
  The core from zeroed memory with its backend installed. Between acquire and commit the owner of the buffer changes
  its samples, frame count and flags; the device changes at any time.
\<close>

definition zero_core :: "'w eaf_i2s_backend_t \<Rightarrow> 'w eaf_i2s_core_t" where
  "zero_core be = \<lparr>i2s_backend = Some be, i2s_buffer = \<lparr>samples = 0, mem = [], frame_count = 0, capacity_frames = 0, capacity_samples = 0,
      format = zero_format, flags = 0\<rparr>, i2s_dma = None, i2s_frames = 0, submitted_blocks = 0, i2s_configured = False, i2s_running = False,
      i2s_started = False, i2s_paused = False, held = False, error_handler = None\<rparr>"

inductive i2s_reachable :: "'w eaf_i2s_backend_t \<Rightarrow> ('w \<times> ledger) i2s_state \<Rightarrow> bool" for be where
  zero: "i2s_reachable be (zero_core (ledger_backend be), w, \<lparr>allocated = [], handed_over = [], freed = []\<rparr>)"
| device: "i2s_reachable be (c, w, l) \<Longrightarrow> i2s_reachable be (c, w', l)"
| handler: "i2s_reachable be (c, w) \<Longrightarrow> i2s_reachable be (eaf_i2s_core_set_error_handler c (map_option ledger_handler h), w)"
| init: "i2s_reachable be s \<Longrightarrow> i2s_reachable be (snd (core_init s fmt n))"
| start: "i2s_reachable be s \<Longrightarrow> i2s_reachable be (snd (core_start s))"
| acquire: "i2s_reachable be s \<Longrightarrow> i2s_reachable be (snd (snd (core_acquire s)))"
| fill: "i2s_reachable be (c, w) \<Longrightarrow> length m = length (mem (i2s_buffer c)) \<Longrightarrow>
    i2s_reachable be (c\<lparr>i2s_buffer := (i2s_buffer c)\<lparr>mem := m, frame_count := k, flags := fl\<rparr>\<rparr>, w)"
| commit: "i2s_reachable be s \<Longrightarrow> i2s_reachable be (snd (core_commit s own))"
| pause: "i2s_reachable be s \<Longrightarrow> i2s_reachable be (snd (eaf_i2s_core_pause s paused))"
| stop: "i2s_reachable be s \<Longrightarrow> i2s_reachable be (snd (core_stop s))"
| deinit: "i2s_reachable be s \<Longrightarrow> i2s_reachable be (snd (core_deinit s))"

lemma auditedI:
  assumes "i2s_ok c" "i2s_backend c = Some (ledger_backend be)" "error_handler c = map_option ledger_handler h"
    and "mset (allocated l) = mset (handed_over l) + mset (freed l) + mset_set (set_option (i2s_dma c))"
  shows "audited be (c, w, l)"
  using assms unfolding audited_def balanced_def by auto

lemma alloc_ok_ledger: "alloc_ok be \<Longrightarrow> alloc_ok (ledger_backend be)"
  by (auto simp: alloc_ok_def ledger_backend_def split: prod.splits) blast

lemma auditedE:
  assumes "audited be s"
  obtains c w l h where "s = (c, w, l)" "i2s_ok c" "i2s_backend c = Some (ledger_backend be)" "error_handler c = map_option ledger_handler h"
    "mset (allocated l) = mset (handed_over l) + mset (freed l) + mset_set (set_option (i2s_dma c))"
proof -
  obtain c w l where s: "s = (c, w, l)" by (cases s)
  then show ?thesis using assms that unfolding audited_def balanced_def by auto
qed

lemma acquire_audited:
  assumes "audited be s"
  shows "audited be (snd (snd (core_acquire s)))"
  using assms
proof (rule auditedE)
  fix c w l h
  assume s: "s = (c, w, l)" "i2s_ok c" "i2s_backend c = Some (ledger_backend be)" "error_handler c = map_option ledger_handler h"
    "mset (allocated l) = mset (handed_over l) + mset (freed l) + mset_set (set_option (i2s_dma c))"
  obtain rc b c' w' l' where a: "core_acquire (c, w, l) = (rc, b, c', w', l')" by (metis prod_cases5)
  have l': "l' = (if rc = EAF_OK then l\<lparr>allocated := allocated l @ [the (i2s_dma c')]\<rparr> else l)" using acquire_ledger [OF s(3,4) a] by simp
  have ok: "i2s_ok c'" using core_acquire_ok [OF s(2) a] by simp
  from a have "audited be (c', w', l')"
  proof (cases rule: core_acquire_cases)
    case refused
    then show ?thesis using s l' by (intro auditedI [where h = h]) simp_all
  next
    case (lent addr contents)
    then have "i2s_dma c = None" using s(2) by (auto simp: i2s_ok_def)
    then show ?thesis using s l' lent ok by (intro auditedI [where h = h]) simp_all
  qed
  then show ?thesis using a s(1) by simp
qed

lemma commit_audited:
  assumes "audited be s"
  shows "audited be (snd (core_commit s own))"
  using assms
proof (rule auditedE)
  fix c w l h
  assume s: "s = (c, w, l)" "i2s_ok c" "i2s_backend c = Some (ledger_backend be)" "error_handler c = map_option ledger_handler h"
    "mset (allocated l) = mset (handed_over l) + mset (freed l) + mset_set (set_option (i2s_dma c))"
  obtain rc c' w' l' where k: "core_commit (c, w, l) own = (rc, c', w', l')" by (metis prod_cases4)
  have ok: "i2s_ok c'" using core_commit_ok [OF s(2) k] by simp
  have same: "i2s_backend c' = i2s_backend c \<and> error_handler c' = error_handler c \<and> (i2s_dma c' = i2s_dma c \<or> i2s_dma c' = None)"
  proof -
    have sub: "i2s_backend c' = i2s_backend d \<and> error_handler c' = error_handler d \<and> (i2s_dma c' = i2s_dma d \<or> i2s_dma c' = None)"
      if "core_submit (d, v) = (rc, c', w', l')" for d v
      using that by (cases rule: core_submit_cases) simp_all
    obtain rc1 w1 where en: "be_enable (backend c) (w, l) = (rc1, w1)" by (cases "be_enable (backend c) (w, l)")
    show ?thesis using k en sub [of c "(w, l)"] sub [of "c\<lparr>i2s_started := True\<rparr>" w1]
      by (auto simp: core_commit_def eaf_i2s_core_io_error_def split: if_splits)
  qed
  have "audited be (c', w', l')"
  proof (cases "held c")
    case True
    then obtain a where a: "i2s_dma c = Some a" using s(2) by (auto simp: i2s_ok_def)
    have "l' = (if i2s_dma c' = None then l\<lparr>handed_over := handed_over l @ [a]\<rparr> else l)" using commit_ledger [OF s(3,4) True a k] by simp
    then show ?thesis using s ok same a by (intro auditedI [where h = h]) (auto split: if_splits)
  next
    case False
    then have "(c', w', l') = (c, w, l)" using k by (simp add: core_commit_def)
    then show ?thesis using s by (intro auditedI [where h = h]) simp_all
  qed
  then show ?thesis using k s(1) by simp
qed

lemma stop_audited:
  assumes "audited be s"
  shows "audited be (snd (core_stop s))" and "audited be (snd (core_deinit s))"
proof -
  obtain c w l h where s: "s = (c, w, l)" "i2s_ok c" "i2s_backend c = Some (ledger_backend be)" "error_handler c = map_option ledger_handler h"
    "mset (allocated l) = mset (handed_over l) + mset (freed l) + mset_set (set_option (i2s_dma c))"
    using assms by (rule auditedE)
  obtain rc c' w' l' where k: "core_stop (c, w, l) = (rc, c', w', l')" by (metis prod_cases4)
  have ok: "i2s_ok c'" "\<not> held c'" using core_stop_ok [OF s(2) k] by simp_all
  have l': "l' = (if held c then l\<lparr>freed := freed l @ [the (i2s_dma c)]\<rparr> else l)" using stop_ledger [OF s(3,4) k] by simp
  have same: "i2s_backend c' = i2s_backend c \<and> error_handler c' = error_handler c" using k by (cases rule: core_stop_cases) simp_all
  have dma: "i2s_dma c' = None" using ok by (auto simp: i2s_ok_def)
  have bal: "mset (allocated l') = mset (handed_over l') + mset (freed l') + mset_set (set_option (i2s_dma c'))"
  proof (cases "held c")
    case True
    then obtain a where "i2s_dma c = Some a" using s(2) by (auto simp: i2s_ok_def)
    then show ?thesis using s(5) l' dma True by simp
  next
    case False
    then have "i2s_dma c = None" using s(2) by (auto simp: i2s_ok_def)
    then show ?thesis using s(5) l' dma False by simp
  qed
  have "audited be (c', w', l')" using ok(1) same s bal by (intro auditedI [where h = h]) simp_all
  then show "audited be (snd (core_stop s))" using k s(1) by simp
  note D = deinit_ledger [OF s(3,4) k]
  obtain rcd cd wd ld where kd: "core_deinit (c, w, l) = (rcd, cd, wd, ld)" by (metis prod_cases4)
  have "i2s_ok cd" using core_deinit_ok [OF s(2) kd] by simp
  then have "audited be (cd, wd, ld)" using D kd same s bal by (intro auditedI [where h = h]) simp_all
  then show "audited be (snd (core_deinit s))" using kd s(1) by simp
qed

lemma configure_audited:
  assumes "audited be s"
  shows "audited be (snd (core_init s fmt n))" and "audited be (snd (core_start s))" and "audited be (snd (eaf_i2s_core_pause s paused))"
proof -
  obtain c w l h where s: "s = (c, w, l)" "i2s_ok c" "i2s_backend c = Some (ledger_backend be)" "error_handler c = map_option ledger_handler h"
    "mset (allocated l) = mset (handed_over l) + mset (freed l) + mset_set (set_option (i2s_dma c))"
    using assms by (rule auditedE)
  obtain rc c' w' l' where k: "core_init (c, w, l) fmt n = (rc, c', w', l')" by (metis prod_cases4)
  have l': "l' = l" using init_keeps_ledger [OF s(3), of "(w, l)" fmt n] k by simp
  have "i2s_ok c'" using core_init_ok [OF s(2), of "(w, l)" fmt n] k by simp
  moreover have "i2s_backend c' = i2s_backend c \<and> error_handler c' = error_handler c \<and> i2s_dma c' = i2s_dma c"
    using k s(2) by (auto simp: core_init_def i2s_ok_def Let_def split: if_splits prod.splits)
  ultimately have "audited be (c', w', l')" using s l' by (intro auditedI [where h = h]) simp_all
  then show "audited be (snd (core_init s fmt n))" using k s(1) by simp
  have "audited be (fst (snd (core_start (c, w, l))), w, l)"
    using s core_start_ok [OF s(2), of "(w, l)"] by (intro auditedI [where h = h]) (auto simp: core_start_def)
  moreover have "snd (core_start (c, w, l)) = (fst (snd (core_start (c, w, l))), w, l)" by (simp add: core_start_def)
  ultimately show "audited be (snd (core_start s))" using s(1) by simp
  note P = pause_ledger [OF s(3,4), of "(w, l)" paused]
  obtain rcp cp wp lp where kp: "eaf_i2s_core_pause (c, w, l) paused = (rcp, cp, wp, lp)" by (metis prod_cases4)
  have "i2s_ok cp" using pause_ok [OF s(2), of "(w, l)" paused] kp by simp
  then have "audited be (cp, wp, lp)" using P kp s by (intro auditedI [where h = h]) simp_all
  then show "audited be (snd (eaf_i2s_core_pause s paused))" using kp s(1) by simp
qed

lemma reachable_audited:
  assumes "alloc_ok be" and "i2s_reachable be s"
  shows "audited be s"
  using assms(2)
proof induction
  case (zero w)
  have "i2s_ok (zero_core (ledger_backend be))" using alloc_ok_ledger [OF assms(1)] by (simp add: i2s_ok_def zero_core_def)
  then show ?case by (intro auditedI [where h = None]) (simp_all add: zero_core_def)
next
  case (device c w l w')
  then show ?case by (simp add: audited_def)
next
  case (handler c w h)
  have "i2s_ok (eaf_i2s_core_set_error_handler c x) = i2s_ok c" for x by (simp add: eaf_i2s_core_set_error_handler_def i2s_ok_def)
  then show ?case using handler.IH by (auto simp: audited_def balanced_def eaf_i2s_core_set_error_handler_def)
next
  case (fill c w m fl k)
  have "i2s_ok (c\<lparr>i2s_buffer := (i2s_buffer c)\<lparr>mem := m, frame_count := k, flags := fl\<rparr>\<rparr>)" using fill by (simp add: audited_def i2s_ok_def)
  then show ?case using fill.IH by (auto simp: audited_def balanced_def)
qed (simp_all add: acquire_audited commit_audited stop_audited configure_audited)

section \<open>Properties\<close>

text \<open>
  C14: Whatever the device answers, failures and partial writes included, the I2S core keeps its state machine
  consistent and accounts for every DMA block: the blocks allocated are exactly the ones handed to the driver by a
  complete write, the ones freed and the one the core still holds, each once. When the sink is
  not running it holds none, so nothing is lost.
\<close>

theorem i2s_dma_ownership:
  assumes "alloc_ok be" and "i2s_reachable be (c, w, l)"
  shows "i2s_ok c \<and> mset (allocated l) = mset (handed_over l) + mset (freed l) + mset_set (set_option (i2s_dma c)) \<and>
    (\<not> i2s_running c \<longrightarrow> mset (allocated l) = mset (handed_over l) + mset (freed l))"
  using reachable_audited [OF assms] by (auto simp: audited_def balanced_def i2s_ok_def)

text \<open>A device that accepts every block but the last sample of it.\<close>

definition short_device :: "nat eaf_i2s_backend_t" where
  "short_device = \<lparr>be_configure = \<lambda>fmt n w. (EAF_OK, w), be_enable = \<lambda>w. (EAF_OK, w), be_write = \<lambda>a m n w. (EAF_OK, n - 4, w),
     be_start = \<lambda>w. (EAF_OK, w), be_drop = None, be_drain = \<lambda>w. (EAF_OK, w), be_disable = None, be_delete_channel = None, be_tune_ppm = None,
     be_dma_alloc = \<lambda>n w. (Some (w, replicate (n div 4) 0), w + n), be_dma_free = \<lambda>a w. w, enable_before_write = True\<rparr>"

theorem i2s_dma_ownership_witness:
  "let s = snd (core_stop (snd (core_commit (snd (snd (core_acquire (snd (core_start (snd (core_init
       (zero_core (ledger_backend short_device), 64, \<lparr>allocated = [], handed_over = [], freed = []\<rparr>) (mk_format 48000 2 3) 8))))))) True)))
   in \<not> i2s_running (fst s) \<and> allocated (snd (snd s)) = [64] \<and>
      mset (allocated (snd (snd s))) = mset (handed_over (snd (snd s))) + mset (freed (snd (snd s)))"
proof -
  define s where "s = snd (core_stop (snd (core_commit (snd (snd (core_acquire (snd (core_start (snd (core_init
       (zero_core (ledger_backend short_device), 64, \<lparr>allocated = [], handed_over = [], freed = []\<rparr>) (mk_format 48000 2 3) 8))))))) True)))"
  have v: "eaf_format_valid (mk_format 48000 2 3)" by code_simp
  have a: "alloc_ok short_device" by (auto simp: alloc_ok_def short_device_def)
  have r: "i2s_reachable short_device s"
    unfolding s_def by (intro i2s_reachable.stop i2s_reachable.commit i2s_reachable.acquire i2s_reachable.start i2s_reachable.init i2s_reachable.zero)
  have e: "\<not> i2s_running (fst s) \<and> allocated (snd (snd s)) = [64]"
    using v by (simp add: s_def core_stop_def core_commit_def core_acquire_def core_start_def core_init_def core_submit_def zero_core_def
        ledger_backend_def short_device_def on_device_def mk_format_def eaf_i2s_core_io_error_def eaf_i2s_core_drain_def optional_call_def Let_def)
  obtain c w l where s: "s = (c, w, l)" by (cases s)
  have "mset (allocated l) = mset (handed_over l) + mset (freed l)" 
    using i2s_dma_ownership [OF a r [unfolded s]] e [unfolded s fst_conv] by blast
  then show ?thesis using e unfolding Let_def s_def [symmetric] s by simp
qed

end
