(* ===== verification/Pipeline_Devices.thy ===== *)
theory Pipeline_Devices
  imports DSP Pipeline Sink_Null Sink_I2S
begin

text \<open>
  The devices of the program under the pipeline: the sinks of \<open>hal/common/\<close> keep what \<open>sink_keeps\<close> asks for, by the contract they share, and the
  nodes of \<open>core/eaf_dsp.c\<close> work in place. The witnesses of the pipeline's properties run on the null sink with a volume node.
\<close>

section \<open>Sinks\<close>

context sink_contract begin

lemma table_keeps:
  assumes "sink_init ops = Some init" "sink_start ops = Some start" "sink_stop ops = Some stop" "sink_acquire ops = Some acquire"
    "sink_commit ops = Some commit" "sink_deinit ops = Some deinit"
  shows "sink_keeps invar ops"
proof -
  have "invar s' \<and> (\<forall>own. rc = EAF_OK \<longrightarrow> b = Some own \<longrightarrow> length (mem own) = capacity_samples own \<and>
      (\<forall>buf. capacity_samples buf = capacity_samples own \<longrightarrow> length (mem buf) = capacity_samples own \<longrightarrow> invar (snd (commit s' buf))))"
    if "invar s" "acquire s = (rc, b, s')" for s rc b s'
  proof -
    note A = acquire_keeps [OF that]
    have "invar (snd (commit s' buf))" if "rc = EAF_OK" "b = Some own" "capacity_samples buf = capacity_samples own" "length (mem buf) = capacity_samples own" for own buf
      using commit_keeps [of s' own buf "fst (commit s' buf)" "snd (commit s' buf)"] A that by simp
    then show ?thesis using A by auto
  qed
  moreover have "invar (snd (init s fmt n))" "invar (snd (start s))" "invar (snd (stop s))" "invar (snd (deinit s))" if "invar s" for s fmt n
    using init_keeps [OF that] start_keeps [OF that, of "fst (start s)" "snd (start s)"] stop_keeps [OF that, of "fst (stop s)" "snd (stop s)"]
      deinit_keeps [OF that, of "fst (deinit s)" "snd (deinit s)"] by auto
  ultimately show ?thesis unfolding sink_keeps_def assms option.sel by blast
qed

end

lemma null_sink_honest: "honest_sink null_ok \<lparr>sink_ops = Some (eaf_null_sink_ops hal), driver_data = d\<rparr> \<longleftrightarrow> null_ok d"
  using null.table_keeps [of "eaf_null_sink_ops hal" hal] by (simp add: honest_sink_def eaf_null_sink_ops_def)

lemma i2s_sink_honest:
  fixes d :: "'w i2s_state"
  shows "honest_sink (\<lambda>s. i2s_ok (fst s)) \<lparr>sink_ops = Some eaf_i2s_core_sink_ops, driver_data = d\<rparr> \<longleftrightarrow> i2s_ok (fst d)"
  using i2s.table_keeps [of "eaf_i2s_core_sink_ops :: ('w i2s_state) eaf_sink_ops"] by (simp add: honest_sink_def eaf_i2s_core_sink_ops_def)

section \<open>Nodes\<close>

definition eaf_volume_ops :: "eaf_volume_ctx_t option eaf_node_ops" where
  "eaf_volume_ops = \<lparr>node_init = Some (\<lambda>c fmt_in fmt_out. let (rc, out) = volume_init c fmt_in fmt_out in (rc, out, c)),
     node_process = Some (\<lambda>c b. let (rc, b) = volume_process (the c) b in (rc, c, b)), node_reset = Some noop_reset, node_deinit = Some noop_deinit\<rparr>"

definition eaf_biquad_eq_ops :: "eaf_eq_ctx_t option eaf_node_ops" where
  "eaf_biquad_eq_ops = \<lparr>node_init = Some (\<lambda>c fmt_in fmt_out. eq_init c fmt_in fmt_out),
     node_process = Some (\<lambda>c b. let (rc, c, b) = eq_process (the c) b in (rc, Some c, b)),
     node_reset = Some (\<lambda>c. let (rc, c) = eq_reset (the c) in (rc, Some c)), node_deinit = Some noop_deinit\<rparr>"

definition eaf_crossover_2_1_ops :: "rounding \<Rightarrow> libm \<Rightarrow> eaf_crossover_2_1_ctx_t option eaf_node_ops" where
  "eaf_crossover_2_1_ops rnd lm = \<lparr>node_init = Some (cross_init rnd lm),
     node_process = Some (\<lambda>c b. let (rc, c, b) = cross_process (the c) b in (rc, Some c, b)),
     node_reset = Some (\<lambda>c. let (rc, c) = cross_reset (the c) in (rc, Some c)), node_deinit = Some noop_deinit\<rparr>"

lemma length_fold_fst: "(\<And>x s. length (fst (f x s)) = length (fst s)) \<Longrightarrow> length (fst (fold f xs s)) = length (fst s)"
  by (induction xs arbitrary: s) simp_all

lemma volume_in_place: "length (mem (snd (volume_process v b))) = length (mem b)"
  by (simp add: volume_process_def length_fold Let_def)

lemma eq_in_place: "length (mem (snd (snd (eq_process e b)))) = length (mem b)"
proof -
  have "length (fst (eq_band c ch i band s)) = length (fst s)" for c ch i band s
    by (cases s) (simp add: eq_band_def Let_def split: prod.split)
  then have "length (fst (eq_loop co k ch n s)) = length (fst s)" for co k ch n s
    unfolding eq_loop_def by (intro length_fold_fst) simp
  from this [of "coeff e" "bands e" "channels (format b)" "unat (frame_count b)" "(mem b, eq_state e)"] show ?thesis
    by (cases "eq_loop (coeff e) (bands e) (channels (format b)) (unat (frame_count b)) (mem b, eq_state e)") (simp add: eq_process_def)
qed

lemma cross_in_place: "length (mem (snd (snd (cross_process c b)))) = length (mem b)"
proof -
  have "length (cross_expand n m) = length m" for n m by (simp add: cross_expand_def length_fold cross_frame_def Let_def)
  moreover have "length (fst (cross_step l h i s)) = length (fst s)" for l h i s
  proof -
    have "length (fst (cross_high h i stage ch s)) = length (fst s)" "length (fst (cross_low l i stage s)) = length (fst s)" for stage ch s
      by (cases s, simp add: cross_high_def cross_low_def Let_def split: prod.split)+
    then show ?thesis unfolding cross_step_def by (intro length_fold_fst) (simp add: length_fold_fst)
  qed
  then have "length (fst (fold (cross_step l h) is s)) = length (fst s)" for l h "is" s by (intro length_fold_fst) simp
  ultimately have "length (fst (fold (cross_step (lp c) (hp c)) [0..<unat (frame_count b)] (cross_expand (unat (frame_count b)) (mem b), low c, high c))) = length (mem b)"
    by simp
  then show ?thesis
    by (cases "fold (cross_step (lp c) (hp c)) [0..<unat (frame_count b)] (cross_expand (unat (frame_count b)) (mem b), low c, high c)")
       (simp add: cross_process_def Let_def)
qed

lemma dsp_nodes_in_place:
  "node_ops n = Some eaf_volume_ops \<Longrightarrow> in_place n"
  "node_ops n' = Some eaf_biquad_eq_ops \<Longrightarrow> in_place n'"
  "node_ops n'' = Some (eaf_crossover_2_1_ops rnd lm) \<Longrightarrow> in_place n''"
proof -
  show "node_ops n = Some eaf_volume_ops \<Longrightarrow> in_place n"
    using volume_in_place by (auto simp: in_place_def eaf_volume_ops_def Let_def split: prod.split) (metis snd_conv)
  show "node_ops n' = Some eaf_biquad_eq_ops \<Longrightarrow> in_place n'"
    using eq_in_place by (auto simp: in_place_def eaf_biquad_eq_ops_def Let_def split: prod.split) (metis snd_conv)
  show "node_ops n'' = Some (eaf_crossover_2_1_ops rnd lm) \<Longrightarrow> in_place n''"
    using cross_in_place by (auto simp: in_place_def eaf_crossover_2_1_ops_def Let_def split: prod.split) (metis snd_conv)
qed

section \<open>A pipeline on the null sink\<close>

definition null_memory :: "int list" where
  "null_memory = replicate 4096 0"

definition null_device :: "(unit \<times> u64 list) null_state" where
  "null_device = (Some \<lparr>null_address = [4096, 20480], null_buffers = replicate 2 \<lparr>samples = 0, mem = null_memory, frame_count = 0,
      capacity_frames = 0, capacity_samples = 0, format = zero_format, flags = 0\<rparr>, epoch_us = 0, frames_committed = 0, null_active = 0,
      null_initialized = False, null_running = False, acquired = False\<rparr>, (), [])"

definition null_sink :: "(unit \<times> u64 list) null_state eaf_sink_t" where
  "null_sink = \<lparr>sink_ops = Some (eaf_null_sink_ops (logged_clock fixed_clock)), driver_data = null_device\<rparr>"

definition volume_node :: "eaf_volume_ctx_t option eaf_node_t" where
  "volume_node = \<lparr>stage = 2, node_ops = Some eaf_volume_ops, node_ctx = Some \<lparr>gain = [1073741824, 0, 0, 0]\<rparr>\<rparr>"

definition null_zero :: "(eaf_volume_ctx_t option, (unit \<times> u64 list) null_state) eaf_pipeline_t" where
  "null_zero = \<lparr>reservoir = zero_reservoir, nodes = [], sink = null_sink, pl_state = EAF_UNINITIALIZED,
     output_format = zero_format, block_frames = 0, initialized_nodes = 0, sink_initialized = False,
     sink_ready = False, completed = False\<rparr>"

definition null_config :: "(eaf_volume_ctx_t option, (unit \<times> u64 list) null_state) eaf_pipeline_config_t" where
  "null_config = \<lparr>cfg_reservoir = Some example_reservoir, cfg_nodes = Some [Some volume_node], cfg_node_count = 1, cfg_sink = Some null_sink\<rparr>"

definition null_configured :: "(eaf_volume_ctx_t option, (unit \<times> u64 list) null_state) eaf_pipeline_t" where
  "null_configured = snd (eaf_pipeline_configure (snd (eaf_pipeline_init null_zero null_config)) 2)"

definition null_playing :: "(eaf_volume_ctx_t option, (unit \<times> u64 list) null_state) eaf_pipeline_t" where
  "null_playing = snd (eaf_pipeline_start null_configured)"

lemma null_device_ok: "null_ok null_device"
  by (simp add: null_ok_def null_device_def null_memory_def)

lemma null_playing_reachable: "(pipeline_step null_ok)\<^sup>*\<^sup>* null_zero null_playing"
proof -
  have "pipeline_step null_ok null_zero (snd (eaf_pipeline_init null_zero null_config))"
    by (rule step_init [of _ null_config "fst (eaf_pipeline_init null_zero null_config)"])
       (auto simp: null_config_def example_inv null_sink_def null_sink_honest null_device_ok volume_node_def dsp_nodes_in_place)
  moreover have "pipeline_step null_ok q (snd (eaf_pipeline_configure q 2))"
    "pipeline_step null_ok q (snd (eaf_pipeline_start q))" for q :: "(eaf_volume_ctx_t option, (unit \<times> u64 list) null_state) eaf_pipeline_t"
    by (rule step_configure [of q 2 "fst (eaf_pipeline_configure q 2)"], simp)
       (rule step_start [of q "fst (eaf_pipeline_start q)"], simp)
  ultimately show ?thesis unfolding null_playing_def null_configured_def
    by (meson converse_rtranclp_into_rtranclp r_into_rtranclp)
qed

lemma null_zero_zeroed: "zeroed null_zero"
  by (simp add: null_zero_def zeroed_def)

lemmas null_calls = null_init_def null_start_def null_acquire_def null_commit_buf_def null_commit_def eaf_null_sink_ops_def null_device_def null_sink_def
  null_buffer_def logged_clock_def fixed_clock_def

lemma example_reservoir_fields:
  "storage example_reservoir \<noteq> []" "capacity example_reservoir = 4" "res_format example_reservoir = mono"
  "eaf_format_valid mono" "channels mono = 1" "num_channels mono = 1" "sample_rate mono = 48000"
  by code_simp+

lemma null_configured_eq:
  "null_configured = \<lparr>reservoir = example_reservoir, nodes = [volume_node],
     sink = null_sink\<lparr>driver_data := snd (null_init null_device mono 2)\<rparr>, pl_state = EAF_CONFIGURED, output_format = mono, block_frames = 2,
     initialized_nodes = 1, sink_initialized = True, sink_ready = True, completed = False\<rparr>"
  by (simp add: null_configured_def null_config_def null_zero_def eaf_pipeline_init_def eaf_pipeline_configure_def sink_complete_def node_acceptable_def
      release_def call_node_init_def volume_node_def eaf_volume_ops_def volume_init_def null_calls example_reservoir_fields Let_def)

lemma null_playing_state: "pl_state null_playing = EAF_RUNNING"
  by (simp add: null_playing_def null_configured_eq eaf_pipeline_start_def call_sink_def null_calls example_reservoir_fields Let_def)

theorem pipeline_lifecycle_witness:
  "(pipeline_step null_ok)\<^sup>*\<^sup>* null_zero null_playing \<and> is_set_up (pl_state null_playing) \<and> sink_ready null_playing \<and> 0 < block_frames null_playing"
  using pipeline_lifecycle [OF null_playing_reachable null_zero_zeroed] null_playing_reachable by (simp add: null_playing_state is_set_up_def)


end
