(* ===== verification/Sendspin_Sync.thy ===== *)
theory Sendspin_Sync
  imports DSP
begin

text \<open>
  \<open>apps/sendspin/sendspin_sync.c\<close>: the Kalman filter that estimates the offset and drift between the clock of
  the server and the local one from message exchanges, and the conversion of timestamps with it. The
  code computes in \<open>double\<close>; the model takes the rounding of every operation as a parameter, and with the
  exact rounding \<open>Fin\<close> it is the computation over the reals.
\<close>

section \<open>State and operations\<close>

record eaf_sendspin_time_element_t =
  el_last_update :: u64
  el_offset :: double
  el_drift :: double
  use_drift :: bool

record eaf_sendspin_time_filter_t =
  tf_count :: u32
  tf_last_update :: u64
  tf_offset :: double
  tf_drift :: double
  offset_covariance :: double
  offset_drift_covariance :: double
  drift_covariance :: double
  process_variance :: double
  drift_process_variance :: double
  forget_variance_factor :: double
  element :: eaf_sendspin_time_element_t

definition mk_element :: "u64 \<Rightarrow> double \<Rightarrow> double \<Rightarrow> bool \<Rightarrow> eaf_sendspin_time_element_t" where
  "mk_element t offset drift use = \<lparr>el_last_update = t, el_offset = offset, el_drift = drift, use_drift = use\<rparr>"

definition eaf_sendspin_time_filter_reset :: "eaf_sendspin_time_filter_t \<Rightarrow> eaf_sendspin_time_filter_t" where
  "eaf_sendspin_time_filter_reset f =
     f\<lparr>tf_count := 0, tf_last_update := 0, tf_offset := Fin 0, tf_drift := Fin 0, offset_covariance := Inf True,
       offset_drift_covariance := Fin 0, drift_covariance := Fin 0, element := mk_element 0 (Fin 0) (Fin 0) False\<rparr>"

text \<open>\<open>tiny\<close> is the \<open>double\<close> nearest to \<open>1e-22\<close>.\<close>

definition eaf_sendspin_time_filter_init :: "double \<Rightarrow> eaf_sendspin_time_filter_t \<Rightarrow> eaf_sendspin_time_filter_t" where
  "eaf_sendspin_time_filter_init tiny f =
     eaf_sendspin_time_filter_reset (f\<lparr>process_variance := Fin 0, drift_process_variance := tiny, forget_variance_factor := Fin 4\<rparr>)"

text \<open>The first two samples set the state directly.\<close>

definition first_sample :: "rounding \<Rightarrow> eaf_sendspin_time_filter_t \<Rightarrow> int \<Rightarrow> double \<Rightarrow> u64 \<Rightarrow> eaf_sendspin_time_filter_t" where
  "first_sample rnd f measurement measurement_variance time_added =
     (let offset = rnd (real_of_int measurement)
      in f\<lparr>tf_count := 1, tf_offset := offset, offset_covariance := measurement_variance, tf_drift := Fin 0,
           element := mk_element time_added offset (Fin 0) False\<rparr>)"

definition second_sample :: "rounding \<Rightarrow> eaf_sendspin_time_filter_t \<Rightarrow> int \<Rightarrow> double \<Rightarrow> double \<Rightarrow> u64 \<Rightarrow> eaf_sendspin_time_filter_t" where
  "second_sample rnd f measurement measurement_variance dt time_added =
     (let m = rnd (real_of_int measurement);
          drift = fdiv rnd (fsub rnd m (tf_offset f)) dt
      in f\<lparr>tf_count := 2, tf_drift := drift, tf_offset := m,
           drift_covariance := fdiv rnd (fadd rnd (offset_covariance f) measurement_variance) (fmul rnd dt dt),
           offset_covariance := measurement_variance, element := mk_element time_added m drift False\<rparr>)"

definition fabs :: "double \<Rightarrow> double" where
  "fabs x = (case x of Fin v \<Rightarrow> Fin \<bar>v\<bar> | Inf s \<Rightarrow> Inf True | NaN \<Rightarrow> NaN)"

text \<open>Prediction: the covariances after \<open>dt\<close>, before the measurement (offset, offset-drift, drift).\<close>

definition predict :: "rounding \<Rightarrow> eaf_sendspin_time_filter_t \<Rightarrow> double \<Rightarrow> double \<times> double \<times> double" where
  "predict rnd f dt =
     (let dt_squared = fmul rnd dt dt;
          new_drift = fadd rnd (drift_covariance f) (fmul rnd dt (drift_process_variance f));
          new_offset_drift = fadd rnd (offset_drift_covariance f) (fmul rnd (drift_covariance f) dt);
          new_offset = fadd rnd (fadd rnd (fadd rnd (offset_covariance f) (fmul rnd (fmul rnd (Fin 2) (offset_drift_covariance f)) dt))
            (fmul rnd (drift_covariance f) dt_squared)) (fmul rnd dt (process_variance f))
      in (new_offset, new_offset_drift, new_drift))"

text \<open>Adaptive forgetting: once 100 samples are in, a residual beyond the cutoff inflates the covariances.\<close>

definition forget :: "rounding \<Rightarrow> eaf_sendspin_time_filter_t \<Rightarrow> double \<Rightarrow> double \<Rightarrow> double \<times> double \<times> double \<Rightarrow> double \<times> double \<times> double" where
  "forget rnd f residual cutoff p =
     (case p of (o', od, dr) \<Rightarrow>
      if tf_count f < 100 then p
      else if flt cutoff (fabs residual)
      then (fmul rnd o' (forget_variance_factor f), fmul rnd od (forget_variance_factor f), fmul rnd dr (forget_variance_factor f))
      else p)"

definition later_sample ::
  "rounding \<Rightarrow> eaf_sendspin_time_filter_t \<Rightarrow> int \<Rightarrow> int \<Rightarrow> double \<Rightarrow> double \<Rightarrow> u64 \<Rightarrow> eaf_sendspin_time_filter_t" where
  "later_sample rnd f measurement max_error measurement_variance dt time_added =
     (let offset = fadd rnd (tf_offset f) (fmul rnd (tf_drift f) dt);
          residual = fsub rnd (rnd (real_of_int measurement)) offset;
          cutoff = fmul rnd (rnd (real_of_int max_error)) (Fin 3);
          (new_offset_covariance, new_offset_drift_covariance, new_drift_covariance) = forget rnd f residual cutoff (predict rnd f dt);
          uncertainty = fdiv rnd (Fin 1) (fadd rnd new_offset_covariance measurement_variance);
          offset_gain = fmul rnd new_offset_covariance uncertainty;
          drift_gain = fmul rnd new_offset_drift_covariance uncertainty;
          new_offset = fadd rnd offset (fmul rnd offset_gain residual);
          new_drift = fadd rnd (tf_drift f) (fmul rnd drift_gain residual);
          drift_cov = fsub rnd new_drift_covariance (fmul rnd drift_gain new_offset_drift_covariance);
          use = flt (fmul rnd (Fin 4) drift_cov) (fmul rnd new_drift new_drift)
      in f\<lparr>tf_count := (if tf_count f < 100 then tf_count f + 1 else tf_count f), tf_offset := new_offset, tf_drift := new_drift,
           drift_covariance := drift_cov,
           offset_drift_covariance := fsub rnd new_offset_drift_covariance (fmul rnd drift_gain new_offset_covariance),
           offset_covariance := fsub rnd new_offset_covariance (fmul rnd offset_gain new_offset_covariance),
           element := mk_element time_added new_offset new_drift use\<rparr>)"

definition eaf_sendspin_time_filter_update ::
  "rounding \<Rightarrow> eaf_sendspin_time_filter_t \<Rightarrow> int \<Rightarrow> int \<Rightarrow> u64 \<Rightarrow> eaf_sendspin_time_filter_t" where
  "eaf_sendspin_time_filter_update rnd f measurement max_error time_added =
     (if time_added \<le> tf_last_update f then f
      else let dt = rnd (real (unat (time_added - tf_last_update f)));
               f = f\<lparr>tf_last_update := time_added\<rparr>;
               std = fmul rnd (rnd (real_of_int max_error)) (Fin 0.5);
               variance = fmul rnd std std
           in if tf_count f = 0 then first_sample rnd f measurement variance time_added
              else if tf_count f = 1 then second_sample rnd f measurement variance dt time_added
              else later_sample rnd f measurement max_error variance dt time_added)"

text \<open>
  The measurement of an exchange and its uncertainty, in integer microseconds. The differences are taken over the integers:
  where they leave 64 bits the C code is undefined.
\<close>

definition exchange_measurement :: "int \<Rightarrow> int \<Rightarrow> int \<Rightarrow> int \<Rightarrow> int" where
  "exchange_measurement client_transmitted server_received server_transmitted received =
     ((server_received - client_transmitted) + (server_transmitted - received)) sdiv 2"

definition exchange_error :: "int \<Rightarrow> int \<Rightarrow> int \<Rightarrow> int \<Rightarrow> int" where
  "exchange_error client_transmitted server_received server_transmitted received =
     ((received - client_transmitted) - (server_transmitted - server_received)) sdiv 2"

definition eaf_sendspin_time_filter_exchange ::
  "rounding \<Rightarrow> eaf_sendspin_time_filter_t \<Rightarrow> int \<Rightarrow> int \<Rightarrow> int \<Rightarrow> u64 \<Rightarrow> eaf_sendspin_time_filter_t" where
  "eaf_sendspin_time_filter_exchange rnd f client_transmitted server_received server_transmitted client_received =
     (let received = i64 (uint client_received)
      in eaf_sendspin_time_filter_update rnd f (exchange_measurement client_transmitted server_received server_transmitted received)
           (exchange_error client_transmitted server_received server_transmitted received) client_received)"

text \<open>\<open>(int64_t)round(x)\<close>; \<open>None\<close> when the conversion is undefined in C.\<close>

definition fround :: "double \<Rightarrow> double" where
  "fround x = (case x of Fin v \<Rightarrow> Fin (real_of_int (c_round v)) | _ \<Rightarrow> x)"

definition to_i64 :: "double \<Rightarrow> int option" where
  "to_i64 x = (case x of Fin v \<Rightarrow> if is_i64 \<lfloor>v\<rfloor> then Some \<lfloor>v\<rfloor> else None | _ \<Rightarrow> None)"

definition effective_drift :: "eaf_sendspin_time_filter_t \<Rightarrow> double" where
  "effective_drift f = (if use_drift (element f) then el_drift (element f) else Fin 0)"

definition eaf_sendspin_compute_server_time :: "rounding \<Rightarrow> eaf_sendspin_time_filter_t option \<Rightarrow> int \<Rightarrow> int option" where
  "eaf_sendspin_compute_server_time rnd f client_time =
     (case f of None \<Rightarrow> Some client_time
      | Some f \<Rightarrow>
        let dt = rnd (real_of_int (client_time - i64 (uint (el_last_update (element f)))));
            offset = fround (fadd rnd (el_offset (element f)) (fmul rnd (effective_drift f) dt))
        in map_option (\<lambda>k. client_time + k) (to_i64 offset))"

definition eaf_sendspin_compute_client_time :: "rounding \<Rightarrow> eaf_sendspin_time_filter_t option \<Rightarrow> int \<Rightarrow> int option" where
  "eaf_sendspin_compute_client_time rnd f server_time =
     (case f of None \<Rightarrow> Some server_time
      | Some f \<Rightarrow>
        let numerator = fadd rnd (fsub rnd (rnd (real_of_int server_time)) (el_offset (element f)))
              (fmul rnd (effective_drift f) (rnd (real_of_int (i64 (uint (el_last_update (element f)))))));
            client_time = fround (fdiv rnd numerator (fadd rnd (Fin 1) (effective_drift f)))
        in if fle (rnd (2 ^ 63 - 1)) client_time then Some (2 ^ 63 - 1)
           else if flt client_time (rnd (- (2 ^ 63))) then Some (- (2 ^ 63))
           else to_i64 client_time)"

definition eaf_sendspin_time_synchronized :: "eaf_sendspin_time_filter_t option \<Rightarrow> bool" where
  "eaf_sendspin_time_synchronized f =
     (case f of None \<Rightarrow> False | Some f \<Rightarrow> tf_count f \<ge> 2 \<and> (\<forall>s. offset_covariance f \<noteq> Inf s))"

definition eaf_sendspin_time_error :: "rounding \<Rightarrow> eaf_sendspin_time_filter_t option \<Rightarrow> int option" where
  "eaf_sendspin_time_error rnd f =
     (case f of None \<Rightarrow> Some (2 ^ 63 - 1)
      | Some f \<Rightarrow>
        case offset_covariance f of
          Fin v \<Rightarrow> if v < 0 then Some (2 ^ 63 - 1) else to_i64 (fround (rnd (sqrt v)))
        | _ \<Rightarrow> Some (2 ^ 63 - 1))"

section \<open>The Kalman filter over the reals\<close>

text \<open>Two-by-two matrices, row by row, and the textbook filter for a state (offset, drift) of which the offset is measured.\<close>

type_synonym mat2 = "real \<times> real \<times> real \<times> real"

fun mat_mul :: "mat2 \<Rightarrow> mat2 \<Rightarrow> mat2" where
  "mat_mul (a, b, c, d) (e, f, g, h) = (a * e + b * g, a * f + b * h, c * e + d * g, c * f + d * h)"

fun mat_add :: "mat2 \<Rightarrow> mat2 \<Rightarrow> mat2" where
  "mat_add (a, b, c, d) (e, f, g, h) = (a + e, b + f, c + g, d + h)"

fun mat_transpose :: "mat2 \<Rightarrow> mat2" where
  "mat_transpose (a, b, c, d) = (a, c, b, d)"

fun mat_scale :: "real \<Rightarrow> mat2 \<Rightarrow> mat2" where
  "mat_scale k (a, b, c, d) = (k * a, k * b, k * c, k * d)"

definition kalman_predict :: "real \<Rightarrow> real \<Rightarrow> real \<Rightarrow> mat2 \<Rightarrow> mat2" where
  "kalman_predict dt q1 q2 P = mat_add (mat_mul (mat_mul (1, dt, 0, 1) P) (mat_transpose (1, dt, 0, 1))) (q1, 0, 0, q2)"

text \<open>The gain \<open>K = P H\<^sup>T / (H P H\<^sup>T + R)\<close> for \<open>H = (1, 0)\<close>, and the covariance \<open>(I - K H) P\<close>.\<close>

fun kalman_gain :: "real \<Rightarrow> mat2 \<Rightarrow> real \<times> real" where
  "kalman_gain R (a, b, c, d) = (a / (a + R), c / (a + R))"

definition kalman_correct :: "real \<Rightarrow> mat2 \<Rightarrow> mat2" where
  "kalman_correct R P = (case kalman_gain R P of (k1, k2) \<Rightarrow> mat_mul (1 - k1, 0, - k2, 1) P)"

fun psd :: "mat2 \<Rightarrow> bool" where
  "psd (a, b, c, d) \<longleftrightarrow> b = c \<and> 0 \<le> a \<and> 0 \<le> d \<and> b * b \<le> a * d"

lemma quadratic_nonneg:
  assumes "0 \<le> (a::real)" "0 \<le> d" "b * b \<le> a * d"
  shows "0 \<le> a + 2 * b * t + d * (t * t)"
proof (cases "d = 0")
  case True
  then have "b = 0" using assms(3) by (metis mult_eq_0_iff mult_zero_right order_antisym zero_le_square)
  then show ?thesis using assms(1) True by simp
next
  case False
  have "0 \<le> (d * t + b) * (d * t + b) + (a * d - b * b)" using assms(3) zero_le_square [of "d * t + b"] by linarith
  also have "\<dots> = d * (a + 2 * b * t + d * (t * t))" by (simp add: algebra_simps)
  finally show ?thesis using False assms(2) by (simp add: zero_le_mult_iff)
qed

lemma predict_psd:
  assumes "psd P" and "0 \<le> q1" "0 \<le> q2"
  shows "psd (kalman_predict t q1 q2 P)"
proof -
  obtain a b d where P: "P = (a, b, b, d)" "0 \<le> a" "0 \<le> d" "b * b \<le> a * d" using assms(1) by (cases P) auto
  let ?A = "a + 2 * b * t + d * (t * t)"
  have A: "0 \<le> ?A" by (rule quadratic_nonneg [OF P(2-4)])
  have "?A * d - (b + t * d) * (b + t * d) = a * d - b * b" by (simp add: algebra_simps)
  then have "(b + t * d) * (b + t * d) \<le> ?A * d" using P(4) by linarith
  also have "\<dots> \<le> (?A + q1) * (d + q2)" using A P(3) assms(2,3) by (intro mult_mono) simp_all
  finally have det: "(b + t * d) * (b + t * d) \<le> (?A + q1) * (d + q2)" .
  have e: "kalman_predict t q1 q2 P = (?A + q1, b + t * d, b + t * d, d + q2)"
    by (simp add: kalman_predict_def P(1) algebra_simps)
  show ?thesis unfolding e using det A P(3) assms(2,3) by simp
qed

lemma scale_psd:
  assumes "psd P" and "0 \<le> k"
  shows "psd (mat_scale k P)"
proof -
  obtain a b d where P: "P = (a, b, b, d)" "0 \<le> a" "0 \<le> d" "b * b \<le> a * d" using assms(1) by (cases P) auto
  have "(k * k) * (b * b) \<le> (k * k) * (a * d)" using P(4) by (intro mult_left_mono) simp_all
  then show ?thesis using P(2,3) assms(2) unfolding P(1) by (simp add: algebra_simps)
qed

text \<open>The corrected covariance is again positive semidefinite, and the offset variance is below both that of the prediction and that of the measurement.\<close>

lemma correct_psd:
  assumes "psd P" and "0 < R"
  shows "psd (kalman_correct R P)" and "fst (kalman_correct R P) \<le> fst P" and "fst (kalman_correct R P) \<le> R"
proof -
  obtain a b d where P: "P = (a, b, b, d)" "0 \<le> a" "0 \<le> d" "b * b \<le> a * d" using assms(1) by (cases P) auto
  let ?S = "a + R"
  have S: "0 < ?S" using P(2) assms(2) by simp
  have e: "kalman_correct R P = (a * R / ?S, b * R / ?S, b * R / ?S, (d * ?S - b * b) / ?S)"
    using S by (simp add: kalman_correct_def P(1) field_simps)
  have "0 \<le> R * d" using P(3) assms(2) by simp
  then have bb: "b * b \<le> d * ?S" using P(4) by (simp add: algebra_simps)
  have "(b * R) * (b * R) \<le> a * R * (d * ?S - b * b)"
  proof -
    have "a * R * (d * ?S - b * b) - (b * R) * (b * R) = R * ?S * (a * d - b * b)" by (simp add: algebra_simps)
    moreover have "0 \<le> R * ?S * (a * d - b * b)" using P(4) S assms(2) by simp
    ultimately show ?thesis by linarith
  qed
  then have "b * R / ?S * (b * R / ?S) \<le> a * R / ?S * ((d * ?S - b * b) / ?S)"
    using S by (simp add: divide_right_mono)
  then show "psd (kalman_correct R P)" unfolding e using P(2) S assms(2) bb by simp
  have "a * R / ?S \<le> a" "a * R / ?S \<le> R" using P(2) S assms(2) by (simp_all add: field_simps)
  then show "fst (kalman_correct R P) \<le> fst P" "fst (kalman_correct R P) \<le> R" using e P(1) by simp_all
qed

section \<open>The filter in exact arithmetic\<close>

lemma fsub_Fin [simp]: "fsub rnd (Fin x) (Fin y) = rnd (x - y)"
  by (simp add: fsub_def)

text \<open>The number a finite \<open>double\<close> stands for.\<close>

definition val :: "double \<Rightarrow> real" where
  "val x = (case x of Fin v \<Rightarrow> v | _ \<Rightarrow> 0)"

lemma val_Fin [simp]: "val (Fin v) = v"
  by (simp add: val_def)

definition covariance :: "eaf_sendspin_time_filter_t \<Rightarrow> mat2" where
  "covariance f = (val (offset_covariance f), val (offset_drift_covariance f), val (offset_drift_covariance f), val (drift_covariance f))"

definition all_finite :: "eaf_sendspin_time_filter_t \<Rightarrow> bool" where
  "all_finite f \<longleftrightarrow> isfinite (tf_offset f) \<and> isfinite (tf_drift f) \<and> isfinite (offset_covariance f) \<and>
     isfinite (offset_drift_covariance f) \<and> isfinite (drift_covariance f)"

definition noise_ok :: "eaf_sendspin_time_filter_t \<Rightarrow> bool" where
  "noise_ok f \<longleftrightarrow> (\<exists>q1 q2 k. process_variance f = Fin q1 \<and> drift_process_variance f = Fin q2 \<and> forget_variance_factor f = Fin k \<and>
     0 \<le> q1 \<and> 0 \<le> q2 \<and> 0 \<le> k)"

definition filter_ok :: "eaf_sendspin_time_filter_t \<Rightarrow> bool" where
  "filter_ok f \<longleftrightarrow> noise_ok f \<and> tf_count f \<le> 100 \<and> offset_drift_covariance f = (if tf_count f < 2 then Fin 0 else offset_drift_covariance f) \<and>
     (tf_count f = 1 \<longrightarrow> isfinite (tf_offset f) \<and> isfinite (offset_covariance f) \<and> 0 \<le> val (offset_covariance f)) \<and>
     (2 \<le> tf_count f \<longrightarrow> all_finite f \<and> psd (covariance f))"

lemma isfinite_val: "isfinite x \<longleftrightarrow> x = Fin (val x)"
  by (cases x) (simp_all add: isfinite_def)

text \<open>The factor by which the prediction is inflated.\<close>

definition forget_factor :: "eaf_sendspin_time_filter_t \<Rightarrow> real \<Rightarrow> int \<Rightarrow> real" where
  "forget_factor f residual max_error =
     (if tf_count f < 100 then 1 else if real_of_int max_error * 3 < \<bar>residual\<bar> then val (forget_variance_factor f) else 1)"

lemma correct_eq:
  "kalman_correct R (p, q, q, r) =
     (p - p * (1 / (p + R)) * p, q - q * (1 / (p + R)) * p, q - q * (1 / (p + R)) * p, r - q * (1 / (p + R)) * q)"
  by (simp add: kalman_correct_def algebra_simps)

lemma later_sample_exact:
  fixes f :: eaf_sendspin_time_filter_t and measurement max_error :: int and R d :: real and t :: u64
  assumes "noise_ok f" and "all_finite f" and "psd (covariance f)" and "0 < R"
  defines "f' \<equiv> later_sample Fin f measurement max_error (Fin R) (Fin d) t"
    and "predicted \<equiv> val (tf_offset f) + val (tf_drift f) * d"
  defines "P \<equiv> mat_scale (forget_factor f (real_of_int measurement - predicted) max_error)
      (kalman_predict d (d * val (process_variance f)) (d * val (drift_process_variance f)) (covariance f))"
  assumes "0 \<le> d"
  shows "all_finite f'" and "covariance f' = kalman_correct R P" and "psd P"
    and "val (tf_offset f') = predicted + fst (kalman_gain R P) * (real_of_int measurement - predicted)"
    and "val (tf_drift f') = val (tf_drift f) + snd (kalman_gain R P) * (real_of_int measurement - predicted)"
proof -
  obtain q1 q2 k where q: "process_variance f = Fin q1" "drift_process_variance f = Fin q2" "forget_variance_factor f = Fin k"
    "0 \<le> q1" "0 \<le> q2" "0 \<le> k" using assms(1) by (auto simp: noise_ok_def)
  obtain x v a b c where f: "tf_offset f = Fin x" "tf_drift f = Fin v" "offset_covariance f = Fin a" "offset_drift_covariance f = Fin b"
    "drift_covariance f = Fin c" using assms(2) by (auto simp: all_finite_def isfinite_val)
  let ?r = "real_of_int measurement - (x + v * d)"
  let ?k = "forget_factor f ?r max_error"
  let ?o = "?k * (a + 2 * b * d + c * (d * d) + d * q1)" and ?od = "?k * (b + c * d)" and ?dr = "?k * (c + d * q2)"
  have kpos: "0 \<le> ?k" using q(3,6) by (simp add: forget_factor_def)
  have p: "predict Fin f (Fin d) = (Fin (a + 2 * b * d + c * (d * d) + d * q1), Fin (b + c * d), Fin (c + d * q2))"
    by (simp add: predict_def f q Let_def)
  have fg: "forget Fin f (Fin ?r) (Fin (real_of_int max_error * 3)) (predict Fin f (Fin d)) = (Fin ?o, Fin ?od, Fin ?dr)"
    unfolding p by (simp add: forget_def forget_factor_def fabs_def q mult.commute)
  have P: "P = (?o, ?od, ?od, ?dr)"
    unfolding P_def predicted_def kalman_predict_def covariance_def by (simp add: f q algebra_simps)
  show psdP: "psd P"
    unfolding P_def predicted_def f val_Fin
    by (rule scale_psd [OF predict_psd [OF assms(3)] kpos]) (use q assms(8) in simp_all)
  have "0 \<le> ?o" using psdP unfolding P by simp
  then have S: "?o + R \<noteq> 0" using assms(4) by linarith
  have e: "f' = f\<lparr>tf_count := (if tf_count f < 100 then tf_count f + 1 else tf_count f),
      tf_offset := Fin (x + v * d + ?o * (1 / (?o + R)) * ?r), tf_drift := Fin (v + ?od * (1 / (?o + R)) * ?r),
      drift_covariance := Fin (?dr - ?od * (1 / (?o + R)) * ?od), offset_drift_covariance := Fin (?od - ?od * (1 / (?o + R)) * ?o),
      offset_covariance := Fin (?o - ?o * (1 / (?o + R)) * ?o), element := element f'\<rparr>"
    using S unfolding f'_def later_sample_def f fadd.simps fmul.simps fsub_Fin Let_def fg prod.case by simp
  show "all_finite f'" by (subst e) (simp add: all_finite_def isfinite_def)
  show "covariance f' = kalman_correct R P"
    unfolding P correct_eq by (subst e) (simp add: covariance_def)
  show "val (tf_offset f') = predicted + fst (kalman_gain R P) * (real_of_int measurement - predicted)"
    by (subst e) (simp add: P predicted_def f)
  show "val (tf_drift f') = val (tf_drift f) + snd (kalman_gain R P) * (real_of_int measurement - predicted)"
    by (subst e) (simp add: P predicted_def f)
qed

lemma update_cases:
  fixes f :: eaf_sendspin_time_filter_t
  defines "dt t \<equiv> real (unat (t - tf_last_update f))" and "R max_error \<equiv> (real_of_int max_error * 0.5) * (real_of_int max_error * 0.5)"
  obtains (stale) "t \<le> tf_last_update f" "eaf_sendspin_time_filter_update Fin f measurement max_error t = f"
    | (first) "tf_count f = 0" "tf_last_update f < t" "eaf_sendspin_time_filter_update Fin f measurement max_error t =
        first_sample Fin (f\<lparr>tf_last_update := t\<rparr>) measurement (Fin (R max_error)) t"
    | (second) "tf_count f = 1" "tf_last_update f < t" "0 < dt t" "eaf_sendspin_time_filter_update Fin f measurement max_error t =
        second_sample Fin (f\<lparr>tf_last_update := t\<rparr>) measurement (Fin (R max_error)) (Fin (dt t)) t"
    | (later) "2 \<le> tf_count f" "tf_last_update f < t" "0 < dt t" "eaf_sendspin_time_filter_update Fin f measurement max_error t =
        later_sample Fin (f\<lparr>tf_last_update := t\<rparr>) measurement max_error (Fin (R max_error)) (Fin (dt t)) t"
proof (cases "t \<le> tf_last_update f")
  case True
  then show ?thesis by (intro stale) (simp_all add: eaf_sendspin_time_filter_update_def)
next
  case False
  then have lt: "tf_last_update f < t" by simp
  then have "t - tf_last_update f \<noteq> 0" by auto
  then have "0 < unat (t - tf_last_update f)" by (simp add: unat_gt_0)
  then have dt: "0 < dt t" unfolding dt_def by (simp only: of_nat_0_less_iff)
  have two: "tf_count f \<noteq> 0 \<Longrightarrow> tf_count f \<noteq> 1 \<Longrightarrow> 2 \<le> tf_count f"
  proof -
    assume "tf_count f \<noteq> 0" "tf_count f \<noteq> 1"
    then have "unat (tf_count f) \<noteq> 0" "unat (tf_count f) \<noteq> 1" by (simp_all add: word_unat_eq_iff)
    then show "2 \<le> tf_count f" by (simp add: word_le_nat_alt)
  qed
  show ?thesis
    using False lt dt two first second later
    by (cases "tf_count f = 0"; cases "tf_count f = 1") (simp_all add: eaf_sendspin_time_filter_update_def Let_def dt_def R_def)
qed


fun updates :: "rounding \<Rightarrow> (int \<times> int \<times> u64) list \<Rightarrow> eaf_sendspin_time_filter_t \<Rightarrow> eaf_sendspin_time_filter_t" where
  "updates rnd [] f = f"
| "updates rnd ((measurement, max_error, t) # us) f = updates rnd us (eaf_sendspin_time_filter_update rnd f measurement max_error t)"



section \<open>Exchanges\<close>

lemma sdiv2_bound: "\<bar>2 * (x sdiv 2) - x\<bar> \<le> (1::int)"
proof -
  have "\<bar>x\<bar> - 2 * (\<bar>x\<bar> div 2) = \<bar>x\<bar> mod 2" by (simp add: minus_mult_div_eq_mod)
  then have "0 \<le> \<bar>x\<bar> - 2 * (\<bar>x\<bar> div 2)" "\<bar>x\<bar> - 2 * (\<bar>x\<bar> div 2) \<le> 1" by simp_all
  moreover have "x sdiv 2 = sgn x * (\<bar>x\<bar> div 2)" by (simp add: signed_divide_int_def)
  ultimately show ?thesis by (cases x "0::int" rule: linorder_cases) simp_all
qed

text \<open>With clocks \<open>\<theta>\<close> apart, a message that takes \<open>d1\<close> to the server and one that takes \<open>d2\<close> back.\<close>

lemma exchange_bound:
  assumes "0 \<le> d1" "0 \<le> d2"
    and "server_received = client_transmitted + \<theta> + d1" and "received = server_transmitted - \<theta> + d2"
  shows "\<bar>exchange_measurement client_transmitted server_received server_transmitted received - \<theta>\<bar>
      \<le> exchange_error client_transmitted server_received server_transmitted received + 1"
    and "0 \<le> exchange_error client_transmitted server_received server_transmitted received"
proof -
  let ?x = "2 * \<theta> + (d1 - d2)" and ?y = "d1 + d2"
  have "(server_received - client_transmitted) + (server_transmitted - received) = ?x" using assms(3,4) by simp
  then have m: "exchange_measurement client_transmitted server_received server_transmitted received = ?x sdiv 2"
    by (simp only: exchange_measurement_def)
  have "(received - client_transmitted) - (server_transmitted - server_received) = ?y" using assms(3,4) by simp
  then have e: "exchange_error client_transmitted server_received server_transmitted received = ?y sdiv 2"
    by (simp only: exchange_error_def)
  show "0 \<le> exchange_error client_transmitted server_received server_transmitted received"
    unfolding e using assms(1,2) by (intro sdiv_sign(1)) simp_all
  show "\<bar>exchange_measurement client_transmitted server_received server_transmitted received - \<theta>\<bar>
      \<le> exchange_error client_transmitted server_received server_transmitted received + 1"
    unfolding m e using sdiv2_bound [of ?x] sdiv2_bound [of ?y] assms(1,2) by linarith
qed

section \<open>Conversion of timestamps\<close>

lemma c_round_error: "\<bar>real_of_int (c_round x) - x\<bar> \<le> 1 / 2"
proof -
  have fl: "real_of_int \<lfloor>y\<rfloor> \<le> y \<and> y < real_of_int \<lfloor>y\<rfloor> + 1" for y :: real using floor_correct [of y] by simp
  show ?thesis
  proof (cases "0 \<le> x")
    case True
    then have "c_round x = \<lfloor>x + 1 / 2\<rfloor>" by (simp add: c_round_def)
    then show ?thesis using fl [of "x + 1 / 2"] by linarith
  next
    case False
    then have "c_round x = - \<lfloor>- x + 1 / 2\<rfloor>" by (simp add: c_round_def)
    then have "real_of_int (c_round x) = - real_of_int \<lfloor>- x + 1 / 2\<rfloor>" by simp
    then show ?thesis using fl [of "- x + 1 / 2"] by linarith
  qed
qed

lemma round_trip_near:
  fixes x v L :: real and t :: int
  assumes "- (1 / 2) < (v::real)"
  defines "k \<equiv> c_round (x + v * (real_of_int t - L))"
  defines "y \<equiv> (real_of_int (t + k) - x + v * L) / (1 + v)"
  shows "\<bar>c_round y - t\<bar> \<le> 1"
proof -
  let ?\<delta> = "real_of_int k - (x + v * (real_of_int t - L))"
  have pos: "0 < 1 + v" using assms(1) by simp
  have "real_of_int (t + k) - x + v * L = real_of_int t * (1 + v) + ?\<delta>" by (simp add: algebra_simps)
  then have y: "y = real_of_int t + ?\<delta> / (1 + v)" using pos unfolding y_def by (simp only: add_divide_distrib) simp
  have d: "\<bar>?\<delta>\<bar> \<le> 1 / 2" unfolding k_def by (rule c_round_error)
  have "\<bar>?\<delta> / (1 + v)\<bar> = \<bar>?\<delta>\<bar> / (1 + v)" using pos by simp
  also have "\<dots> < 1" using d assms(1) pos by (simp add: divide_less_eq)
  finally have "\<bar>y - real_of_int t\<bar> < 1" unfolding y by simp
  then have "\<bar>real_of_int (c_round y - t)\<bar> < 2" using c_round_error [of y] unfolding of_int_diff by linarith
  then show ?thesis by linarith
qed

section \<open>Properties\<close>


definition blank_filter :: eaf_sendspin_time_filter_t where
  "blank_filter = \<lparr>tf_count = 7, tf_last_update = 9, tf_offset = NaN, tf_drift = NaN, offset_covariance = NaN, offset_drift_covariance = NaN,
     drift_covariance = NaN, process_variance = NaN, drift_process_variance = NaN, forget_variance_factor = NaN,
     element = mk_element 0 NaN NaN True\<rparr>"


text \<open>
  C19: In exact arithmetic, for a sound filter that has two samples, a sample with a newer timestamp and an error bound that is not zero
  updates it as the textbook Kalman filter for a clock with drift does: the
  covariance is predicted as \<open>F P F\<^sup>T + Q\<close>, inflated by the forgetting factor when the residual is out of bounds, and
  corrected to \<open>(I - K H) P\<close>; offset and drift move by the gain times the residual. The variance of the
  offset never exceeds that of the measurement.
\<close>

theorem time_filter_kalman:
  fixes measurement :: int
  assumes "filter_ok f" and "2 \<le> tf_count f" and "tf_last_update f < t" and "max_error \<noteq> 0"
  defines "d \<equiv> real (unat (t - tf_last_update f))" and "R \<equiv> (real_of_int max_error * 0.5) * (real_of_int max_error * 0.5)"
  defines "predicted \<equiv> val (tf_offset f) + val (tf_drift f) * d"
  defines "P \<equiv> mat_scale (forget_factor f (real_of_int measurement - predicted) max_error)
      (kalman_predict d (d * val (process_variance f)) (d * val (drift_process_variance f)) (covariance f))"
  defines "f' \<equiv> eaf_sendspin_time_filter_update Fin f measurement max_error t"
  shows "covariance f' = kalman_correct R P \<and> val (offset_covariance f') \<le> R \<and>
    val (tf_offset f') = predicted + fst (kalman_gain R P) * (real_of_int measurement - predicted) \<and>
    val (tf_drift f') = val (tf_drift f) + snd (kalman_gain R P) * (real_of_int measurement - predicted)"
proof -
  let ?g = "f\<lparr>tf_last_update := t\<rparr>"
  have g: "noise_ok ?g" "all_finite ?g" "psd (covariance ?g)"
    using assms(1,2) by (simp_all add: filter_ok_def noise_ok_def all_finite_def covariance_def)
  have R: "0 < R" using assms(4) unfolding R_def by (simp add: zero_less_mult_iff) linarith
  have d: "0 \<le> d" unfolding d_def by (rule of_nat_0_le_iff)
  have f': "f' = later_sample Fin ?g measurement max_error (Fin R) (Fin d) t"
  proof (cases rule: update_cases [of t f measurement max_error])
    case first
    then show ?thesis using assms(2) by simp
  next
    case second
    then show ?thesis using assms(2) by (simp add: word_le_nat_alt)
  qed (use assms(3) in \<open>simp_all add: f'_def d_def R_def\<close>)
  have c: "covariance ?g = covariance f" "forget_factor ?g r e = forget_factor f r e" for r e
    by (simp_all add: covariance_def forget_factor_def)
  have P: "P = mat_scale (forget_factor ?g (real_of_int measurement - (val (tf_offset ?g) + val (tf_drift ?g) * d)) max_error)
      (kalman_predict d (d * val (process_variance ?g)) (d * val (drift_process_variance ?g)) (covariance ?g))"
    by (simp add: P_def predicted_def c)
  note L = later_sample_exact [OF g R d]
  have cov: "covariance f' = kalman_correct R P" and psd: "psd P" using L(2,3) unfolding f' P by blast+
  have "val (offset_covariance f') = fst (covariance f')" by (simp add: covariance_def)
  then have "val (offset_covariance f') \<le> R" using correct_psd(3) [OF psd R] cov by simp
  moreover have "val (tf_offset f') = predicted + fst (kalman_gain R P) * (real_of_int measurement - predicted)"
    using L(4) unfolding f' P by (simp add: predicted_def)
  moreover have "val (tf_drift f') = val (tf_drift f) + snd (kalman_gain R P) * (real_of_int measurement - predicted)"
    using L(5) unfolding f' P by (simp add: predicted_def)
  ultimately show ?thesis using cov by blast
qed

definition settled_filter :: eaf_sendspin_time_filter_t where
  "settled_filter = \<lparr>tf_count = 5, tf_last_update = 1000, tf_offset = Fin 500, tf_drift = Fin 0, offset_covariance = Fin 100,
     offset_drift_covariance = Fin 0, drift_covariance = Fin 0, process_variance = Fin 0, drift_process_variance = Fin 0,
     forget_variance_factor = Fin 4, element = mk_element 1000 (Fin 500) (Fin 0) False\<rparr>"

theorem time_filter_kalman_witness:
  "val (tf_offset (eaf_sendspin_time_filter_update Fin settled_filter 520 20 2000)) = 510 \<and>
   val (offset_covariance (eaf_sendspin_time_filter_update Fin settled_filter 520 20 2000)) \<le> 100"
proof -
  have ok: "filter_ok settled_filter" "2 \<le> tf_count settled_filter" "tf_last_update settled_filter < 2000"
    by (simp_all add: filter_ok_def noise_ok_def all_finite_def isfinite_def covariance_def settled_filter_def)
  have c: "tf_count settled_filter < 100" by (simp add: settled_filter_def)
  show ?thesis using time_filter_kalman [OF ok, of 20 520] c
    by (simp add: settled_filter_def forget_factor_def kalman_predict_def covariance_def)
qed

text \<open>
  What an exchange feeds to the filter is a bound as the comments say: when the clocks are \<open>\<theta>\<close> apart and the
  messages take \<open>d1\<close> and \<open>d2\<close>, whatever their asymmetry, the measured offset differs from \<open>\<theta>\<close> by at most the
  reported error, up to the microsecond lost in the two integer divisions.
\<close>

theorem exchange_measures_offset:
  assumes "0 \<le> d1" "0 \<le> d2" and "is_i64 received" and "received = server_transmitted - \<theta> + d2"
  shows "\<exists>measurement max_error. eaf_sendspin_time_filter_exchange rnd f client_transmitted (client_transmitted + \<theta> + d1) server_transmitted (word_of_int received) =
      eaf_sendspin_time_filter_update rnd f measurement max_error (word_of_int received) \<and>
    \<bar>measurement - \<theta>\<bar> \<le> max_error + 1 \<and> 0 \<le> max_error \<and> 2 * max_error \<le> d1 + d2"
proof -
  have r: "i64 (uint (word_of_int received :: u64)) = received"
  proof -
    have "i64 (received mod 2 ^ 64) = i64 received" unfolding i64_def by (simp add: mod_add_left_eq)
    then show ?thesis using assms(3) by (simp add: uint_word_of_int take_bit_eq_mod)
  qed
  note B = exchange_bound [OF assms(1,2) refl assms(4), of client_transmitted]
  let ?e = "exchange_error client_transmitted (client_transmitted + \<theta> + d1) server_transmitted received"
  have "?e = (d1 + d2) sdiv 2" using assms(4) by (simp add: exchange_error_def add.commute)
  then have "2 * ?e \<le> d1 + d2" using assms(1,2) by (simp add: signed_divide_int_def sgn_if) linarith
  then show ?thesis using B r by (auto simp: eaf_sendspin_time_filter_exchange_def Let_def)
qed

theorem exchange_measures_offset_witness:
  "\<exists>measurement max_error. eaf_sendspin_time_filter_exchange Fin settled_filter 1000 (1000 + 700 + 30) 1800 (word_of_int 1150) =
      eaf_sendspin_time_filter_update Fin settled_filter measurement max_error (word_of_int 1150) \<and>
    \<bar>measurement - 700\<bar> \<le> max_error + 1 \<and> 0 \<le> max_error \<and> 2 * max_error \<le> 30 + 50"
  by (rule exchange_measures_offset) (simp_all add: is_i64_def)

text \<open>
  In exact arithmetic, converting a client time to server time and back returns it to within one microsecond, for any finite
  offset and any drift above minus one half, as long as the times stay clear of the 64-bit limits.
\<close>

theorem time_round_trip:
  assumes "el_offset (element f) = Fin x" and "effective_drift f = Fin v" and "- (1 / 2) < v" and "\<bar>t\<bar> \<le> 2 ^ 61"
    and "\<bar>x + v * (real_of_int t - real_of_int (i64 (uint (el_last_update (element f)))))\<bar> \<le> 2 ^ 61"
  shows "\<exists>s c. eaf_sendspin_compute_server_time Fin (Some f) t = Some s \<and> eaf_sendspin_compute_client_time Fin (Some f) s = Some c \<and> \<bar>c - t\<bar> \<le> 1"
proof -
  let ?L = "real_of_int (i64 (uint (el_last_update (element f))))"
  let ?k = "c_round (x + v * (real_of_int t - ?L))"
  let ?y = "(real_of_int (t + ?k) - x + v * ?L) / (1 + v)"
  have near: "\<bar>c_round ?y - t\<bar> \<le> 1" by (rule round_trip_near [OF assms(3)])
  have "\<bar>real_of_int ?k\<bar> \<le> 2 ^ 61 + 1" using c_round_error [of "x + v * (real_of_int t - ?L)"] assms(5) by linarith
  then have k: "\<bar>?k\<bar> \<le> 2 ^ 61 + 1" by (simp flip: of_int_abs)
  have "is_i64 ?k" using k by (simp add: is_i64_def) linarith
  then have s: "eaf_sendspin_compute_server_time Fin (Some f) t = Some (t + ?k)"
    by (simp add: eaf_sendspin_compute_server_time_def assms(1,2) fround_def to_i64_def)
  have c: "\<bar>c_round ?y\<bar> \<le> 2 ^ 61 + 1" using near assms(4) by linarith
  then have "\<not> (2 ^ 63 - 1 \<le> real_of_int (c_round ?y))" "\<not> real_of_int (c_round ?y) < - (2 ^ 63)" "is_i64 (c_round ?y)"
    by (simp_all add: is_i64_def) linarith+
  moreover have "1 + v \<noteq> 0" using assms(3) by linarith
  ultimately have "eaf_sendspin_compute_client_time Fin (Some f) (t + ?k) = Some (c_round ?y)"
    by (simp add: eaf_sendspin_compute_client_time_def assms(1,2) fround_def to_i64_def)
  then show ?thesis using s near by blast
qed

theorem time_round_trip_witness:
  "\<exists>s c. eaf_sendspin_compute_server_time Fin (Some settled_filter) 123456 = Some s \<and>
     eaf_sendspin_compute_client_time Fin (Some settled_filter) s = Some c \<and> \<bar>c - 123456\<bar> \<le> 1"
  by (rule time_round_trip [of settled_filter 500 0]) (simp_all add: settled_filter_def mk_element_def effective_drift_def)

text \<open>
  C34: Three samples with a zero error bound - round trips below two microseconds - destroy the filter: in any rounding that keeps
  zero and neither underflows nor overflows on the values at hand, the third update divides by a zero variance, the
  offset becomes not a number, and the filter still reports that it is synchronised.
\<close>

theorem time_filter_zero_error:
  fixes rnd :: rounding and t1 t2 t3 :: u64 and m1 m2 m3 :: int and q :: real and f :: eaf_sendspin_time_filter_t
  assumes "rnd 0 = Fin 0" and "\<And>x. 1 \<le> x \<Longrightarrow> x < 2 ^ 130 \<Longrightarrow> \<exists>y. rnd x = Fin y \<and> 1 \<le> y \<and> y < 2 * x"
    and "0 < t1" "t1 < t2" "t2 < t3"
  defines "f' \<equiv> updates rnd [(m1, 0, t1), (m2, 0, t2), (m3, 0, t3)] (eaf_sendspin_time_filter_init (Fin q) f)"
  shows "tf_offset f' = NaN \<and> eaf_sendspin_time_synchronized (Some f')"
proof -
  have dt: "\<exists>y e. rnd (real (unat (b - a))) = Fin y \<and> y \<noteq> 0 \<and> rnd (y * y) = Fin e \<and> e \<noteq> 0" if "a < b" for a b :: u64
  proof -
    have "b - a \<noteq> 0" using that by auto
    then have "0 < unat (b - a)" by (simp add: unat_gt_0)
    then have lo: "1 \<le> real (unat (b - a))" by linarith
    have "unat (b - a) < 2 ^ 64" using unsigned_less [of "b - a", where ?'a = nat] by simp
    then have hi: "real (unat (b - a)) < 2 ^ 64" by (metis of_nat_less_iff of_nat_numeral of_nat_power)
    obtain y where y: "rnd (real (unat (b - a))) = Fin y" "1 \<le> y" "y < 2 * real (unat (b - a))"
      using assms(2) [OF lo] hi by fastforce
    have "y < 2 * 2 ^ 64" using y(3) hi by simp
    then have "y < 2 ^ 65" by simp
    then have "y * y < 2 ^ 65 * 2 ^ 65" using y(2) by (intro mult_strict_mono) simp_all
    then have "y * y < 2 ^ 130" by simp
    moreover have "1 \<le> y * y" using y(2) mult_mono [of 1 y 1 y] by simp
    ultimately obtain e where "rnd (y * y) = Fin e" "1 \<le> e" using assms(2) by blast
    then show ?thesis using y by (intro exI [of _ y] exI [of _ e]) auto
  qed
  obtain d1 e1 where d1: "rnd (real (unat (t2 - t1))) = Fin d1" "d1 \<noteq> 0" "rnd (d1 * d1) = Fin e1" "e1 \<noteq> 0" using dt [OF assms(4)] by blast
  obtain d2 e2 where d2: "rnd (real (unat (t3 - t2))) = Fin d2" "d2 \<noteq> 0" "rnd (d2 * d2) = Fin e2" "e2 \<noteq> 0" using dt [OF assms(5)] by blast
  define f0 where "f0 = eaf_sendspin_time_filter_init (Fin q) f"
  define f1 where "f1 = eaf_sendspin_time_filter_update rnd f0 m1 0 t1"
  define f2 where "f2 = eaf_sendspin_time_filter_update rnd f1 m2 0 t2"
  have f1: "tf_count f1 = 1" "tf_last_update f1 = t1" "offset_covariance f1 = Fin 0" "offset_drift_covariance f1 = Fin 0" "process_variance f1 = Fin 0"
    using assms(1,3) by (simp_all add: f1_def f0_def eaf_sendspin_time_filter_update_def first_sample_def eaf_sendspin_time_filter_init_def
        eaf_sendspin_time_filter_reset_def Let_def)
  have f2: "tf_count f2 = 2" "tf_last_update f2 = t2" "offset_covariance f2 = Fin 0" "offset_drift_covariance f2 = Fin 0"
    "drift_covariance f2 = Fin 0" "process_variance f2 = Fin 0"
    using assms(1) assms(4) [unfolded not_le [symmetric]] f1 d1 by (simp_all add: f2_def eaf_sendspin_time_filter_update_def second_sample_def Let_def)
  have f': "f' = eaf_sendspin_time_filter_update rnd f2 m3 0 t3" by (simp add: f'_def f2_def f1_def f0_def)
  have p: "\<exists>x. predict rnd (f2\<lparr>tf_last_update := t3\<rparr>) (Fin d2) = (Fin 0, Fin 0, x)"
    using assms(1) f2 d2 by (simp add: predict_def Let_def)
  have "fadd rnd x NaN = NaN" for x by (cases x) simp_all
  moreover have "(2::u32) < 100" "(2::u32) \<le> 3" by simp_all
  ultimately show ?thesis using assms(1) assms(5) [unfolded not_le [symmetric]] f2 d2 p
    by (auto simp: f' eaf_sendspin_time_filter_update_def later_sample_def forget_def eaf_sendspin_time_synchronized_def Let_def fsub_def)
qed

theorem time_filter_zero_error_witness:
  "tf_offset (updates Fin [(5, 0, 10), (6, 0, 20), (7, 0, 30)] (eaf_sendspin_time_filter_init (Fin 1) blank_filter)) = NaN"
  by (rule time_filter_zero_error [THEN conjunct1]) auto

end
