(* ===== verification/Sendspin_Player.thy ===== *)
theory Sendspin_Player
  imports Sendspin_Sync Sync Sendspin_Messages Dec_PCM Sink_Null
begin

text \<open>
  \<open>apps/sendspin/sendspin_player.c\<close>: the producer of a Sendspin stream. It turns PCM or, through the decode worker, compressed
  audio into stereo Q1.31, measures the presentation latency with the time filter, and resamples what it hands to the sink so that the
  latency stays at its target.
\<close>

section \<open>State\<close>

text \<open>
  The arithmetic of the target: the rounding of its floating point, and the value of an expression of integer type where C leaves it
  undefined (a conversion out of range, a signed overflow of the resampler).
\<close>

record fp_target =
  fp_round :: rounding
  fp_undefined :: int

definition truncate_real :: "real \<Rightarrow> int" where
  "truncate_real v = (if 0 \<le> v then \<lfloor>v\<rfloor> else \<lceil>v\<rceil>)"

definition to_u32 :: "fp_target \<Rightarrow> double \<Rightarrow> u32" where
  "to_u32 t x = (case x of
       Fin v \<Rightarrow> if 0 \<le> truncate_real v \<and> truncate_real v < 2 ^ 32 then word_of_int (truncate_real v) else word_of_int (fp_undefined t)
     | _ \<Rightarrow> word_of_int (fp_undefined t))"

definition to_i32 :: "fp_target \<Rightarrow> double \<Rightarrow> int" where
  "to_i32 t x = (case x of
       Fin v \<Rightarrow> if is_i32 (truncate_real v) then truncate_real v else i32 (fp_undefined t)
     | _ \<Rightarrow> i32 (fp_undefined t))"

abbreviation (input) EAF_SENDPIN_PLAYER_CHUNK_FRAMES :: u32 where "EAF_SENDPIN_PLAYER_CHUNK_FRAMES \<equiv> 128"
abbreviation (input) EAF_SENDPIN_DECODE_STEPS :: nat where "EAF_SENDPIN_DECODE_STEPS \<equiv> 64"

text \<open>
  The player. Its worker reaches the sink through a pointer back to the player; the fields that callback uses
  are the record \<open>player_output\<close>, which the worker holds as its sink context while it runs. The time
  filter belongs to the client, so \<open>write\<close> is given its current state.
\<close>

record 'k player_output =
  pl_sink :: "'k eaf_pcm_write_fn option"
  pl_sink_ctx :: 'k
  active_ratio :: double
  resample_credit :: double
  resample_scratch :: "int list"
  pl_frames_written :: u32
  pl_frames_dropped :: u32

record 'd eaf_sendspin_decoder_t =
  bound_ops :: "'d eaf_decoder_ops_t option"
  bound_ctx :: "'d option"
  bound_scratch :: "int list option"
  bound_frames :: u32

record ('d, 'k) eaf_sendspin_player_t =
  pl_out :: "'k player_output"
  pl_format :: eaf_format_t
  pl_channels :: u8
  pl_bits :: u8
  pl_active :: bool
  pl_synchronized :: bool
  drop_late :: bool
  compressed :: bool
  last_latency_us :: int
  chunks :: u32
  pl_decoder :: "'d eaf_sendspin_decoder_t"
  worker :: "('d, 'k player_output) eaf_decode_worker_t"
  rate_control :: bool
  rate_auto_target :: bool
  target_latency_us :: double
  rate_calibration_sum :: double
  rate_calibration :: u32
  rate_ppm :: int
  rate_update_us :: int
  controller :: eaf_sync_controller_t

section \<open>Samples\<close>

definition read_le16 :: "u8 list \<Rightarrow> int" where
  "read_le16 p = i16 (uint (ucast (p ! 0) OR push_bit 8 (ucast (p ! 1)) :: u16))"

definition read_le24 :: "u8 list \<Rightarrow> int" where
  "read_le24 p =
     (let v = ucast (p ! 0) OR push_bit 8 (ucast (p ! 1)) OR push_bit 16 (ucast (p ! 2)) :: u32
      in i32 (uint (if v AND 0x800000 \<noteq> 0 then v OR 0xFF000000 else v)))"

definition read_le32 :: "u8 list \<Rightarrow> int" where
  "read_le32 p =
     i32 (uint (ucast (p ! 0) OR push_bit 8 (ucast (p ! 1)) OR push_bit 16 (ucast (p ! 2)) OR push_bit 24 (ucast (p ! 3)) :: u32))"

definition sample_to_q31 :: "u8 list \<Rightarrow> u8 \<Rightarrow> int" where
  "sample_to_q31 p bits =
     (if bits = 16 then eaf_pcm16_to_q31 (read_le16 p)
      else if bits = 24 then eaf_pcm24_to_q31 (read_le24 p)
      else eaf_pcm32_to_q31 (read_le32 p))"

fun decoder_codec :: "eaf_sendspin_codec_t \<Rightarrow> eaf_codec_t" where
  "decoder_codec EAF_SENDPIN_CODEC_FLAC = EAF_CODEC_FLAC"
| "decoder_codec EAF_SENDPIN_CODEC_OPUS = EAF_CODEC_OPUS"
| "decoder_codec EAF_SENDPIN_CODEC_MP3 = EAF_CODEC_MP3"
| "decoder_codec EAF_SENDPIN_CODEC_VORBIS = EAF_CODEC_VORBIS"
| "decoder_codec _ = EAF_CODEC_NONE"

section \<open>Output\<close>

text \<open>The frames to produce for a block, and the fraction carried to the next one.\<close>

definition block_frames_out :: "fp_target \<Rightarrow> 'k player_output \<Rightarrow> u32 \<Rightarrow> u32 \<times> double" where
  "block_frames_out t p count =
     (let rnd = fp_round t;
          desired = fadd rnd (fmul rnd (rnd (real (unat count))) (active_ratio p)) (resample_credit p);
          produce = to_u32 t desired;
          produce = (if produce > count + 2 then count + 2 else produce)
      in (produce, fsub rnd desired (rnd (real (unat produce)))))"

definition resampled_block :: "fp_target \<Rightarrow> 'k player_output \<Rightarrow> int list \<Rightarrow> u32 \<Rightarrow> u32 \<times> int list \<times> 'k player_output" where
  "resampled_block t p xs count =
     (if active_ratio p = Fin 1 then (count, xs, p)
      else let (produce, credit) = block_frames_out t p count;
               out = the (snd (eaf_sync_resample (i32 (fp_undefined t)) (Some xs) count (Some (resample_scratch p)) produce 2))
           in (produce, out, p\<lparr>resample_credit := credit, resample_scratch := out\<rparr>))"

definition queue_block :: "fp_target \<Rightarrow> 'k player_output \<Rightarrow> int list \<Rightarrow> u32 \<Rightarrow> u32 \<times> u32 \<times> 'k player_output" where
  "queue_block t p xs count =
     (let (produce, out, p) = resampled_block t p xs count;
          (written, k) = the (pl_sink p) (pl_sink_ctx p) out produce;
          p = p\<lparr>pl_sink_ctx := k, pl_frames_written := pl_frames_written p + written\<rparr>;
          p = (if written < produce then p\<lparr>pl_frames_dropped := pl_frames_dropped p + (produce - written)\<rparr> else p)
      in (written, produce, p))"

definition block_count :: "u32 \<Rightarrow> u32" where
  "block_count left = (if left > EAF_SENDPIN_PLAYER_CHUNK_FRAMES then EAF_SENDPIN_PLAYER_CHUNK_FRAMES else left)"

lemma block_count_less: "left \<noteq> 0 \<Longrightarrow> unat (left - block_count left) < unat left"
proof -
  assume "left \<noteq> 0"
  then have "0 < unat (block_count left)" "block_count left \<le> left" by (auto simp: block_count_def unat_gt_0)
  then show ?thesis by (simp add: unat_sub word_le_nat_alt)
qed

text \<open>The loop of \<open>decode_sink\<close> on the frames not yet offered.\<close>

function decode_blocks :: "fp_target \<Rightarrow> 'k player_output \<Rightarrow> int list \<Rightarrow> u32 \<Rightarrow> 'k player_output" where
  "decode_blocks t p xs left =
     (if left = 0 then p
      else let count = block_count left;
               (written, produced, p) = queue_block t p xs count;
               left = left - count
           in if written < produced then p\<lparr>pl_frames_dropped := pl_frames_dropped p + left\<rparr>
              else decode_blocks t p (drop (unat count * 2) xs) left)"
  by pat_completeness auto
termination
  by (relation "measure (\<lambda>(t, p, xs, left). unat left)") (auto simp: block_count_less)

declare decode_blocks.simps [simp del]

definition decode_sink :: "fp_target \<Rightarrow> 'k player_output eaf_pcm_write_fn" where
  "decode_sink t p xs frames = (frames, decode_blocks t p xs frames)"

section \<open>Rate control\<close>

definition calibrate :: "fp_target \<Rightarrow> ('d, 'k) eaf_sendspin_player_t \<Rightarrow> ('d, 'k) eaf_sendspin_player_t" where
  "calibrate t p =
     (let rnd = fp_round t
      in if 0 < last_latency_us p
         then let sum = fadd rnd (rate_calibration_sum p) (rnd (real_of_int (last_latency_us p)));
                  p = p\<lparr>rate_calibration_sum := sum, rate_calibration := rate_calibration p + 1\<rparr>
              in if rate_calibration p \<ge> 8
                 then p\<lparr>target_latency_us := fdiv rnd sum (Fin 8), rate_auto_target := False\<rparr> else p
         else p)"

definition latency_error :: "fp_target \<Rightarrow> ('d, 'k) eaf_sendspin_player_t \<Rightarrow> double" where
  "latency_error t p =
     (let rnd = fp_round t;
          e = fdiv rnd (fsub rnd (target_latency_us p) (rnd (real_of_int (last_latency_us p)))) (Fin 1000)
      in if flt (Fin (- 1)) e \<and> flt e (Fin 1) then Fin 0 else e)"

definition update_rate ::
  "fp_target \<Rightarrow> 'w hal_clock \<Rightarrow> ('d, 'k) eaf_sendspin_player_t \<Rightarrow> 'w \<Rightarrow> double \<times> ('d, 'k) eaf_sendspin_player_t \<times> 'w" where
  "update_rate t hal p w =
     (let rnd = fp_round t;
          (time, w) = hal_monotonic_time_us hal w;
          now = i64 (uint time);
          last = rate_update_us p;
          ratio = (\<lambda>p. eaf_sync_ppm_to_ratio rnd (rnd (real_of_int (rate_ppm p))))
      in if last \<noteq> 0 \<and> now - last < 100000 then (ratio p, p, w)
         else let dt = (if last \<noteq> 0 then fdiv rnd (rnd (real_of_int (now - last))) (Fin 1000000) else Fin 0);
                  p = p\<lparr>rate_update_us := now\<rparr>
              in if fle dt (Fin 0) then (ratio p, p, w)
                 else if rate_auto_target p then (Fin 1, calibrate t p, w)
                 else let (ppm, c) = eaf_sync_controller_update rnd (controller p) (latency_error t p) dt;
                          p = p\<lparr>controller := c, rate_ppm := to_i32 t ppm\<rparr>
                      in (ratio p, p, w))"

definition eaf_sendspin_player_set_rate_control ::
  "fp_target \<Rightarrow> ('d, 'k) eaf_sendspin_player_t \<Rightarrow> double \<Rightarrow> ('d, 'k) eaf_sendspin_player_t" where
  "eaf_sendspin_player_set_rate_control t p target_latency_ms =
     (let auto = fle target_latency_ms (Fin 0)
      in p\<lparr>rate_control := True, rate_auto_target := auto,
           target_latency_us := (if auto then Fin 0 else fmul (fp_round t) target_latency_ms (Fin 1000)),
           rate_ppm := 0, rate_update_us := 0, pl_out := (pl_out p)\<lparr>resample_credit := Fin 0\<rparr>,
           rate_calibration := 0, rate_calibration_sum := Fin 0,
           controller := eaf_sync_controller_init (Fin 2) (fp_round t 0.1) (Fin 300)\<rparr>)"

section \<open>Life of a stream\<close>

definition zero_output :: "'k eaf_pcm_write_fn option \<Rightarrow> 'k \<Rightarrow> 'k player_output" where
  "zero_output snk ctx = \<lparr>pl_sink = snk, pl_sink_ctx = ctx, active_ratio = Fin 1, resample_credit = Fin 0,
     resample_scratch = replicate 260 0, pl_frames_written = 0, pl_frames_dropped = 0\<rparr>"

text \<open>A zeroed worker is closed; its sink pointer is not called.\<close>

definition zero_worker :: "'k \<Rightarrow> ('d, 'k) eaf_decode_worker_t" where
  "zero_worker k = \<lparr>wk_decoder = \<lparr>dec_ops = None, dec_ctx = None\<rparr>, wk_format = zero_format, wk_sink = (\<lambda>k xs n. (0, k)), wk_sink_ctx = k,
     scratch = [], scratch_frames = 0, pending = 0, sent = 0, frames_written = 0, frames_dropped = 0, wk_open = False\<rparr>"

definition eaf_sendspin_player_init :: "'k eaf_pcm_write_fn option \<Rightarrow> 'k \<Rightarrow> ('d, 'k) eaf_sendspin_player_t" where
  "eaf_sendspin_player_init snk ctx =
     \<lparr>pl_out = zero_output snk ctx, pl_format = zero_format, pl_channels = 0, pl_bits = 0, pl_active = False, pl_synchronized = False,
      drop_late = False, compressed = False, last_latency_us = 0, chunks = 0,
      pl_decoder = \<lparr>bound_ops = None, bound_ctx = None, bound_scratch = None, bound_frames = 0\<rparr>,
      worker = zero_worker (zero_output snk ctx), rate_control = False, rate_auto_target = False, target_latency_us = Fin 0,
      rate_calibration_sum = Fin 0, rate_calibration = 0, rate_ppm = 0, rate_update_us = 0,
      controller = eaf_sync_controller_init (Fin 0) (Fin 0) (Fin 0)\<rparr>"

definition eaf_sendspin_player_set_decoder ::
  "('d, 'k) eaf_sendspin_player_t \<Rightarrow> 'd eaf_sendspin_decoder_t option \<Rightarrow> ('d, 'k) eaf_sendspin_player_t" where
  "eaf_sendspin_player_set_decoder p dec =
     (case dec of None \<Rightarrow> p | Some d \<Rightarrow> if pl_active p then p else p\<lparr>pl_decoder := d\<rparr>)"

text \<open>
  The adapter's context and scratch memory are the caller's. The worker holds their contents from \<open>open\<close> to
  \<open>close\<close>; \<open>give_back\<close> returns them.
\<close>

definition give_back :: "('d, 'k player_output) eaf_decode_worker_t \<Rightarrow> ('d, 'k) eaf_sendspin_player_t \<Rightarrow> ('d, 'k) eaf_sendspin_player_t" where
  "give_back w p = p\<lparr>pl_decoder := (pl_decoder p)\<lparr>bound_ctx := dec_ctx (wk_decoder w), bound_scratch := Some (scratch w)\<rparr>\<rparr>"

definition close_worker :: "('d, 'k) eaf_sendspin_player_t \<Rightarrow> ('d, 'k) eaf_sendspin_player_t" where
  "close_worker p =
     (let w = eaf_decode_worker_close (worker p);
          p = (if wk_open (worker p) then give_back w p else p)
      in p\<lparr>worker := w, compressed := False\<rparr>)"

definition eaf_sendspin_player_finish :: "('d, 'k) eaf_sendspin_player_t \<Rightarrow> ('d, 'k) eaf_sendspin_player_t" where
  "eaf_sendspin_player_finish p = (close_worker p)\<lparr>pl_active := False\<rparr>"

definition stream_supported :: "('d, 'k) eaf_sendspin_player_t \<Rightarrow> eaf_sendspin_stream_start_t \<Rightarrow> bool" where
  "stream_supported p start =
     (if ss_codec start \<noteq> EAF_SENDPIN_CODEC_PCM
      then decoder_codec (ss_codec start) \<noteq> EAF_CODEC_NONE \<and> bound_ops (pl_decoder p) \<noteq> None \<and> bound_ctx (pl_decoder p) \<noteq> None \<and>
           bound_scratch (pl_decoder p) \<noteq> None \<and> bound_frames (pl_decoder p) \<noteq> 0
      else ss_bit_depth start = 16 \<or> ss_bit_depth start = 24 \<or> ss_bit_depth start = 32)"

definition start_stream :: "('d, 'k) eaf_sendspin_player_t \<Rightarrow> eaf_sendspin_stream_start_t \<Rightarrow> ('d, 'k) eaf_sendspin_player_t" where
  "start_stream p start =
     p\<lparr>pl_format := \<lparr>sample_rate = ss_sample_rate start, num_channels = 2, channel_mask = 3\<rparr>, pl_channels := ss_channels start,
       pl_bits := (if ss_bit_depth start \<noteq> 0 then ss_bit_depth start else 16), pl_active := True, pl_synchronized := False,
       last_latency_us := 0, pl_out := (pl_out p)\<lparr>pl_frames_written := 0, pl_frames_dropped := 0, resample_credit := Fin 0\<rparr>,
       chunks := 0, rate_ppm := 0, rate_update_us := 0, rate_calibration := 0, rate_calibration_sum := Fin 0,
       controller := eaf_sync_controller_reset (controller p)\<rparr>"

definition start_config :: "eaf_sendspin_stream_start_t \<Rightarrow> eaf_decoder_config_t" where
  "start_config start =
     \<lparr>codec = decoder_codec (ss_codec start), cfg_rate = ss_sample_rate start, cfg_channels = ss_channels start, bit_depth = ss_bit_depth start,
      extra = (case codec_header start of None \<Rightarrow> [] | Some s \<Rightarrow> map of_char s)\<rparr>"

definition open_worker ::
  "fp_target \<Rightarrow> ('d, 'k) eaf_sendspin_player_t \<Rightarrow> eaf_sendspin_stream_start_t \<Rightarrow> eaf_result_t \<times> ('d, 'k) eaf_sendspin_player_t" where
  "open_worker t p start =
     (let d = pl_decoder p;
          (rc, w) = eaf_decode_worker_init (worker p) \<lparr>dec_ops = bound_ops d, dec_ctx = bound_ctx d\<rparr> (Some (decode_sink t)) (pl_out p)
                      (bound_scratch d) (bound_frames d) (Some (pl_format p))
      in if rc \<noteq> EAF_OK then (EAF_INVALID, p)
         else let (rc, w) = eaf_decode_worker_open w (Some (start_config start))
              in if rc \<noteq> EAF_OK then (rc, (give_back w p)\<lparr>worker := w, pl_active := False\<rparr>)
                 else (EAF_OK, p\<lparr>worker := w, compressed := True\<rparr>))"

definition eaf_sendspin_player_begin ::
  "fp_target \<Rightarrow> ('d, 'k) eaf_sendspin_player_t \<Rightarrow> eaf_sendspin_time_filter_t option \<Rightarrow> eaf_sendspin_stream_start_t option \<Rightarrow>
   eaf_result_t \<times> ('d, 'k) eaf_sendspin_player_t" where
  "eaf_sendspin_player_begin t p tf start =
     (case start of None \<Rightarrow> (EAF_INVALID, p)
      | Some start \<Rightarrow>
        if tf = None \<or> pl_sink (pl_out p) = None then (EAF_INVALID, p)
        else if pl_active p then (EAF_STATE, p)
        else if ss_channels start \<noteq> 1 \<and> ss_channels start \<noteq> 2 then (EAF_UNSUPPORTED, p)
        else if ss_sample_rate start = 0 then (EAF_UNSUPPORTED, p)
        else let p = close_worker p;
                 p = p\<lparr>pl_out := (pl_out p)\<lparr>active_ratio := Fin 1\<rparr>\<rparr>
             in if \<not> stream_supported p start then (EAF_UNSUPPORTED, p)
                else let p = start_stream p start
                     in if ss_codec start \<noteq> EAF_SENDPIN_CODEC_PCM then open_worker t p start else (EAF_OK, p))"

section \<open>Audio\<close>

text \<open>A call of the worker, which works on the player's output.\<close>

definition with_worker ::
  "(('d, 'k player_output) eaf_decode_worker_t \<Rightarrow> 'r \<times> ('d, 'k player_output) eaf_decode_worker_t) \<Rightarrow>
   ('d, 'k) eaf_sendspin_player_t \<Rightarrow> 'r \<times> ('d, 'k) eaf_sendspin_player_t" where
  "with_worker f p =
     (let (r, w) = f ((worker p)\<lparr>wk_sink_ctx := pl_out p\<rparr>) in (r, p\<lparr>worker := w, pl_out := wk_sink_ctx w\<rparr>))"

definition push_bytes :: "u8 list \<Rightarrow> ('d, 'k) eaf_decode_worker_t \<Rightarrow> (eaf_result_t \<times> nat) \<times> ('d, 'k) eaf_decode_worker_t" where
  "push_bytes data w = (case eaf_decode_worker_push w (Some data) (length data) of (rc, n, w) \<Rightarrow> ((rc, n), w))"

text \<open>The first loop of \<open>write_compressed\<close>, with the passes left, on the bytes not yet consumed.\<close>

fun push_loop :: "nat \<Rightarrow> ('d, 'k) eaf_sendspin_player_t \<Rightarrow> u8 list \<Rightarrow> eaf_result_t \<times> ('d, 'k) eaf_sendspin_player_t" where
  "push_loop 0 p data = (EAF_OK, p)"
| "push_loop (Suc n) p data =
     (if data = [] then (EAF_OK, p)
      else if \<not> eaf_decode_worker_can_push (worker p)
      then let (rc, p) = with_worker eaf_decode_worker_step p in if rc \<noteq> EAF_OK then (rc, p) else push_loop n p data
      else let ((rc, consumed), p) = with_worker (push_bytes data) p
           in if rc \<noteq> EAF_OK then (rc, p)
              else if consumed = 0
              then let (rc, p) = with_worker eaf_decode_worker_step p in if rc \<noteq> EAF_OK then (rc, p) else push_loop n p data
              else push_loop n p (drop consumed data))"

fun drain_loop :: "nat \<Rightarrow> ('d, 'k) eaf_sendspin_player_t \<Rightarrow> eaf_result_t \<times> ('d, 'k) eaf_sendspin_player_t" where
  "drain_loop 0 p = (EAF_OK, p)"
| "drain_loop (Suc n) p =
     (let before = frames_written (worker p);
          (rc, p) = with_worker eaf_decode_worker_step p
      in if rc \<noteq> EAF_OK then (rc, p)
         else if frames_written (worker p) = before \<and> eaf_decode_worker_can_push (worker p) then (EAF_OK, p)
         else drain_loop n p)"

definition write_compressed :: "('d, 'k) eaf_sendspin_player_t \<Rightarrow> u8 list \<Rightarrow> eaf_result_t \<times> ('d, 'k) eaf_sendspin_player_t" where
  "write_compressed p data =
     (let (rc, p) = push_loop EAF_SENDPIN_DECODE_STEPS p data
      in if rc \<noteq> EAF_OK then (rc, p) else drain_loop EAF_SENDPIN_DECODE_STEPS p)"

text \<open>The stereo frames of a block of PCM input.\<close>

definition stereo_frame :: "u8 \<Rightarrow> u8 \<Rightarrow> u8 list \<Rightarrow> int list" where
  "stereo_frame nch bits frame =
     (let left = sample_to_q31 frame bits
      in [left, if nch = 2 then sample_to_q31 (drop (unat bits div 8) frame) bits else left])"

definition stereo_block :: "u8 \<Rightarrow> u8 \<Rightarrow> u8 list \<Rightarrow> nat \<Rightarrow> int list" where
  "stereo_block nch bits data count =
     concat (map (\<lambda>i. stereo_frame nch bits (drop (i * (unat nch * (unat bits div 8))) data)) [0..<count])"

text \<open>The loop of \<open>write\<close> over the frames not yet handed to the sink.\<close>

function pcm_blocks :: "fp_target \<Rightarrow> u8 \<Rightarrow> u8 \<Rightarrow> 'k player_output \<Rightarrow> u8 list \<Rightarrow> u32 \<Rightarrow> 'k player_output" where
  "pcm_blocks t nch bits p data left =
     (if left = 0 then p
      else let count = block_count left;
               (written, produced, p) = queue_block t p (stereo_block nch bits data (unat count)) count
           in if written < produced then p
              else pcm_blocks t nch bits p (drop (unat count * (unat nch * (unat bits div 8))) data) (left - count))"
  by pat_completeness auto
termination
  by (relation "measure (\<lambda>(t, nch, bits, p, data, left). unat left)") (auto simp: block_count_less)

declare pcm_blocks.simps [simp del]

definition player_frame_bytes :: "('d, 'k) eaf_sendspin_player_t \<Rightarrow> nat" where
  "player_frame_bytes p = unat (pl_channels p) * (unat (pl_bits p) div 8)"

definition count_chunk :: "('d, 'k) eaf_sendspin_player_t \<Rightarrow> ('d, 'k) eaf_sendspin_player_t" where
  "count_chunk p = p\<lparr>chunks := chunks p + 1\<rparr>"

text \<open>The presentation time of a chunk; \<open>drop_chunk\<close> is the opt-in drop of one that is late.\<close>

definition measure_latency ::
  "fp_target \<Rightarrow> 'w hal_clock \<Rightarrow> ('d, 'k) eaf_sendspin_player_t \<Rightarrow> eaf_sendspin_time_filter_t \<Rightarrow> int \<Rightarrow> 'w \<Rightarrow>
   bool \<times> ('d, 'k) eaf_sendspin_player_t \<times> 'w" where
  "measure_latency t hal p tf timestamp w =
     (let (time, w) = hal_monotonic_time_us hal w;
          now = i64 (uint time);
          play = (case eaf_sendspin_compute_client_time (fp_round t) (Some tf) timestamp of Some x \<Rightarrow> x | None \<Rightarrow> i64 (fp_undefined t))
      in (drop_late p \<and> play < now, p\<lparr>last_latency_us := i64 (play - now)\<rparr>, w))"

definition drop_chunk :: "('d, 'k) eaf_sendspin_player_t \<Rightarrow> nat \<Rightarrow> ('d, 'k) eaf_sendspin_player_t" where
  "drop_chunk p len =
     count_chunk (if \<not> compressed p \<and> player_frame_bytes p \<noteq> 0
       then p\<lparr>pl_out := (pl_out p)\<lparr>pl_frames_dropped := pl_frames_dropped (pl_out p) + of_nat (len div player_frame_bytes p)\<rparr>\<rparr>
       else p)"

definition write_audio :: "fp_target \<Rightarrow> ('d, 'k) eaf_sendspin_player_t \<Rightarrow> u8 list \<Rightarrow> eaf_result_t \<times> ('d, 'k) eaf_sendspin_player_t" where
  "write_audio t p data =
     (if compressed p then let (rc, p) = write_compressed p data in (rc, count_chunk p)
      else let fb = player_frame_bytes p
           in if length data < fb then (EAF_OK, p)
              else (EAF_OK, count_chunk (p\<lparr>pl_out := pcm_blocks t (pl_channels p) (pl_bits p) (pl_out p) data (of_nat (length data div fb))\<rparr>)))"

definition eaf_sendspin_player_write ::
  "fp_target \<Rightarrow> 'w hal_clock \<Rightarrow> ('d, 'k) eaf_sendspin_player_t \<Rightarrow> eaf_sendspin_time_filter_t \<Rightarrow> int \<Rightarrow> u8 list option \<Rightarrow> 'w \<Rightarrow>
   eaf_result_t \<times> ('d, 'k) eaf_sendspin_player_t \<times> 'w" where
  "eaf_sendspin_player_write t hal p tf timestamp pcm w =
     (case pcm of None \<Rightarrow> (EAF_INVALID, p, w)
      | Some data \<Rightarrow>
        if \<not> pl_active p then (EAF_INVALID, p, w)
        else let p = p\<lparr>pl_synchronized := eaf_sendspin_time_synchronized (Some tf)\<rparr>;
                 (late, p, w) = (if pl_synchronized p then measure_latency t hal p tf timestamp w else (False, p, w))
             in if late then (EAF_OK, drop_chunk p (length data), w)
                else let (ratio, p, w) = (if rate_control p \<and> pl_synchronized p then update_rate t hal p w else (Fin 1, p, w));
                         (rc, p) = write_audio t (p\<lparr>pl_out := (pl_out p)\<lparr>active_ratio := ratio\<rparr>\<rparr>) data
                     in (rc, p, w))"

section \<open>PCM input\<close>

text \<open>The sample readers agree with the PCM adapter's, so both share the reference \<open>decode_frames\<close>.\<close>

lemma le16_word: "uint (ucast a OR push_bit 8 (ucast b) :: u16) = uint (ucast (a::u8) OR push_bit 8 (ucast (b::u8)) :: u32)"
proof -
  have "(ucast (ucast a OR push_bit 8 (ucast b) :: u16) :: u32) = ucast a OR push_bit 8 (ucast b)"
    by (rule bit_word_eqI) (auto simp: bit_simps dest: bit_imp_le_length)
  then show ?thesis by (metis uint_up_ucast is_up.rep_eq unat_ucast_16_32 uint_nat)
qed

lemma sample_to_q31_pcm:
  assumes "bits = 16 \<or> bits = 24 \<or> bits = 32"
  shows "sample_to_q31 p bits = pcm_sample (unat bits div 8) p 0"
proof -
  have upt: "[0..<2] = [0, 1]" "[0..<3] = [0, 1, 2]" "[0..<4] = [0, 1, 2, 3::nat]" by (simp_all add: upt_rec)
  from assms show ?thesis
    by (elim disjE) (simp_all add: sample_to_q31_def pcm_sample_def read_le16_def read_le24_def read_le32_def sign_extend24_def
        le16_word upt Let_def or.assoc)
qed

lemma stereo_block_decoded:
  assumes "bits = 16 \<or> bits = 24 \<or> bits = 32" and "nch = 1 \<or> nch = 2"
    and "n * (unat nch * (unat bits div 8)) \<le> length data"
  shows "stereo_block nch bits data n = decode_frames (unat bits div 8) (unat nch) 2 data n"
proof -
  let ?sb = "unat bits div 8" and ?ic = "unat nch"
  have sb: "?sb = 2 \<or> ?sb = 3 \<or> ?sb = 4" "8 * ?sb = unat bits" using assms(1) by auto
  have "stereo_frame nch bits (drop (i * (?ic * ?sb)) data) = frame_samples ?sb ?ic 2 (take (?ic * ?sb) (drop (i * (?ic * ?sb)) data))"
    if "i < n" for i
  proof -
    let ?f = "drop (i * (?ic * ?sb)) data"
    have "(i + 1) * (?ic * ?sb) \<le> n * (?ic * ?sb)" using that by (intro mult_le_mono1) simp
    then have "i * (?ic * ?sb) + ?ic * ?sb \<le> length data" using assms(3) by (simp add: algebra_simps)
    then have len: "?ic * ?sb \<le> length ?f" by simp
    have v: "sample_to_q31 (drop (c * ?sb) ?f) bits =
        signed_value (8 * ?sb) (le_value (take ?sb (drop (c * ?sb) (take (?ic * ?sb) ?f)))) * 2 ^ (32 - 8 * ?sb)" if "c < ?ic" for c
    proof -
      have "(c + 1) * ?sb \<le> ?ic * ?sb" using that by (intro mult_le_mono1) simp
      then have c: "c * ?sb + ?sb \<le> ?ic * ?sb" by (simp add: algebra_simps)
      then have "take ?sb (drop (c * ?sb) (take (?ic * ?sb) ?f)) = take ?sb (drop (c * ?sb) ?f)" by (simp add: drop_take min_def)
      moreover have "0 + ?sb \<le> length (drop (c * ?sb) ?f)" using c len unfolding length_drop by linarith
      note pcm_sample_value [OF sb(1) this]
      ultimately show ?thesis unfolding sample_to_q31_pcm [OF assms(1)] by (simp only: drop_0)
    qed
    let ?v = "\<lambda>c. signed_value (8 * ?sb) (le_value (take ?sb (drop (c * ?sb) (take (?ic * ?sb) ?f)))) * 2 ^ (32 - 8 * ?sb)"
    have "0 < ?ic" "nch = 2 \<Longrightarrow> 1 < ?ic" "?ic = 2 \<longleftrightarrow> nch = 2" using assms(2) by auto
    then have "sample_to_q31 ?f bits = ?v 0" "nch = 2 \<Longrightarrow> sample_to_q31 (drop ?sb ?f) bits = ?v 1" using v [of 0] v [of 1] by simp_all
    then have "stereo_frame nch bits ?f = [?v 0, if ?ic = 2 then ?v 1 else ?v 0]" unfolding stereo_frame_def Let_def \<open>?ic = 2 \<longleftrightarrow> nch = 2\<close> by presburger
    then show ?thesis unfolding frame_samples_def Let_def by (simp only: refl if_True)
  qed
  then show ?thesis unfolding stereo_block_def decode_frames_def by (intro arg_cong [of _ _ concat] map_cong) simp_all
qed

section \<open>Delivery to the sink\<close>

text \<open>The callback of the worker takes everything it is offered.\<close>

interpretation decode_out: pcm_sink "decode_sink t" "\<lambda>_. True"
  by unfold_locales (auto simp: decode_sink_def)

text \<open>
  The frames a chunk counts as dropped when the sink takes \<open>n\<close> of \<open>frames\<close>: those up to the end of
  the block in which it refused one.
\<close>

definition counted_drop :: "nat \<Rightarrow> nat \<Rightarrow> nat" where
  "counted_drop n frames = (if n = frames then 0 else min frames ((n div 128 + 1) * 128) - n)"

lemma counted_drop_block: "n < c \<Longrightarrow> c = min l 128 \<Longrightarrow> counted_drop n l = c - n"
  by (auto simp: counted_drop_def)

lemma counted_drop_next: "128 \<le> l \<Longrightarrow> n \<le> l - 128 \<Longrightarrow> counted_drop (128 + n) l = counted_drop n (l - 128)"
  by (auto simp: counted_drop_def min_def)

lemma unat_block_count: "unat (block_count left) = min (unat left) 128"
  by (auto simp: block_count_def word_less_nat_alt min_def)

lemma queue_block_unit:
  assumes "active_ratio p = Fin 1" and "pl_sink p = Some (logged_sink 2 snk)" and "pl_sink_ctx p = (k, old)" and "snk k xs count = (m, k')"
  shows "queue_block t p xs count = (m, count, p\<lparr>pl_sink_ctx := (k', old @ take (unat m * 2) xs), pl_frames_written := pl_frames_written p + m,
    pl_frames_dropped := pl_frames_dropped p + (if m < count then count - m else 0)\<rparr>)"
  using assms by (simp add: queue_block_def resampled_block_def logged_sink_def Let_def)

lemma pcm_blocks_delivered:
  assumes snk: "pcm_sink snk ok" and ratio: "active_ratio p = Fin 1" and s: "pl_sink p = Some (logged_sink 2 snk)"
    and bits: "bits = 16 \<or> bits = 24 \<or> bits = 32" and nch: "nch = 1 \<or> nch = 2"
    and "unat left * (unat nch * (unat bits div 8)) \<le> length data" and "pl_sink_ctx p = (k, old)" and "ok k"
  shows "\<exists>n k'. n \<le> unat left \<and> ok k' \<and> pcm_blocks t nch bits p data left =
    p\<lparr>pl_sink_ctx := (k', old @ take (2 * n) (decode_frames (unat bits div 8) (unat nch) 2 data (unat left))),
      pl_frames_written := pl_frames_written p + of_nat n, pl_frames_dropped := pl_frames_dropped p + of_nat (counted_drop n (unat left))\<rparr>"
  using assms(2,3,6-8)
proof (induction "unat left" arbitrary: left p data k old rule: less_induct)
  case less
  let ?fb = "unat nch * (unat bits div 8)" and ?D = "decode_frames (unat bits div 8) (unat nch) 2"
  show ?case
  proof (cases "left = 0")
    case True
    then show ?thesis using less.prems by (intro exI [of _ 0] exI [of _ k]) (simp add: pcm_blocks.simps counted_drop_def)
  next
    case False
    let ?c = "block_count left" and ?xs = "stereo_block nch bits data (unat (block_count left))"
    obtain m k1 where m: "snk k ?xs ?c = (m, k1)" by fastforce
    have law: "m \<le> ?c" "ok k1" using pcm_sink.sink_law [OF snk less.prems(5) m] by simp_all
    have c: "unat ?c = min (unat left) 128" by (rule unat_block_count)
    have "unat ?c * ?fb \<le> unat left * ?fb" using c by (intro mult_le_mono1) simp
    then have xs: "?xs = ?D data (unat ?c)" using stereo_block_decoded [OF bits nch, of "unat ?c" data] less.prems(3) by linarith
    have split: "?D data (unat left) = ?D data (unat ?c) @ ?D (drop (unat ?c * ?fb) data) (unat left - unat ?c)"
      using decode_frames_split [of _ _ 2 data "unat ?c" "unat left - unat ?c"] c by simp
    note Q = queue_block_unit [OF less.prems(1,2,4) m, of t]
    show ?thesis
    proof (cases "m < ?c")
      case True
      then have lt: "unat m < unat ?c" by (simp add: word_less_nat_alt)
      have "of_nat (unat ?c - unat m) = ?c - m" by (simp flip: unat_sub [OF law(1)])
      moreover have "take (2 * unat m) (?D data (unat left)) = take (unat m * 2) ?xs"
        using lt by (simp add: split xs mult.commute)
      ultimately show ?thesis using False True Q law c lt counted_drop_block [OF lt c]
        by (intro exI [of _ "unat m"] exI [of _ k1]) (simp add: pcm_blocks.simps [of t nch bits p] Let_def)
    next
      case False
      then have mc: "m = ?c" using law(1) by simp
      let ?p = "p\<lparr>pl_sink_ctx := (k1, old @ ?xs), pl_frames_written := pl_frames_written p + ?c\<rparr>"
      have left': "unat (left - ?c) = unat left - unat ?c" using c by (intro unat_sub) (simp add: word_le_nat_alt)
      have all: "take (unat ?c * 2) ?xs = ?xs" by (simp add: xs)
      have fit: "unat (left - ?c) * ?fb \<le> length (drop (unat ?c * ?fb) data)"
        using less.prems(3) left' by (simp add: diff_mult_distrib)
      obtain n k' where n: "n \<le> unat (left - ?c)" "ok k'" and R: "pcm_blocks t nch bits ?p (drop (unat ?c * ?fb) data) (left - ?c) =
          ?p\<lparr>pl_sink_ctx := (k', (old @ ?xs) @ take (2 * n) (?D (drop (unat ?c * ?fb) data) (unat (left - ?c)))),
            pl_frames_written := pl_frames_written ?p + of_nat n,
            pl_frames_dropped := pl_frames_dropped ?p + of_nat (counted_drop n (unat (left - ?c)))\<rparr>"
        using less.hyps [OF block_count_less [OF \<open>left \<noteq> 0\<close>], of ?p "drop (unat ?c * ?fb) data" k1 "old @ ?xs"] less.prems(1,2) fit law(2)
        by auto
      have "counted_drop (unat ?c + n) (unat left) = counted_drop n (unat (left - ?c))"
      proof (cases "128 \<le> unat left")
        case True
        then show ?thesis using counted_drop_next [of "unat left" n] n(1) left' c by simp
      next
        case False
        then show ?thesis using n(1) left' c by (simp add: counted_drop_def)
      qed
      moreover have "pcm_blocks t nch bits p data left = pcm_blocks t nch bits ?p (drop (unat ?c * ?fb) data) (left - ?c)"
        using \<open>left \<noteq> 0\<close> Q mc all by (simp add: pcm_blocks.simps [of t nch bits p] Let_def)
      moreover have "take (2 * (unat ?c + n)) (?D data (unat left)) = ?xs @ take (2 * n) (?D (drop (unat ?c * ?fb) data) (unat (left - ?c)))"
        by (simp add: split xs left' algebra_simps)
      moreover have "of_nat (unat ?c) = ?c" by simp
      then have "of_nat (min (unat left) 128) = ?c" unfolding c .
      moreover have "unat ?c + n \<le> unat left" using n(1) left' c by linarith
      ultimately show ?thesis using R n(2) left' c
        by (intro exI [of _ "unat ?c + n"] exI [of _ k']) (simp add: algebra_simps)
    qed
  qed
qed

section \<open>Rate control in exact arithmetic\<close>

definition exact :: "int \<Rightarrow> fp_target" where
  "exact u = \<lparr>fp_round = Fin, fp_undefined = u\<rparr>"

lemma exact_round [simp]: "fp_round (exact u) = Fin"
  by (simp add: exact_def)

text \<open>The ratio stays within 300 ppm of one; the carried fraction is one of a frame.\<close>

definition ratio_ok :: "double \<Rightarrow> bool" where
  "ratio_ok x \<longleftrightarrow> (\<exists>r. x = Fin r \<and> \<bar>r - 1\<bar> \<le> 0.0003)"

definition credit_ok :: "double \<Rightarrow> bool" where
  "credit_ok x \<longleftrightarrow> (\<exists>c. x = Fin c \<and> 0 \<le> c \<and> c < 1)"

definition output_ok :: "'k player_output \<Rightarrow> bool" where
  "output_ok p \<longleftrightarrow> ratio_ok (active_ratio p) \<and> credit_ok (resample_credit p) \<and> length (resample_scratch p) = 260"

lemma ideal_frames:
  assumes "\<bar>r - 1\<bar> \<le> (0.0003::real)" and "0 \<le> c" "c < 1" and "n \<le> 128"
  shows "0 \<le> real n * r + c" and "real n * r + c < real n + 2"
proof -
  have "\<bar>real n * (r - 1)\<bar> \<le> 128 * 0.0003" unfolding abs_mult using assms(1,4) by (intro mult_mono) simp_all
  then have "\<bar>real n * (r - 1)\<bar> \<le> 1" by simp
  then have d: "\<bar>real n * r - real n\<bar> \<le> 1" by (simp add: algebra_simps)
  have "\<bar>r - 1\<bar> \<le> 1" using assms(1) by simp
  then have "0 \<le> r" by linarith
  then show "0 \<le> real n * r + c" using assms(2) by simp
  show "real n * r + c < real n + 2" using d assms(3) by linarith
qed

lemma block_frames_exact:
  fixes count :: u32
  assumes "active_ratio p = Fin r" and "\<bar>r - 1\<bar> \<le> 0.0003" and "resample_credit p = Fin c" "0 \<le> c" "c < 1" and "count \<le> 128"
  defines "d \<equiv> real (unat count) * r + c"
  shows "block_frames_out (exact u) p count = (of_nat (nat \<lfloor>d\<rfloor>), Fin (d - real (nat \<lfloor>d\<rfloor>)))" and "nat \<lfloor>d\<rfloor> \<le> unat count + 1"
    and "real (nat \<lfloor>d\<rfloor>) = real_of_int \<lfloor>d\<rfloor>"
proof -
  have n: "unat count \<le> 128" using assms(6) by (simp add: word_le_nat_alt)
  have d: "0 \<le> d" "d < real (unat count) + 2" unfolding d_def using ideal_frames [OF assms(2,4,5) n] by simp_all
  have fl: "0 \<le> \<lfloor>d\<rfloor>" "\<lfloor>d\<rfloor> \<le> int (unat count) + 1" using d by (simp, linarith)
  then show le: "nat \<lfloor>d\<rfloor> \<le> unat count + 1" by linarith
  show re: "real (nat \<lfloor>d\<rfloor>) = real_of_int \<lfloor>d\<rfloor>" using fl(1) by simp
  have "real (unat count) \<le> 128" using n by linarith
  then have small: "d < 4294967296" using d(2) by linarith
  have "word_of_int \<lfloor>d\<rfloor> = (of_nat (nat \<lfloor>d\<rfloor>) :: u32)" using fl(1) by (metis of_int_of_nat_eq nat_0_le)
  then have u: "to_u32 (exact u) (Fin d) = of_nat (nat \<lfloor>d\<rfloor>)"
    using fl(1) d(1) small by (simp add: to_u32_def truncate_real_def)
  have un: "unat (of_nat (nat \<lfloor>d\<rfloor>) :: u32) = nat \<lfloor>d\<rfloor>" using le n by (simp add: unat_of_nat take_bit_nat_eq_self)
  have dd: "unsigned count * r + c = d" "unsigned (of_nat (nat \<lfloor>d\<rfloor>) :: u32) = real (nat \<lfloor>d\<rfloor>)"
    using arg_cong [OF un, of real] by (simp_all add: d_def)
  have "unat (count + 2) = unat count + 2" using n by (simp add: unat_word_ariths)
  then have "\<not> count + 2 < of_nat (nat \<lfloor>d\<rfloor>)" using le un by (simp add: word_less_nat_alt)
  then show "block_frames_out (exact u) p count = (of_nat (nat \<lfloor>d\<rfloor>), Fin (d - real (nat \<lfloor>d\<rfloor>)))"
    using u assms(1,3) dd by (simp add: block_frames_out_def Let_def fsub_def)
qed

lemma length_resample [simp]: "length (the (snd (eaf_sync_resample ub (Some xs) n (Some ys) m nch))) = length ys"
proof -
  have "length (fold (\<lambda>c ys. ys[g c := h c]) cs ys) = length ys" for g h ys and cs :: "nat list" by (intro length_fold) simp
  then show ?thesis by (auto simp: eaf_sync_resample_def Let_def resample_frame_def intro!: length_fold)
qed

lemma resampled_block_ok:
  assumes "output_ok p" and "count \<le> 128" and "resampled_block (exact u) p xs count = (n, out, p')"
  shows "output_ok p'" and "unat n \<le> unat count + 1" and "pl_sink p' = pl_sink p" and "active_ratio p' = active_ratio p"
proof -
  obtain r c where r: "active_ratio p = Fin r" "\<bar>r - 1\<bar> \<le> 0.0003" and c: "resample_credit p = Fin c" "0 \<le> c" "c < 1"
    using assms(1) by (auto simp: output_ok_def ratio_ok_def credit_ok_def)
  let ?d = "real (unat count) * r + c"
  note B = block_frames_exact [OF r c assms(2)]
  have n: "unat count \<le> 128" using assms(2) by (simp add: word_le_nat_alt)
  have frac: "credit_ok (Fin (?d - real (nat \<lfloor>?d\<rfloor>)))" unfolding B(3) credit_ok_def by simp linarith
  have un: "unat (of_nat (nat \<lfloor>?d\<rfloor>) :: u32) = nat \<lfloor>?d\<rfloor>" using B(2) n by (simp add: unat_of_nat take_bit_nat_eq_self)
  show "output_ok p'" "unat n \<le> unat count + 1" "pl_sink p' = pl_sink p" "active_ratio p' = active_ratio p"
    using assms(1,3) B(1) [of u] B(2) frac un by (auto simp: resampled_block_def output_ok_def Let_def split: if_splits)
qed

lemma queue_block_ok:
  assumes "output_ok p" and "count \<le> 128"
  shows "output_ok (snd (snd (queue_block (exact u) p xs count)))" and "pl_sink (snd (snd (queue_block (exact u) p xs count))) = pl_sink p"
    and "active_ratio (snd (snd (queue_block (exact u) p xs count))) = active_ratio p"
    and "unat (fst (snd (queue_block (exact u) p xs count))) \<le> unat count + 1"
proof -
  obtain n out p' where b: "resampled_block (exact u) p xs count = (n, out, p')" by (cases "resampled_block (exact u) p xs count")
  note R = resampled_block_ok [OF assms b]
  obtain m k where "the (pl_sink p') (pl_sink_ctx p') out n = (m, k)" by fastforce
  then show "output_ok (snd (snd (queue_block (exact u) p xs count)))" "pl_sink (snd (snd (queue_block (exact u) p xs count))) = pl_sink p"
    "active_ratio (snd (snd (queue_block (exact u) p xs count))) = active_ratio p" "unat (fst (snd (queue_block (exact u) p xs count))) \<le> unat count + 1"
    using b R by (auto simp: queue_block_def output_ok_def Let_def)
qed

lemma block_count_le: "block_count left \<le> 128"
  by (auto simp: block_count_def)

lemma decode_blocks_ok:
  "output_ok p \<Longrightarrow> output_ok (decode_blocks (exact u) p xs left) \<and> pl_sink (decode_blocks (exact u) p xs left) = pl_sink p"
proof (induction "exact u" p xs left rule: decode_blocks.induct)
  case (1 p xs left)
  note Q = queue_block_ok [OF 1(2) block_count_le [of left], of u xs]
  obtain m n p' where q: "queue_block (exact u) p xs (block_count left) = (m, n, p')" by (cases "queue_block (exact u) p xs (block_count left)")
  have p': "output_ok p'" "pl_sink p' = pl_sink p" using Q q by simp_all
  then have "output_ok (p'\<lparr>pl_frames_dropped := x\<rparr>)" for x by (simp add: output_ok_def)
  then show ?case using 1 p' q by (simp add: decode_blocks.simps [of "exact u" p] Let_def)
qed

lemma pcm_blocks_ok:
  "output_ok p \<Longrightarrow> output_ok (pcm_blocks (exact u) nch bits p data left) \<and> pl_sink (pcm_blocks (exact u) nch bits p data left) = pl_sink p"
proof (induction "exact u" nch bits p data left rule: pcm_blocks.induct)
  case (1 nch bits p data left)
  let ?xs = "stereo_block nch bits data (unat (block_count left))"
  note Q = queue_block_ok [OF 1(2) block_count_le [of left], of u ?xs]
  obtain m n p' where q: "queue_block (exact u) p ?xs (block_count left) = (m, n, p')" by (cases "queue_block (exact u) p ?xs (block_count left)")
  have p': "output_ok p'" "pl_sink p' = pl_sink p" using Q q by simp_all
  then show ?case using 1 q by (simp add: pcm_blocks.simps [of "exact u" nch bits p] Let_def)
qed

section \<open>Invariant\<close>

definition rate_ok :: "('d, 'k) eaf_sendspin_player_t \<Rightarrow> bool" where
  "rate_ok p \<longleftrightarrow> (\<exists>l. l \<le> 300 \<and> controller_ok l (controller p)) \<and> \<bar>rate_ppm p\<bar> \<le> 300 \<and>
     isfinite (target_latency_us p) \<and> isfinite (rate_calibration_sum p)"

definition open_stream_ok :: "int \<Rightarrow> ('d, 'k) eaf_sendspin_player_t \<Rightarrow> bool" where
  "open_stream_ok u p \<longleftrightarrow> compressed p = wk_open (worker p) \<and> (wk_open (worker p) \<longrightarrow> pl_active p \<and> wk_sink (worker p) = decode_sink (exact u)) \<and>
     (pl_active p \<longrightarrow> pl_sink (pl_out p) \<noteq> None \<and> (pl_channels p = 1 \<or> pl_channels p = 2) \<and>
       (compressed p \<or> pl_bits p = 16 \<or> pl_bits p = 24 \<or> pl_bits p = 32))"

definition player_ok :: "int \<Rightarrow> ('d, 'k) eaf_sendspin_player_t \<Rightarrow> bool" where
  "player_ok u p \<longleftrightarrow> output_ok (pl_out p) \<and> rate_ok p \<and> open_stream_ok u p"

lemma ratio_ok_1 [simp]: "ratio_ok (Fin 1)"
  by (simp add: ratio_ok_def)

lemma credit_ok_0 [simp]: "credit_ok (Fin 0)"
  by (simp add: credit_ok_def)

lemma isfinite_Fin: "isfinite x \<longleftrightarrow> (\<exists>v. x = Fin v)"
  by (cases x) (simp_all add: isfinite_def)

lemma rate_ratio_ok:
  assumes "\<bar>n\<bar> \<le> (300::int)"
  shows "ratio_ok (eaf_sync_ppm_to_ratio Fin (Fin (real_of_int n)))"
proof -
  have "\<bar>real_of_int n\<bar> \<le> 300" using assms by linarith
  then have "\<bar>real_of_int n * 0.000001\<bar> \<le> 0.0003" by (simp add: abs_mult)
  then show ?thesis by (simp add: ratio_ok_def eaf_sync_ppm_to_ratio_def)
qed

lemma truncate_bound:
  assumes "- 300 \<le> v" "v \<le> 300"
  shows "\<bar>to_i32 t (Fin v)\<bar> \<le> 300"
proof -
  have "\<bar>truncate_real v\<bar> \<le> 300" using assms by (auto simp: truncate_real_def) linarith+
  moreover from this have "is_i32 (truncate_real v)" by (auto simp: is_i32_def abs_le_iff)
  ultimately show ?thesis by (simp add: to_i32_def)
qed

lemma isfinite_Fin_value [simp]: "isfinite (Fin v)"
  by (simp add: isfinite_def)

lemma calibrate_ok: "rate_ok p \<Longrightarrow> rate_ok (calibrate (exact u) p)"
  by (cases "rate_calibration_sum p") (auto simp: rate_ok_def calibrate_def Let_def isfinite_def)

lemma latency_error_finite: "isfinite (target_latency_us p) \<Longrightarrow> isfinite (latency_error (exact u) p)"
  by (cases "target_latency_us p") (auto simp: latency_error_def Let_def isfinite_def fsub_def)

lemma controlled_ok:
  assumes "rate_ok p" and "isfinite dt" and "eaf_sync_controller_update Fin (controller p) (latency_error (exact u) p) dt = (ppm, c)"
  shows "rate_ok (p\<lparr>controller := c, rate_ppm := to_i32 t ppm\<rparr>)"
proof -
  obtain l where l: "l \<le> 300" "controller_ok l (controller p)" and p: "isfinite (target_latency_us p)" "isfinite (rate_calibration_sum p)"
    using assms(1) by (auto simp: rate_ok_def)
  note C = controller_update_ok [OF l(2) latency_error_finite [OF p(1)] assms(2) _ assms(3)]
  have "controller_ok l c" "in_limit l ppm" using C by simp_all
  then have "\<bar>to_i32 t ppm\<bar> \<le> 300" using l(1) truncate_bound [of _ t] by (auto simp: in_limit_Fin)
  then show ?thesis using \<open>controller_ok l c\<close> l(1) p by (auto simp: rate_ok_def)
qed

text \<open>A rate update changes the rate control only.\<close>

lemma update_rate_ok:
  assumes "rate_ok p" and "update_rate (exact u) hal p w = (r, p', w')"
  shows "ratio_ok r \<and> rate_ok p' \<and> pl_out p' = pl_out p \<and> worker p' = worker p \<and> pl_active p' = pl_active p \<and>
    compressed p' = compressed p \<and> pl_channels p' = pl_channels p \<and> pl_bits p' = pl_bits p"
proof -
  obtain time w1 where t: "hal_monotonic_time_us hal w = (time, w1)" by fastforce
  let ?p = "p\<lparr>rate_update_us := i64 (uint time)\<rparr>"
  define dt where "dt = (if rate_update_us p \<noteq> 0 then fdiv Fin (Fin (real_of_int (i64 (uint time) - rate_update_us p))) (Fin 1000000) else Fin 0)"
  have dt: "isfinite dt" by (simp add: dt_def)
  have p: "rate_ok ?p" using assms(1) by (simp add: rate_ok_def)
  obtain ppm c where c: "eaf_sync_controller_update Fin (controller ?p) (latency_error (exact u) ?p) dt = (ppm, c)" by fastforce
  let ?q = "?p\<lparr>controller := c, rate_ppm := to_i32 (exact u) ppm\<rparr>"
  have r: "ratio_ok (eaf_sync_ppm_to_ratio Fin (Fin (real_of_int (rate_ppm x))))" if "rate_ok x" for x :: "('a, 'b) eaf_sendspin_player_t"
    using that by (intro rate_ratio_ok) (simp add: rate_ok_def)
  have "(r, p', w') = (if rate_update_us p \<noteq> 0 \<and> i64 (uint time) - rate_update_us p < 100000
        then (eaf_sync_ppm_to_ratio Fin (Fin (real_of_int (rate_ppm p))), p, w1)
        else if fle dt (Fin 0) then (eaf_sync_ppm_to_ratio Fin (Fin (real_of_int (rate_ppm ?p))), ?p, w1)
        else if rate_auto_target ?p then (Fin 1, calibrate (exact u) ?p, w1)
        else (eaf_sync_ppm_to_ratio Fin (Fin (real_of_int (rate_ppm ?q))), ?q, w1))"
    using assms(2) unfolding update_rate_def Let_def t prod.case exact_round dt_def [symmetric] c by (rule sym)
  then have "(r, p', w') = (eaf_sync_ppm_to_ratio Fin (Fin (real_of_int (rate_ppm p))), p, w1) \<or>
      (r, p', w') = (eaf_sync_ppm_to_ratio Fin (Fin (real_of_int (rate_ppm ?p))), ?p, w1) \<or>
      (r, p', w') = (Fin 1, calibrate (exact u) ?p, w1) \<or>
      (r, p', w') = (eaf_sync_ppm_to_ratio Fin (Fin (real_of_int (rate_ppm ?q))), ?q, w1)"
    by presburger
  moreover have "pl_out (calibrate (exact u) ?p) = pl_out p" "worker (calibrate (exact u) ?p) = worker p" "pl_active (calibrate (exact u) ?p) = pl_active p"
    "compressed (calibrate (exact u) ?p) = compressed p" "pl_channels (calibrate (exact u) ?p) = pl_channels p" "pl_bits (calibrate (exact u) ?p) = pl_bits p"
    by (simp_all add: calibrate_def Let_def)
  ultimately show ?thesis
    using r [OF assms(1)] r [OF p] r [OF controlled_ok [OF p dt c]] controlled_ok [OF p dt c] calibrate_ok [OF p] assms(1) p
    by (elim disjE) simp_all
qed

subsection \<open>The compressed path\<close>

text \<open>What a call of the worker keeps: open or closed, its callback, and the output invariant.\<close>

definition worker_keeps :: "int \<Rightarrow> ('d, 'k player_output) eaf_decode_worker_t \<Rightarrow> ('d, 'k player_output) eaf_decode_worker_t \<Rightarrow> bool" where
  "worker_keeps u w w' \<longleftrightarrow> wk_open w' = wk_open w \<and> wk_sink w' = wk_sink w \<and>
     (wk_sink w = decode_sink (exact u) \<longrightarrow> output_ok (wk_sink_ctx w) \<longrightarrow>
       output_ok (wk_sink_ctx w') \<and> pl_sink (wk_sink_ctx w') = pl_sink (wk_sink_ctx w))"

lemma drain_keeps: "worker_keeps u w (snd (drain w))"
  by (auto simp: worker_keeps_def drain_def Let_def decode_sink_def decode_blocks_ok split: prod.splits)

lemma worker_step_keeps: "worker_keeps u w (snd (eaf_decode_worker_step w))"
proof -
  obtain rc frames fmt buf dec where "eaf_decoder_pull (wk_decoder w) (Some (scratch w)) (scratch_frames w) zero_format = (rc, frames, fmt, buf, dec)"
    by (metis surj_pair)
  then show ?thesis
    using drain_keeps [of u w] drain_keeps [of u "w\<lparr>wk_decoder := dec, scratch := the buf, pending := frames, sent := 0\<rparr>"]
    by (auto simp: eaf_decode_worker_step_def worker_keeps_def Let_def)
qed

lemma push_keeps: "worker_keeps u w (snd (push_bytes data w))"
  by (auto simp: push_bytes_def eaf_decode_worker_push_def worker_keeps_def Let_def split: prod.splits)

text \<open>A player with an open worker, and what a call through \<open>with_worker\<close> keeps of it.\<close>

definition decoding_ok :: "int \<Rightarrow> ('d, 'k) eaf_sendspin_player_t \<Rightarrow> ('d, 'k) eaf_sendspin_player_t \<Rightarrow> bool" where
  "decoding_ok u p q \<longleftrightarrow> (\<exists>w out. q = p\<lparr>worker := w, pl_out := out\<rparr> \<and> wk_open w \<and> wk_sink w = decode_sink (exact u) \<and> output_ok out \<and>
     pl_sink out = pl_sink (pl_out p))"

lemma with_worker_keeps:
  assumes "decoding_ok u p q" and "\<And>w. worker_keeps u w (snd (f w))"
  shows "decoding_ok u p (snd (with_worker f q))"
proof -
  obtain w out where q: "q = p\<lparr>worker := w, pl_out := out\<rparr>" "wk_open w" "wk_sink w = decode_sink (exact u)" "output_ok out"
    "pl_sink out = pl_sink (pl_out p)" using assms(1) by (auto simp: decoding_ok_def)
  obtain r w' where f: "f (w\<lparr>wk_sink_ctx := out\<rparr>) = (r, w')" by fastforce
  have "worker_keeps u (w\<lparr>wk_sink_ctx := out\<rparr>) w'" using assms(2) [of "w\<lparr>wk_sink_ctx := out\<rparr>"] f by simp
  then have "wk_open w'" "wk_sink w' = decode_sink (exact u)" "output_ok (wk_sink_ctx w')" "pl_sink (wk_sink_ctx w') = pl_sink (pl_out p)"
    using q by (simp_all add: worker_keeps_def)
  then show ?thesis unfolding decoding_ok_def using f q(1)
    by (intro exI [of _ w'] exI [of _ "wk_sink_ctx w'"]) (simp add: with_worker_def)
qed

lemma push_loop_ok: "decoding_ok u p q \<Longrightarrow> decoding_ok u p (snd (push_loop n q data))"
proof (induction n arbitrary: q data)
  case (Suc n)
  obtain rc q1 where s: "with_worker eaf_decode_worker_step q = (rc, q1)" by fastforce
  obtain rc2 k q2 where b: "with_worker (push_bytes data) q = ((rc2, k), q2)" by (metis surj_pair)
  obtain rc3 q3 where s3: "with_worker eaf_decode_worker_step q2 = (rc3, q3)" by fastforce
  have "decoding_ok u p q1" using with_worker_keeps [OF Suc.prems worker_step_keeps] s by (metis snd_conv)
  moreover have q2: "decoding_ok u p q2" using with_worker_keeps [OF Suc.prems push_keeps [of u _ data]] b by (metis snd_conv)
  moreover have "decoding_ok u p q3" using with_worker_keeps [OF q2 worker_step_keeps] s3 by (metis snd_conv)
  ultimately show ?case using Suc s b s3 by (auto simp: Let_def)
qed simp

lemma drain_loop_ok: "decoding_ok u p q \<Longrightarrow> decoding_ok u p (snd (drain_loop n q))"
proof (induction n q rule: drain_loop.induct)
  case (2 n q)
  obtain rc q1 where s: "with_worker eaf_decode_worker_step q = (rc, q1)" by fastforce
  have "decoding_ok u p q1" using with_worker_keeps [OF 2(2) worker_step_keeps] s by (metis snd_conv)
  then show ?case using 2 s by (auto simp: Let_def)
qed simp

lemma write_compressed_ok: "decoding_ok u p q \<Longrightarrow> decoding_ok u p (snd (write_compressed q data))"
  using push_loop_ok [of u p q 64 data] drain_loop_ok [of u p "snd (push_loop 64 q data)" 64]
  by (auto simp: write_compressed_def Let_def split: prod.splits if_splits)

subsection \<open>Operations\<close>

lemma write_audio_ok:
  assumes "player_ok u p" and "pl_active p"
  shows "player_ok u (snd (write_audio (exact u) p data))"
proof (cases "compressed p")
  case True
  have "p = p\<lparr>worker := worker p, pl_out := pl_out p\<rparr>" by simp
  then have "decoding_ok u p p" using assms True unfolding decoding_ok_def player_ok_def open_stream_ok_def by blast
  then have "decoding_ok u p (snd (write_compressed p data))" by (rule write_compressed_ok)
  then show ?thesis using assms True
    by (auto simp: write_audio_def decoding_ok_def count_chunk_def player_ok_def rate_ok_def open_stream_ok_def split: prod.splits)
next
  case False
  have "output_ok (pl_out p)" using assms(1) by (simp add: player_ok_def)
  note pcm_blocks_ok [OF this, of u "pl_channels p" "pl_bits p" data]
  then show ?thesis using assms False
    by (auto simp: write_audio_def count_chunk_def player_ok_def rate_ok_def open_stream_ok_def Let_def)
qed

lemma write_ok:
  assumes "player_ok u p"
  shows "player_ok u (fst (snd (eaf_sendspin_player_write (exact u) hal p tf timestamp pcm w)))"
proof (cases "pcm = None \<or> \<not> pl_active p")
  case True
  then show ?thesis using assms by (cases pcm) (simp_all add: eaf_sendspin_player_write_def)
next
  case False
  then obtain data where data: "pcm = Some data" and act: "pl_active p" by auto
  let ?p = "p\<lparr>pl_synchronized := eaf_sendspin_time_synchronized (Some tf)\<rparr>"
  obtain late p1 w1 where m: "(if pl_synchronized ?p then measure_latency (exact u) hal ?p tf timestamp w else (False, ?p, w)) = (late, p1, w1)"
    by (metis surj_pair)
  have "p1 = ?p \<or> (\<exists>x. p1 = ?p\<lparr>last_latency_us := x\<rparr>)"
    using m by (auto simp: measure_latency_def Let_def split: if_splits prod.splits)
  then have "player_ok u p1 = player_ok u p" "pl_active p1 = pl_active p"
    by (elim disjE exE; simp add: player_ok_def rate_ok_def open_stream_ok_def)+
  then have p1: "player_ok u p1" "pl_active p1" using assms act by simp_all
  obtain ratio p2 w2 where r: "(if rate_control p1 \<and> pl_synchronized p1 then update_rate (exact u) hal p1 w1 else (Fin 1, p1, w1)) = (ratio, p2, w2)"
    by (metis surj_pair)
  have "ratio_ok ratio \<and> rate_ok p2 \<and> pl_out p2 = pl_out p1 \<and> worker p2 = worker p1 \<and> pl_active p2 = pl_active p1 \<and>
    compressed p2 = compressed p1 \<and> pl_channels p2 = pl_channels p1 \<and> pl_bits p2 = pl_bits p1"
  proof (cases "rate_control p1 \<and> pl_synchronized p1")
    case True
    then show ?thesis using r p1 by (intro update_rate_ok) (simp_all add: player_ok_def)
  qed (use r p1 in \<open>auto simp: player_ok_def\<close>)
  then have "player_ok u (p2\<lparr>pl_out := (pl_out p2)\<lparr>active_ratio := ratio\<rparr>\<rparr>)" "pl_active (p2\<lparr>pl_out := (pl_out p2)\<lparr>active_ratio := ratio\<rparr>\<rparr>)"
    using p1 by (auto simp: player_ok_def open_stream_ok_def output_ok_def rate_ok_def)
  then have W: "player_ok u (snd (write_audio (exact u) (p2\<lparr>pl_out := (pl_out p2)\<lparr>active_ratio := ratio\<rparr>\<rparr>) data))" by (rule write_audio_ok)
  have D: "player_ok u (drop_chunk p1 n)" for n
    using p1 by (auto simp: drop_chunk_def count_chunk_def player_ok_def output_ok_def rate_ok_def open_stream_ok_def)
  have "eaf_sendspin_player_write (exact u) hal p tf timestamp pcm w =
      (if late then (EAF_OK, drop_chunk p1 (length data), w1)
       else let (rc, q) = write_audio (exact u) (p2\<lparr>pl_out := (pl_out p2)\<lparr>active_ratio := ratio\<rparr>\<rparr>) data in (rc, q, w2))"
    using data act m r unfolding eaf_sendspin_player_write_def by (simp add: Let_def)
  then show ?thesis using W D by (simp add: case_prod_beta Let_def)
qed

lemma close_worker_ok:
  assumes "player_ok u p" and "\<not> pl_active p"
  shows "close_worker p = p\<lparr>worker := (worker p)\<lparr>pending := 0, sent := 0\<rparr>\<rparr>"
  using assms by (auto simp: player_ok_def open_stream_ok_def close_worker_def eaf_decode_worker_close_def Let_def)

lemma stereo_format_valid: "sample_rate f \<noteq> 0 \<Longrightarrow> num_channels f = 2 \<Longrightarrow> channel_mask f = 3 \<Longrightarrow> eaf_format_valid f"
proof -
  have "count_mask 3 0 = 2" by (simp add: count_mask.simps [of 3] count_mask.simps [of 1] count_mask.simps [of 0] drop_bit_eq_div)
  then show "sample_rate f \<noteq> 0 \<Longrightarrow> num_channels f = 2 \<Longrightarrow> channel_mask f = 3 \<Longrightarrow> eaf_format_valid f"
    by (simp add: eaf_format_valid_def)
qed

lemma start_stream_ok:
  assumes "output_ok (pl_out p)" and "rate_ok p"
  shows "output_ok (pl_out (start_stream p start))" and "rate_ok (start_stream p start)"
proof -
  obtain l where l: "l \<le> 300" "controller_ok l (controller p)" using assms(2) by (auto simp: rate_ok_def)
  have "controller_ok l (eaf_sync_controller_reset (controller p))"
    using l by (simp add: controller_ok_def eaf_sync_controller_reset_def in_limit_def)
  then show "rate_ok (start_stream p start)" using l assms(2) by (auto simp: start_stream_def rate_ok_def)
  show "output_ok (pl_out (start_stream p start))" using assms(1) by (simp add: start_stream_def output_ok_def)
qed

lemma open_worker_ok:
  assumes "output_ok (pl_out p)" and "rate_ok p" and "stream_supported p start" and "ss_codec start \<noteq> EAF_SENDPIN_CODEC_PCM"
    and "sample_rate (pl_format p) \<noteq> 0" "num_channels (pl_format p) = 2" "channel_mask (pl_format p) = 3"
    and "pl_active p" "\<not> compressed p" "pl_sink (pl_out p) \<noteq> None" "pl_channels p = 1 \<or> pl_channels p = 2"
  shows "player_ok u (snd (open_worker (exact u) p start))"
proof -
  let ?d = "pl_decoder p" and ?a = "\<lparr>dec_ops = bound_ops (pl_decoder p), dec_ctx = bound_ctx (pl_decoder p)\<rparr>"
  obtain ops scr where d: "bound_ops ?d = Some ops" "bound_scratch ?d = Some scr" "bound_frames ?d \<noteq> 0"
    using assms(3,4) by (auto simp: stream_supported_def)
  have "eaf_format_valid (pl_format p)" using assms(5-7) by (rule stereo_format_valid)
  then obtain w where w: "eaf_decode_worker_init (worker p) ?a (Some (decode_sink (exact u))) (pl_out p) (bound_scratch ?d) (bound_frames ?d)
      (Some (pl_format p)) = (EAF_OK, w)" "wk_sink w = decode_sink (exact u)" "\<not> wk_open w"
    using d by (simp add: eaf_decode_worker_init_def)
  obtain rc w' where o: "eaf_decode_worker_open w (Some (start_config start)) = (rc, w')" by fastforce
  then have w': "wk_sink w' = decode_sink (exact u)" "wk_open w' = (rc = EAF_OK)"
    using w(2,3) by (auto simp: eaf_decode_worker_open_def Let_def split: prod.splits if_splits)
  have "open_worker (exact u) p start =
      (if rc \<noteq> EAF_OK then (rc, (give_back w' p)\<lparr>worker := w', pl_active := False\<rparr>) else (EAF_OK, p\<lparr>worker := w', compressed := True\<rparr>))"
    using w(1) o by (simp add: open_worker_def Let_def)
  then show ?thesis using assms w'
    by (auto simp: player_ok_def rate_ok_def open_stream_ok_def give_back_def)
qed

lemma begin_ok:
  assumes "player_ok u p"
  shows "player_ok u (snd (eaf_sendspin_player_begin (exact u) p tf start))"
proof (cases "\<exists>st. start = Some st \<and> tf \<noteq> None \<and> pl_sink (pl_out p) \<noteq> None \<and> \<not> pl_active p \<and> (ss_channels st = 1 \<or> ss_channels st = 2) \<and>
    ss_sample_rate st \<noteq> 0")
  case False
  then show ?thesis using assms by (cases start) (auto simp: eaf_sendspin_player_begin_def)
next
  case True
  then obtain st where st: "start = Some st" "tf \<noteq> None" "pl_sink (pl_out p) \<noteq> None" "\<not> pl_active p" "ss_channels st = 1 \<or> ss_channels st = 2"
    "ss_sample_rate st \<noteq> 0" by blast
  let ?p = "(close_worker p)\<lparr>pl_out := (pl_out (close_worker p))\<lparr>active_ratio := Fin 1\<rparr>\<rparr>"
  note C = close_worker_ok [OF assms st(4)]
  have p: "player_ok u ?p" "\<not> pl_active ?p" "\<not> wk_open (worker ?p)" "\<not> compressed ?p" "pl_sink (pl_out ?p) = pl_sink (pl_out p)"
    using assms st(4) by (auto simp: C player_ok_def rate_ok_def open_stream_ok_def output_ok_def)
  let ?q = "start_stream ?p st"
  have q: "output_ok (pl_out ?q)" "rate_ok ?q" using start_stream_ok [of ?p st] p(1) by (simp_all add: player_ok_def)
  have f: "sample_rate (pl_format ?q) \<noteq> 0" "num_channels (pl_format ?q) = 2" "channel_mask (pl_format ?q) = 3" "pl_active ?q" "\<not> compressed ?q"
    "pl_sink (pl_out ?q) \<noteq> None" "pl_channels ?q = 1 \<or> pl_channels ?q = 2" "worker ?q = worker ?p" "pl_decoder ?q = pl_decoder ?p"
    using st p by (auto simp: start_stream_def)
  have eq: "eaf_sendspin_player_begin (exact u) p tf start =
      (if \<not> stream_supported ?p st then (EAF_UNSUPPORTED, ?p)
       else if ss_codec st \<noteq> EAF_SENDPIN_CODEC_PCM then open_worker (exact u) ?q st else (EAF_OK, ?q))"
    using st by (auto simp: eaf_sendspin_player_begin_def Let_def)
  have O: "player_ok u (snd (open_worker (exact u) ?q st))" if "stream_supported ?p st" "ss_codec st \<noteq> EAF_SENDPIN_CODEC_PCM"
    using that f by (intro open_worker_ok q) (auto simp: stream_supported_def)
  have P: "player_ok u ?q" if "stream_supported ?p st" "ss_codec st = EAF_SENDPIN_CODEC_PCM"
  proof -
    have "pl_bits ?q = 16 \<or> pl_bits ?q = 24 \<or> pl_bits ?q = 32" using that by (auto simp: stream_supported_def start_stream_def)
    then show ?thesis using q f p(3) by (simp add: player_ok_def open_stream_ok_def)
  qed
  show ?thesis using p(1) O P by (simp add: eq)
qed

lemma finish_ok: "player_ok u p \<Longrightarrow> player_ok u (eaf_sendspin_player_finish p)"
  by (auto simp: player_ok_def eaf_sendspin_player_finish_def close_worker_def eaf_decode_worker_close_def give_back_def rate_ok_def open_stream_ok_def Let_def)

lemma set_rate_ok: "player_ok u p \<Longrightarrow> player_ok u (eaf_sendspin_player_set_rate_control (exact u) p (Fin x))"
  by (auto simp: player_ok_def eaf_sendspin_player_set_rate_control_def rate_ok_def open_stream_ok_def output_ok_def Let_def controller_ok_def
      eaf_sync_controller_init_def in_limit_def intro!: exI [of _ 300])

lemma init_player_ok: "player_ok u (eaf_sendspin_player_init snk ctx)"
  by (auto simp: player_ok_def eaf_sendspin_player_init_def zero_output_def zero_worker_def rate_ok_def open_stream_ok_def output_ok_def controller_ok_def
      eaf_sync_controller_init_def in_limit_def intro!: exI [of _ 0])

section \<open>Runs\<close>

text \<open>The calls of an owner, who also sets the field \<open>drop_late\<close>.\<close>

datatype 'd player_op =
    Set_Decoder "'d eaf_sendspin_decoder_t option" | Set_Rate real | Set_Drop_Late bool
  | Begin "eaf_sendspin_time_filter_t option" "eaf_sendspin_stream_start_t option"
  | Write eaf_sendspin_time_filter_t int "u8 list option" | Finish

fun player_step ::
  "fp_target \<Rightarrow> 'w hal_clock \<Rightarrow> 'd player_op \<Rightarrow> ('d, 'k) eaf_sendspin_player_t \<times> 'w \<Rightarrow> ('d, 'k) eaf_sendspin_player_t \<times> 'w" where
  "player_step t hal (Set_Decoder d) (p, w) = (eaf_sendspin_player_set_decoder p d, w)"
| "player_step t hal (Set_Rate x) (p, w) = (eaf_sendspin_player_set_rate_control t p (Fin x), w)"
| "player_step t hal (Set_Drop_Late b) (p, w) = (p\<lparr>drop_late := b\<rparr>, w)"
| "player_step t hal (Begin tf start) (p, w) = (snd (eaf_sendspin_player_begin t p tf start), w)"
| "player_step t hal (Write tf ts data) (p, w) = snd (eaf_sendspin_player_write t hal p tf ts data w)"
| "player_step t hal Finish (p, w) = (eaf_sendspin_player_finish p, w)"

lemma player_step_ok: "player_ok u p \<Longrightarrow> player_ok u (fst (player_step (exact u) hal op (p, w)))"
proof (cases op)
  case (Set_Decoder d)
  assume "player_ok u p"
  then show ?thesis using Set_Decoder
    by (cases d) (auto simp: eaf_sendspin_player_set_decoder_def player_ok_def rate_ok_def open_stream_ok_def)
next
  case (Set_Drop_Late b)
  assume "player_ok u p"
  then show ?thesis using Set_Drop_Late by (auto simp: player_ok_def rate_ok_def open_stream_ok_def)
qed (simp_all add: begin_ok write_ok finish_ok set_rate_ok)

text \<open>The play time of a chunk, by the clock of the client, has passed.\<close>

definition chunk_late :: "fp_target \<Rightarrow> 'w hal_clock \<Rightarrow> eaf_sendspin_time_filter_t \<Rightarrow> int \<Rightarrow> 'w \<Rightarrow> bool" where
  "chunk_late t hal tf timestamp w \<longleftrightarrow> eaf_sendspin_time_synchronized (Some tf) \<and>
     (case eaf_sendspin_compute_client_time (fp_round t) (Some tf) timestamp of Some x \<Rightarrow> x | None \<Rightarrow> i64 (fp_undefined t))
       < i64 (uint (fst (hal_monotonic_time_us hal w)))"

text \<open>Without rate control, a chunk that is not dropped for being late is converted at the ratio one.\<close>

lemma write_unrated:
  assumes "pl_active p" "\<not> rate_control p" "\<not> (drop_late p \<and> chunk_late t hal tf timestamp w)"
  shows "\<exists>b x w'. eaf_sendspin_player_write t hal p tf timestamp (Some data) w =
    (let (rc, q) = write_audio t (p\<lparr>pl_synchronized := b, last_latency_us := x, pl_out := (pl_out p)\<lparr>active_ratio := Fin 1\<rparr>\<rparr>) data in (rc, q, w'))"
proof (cases "eaf_sendspin_time_synchronized (Some tf)")
  case True
  obtain time w1 where t: "hal_monotonic_time_us hal w = (time, w1)" by fastforce
  show ?thesis using assms True t
    by (intro exI [of _ True] exI [of _ "last_latency_us (fst (snd (measure_latency t hal p tf timestamp w)))"] exI [of _ w1])
      (auto simp: eaf_sendspin_player_write_def measure_latency_def chunk_late_def Let_def)
next
  case False
  have "p\<lparr>last_latency_us := last_latency_us p\<rparr> = p" by simp
  then show ?thesis using assms False
    by (intro exI [of _ False] exI [of _ "last_latency_us p"] exI [of _ w]) (simp add: eaf_sendspin_player_write_def Let_def)
qed

lemma write_late:
  assumes "pl_active p" "drop_late p" "chunk_late t hal tf timestamp w"
  shows "\<exists>x w'. eaf_sendspin_player_write t hal p tf timestamp (Some data) w =
    (EAF_OK, drop_chunk (p\<lparr>pl_synchronized := True, last_latency_us := x\<rparr>) (length data), w')"
proof -
  obtain time w1 where t: "hal_monotonic_time_us hal w = (time, w1)" by fastforce
  show ?thesis using assms t
    by (intro exI [of _ "last_latency_us (fst (snd (measure_latency t hal p tf timestamp w)))"] exI [of _ w1])
      (simp add: eaf_sendspin_player_write_def measure_latency_def chunk_late_def Let_def)
qed

text \<open>The blocks of a stream at one ratio, and the frames produced for each.\<close>

fun play_blocks :: "fp_target \<Rightarrow> 'k player_output \<Rightarrow> (int list \<times> u32) list \<Rightarrow> u32 list \<times> 'k player_output" where
  "play_blocks t p [] = ([], p)"
| "play_blocks t p ((xs, count) # bs) =
     (let (written, produced, p) = queue_block t p xs count; (ns, p) = play_blocks t p bs in (produced # ns, p))"

end
