(* ===== verification/Sendspin_Player_Props.thy ===== *)
theory Sendspin_Player_Props
  imports Sendspin_Player
begin

text \<open>
  The properties of the Sendspin player: its invariant, what reaches the sink, and how the resampling tracks the rate.
\<close>

section \<open>Properties\<close>

text \<open>
  C17: In exact arithmetic a player keeps its invariant through every sequence of calls, for any decoder, sink, clock and time filter: the worker is
  open exactly while a compressed stream is active and writes to the player's own callback; an active stream has one or two channels and a supported
  sample size; the correction never exceeds 300 ppm, the resampling scratch is never outgrown, and the carried fraction stays in \<open>[0, 1)\<close>.
\<close>

theorem player_invariant:
  "player_ok u (fst (fold (player_step (exact u) hal) ops (eaf_sendspin_player_init snk ctx, w)))"
proof -
  have "player_ok u p \<Longrightarrow> player_ok u (fst (fold (player_step (exact u) hal) ops (p, w)))" for p and w
  proof (induction ops arbitrary: p w)
    case (Cons op ops)
    then show ?case using player_step_ok [of u p hal op w] by (cases "player_step (exact u) hal op (p, w)") simp
  qed simp
  from this [OF init_player_ok] show ?thesis .
qed

text \<open>
  C8: Without rate control, a chunk of PCM reaches the sink as the reference decoder reads it: of its whole frames the sink
  receives the first \<open>n\<close>, as stereo samples, in order and each once, where \<open>n\<close> is what the sink accepts up to the first
  block it does not take whole. The written frames are counted exactly; the dropped ones only up to the end of that block. Only with \<open>drop_late\<close> set
  is a chunk whose play time has passed kept from the sink, and then all its frames count as dropped; with \<open>drop_late\<close> clear, as it is after
  \<open>eaf_sendspin_player_init\<close>, a late chunk is played like any other.
\<close>

theorem player_pcm_delivered:
  assumes "pcm_sink snk ok" "ok k" and "pl_active p" "\<not> compressed p" "\<not> rate_control p"
    and "pl_sink (pl_out p) = Some (logged_sink 2 snk)" "pl_sink_ctx (pl_out p) = (k, old)"
    and "pl_bits p = 16 \<or> pl_bits p = 24 \<or> pl_bits p = 32" "pl_channels p = 1 \<or> pl_channels p = 2"
    and "frames = length data div player_frame_bytes p" "frames < 2 ^ 32" "0 < frames"
  shows "\<exists>p' w' n k'. eaf_sendspin_player_write t hal p tf timestamp (Some data) w = (EAF_OK, p', w') \<and> n \<le> frames \<and>
    pl_sink_ctx (pl_out p') = (k', old @ take (2 * n) (decode_frames (unat (pl_bits p) div 8) (unat (pl_channels p)) 2 data frames)) \<and>
    pl_frames_written (pl_out p') = pl_frames_written (pl_out p) + of_nat n \<and>
    (if drop_late p \<and> chunk_late t hal tf timestamp w
     then n = 0 \<and> k' = k \<and> pl_frames_dropped (pl_out p') = pl_frames_dropped (pl_out p) + of_nat frames
     else pl_frames_dropped (pl_out p') = pl_frames_dropped (pl_out p) + of_nat (counted_drop n frames)) \<and>
    chunks p' = chunks p + 1"
proof (cases "drop_late p \<and> chunk_late t hal tf timestamp w")
  case True
  obtain x w1 where W: "eaf_sendspin_player_write t hal p tf timestamp (Some data) w =
      (EAF_OK, drop_chunk (p\<lparr>pl_synchronized := True, last_latency_us := x\<rparr>) (length data), w1)"
    using write_late [OF assms(3), of t hal tf timestamp w data] True by blast
  have "player_frame_bytes p \<noteq> 0" using assms(8,9) by (auto simp: player_frame_bytes_def)
  moreover have "player_frame_bytes (p\<lparr>pl_synchronized := True, last_latency_us := x\<rparr>) = player_frame_bytes p" by (simp add: player_frame_bytes_def)
  ultimately show ?thesis using W True assms(4,7,10)
    by (intro exI [of _ "drop_chunk (p\<lparr>pl_synchronized := True, last_latency_us := x\<rparr>) (length data)"] exI [of _ w1] exI [of _ 0] exI [of _ k])
      (simp add: drop_chunk_def count_chunk_def)
next
  case False
  let ?fb = "player_frame_bytes p"
  obtain b x w1 where W: "eaf_sendspin_player_write t hal p tf timestamp (Some data) w =
      (let (rc, q) = write_audio t (p\<lparr>pl_synchronized := b, last_latency_us := x, pl_out := (pl_out p)\<lparr>active_ratio := Fin 1\<rparr>\<rparr>) data in (rc, q, w1))"
    using write_unrated [OF assms(3,5) False, of data] by blast
  let ?q = "p\<lparr>pl_synchronized := b, last_latency_us := x, pl_out := (pl_out p)\<lparr>active_ratio := Fin 1\<rparr>\<rparr>"
  have left: "unat (of_nat frames :: u32) = frames" using assms(11) by (simp add: unat_of_nat take_bit_nat_eq_self)
  have "frames * ?fb \<le> length data" using assms(10) by (simp add: div_times_less_eq_dividend)
  then have "unat (of_nat frames :: u32) * (unat (pl_channels p) * (unat (pl_bits p) div 8)) \<le> length data" using left by (simp add: player_frame_bytes_def)
  then obtain n k' where n: "n \<le> frames" and B: "pcm_blocks t (pl_channels p) (pl_bits p) ((pl_out p)\<lparr>active_ratio := Fin 1\<rparr>) data (of_nat frames) =
      ((pl_out p)\<lparr>active_ratio := Fin 1, pl_sink_ctx := (k', old @ take (2 * n) (decode_frames (unat (pl_bits p) div 8) (unat (pl_channels p)) 2 data frames)),
        pl_frames_written := pl_frames_written (pl_out p) + of_nat n, pl_frames_dropped := pl_frames_dropped (pl_out p) + of_nat (counted_drop n frames)\<rparr>)"
    using pcm_blocks_delivered [OF assms(1) _ _ assms(8,9), of "(pl_out p)\<lparr>active_ratio := Fin 1\<rparr>" "of_nat frames" data k old t] assms(2,6,7) left
    by auto
  have fb: "player_frame_bytes ?q = ?fb" by (simp add: player_frame_bytes_def)
  have "\<not> length data < ?fb" using assms(10,12) by (auto simp: div_less)
  then have A: "write_audio t ?q data = (EAF_OK, count_chunk (?q\<lparr>pl_out := pcm_blocks t (pl_channels p) (pl_bits p)
      ((pl_out p)\<lparr>active_ratio := Fin 1\<rparr>) data (of_nat frames)\<rparr>))"
    using assms(4,10) fb by (simp add: write_audio_def Let_def)
  have "eaf_sendspin_player_write t hal p tf timestamp (Some data) w = (EAF_OK, snd (write_audio t ?q data), w1)"
    unfolding W A by simp
  then show ?thesis using A B n False
    by (intro exI [of _ "snd (write_audio t ?q data)"] exI [of _ w1] exI [of _ n] exI [of _ k']) (auto simp: count_chunk_def)
qed

text \<open>A sink that takes at most \<open>k\<close> more frames, and a clock that stands still.\<close>

definition room_sink :: "nat eaf_pcm_write_fn" where
  "room_sink k xs n = (if unat n \<le> k then (n, k - unat n) else (of_nat k, 0))"

lemma room_sink: "pcm_sink room_sink (\<lambda>_. True)"
  by unfold_locales (auto simp: room_sink_def word_le_nat_alt unat_of_nat take_bit_nat_eq_self split: if_splits
      intro: order_trans [OF take_bit_nat_less_eq_self])

definition pcm_player :: "nat \<Rightarrow> (unit, nat \<times> int list) eaf_sendspin_player_t" where
  "pcm_player room = (eaf_sendspin_player_init (Some (logged_sink 2 room_sink)) (room, []))\<lparr>pl_active := True, pl_channels := 1, pl_bits := 16\<rparr>"

definition idle_filter :: eaf_sendspin_time_filter_t where
  "idle_filter = eaf_sendspin_time_filter_init (Fin 0) settled_filter"

lemma pcm_player_fields [simp]:
  "pl_active (pcm_player n)" "\<not> compressed (pcm_player n)" "\<not> rate_control (pcm_player n)" "\<not> drop_late (pcm_player n)"
  "pl_sink (pl_out (pcm_player n)) = Some (logged_sink 2 room_sink)" "pl_sink_ctx (pl_out (pcm_player n)) = (n, [])" "pl_bits (pcm_player n) = 16"
  "pl_channels (pcm_player n) = 1" "player_frame_bytes (pcm_player n) = 2" "pl_frames_dropped (pl_out (pcm_player n)) = 0"
  by (simp_all add: pcm_player_def eaf_sendspin_player_init_def zero_output_def player_frame_bytes_def)

theorem player_pcm_delivered_witness:
  "\<exists>p' w' n k'. eaf_sendspin_player_write (exact 0) fixed_clock (pcm_player 9) idle_filter 0 (Some [0, 1, 255, 255, 7]) () = (EAF_OK, p', w') \<and> n \<le> 2 \<and>
    pl_sink_ctx (pl_out p') = (k', take (2 * n) (decode_frames 2 1 2 [0, 1, 255, 255, 7] 2)) \<and> pl_frames_dropped (pl_out p') = of_nat (counted_drop n 2)"
proof -
  have b: "unat (pl_bits (pcm_player 9)) div 8 = 2" "unat (pl_channels (pcm_player 9)) = 1" by simp_all
  have "\<exists>p' w' n k'. eaf_sendspin_player_write (exact 0) fixed_clock (pcm_player 9) idle_filter 0 (Some [0, 1, 255, 255, 7]) () = (EAF_OK, p', w') \<and> n \<le> 2 \<and>
      pl_sink_ctx (pl_out p') = (k', [] @ take (2 * n) (decode_frames (unat (pl_bits (pcm_player 9)) div 8) (unat (pl_channels (pcm_player 9))) 2 [0, 1, 255, 255, 7] 2)) \<and>
      pl_frames_written (pl_out p') = pl_frames_written (pl_out (pcm_player 9)) + of_nat n \<and>
      (if drop_late (pcm_player 9) \<and> chunk_late (exact 0) fixed_clock idle_filter 0 ()
       then n = 0 \<and> k' = 9 \<and> pl_frames_dropped (pl_out p') = pl_frames_dropped (pl_out (pcm_player 9)) + of_nat 2
       else pl_frames_dropped (pl_out p') = pl_frames_dropped (pl_out (pcm_player 9)) + of_nat (counted_drop n 2)) \<and> chunks p' = chunks (pcm_player 9) + 1"
    by (rule player_pcm_delivered [OF room_sink TrueI]) simp_all
  moreover have "drop_late (pcm_player 9) = False" "pl_frames_dropped (pl_out (pcm_player 9)) = 0" by simp_all
  ultimately show ?thesis unfolding b append_Nil simp_thms if_False add_0 by (simp only: simp_thms if_False add_0) blast
qed

text \<open>
  C23: Rate control is exact over time: in exact arithmetic, and at a ratio of at most 300 ppm from one, the frames produced for a
  sequence of blocks are in total the frames received times the ratio plus the fraction carried in, rounded down; no block grows by more than one frame.
\<close>

theorem player_rate_exact:
  fixes p :: "'k player_output" and bs :: "(int list \<times> u32) list" and r c :: real and u :: int
  assumes "active_ratio p = Fin r" "r \<noteq> 1" "\<bar>r - 1\<bar> \<le> 0.0003" and "resample_credit p = Fin c" "0 \<le> c" "c < 1"
    and "length (resample_scratch p) = 260" and "\<forall>(xs, n) \<in> set bs. n \<le> 128"
  defines "ns \<equiv> fst (play_blocks (exact u) p bs)"
  shows "int (\<Sum>n\<leftarrow>ns. unat n) = \<lfloor>c + r * real (\<Sum>b\<leftarrow>bs. unat (snd b))\<rfloor> \<and> list_all2 (\<lambda>b n. unat n \<le> unat (snd b) + 1) bs ns"
proof -
  have "list_all2 (\<lambda>b n. unat n \<le> unat (snd b) + 1) bs (fst (play_blocks (exact u) p bs)) \<and>
      (\<exists>c'. 0 \<le> c' \<and> c' < 1 \<and> real (\<Sum>n\<leftarrow>fst (play_blocks (exact u) p bs). unat n) = c + r * real (\<Sum>b\<leftarrow>bs. unat (snd b)) - c')"
    using assms(1,4-8)
  proof (induction bs arbitrary: p c)
    case Nil
    then show ?case by (intro conjI exI [of _ c]) simp_all
  next
    case (Cons b bs)
    obtain xs n where b: "b = (xs, n)" by fastforce
    have n: "n \<le> 128" using Cons.prems(6) b by simp
    let ?d = "real (unat n) * r + c"
    note B = block_frames_exact [OF Cons.prems(1) assms(3) Cons.prems(2-4) n]
    have un: "unat (of_nat (nat \<lfloor>?d\<rfloor>) :: u32) = nat \<lfloor>?d\<rfloor>"
      using B(2) n by (simp add: unat_of_nat take_bit_nat_eq_self word_le_nat_alt)
    obtain m pr p' where q: "queue_block (exact u) p xs n = (m, pr, p')" by (metis surj_pair)
    have p': "pr = of_nat (nat \<lfloor>?d\<rfloor>)" "active_ratio p' = Fin r" "resample_credit p' = Fin (?d - real (nat \<lfloor>?d\<rfloor>))" "length (resample_scratch p') = 260"
      using q B(1) [of u] Cons.prems(1,5) assms(2)
      by (auto simp: queue_block_def resampled_block_def Let_def split: prod.splits if_splits)
    let ?c = "?d - real (nat \<lfloor>?d\<rfloor>)"
    have c: "0 \<le> ?c" "?c < 1" unfolding B(3) by linarith+
    obtain c' where I: "list_all2 (\<lambda>b n. unat n \<le> unat (snd b) + 1) bs (fst (play_blocks (exact u) p' bs))" "0 \<le> c'" "c' < 1"
      "real (\<Sum>n\<leftarrow>fst (play_blocks (exact u) p' bs). unat n) = ?c + r * real (\<Sum>b\<leftarrow>bs. unat (snd b)) - c'"
      using Cons.IH [OF p'(2,3) c p'(4)] Cons.prems(6) by auto
    have pb: "fst (play_blocks (exact u) p (b # bs)) = pr # fst (play_blocks (exact u) p' bs)" by (simp add: b q Let_def split: prod.splits)
    have upr: "unat pr = nat \<lfloor>?d\<rfloor>" using p'(1) un by simp
    have "real (\<Sum>n\<leftarrow>fst (play_blocks (exact u) p (b # bs)). unat n) = real (unat pr) + (?c + r * real (\<Sum>b\<leftarrow>bs. unat (snd b)) - c')"
      unfolding pb using I(4) by simp
    also have "\<dots> = c + r * real (\<Sum>b\<leftarrow>b # bs. unat (snd b)) - c'" unfolding upr by (simp add: b algebra_simps)
    finally show ?case using I(1-3) B(2) upr by (intro conjI exI [of _ c']) (simp_all only: pb, simp add: b)
  qed
  then obtain c' where s: "0 \<le> c'" "c' < 1" "real (\<Sum>n\<leftarrow>ns. unat n) = c + r * real (\<Sum>b\<leftarrow>bs. unat (snd b)) - c'"
    and l: "list_all2 (\<lambda>b n. unat n \<le> unat (snd b) + 1) bs ns" unfolding ns_def by blast
  have "\<lfloor>c + r * real (\<Sum>b\<leftarrow>bs. unat (snd b))\<rfloor> = int (\<Sum>n\<leftarrow>ns. unat n)" using s by (intro floor_unique) linarith+
  then show ?thesis using l by simp
qed

theorem player_rate_exact_witness:
  "int (\<Sum>n\<leftarrow>fst (play_blocks (exact 0) ((zero_output (Some room_sink) 9)\<lparr>active_ratio := Fin 1.0002\<rparr>) [([5, 6], 1), ([7, 8], 1)]). unat n) = 2"
  using player_rate_exact [where p = "(zero_output (Some room_sink) 9)\<lparr>active_ratio := Fin 1.0002\<rparr>" and r = "1.0002" and c = 0
      and bs = "[([5, 6], 1), ([7, 8], 1)]" and u = 0]
  by (simp add: zero_output_def)

text \<open>
  C35: Frames are lost without being counted: when the sink is full, a PCM chunk of more than 128 frames is discarded, and only its first block of 128
  frames is added to the frames dropped.
\<close>

theorem player_drop_uncounted:
  assumes "pl_active p" "\<not> compressed p" "\<not> rate_control p" "\<not> drop_late p"
    and "pl_sink (pl_out p) = Some (logged_sink 2 room_sink)" "pl_sink_ctx (pl_out p) = (0, old)"
    and "pl_bits p = 16" "pl_channels p = 2" and "length data = 4 * frames" "128 < frames" "frames < 2 ^ 32"
  shows "pl_frames_dropped (pl_out (fst (snd (eaf_sendspin_player_write t hal p tf timestamp (Some data) w)))) = pl_frames_dropped (pl_out p) + 128 \<and>
    pl_sink_ctx (pl_out (fst (snd (eaf_sendspin_player_write t hal p tf timestamp (Some data) w)))) = (0, old)"
proof -
  obtain b x w1 where W: "eaf_sendspin_player_write t hal p tf timestamp (Some data) w =
      (let (rc, q) = write_audio t (p\<lparr>pl_synchronized := b, last_latency_us := x, pl_out := (pl_out p)\<lparr>active_ratio := Fin 1\<rparr>\<rparr>) data in (rc, q, w1))"
    using write_unrated [OF assms(1,3), of t hal tf timestamp w data] assms(4) by blast
  let ?o = "(pl_out p)\<lparr>active_ratio := Fin 1\<rparr>" and ?xs = "stereo_block 2 16 data 128"
  have left: "unat (of_nat frames :: u32) = frames" using assms(11) by (simp add: unat_of_nat take_bit_nat_eq_self)
  have c: "block_count (of_nat frames) = 128" "(of_nat frames :: u32) \<noteq> 0"
    using assms(10) left by (auto simp: block_count_def word_less_nat_alt)
  have "queue_block t ?o ?xs 128 = (0, 128, ?o\<lparr>pl_sink_ctx := (0, old), pl_frames_dropped := pl_frames_dropped (pl_out p) + 128\<rparr>)"
    using queue_block_unit [of ?o room_sink 0 old ?xs 128 0 0 t] assms(5,6) by (simp add: room_sink_def)
  then have B: "pcm_blocks t 2 16 ?o data (of_nat frames) = ?o\<lparr>pl_sink_ctx := (0, old), pl_frames_dropped := pl_frames_dropped (pl_out p) + 128\<rparr>"
    using c by (simp add: pcm_blocks.simps [of t 2 16 ?o] Let_def)
  have "write_audio t (p\<lparr>pl_synchronized := b, last_latency_us := x, pl_out := ?o\<rparr>) data =
      (EAF_OK, count_chunk (p\<lparr>pl_synchronized := b, last_latency_us := x, pl_out := pcm_blocks t 2 16 ?o data (of_nat frames)\<rparr>))"
    using assms(2,7-10) by (simp add: write_audio_def Let_def player_frame_bytes_def)
  then show ?thesis using B unfolding W by (simp add: count_chunk_def)
qed

theorem player_drop_uncounted_witness:
  "pl_frames_dropped (pl_out (fst (snd (eaf_sendspin_player_write (exact 0) fixed_clock ((pcm_player 0)\<lparr>pl_channels := 2\<rparr>) idle_filter 0
      (Some (replicate 4000 0)) ())))) = 128"
  using player_drop_uncounted [of "(pcm_player 0)\<lparr>pl_channels := 2\<rparr>" "[]" "replicate 4000 0" 1000 "exact 0" fixed_clock idle_filter 0 "()"]
  by simp

end
