(* ===== verification/Sendspin_Client.thy ===== *)
theory Sendspin_Client
  imports Sendspin_Player Sendspin_Frames Net
begin

text \<open>
  \<open>apps/sendspin/sendspin_client.c\<close>: the Sendspin client. It connects, upgrades the connection to a WebSocket, introduces itself, and then
  answers the server: every step flushes what is queued, sends the time requests that are due, receives, and dispatches the messages to
  the callbacks of the application. Network and clock are the record \<open>hal_net\<close>; the callbacks act on the world outside the client.
\<close>

section \<open>State\<close>

record eaf_sendspin_config_t =
  cf_client_id :: "string option"
  cf_name :: "string option"
  cf_product_name :: "string option"
  cf_manufacturer :: "string option"
  cf_software_version :: "string option"
  cf_formats :: "eaf_sendspin_format_t list"
  cf_sample_rate :: u32
  cf_channels :: u8
  cf_bit_depth :: u8
  cf_buffer_capacity :: u32
  cf_support_volume :: bool
  cf_support_mute :: bool
  cf_volume :: int
  cf_static_delay_ms :: int
  cf_required_lead_time_ms :: int
  cf_min_buffer_ms :: int

record 'w eaf_sendspin_callbacks_t =
  cb_ready :: "(eaf_sendspin_server_hello_t \<Rightarrow> 'w \<Rightarrow> 'w) option"
  cb_stream_start :: "(eaf_sendspin_stream_start_t \<Rightarrow> 'w \<Rightarrow> 'w) option"
  cb_audio :: "(eaf_sendspin_stream_start_t \<Rightarrow> int \<Rightarrow> u8 list \<Rightarrow> 'w \<Rightarrow> 'w) option"
  cb_stream_end :: "(bool \<Rightarrow> 'w \<Rightarrow> 'w) option"
  cb_stream_clear :: "(bool \<Rightarrow> 'w \<Rightarrow> 'w) option"
  cb_group_update :: "(eaf_sendspin_group_update_t \<Rightarrow> 'w \<Rightarrow> 'w) option"
  cb_command :: "(eaf_sendspin_server_command_t \<Rightarrow> 'w \<Rightarrow> 'w) option"
  cb_disconnected :: "('w \<Rightarrow> 'w) option"

definition no_callbacks :: "'w eaf_sendspin_callbacks_t" where
  "no_callbacks = \<lparr>cb_ready = None, cb_stream_start = None, cb_audio = None, cb_stream_end = None, cb_stream_clear = None,
     cb_group_update = None, cb_command = None, cb_disconnected = None\<rparr>"

definition call :: "('w \<Rightarrow> 'w) option \<Rightarrow> 'w \<Rightarrow> 'w" where
  "call f w = (case f of None \<Rightarrow> w | Some f \<Rightarrow> f w)"

datatype eaf_sendspin_client_state_t = EAF_SENDPIN_CLIENT_CLOSED | EAF_SENDPIN_CLIENT_HTTP | EAF_SENDPIN_CLIENT_WS

abbreviation (input) EAF_SENDPIN_RX_BYTES :: nat where "EAF_SENDPIN_RX_BYTES \<equiv> 4096"
abbreviation (input) EAF_SENDPIN_MESSAGE_BYTES :: nat where "EAF_SENDPIN_MESSAGE_BYTES \<equiv> 8192"
abbreviation (input) EAF_SENDPIN_JSON_BYTES :: nat where "EAF_SENDPIN_JSON_BYTES \<equiv> 1024"
abbreviation (input) EAF_SENDPIN_WIRE_BYTES :: nat where "EAF_SENDPIN_WIRE_BYTES \<equiv> 2048"
abbreviation (input) EAF_SENDPIN_HTTP_BYTES :: nat where "EAF_SENDPIN_HTTP_BYTES \<equiv> 1024"

text \<open>The array \<open>message\<close> of the client is the memory its receiver \<open>rx\<close> writes to; the array \<open>rx_bytes\<close> is the result of a receive.
  The views in \<open>stream\<close> (its codec header) are the text they show when the message is parsed; in C they point into \<open>message\<close>, which the
  next message overwrites. Callbacks do not call back into the client.\<close>

record 'w eaf_sendspin_client_t =
  sp_tcp :: eaf_tcp_t
  config :: eaf_sendspin_config_t
  callbacks :: "'w eaf_sendspin_callbacks_t"
  time_filter :: eaf_sendspin_time_filter_t
  rx :: eaf_sendspin_ws_rx_t
  stream :: eaf_sendspin_stream_start_t
  wire :: "u8 list"
  json_text :: string
  http :: "u8 list"
  http_used :: nat
  wire_length :: nat
  wire_offset :: nat
  prng :: eaf_sendspin_ws_prng_t
  client_state :: eaf_sendspin_client_state_t
  handshaken :: bool
  notified :: bool
  stream_active :: bool
  next_time_us :: u64
  rx_total :: u64

type_synonym 'w client_world = "'w eaf_sendspin_client_t \<times> 'w"

section \<open>Helpers\<close>

definition text_of :: "u8 list \<Rightarrow> string" where
  "text_of bytes = map (\<lambda>b. char_of (unat b)) bytes"

definition bytes_of :: "string \<Rightarrow> u8 list" where
  "bytes_of s = map of_char s"

text \<open>The text in a character array, up to the NUL.\<close>

definition c_string :: "string \<Rightarrow> string" where
  "c_string s = takeWhile (\<lambda>x. x \<noteq> CHR 0x00) s"

definition big_endian_i64 :: "u8 list \<Rightarrow> int" where
  "big_endian_i64 p = i64 (uint (fold (\<lambda>i v. push_bit 8 v OR ucast (p ! i)) [0..<8] (0 :: u64)))"

definition find_header_end :: "u8 list \<Rightarrow> nat \<Rightarrow> bool" where
  "find_header_end buffer len \<longleftrightarrow> list_ex (\<lambda>i. take 4 (drop i buffer) = [13, 10, 13, 10]) [0..<len - 3]"

definition put_char :: "nat \<Rightarrow> char \<Rightarrow> string \<times> nat \<Rightarrow> (string \<times> nat) option" where
  "put_char cap c = (\<lambda>(out, used). if used + 1 \<ge> cap then None else Some (out[used := c], used + 1))"

definition put_dec :: "nat \<Rightarrow> u64 \<Rightarrow> string \<times> nat \<Rightarrow> (string \<times> nat) option" where
  "put_dec cap v = (\<lambda>(out, used).
     let (n, rest) = eaf_bytes_write_u64_dec (drop used out) (cap - used) v
     in if n = 0 then None else Some (take used out @ rest, used + n))"

definition octet :: "u32 \<Rightarrow> nat \<Rightarrow> u64" where
  "octet ipv4 i = ucast (ucast (drop_bit (24 - 8 * i) ipv4) :: u8)"

fun put_octets :: "nat \<Rightarrow> u32 \<Rightarrow> nat list \<Rightarrow> string \<times> nat \<Rightarrow> (string \<times> nat) option" where
  "put_octets cap ipv4 [] s = Some s"
| "put_octets cap ipv4 (i # is) s =
     (case (if i \<noteq> 0 then put_char cap (CHR ''.'') s else Some s) of None \<Rightarrow> None
      | Some s \<Rightarrow> (case put_dec cap (octet ipv4 i) s of None \<Rightarrow> None | Some s \<Rightarrow> put_octets cap ipv4 is s))"

text \<open>The text up to the terminating NUL, or \<open>None\<close> for the error.\<close>

definition format_host :: "u32 \<Rightarrow> u16 \<Rightarrow> string \<Rightarrow> nat \<Rightarrow> string option" where
  "format_host ipv4 port out cap =
     (case put_octets cap ipv4 [0..<4] (out, 0) of None \<Rightarrow> None
      | Some s \<Rightarrow> (case put_char cap (CHR '':'') s of None \<Rightarrow> None
        | Some s \<Rightarrow> (case put_dec cap (ucast port) s of None \<Rightarrow> None
          | Some (out, used) \<Rightarrow> if used \<ge> cap then None else Some (take used out))))"

definition time_interval_ms :: "fp_target \<Rightarrow> 'w eaf_sendspin_client_t \<Rightarrow> u32" where
  "time_interval_ms t c =
     (if \<not> eaf_sendspin_time_synchronized (Some (time_filter c)) then 200
      else let error = (case eaf_sendspin_time_error (fp_round t) (Some (time_filter c)) of Some e \<Rightarrow> e | None \<Rightarrow> i64 (fp_undefined t))
           in if error < 1000 then 3000 else if error < 2000 then 1000 else if error < 5000 then 500 else 200)"

section \<open>Sending\<close>

definition compact_wire :: "'w eaf_sendspin_client_t \<Rightarrow> 'w eaf_sendspin_client_t" where
  "compact_wire c =
     (let pending = wire_length c - wire_offset c
      in c\<lparr>wire := blit (wire c) 0 (take pending (drop (wire_offset c) (wire c))), wire_length := pending, wire_offset := 0\<rparr>)"

definition queue_frame :: "'w eaf_sendspin_client_t \<Rightarrow> u8 \<Rightarrow> u8 list \<Rightarrow> eaf_result_t \<times> 'w eaf_sendspin_client_t" where
  "queue_frame c opcode payload =
     (let needed = length payload + 14;
          c = (if wire_offset c \<noteq> 0 \<and> wire_length c + needed > EAF_SENDPIN_WIRE_BYTES then compact_wire c else c);
          (mask, g) = eaf_sendspin_ws_prng_next (prng c);
          (rc, n, dst) = eaf_sendspin_ws_encode (drop (wire_length c) (wire c)) (EAF_SENDPIN_WIRE_BYTES - wire_length c) opcode (Some payload)
                           (length payload) mask;
          c = c\<lparr>prng := g, wire := take (wire_length c) (wire c) @ dst\<rparr>
      in if rc \<noteq> EAF_OK then (EAF_INVALID, c) else (EAF_OK, c\<lparr>wire_length := wire_length c + n\<rparr>))"

definition queue_json :: "'w eaf_sendspin_client_t \<Rightarrow> nat \<Rightarrow> eaf_result_t \<times> 'w eaf_sendspin_client_t" where
  "queue_json c len = queue_frame c EAF_SENDPIN_WS_TEXT (bytes_of (take len (json_text c)))"

function flush :: "'w hal_net \<Rightarrow> 'w client_world \<Rightarrow> eaf_result_t \<times> 'w client_world" where
  "flush hal (c, w) =
     (if wire_offset c < wire_length c
      then let (rc, sent, w) = net_send hal (sp_tcp c) (take (wire_length c - wire_offset c) (drop (wire_offset c) (wire c))) w;
               c = c\<lparr>wire_offset := wire_offset c + sent\<rparr>
           in if rc = EAF_AGAIN then (EAF_AGAIN, c, w)
              else if rc \<noteq> EAF_OK then (rc, c, w)
              else if sent = 0 then (EAF_AGAIN, c, w)
              else flush hal (c, w)
      else (EAF_OK, c\<lparr>wire_offset := 0, wire_length := 0\<rparr>, w))"
  by pat_completeness auto
termination
  by (relation "measure (\<lambda>(hal, c, w). wire_length c - wire_offset c)") auto

declare flush.simps [simp del]

definition notify_closed :: "'w hal_net \<Rightarrow> 'w client_world \<Rightarrow> 'w client_world" where
  "notify_closed hal = (\<lambda>(c, w).
     let (tcp, w) = (if tcp_open (sp_tcp c) then net_close hal (sp_tcp c) w else (sp_tcp c, w));
         c = c\<lparr>sp_tcp := tcp, client_state := EAF_SENDPIN_CLIENT_CLOSED, handshaken := False, stream_active := False\<rparr>
     in if \<not> notified c then (c\<lparr>notified := True\<rparr>, call (cb_disconnected (callbacks c)) w) else (c, w))"

definition fail :: "'w hal_net \<Rightarrow> 'w client_world \<Rightarrow> eaf_result_t \<times> 'w client_world" where
  "fail hal s = (EAF_IO, notify_closed hal s)"

definition send_time :: "fp_target \<Rightarrow> 'w hal_net \<Rightarrow> 'w client_world \<Rightarrow> 'w client_world" where
  "send_time t hal = (\<lambda>(c, w).
     let (now, w) = net_time_us hal w;
         (rc, written, text) = eaf_sendspin_build_client_time (json_text c) EAF_SENDPIN_JSON_BYTES (i64 (uint now));
         c = c\<lparr>json_text := text\<rparr>;
         c = (if rc = EAF_OK then snd (queue_json c written) else c)
     in (c\<lparr>next_time_us := now + ucast (time_interval_ms t c) * 1000\<rparr>, w))"

section \<open>Messages of the server\<close>

definition client_supports_codec :: "'w eaf_sendspin_client_t \<Rightarrow> eaf_sendspin_codec_t \<Rightarrow> bool" where
  "client_supports_codec c cdc =
     (if cf_formats (config c) \<noteq> [] then list_ex (\<lambda>f. fmt_codec f = cdc) (cf_formats (config c)) else cdc = EAF_SENDPIN_CODEC_PCM)"

definition initial_state :: "'w eaf_sendspin_client_t \<Rightarrow> eaf_sendspin_player_state_t" where
  "initial_state c = \<lparr>ps_volume = cf_volume (config c), ps_muted = False, ps_static_delay_ms = cf_static_delay_ms (config c),
     required_lead_time_ms = cf_required_lead_time_ms (config c), min_buffer_ms = cf_min_buffer_ms (config c)\<rparr>"

definition on_server_hello :: "fp_target \<Rightarrow> 'w hal_net \<Rightarrow> 'w client_world \<Rightarrow> string \<Rightarrow> eaf_result_t \<times> 'w client_world" where
  "on_server_hello t hal s json =
     (case s of (c, w) \<Rightarrow>
      let (rc, hello) = eaf_sendspin_parse_server_hello (Some json) zero_server_hello
      in if rc \<noteq> EAF_OK then (EAF_INVALID, c, w)
         else if \<not> player_active hello then (EAF_UNSUPPORTED, c, w)
         else let w = call (map_option (\<lambda>f. f hello) (cb_ready (callbacks c))) w;
                  (rc, written, text) = eaf_sendspin_build_client_state (json_text c) EAF_SENDPIN_JSON_BYTES (Some (initial_state c));
                  c = c\<lparr>json_text := text\<rparr>
              in if rc \<noteq> EAF_OK then (EAF_INVALID, c, w)
                 else let (rc, c) = queue_json c written
                      in if rc \<noteq> EAF_OK then (EAF_INVALID, c, w)
                         else (EAF_OK, send_time t hal (c\<lparr>handshaken := True\<rparr>, w)))"

definition on_server_time :: "fp_target \<Rightarrow> 'w hal_net \<Rightarrow> 'w client_world \<Rightarrow> string \<Rightarrow> eaf_result_t \<times> 'w client_world" where
  "on_server_time t hal s json =
     (case s of (c, w) \<Rightarrow>
      let (rc, m) = eaf_sendspin_parse_server_time (Some json) \<lparr>client_transmitted = 0, server_received = 0, st_server_transmitted = 0\<rparr>
      in if rc \<noteq> EAF_OK then (EAF_INVALID, c, w)
         else let (now, w) = net_time_us hal w
              in (EAF_OK, c\<lparr>time_filter := eaf_sendspin_time_filter_exchange (fp_round t) (time_filter c) (client_transmitted m) (server_received m)
                    (st_server_transmitted m) now\<rparr>, w))"

definition on_stream_start :: "'w client_world \<Rightarrow> string \<Rightarrow> eaf_result_t \<times> 'w client_world" where
  "on_stream_start s json =
     (case s of (c, w) \<Rightarrow>
      let (rc, start) = eaf_sendspin_parse_stream_start (Some json) (stream c);
          c = c\<lparr>stream := start\<rparr>
      in if rc \<noteq> EAF_OK then (EAF_INVALID, c, w)
         else if \<not> client_supports_codec c (ss_codec start) then (EAF_UNSUPPORTED, c, w)
         else (EAF_OK, c\<lparr>stream_active := True\<rparr>, call (map_option (\<lambda>f. f start) (cb_stream_start (callbacks c))) w))"

definition on_stream_clear :: "'w client_world \<Rightarrow> string \<Rightarrow> eaf_result_t \<times> 'w client_world" where
  "on_stream_clear s json =
     (case s of (c, w) \<Rightarrow>
      let player = (case eaf_sendspin_json_get (Some json) (Some ''payload.roles'') of Inl rc \<Rightarrow> True
                    | Inr roles \<Rightarrow> eaf_sendspin_json_array_contains (Some roles) (Some ''player'') \<noteq> 0)
      in (EAF_OK, c, call (map_option (\<lambda>f. f player) (cb_stream_clear (callbacks c))) w))"

definition on_stream_end :: "'w client_world \<Rightarrow> string \<Rightarrow> eaf_result_t \<times> 'w client_world" where
  "on_stream_end s json =
     (case s of (c, w) \<Rightarrow>
      let (rc, e) = eaf_sendspin_parse_stream_end (Some json) \<lparr>se_server_transmitted = 0, end_player = False\<rparr>
      in if rc \<noteq> EAF_OK then (EAF_INVALID, c, w)
         else (EAF_OK, c\<lparr>stream_active := False\<rparr>, call (map_option (\<lambda>f. f (end_player e)) (cb_stream_end (callbacks c))) w))"

definition on_group_update :: "'w client_world \<Rightarrow> string \<Rightarrow> eaf_result_t \<times> 'w client_world" where
  "on_group_update s json =
     (case s of (c, w) \<Rightarrow>
      let (rc, g) = eaf_sendspin_parse_group_update (Some json) \<lparr>playback_state = None, group_id = None\<rparr>
      in if rc \<noteq> EAF_OK then (EAF_INVALID, c, w)
         else (EAF_OK, c, call (map_option (\<lambda>f. f g) (cb_group_update (callbacks c))) w))"

definition on_server_command :: "'w client_world \<Rightarrow> string \<Rightarrow> eaf_result_t \<times> 'w client_world" where
  "on_server_command s json =
     (case s of (c, w) \<Rightarrow>
      let (rc, cmd) = eaf_sendspin_parse_server_command (Some json) \<lparr>sc_command = EAF_SENDPIN_COMMAND_UNKNOWN, sc_volume = 0, sc_muted = False, sc_static_delay_ms = 0\<rparr>
      in if rc \<noteq> EAF_OK then (EAF_INVALID, c, w)
         else let c = (if sc_command cmd = EAF_SENDPIN_COMMAND_SET_STATIC_DELAY \<and> sc_static_delay_ms cmd \<ge> 0
                       then c\<lparr>config := (config c)\<lparr>cf_static_delay_ms := sc_static_delay_ms cmd\<rparr>\<rparr> else c)
              in (EAF_OK, c, call (map_option (\<lambda>f. f cmd) (cb_command (callbacks c))) w))"

definition dispatch_text :: "fp_target \<Rightarrow> 'w hal_net \<Rightarrow> 'w client_world \<Rightarrow> string \<Rightarrow> eaf_result_t \<times> 'w client_world" where
  "dispatch_text t hal s json =
     (case eaf_sendspin_json_get (Some json) (Some ''type'') of Inl rc \<Rightarrow> (EAF_OK, s)
      | Inr ty \<Rightarrow>
        let is = eaf_sendspin_json_string_equals (Some ty)
        in if json_type ty \<noteq> EAF_SENDPIN_JSON_STRING then (EAF_OK, s)
           else if is ''server/hello'' then on_server_hello t hal s json
           else if is ''server/time'' then on_server_time t hal s json
           else if is ''stream/start'' then on_stream_start s json
           else if is ''stream/clear'' then on_stream_clear s json
           else if is ''stream/end'' then on_stream_end s json
           else if is ''group/update'' then on_group_update s json
           else if is ''server/command'' then on_server_command s json
           else (EAF_OK, s))"

definition on_binary :: "'w client_world \<Rightarrow> u8 list \<Rightarrow> eaf_result_t \<times> 'w client_world" where
  "on_binary s payload =
     (case s of (c, w) \<Rightarrow>
      if length payload < 9 \<or> payload ! 0 \<noteq> 4 then (EAF_OK, c, w)
      else let timestamp = big_endian_i64 (drop 1 payload)
           in (EAF_OK, c, call (map_option (\<lambda>f. f (stream c) timestamp (drop 9 payload)) (cb_audio (callbacks c))) w))"

definition on_message :: "fp_target \<Rightarrow> 'w hal_net \<Rightarrow> 'w client_world eaf_sendspin_ws_message_fn" where
  "on_message t hal s opcode payload =
     (if opcode = EAF_SENDPIN_WS_PING
      then let (rc, c) = queue_frame (fst s) EAF_SENDPIN_WS_PONG payload in (if rc \<noteq> EAF_OK then EAF_INVALID else EAF_OK, c, snd s)
      else if opcode = EAF_SENDPIN_WS_PONG then (EAF_OK, s)
      else if opcode = EAF_SENDPIN_WS_CLOSE then (EAF_OK, notify_closed hal s)
      else if opcode = EAF_SENDPIN_WS_TEXT then dispatch_text t hal s (text_of payload)
      else if opcode = EAF_SENDPIN_WS_BINARY then on_binary s payload
      else (EAF_OK, s))"

section \<open>Operations\<close>

definition eaf_sendspin_client_init ::
  "double \<Rightarrow> eaf_sendspin_config_t \<Rightarrow> 'w eaf_sendspin_callbacks_t option \<Rightarrow> eaf_sendspin_time_filter_t \<Rightarrow> 'w eaf_sendspin_client_t" where
  "eaf_sendspin_client_init tiny cfg cbs f =
     \<lparr>sp_tcp = \<lparr>tcp_fd = 0, tcp_open = False\<rparr>, config = cfg, callbacks = (case cbs of None \<Rightarrow> no_callbacks | Some cbs \<Rightarrow> cbs),
      time_filter = eaf_sendspin_time_filter_init tiny f, rx = eaf_sendspin_ws_rx_init (Some (replicate EAF_SENDPIN_MESSAGE_BYTES 0)) EAF_SENDPIN_MESSAGE_BYTES,
      stream = zero_stream_start, wire = replicate EAF_SENDPIN_WIRE_BYTES 0, json_text = replicate EAF_SENDPIN_JSON_BYTES (CHR 0x00),
      http = replicate EAF_SENDPIN_HTTP_BYTES 0, http_used = 0, wire_length = 0, wire_offset = 0, prng = \<lparr>prng_state = 0\<rparr>,
      client_state = EAF_SENDPIN_CLIENT_CLOSED, handshaken = False, notified = False, stream_active = False, next_time_us = 0, rx_total = 0\<rparr>"

definition eaf_sendspin_client_connect ::
  "'w hal_net \<Rightarrow> 'w client_world \<Rightarrow> u32 \<Rightarrow> u16 \<Rightarrow> u32 \<Rightarrow> eaf_result_t \<times> 'w client_world" where
  "eaf_sendspin_client_connect hal s ipv4 port timeout_ms =
     (case s of (c, w) \<Rightarrow>
      if client_state c \<noteq> EAF_SENDPIN_CLIENT_CLOSED \<or> tcp_open (sp_tcp c) then (EAF_INVALID, c, w)
      else let (now, w) = net_time_us hal w;
               (key, g) = eaf_sendspin_ws_client_key (eaf_sendspin_ws_prng_init (ucast now));
               c = c\<lparr>prng := g\<rparr>
           in (case format_host ipv4 port (replicate 32 (CHR 0x00)) 32 of None \<Rightarrow> (EAF_INVALID, c, w)
               | Some host \<Rightarrow>
                 let (rc, tcp, w) = net_connect hal (sp_tcp c) ipv4 port timeout_ms w;
                     c = c\<lparr>sp_tcp := tcp\<rparr>
                 in if rc \<noteq> EAF_OK then (rc, c, w)
                    else (case eaf_sendspin_ws_build_upgrade (text_of (wire c)) EAF_SENDPIN_WIRE_BYTES (Some host) (Some ''/sendspin'') (Some (c_string key)) of
                            None \<Rightarrow> fail hal (c, w)
                          | Some (text, written) \<Rightarrow>
                            (EAF_OK, c\<lparr>wire := bytes_of text, wire_length := written, wire_offset := 0, http_used := 0, notified := False,
                               client_state := EAF_SENDPIN_CLIENT_HTTP\<rparr>, w))))"

definition client_hello :: "'w eaf_sendspin_client_t \<Rightarrow> eaf_sendspin_client_hello_t" where
  "client_hello c =
     (let f = config c
      in \<lparr>client_id = cf_client_id f, ch_name = cf_name f, product_name = cf_product_name f, manufacturer = cf_manufacturer f,
          software_version = cf_software_version f, formats = cf_formats f, ch_sample_rate = cf_sample_rate f, ch_channels = cf_channels f,
          ch_bit_depth = cf_bit_depth f, buffer_capacity = cf_buffer_capacity f, support_volume = cf_support_volume f, support_mute = cf_support_mute f\<rparr>)"

definition http_step :: "'w hal_net \<Rightarrow> 'w client_world \<Rightarrow> eaf_result_t \<times> 'w client_world" where
  "http_step hal s =
     (case s of (c, w) \<Rightarrow>
      let (rc, bytes, w) = net_recv hal (sp_tcp c) (EAF_SENDPIN_HTTP_BYTES - http_used c) w
      in if rc = EAF_AGAIN then (EAF_OK, c, w)
         else if rc \<noteq> EAF_OK then fail hal (c, w)
         else let c = c\<lparr>http := blit (http c) (http_used c) bytes, http_used := http_used c + length bytes\<rparr>
              in if \<not> find_header_end (http c) (http_used c)
                 then if http_used c = EAF_SENDPIN_HTTP_BYTES then fail hal (c, w) else (EAF_OK, c, w)
                 else if eaf_sendspin_ws_check_upgrade_response (Some (text_of (take (http_used c) (http c)))) \<noteq> EAF_OK then fail hal (c, w)
                 else let (rc, written, text) = eaf_sendspin_build_client_hello (json_text c) EAF_SENDPIN_JSON_BYTES (Some (client_hello c));
                          c = c\<lparr>json_text := text\<rparr>
                      in if rc \<noteq> EAF_OK then fail hal (c, w)
                         else let (rc, c) = queue_json c written
                              in if rc \<noteq> EAF_OK then fail hal (c, w)
                                 else (EAF_OK, c\<lparr>client_state := EAF_SENDPIN_CLIENT_WS\<rparr>, w))"

definition ws_receive :: "fp_target \<Rightarrow> 'w hal_net \<Rightarrow> 'w client_world \<Rightarrow> eaf_result_t \<times> 'w client_world" where
  "ws_receive t hal s =
     (case s of (c, w) \<Rightarrow>
      let (rc, bytes, w) = net_recv hal (sp_tcp c) EAF_SENDPIN_RX_BYTES w
      in if rc = EAF_AGAIN then (EAF_OK, c, w)
         else if rc \<noteq> EAF_OK then fail hal (c, w)
         else let c = c\<lparr>rx_total := rx_total c + of_nat (length bytes)\<rparr>;
                  (rc, receiver, c, w) = eaf_sendspin_ws_rx_feed (Some (on_message t hal)) (rx c) (Some bytes) (length bytes) (c, w);
                  c = c\<lparr>rx := receiver\<rparr>
              in if rc \<noteq> EAF_OK then fail hal (c, w) else (EAF_OK, c, w))"

definition eaf_sendspin_client_step :: "fp_target \<Rightarrow> 'w hal_net \<Rightarrow> 'w client_world \<Rightarrow> eaf_result_t \<times> 'w client_world" where
  "eaf_sendspin_client_step t hal s =
     (if client_state (fst s) = EAF_SENDPIN_CLIENT_CLOSED then (EAF_STATE, s)
      else let (rc, s) = flush hal s
           in if rc = EAF_AGAIN then (EAF_OK, s)
              else if rc \<noteq> EAF_OK then fail hal s
              else if client_state (fst s) = EAF_SENDPIN_CLIENT_HTTP then http_step hal s
              else let (now, w) = net_time_us hal (snd s);
                       s = (fst s, w);
                       s = (if handshaken (fst s) \<and> now \<ge> next_time_us (fst s) then send_time t hal s else s)
                   in ws_receive t hal s)"

definition eaf_sendspin_client_close :: "'w hal_net \<Rightarrow> 'w client_world \<Rightarrow> 'w client_world" where
  "eaf_sendspin_client_close hal s = notify_closed hal s"

definition eaf_sendspin_client_ready :: "'w eaf_sendspin_client_t \<Rightarrow> bool" where
  "eaf_sendspin_client_ready c = handshaken c"

definition eaf_sendspin_client_time_synchronized :: "'w eaf_sendspin_client_t \<Rightarrow> bool" where
  "eaf_sendspin_client_time_synchronized c = eaf_sendspin_time_synchronized (Some (time_filter c))"

end
