(* ===== verification/Sendspin_Client_Props.thy ===== *)
theory Sendspin_Client_Props
  imports Sendspin_Client
begin

text \<open>
  The Sendspin client against any server, network and application: its buffers and flags stay consistent, and the bytes it sends are an
  upgrade request followed by whole frames that hold the messages of the protocol.
\<close>

section \<open>The pending bytes\<close>

definition unsent :: "'w eaf_sendspin_client_t \<Rightarrow> u8 list" where
  "unsent c = take (wire_length c - wire_offset c) (drop (wire_offset c) (wire c))"

definition buffers_ok :: "'w eaf_sendspin_client_t \<Rightarrow> bool" where
  "buffers_ok c \<longleftrightarrow> length (wire c) = 2048 \<and> wire_offset c \<le> wire_length c \<and> wire_length c \<le> 2048 \<and> length (json_text c) = 1024 \<and>
     length (http c) = 1024 \<and> http_used c \<le> 1024 \<and> rx_ok (rx c)"

lemma compact_wire_ok:
  assumes "buffers_ok c"
  shows "buffers_ok (compact_wire c)" "unsent (compact_wire c) = unsent c"
proof -
  have "length (take (wire_length c - wire_offset c) (drop (wire_offset c) (wire c))) = wire_length c - wire_offset c"
    using assms by (auto simp: buffers_ok_def)
  moreover have "wire_length c - wire_offset c \<le> 2048" using assms by (auto simp: buffers_ok_def)
  ultimately show "buffers_ok (compact_wire c)" "unsent (compact_wire c) = unsent c"
    using assms by (simp_all add: buffers_ok_def unsent_def compact_wire_def Let_def blit_def)
qed

lemma compact_wire_frame [simp]:
  "sp_tcp (compact_wire c) = sp_tcp c" "client_state (compact_wire c) = client_state c" "callbacks (compact_wire c) = callbacks c"
  "config (compact_wire c) = config c" "stream (compact_wire c) = stream c" "stream_active (compact_wire c) = stream_active c"
  "rx (compact_wire c) = rx c" "notified (compact_wire c) = notified c" "handshaken (compact_wire c) = handshaken c"
  by (simp_all add: compact_wire_def Let_def)

text \<open>Everything of the client that queueing bytes leaves alone.\<close>

definition same_link :: "'w eaf_sendspin_client_t \<Rightarrow> 'w eaf_sendspin_client_t \<Rightarrow> bool" where
  "same_link c c' \<longleftrightarrow> sp_tcp c' = sp_tcp c \<and> client_state c' = client_state c \<and> callbacks c' = callbacks c \<and> config c' = config c \<and>
     stream c' = stream c \<and> stream_active c' = stream_active c \<and> rx c' = rx c \<and> notified c' = notified c"

text \<open>A frame is queued whole behind the pending bytes, or not at all.\<close>

lemma queue_frame_cases:
  assumes "buffers_ok c" and "queue_frame c op p = (rc, c')"
  shows "buffers_ok c'" "same_link c c'" "handshaken c' = handshaken c"
    "(\<exists>k. rc = EAF_OK \<and> unsent c' = unsent c @ encoded (op, p, k)) \<or> rc = EAF_INVALID \<and> unsent c' = unsent c"
proof -
  define d where "d = (if wire_offset c \<noteq> 0 \<and> wire_length c + (length p + 14) > 2048 then compact_wire c else c)"
  have d: "buffers_ok d" "unsent d = unsent c" "same_link c d" "handshaken d = handshaken c"
    using compact_wire_ok [OF assms(1)] assms(1) by (auto simp: d_def same_link_def)
  obtain k g where k: "eaf_sendspin_ws_prng_next (prng d) = (k, g)" by fastforce
  let ?dst = "drop (wire_length d) (wire d)" and ?f = "frame_bytes_of op p k"
  have l: "length ?dst = 2048 - wire_length d" "wire_offset d \<le> wire_length d" "wire_length d \<le> 2048"
    using d(1) by (auto simp: buffers_ok_def)
  have q: "(case eaf_sendspin_ws_encode ?dst (2048 - wire_length d) op (Some p) (length p) k of (rc, n, dst) \<Rightarrow>
      let e = d\<lparr>prng := g, wire := take (wire_length d) (wire d) @ dst\<rparr>
      in if rc \<noteq> EAF_OK then (EAF_INVALID, e) else (EAF_OK, e\<lparr>wire_length := wire_length e + n\<rparr>)) = (rc, c')"
    using assms(2) unfolding queue_frame_def Let_def d_def [symmetric] k prod.case .
  have "buffers_ok c' \<and> same_link d c' \<and> handshaken c' = handshaken d \<and>
      ((\<exists>k. rc = EAF_OK \<and> unsent c' = unsent d @ encoded (op, p, k)) \<or> rc = EAF_INVALID \<and> unsent c' = unsent d)"
  proof (cases "length ?f \<le> 2048 - wire_length d")
    case False
    then have "eaf_sendspin_ws_encode ?dst (2048 - wire_length d) op (Some p) (length p) k = (EAF_INVALID, 0, ?dst)"
      by (intro encode_too_long) simp
    then have "rc = EAF_INVALID" "c' = d\<lparr>prng := g\<rparr>"
      using q by auto
    then show ?thesis using d(1) by (simp add: buffers_ok_def unsent_def same_link_def)
  next
    case True
    then have "eaf_sendspin_ws_encode ?dst (2048 - wire_length d) op (Some p) (length p) k = (EAF_OK, length ?f, blit ?dst 0 ?f)"
      using encode_frame [of op p k "2048 - wire_length d" ?dst] l by auto
    then have r: "rc = EAF_OK" "c' = d\<lparr>prng := g, wire := take (wire_length d) (wire d) @ blit ?dst 0 ?f, wire_length := wire_length d + length ?f\<rparr>"
      using q by auto
    moreover have "length (blit ?dst 0 ?f) = 2048 - wire_length d" using True l by (simp add: length_blit)
    moreover have "take (wire_length d + length ?f - wire_offset d)
        (drop (wire_offset d) (take (wire_length d) (wire d) @ blit ?dst 0 ?f)) = unsent d @ ?f"
      using l d(1) by (simp add: unsent_def blit_def buffers_ok_def drop_take)
    ultimately show ?thesis using d(1) l True by (auto simp: buffers_ok_def unsent_def same_link_def encoded_eq)
  qed
  then show "buffers_ok c'" "same_link c c'" "handshaken c' = handshaken c"
    "(\<exists>k. rc = EAF_OK \<and> unsent c' = unsent c @ encoded (op, p, k)) \<or> rc = EAF_INVALID \<and> unsent c' = unsent c"
    using d by (auto simp: same_link_def)
qed

section \<open>The messages of the client\<close>

lemma wrote_length:
  assumes "wrote dst cap text w"
  shows "length (snd (snd (writer_finish w))) = length dst"
  using assms by (auto simp: wrote_def writer_finish_def split: if_splits)

lemma build_time:
  assumes "length dst = 1024" and "eaf_sendspin_build_client_time dst 1024 x = (rc, n, buf)"
  shows "length buf = 1024" "rc = EAF_OK \<Longrightarrow> take n buf = print (client_time_json x)"
proof -
  have w: "wrote dst 1024 (print (client_time_json x))
    (wr_lit (wr_i64 (wr_lit \<lparr>wr_buf = dst, wr_capacity = 1024, wr_used = 0, wr_ok = True\<rparr>
       ''{\"payload\":{\"client_transmitted\":'') x) ''},\"type\":\"client/time\"}'')"
    by (rule wrote_client_time) (simp add: assms(1))
  show "length buf = 1024" "rc = EAF_OK \<Longrightarrow> take n buf = print (client_time_json x)"
    using wrote_length [OF w] emits_wrote [OF w] assms
    by (auto simp: eaf_sendspin_build_client_time_def emits_def split: if_splits)
qed

lemma build_state:
  assumes "length dst = 1024" and "eaf_sendspin_build_client_state dst 1024 (Some st) = (rc, n, buf)"
  shows "length buf = 1024" "rc = EAF_OK \<Longrightarrow> take n buf = print (client_state_json st)"
proof -
  have "wrote dst 1024 [] \<lparr>wr_buf = dst, wr_capacity = 1024, wr_used = 0, wr_ok = True\<rparr>"
    by (rule wrote_start) (simp add: assms(1))
  note w = wrote_client_state [OF this, of st]
  show "length buf = 1024" "rc = EAF_OK \<Longrightarrow> take n buf = print (client_state_json st)"
    using wrote_length [OF w] emits_wrote [OF w] assms
    by (auto simp: eaf_sendspin_build_client_state_def emits_def Let_def split: if_splits)
qed

lemma build_hello:
  assumes "length dst = 1024" and "eaf_sendspin_build_client_hello dst 1024 (Some h) = (rc, n, buf)"
  shows "length buf = 1024" "rc = EAF_OK \<Longrightarrow> \<exists>cid nm. client_id h = Some cid \<and> ch_name h = Some nm \<and> take n buf = print (client_hello_json cid nm h)"
proof -
  have "wrote dst 1024 [] \<lparr>wr_buf = dst, wr_capacity = 1024, wr_used = 0, wr_ok = True\<rparr>"
    by (rule wrote_start) (simp add: assms(1))
  note w = wrote_client_hello [OF this]
  have "length buf = 1024 \<and> (rc = EAF_OK \<longrightarrow>
      (\<exists>cid nm. client_id h = Some cid \<and> ch_name h = Some nm \<and> take n buf = print (client_hello_json cid nm h)))"
  proof (cases "client_id h = None \<or> ch_name h = None")
    case True
    then show ?thesis using assms by (auto simp: eaf_sendspin_build_client_hello_def split: option.splits)
  next
    case False
    then obtain cid nm where h: "client_id h = Some cid" "ch_name h = Some nm" by auto
    show ?thesis using wrote_length [OF w, of cid nm h] emits_wrote [OF w, of cid nm h] assms h
      by (auto simp: eaf_sendspin_build_client_hello_def emits_def Let_def split: if_splits)
  qed
  then show "length buf = 1024" "rc = EAF_OK \<Longrightarrow> \<exists>cid nm. client_id h = Some cid \<and> ch_name h = Some nm \<and> take n buf = print (client_hello_json cid nm h)"
    by blast+
qed

section \<open>A network with a log\<close>

text \<open>The network, recording the bytes sent since the connection was made; the application acts on the rest of the world.\<close>

definition logged_net :: "'w hal_net \<Rightarrow> ('w \<times> u8 list) hal_net" where
  "logged_net hal = \<lparr>
     net_connect = (\<lambda>tcp ip port ms (w, tx). let (rc, tcp, w) = net_connect hal tcp ip port ms w in (rc, tcp, w, if rc = EAF_OK then [] else tx)),
     net_send = (\<lambda>tcp data (w, tx). let (rc, n, w) = net_send hal tcp data w in (rc, n, w, tx @ take n data)),
     net_recv = (\<lambda>tcp cap (w, tx). let (rc, bytes, w) = net_recv hal tcp cap w in (rc, bytes, w, tx)),
     net_close = (\<lambda>tcp (w, tx). let (tcp, w) = net_close hal tcp w in (tcp, w, tx)),
     net_time_us = (\<lambda>(w, tx). let (now, w) = net_time_us hal w in (now, w, tx))\<rparr>"

definition logged_callbacks :: "'w eaf_sendspin_callbacks_t \<Rightarrow> ('w \<times> u8 list) eaf_sendspin_callbacks_t" where
  "logged_callbacks cbs = \<lparr>
     cb_ready = map_option (\<lambda>f x. apfst (f x)) (cb_ready cbs), cb_stream_start = map_option (\<lambda>f x. apfst (f x)) (cb_stream_start cbs),
     cb_audio = map_option (\<lambda>f x ts pcm. apfst (f x ts pcm)) (cb_audio cbs), cb_stream_end = map_option (\<lambda>f x. apfst (f x)) (cb_stream_end cbs),
     cb_stream_clear = map_option (\<lambda>f x. apfst (f x)) (cb_stream_clear cbs), cb_group_update = map_option (\<lambda>f x. apfst (f x)) (cb_group_update cbs),
     cb_command = map_option (\<lambda>f x. apfst (f x)) (cb_command cbs), cb_disconnected = map_option apfst (cb_disconnected cbs)\<rparr>"

lemma logged_net_ok:
  assumes "net_ok hal"
  shows "net_ok (logged_net hal)"
  unfolding net_ok_def
proof (intro conjI allI, goal_cases)
  case (1 tcp ip port ms w rc tcp' w')
  show ?case using net_connect_ok [OF assms, of tcp ip port ms "fst w"]
    by (cases w; cases "net_connect hal tcp ip port ms (fst w)") (auto simp: logged_net_def split: if_splits)
next
  case (2 tcp data w rc n w')
  show ?case using net_send_ok [OF assms, of tcp data "fst w"]
    by (cases w; cases "net_send hal tcp data (fst w)") (auto simp: logged_net_def)
next
  case (3 tcp cap w rc bytes w')
  show ?case using net_recv_ok [OF assms, of tcp cap "fst w"]
    by (cases w; cases "net_recv hal tcp cap (fst w)") (auto simp: logged_net_def)
next
  case (4 tcp w)
  show ?case using net_close_ok [OF assms, of tcp "fst w"]
    by (cases w; cases "net_close hal tcp (fst w)") (auto simp: logged_net_def)
qed

text \<open>Callbacks that send nothing.\<close>

definition quiet :: "('w \<times> u8 list) eaf_sendspin_callbacks_t \<Rightarrow> bool" where
  "quiet cbs \<longleftrightarrow>
     (\<forall>x w. snd (call (map_option (\<lambda>f. f x) (cb_ready cbs)) w) = snd w) \<and> (\<forall>x w. snd (call (map_option (\<lambda>f. f x) (cb_stream_start cbs)) w) = snd w) \<and>
     (\<forall>x ts pcm w. snd (call (map_option (\<lambda>f. f x ts pcm) (cb_audio cbs)) w) = snd w) \<and> (\<forall>x w. snd (call (map_option (\<lambda>f. f x) (cb_stream_end cbs)) w) = snd w) \<and>
     (\<forall>x w. snd (call (map_option (\<lambda>f. f x) (cb_stream_clear cbs)) w) = snd w) \<and> (\<forall>x w. snd (call (map_option (\<lambda>f. f x) (cb_group_update cbs)) w) = snd w) \<and>
     (\<forall>x w. snd (call (map_option (\<lambda>f. f x) (cb_command cbs)) w) = snd w) \<and> (\<forall>w. snd (call (cb_disconnected cbs) w) = snd w)"

lemma quiet_logged: "quiet (logged_callbacks cbs)" "quiet no_callbacks"
  by (simp_all add: quiet_def logged_callbacks_def no_callbacks_def call_def option.map_comp comp_def split: option.splits)

lemma quiet_calls:
  assumes "quiet cbs"
  shows "snd (call (map_option (\<lambda>f. f msg1) (cb_ready cbs)) w) = snd w" "snd (call (map_option (\<lambda>f. f msg2) (cb_stream_start cbs)) w) = snd w"
    "snd (call (map_option (\<lambda>f. f msg3 ts pcm) (cb_audio cbs)) w) = snd w" "snd (call (map_option (\<lambda>f. f msg4) (cb_stream_end cbs)) w) = snd w"
    "snd (call (map_option (\<lambda>f. f msg4) (cb_stream_clear cbs)) w) = snd w" "snd (call (map_option (\<lambda>f. f msg5) (cb_group_update cbs)) w) = snd w"
    "snd (call (map_option (\<lambda>f. f msg6) (cb_command cbs)) w) = snd w" "snd (call (cb_disconnected cbs) w) = snd w"
  using assms by (simp_all only: quiet_def)

lemma flush_ok:
  assumes "net_ok hal" and "buffers_ok c" and "flush (logged_net hal) (c, w, tx) = (rc, c', w', tx')"
  shows "buffers_ok c' \<and> same_link c c' \<and> handshaken c' = handshaken c \<and> tx' @ unsent c' = tx @ unsent c \<and> (rc = EAF_OK \<longrightarrow> unsent c' = [])"
  using assms(2,3)
proof (induction "logged_net hal" "(c, w, tx)" arbitrary: c w tx rule: flush.induct)
  case (1 c w tx)
  show ?case
  proof (cases "wire_offset c < wire_length c")
    case False
    then show ?thesis using "1.prems" by (auto simp: flush.simps buffers_ok_def same_link_def unsent_def)
  next
    case True
    obtain r n v where s: "net_send hal (sp_tcp c) (unsent c) w = (r, n, v)" by (metis prod_cases3)
    let ?c = "c\<lparr>wire_offset := wire_offset c + n\<rparr>"
    have n: "n \<le> wire_length c - wire_offset c" using net_send_ok [OF assms(1) s] by (simp add: unsent_def)
    have ok: "buffers_ok ?c" using "1.prems"(1) n by (auto simp: buffers_ok_def)
    have split: "take n (unsent c) @ unsent ?c = unsent c"
    proof -
      have e: "n + (wire_length c - wire_offset c - n) = wire_length c - wire_offset c" using n by simp
      have a: "take n (unsent c) = take n (drop (wire_offset c) (wire c))" using n by (simp add: unsent_def min_absorb1)
      have b: "unsent ?c = take (wire_length c - wire_offset c - n) (drop n (drop (wire_offset c) (wire c)))"
        by (simp add: unsent_def add.commute)
      show ?thesis unfolding a b take_add [symmetric] e by (simp add: unsent_def)
    qed
    have L: "net_send (logged_net hal) (sp_tcp c) (unsent c) (w, tx) = (r, n, v, tx @ take n (unsent c))"
      using s by (simp add: logged_net_def)
    have F: "flush (logged_net hal) (c, w, tx) = (if r = EAF_AGAIN then (EAF_AGAIN, ?c, v, tx @ take n (unsent c))
        else if r \<noteq> EAF_OK then (r, ?c, v, tx @ take n (unsent c)) else if n = 0 then (EAF_AGAIN, ?c, v, tx @ take n (unsent c))
        else flush (logged_net hal) (?c, v, tx @ take n (unsent c)))"
      using True L by (subst flush.simps) (simp add: unsent_def)
    show ?thesis
    proof (cases "r = EAF_OK \<and> n \<noteq> 0")
      case False
      then show ?thesis using "1.prems"(2) F ok split by (auto simp: same_link_def split: if_splits)
    next
      case go: True
      then have "flush (logged_net hal) (?c, v, tx @ take n (unsent c)) = (rc, c', w', tx')" using "1.prems"(2) F by simp
      from "1.hyps" [OF True L [symmetric, unfolded unsent_def] refl refl refl _ _ _ ok this [unfolded unsent_def]] go split show ?thesis
        by (simp add: same_link_def unsent_def)
    qed
  qed
qed

section \<open>Handling messages\<close>

definition hello_frame :: "u8 \<times> u8 list \<times> u32 \<Rightarrow> bool" where
  "hello_frame m \<longleftrightarrow> (\<exists>k cid nm h. m = (1, bytes_of (print (client_hello_json cid nm h)), k))"

text \<open>The hello of a client with the formats \<open>F\<close>.\<close>

definition hello_of :: "eaf_sendspin_format_t list \<Rightarrow> u8 \<times> u8 list \<times> u32 \<Rightarrow> bool" where
  "hello_of F m \<longleftrightarrow> (\<exists>k cid nm h. formats h = F \<and> m = (1, bytes_of (print (client_hello_json cid nm h)), k))"

lemma hello_of_frame: "hello_of F m \<Longrightarrow> hello_frame m"
  by (auto simp: hello_of_def hello_frame_def)

text \<open>The codecs a hello with the formats \<open>F\<close> offers: the named ones, or PCM when there is none.\<close>

definition offered :: "eaf_sendspin_format_t list \<Rightarrow> eaf_sendspin_codec_t list" where
  "offered F =
     (let named = filter (\<lambda>x. x \<noteq> EAF_SENDPIN_CODEC_UNKNOWN) (map fmt_codec F)
      in if named = [] then [EAF_SENDPIN_CODEC_PCM] else named)"

lemma codec_name_None: "codec_name x = None \<longleftrightarrow> x = EAF_SENDPIN_CODEC_UNKNOWN"
  by (cases x) simp_all

lemma offered_advertised: "map fmt_codec (advertised h) = offered (formats h)"
  by (simp add: advertised_def offered_def codec_name_None filter_map comp_def Let_def)

lemma supports_offered:
  assumes "client_supports_codec c x"
  shows "x \<in> set (offered (cf_formats (config c))) \<or>
    x = EAF_SENDPIN_CODEC_UNKNOWN \<and> EAF_SENDPIN_CODEC_UNKNOWN \<in> fmt_codec ` set (cf_formats (config c))"
  using assms by (auto simp: client_supports_codec_def offered_def Let_def filter_empty_conv list_ex_iff split: if_splits)
    (metis rev_image_eqI)

definition later_frame :: "u8 \<times> u8 list \<times> u32 \<Rightarrow> bool" where
  "later_frame m \<longleftrightarrow> (\<exists>k p. m = (10, p, k)) \<or> (\<exists>k x. m = (1, bytes_of (print (client_time_json x)), k)) \<or>
     (\<exists>k st. m = (1, bytes_of (print (client_state_json st)), k))"

definition codec_ok :: "'w eaf_sendspin_client_t \<Rightarrow> bool" where
  "codec_ok c \<longleftrightarrow> (stream_active c \<longrightarrow> client_supports_codec c (ss_codec (stream c)))"

definition working :: "eaf_sendspin_format_t list \<Rightarrow> ('w \<times> u8 list) eaf_sendspin_client_t \<Rightarrow> bool" where
  "working F c \<longleftrightarrow> buffers_ok c \<and> (tcp_open (sp_tcp c) \<longleftrightarrow> client_state c \<noteq> EAF_SENDPIN_CLIENT_CLOSED) \<and> quiet (callbacks c) \<and>
     cf_formats (config c) = F"

text \<open>
  What handling the messages of the server does to the client: it may close it, call the application and queue whole
  frames; it sends nothing itself.
\<close>

definition extends :: "eaf_sendspin_format_t list \<Rightarrow> ('w \<times> u8 list) client_world \<Rightarrow> ('w \<times> u8 list) client_world \<Rightarrow> bool" where
  "extends F s s' \<longleftrightarrow> working F (fst s') \<and> snd (snd s') = snd (snd s) \<and> rx (fst s') = rx (fst s) \<and>
     (client_state (fst s') = client_state (fst s) \<or> client_state (fst s') = EAF_SENDPIN_CLIENT_CLOSED) \<and>
     (\<exists>fs. list_all later_frame fs \<and> unsent (fst s') = unsent (fst s) @ concat (map encoded fs))"

definition handled :: "eaf_sendspin_format_t list \<Rightarrow> ('w \<times> u8 list) client_world \<Rightarrow> eaf_result_t \<times> ('w \<times> u8 list) client_world \<Rightarrow> bool" where
  "handled F s r \<longleftrightarrow> extends F s (snd r) \<and> (fst r = EAF_OK \<longrightarrow> codec_ok (fst s) \<longrightarrow> codec_ok (fst (snd r)))"

lemma extendsI:
  assumes "working F c" and "buffers_ok c'" and "config c' = config c \<or> cf_formats (config c') = F" "sp_tcp c' = sp_tcp c" "client_state c' = client_state c" "callbacks c' = callbacks c" "rx c' = rx c"
    and "unsent c' = unsent c" and "snd w' = snd w"
  shows "extends F (c, w) (c', w')"
  using assms by (auto simp: extends_def working_def intro!: exI [of _ "[]"])

lemma extends_refl: "working F (fst s) \<Longrightarrow> extends F s s"
  by (cases s) (auto intro: extendsI simp: working_def)

lemma extends_trans:
  assumes "extends F a b" and "extends F b c"
  shows "extends F a c"
proof -
  obtain fs gs where f: "list_all later_frame fs" "unsent (fst b) = unsent (fst a) @ concat (map encoded fs)"
      and g: "list_all later_frame gs" "unsent (fst c) = unsent (fst b) @ concat (map encoded gs)"
    using assms by (auto simp: extends_def)
  have "\<exists>fs. list_all later_frame fs \<and> unsent (fst c) = unsent (fst a) @ concat (map encoded fs)"
    by (rule exI [of _ "fs @ gs"]) (use f g in simp)
  then show ?thesis using assms by (auto simp: extends_def)
qed

lemma queue_extends:
  assumes "working F c" and "queue_frame c op p = (rc, c')" and "\<And>k. later_frame (op, p, k)"
  shows "extends F (c, w) (c', w)" "same_link c c'"
proof -
  have b: "buffers_ok c" using assms(1) by (simp add: working_def)
  note Q = queue_frame_cases [OF b assms(2)]
  show "same_link c c'" by (rule Q(2))
  obtain fs where "list_all later_frame fs" "unsent c' = unsent c @ concat (map encoded fs)"
  proof (cases "unsent c' = unsent c")
    case True
    then show thesis using that [of "[]"] by simp
  next
    case False
    then obtain k where "unsent c' = unsent c @ encoded (op, p, k)" using Q(4) by auto
    then show thesis using that [of "[(op, p, k)]"] assms(3) by simp
  qed
  then show "extends F (c, w) (c', w)" using Q(1,2) assms(1) by (auto simp: extends_def working_def same_link_def)
qed

lemma json_update_extends: "working F c \<Longrightarrow> length text = 1024 \<Longrightarrow> extends F (c, w) (c\<lparr>json_text := text\<rparr>, w)"
  by (rule extendsI) (auto simp: working_def buffers_ok_def unsent_def)

lemma same_link_codec: "same_link c c' \<Longrightarrow> codec_ok c' = codec_ok c"
  by (simp add: same_link_def codec_ok_def client_supports_codec_def)

lemma extends_working: "extends F s s' \<Longrightarrow> working F (fst s')"
  by (simp add: extends_def)

lemma send_time_handled:
  assumes "working F c"
  shows "extends F (c, w) (send_time t (logged_net hal) (c, w))" "codec_ok (fst (send_time t (logged_net hal) (c, w))) = codec_ok c"
    "client_state (fst (send_time t (logged_net hal) (c, w))) = client_state c"
proof -
  obtain now v where n: "net_time_us (logged_net hal) w = (now, v)" "snd v = snd w"
    by (cases w; cases "net_time_us hal (fst w)") (auto simp: logged_net_def)
  obtain rc n buf where b: "eaf_sendspin_build_client_time (json_text c) 1024 (i64 (uint now)) = (rc, n, buf)" by (metis prod_cases3)
  have len: "length (json_text c) = 1024" using assms by (simp add: working_def buffers_ok_def)
  note B = build_time [OF len b]
  let ?c = "c\<lparr>json_text := buf\<rparr>"
  define d where "d = (if rc = EAF_OK then snd (queue_json ?c n) else ?c)"
  have e: "extends F (c, w) (?c, w)" by (rule json_update_extends [OF assms B(1)])
  have s: "same_link c ?c" by (simp add: same_link_def)
  have "extends F (c, w) (d, w) \<and> same_link c d"
  proof (cases "rc = EAF_OK")
    case True
    obtain r c2 where q: "queue_frame ?c 1 (bytes_of (take n buf)) = (r, c2)" by fastforce
    have "later_frame (1, bytes_of (take n buf), k)" for k using B(2) [OF True] by (auto simp: later_frame_def)
    note Q = queue_extends [OF _ q this]
    have "d = c2" using q True by (simp add: d_def queue_json_def)
    then show ?thesis using Q [OF extends_working [OF e, simplified]] extends_trans [OF e] s by (auto simp: same_link_def)
  next
    case False
    then show ?thesis using e s by (simp add: d_def)
  qed
  moreover have "send_time t (logged_net hal) (c, w) = (d\<lparr>next_time_us := now + ucast (time_interval_ms t d) * 1000\<rparr>, v)"
    using n b by (simp add: send_time_def d_def Let_def)
  moreover have "extends F (d, w) (d\<lparr>next_time_us := x\<rparr>, v)" if "working F d" for x
    using that n by (intro extendsI) (auto simp: working_def buffers_ok_def unsent_def)
  ultimately have E: "extends F (c, w) (d, w)" "same_link c d" "extends F (d, w) (send_time t (logged_net hal) (c, w))"
      "fst (send_time t (logged_net hal) (c, w)) = d\<lparr>next_time_us := now + ucast (time_interval_ms t d) * 1000\<rparr>"
    using extends_working [where s = "(c, w)" and s' = "(d, w)"] by simp_all
  show "extends F (c, w) (send_time t (logged_net hal) (c, w))" by (rule extends_trans [OF E(1,3)])
  show "codec_ok (fst (send_time t (logged_net hal) (c, w))) = codec_ok c"
    unfolding E(4) by (rule same_link_codec) (use E(2) in \<open>simp add: same_link_def\<close>)
  show "client_state (fst (send_time t (logged_net hal) (c, w))) = client_state c" using E(2) unfolding E(4) by (simp add: same_link_def)
qed

lemma notify_closed_handled:
  assumes "net_ok hal" and "buffers_ok c" and "quiet (callbacks c)" and "tcp_open (sp_tcp c) \<longleftrightarrow> client_state c \<noteq> EAF_SENDPIN_CLIENT_CLOSED"
    and "cf_formats (config c) = F"
  shows "extends F (c, w) (notify_closed (logged_net hal) (c, w))" "codec_ok (fst (notify_closed (logged_net hal) (c, w)))"
    "client_state (fst (notify_closed (logged_net hal) (c, w))) = EAF_SENDPIN_CLIENT_CLOSED"
proof -
  obtain tcp v where n: "(if tcp_open (sp_tcp c) then net_close (logged_net hal) (sp_tcp c) w else (sp_tcp c, w)) = (tcp, v)" by (meson surj_pair)
  have v: "\<not> tcp_open tcp" "snd v = snd w"
    using n net_close_ok [OF assms(1), of "sp_tcp c" "fst w"]
    by (cases w; cases "net_close hal (sp_tcp c) (fst w)"; auto simp: logged_net_def split: if_splits)+
  let ?c = "c\<lparr>sp_tcp := tcp, client_state := EAF_SENDPIN_CLIENT_CLOSED, handshaken := False, stream_active := False\<rparr>"
  have r: "notify_closed (logged_net hal) (c, w) = (if \<not> notified c then (?c\<lparr>notified := True\<rparr>, call (cb_disconnected (callbacks c)) v) else (?c, v))"
    using n by (simp add: notify_closed_def Let_def)
  show "extends F (c, w) (notify_closed (logged_net hal) (c, w))"
    unfolding r extends_def using assms(2,3,5) v
    by (auto simp: working_def buffers_ok_def unsent_def quiet_calls intro!: exI [of _ "[]"])
  show "codec_ok (fst (notify_closed (logged_net hal) (c, w)))"
    "client_state (fst (notify_closed (logged_net hal) (c, w))) = EAF_SENDPIN_CLIENT_CLOSED"
    unfolding r by (simp_all add: codec_ok_def)
qed

lemma quiet_update:
  assumes "working F c" and "snd w' = snd w"
  shows "extends F (c, w) (c, w')" "extends F (c, w) (c\<lparr>stream_active := b\<rparr>, w')" "extends F (c, w) (c\<lparr>stream := st\<rparr>, w')"
    "extends F (c, w) (c\<lparr>time_filter := f\<rparr>, w')" "cf_formats cf = F \<Longrightarrow> extends F (c, w) (c\<lparr>config := cf\<rparr>, w')" "extends F (c, w) (c\<lparr>handshaken := b\<rparr>, w')"
    "extends F (c, w) (c\<lparr>stream := st, stream_active := b\<rparr>, w')" "extends F (c, w) (c\<lparr>rx_total := n\<rparr>, w')"
  using assms by (auto intro!: extendsI simp: working_def buffers_ok_def unsent_def)

lemma on_server_hello_handled:
  assumes "working F c"
  shows "handled F (c, w) (on_server_hello t (logged_net hal) (c, w) json)"
proof -
  obtain rc hello where p: "eaf_sendspin_parse_server_hello (Some json) zero_server_hello = (rc, hello)" by fastforce
  define v where "v = call (map_option (\<lambda>f. f hello) (cb_ready (callbacks c))) w"
  obtain rb n buf where b: "eaf_sendspin_build_client_state (json_text c) 1024 (Some (initial_state c)) = (rb, n, buf)" by (metis prod_cases3)
  obtain rq d where q: "queue_frame (c\<lparr>json_text := buf\<rparr>) 1 (bytes_of (take n buf)) = (rq, d)" by fastforce
  have len: "length (json_text c) = 1024" and qt: "quiet (callbacks c)" using assms by (simp_all add: working_def buffers_ok_def)
  note B = build_state [OF len b]
  have E0: "extends F (c, w) (c, v)" using quiet_update(1) [OF assms] quiet_calls(1) [OF qt] by (simp add: v_def)
  have E1: "extends F (c, w) (c\<lparr>json_text := buf\<rparr>, v)" by (rule extends_trans [OF E0 json_update_extends [OF assms B(1)]])
  have E2: "extends F (c, w) (d, v)" "same_link c d" if "rb = EAF_OK"
  proof -
    have "later_frame (1, bytes_of (take n buf), k)" for k using B(2) [OF that] by (auto simp: later_frame_def)
    note Q = queue_extends [OF extends_working [OF E1, simplified] q this]
    show "extends F (c, w) (d, v)" by (rule extends_trans [OF E1 Q(1)])
    show "same_link c d" using Q(2) by (simp add: same_link_def)
  qed
  let ?d = "d\<lparr>handshaken := True\<rparr>"
  have E3: "extends F (c, w) (send_time t (logged_net hal) (?d, v))" "codec_ok (fst (send_time t (logged_net hal) (?d, v))) = codec_ok c"
    if "rb = EAF_OK"
  proof -
    have "working F d" using extends_working [OF E2(1) [OF that]] by simp
    then have e: "extends F (d, v) (?d, v)" by (rule quiet_update(6)) simp
    note S = send_time_handled [OF extends_working [OF e, simplified]]
    show "extends F (c, w) (send_time t (logged_net hal) (?d, v))" by (rule extends_trans [OF extends_trans [OF E2(1) [OF that] e] S(1)])
    show "codec_ok (fst (send_time t (logged_net hal) (?d, v))) = codec_ok c"
      unfolding S(2) by (rule same_link_codec) (use E2(2) [OF that] in \<open>simp add: same_link_def\<close>)
  qed
  have "on_server_hello t (logged_net hal) (c, w) json =
      (if rc \<noteq> EAF_OK then (EAF_INVALID, c, w) else if \<not> player_active hello then (EAF_UNSUPPORTED, c, w)
       else if rb \<noteq> EAF_OK then (EAF_INVALID, c\<lparr>json_text := buf\<rparr>, v) else if rq \<noteq> EAF_OK then (EAF_INVALID, d, v)
       else (EAF_OK, send_time t (logged_net hal) (?d, v)))"
    using p b q by (simp add: on_server_hello_def queue_json_def v_def)
  then show ?thesis using E1 E2 E3 extends_refl [where s = "(c, w)"] assms by (auto simp: handled_def)
qed

lemma on_server_time_handled:
  assumes "working F c"
  shows "handled F (c, w) (on_server_time t (logged_net hal) (c, w) json)"
proof -
  obtain now v where n: "net_time_us (logged_net hal) w = (now, v)" "snd v = snd w"
    by (cases w; cases "net_time_us hal (fst w)") (auto simp: logged_net_def)
  then show ?thesis using quiet_update(4) [OF assms, of v w] extends_refl [where s = "(c, w)"] assms
    by (auto simp: on_server_time_def handled_def codec_ok_def client_supports_codec_def split: prod.split)
qed

lemma on_stream_handled:
  assumes "working F c"
  shows "handled F (c, w) (on_stream_start (c, w) json)" "handled F (c, w) (on_stream_clear (c, w) json)"
    "handled F (c, w) (on_stream_end (c, w) json)" "handled F (c, w) (on_group_update (c, w) json)"
proof -
  have q: "quiet (callbacks c)" using assms by (simp add: working_def)
  note U = quiet_update [OF assms] and R = extends_refl [where s = "(c, w)"] and Q = quiet_calls [OF q]
  show "handled F (c, w) (on_stream_start (c, w) json)" using U(3,7) Q(2) R assms
    by (auto simp: on_stream_start_def handled_def codec_ok_def client_supports_codec_def Let_def split: prod.split)
  show "handled F (c, w) (on_stream_clear (c, w) json)" using U(1) Q(5)
    by (auto simp: on_stream_clear_def handled_def Let_def split: sum.split)
  show "handled F (c, w) (on_stream_end (c, w) json)" using U(2) Q(4) R assms
    by (auto simp: on_stream_end_def handled_def codec_ok_def Let_def split: prod.split)
  show "handled F (c, w) (on_group_update (c, w) json)" using U(1) Q(6) R assms
    by (auto simp: on_group_update_def handled_def Let_def split: prod.split)
qed

lemma on_server_command_handled:
  assumes "working F c"
  shows "handled F (c, w) (on_server_command (c, w) json)"
proof -
  have q: "quiet (callbacks c)" using assms by (simp add: working_def)
  note U = quiet_update [OF assms] and R = extends_refl [where s = "(c, w)"] and Q = quiet_calls [OF q]
  have cf: "cf_formats (config c) = F" using assms by (simp add: working_def)
  have "extends F (c, w) (c\<lparr>config := (config c)\<lparr>cf_static_delay_ms := x\<rparr>\<rparr>, call (map_option (\<lambda>f. f m) (cb_command (callbacks c))) w)" for x m
    by (rule U(5)) (use cf Q(7) in simp_all)
  then show ?thesis using U(1) Q(7) R assms
    by (auto simp: on_server_command_def handled_def codec_ok_def client_supports_codec_def Let_def split: prod.split)
qed

lemma on_message_handled:
  assumes "net_ok hal" and "working F (fst s)"
  shows "handled F s (on_message t (logged_net hal) s op p)"
proof -
  obtain c w where s: "s = (c, w)" by (cases s)
  have w: "working F c" and q: "quiet (callbacks c)" using assms(2) by (simp_all add: s working_def)
  have R: "handled F (c, w) (EAF_OK, c, w)" using extends_refl [where s = "(c, w)"] w by (simp add: handled_def)
  have T: "handled F (c, w) (dispatch_text t (logged_net hal) (c, w) json)" for json
    using R on_server_hello_handled [OF w] on_server_time_handled [OF w] on_stream_handled [OF w] on_server_command_handled [OF w]
    by (auto simp: dispatch_text_def Let_def split: sum.split)
  have B: "handled F (c, w) (on_binary (c, w) p)"
    using R quiet_update(1) [OF w] quiet_calls(3) [OF q] by (auto simp: on_binary_def handled_def Let_def)
  have C: "handled F (c, w) (EAF_OK, notify_closed (logged_net hal) (c, w))"
    using notify_closed_handled [OF assms(1), of c F w] w by (auto simp: handled_def working_def)
  have P: "handled F (c, w) (let (rc, c) = queue_frame c 10 p in (if rc \<noteq> EAF_OK then EAF_INVALID else EAF_OK, c, w))"
  proof -
    obtain rc d where f: "queue_frame c 10 p = (rc, d)" by fastforce
    have "later_frame (10, p, k)" for k by (simp add: later_frame_def)
    from queue_extends [OF w f this] show ?thesis using f same_link_codec by (auto simp: handled_def)
  qed
  show ?thesis using R T B C P by (simp add: on_message_def s)
qed

section \<open>The receive loop around the client\<close>

lemma complete_frame_ctx:
  "complete_frame (Some f) x data = (rc, y, ctx) \<Longrightarrow> ctx = data \<or> (\<exists>op p. f data op p = (rc, ctx))"
  by (auto simp: complete_frame_def Let_def split: if_splits prod.splits)

lemma payload_step_ctx:
  assumes "payload_step (Some f) x data ctx = r"
  shows "case r of Inl (rc, y, ctx') \<Rightarrow> ctx' = ctx \<or> (\<exists>op p. f ctx op p = (rc, ctx'))
    | Inr (y, data', ctx') \<Rightarrow> ctx' = ctx \<or> (\<exists>op p. f ctx op p = (EAF_OK, ctx'))"
proof -
  obtain rc1 rx1 where b: "ready_frame x = (rc1, rx1)" by fastforce
  let ?l = "unat (payload_length rx1 - payload_used rx1)"
  obtain rc2 rx2 ctx2 where c: "complete_frame (Some f) (take_payload rx1
      (if length data > ?l then ?l else length data) data) ctx = (rc2, rx2, ctx2)" by (metis prod_cases3)
  show ?thesis using assms complete_frame_ctx [OF c] unfolding payload_step_def b Let_def prod.case c by (auto split: if_splits)
qed

lemma feed_step_ctx:
  assumes "feed_step (Some f) x data ctx = r"
  shows "case r of Inl (rc, y, ctx') \<Rightarrow> ctx' = ctx \<or> (\<exists>op p. f ctx op p = (rc, ctx'))
    | Inr (y, data', ctx') \<Rightarrow> ctx' = ctx \<or> (\<exists>op p. f ctx op p = (EAF_OK, ctx'))"
  using assms payload_step_ctx by (auto simp: feed_step_def Let_def split: if_splits)

text \<open>What every call of the callback keeps, feeding keeps; what successful calls keep, successful feeding keeps.\<close>

lemma feed_loop_keeps:
  assumes "\<And>ctx op p. P ctx \<Longrightarrow> P (snd (f ctx op p))"
    and "\<And>ctx op p. P ctx \<Longrightarrow> G ctx \<Longrightarrow> fst (f ctx op p) = EAF_OK \<Longrightarrow> G (snd (f ctx op p))"
  shows "P ctx \<Longrightarrow> G ctx \<Longrightarrow> feed_loop (Some f) x data ctx = (rc, y, ctx') \<Longrightarrow> P ctx' \<and> (rc = EAF_OK \<longrightarrow> G ctx')"
proof (induction "Some f" x data ctx rule: feed_loop.induct)
  case (1 x data ctx)
  show ?case
  proof (cases "data = []")
    case True
    then show ?thesis using "1.prems" by (simp add: feed_loop.simps)
  next
    case False
    show ?thesis
    proof (cases "feed_step (Some f) x data ctx")
      case (Inl r)
      then have r: "r = (rc, y, ctx')" using "1.prems"(3) False by (simp add: feed_loop.simps [of _ x])
      then have "ctx' = ctx \<or> (\<exists>op p. f ctx op p = (rc, ctx'))" using feed_step_ctx [OF Inl] by simp
      then have "P ctx'" using assms(1) [OF "1.prems"(1)] "1.prems"(1) by (metis snd_conv)
      then show ?thesis using feed_step_error [OF Inl] r by simp
    next
      case (Inr r)
      obtain z d k where r: "r = (z, d, k)" by (metis prod_cases3)
      then have "k = ctx \<or> (\<exists>op p. f ctx op p = (EAF_OK, k))" using feed_step_ctx [OF Inr] by simp
      then have "P k" "G k" using assms [OF "1.prems"(1)] "1.prems"(1,2) by (metis fst_conv snd_conv)+
      moreover have "feed_loop (Some f) z d k = (rc, y, ctx')" using "1.prems"(3) False Inr r by (simp add: feed_loop.simps [of _ x])
      ultimately show ?thesis using "1.hyps" [OF False Inr r [symmetric] refl] by blast
    qed
  qed
qed

section \<open>Sessions\<close>

definition protocol :: "eaf_sendspin_format_t list \<Rightarrow> (u8 \<times> u8 list \<times> u32) list \<Rightarrow> bool" where
  "protocol F ms \<longleftrightarrow> ms = [] \<or> hello_of F (hd ms) \<and> list_all later_frame (tl ms)"

definition upgrade_bytes :: "string \<Rightarrow> string \<Rightarrow> u8 list" where
  "upgrade_bytes host key = bytes_of (concat (upgrade_parts host ''/sendspin'' key))"

text \<open>The bytes of a connection, sent or pending: the upgrade request, then a hello and later messages.\<close>

definition conversation :: "eaf_sendspin_format_t list \<Rightarrow> eaf_sendspin_client_state_t \<Rightarrow> u8 list \<Rightarrow> bool" where
  "conversation F st bytes \<longleftrightarrow> (\<exists>host key ms. bytes = upgrade_bytes host key @ concat (map encoded ms) \<and> protocol F ms \<and>
     (st = EAF_SENDPIN_CLIENT_HTTP \<longrightarrow> ms = []) \<and> (st = EAF_SENDPIN_CLIENT_WS \<longrightarrow> ms \<noteq> []))"

definition history :: "eaf_sendspin_format_t list \<Rightarrow> ('w \<times> u8 list) client_world \<Rightarrow> bool" where
  "history F = (\<lambda>(c, w, tx). client_state c = EAF_SENDPIN_CLIENT_CLOSED \<and> tx @ unsent c = [] \<or> conversation F (client_state c) (tx @ unsent c))"

definition session :: "eaf_sendspin_format_t list \<Rightarrow> ('w \<times> u8 list) client_world \<Rightarrow> bool" where
  "session F s \<longleftrightarrow> working F (fst s) \<and> codec_ok (fst s) \<and> history F s"

lemma protocol_append: "protocol F ms \<Longrightarrow> ms \<noteq> [] \<Longrightarrow> list_all later_frame fs \<Longrightarrow> protocol F (ms @ fs)"
  by (auto simp: protocol_def)

lemma extends_history:
  assumes "history F s" and "client_state (fst s) = EAF_SENDPIN_CLIENT_WS" and "extends F s s'"
  shows "history F s'"
proof -
  obtain c w tx c' w' where s: "s = (c, w, tx)" "s' = (c', w', tx)" using assms(3) by (cases s; cases s') (auto simp: extends_def)
  obtain host key ms where m: "tx @ unsent c = upgrade_bytes host key @ concat (map encoded ms)" "protocol F ms" "ms \<noteq> []"
    using assms(1,2) s by (auto simp: history_def conversation_def)
  obtain fs where f: "list_all later_frame fs" "unsent c' = unsent c @ concat (map encoded fs)" using assms(3) s by (auto simp: extends_def)
  have "client_state c' = EAF_SENDPIN_CLIENT_WS \<or> client_state c' = EAF_SENDPIN_CLIENT_CLOSED" using assms(2,3) s by (auto simp: extends_def)
  moreover have "tx @ unsent c' = upgrade_bytes host key @ concat (map encoded (ms @ fs))" using m(1) f(2) by (metis append.assoc concat_append map_append)
  ultimately show ?thesis using protocol_append [OF m(2,3) f(1)] m(3) s unfolding history_def conversation_def by fastforce
qed

lemma closed_history:
  assumes "history F (c, w, tx)" and "client_state c' = EAF_SENDPIN_CLIENT_CLOSED" and "unsent c' = unsent c"
  shows "history F (c', w', tx)"
  using assms unfolding history_def conversation_def by fastforce

lemma fail_session:
  assumes "net_ok hal" and "working F c" and "history F (c, w, tx)"
  shows "session F (snd (fail (logged_net hal) (c, w, tx)))"
proof -
  have c: "buffers_ok c" "quiet (callbacks c)" "tcp_open (sp_tcp c) \<longleftrightarrow> client_state c \<noteq> EAF_SENDPIN_CLIENT_CLOSED"
    using assms(2) by (simp_all add: working_def)
  obtain d v ty where n: "notify_closed (logged_net hal) (c, w, tx) = (d, v, ty)" by (metis prod_cases3)
  have cf: "cf_formats (config c) = F" using assms(2) by (simp add: working_def)
  note N = notify_closed_handled [OF assms(1) c cf, of "(w, tx)", unfolded n]
  have "unsent d = unsent c" using n by (auto simp: notify_closed_def unsent_def Let_def split: if_splits prod.splits)
  moreover have "ty = tx" using N(1) by (simp add: extends_def)
  ultimately show ?thesis using N closed_history [OF assms(3), of d v] extends_working [OF N(1)]
    by (simp add: fail_def n session_def)
qed

lemma logged_recv:
  "net_recv (logged_net hal) tcp cap (w, tx) = (case net_recv hal tcp cap w of (rc, bytes, w) \<Rightarrow> (rc, bytes, w, tx))"
  by (simp add: logged_net_def)

lemma session_of_extends:
  assumes "session F s" and "client_state (fst s) = EAF_SENDPIN_CLIENT_WS" and "extends F s s'" and "codec_ok (fst s')"
  shows "session F s'"
  using assms extends_history [OF _ assms(2,3)] extends_working [OF assms(3)] by (simp add: session_def)

lemma ws_receive_session:
  assumes "net_ok hal" and "session F (c, w, tx)" and "client_state c = EAF_SENDPIN_CLIENT_WS"
  shows "session F (snd (ws_receive t (logged_net hal) (c, w, tx)))"
proof -
  obtain rc bytes v where r: "net_recv hal (sp_tcp c) 4096 w = (rc, bytes, v)" by (metis prod_cases3)
  have c: "working F c" "codec_ok c" "history F (c, w, tx)" using assms(2) by (simp_all add: session_def)
  have v: "session F (c, v, tx)" using assms(2) by (simp add: session_def history_def)
  show ?thesis
  proof (cases "rc = EAF_OK")
    case False
    then show ?thesis using r v fail_session [OF assms(1) c(1), of v tx]
      by (auto simp: ws_receive_def logged_recv session_def)
  next
    case True
    let ?f = "on_message t (logged_net hal)" and ?d = "c\<lparr>rx_total := rx_total c + of_nat (length bytes)\<rparr>"
    obtain rf y d x ty where f: "feed_loop (Some ?f) (rx c) bytes (?d, v, tx) = (rf, y, d, x, ty)" by (metis prod_cases5)
    have ok: "rx_ok (rx c)" "rx ?d = rx c" using c(1) by (simp_all add: working_def buffers_ok_def)
    let ?P = "extends F (c, v, tx)" and ?G = "\<lambda>s. codec_ok (fst s)"
    have "?P (d, x, ty) \<and> (rf = EAF_OK \<longrightarrow> ?G (d, x, ty))"
    proof (rule feed_loop_keeps [OF _ _ _ _ f])
      fix s :: "('a \<times> u8 list) client_world" and op p
      assume e: "?P s"
      have h: "handled F s (?f s op p)" by (rule on_message_handled [OF assms(1) extends_working [OF e]])
      then show "?P (snd (?f s op p))" using extends_trans [OF e] by (simp add: handled_def)
      show "?G s \<Longrightarrow> fst (?f s op p) = EAF_OK \<Longrightarrow> ?G (snd (?f s op p))" using h by (simp add: handled_def)
    next
      show "?P (?d, v, tx)" by (rule quiet_update(8) [OF c(1)]) simp
      show "?G (?d, v, tx)" using c(2) by (simp add: codec_ok_def client_supports_codec_def)
    qed
    then have e: "extends F (c, v, tx) (d, x, ty)" and g: "rf = EAF_OK \<Longrightarrow> codec_ok d" and ty: "ty = tx" and dx: "rx d = rx c"
      by (simp_all add: extends_def)
    have "rx_ok y" using feed_loop_ok [OF ok(1), of "Some ?f" bytes "(?d, v, tx)"] f by simp
    then have W: "working F (d\<lparr>rx := y\<rparr>)" using extends_working [OF e] by (simp add: working_def buffers_ok_def)
    have H: "history F (d\<lparr>rx := y\<rparr>, x, tx)"
      using extends_history [OF _ _ e] v assms(3) ty by (simp add: session_def history_def unsent_def)
    have "ws_receive t (logged_net hal) (c, w, tx) = (if rf \<noteq> EAF_OK then fail (logged_net hal) (d\<lparr>rx := y\<rparr>, x, tx) else (EAF_OK, d\<lparr>rx := y\<rparr>, x, tx))"
      using r True f ty ok by (simp add: ws_receive_def logged_recv rx_feed_loop)
    then show ?thesis using fail_session [OF assms(1) W H] W H g by (simp add: session_def codec_ok_def client_supports_codec_def)
  qed
qed

lemma http_step_session:
  assumes "net_ok hal" and "session F (c, w, tx)" and "client_state c = EAF_SENDPIN_CLIENT_HTTP"
  shows "session F (snd (http_step (logged_net hal) (c, w, tx)))"
proof -
  obtain rc bytes v where r: "net_recv hal (sp_tcp c) (1024 - http_used c) w = (rc, bytes, v)" by (metis prod_cases3)
  have c: "working F c" "codec_ok c" "history F (c, v, tx)" using assms(2) by (simp_all add: session_def history_def)
  show ?thesis
  proof (cases "rc = EAF_OK")
    case False
    then show ?thesis using r c fail_session [OF assms(1) c(1,3)] by (auto simp: http_step_def logged_recv session_def)
  next
    case True
    let ?d = "c\<lparr>http := blit (http c) (http_used c) bytes, http_used := http_used c + length bytes\<rparr>"
    have len: "length bytes \<le> 1024 - http_used c" using net_recv_ok [OF assms(1) r] by simp
    have d: "working F ?d" "codec_ok ?d" "history F (?d, v, tx)" "client_state ?d = EAF_SENDPIN_CLIENT_HTTP"
      using c len assms(3)
      by (auto simp: working_def buffers_ok_def codec_ok_def client_supports_codec_def history_def unsent_def)
    obtain rb n buf where b: "eaf_sendspin_build_client_hello (json_text ?d) 1024 (Some (client_hello ?d)) = (rb, n, buf)" by (metis prod_cases3)
    have lj: "length (json_text ?d) = 1024" using d(1) by (simp add: working_def buffers_ok_def)
    note B = build_hello [OF lj b]
    let ?e = "?d\<lparr>json_text := buf\<rparr>"
    have e: "working F ?e" "codec_ok ?e" "history F (?e, v, tx)"
      using d B(1) by (auto simp: working_def buffers_ok_def codec_ok_def client_supports_codec_def history_def unsent_def)
    obtain rq g where q: "queue_frame ?e 1 (bytes_of (take n buf)) = (rq, g)" by fastforce
    have be: "buffers_ok ?e" using e(1) by (simp add: working_def)
    note Q = queue_frame_cases [OF be q]
    have G: "working F g" "codec_ok g" "client_state g = EAF_SENDPIN_CLIENT_HTTP"
      using Q(1,2) e same_link_codec [OF Q(2)] d(4) by (auto simp: working_def same_link_def)
    have GH: "history F (g, v, tx)" if "rq \<noteq> EAF_OK"
      using that Q(2,4) e(3) by (auto simp: history_def same_link_def)
    have GS: "session F (g\<lparr>client_state := EAF_SENDPIN_CLIENT_WS\<rparr>, v, tx)" if "rq = EAF_OK" "rb = EAF_OK"
    proof -
      obtain k where k: "unsent g = unsent ?e @ encoded (1, bytes_of (take n buf), k)" using Q(4) \<open>rq = EAF_OK\<close> by auto
      have "formats (client_hello ?d) = F" using d(1) by (simp add: client_hello_def working_def Let_def)
      then have h: "hello_of F (1, bytes_of (take n buf), k)" using B(2) [OF that(2)] unfolding hello_of_def by metis
      obtain host key where "tx @ unsent ?e = upgrade_bytes host key"
        using e(3) assms(3) by (auto simp: history_def conversation_def)
      then have "tx @ unsent g = upgrade_bytes host key @ concat (map encoded [(1, bytes_of (take n buf), k)])" using k by simp
      then have "conversation F EAF_SENDPIN_CLIENT_WS (tx @ unsent g)" unfolding conversation_def
        using h by (intro exI [of _ host] exI [of _ key] exI [of _ "[(1, bytes_of (take n buf), k)]"]) (simp add: protocol_def)
      moreover have "codec_ok (g\<lparr>client_state := EAF_SENDPIN_CLIENT_WS\<rparr>)" using G(2) by (simp add: codec_ok_def client_supports_codec_def)
      ultimately show ?thesis using G(1,3) by (simp add: session_def history_def working_def buffers_ok_def unsent_def)
    qed
    note F = fail_session [OF assms(1)]
    show ?thesis using True r b q F [OF d(1,3)] F [OF e(1,3)] F [OF G(1) GH] GS d
      by (auto simp: http_step_def logged_recv Let_def queue_json_def session_def)
  qed
qed

lemma step_session:
  assumes "net_ok hal" and "session F (c, w, tx)"
  shows "session F (snd (eaf_sendspin_client_step t (logged_net hal) (c, w, tx)))"
proof (cases "client_state c = EAF_SENDPIN_CLIENT_CLOSED")
  case True
  then show ?thesis using assms(2) by (simp add: eaf_sendspin_client_step_def)
next
  case False
  obtain rc d v ty where f: "flush (logged_net hal) (c, w, tx) = (rc, d, v, ty)" by (metis prod_cases4)
  have b: "buffers_ok c" using assms(2) by (simp add: session_def working_def)
  note F = flush_ok [OF assms(1) b f]
  have d: "session F (d, v, ty)" "client_state d = client_state c"
    using F assms(2) same_link_codec [of c d] by (auto simp: session_def working_def same_link_def history_def)
  have fl: "session F (snd (fail (logged_net hal) (d, v, ty)))"
    using d(1) by (intro fail_session [OF assms(1)]) (simp_all add: session_def)
  show ?thesis
  proof (cases "rc = EAF_OK \<and> client_state c = EAF_SENDPIN_CLIENT_WS")
    case True
    obtain now x where n: "net_time_us hal v = (now, x)" by fastforce
    have N: "net_time_us (logged_net hal) (v, ty) = (now, x, ty)" using n by (simp add: logged_net_def)
    have x: "session F (d, x, ty)" using d(1) by (simp add: session_def history_def)
    have wd: "working F d" using d(1) by (simp add: session_def)
    have st: "client_state d = EAF_SENDPIN_CLIENT_WS" using d(2) True by simp
    let ?s = "if handshaken d \<and> now \<ge> next_time_us d then send_time t (logged_net hal) (d, x, ty) else (d, x, ty)"
    obtain e y tz where e: "?s = (e, y, tz)" by (metis prod_cases3)
    note S = send_time_handled [OF wd, where w = "(x, ty)" and t = t and hal = hal]
    have "session F (send_time t (logged_net hal) (d, x, ty))"
      using session_of_extends [OF x _ S(1)] S(2) x st by (simp add: session_def)
    then have "session F (e, y, tz)" "client_state e = EAF_SENDPIN_CLIENT_WS" using e x S(3) st by (auto split: if_splits)
    note W = ws_receive_session [OF assms(1) this, of t]
    have "eaf_sendspin_client_step t (logged_net hal) (c, w, tx) = ws_receive t (logged_net hal) ?s"
      using False True f st N by (simp add: eaf_sendspin_client_step_def Let_def)
    then show ?thesis unfolding e using W by simp
  next
    case nw: False
    then show ?thesis using False f d fl http_step_session [OF assms(1) d(1)]
      by (cases "client_state c") (auto simp: eaf_sendspin_client_step_def)
  qed
qed

lemma append_texts_spec:
  assumes "used + length (concat ts) + 1 \<le> cap" and "cap \<le> length dst"
  shows "\<exists>d. append_texts ts cap (dst, used) = Some (d, used + length (concat ts)) \<and> length d = length dst \<and>
    take (used + length (concat ts)) d = take used dst @ concat ts"
  using assms
proof (induction ts arbitrary: dst used)
  case (Cons x ts)
  let ?d = "(blit dst used x)[used + length x := CHR 0x00]"
  have l: "length ?d = length dst" using Cons.prems by (simp add: length_blit)
  have "take (used + length x) ?d = take used dst @ x" using Cons.prems by (simp add: blit_def)
  with Cons.IH [of "used + length x" ?d] l Cons.prems show ?case by (auto simp: append_text_def add.assoc)
qed simp

lemma format_host_length: "format_host ipv4 port buf cap = Some host \<Longrightarrow> length host < cap"
  by (auto simp: format_host_def split: option.splits prod.splits if_splits)

lemma client_key_length: "length (c_string (fst (eaf_sendspin_ws_client_key g))) \<le> 25"
proof -
  have "length (fst (eaf_sendspin_ws_client_key g)) = 25" by (simp add: eaf_sendspin_ws_client_key_def Let_def split: prod.split)
  then show ?thesis unfolding c_string_def using length_takeWhile_le [of "\<lambda>x. x \<noteq> CHR 0x00"] by metis
qed

lemma connect_eq:
  assumes "client_state c = EAF_SENDPIN_CLIENT_CLOSED" and "\<not> tcp_open (sp_tcp c)" and "length (wire c) = 2048"
    and "format_host ipv4 port (replicate 32 (CHR 0x00)) 32 = Some host"
  shows "\<exists>g key d v rc tcp x n. net_time_us hal w = (n, v) \<and> net_connect hal (sp_tcp c) ipv4 port ms v = (rc, tcp, x) \<and>
    eaf_sendspin_client_connect (logged_net hal) (c, w, tx) ipv4 port ms =
      (if rc \<noteq> EAF_OK then (rc, c\<lparr>prng := g, sp_tcp := tcp\<rparr>, x, tx)
       else (EAF_OK, c\<lparr>prng := g, sp_tcp := tcp, wire := d, wire_length := length (upgrade_bytes host key), wire_offset := 0, http_used := 0,
         notified := False, client_state := EAF_SENDPIN_CLIENT_HTTP\<rparr>, x, [])) \<and>
    length d = 2048 \<and> take (length (upgrade_bytes host key)) d = upgrade_bytes host key \<and> length (upgrade_bytes host key) \<le> 2048"
proof -
  obtain now v where n: "net_time_us hal w = (now, v)" by fastforce
  obtain key g where k: "eaf_sendspin_ws_client_key (eaf_sendspin_ws_prng_init (ucast now)) = (key, g)" by fastforce
  obtain rc tcp x where r: "net_connect hal (sp_tcp c) ipv4 port ms v = (rc, tcp, x)" by (metis prod_cases3)
  let ?p = "upgrade_parts host ''/sendspin'' (c_string key)"
  have lk: "length (c_string key) \<le> 25" using client_key_length [of "eaf_sendspin_ws_prng_init (ucast now)"] k by simp
  have lp: "length (concat ?p) + 1 \<le> 2048" using lk format_host_length [OF assms(4)] by (simp add: upgrade_parts_def crlf_def)
  obtain d where d: "append_texts ?p 2048 ((text_of (wire c))[0 := CHR 0x00], 0) = Some (d, length (concat ?p))"
      "length d = 2048" "take (length (concat ?p)) d = concat ?p"
    using append_texts_spec [of 0 ?p 2048 "(text_of (wire c))[0 := CHR 0x00]"] lp assms(3) by (auto simp: text_of_def)
  have "eaf_sendspin_client_connect (logged_net hal) (c, w, tx) ipv4 port ms =
      (if rc \<noteq> EAF_OK then (rc, c\<lparr>prng := g, sp_tcp := tcp\<rparr>, x, tx)
       else (EAF_OK, c\<lparr>prng := g, sp_tcp := tcp, wire := bytes_of d, wire_length := length (concat ?p), wire_offset := 0, http_used := 0,
         notified := False, client_state := EAF_SENDPIN_CLIENT_HTTP\<rparr>, x, []))"
    using assms n k r d(1) by (simp add: eaf_sendspin_client_connect_def logged_net_def eaf_sendspin_ws_build_upgrade_def)
  then show ?thesis using n r d lp
    by (intro exI [of _ g] exI [of _ "c_string key"] exI [of _ "bytes_of d"] exI [of _ v] exI [of _ rc] exI [of _ tcp] exI [of _ x] exI [of _ now])
      (simp add: upgrade_bytes_def bytes_of_def take_map)
qed

lemma connect_session:
  assumes "net_ok hal" and "session F (c, w, tx)"
  shows "session F (snd (eaf_sendspin_client_connect (logged_net hal) (c, w, tx) ipv4 port ms))"
proof -
  have link: "session F (c\<lparr>prng := g, sp_tcp := sp_tcp c\<rparr>, v, tx)" for g v
  proof -
    let ?c = "c\<lparr>prng := g, sp_tcp := sp_tcp c\<rparr>"
    have "unsent ?c = unsent c" "codec_ok ?c = codec_ok c" by (simp_all add: unsent_def codec_ok_def client_supports_codec_def)
    then show ?thesis using assms(2) by (simp add: session_def working_def buffers_ok_def history_def)
  qed
  have self: "c\<lparr>prng := g, sp_tcp := sp_tcp c\<rparr> = c\<lparr>prng := g\<rparr>" for g by simp
  consider "client_state c \<noteq> EAF_SENDPIN_CLIENT_CLOSED \<or> tcp_open (sp_tcp c)"
    | "client_state c = EAF_SENDPIN_CLIENT_CLOSED" "\<not> tcp_open (sp_tcp c)" "format_host ipv4 port (replicate 32 (CHR 0x00)) 32 = None"
    | host where "client_state c = EAF_SENDPIN_CLIENT_CLOSED" "\<not> tcp_open (sp_tcp c)" "format_host ipv4 port (replicate 32 (CHR 0x00)) 32 = Some host"
    by (cases "format_host ipv4 port (replicate 32 (CHR 0x00)) 32") auto
  then show ?thesis
  proof cases
    case 1
    then show ?thesis using assms(2) by (auto simp: eaf_sendspin_client_connect_def)
  next
    case 2
    then show ?thesis using link [unfolded self]
      by (auto simp: eaf_sendspin_client_connect_def logged_net_def split: prod.split)
  next
    case (3 host)
    have lw: "length (wire c) = 2048" using assms(2) by (simp add: session_def working_def buffers_ok_def)
    obtain g key d v rc tcp x n where r: "net_connect hal (sp_tcp c) ipv4 port ms v = (rc, tcp, x)"
      and R: "eaf_sendspin_client_connect (logged_net hal) (c, w, tx) ipv4 port ms =
        (if rc \<noteq> EAF_OK then (rc, c\<lparr>prng := g, sp_tcp := tcp\<rparr>, x, tx)
         else (EAF_OK, c\<lparr>prng := g, sp_tcp := tcp, wire := d, wire_length := length (upgrade_bytes host key), wire_offset := 0, http_used := 0,
           notified := False, client_state := EAF_SENDPIN_CLIENT_HTTP\<rparr>, x, []))"
      and d: "length d = 2048" "take (length (upgrade_bytes host key)) d = upgrade_bytes host key" "length (upgrade_bytes host key) \<le> 2048"
      using connect_eq [OF 3(1,2) lw 3(3), of hal w ms tx] by metis
    have o: "if rc = EAF_OK then tcp_open tcp else tcp = sp_tcp c" by (rule net_connect_ok [OF assms(1) r])
    have "conversation F EAF_SENDPIN_CLIENT_HTTP (upgrade_bytes host key)"
      unfolding conversation_def by (intro exI [of _ host] exI [of _ key] exI [of _ "[]"]) (simp add: protocol_def)
    then show ?thesis using o assms(2) d link unfolding R
      by (auto simp: session_def working_def buffers_ok_def codec_ok_def client_supports_codec_def history_def unsent_def)
  qed
qed

section \<open>Properties\<close>

datatype client_op = CConnect u32 u16 u32 | CStep | CClose

fun client_call :: "fp_target \<Rightarrow> 'w hal_net \<Rightarrow> client_op \<Rightarrow> 'w client_world \<Rightarrow> 'w client_world" where
  "client_call t hal (CConnect ipv4 port ms) s = snd (eaf_sendspin_client_connect hal s ipv4 port ms)"
| "client_call t hal CStep s = snd (eaf_sendspin_client_step t hal s)"
| "client_call t hal CClose s = eaf_sendspin_client_close hal s"

lemma init_session:
  "session (cf_formats cfg) (eaf_sendspin_client_init tiny cfg (map_option logged_callbacks cbs) f, w, [])"
  by (simp add: session_def working_def buffers_ok_def codec_ok_def history_def unsent_def eaf_sendspin_client_init_def quiet_logged rx_init_ok
      split: option.split)

lemma call_session:
  assumes "net_ok hal" and "session F s"
  shows "session F (client_call t (logged_net hal) op s)"
proof -
  obtain c w tx where s: "s = (c, w, tx)" by (metis prod_cases3)
  show ?thesis
  proof (cases op)
    case CClose
    then show ?thesis using fail_session [OF assms(1), where F = F and c = c and w = w and tx = tx] assms(2) s
      by (simp add: fail_def session_def eaf_sendspin_client_close_def)
  qed (use step_session [OF assms(1)] connect_session [OF assms(1)] assms(2) s in simp_all)
qed

lemma run_session:
  assumes "net_ok hal"
  shows "session F s \<Longrightarrow> session F (fold (client_call t (logged_net hal)) ops s)"
  by (induction ops arbitrary: s) (simp_all add: call_session [OF assms])

definition example_net :: "unit hal_net" where
  "example_net = \<lparr>net_connect = (\<lambda>tcp ip port ms w. (EAF_OK, \<lparr>tcp_fd = 1, tcp_open = True\<rparr>, w)),
     net_send = (\<lambda>tcp data w. (EAF_OK, length data, w)), net_recv = (\<lambda>tcp cap w. (EAF_AGAIN, [], w)),
     net_close = (\<lambda>tcp w. (tcp\<lparr>tcp_open := False\<rparr>, w)), net_time_us = (\<lambda>w. (5, w))\<rparr>"

definition example_client_config :: eaf_sendspin_config_t where
  "example_client_config = \<lparr>cf_client_id = Some ''id'', cf_name = Some ''n'', cf_product_name = None, cf_manufacturer = None, cf_software_version = None,
     cf_formats = [], cf_sample_rate = 48000, cf_channels = 2, cf_bit_depth = 16, cf_buffer_capacity = 65536, cf_support_volume = True,
     cf_support_mute = True, cf_volume = 100, cf_static_delay_ms = 0, cf_required_lead_time_ms = 0, cf_min_buffer_ms = 0\<rparr>"

lemma example_net_ok: "net_ok example_net"
  by (auto simp: net_ok_def example_net_def)

text \<open>Connected to 10.0.0.1:8927.\<close>

lemma example_connect:
  assumes "fold (client_call t (logged_net example_net)) [CConnect 0x0A000001 8927 100]
      (eaf_sendspin_client_init tiny example_client_config (map_option logged_callbacks None) f, (), []) = (c, w, tx)"
  shows "client_state c = EAF_SENDPIN_CLIENT_HTTP"
proof -
  have "format_host 0x0A000001 8927 (replicate 32 (CHR 0x00)) 32 = Some ''10.0.0.1:8927''" by code_simp
  from connect_eq [OF _ _ _ this, of "eaf_sendspin_client_init tiny example_client_config None f" example_net "()" 100 "[]"]
  show ?thesis using assms by (auto simp: example_net_def eaf_sendspin_client_init_def)
qed

text \<open>
  C16: On a network that honours the socket contract, whatever the server sends, the callbacks do and the application calls, the client
  keeps its invariant: no buffer is overrun and the offsets stay ordered, the receiver is consistent, the connection is open exactly when
  the state is not closed; once the connection is a WebSocket its first frame is a hello, whose list of formats offers the codecs
  \<open>offered\<close> of the configuration, and an active stream has one of these codecs. One exception remains, where the admission test of the
  code is wider than the hello: a configuration that lists the unknown codec also admits a stream of unknown codec.
\<close>

theorem client_invariant:
  assumes "net_ok hal"
    and "fold (client_call t (logged_net hal)) ops (eaf_sendspin_client_init tiny cfg (map_option logged_callbacks cbs) f, w, []) = (c, w', tx)"
  shows "buffers_ok c \<and> (tcp_open (sp_tcp c) \<longleftrightarrow> client_state c \<noteq> EAF_SENDPIN_CLIENT_CLOSED) \<and>
    (client_state c = EAF_SENDPIN_CLIENT_WS \<longrightarrow>
      (\<exists>host key cid nm h k rest. tx @ unsent c =
         upgrade_bytes host key @ encoded (1, bytes_of (print (client_hello_json cid nm h)), k) @ rest \<and>
         map fmt_codec (advertised h) = offered (cf_formats cfg))) \<and>
    (stream_active c \<longrightarrow> ss_codec (stream c) \<in> set (offered (cf_formats cfg)) \<or>
      ss_codec (stream c) = EAF_SENDPIN_CODEC_UNKNOWN \<and> EAF_SENDPIN_CODEC_UNKNOWN \<in> fmt_codec ` set (cf_formats cfg))"
proof -
  have S: "session (cf_formats cfg) (c, w', tx)"
    using run_session [OF assms(1) init_session [of cfg tiny cbs f w], of t ops] unfolding assms(2) .
  then have "codec_ok c" "cf_formats (config c) = cf_formats cfg" by (simp_all add: session_def working_def)
  then have codec: "stream_active c \<longrightarrow> ss_codec (stream c) \<in> set (offered (cf_formats cfg)) \<or>
      ss_codec (stream c) = EAF_SENDPIN_CODEC_UNKNOWN \<and> EAF_SENDPIN_CODEC_UNKNOWN \<in> fmt_codec ` set (cf_formats cfg)"
    using supports_offered [of c "ss_codec (stream c)"] by (simp add: codec_ok_def)
  have "\<exists>host key cid nm h k rest. tx @ unsent c =
         upgrade_bytes host key @ encoded (1, bytes_of (print (client_hello_json cid nm h)), k) @ rest \<and>
         map fmt_codec (advertised h) = offered (cf_formats cfg)" if ws: "client_state c = EAF_SENDPIN_CLIENT_WS"
  proof -
    obtain host key ms where m: "tx @ unsent c = upgrade_bytes host key @ concat (map encoded ms)" "protocol (cf_formats cfg) ms" "ms \<noteq> []"
      using S ws by (auto simp: session_def history_def conversation_def)
    then obtain k cid nm h where h: "formats h = cf_formats cfg" "hd ms = (1, bytes_of (print (client_hello_json cid nm h)), k)"
      by (auto simp: protocol_def hello_of_def)
    have "tx @ unsent c = upgrade_bytes host key @ encoded (hd ms) @ concat (map encoded (tl ms))" using m(1,3) by (cases ms) auto
    with h offered_advertised [of h] show ?thesis by metis
  qed
  with S codec show ?thesis by (simp add: session_def working_def)
qed

theorem client_invariant_witness:
  "\<forall>f. \<exists>c w tx. fold (client_call (exact 0) (logged_net example_net)) [CConnect 0x0A000001 8927 100]
      (eaf_sendspin_client_init (Fin 0) example_client_config (map_option logged_callbacks None) f, (), []) = (c, w, tx) \<and>
    buffers_ok c \<and> client_state c = EAF_SENDPIN_CLIENT_HTTP \<and> tcp_open (sp_tcp c)"
proof (rule allI)
  fix f
  obtain c w tx where r: "fold (client_call (exact 0) (logged_net example_net)) [CConnect 0x0A000001 8927 100]
      (eaf_sendspin_client_init (Fin 0) example_client_config (map_option logged_callbacks None) f, (), []) = (c, w, tx)" by (metis prod_cases3)
  then show "\<exists>c w tx. fold (client_call (exact 0) (logged_net example_net)) [CConnect 0x0A000001 8927 100]
      (eaf_sendspin_client_init (Fin 0) example_client_config (map_option logged_callbacks None) f, (), []) = (c, w, tx) \<and>
    buffers_ok c \<and> client_state c = EAF_SENDPIN_CLIENT_HTTP \<and> tcp_open (sp_tcp c)"
    using client_invariant [OF example_net_ok r] example_connect [OF r] by simp
qed

text \<open>
  C7: The bytes of a connection, sent so far or still pending, are an upgrade request followed by whole masked frames: first the
  hello, then pongs, time requests and states. No frame is ever torn, repeated or sent before the upgrade, however the network splits the
  sends and whatever order messages arrive in.
\<close>

theorem client_wire_protocol:
  assumes "net_ok hal"
    and "fold (client_call t (logged_net hal)) ops (eaf_sendspin_client_init tiny cfg (map_option logged_callbacks cbs) f, w, []) = (c, w', tx)"
    and "client_state c \<noteq> EAF_SENDPIN_CLIENT_CLOSED"
  shows "\<exists>host key ms. tx @ unsent c = upgrade_bytes host key @ concat (map encoded ms) \<and>
    (if client_state c = EAF_SENDPIN_CLIENT_HTTP then ms = [] else ms \<noteq> [] \<and> hello_frame (hd ms) \<and> list_all later_frame (tl ms))"
proof -
  have "history (cf_formats cfg) (c, w', tx)"
    using run_session [OF assms(1) init_session [of cfg tiny cbs f w], of t ops] unfolding assms(2) by (simp add: session_def)
  then obtain host key ms where m: "tx @ unsent c = upgrade_bytes host key @ concat (map encoded ms)" "protocol (cf_formats cfg) ms"
      "client_state c = EAF_SENDPIN_CLIENT_HTTP \<longrightarrow> ms = []" "client_state c = EAF_SENDPIN_CLIENT_WS \<longrightarrow> ms \<noteq> []"
    using assms(3) by (auto simp: history_def conversation_def)
  then have "if client_state c = EAF_SENDPIN_CLIENT_HTTP then ms = [] else ms \<noteq> [] \<and> hello_frame (hd ms) \<and> list_all later_frame (tl ms)"
    using assms(3) hello_of_frame [of "cf_formats cfg" "hd ms"] by (cases "client_state c") (simp_all add: protocol_def)
  with m(1) show ?thesis by blast
qed

theorem client_wire_protocol_witness:
  "\<forall>f. \<exists>c w tx host key. fold (client_call (exact 0) (logged_net example_net)) [CConnect 0x0A000001 8927 100]
      (eaf_sendspin_client_init (Fin 0) example_client_config (map_option logged_callbacks None) f, (), []) = (c, w, tx) \<and>
    tx @ unsent c = upgrade_bytes host key"
proof (rule allI)
  fix f
  obtain c w tx where r: "fold (client_call (exact 0) (logged_net example_net)) [CConnect 0x0A000001 8927 100]
      (eaf_sendspin_client_init (Fin 0) example_client_config (map_option logged_callbacks None) f, (), []) = (c, w, tx)" by (metis prod_cases3)
  then show "\<exists>c w tx host key. fold (client_call (exact 0) (logged_net example_net)) [CConnect 0x0A000001 8927 100]
      (eaf_sendspin_client_init (Fin 0) example_client_config (map_option logged_callbacks None) f, (), []) = (c, w, tx) \<and>
    tx @ unsent c = upgrade_bytes host key"
    using client_wire_protocol [OF example_net_ok r] example_connect [OF r] by auto
qed

text \<open>
  A client that lists the unknown codec among its formats leaves it out of its hello and still admits streams of it.
\<close>

theorem unknown_codec_admitted:
  assumes "EAF_SENDPIN_CODEC_UNKNOWN \<in> fmt_codec ` set (cf_formats (config c))"
  shows "client_supports_codec c EAF_SENDPIN_CODEC_UNKNOWN \<and> EAF_SENDPIN_CODEC_UNKNOWN \<notin> set (offered (cf_formats (config c)))"
  using assms by (auto simp: client_supports_codec_def offered_def list_ex_iff Let_def intro: sym)

section \<open>Audio\<close>

definition audio_payload :: "int \<Rightarrow> u8 list \<Rightarrow> u8 list" where
  "audio_payload ts pcm = 4 # eaf_bytes_write_u64 (replicate 8 0) (of_int ts) @ pcm"

lemma i64_of_word: "i64 (uint (of_int x :: u64)) = i64 x"
  by (simp add: i64_def uint_word_of_int mod_add_left_eq take_bit_int_def of_int_def [symmetric])

lemma read_u64_append: "8 \<le> length p \<Longrightarrow> eaf_bytes_read_u64 (p @ q) = eaf_bytes_read_u64 p"
  unfolding eaf_bytes_read_u64_def by (intro fold_cong) (auto simp: nth_append)

lemma timestamp_round_trip: "is_i64 ts \<Longrightarrow> big_endian_i64 (drop 1 (audio_payload ts pcm)) = ts"
  using read_write_u64 [of "replicate 8 0" "of_int ts"]
  by (simp add: big_endian_i64_def audio_payload_def eaf_bytes_read_u64_def [symmetric] read_u64_append i64_of_word)

lemma on_message_audio:
  assumes "is_i64 ts" and "cb_audio (callbacks c) = Some f"
  shows "on_message t hal (c, w) 2 (audio_payload ts pcm) = (EAF_OK, c, f (stream c) ts pcm w)"
  using timestamp_round_trip [OF assms(1), of pcm] assms(2)
  by (simp add: on_message_def on_binary_def audio_payload_def call_def Let_def)

lemma audio_fits:
  "length pcm + 9 \<le> cap \<Longrightarrow> cap < 2 ^ 64 \<Longrightarrow> frame_fits cap 2 (audio_payload ts pcm)"
  by (simp add: frame_fits_def frame_op_def is_control_def audio_payload_def)

text \<open>A binary frame with audio; servers send it without a mask key (\<open>None\<close>), a masked frame has one.\<close>

definition audio_frame :: "int \<times> u8 list \<times> u32 option \<Rightarrow> u8 list" where
  "audio_frame = (\<lambda>(ts, pcm, k). any_frame 2 (audio_payload ts pcm) k)"

lemma audio_stream:
  assumes "cb_audio (callbacks c) = Some f"
  shows "idle x \<Longrightarrow> message_capacity x < 2 ^ 64 \<Longrightarrow> list_all (\<lambda>(ts, pcm, k). is_i64 ts \<and> length pcm + 9 \<le> message_capacity x) ms \<Longrightarrow>
    \<exists>y. feed_loop (Some (on_message t hal)) x (concat (map audio_frame ms)) (c, w) =
      (EAF_OK, y, c, fold (\<lambda>(ts, pcm, k). f (stream c) ts pcm) ms w) \<and> idle y"
proof (induction ms arbitrary: x w)
  case Nil
  then show ?case by (simp add: feed_loop.simps)
next
  case (Cons m ms)
  obtain ts pcm k where m: "m = (ts, pcm, k)" by (metis prod_cases3)
  have ts: "is_i64 ts" and fits: "frame_fits (message_capacity x) 2 (audio_payload ts pcm)"
    using Cons.prems(2,3) m by (simp_all add: audio_fits)
  note A = on_message_audio [OF ts assms, of t hal w pcm]
  obtain y where y: "feed_loop (Some (on_message t hal)) x (any_frame 2 (audio_payload ts pcm) k) (c, w) = (EAF_OK, y, c, f (stream c) ts pcm w)"
      "idle y" "message_capacity y = message_capacity x"
    using decode_any_frame [OF Cons.prems(1) fits, of k "on_message t hal" "(c, w)"] A by (auto simp: audio_payload_def)
  have ok: "rx_ok x" using Cons.prems(1) by (simp add: idle_def)
  show ?case
    using feed_loop_append [OF ok, of "Some (on_message t hal)" "any_frame 2 (audio_payload ts pcm) k" "concat (map audio_frame ms)" "(c, w)"]
      Cons.IH [OF y(2), of "f (stream c) ts pcm w"] Cons.prems(2,3) y
    by (simp add: m audio_frame_def)
qed

text \<open>
  C22: Audio reaches the application as the server sent it: for a client with an audio callback whose receiver is between frames, a
  sequence of audio messages that fit its buffer of 8192 bytes, each in an unmasked frame (as servers send them) or in a masked one, cut into reads
  anywhere, calls the audio callback once for each, in order, with the format of the stream, the signed 64-bit timestamp and
  exactly the samples of the message.
\<close>

theorem client_audio_delivered:
  assumes "idle (rx c)" and "message_capacity (rx c) = 8192" and "cb_audio (callbacks c) = Some f"
    and "list_all (\<lambda>(ts, pcm, k). is_i64 ts \<and> length pcm + 9 \<le> 8192) ms" and "concat reads = concat (map audio_frame ms)"
  shows "\<exists>y. feed_chunks (on_message t hal) (rx c) reads (c, w) = (EAF_OK, y, c, fold (\<lambda>(ts, pcm, k). f (stream c) ts pcm) ms w) \<and> idle y"
  using audio_stream [OF assms(3,1), of ms t hal w] assms(1,2,4,5) by (simp add: feed_chunks_loop idle_def)

definition example_filter :: eaf_sendspin_time_filter_t where
  "example_filter = \<lparr>tf_count = 0, tf_last_update = 0, tf_offset = Fin 0, tf_drift = Fin 0, offset_covariance = Fin 0, offset_drift_covariance = Fin 0,
     drift_covariance = Fin 0, process_variance = Fin 0, drift_process_variance = Fin 0, forget_variance_factor = Fin 0,
     element = \<lparr>el_last_update = 0, el_offset = Fin 0, el_drift = Fin 0, use_drift = False\<rparr>\<rparr>"

definition example_client :: "(int \<times> u8 list) list eaf_sendspin_client_t" where
  "example_client = (eaf_sendspin_client_init (Fin 0) example_client_config
     (Some (no_callbacks\<lparr>cb_audio := Some (\<lambda>st ts pcm played. played @ [(ts, pcm)]), cb_disconnected := Some (\<lambda>played. played @ [(0, [])])\<rparr>)) example_filter)
     \<lparr>sp_tcp := \<lparr>tcp_fd = 1, tcp_open = True\<rparr>, client_state := EAF_SENDPIN_CLIENT_WS\<rparr>"

lemma example_client_facts:
  shows "idle (rx example_client)" and "message_capacity (rx example_client) = 8192"
    and "tcp_open (sp_tcp example_client)" and "\<not> notified example_client"
    and "cb_audio (callbacks example_client) = Some (\<lambda>st ts pcm played. played @ [(ts, pcm)])"
    and "cb_disconnected (callbacks example_client) = Some (\<lambda>played. played @ [(0, [])])"
  using rx_init_ok [of "Some (replicate 8192 0)" 8192]
  by (simp_all add: example_client_def eaf_sendspin_client_init_def idle_def eaf_sendspin_ws_rx_init_def)

definition example_audio :: "(int \<times> u8 list \<times> u32 option) list" where
  "example_audio = [(-5, [1, 2], None), (10, [3, 4, 5], Some 78)]"

definition example_server :: "(int \<times> u8 list) list hal_net" where
  "example_server = \<lparr>net_connect = (\<lambda>tcp ip port ms w. (EAF_IO, tcp, w)), net_send = (\<lambda>tcp data w. (EAF_OK, length data, w)),
     net_recv = (\<lambda>tcp cap w. (EAF_OK, any_frame 8 [3, 232] None @ audio_frame (10, [7, 8], None), w)),
     net_close = (\<lambda>tcp w. (tcp\<lparr>tcp_open := False\<rparr>, w)), net_time_us = (\<lambda>w. (5, w))\<rparr>"

theorem client_audio_delivered_witness:
  "\<exists>y. feed_chunks (on_message (exact 0) example_server) (rx example_client)
      [take 11 (concat (map audio_frame example_audio)), drop 11 (concat (map audio_frame example_audio))] (example_client, []) =
    (EAF_OK, y, example_client, [(-5, [1, 2]), (10, [3, 4, 5])]) \<and> idle y"
proof -
  have "list_all (\<lambda>(ts, pcm, k). is_i64 ts \<and> length pcm + 9 \<le> 8192) example_audio" by (simp add: example_audio_def is_i64_def)
  moreover have "concat [take 11 (concat (map audio_frame example_audio)), drop 11 (concat (map audio_frame example_audio))] =
      concat (map audio_frame example_audio)" by (simp only: concat.simps append_Nil2 append_take_drop_id)
  moreover have "fold (\<lambda>(ts, pcm, k) played. played @ [(ts, pcm)]) example_audio [] = [(-5, [1, 2]), (10, [3, 4, 5])]"
    by (simp add: example_audio_def)
  ultimately show ?thesis
    using client_audio_delivered [OF example_client_facts(1,2,5), of example_audio _ "exact 0" example_server "[]"] by (simp only:)
qed

text \<open>
  C36: A close frame does not end the session within its read: when one read of an open connection holds a close frame (masked, or
  unmasked with a reason) and an audio message that fits the buffer, the audio still reaches the application, after
  the application has been told that the client is disconnected and the connection is closed.
\<close>

theorem client_audio_after_close:
  assumes "idle (rx c)" and "message_capacity (rx c) = 8192" and "tcp_open (sp_tcp c)" and "\<not> notified c"
    and "cb_audio (callbacks c) = Some f" and "cb_disconnected (callbacks c) = Some g"
    and "length p \<le> 125" and "k \<noteq> None \<or> p \<noteq> []" and "is_i64 ts" and "length pcm + 9 \<le> 8192"
    and "net_recv hal (sp_tcp c) 4096 w = (EAF_OK, any_frame 8 p k @ audio_frame (ts, pcm, k'), v)"
  shows "fst (ws_receive t hal (c, w)) = EAF_OK \<and> client_state (fst (snd (ws_receive t hal (c, w)))) = EAF_SENDPIN_CLIENT_CLOSED \<and>
    snd (snd (ws_receive t hal (c, w))) = f (stream c) ts pcm (g (snd (net_close hal (sp_tcp c) v)))"
proof -
  let ?m = "on_message t hal" and ?n = "of_nat (length (any_frame 8 p k @ audio_frame (ts, pcm, k')))"
  let ?c = "c\<lparr>rx_total := rx_total c + ?n\<rparr>"
  obtain tcp x where n: "net_close hal (sp_tcp c) v = (tcp, x)" by fastforce
  let ?d = "?c\<lparr>sp_tcp := tcp, client_state := EAF_SENDPIN_CLIENT_CLOSED, handshaken := False, stream_active := False, notified := True\<rparr>"
  have M: "?m (?c, v) 8 p = (EAF_OK, ?d, g x)" using assms(3,4,6) n by (simp add: on_message_def notify_closed_def call_def)
  have "frame_fits (message_capacity (rx c)) 8 p" using assms(2,7) by (simp add: frame_fits_def frame_op_def is_control_def)
  then obtain y where y: "feed_loop (Some ?m) (rx c) (any_frame 8 p k) (?c, v) = (EAF_OK, y, ?d, g x)" "idle y" "message_capacity y = 8192"
    using decode_any_frame [OF assms(1) _ assms(8), of 8 ?m "(?c, v)"] M assms(2) by auto
  obtain z where z: "feed_loop (Some ?m) y (audio_frame (ts, pcm, k')) (?d, g x) = (EAF_OK, z, ?d, f (stream ?d) ts pcm (g x))"
    using audio_stream [of ?d f y "[(ts, pcm, k')]" t hal "g x"] y(2,3) assms(5,9,10) by auto
  have ok: "rx_ok (rx c)" using assms(1) by (simp add: idle_def)
  have "feed_loop (Some ?m) (rx c) (any_frame 8 p k @ audio_frame (ts, pcm, k')) (?c, v) = (EAF_OK, z, ?d, f (stream c) ts pcm (g x))"
    using feed_loop_append [OF ok, of "Some ?m" "any_frame 8 p k" "audio_frame (ts, pcm, k')" "(?c, v)"] y(1) z by simp
  then show ?thesis using assms(11) n by (simp add: ws_receive_def rx_feed_loop [OF ok])
qed

theorem client_audio_after_close_witness:
  "snd (snd (ws_receive (exact 0) example_server (example_client, []))) = [(0, []), (10, [7, 8])]"
  using client_audio_after_close [OF example_client_facts, of "[3, 232]" None 10 "[7, 8]" example_server "[]" None "[]" "exact 0"]
  by (simp add: is_i64_def example_server_def)

end
