(* ===== verification/Spec2Isabelle.thy ===== *)
theory Spec2Isabelle
  imports EAF_Prelude Ring_Memory FIFO_Spec EAF_Float EAF_Types EAF_Bytes Control_Queue Reservoir Dec_Input DSP Sync
    Pipeline Decoder Dec_PCM Dec_Opus Dec_Vorbis WAV_Source Sendspin_JSON Sendspin_Messages Chunked Sendspin_WS Sendspin_Frames
    Net LMS_Protocol LMS_Client LMS_Control_Props LMS_Client_Inv LMS_Client_Props
    BT_Ingress BT_Volume BT_Decoder Sink_Spec Sink_Null Sink_I2S Sink_I2S_DMA Pipeline_Devices Sendspin_Sync
    Sendspin_Player Sendspin_Player_Props Sendspin_Client Sendspin_Client_Props
begin

text \<open>
  Verification of the Embedded Audio Framework, a C11 library for audio players on Linux, Zephyr and ESP-IDF.

  \<^bold>\<open>The program.\<close> Samples are Q1.31 integers in interleaved blocks. A producer (a decode worker, a Bluetooth
  worker, an LMS or Sendspin client) writes frames into a lock-free \<^emph>\<open>reservoir\<close>. The audio thread runs a
  \<^emph>\<open>pipeline\<close> (\<open>core/eaf_graph.c\<close>) that takes one block from the reservoir, sends it through DSP nodes and
  commits it to a \<^emph>\<open>sink\<close>, padding with silence when the reservoir runs dry. Commands reach the audio thread
  through a \<^emph>\<open>control queue\<close>. Network sources speak SlimProto (LMS) or the Sendspin protocol (JSON over WebSocket,
  with a Kalman filter for the clock of the server); Bluetooth sources deliver SBC packets.

  \<^bold>\<open>Conventions\<close> (\<open>EAF_Prelude\<close>). Unsigned C integers are words of their width, signed ones are \<open>int\<close> with every
  narrowing cast written out, arrays are lists, a struct is a record whose fields keep their C names (with a prefix where two structs
  share one), result codes are \<open>eaf_result_t\<close>. An operation is a function from the object (and its arguments) to the result and the new object.
  Callbacks, drivers, sockets and clocks are function arguments or records of functions over a state of
  arbitrary type; nothing is assumed of them unless a theorem says so. Where C leaves the value of an expression undefined, it is a parameter. \<open>double\<close> arithmetic (\<open>EAF_Float\<close>) takes the rounding
  of every operation as a parameter.

  \<^bold>\<open>Theories and the code they model.\<close>
  \<^item> Shared: \<open>EAF_Prelude\<close> (machine arithmetic, block copies), \<open>EAF_Float\<close>, \<open>Ring_Memory\<close> (power-of-two and modular rings), \<open>FIFO_Spec\<close>
    (locale \<open>bounded_fifo\<close>, the contract of all queues), \<open>Chunked\<close> (locale \<open>chunked_loop\<close>: a parser that does not depend on how its input is cut).
  \<^item> Core (\<open>core/\<close>, \<open>include/eaf/\<close>): \<open>EAF_Types\<close> (formats, PCM widening), \<open>EAF_Bytes\<close>, \<open>Control_Queue\<close> (sequentially and split
    at its atomic accesses, as a step relation), \<open>Reservoir\<close>, \<open>Dec_Input\<close>, \<open>DSP\<close>, \<open>Sync\<close> (drift controller, resampler), \<open>Pipeline\<close>,
    \<open>Decoder\<close> (adapter contract as locale \<open>decoder_adapter\<close>, worker), the adapters \<open>Dec_PCM\<close>,
    \<open>Dec_Opus\<close> and \<open>Dec_Vorbis\<close> (over any codec library), \<open>WAV_Source\<close> (RIFF files).
  \<^item> Sinks (\<open>hal/common/\<close>): \<open>Sink_Spec\<close> (locale \<open>sink_contract\<close>, the comments of \<open>eaf_hal.h\<close>), \<open>Sink_Null\<close>, \<open>Sink_I2S\<close> with \<open>Sink_I2S_DMA\<close> (ownership of DMA blocks);
    \<open>Pipeline_Devices\<close> shows that these sinks and the DSP nodes meet what the pipeline asks of its devices.
  \<^item> Network: \<open>Net\<close> (\<open>hal/net/tcp_impl.h\<close> over system calls), \<open>LMS_Protocol\<close>, \<open>LMS_Client\<close> with its proofs in \<open>LMS_Control_Props\<close>,
    \<open>LMS_Client_Inv\<close> and \<open>LMS_Client_Props\<close>; \<open>Sendspin_JSON\<close>, \<open>Sendspin_Messages\<close>, \<open>Sendspin_WS\<close> with \<open>Sendspin_Frames\<close>,
    \<open>Sendspin_Sync\<close> (time filter), \<open>Sendspin_Player\<close> with \<open>Sendspin_Player_Props\<close> (chunks to frames, rate control) and
    \<open>Sendspin_Client\<close> with \<open>Sendspin_Client_Props\<close> (handshake, dispatch, outgoing queue).
  \<^item> Bluetooth (\<open>apps/bt/\<close>): \<open>BT_Ingress\<close>, \<open>BT_Volume\<close>, \<open>BT_Decoder\<close> (worker and the adapter of the SBC library).

  \<^bold>\<open>What the lemmas show.\<close>
  \<^item> Queues refine one abstract bounded FIFO (\<open>bounded_fifo\<close>, interpreted for the control queue and the Bluetooth ingress); the
    reservoir delivers exactly the accepted samples in order through every mixture of writes, pulls, underruns and finish; the control queue is
    also correct under every interleaving of one producer and one consumer.
  \<^item> The pipeline keeps its life cycle, and commits one well-formed block or none, for every sink that keeps an invariant of its driver state and lends arrays of
    the size it declares (the null sink and the I2S core do) and nodes that work in place (the DSP nodes do), whatever errors they return.
  \<^item> Decoders, the workers and the Bluetooth path neither lose nor repeat frames; the PCM paths equal a reference decoder on two's-complement values.
  \<^item> DSP loops equal per-channel reference filters and stay within their integer ranges; the resampler interpolates and never overshoots where its additions are defined.
  \<^item> Parsers (JSON, WebSocket frames, SlimProto) agree with a tree or frame grammar, are independent of the chunking of the
    stream, stay in their buffers for every input, and round-trip with the builders.
  \<^item> The time filter is the textbook Kalman filter in exact arithmetic, and its invariants hold after every sequence of samples.
  \<^item> Against any server, network and application the clients (LMS, Sendspin) keep their buffers and states consistent; what the Sendspin client
    sends is always an upgrade request followed by whole frames of the protocol, and audio messages reach the application in order. The
    Sendspin player keeps its invariant, decodes PCM as the reference does, and its rate control is exact over time.
  \<^item> The theorems of kind \<^emph>\<open>error\<close> state defects: behaviour that the code has and does not intend.

  \<^bold>\<open>Loops and fuel.\<close> All loops are total recursive functions. Loops with a bounded number of passes in C (the pump of
  the LMS client, the decode loops of the Sendspin player) recurse on that bound; the JSON scanners recurse on the text; the read of the
  decoder input takes the list of outcomes of its waits, and a wait without an outcome is the value \<open>None\<close> of a call that has not
  returned.

  \<^bold>\<open>Not modelled.\<close> The operating-system layers (\<open>hal/linux\<close>, \<open>hal/zephyr\<close>, \<open>hal/esp_idf\<close>) are sequences of calls of
  POSIX, Zephyr or ESP-IDF functions; their effect is what the parameters \<open>hal_net\<close>, \<open>hal_clock\<close> and the backends stand for. The
  programs under \<open>platform/\<close> wire boards, drivers and clients together. \<open>third_party/\<close> is vendored; \<open>tests/\<close> and \<open>tools/\<close> are not part of the product. Data races
  beyond the control queue's atomic accesses, real time and floating-point rounding errors are outside the models.
\<close>

end
